(* ===== verification/Prelude.thy ===== *)
theory Prelude
  imports Main "HOL-Library.Word"
begin

text \<open>
  Shared material of the development: the C++ exception type and the result type the models of
  throwing functions use, names for the machine integer types of the sources, the collections of
  rewrite rules the component theories fill, and generic lemmas on lists, counts and words.

  \<^item> A \<^verbatim>\<open>std::uintN_t\<close> is an \<open>N word\<close>; \<open>+\<close>, \<open>-\<close> and \<open>*\<close> wrap as the C++ operators do.
  \<^item> A \<^verbatim>\<open>std::size_t\<close> that counts elements of a container in memory is a \<open>nat\<close>; where the sources
    subtract, the guard that keeps the difference non-negative is part of the model.
  \<^item> A signed counter is an \<open>int\<close>; signed overflow is undefined in C++, so the theories that use
    such counters prove that they stay inside the range of the type.
  \<^item> A C++ exception is a value of \<open>exn\<close>; a function that may throw returns an \<open>exn + 'a\<close>.
\<close>

datatype exn =
    InvalidArgument string
  | OutOfRange string
  | RuntimeError string
  | LogicError string
  | LengthError string

type_synonym 'a result = "exn + 'a"

type_synonym u8 = "8 word"
type_synonym u16 = "16 word"
type_synonym u32 = "32 word"
type_synonym u64 = "64 word"

named_theorems model_defs \<open>the definitions of operations, for unfolding on concrete inputs\<close>
named_theorems inv_intros \<open>preservation of the components' invariants\<close>

section \<open>Results\<close>

fun bind_result :: "'e + 'a \<Rightarrow> ('a \<Rightarrow> 'e + 'b) \<Rightarrow> 'e + 'b" where
  "bind_result (Inl e) f = Inl e"
| "bind_result (Inr x) f = f x"

lemma bind_result_eq_Inr [simp]:
  "bind_result m f = Inr y \<longleftrightarrow> (\<exists>x. m = Inr x \<and> f x = Inr y)"
  by (cases m) auto

fun map_result :: "('a \<Rightarrow> 'e + 'b) \<Rightarrow> 'a list \<Rightarrow> 'e + 'b list" where
  "map_result f [] = Inr []"
| "map_result f (x # xs) = bind_result (f x) (\<lambda>y. bind_result (map_result f xs) (\<lambda>ys. Inr (y # ys)))"

lemma map_result_all: "(\<And>x. x \<in> set xs \<Longrightarrow> f x = Inr (g x)) \<Longrightarrow> map_result f xs = Inr (map g xs)"
  by (induction xs) simp_all

lemma map_result_Inr_all:
  "map_result f xs = Inr ys \<Longrightarrow> list_all2 (\<lambda>x y. f x = Inr y) xs ys"
  by (induction xs arbitrary: ys) auto

definition is_ok :: "'e + 'a \<Rightarrow> bool" where
  "is_ok r = (case r of Inl _ \<Rightarrow> False | Inr _ \<Rightarrow> True)"

lemma is_ok_simps [simp]: "\<not> is_ok (Inl e)" "is_ok (Inr x)"
  by (simp_all add: is_ok_def)

section \<open>Counting elements of lists\<close>

lemma length_filter_update:
  assumes "i < length xs"
  shows "length (filter P (xs[i := y])) + (if P (xs ! i) then 1 else 0)
       = length (filter P xs) + (if P y then 1 else 0)"
  using assms
proof (induction xs arbitrary: i)
  case Nil
  then show ?case by simp
next
  case (Cons x xs)
  show ?case
  proof (cases i)
    case 0
    then show ?thesis by simp
  next
    case (Suc j)
    with Cons.prems have "j < length xs" by simp
    from Cons.IH [OF this] Suc show ?thesis by simp
  qed
qed

lemma sum_list_map_update:
  fixes f :: "'a \<Rightarrow> nat"
  assumes "i < length xs"
  shows "sum_list (map f (xs[i := y])) + f (xs ! i) = sum_list (map f xs) + f y"
  using assms
proof (induction xs arbitrary: i)
  case Nil
  then show ?case by simp
next
  case (Cons x xs)
  show ?case
  proof (cases i)
    case 0
    then show ?thesis by simp
  next
    case (Suc j)
    with Cons.prems have "j < length xs" by simp
    from Cons.IH [OF this] Suc show ?thesis by simp
  qed
qed

lemma sum_list_filter_split:
  fixes f :: "'a \<Rightarrow> nat"
  shows "sum_list (map f xs) = sum_list (map f (filter P xs)) + sum_list (map f (filter (\<lambda>x. \<not> P x) xs))"
  by (induction xs) auto

lemma member_le_sum_list:
  fixes f :: "'a \<Rightarrow> nat"
  shows "x \<in> set xs \<Longrightarrow> f x \<le> sum_list (map f xs)"
  by (induction xs) auto

lemma two_members_le_sum_list:
  fixes f :: "'a \<Rightarrow> nat"
  assumes "i < j" "j < length xs"
  shows "f (xs ! i) + f (xs ! j) \<le> sum_list (map f xs)"
proof -
  have split: "xs = take j xs @ xs ! j # drop (Suc j) xs"
    using assms(2) by (simp add: id_take_nth_drop)
  have "xs ! i \<in> set (take j xs)"
    using assms by (auto simp: in_set_conv_nth intro!: exI [of _ i])
  then have "f (xs ! i) \<le> sum_list (map f (take j xs))"
    by (rule member_le_sum_list)
  moreover have "sum_list (map f xs)
      = sum_list (map f (take j xs)) + f (xs ! j) + sum_list (map f (drop (Suc j) xs))"
    by (subst split) simp
  ultimately show ?thesis by simp
qed

section \<open>Words as indices\<close>

lemma unat_word_of_nat_u32 [simp]:
  "n < 2 ^ 32 \<Longrightarrow> unat (word_of_nat n :: u32) = n"
  by (simp add: unat_of_nat take_bit_nat_eq_self)

lemma u32_lt_pow [simp]: "unat (w :: u32) < 2 ^ 32"
  using unsigned_less [of w] by simp

lemma nth_update_unat:
  "xs[unat v := d] ! unat w = (if v = w \<and> unat v < length xs then d else xs ! unat w)"
  by (cases "v = w") (auto simp: word_unat_eq_iff list_update_beyond)

lemma unat_plus_one_u64:
  fixes w :: u64
  assumes "w \<noteq> - 1"
  shows "unat (w + 1) = Suc (unat w)"
  using assms by (metis Suc_eq_plus1 unat_1 add.commute add.left_neutral unatSuc add_eq_0_iff)

lemma unat_plus_one_u32:
  fixes w :: u32
  assumes "w \<noteq> - 1"
  shows "unat (w + 1) = Suc (unat w)"
  using assms by (metis Suc_eq_plus1 unat_1 add.commute add.left_neutral unatSuc add_eq_0_iff)

lemma unat_minus_one_u32:
  fixes w :: u32
  assumes "w \<noteq> 0"
  shows "unat (w - 1) = unat w - 1"
  using assms by (simp add: unat_minus_one)

end
