(* ===== verification/PoolInterface.thy ===== *)
theory PoolInterface
  imports Prelude
begin

text \<open>
  The contract the paged-KV sequences and the request scheduler rely on: a pool of blocks with
  reference counts. \<open>rc p w\<close> is the number of references to block \<open>w\<close>, \<open>free p\<close> the number of
  blocks that can still be handed out. The lemmas proved here from the laws alone are about whole
  lists of releases, which is how sequences give their block tables back.
\<close>

locale block_pool =
  fixes inv :: "'p \<Rightarrow> bool"
    and rc :: "'p \<Rightarrow> u32 \<Rightarrow> nat"
    and free :: "'p \<Rightarrow> nat"
    and alloc :: "'p \<Rightarrow> u32 \<times> 'p"
    and rel :: "u32 \<Rightarrow> 'p \<Rightarrow> 'p"
    and invalid :: u32
  assumes alloc_inv: "inv p \<Longrightarrow> inv (snd (alloc p))"
    and rel_inv: "inv p \<Longrightarrow> inv (rel w p)"
    and alloc_exhausted: "inv p \<Longrightarrow> fst (alloc p) = invalid \<longleftrightarrow> free p = 0"
    and alloc_fail: "inv p \<Longrightarrow> fst (alloc p) = invalid \<Longrightarrow> snd (alloc p) = p"
    and alloc_fresh: "inv p \<Longrightarrow> fst (alloc p) \<noteq> invalid \<Longrightarrow> rc p (fst (alloc p)) = 0"
    and alloc_rc: "inv p \<Longrightarrow> fst (alloc p) \<noteq> invalid \<Longrightarrow>
      rc (snd (alloc p)) = (rc p)(fst (alloc p) := 1)"
    and alloc_free: "inv p \<Longrightarrow> fst (alloc p) \<noteq> invalid \<Longrightarrow> free p = Suc (free (snd (alloc p)))"
    and rel_rc: "inv p \<Longrightarrow> rc (rel w p) = (rc p)(w := rc p w - 1)"
    and rel_free: "inv p \<Longrightarrow> free (rel w p) = free p + (if rc p w = 1 then 1 else 0)"
begin

lemma rel_list_inv: "inv p \<Longrightarrow> inv (fold rel ws p)"
  by (induction ws arbitrary: p) (simp_all add: rel_inv)

lemma rel_list_rc: "inv p \<Longrightarrow> rc (fold rel ws p) w = rc p w - count_list ws w"
  by (induction ws arbitrary: p) (simp_all add: rel_inv rel_rc)

lemma rel_list_free_sole:
  "inv p \<Longrightarrow> distinct ws \<Longrightarrow> (\<And>w. w \<in> set ws \<Longrightarrow> rc p w = 1) \<Longrightarrow>
   free (fold rel ws p) = free p + length ws"
proof (induction ws arbitrary: p)
  case Nil
  then show ?case by simp
next
  case (Cons w ws)
  have "rc (rel w p) v = 1" if "v \<in> set ws" for v
  proof -
    from that Cons.prems(2) have "v \<noteq> w" by auto
    then show ?thesis using that Cons.prems(3) [of v] rel_rc [OF Cons.prems(1)] by simp
  qed
  then have "free (fold rel ws (rel w p)) = free (rel w p) + length ws"
    using Cons.prems Cons.IH [of "rel w p"] by (simp add: rel_inv)
  moreover have "free (rel w p) = Suc (free p)"
    using Cons.prems(1) Cons.prems(3) [of w] rel_free by simp
  ultimately show ?case by simp
qed

lemma alloc_then_rel_free:
  assumes "inv p" "fst (alloc p) \<noteq> invalid"
  shows "free (rel (fst (alloc p)) (snd (alloc p))) = free p"
    and "rc (rel (fst (alloc p)) (snd (alloc p))) = rc p"
  using assms alloc_free [OF assms] alloc_inv [OF assms(1)] alloc_fresh [OF assms]
  by (auto simp: rel_free rel_rc alloc_rc fun_eq_iff)

end

text \<open>
  The pool as the hash chain of the paged sequences sees it: every live block carries one 64-bit
  hash, which only an explicit store, the reuse of the block or its last release changes.
\<close>

locale hashed_pool = block_pool inv rc free alloc rel invalid
  for inv :: "'p \<Rightarrow> bool" and rc :: "'p \<Rightarrow> u32 \<Rightarrow> nat" and free :: "'p \<Rightarrow> nat"
    and alloc :: "'p \<Rightarrow> u32 \<times> 'p" and rel :: "u32 \<Rightarrow> 'p \<Rightarrow> 'p" and invalid :: u32 +
  fixes hash :: "'p \<Rightarrow> u32 \<Rightarrow> u64"
    and put :: "u32 \<Rightarrow> u64 \<Rightarrow> 'p \<Rightarrow> 'p"
  assumes put_inv: "inv p \<Longrightarrow> inv (put w h p)"
    and put_rc: "rc (put w h p) = rc p"
    and put_free: "free (put w h p) = free p"
    and put_hash: "hash (put w h p) = (if rc p w = 0 then hash p else (hash p)(w := h))"
    and alloc_hash: "inv p \<Longrightarrow> fst (alloc p) \<noteq> v \<Longrightarrow> hash (snd (alloc p)) v = hash p v"
    and rel_hash: "inv p \<Longrightarrow> rc (rel w p) v \<noteq> 0 \<Longrightarrow> hash (rel w p) v = hash p v"
begin

lemma rel_list_hash:
  "inv p \<Longrightarrow> rc (fold rel ws p) v \<noteq> 0 \<Longrightarrow> hash (fold rel ws p) v = hash p v"
proof (induction ws arbitrary: p)
  case Nil
  then show ?case by simp
next
  case (Cons w ws)
  have inv': "inv (rel w p)" using Cons.prems(1) by (rule rel_inv)
  with Cons.prems have "rc (rel w p) v \<noteq> 0"
    by (auto simp: rel_list_rc)
  with Cons.prems inv' show ?case by (simp add: Cons.IH rel_hash)
qed

end

end
