(* ===== verification/BlockAllocator.thy ===== *)
theory BlockAllocator
  imports PoolInterface
begin

text \<open>
  The logical block pool of the paged KV cache, \<^verbatim>\<open>PagedKvBlockAllocator\<close>
  (\<^verbatim>\<open>src/runtime/serving/PagedKvBlockAllocator.{hpp,cpp}\<close>): block descriptors indexed by physical
  id, a LIFO free list, reference counts and per-block hashes.

  The vector \<^verbatim>\<open>_freeList\<close> is the list \<open>pa_freeList\<close> in vector order: \<^verbatim>\<open>push_back\<close> appends at the
  end, \<^verbatim>\<open>back\<close> is \<open>last\<close> and \<^verbatim>\<open>pop_back\<close> is \<open>butlast\<close>. Reference counts are 32-bit words and
  wrap, so the preservation lemma for \<open>addRef\<close> asks that the count is not at its maximum.
\<close>

record BlockDescriptor =
  bd_refcount :: u32
  bd_hash :: u64

record PagedKvBlockAllocator =
  pa_blockSize :: nat
  pa_blocks :: "BlockDescriptor list"
  pa_freeList :: "u32 list"

definition kInvalidBlock :: u32 where
  "kInvalidBlock = - 1"

text \<open>The constructor's loop \<^verbatim>\<open>for (i = numBlocks; i > 0; --i) _freeList.push_back(i - 1)\<close>.\<close>

fun fillFreeList :: "nat \<Rightarrow> u32 list \<Rightarrow> u32 list" where
  "fillFreeList 0 fl = fl"
| "fillFreeList (Suc i) fl = fillFreeList i (fl @ [word_of_nat i])"

definition newAllocator :: "nat \<Rightarrow> nat \<Rightarrow> PagedKvBlockAllocator result" where
  "newAllocator numBlocks blockSize =
     (if numBlocks = 0 then Inl (InvalidArgument ''PagedKvBlockAllocator: numBlocks must be > 0'')
      else if blockSize = 0 then Inl (InvalidArgument ''PagedKvBlockAllocator: blockSize must be > 0'')
      else Inr \<lparr>pa_blockSize = blockSize,
                pa_blocks = replicate numBlocks \<lparr>bd_refcount = 0, bd_hash = 0\<rparr>,
                pa_freeList = fillFreeList numBlocks []\<rparr>)"

definition allocate :: "PagedKvBlockAllocator \<Rightarrow> u32 \<times> PagedKvBlockAllocator" where
  "allocate a =
     (if pa_freeList a = [] then (kInvalidBlock, a)
      else let bid = last (pa_freeList a) in
        (bid, a\<lparr>pa_freeList := butlast (pa_freeList a),
                pa_blocks := (pa_blocks a)[unat bid := \<lparr>bd_refcount = 1, bd_hash = 0\<rparr>]\<rparr>))"

definition addRef :: "u32 \<Rightarrow> PagedKvBlockAllocator \<Rightarrow> PagedKvBlockAllocator" where
  "addRef blockId a =
     (if unat blockId \<ge> length (pa_blocks a) then a
      else let d = pa_blocks a ! unat blockId in
        if bd_refcount d = 0 then a
        else a\<lparr>pa_blocks := (pa_blocks a)[unat blockId := d\<lparr>bd_refcount := bd_refcount d + 1\<rparr>]\<rparr>)"

definition release :: "u32 \<Rightarrow> PagedKvBlockAllocator \<Rightarrow> PagedKvBlockAllocator" where
  "release blockId a =
     (if unat blockId \<ge> length (pa_blocks a) then a
      else let d = pa_blocks a ! unat blockId in
        if bd_refcount d = 0 then a
        else let d' = d\<lparr>bd_refcount := bd_refcount d - 1\<rparr> in
          if bd_refcount d' = 0
          then a\<lparr>pa_blocks := (pa_blocks a)[unat blockId := d'\<lparr>bd_hash := 0\<rparr>],
                 pa_freeList := pa_freeList a @ [blockId]\<rparr>
          else a\<lparr>pa_blocks := (pa_blocks a)[unat blockId := d']\<rparr>)"

definition setHash :: "u32 \<Rightarrow> u64 \<Rightarrow> PagedKvBlockAllocator \<Rightarrow> PagedKvBlockAllocator" where
  "setHash blockId h a =
     (if unat blockId \<ge> length (pa_blocks a) then a
      else let d = pa_blocks a ! unat blockId in
        if bd_refcount d = 0 then a
        else a\<lparr>pa_blocks := (pa_blocks a)[unat blockId := d\<lparr>bd_hash := h\<rparr>]\<rparr>)"

definition hashOf :: "PagedKvBlockAllocator \<Rightarrow> u32 \<Rightarrow> u64" where
  "hashOf a blockId =
     (if unat blockId \<ge> length (pa_blocks a) then 0 else bd_hash (pa_blocks a ! unat blockId))"

definition refcountOf :: "PagedKvBlockAllocator \<Rightarrow> u32 \<Rightarrow> u32" where
  "refcountOf a blockId =
     (if unat blockId \<ge> length (pa_blocks a) then 0 else bd_refcount (pa_blocks a ! unat blockId))"

definition numBlocksTotal :: "PagedKvBlockAllocator \<Rightarrow> nat" where
  "numBlocksTotal a = length (pa_blocks a)"

definition numBlocksFree :: "PagedKvBlockAllocator \<Rightarrow> nat" where
  "numBlocksFree a = length (pa_freeList a)"

definition numBlocksUsed :: "PagedKvBlockAllocator \<Rightarrow> nat" where
  "numBlocksUsed a = length (pa_blocks a) - length (pa_freeList a)"

lemmas allocator_defs [model_defs] =
  kInvalidBlock_def newAllocator_def allocate_def addRef_def release_def setHash_def
  hashOf_def refcountOf_def numBlocksTotal_def numBlocksFree_def numBlocksUsed_def

section \<open>The pool invariant\<close>

text \<open>
  The free list holds, without repetition, exactly the ids of the blocks whose reference count is
  zero; a free block carries no hash; and the pool is small enough for the sentinel
  \<open>kInvalidBlock\<close> not to be an id.
\<close>

definition pool_inv :: "PagedKvBlockAllocator \<Rightarrow> bool" where
  "pool_inv a \<longleftrightarrow>
     0 < pa_blockSize a \<and> length (pa_blocks a) < 2 ^ 32 \<and> distinct (pa_freeList a) \<and>
     (\<forall>w. w \<in> set (pa_freeList a) \<longleftrightarrow> unat w < length (pa_blocks a) \<and> refcountOf a w = 0) \<and>
     (\<forall>w. refcountOf a w = 0 \<longrightarrow> hashOf a w = 0)"

lemma pool_invD:
  assumes "pool_inv a"
  shows "0 < pa_blockSize a" "length (pa_blocks a) < 2 ^ 32" "distinct (pa_freeList a)"
    "\<And>w. w \<in> set (pa_freeList a) \<longleftrightarrow> unat w < length (pa_blocks a) \<and> refcountOf a w = 0"
    "\<And>w. refcountOf a w = 0 \<Longrightarrow> hashOf a w = 0"
  using assms by (auto simp: pool_inv_def)

lemma fillFreeList_eq: "fillFreeList n fl = fl @ map word_of_nat (rev [0..<n])"
  by (induction n arbitrary: fl) simp_all

lemma distinct_fillFreeList:
  assumes "n < 2 ^ 32"
  shows "distinct (fillFreeList n [])"
proof -
  have "inj_on (word_of_nat :: nat \<Rightarrow> u32) {0..<n}"
  proof (rule inj_onI)
    fix x y assume "x \<in> {0..<n}" "y \<in> {0..<n}" and eq: "(word_of_nat x :: u32) = word_of_nat y"
    with assms have "x < 2 ^ 32" "y < 2 ^ 32" by auto
    with eq show "x = y" by (metis unat_word_of_nat_u32)
  qed
  then show ?thesis by (simp add: fillFreeList_eq distinct_map)
qed

lemma set_fillFreeList:
  assumes "n < 2 ^ 32"
  shows "w \<in> set (fillFreeList n []) \<longleftrightarrow> unat w < n"
proof
  assume "w \<in> set (fillFreeList n [])"
  then obtain k where "k < n" "w = word_of_nat k" by (auto simp: fillFreeList_eq)
  with assms show "unat w < n" by simp
next
  assume "unat w < n"
  then show "w \<in> set (fillFreeList n [])"
    by (auto simp: fillFreeList_eq image_iff intro!: bexI [of _ "unat w"])
qed

lemma refcountOf_simps [simp]:
  "refcountOf (a\<lparr>pa_freeList := fl\<rparr>) w = refcountOf a w"
  "refcountOf (a\<lparr>pa_blocks := (pa_blocks a)[unat v := d]\<rparr>) w
     = (if w = v \<and> unat v < length (pa_blocks a) then bd_refcount d else refcountOf a w)"
  by (auto simp: refcountOf_def nth_update_unat)

lemma hashOf_simps [simp]:
  "hashOf (a\<lparr>pa_freeList := fl\<rparr>) w = hashOf a w"
  "hashOf (a\<lparr>pa_blocks := (pa_blocks a)[unat v := d]\<rparr>) w
     = (if w = v \<and> unat v < length (pa_blocks a) then bd_hash d else hashOf a w)"
  by (auto simp: hashOf_def nth_update_unat)

lemma pool_inv_new:
  assumes "newAllocator n b = Inr a" "n < 2 ^ 32"
  shows "pool_inv a"
  using assms distinct_fillFreeList [of n] set_fillFreeList [of n]
  by (auto simp: newAllocator_def pool_inv_def refcountOf_def hashOf_def split: if_splits)

section \<open>What each operation does to counts, hashes and the invariant\<close>

lemma refcountOf_pos_bound: "refcountOf a w \<noteq> 0 \<Longrightarrow> unat w < length (pa_blocks a)"
  by (auto simp: refcountOf_def split: if_splits)

lemma length_blocks_ops [simp]:
  "length (pa_blocks (release w a)) = length (pa_blocks a)"
  "length (pa_blocks (addRef w a)) = length (pa_blocks a)"
  "length (pa_blocks (setHash w h a)) = length (pa_blocks a)"
  "length (pa_blocks (snd (allocate a))) = length (pa_blocks a)"
  by (auto simp: release_def addRef_def setHash_def allocate_def Let_def)

lemma blockSize_ops [simp]:
  "pa_blockSize (release w a) = pa_blockSize a"
  "pa_blockSize (addRef w a) = pa_blockSize a"
  "pa_blockSize (setHash w h a) = pa_blockSize a"
  "pa_blockSize (snd (allocate a)) = pa_blockSize a"
  by (auto simp: release_def addRef_def setHash_def allocate_def Let_def)

lemma freeList_id_valid:
  assumes "pool_inv a" "w \<in> set (pa_freeList a)"
  shows "w \<noteq> kInvalidBlock"
proof
  assume "w = kInvalidBlock"
  moreover have "unat w < length (pa_blocks a)" "length (pa_blocks a) < 2 ^ 32"
    using assms pool_invD by blast+
  ultimately have "unat (- 1 :: u32) < 2 ^ 32 - 1"
    by (simp add: kInvalidBlock_def)
  then show False by (simp add: unsigned_minus_1_eq_mask mask_eq_exp_minus_1)
qed

lemma allocate_cases:
  assumes "pool_inv a"
  obtains (exhausted) "pa_freeList a = []" "allocate a = (kInvalidBlock, a)"
  | (granted) w a' where "allocate a = (w, a')" "w \<noteq> kInvalidBlock" "refcountOf a w = 0"
      "unat w < length (pa_blocks a)" "pa_freeList a = pa_freeList a' @ [w]"
      "refcountOf a' = (refcountOf a)(w := 1)" "hashOf a' = (hashOf a)(w := 0)"
      "length (pa_blocks a') = length (pa_blocks a)" "pa_blockSize a' = pa_blockSize a"
proof (cases "pa_freeList a = []")
  case True
  then show ?thesis using exhausted by (simp add: allocate_def)
next
  case False
  define w where "w = last (pa_freeList a)"
  define a' where "a' = snd (allocate a)"
  have mem: "w \<in> set (pa_freeList a)" using False by (simp add: w_def)
  then have w: "unat w < length (pa_blocks a)" "refcountOf a w = 0"
    using assms pool_invD by blast+
  have eq: "allocate a = (w, a')" using False by (simp add: allocate_def w_def a'_def Let_def)
  have a': "a' = a\<lparr>pa_freeList := butlast (pa_freeList a),
      pa_blocks := (pa_blocks a)[unat w := \<lparr>bd_refcount = 1, bd_hash = 0\<rparr>]\<rparr>"
    using False by (simp add: allocate_def w_def a'_def Let_def)
  have rc: "refcountOf a' = (refcountOf a)(w := 1)"
    and h: "hashOf a' = (hashOf a)(w := 0)"
    using w by (auto simp: a' fun_eq_iff refcountOf_def hashOf_def nth_update_unat)
  have fl: "pa_freeList a = pa_freeList a' @ [w]"
    using False by (simp add: a' w_def)
  show ?thesis
    using granted [OF eq freeList_id_valid [OF assms mem] w(2,1) fl rc h] by (simp add: a')
qed

lemma pool_inv_allocate [inv_intros]:
  assumes "pool_inv a"
  shows "pool_inv (snd (allocate a))"
  using assms
proof (cases rule: allocate_cases)
  case exhausted
  with assms show ?thesis by simp
next
  case (granted w a')
  have dist: "distinct (pa_freeList a')" and "w \<notin> set (pa_freeList a')"
    using pool_invD(3) [OF assms] granted(5) by simp_all
  then have mem: "v \<in> set (pa_freeList a') \<longleftrightarrow> v \<noteq> w \<and> v \<in> set (pa_freeList a)" for v
    using granted(5) by auto
  show ?thesis
    unfolding granted(1) snd_conv pool_inv_def granted(6-9) mem
    using dist pool_invD [OF assms] by auto
qed

lemma release_free: "refcountOf a w = 0 \<Longrightarrow> release w a = a"
  by (auto simp: release_def refcountOf_def Let_def split: if_splits)

lemma release_last:
  assumes "refcountOf a w = 1"
  shows "refcountOf (release w a) = (refcountOf a)(w := 0)"
    and "hashOf (release w a) = (hashOf a)(w := 0)"
    and "pa_freeList (release w a) = pa_freeList a @ [w]"
  using assms
  by (auto simp: release_def refcountOf_def hashOf_def Let_def fun_eq_iff nth_update_unat split: if_splits)

lemma release_shared:
  assumes "refcountOf a w \<noteq> 0" "refcountOf a w \<noteq> 1"
  shows "refcountOf (release w a) = (refcountOf a)(w := refcountOf a w - 1)"
    and "hashOf (release w a) = hashOf a"
    and "pa_freeList (release w a) = pa_freeList a"
  using assms
  by (auto simp: release_def refcountOf_def hashOf_def Let_def fun_eq_iff nth_update_unat split: if_splits)

lemma pool_inv_release [inv_intros]:
  assumes "pool_inv a"
  shows "pool_inv (release w a)"
proof -
  consider "refcountOf a w = 0" | "refcountOf a w = 1"
    | "refcountOf a w \<noteq> 0" "refcountOf a w \<noteq> 1" by blast
  then show ?thesis
  proof cases
    case 1
    with assms show ?thesis by (simp add: release_free)
  next
    case 2
    then have "w \<notin> set (pa_freeList a)" using pool_invD(4) [OF assms] by auto
    with 2 show ?thesis
      using pool_invD [OF assms] refcountOf_pos_bound [of a w]
      by (auto simp: pool_inv_def release_last)
  next
    case 3
    then have "refcountOf a w - 1 \<noteq> 0" by simp
    with 3 show ?thesis
      using pool_invD [OF assms] by (auto simp: pool_inv_def release_shared)
  qed
qed

lemma addRef_effect:
  "refcountOf (addRef w a)
     = (if refcountOf a w = 0 then refcountOf a else (refcountOf a)(w := refcountOf a w + 1))"
  "hashOf (addRef w a) = hashOf a" "pa_freeList (addRef w a) = pa_freeList a"
  by (auto simp: addRef_def refcountOf_def hashOf_def Let_def fun_eq_iff nth_update_unat)

lemma pool_inv_addRef [inv_intros]:
  assumes "pool_inv a" "refcountOf a w \<noteq> - 1"
  shows "pool_inv (addRef w a)"
proof -
  have "refcountOf a w + 1 \<noteq> 0" using assms(2) by (metis add_eq_0_iff2)
  then show ?thesis
    using pool_invD [OF assms(1)] by (auto simp: pool_inv_def addRef_effect)
qed

lemma setHash_effect:
  "refcountOf (setHash w h a) = refcountOf a"
  "hashOf (setHash w h a) = (if refcountOf a w = 0 then hashOf a else (hashOf a)(w := h))"
  "pa_freeList (setHash w h a) = pa_freeList a"
  by (auto simp: setHash_def refcountOf_def hashOf_def Let_def fun_eq_iff nth_update_unat)

lemma pool_inv_setHash [inv_intros]: "pool_inv a \<Longrightarrow> pool_inv (setHash w h a)"
  by (auto simp: pool_inv_def setHash_effect)

section \<open>The pool contract holds of the allocator\<close>

lemma length_freeList_le:
  assumes "pool_inv a"
  shows "length (pa_freeList a) \<le> length (pa_blocks a)"
proof -
  have "unat ` set (pa_freeList a) \<subseteq> {..<length (pa_blocks a)}"
    using pool_invD(4) [OF assms] by auto
  then have "card (unat ` set (pa_freeList a)) \<le> length (pa_blocks a)"
    using card_mono [of "{..<length (pa_blocks a)}"] by simp
  moreover have "card (unat ` set (pa_freeList a)) = card (set (pa_freeList a))"
    by (rule card_image) (auto simp: inj_on_def word_unat_eq_iff)
  ultimately show ?thesis
    using pool_invD(3) [OF assms] by (simp add: distinct_card)
qed

lemma allocate_laws:
  assumes "pool_inv a"
  shows "fst (allocate a) = kInvalidBlock \<longleftrightarrow> numBlocksFree a = 0"
    and "fst (allocate a) = kInvalidBlock \<Longrightarrow> snd (allocate a) = a"
    and "fst (allocate a) \<noteq> kInvalidBlock \<Longrightarrow> refcountOf a (fst (allocate a)) = 0"
    and "fst (allocate a) \<noteq> kInvalidBlock \<Longrightarrow>
      refcountOf (snd (allocate a)) = (refcountOf a)(fst (allocate a) := 1)"
    and "fst (allocate a) \<noteq> kInvalidBlock \<Longrightarrow>
      numBlocksFree a = Suc (numBlocksFree (snd (allocate a)))"
    and "fst (allocate a) \<noteq> v \<Longrightarrow> hashOf (snd (allocate a)) v = hashOf a v"
  using assms by (cases rule: allocate_cases; simp add: numBlocksFree_def)+

lemma release_laws:
  shows "unat (refcountOf (release w a) v) = (if v = w then unat (refcountOf a w) - 1 else unat (refcountOf a v))"
    and "numBlocksFree (release w a) = numBlocksFree a + (if refcountOf a w = 1 then 1 else 0)"
    and "refcountOf (release w a) v \<noteq> 0 \<Longrightarrow> hashOf (release w a) v = hashOf a v"
proof -
  consider "refcountOf a w = 0" | "refcountOf a w = 1"
    | "refcountOf a w \<noteq> 0" "refcountOf a w \<noteq> 1" by blast
  then show "unat (refcountOf (release w a) v)
      = (if v = w then unat (refcountOf a w) - 1 else unat (refcountOf a v))"
    and "numBlocksFree (release w a) = numBlocksFree a + (if refcountOf a w = 1 then 1 else 0)"
    and "refcountOf (release w a) v \<noteq> 0 \<Longrightarrow> hashOf (release w a) v = hashOf a v"
    by (cases; simp add: release_free release_last release_shared numBlocksFree_def
        unat_minus_one split: if_splits)+
qed

interpretation kv: hashed_pool pool_inv "\<lambda>a w. unat (refcountOf a w)" numBlocksFree
  allocate release kInvalidBlock hashOf setHash
proof (unfold_locales, goal_cases)
  case (1 p)
  then show ?case by (rule pool_inv_allocate)
next
  case (2 p w)
  then show ?case by (rule pool_inv_release)
next
  case (3 p)
  then show ?case by (rule allocate_laws)
next
  case (4 p)
  then show ?case by (rule allocate_laws)
next
  case (5 p)
  then show ?case by (simp add: allocate_laws(3))
next
  case (6 p)
  then show ?case by (simp add: allocate_laws(4) fun_eq_iff)
next
  case (7 p)
  then show ?case by (rule allocate_laws)
next
  case (8 p w)
  then show ?case by (simp add: release_laws fun_eq_iff)
next
  case (9 p w)
  have "unat (refcountOf p w) = 1 \<longleftrightarrow> refcountOf p w = 1"
    by (metis unat_1 word_unat_eq_iff)
  then show ?case by (simp only: release_laws(2))
next
  case (10 p w h)
  then show ?case by (rule pool_inv_setHash)
next
  case (11 w h p)
  then show ?case by (simp add: setHash_effect)
next
  case (12 w h p)
  then show ?case by (simp add: setHash_effect numBlocksFree_def)
next
  case (13 w h p)
  then show ?case by (simp add: setHash_effect unsigned_eq_0_iff)
next
  case (14 p v)
  then show ?case by (simp add: allocate_laws(6))
next
  case (15 p w v)
  then show ?case using release_laws(3) [of w p v] by (simp add: unsigned_eq_0_iff)
qed

end
