(* ===== verification/KvSequence.thy ===== *)
theory KvSequence
  imports BlockAllocator
begin

unbundle bit_operations_syntax

text \<open>
  The page table and token history of one request, \<^verbatim>\<open>PagedKvSequence\<close>
  (\<^verbatim>\<open>src/runtime/serving/PagedKvSequence.{hpp,cpp}\<close>). The member \<^verbatim>\<open>_allocator\<close> is a pointer to the
  shared allocator: \<open>seq_bound\<close> says whether it is non-null, and every operation takes the state of
  the allocator it points to and returns the new one.
\<close>

record PagedKvSequence =
  seq_bound :: bool
  seq_blockTable :: "u32 list"
  seq_tokens :: "u32 list"

definition kFnvBasis :: u64 where
  "kFnvBasis = 0xcbf29ce484222325"

definition fnv_prime :: u64 where
  "fnv_prime = 0x100000001b3"

text \<open>One round of the inner loop: \<^verbatim>\<open>hash ^= byte; hash *= prime\<close> for byte \<open>b\<close> of the token.\<close>

definition fnv1a_byte :: "u32 \<Rightarrow> nat \<Rightarrow> u64 \<Rightarrow> u64" where
  "fnv1a_byte v b h = (h XOR ucast ((drop_bit (b * 8) v) AND 0xFF)) * fnv_prime"

fun fnv1aChain :: "u64 \<Rightarrow> u32 list \<Rightarrow> u64" where
  "fnv1aChain h [] = h"
| "fnv1aChain h (v # vs) = fnv1aChain (fold (fnv1a_byte v) [0, 1, 2, 3] h) vs"

definition newSequence :: PagedKvSequence where
  "newSequence = \<lparr>seq_bound = True, seq_blockTable = [], seq_tokens = []\<rparr>"

definition appendToken ::
  "u32 \<Rightarrow> PagedKvSequence \<Rightarrow> PagedKvBlockAllocator \<Rightarrow> bool \<times> PagedKvSequence \<times> PagedKvBlockAllocator"
where
  "appendToken tokenId s a =
     (if \<not> seq_bound s then (False, s, a)
      else
        let blkSz = pa_blockSize a;
            used = length (seq_tokens s);
            atBoundary = (used = length (seq_blockTable s) * blkSz);
            (bid, a1) = (if atBoundary then allocate a else (0, a))
        in
        if atBoundary \<and> bid = kInvalidBlock then (False, s, a1)
        else
          let table = (if atBoundary then seq_blockTable s @ [bid] else seq_blockTable s);
              toks = seq_tokens s @ [tokenId];
              a2 = (if length toks mod blkSz = 0
                    then let blockIdx = length table - 1;
                             parentHash = (if blockIdx = 0 then kFnvBasis
                                           else hashOf a1 (table ! (blockIdx - 1)));
                             firstTok = take blkSz (drop (blockIdx * blkSz) toks)
                         in setHash (table ! blockIdx) (fnv1aChain parentHash firstTok) a1
                    else a1)
          in (True, s\<lparr>seq_blockTable := table, seq_tokens := toks\<rparr>, a2))"

definition releaseAllBlocks :: "PagedKvSequence \<Rightarrow> PagedKvBlockAllocator \<Rightarrow> PagedKvBlockAllocator" where
  "releaseAllBlocks s a = (if \<not> seq_bound s then a else fold release (seq_blockTable s) a)"

definition resetSequence ::
  "PagedKvSequence \<Rightarrow> PagedKvBlockAllocator \<Rightarrow> PagedKvSequence \<times> PagedKvBlockAllocator" where
  "resetSequence s a = (s\<lparr>seq_blockTable := [], seq_tokens := []\<rparr>, releaseAllBlocks s a)"

text \<open>Move construction and move assignment; both return the new target and the emptied source.
  Assignment is modelled for two different objects; \<^verbatim>\<open>x = std::move(x)\<close> is a no-op in the code.\<close>

definition moveConstruct :: "PagedKvSequence \<Rightarrow> PagedKvSequence \<times> PagedKvSequence" where
  "moveConstruct other = (other, \<lparr>seq_bound = False, seq_blockTable = [], seq_tokens = []\<rparr>)"

definition moveAssign ::
  "PagedKvSequence \<Rightarrow> PagedKvSequence \<Rightarrow> PagedKvBlockAllocator
     \<Rightarrow> PagedKvSequence \<times> PagedKvSequence \<times> PagedKvBlockAllocator" where
  "moveAssign this other a =
     (let (t, src) = moveConstruct other in (t, src, releaseAllBlocks this a))"

lemmas sequence_defs [model_defs] =
  kFnvBasis_def fnv_prime_def fnv1a_byte_def newSequence_def appendToken_def releaseAllBlocks_def
  resetSequence_def moveConstruct_def moveAssign_def

section \<open>The shape of a sequence and its hash chain\<close>

lemma fnv1aChain_append: "fnv1aChain h (xs @ ys) = fnv1aChain (fnv1aChain h xs) ys"
  by (induction xs arbitrary: h) simp_all

text \<open>
  \<open>seq_shape\<close>: the table has exactly the blocks the tokens need. \<open>hash_chain\<close>: every full block
  carries the FNV-1a hash of all tokens up to its end, which the header promises to the prefix
  cache.
\<close>

definition seq_shape :: "nat \<Rightarrow> PagedKvSequence \<Rightarrow> bool" where
  "seq_shape bs s \<longleftrightarrow>
     length (seq_tokens s) \<le> length (seq_blockTable s) * bs \<and>
     length (seq_blockTable s) * bs < length (seq_tokens s) + bs"

definition hash_chain :: "PagedKvBlockAllocator \<Rightarrow> PagedKvSequence \<Rightarrow> bool" where
  "hash_chain a s \<longleftrightarrow>
     (\<forall>k < length (seq_tokens s) div pa_blockSize a.
        hashOf a (seq_blockTable s ! k)
          = fnv1aChain kFnvBasis (take (Suc k * pa_blockSize a) (seq_tokens s)))"

definition seq_owns :: "PagedKvBlockAllocator \<Rightarrow> PagedKvSequence \<Rightarrow> bool" where
  "seq_owns a s \<longleftrightarrow>
     distinct (seq_blockTable s) \<and> (\<forall>w \<in> set (seq_blockTable s). refcountOf a w \<noteq> 0)"

section \<open>Appending one token\<close>

text \<open>The table a successful append leaves, and the store of the block hash when it fills a block.\<close>

lemma boundary_index:
  assumes "seq_shape bs s" "0 < bs" "length (seq_tokens s) \<noteq> length (seq_blockTable s) * bs"
  shows "length (seq_tokens s) < length (seq_blockTable s) * bs" "seq_blockTable s \<noteq> []"
proof -
  show lt: "length (seq_tokens s) < length (seq_blockTable s) * bs"
    using assms by (simp add: seq_shape_def)
  then show "seq_blockTable s \<noteq> []" by auto
qed

text \<open>The block hash a full table of \<open>n\<close> blocks stores for its last block.\<close>

lemma chain_step:
  assumes chain: "\<forall>k < n. hashOf a (table ! k) = fnv1aChain kFnvBasis (take (Suc k * bs) toks)"
    and len: "length toks = Suc n * bs"
  shows "fnv1aChain (if n = 0 then kFnvBasis else hashOf a (table ! (n - 1)))
           (take bs (drop (n * bs) toks))
         = fnv1aChain kFnvBasis (take (Suc n * bs) toks)"
proof -
  have parent: "(if n = 0 then kFnvBasis else hashOf a (table ! (n - 1)))
      = fnv1aChain kFnvBasis (take (n * bs) toks)"
    using chain by (cases n) auto
  have "take (Suc n * bs) toks = take (n * bs) toks @ take bs (drop (n * bs) toks)"
    by (metis add.commute mult_Suc take_add)
  then show ?thesis by (simp only: parent fnv1aChain_append)
qed

lemma appendToken_False:
  assumes "pool_inv a" "seq_bound s" "appendToken t s a = (False, s', a')"
  shows "s' = s \<and> a' = a \<and> numBlocksFree a = 0
     \<and> length (seq_tokens s) = length (seq_blockTable s) * pa_blockSize a"
  using assms allocate_laws(1,2) [OF assms(1)]
  by (auto simp: appendToken_def Let_def split: if_splits prod.splits)

lemma appendToken_True:
  assumes "pool_inv a" "seq_bound s" "appendToken t s a = (True, s', a')"
  obtains table a1 where
    "s' = s\<lparr>seq_blockTable := table, seq_tokens := seq_tokens s @ [t]\<rparr>"
    "(length (seq_tokens s) = length (seq_blockTable s) * pa_blockSize a
        \<and> fst (allocate a) \<noteq> kInvalidBlock \<and> a1 = snd (allocate a)
        \<and> table = seq_blockTable s @ [fst (allocate a)])
     \<or> (length (seq_tokens s) \<noteq> length (seq_blockTable s) * pa_blockSize a
        \<and> a1 = a \<and> table = seq_blockTable s)"
    "a' = (if Suc (length (seq_tokens s)) mod pa_blockSize a = 0
           then setHash (table ! (length table - 1))
                  (fnv1aChain (if length table - 1 = 0 then kFnvBasis
                               else hashOf a1 (table ! (length table - 1 - 1)))
                     (take (pa_blockSize a) (drop ((length table - 1) * pa_blockSize a)
                        (seq_tokens s @ [t])))) a1
           else a1)"
  using assms
  by (cases "allocate a") (auto simp: appendToken_def Let_def split: if_splits)

text \<open>
  What the first half of an append (the block boundary) leaves behind: a table that has room for
  one more token, backed by live blocks, whose growth the reference counts reflect, and no change
  to the hash of a live block.
\<close>

definition grown :: "PagedKvBlockAllocator \<Rightarrow> PagedKvSequence \<Rightarrow> u32 list \<Rightarrow> PagedKvBlockAllocator \<Rightarrow> bool" where
  "grown a s table a1 \<longleftrightarrow>
     pool_inv a1 \<and> pa_blockSize a1 = pa_blockSize a \<and> table \<noteq> [] \<and>
     (table = seq_blockTable s \<or>
       (table = seq_blockTable s @ [last table] \<and> refcountOf a (last table) = 0)) \<and>
     distinct table \<and> (\<forall>w \<in> set table. refcountOf a1 w \<noteq> 0) \<and>
     (\<forall>w. unat (refcountOf a1 w) + count_list (seq_blockTable s) w
          = unat (refcountOf a w) + count_list table w) \<and>
     (\<forall>w. refcountOf a w \<noteq> 0 \<longrightarrow> hashOf a1 w = hashOf a w) \<and>
     length (seq_tokens s) < length table * pa_blockSize a \<and>
     length table * pa_blockSize a \<le> length (seq_tokens s) + pa_blockSize a"

lemma grown_same:
  assumes "pool_inv a" "seq_shape (pa_blockSize a) s" "seq_owns a s"
    "length (seq_tokens s) \<noteq> length (seq_blockTable s) * pa_blockSize a"
  shows "grown a s (seq_blockTable s) a"
  using assms boundary_index [OF assms(2) _ assms(4)] pool_invD(1) [OF assms(1)]
  by (auto simp: grown_def seq_owns_def seq_shape_def)

lemma grown_fresh:
  assumes inv: "pool_inv a" and owns: "seq_owns a s"
    and len: "length (seq_tokens s) = length (seq_blockTable s) * pa_blockSize a"
    and ok: "fst (allocate a) \<noteq> kInvalidBlock"
  shows "grown a s (seq_blockTable s @ [fst (allocate a)]) (snd (allocate a))"
proof -
  let ?w = "fst (allocate a)"
  have fresh: "refcountOf a ?w = 0" using allocate_laws(3) [OF inv ok] .
  with owns have new: "?w \<notin> set (seq_blockTable s)" by (auto simp: seq_owns_def)
  have rc: "refcountOf (snd (allocate a)) = (refcountOf a)(?w := 1)"
    using allocate_laws(4) [OF inv ok] .
  have hash: "refcountOf a w \<noteq> 0 \<Longrightarrow> hashOf (snd (allocate a)) w = hashOf a w" for w
    using allocate_laws(6) [OF inv, of w] fresh by auto
  show ?thesis
    using owns fresh new hash len pool_invD(1) [OF inv] pool_inv_allocate [OF inv]
    by (auto simp: grown_def seq_owns_def rc count_notin)
qed

lemma appendToken_grown:
  assumes "pool_inv a" "seq_bound s" "seq_shape (pa_blockSize a) s" "seq_owns a s"
    and "appendToken t s a = (True, s', a')"
  obtains table a1 where "grown a s table a1"
    "s' = s\<lparr>seq_blockTable := table, seq_tokens := seq_tokens s @ [t]\<rparr>"
    "a' = (if Suc (length (seq_tokens s)) mod pa_blockSize a = 0
           then setHash (last table)
                  (fnv1aChain (if length table - 1 = 0 then kFnvBasis
                               else hashOf a1 (table ! (length table - 1 - 1)))
                     (take (pa_blockSize a) (drop ((length table - 1) * pa_blockSize a)
                        (seq_tokens s @ [t])))) a1
           else a1)"
  using assms(1,2,5)
proof (cases rule: appendToken_True)
  case (1 table a1)
  have "grown a s table a1"
    using 1(2) grown_same [OF assms(1,3,4)] grown_fresh [OF assms(1,4)] by auto
  moreover from this have "table ! (length table - 1) = last table"
    by (simp add: grown_def last_conv_nth)
  ultimately show thesis using that 1 by simp
qed

text \<open>Filling a block stores the chained hash; otherwise the chain has no new block.\<close>

lemma full_table_length:
  assumes "grown a s table a1" "Suc (length (seq_tokens s)) mod pa_blockSize a = 0"
  shows "Suc (length (seq_tokens s)) = length table * pa_blockSize a"
proof -
  let ?bs = "pa_blockSize a" and ?n = "Suc (length (seq_tokens s))"
  have le: "?n \<le> length table * ?bs" "length table * ?bs < ?n + ?bs"
    using assms(1) by (auto simp: grown_def)
  obtain q where q: "?n = q * ?bs" using assms(2) by (metis mod_0_imp_dvd dvd_def mult.commute)
  have "q * ?bs \<le> length table * ?bs" "length table * ?bs < Suc q * ?bs"
    using le q by (simp_all add: add.commute)
  moreover have "0 < ?bs" using assms(1) pool_invD(1) by (metis grown_def)
  ultimately have "q \<le> length table" "length table < Suc q"
    by (simp_all only: mult_le_cancel2 mult_less_cancel2)
  then show ?thesis using q by simp
qed

lemma grown_chain:
  assumes "grown a s table a1" "seq_owns a s" "seq_shape (pa_blockSize a) s" "hash_chain a s"
    and "k < length (seq_tokens s) div pa_blockSize a" "0 < pa_blockSize a"
  shows "k < length (seq_blockTable s)" "table ! k = seq_blockTable s ! k"
    "hashOf a1 (table ! k) = fnv1aChain kFnvBasis (take (Suc k * pa_blockSize a) (seq_tokens s @ [t]))"
proof -
  have full: "Suc k * pa_blockSize a \<le> length (seq_tokens s)"
    using assms(5,6) by (metis Suc_leI div_times_less_eq_dividend mult_le_mono1 order_trans)
  also have "\<dots> \<le> length (seq_blockTable s) * pa_blockSize a"
    using assms(3) by (simp add: seq_shape_def)
  finally show k: "k < length (seq_blockTable s)"
    using assms(6) by (metis Suc_le_lessD mult_le_cancel2)
  show tk: "table ! k = seq_blockTable s ! k"
    using assms(1) k by (metis grown_def nth_append)
  have "refcountOf a (seq_blockTable s ! k) \<noteq> 0"
    using assms(2) k by (auto simp: seq_owns_def)
  then have "hashOf a1 (table ! k) = hashOf a (seq_blockTable s ! k)"
    using assms(1) tk by (simp add: grown_def)
  also have "\<dots> = fnv1aChain kFnvBasis (take (Suc k * pa_blockSize a) (seq_tokens s))"
    using assms(4,5) by (simp add: hash_chain_def)
  finally show "hashOf a1 (table ! k)
      = fnv1aChain kFnvBasis (take (Suc k * pa_blockSize a) (seq_tokens s @ [t]))"
    using full by simp
qed

lemma full_table_last_index:
  assumes "grown a s table a1" "Suc (length (seq_tokens s)) mod pa_blockSize a = 0"
  shows "length (seq_tokens s) div pa_blockSize a = length table - 1"
proof -
  obtain n where n: "length table = Suc n"
    using assms(1) by (cases table) (auto simp: grown_def)
  have "Suc (length (seq_tokens s)) = Suc n * pa_blockSize a"
    using full_table_length [OF assms] n by simp
  moreover have "0 < pa_blockSize a" using assms(1) pool_invD(1) by (metis grown_def)
  ultimately have "length (seq_tokens s) div pa_blockSize a = n"
    by (intro div_nat_eqI) (auto simp: mult.commute)
  then show ?thesis using n by simp
qed

lemma grown_fill_chain:
  assumes g: "grown a s table a1" and st: "seq_owns a s" "seq_shape (pa_blockSize a) s" "hash_chain a s"
    and full: "Suc (length (seq_tokens s)) mod pa_blockSize a = 0"
  shows "fnv1aChain (if length table - 1 = 0 then kFnvBasis else hashOf a1 (table ! (length table - 1 - 1)))
           (take (pa_blockSize a) (drop ((length table - 1) * pa_blockSize a) (seq_tokens s @ [t])))
         = fnv1aChain kFnvBasis (seq_tokens s @ [t])"
proof -
  let ?bs = "pa_blockSize a" and ?n = "length table - 1"
  have bs: "0 < ?bs" using g pool_invD(1) by (metis grown_def)
  have ne: "table \<noteq> []" using g by (simp add: grown_def)
  have len: "length (seq_tokens s @ [t]) = Suc ?n * ?bs"
    using full_table_length [OF g full] ne by simp
  have "length (seq_tokens s) div ?bs = ?n" using g full by (rule full_table_last_index)
  then have "\<forall>k < ?n. hashOf a1 (table ! k) = fnv1aChain kFnvBasis (take (Suc k * ?bs) (seq_tokens s @ [t]))"
    using grown_chain(3) [OF g st] bs by simp
  from chain_step [OF this len] show ?thesis using len by simp
qed

lemma hash_chain_grown:
  assumes g: "grown a s table a1" and st: "seq_owns a s" "seq_shape (pa_blockSize a) s" "hash_chain a s"
    and a': "a' = (if Suc (length (seq_tokens s)) mod pa_blockSize a = 0
           then setHash (last table) (fnv1aChain kFnvBasis (seq_tokens s @ [t])) a1 else a1)"
  shows "hash_chain a' (s\<lparr>seq_blockTable := table, seq_tokens := seq_tokens s @ [t]\<rparr>)"
proof -
  let ?bs = "pa_blockSize a"
  note gd = g [unfolded grown_def]
  have bs: "0 < ?bs" using g pool_invD(1) by (metis grown_def)
  have bs': "pa_blockSize a' = ?bs" using gd by (simp add: a')
  have "hashOf a' (table ! k) = fnv1aChain kFnvBasis (take (Suc k * ?bs) (seq_tokens s @ [t]))"
    if k: "k < Suc (length (seq_tokens s)) div ?bs" for k
  proof -
  consider (old) "k < length (seq_tokens s) div ?bs"
    | (new) "k = length (seq_tokens s) div ?bs" "Suc (length (seq_tokens s)) mod ?bs = 0"
    using k by (auto simp: div_Suc less_Suc_eq split: if_splits)
  then show ?thesis
  proof cases
    case old
    note kt = grown_chain [OF g st old bs]
    have "table ! k \<noteq> last table" if "Suc (length (seq_tokens s)) mod ?bs = 0"
    proof -
      have "k < length table - 1" using old full_table_last_index [OF g that] by simp
      then show ?thesis using gd by (simp add: last_conv_nth nth_eq_iff_index_eq)
    qed
    then have "hashOf a' (table ! k) = hashOf a1 (table ! k)" by (simp add: a' setHash_effect)
    then show ?thesis using kt(3) [of t] by simp
  next
    case new
    have len: "Suc (length (seq_tokens s)) = length table * ?bs"
      using full_table_length [OF g new(2)] .
    have kl: "k = length table - 1"
      unfolding new(1) using g new(2) by (rule full_table_last_index)
    have "Suc k * ?bs = Suc (length (seq_tokens s))"
      using len gd kl by (cases table) auto
    moreover have "hashOf a' (table ! k) = fnv1aChain kFnvBasis (seq_tokens s @ [t])"
      using gd new(2) kl by (simp add: a' setHash_effect last_conv_nth)
    ultimately show ?thesis by simp
  qed
  qed
  then show ?thesis by (simp add: hash_chain_def bs')
qed

text \<open>
  The effect of one successful append, in the terms the scheduler needs: the tokens grow by one,
  the reference counts follow the table, the shape, the ownership and the hash chain are kept, and
  no live block outside the table changes its hash.
\<close>

lemma appendToken_effect:
  assumes inv: "pool_inv a" and bound: "seq_bound s"
    and st: "seq_owns a s" "seq_shape (pa_blockSize a) s" "hash_chain a s"
    and run: "appendToken t s a = (True, s', a')"
  shows "pool_inv a'" "pa_blockSize a' = pa_blockSize a" "seq_bound s'"
    and "seq_tokens s' = seq_tokens s @ [t]"
    and "seq_shape (pa_blockSize a') s'" "seq_owns a' s'" "hash_chain a' s'"
    and "\<And>w. unat (refcountOf a' w) + count_list (seq_blockTable s) w
              = unat (refcountOf a w) + count_list (seq_blockTable s') w"
    and "\<And>w. w \<notin> set (seq_blockTable s) \<Longrightarrow> refcountOf a w \<noteq> 0 \<Longrightarrow> hashOf a' w = hashOf a w"
    and "\<And>w. w \<in> set (seq_blockTable s') \<Longrightarrow> w \<notin> set (seq_blockTable s) \<Longrightarrow> refcountOf a w = 0"
proof -
  obtain table a1 where g: "grown a s table a1"
    and s': "s' = s\<lparr>seq_blockTable := table, seq_tokens := seq_tokens s @ [t]\<rparr>"
    and a': "a' = (if Suc (length (seq_tokens s)) mod pa_blockSize a = 0
           then setHash (last table) (fnv1aChain kFnvBasis (seq_tokens s @ [t])) a1 else a1)"
    using appendToken_grown [OF inv bound st(2,1) run] grown_fill_chain [OF _ st]
    by (smt (verit, ccfv_threshold))
  note gd = g [unfolded grown_def]
  have bs: "0 < pa_blockSize a" using inv by (rule pool_invD)
  have rc': "refcountOf a' = refcountOf a1" by (simp add: a' setHash_effect)
  show inv': "pool_inv a'" and bs': "pa_blockSize a' = pa_blockSize a"
    using gd by (simp_all add: a' pool_inv_setHash)
  show "seq_bound s'" "seq_tokens s' = seq_tokens s @ [t]" using bound by (simp_all add: s')
  show "seq_shape (pa_blockSize a') s'" unfolding bs' using gd by (auto simp: seq_shape_def s')
  show "seq_owns a' s'" using gd by (simp add: seq_owns_def s' rc')
  show "unat (refcountOf a' w) + count_list (seq_blockTable s) w
              = unat (refcountOf a w) + count_list (seq_blockTable s') w" for w
    using gd by (simp add: s' rc')
  show "hashOf a' w = hashOf a w" if "w \<notin> set (seq_blockTable s)" "refcountOf a w \<noteq> 0" for w
  proof -
    have "w \<noteq> last table" using gd that by (metis last_in_set)
    then show ?thesis using gd that by (simp add: a' setHash_effect)
  qed
  show "refcountOf a w = 0" if "w \<in> set (seq_blockTable s')" "w \<notin> set (seq_blockTable s)" for w
    using that gd by (auto simp: s') (metis in_set_conv_decomp rotate1.simps(2) set_ConsD set_rotate1)
  show "hash_chain a' s'" unfolding s' using g st a' by (rule hash_chain_grown)
qed

end
