(* ===== verification/KvOwnership.thy ===== *)
theory KvOwnership
  imports KvSequence
begin

text \<open>
  Several sequences on one shared block allocator, the situation of
  \<^verbatim>\<open>src/runtime/serving/RequestScheduler.cpp\<close>, where every admitted request owns one
  \<^verbatim>\<open>PagedKvSequence\<close>. \<open>kv_inv a ss\<close> says that the reference count of every block is the number of
  times it occurs in the block tables, that no block occurs twice, and that every sequence has the
  shape and the hash chain of \<open>KvSequence\<close>.
\<close>

definition owners :: "PagedKvSequence list \<Rightarrow> u32 \<Rightarrow> nat" where
  "owners ss w = sum_list (map (\<lambda>s. count_list (seq_blockTable s) w) ss)"

definition kv_inv :: "PagedKvBlockAllocator \<Rightarrow> PagedKvSequence list \<Rightarrow> bool" where
  "kv_inv a ss \<longleftrightarrow>
     pool_inv a \<and>
     (\<forall>w. unat (refcountOf a w) = owners ss w \<and> owners ss w \<le> 1) \<and>
     (\<forall>s \<in> set ss. seq_bound s \<and> seq_shape (pa_blockSize a) s \<and> hash_chain a s)"

lemma owners_simps [simp]:
  "owners [] w = 0" "owners (s # ss) w = count_list (seq_blockTable s) w + owners ss w"
  "owners (xs @ ys) w = owners xs w + owners ys w"
  by (simp_all add: owners_def)

lemma owners_update:
  "i < length ss \<Longrightarrow> owners (ss[i := s]) w + count_list (seq_blockTable (ss ! i)) w
     = owners ss w + count_list (seq_blockTable s) w"
  unfolding owners_def by (rule sum_list_map_update)

lemma count_le_owners: "s \<in> set ss \<Longrightarrow> count_list (seq_blockTable s) w \<le> owners ss w"
  unfolding owners_def by (rule member_le_sum_list)

lemma distinct_count_le_one: "(\<And>w. count_list xs w \<le> 1) \<Longrightarrow> distinct xs"
proof (induction xs)
  case (Cons x xs)
  have "count_list xs w \<le> 1" for w using Cons.prems [of w] by (auto split: if_splits)
  moreover have "x \<notin> set xs" using Cons.prems [of x] by (simp add: count_list_0_iff)
  ultimately show ?case using Cons.IH by simp
qed simp

lemma distinct_count_le: "distinct xs \<Longrightarrow> count_list xs w \<le> 1"
  by (induction xs) (auto simp: count_notin)

lemma seq_owns_cong:
  assumes "\<And>w. w \<in> set (seq_blockTable s) \<Longrightarrow> refcountOf a' w \<noteq> 0" "seq_owns a s"
  shows "seq_owns a' s"
  using assms by (simp add: seq_owns_def)

lemma hash_chain_cong:
  assumes "hash_chain a s" "seq_shape (pa_blockSize a) s" "pa_blockSize a' = pa_blockSize a"
    and same: "\<And>w. w \<in> set (seq_blockTable s) \<Longrightarrow> hashOf a' w = hashOf a w"
  shows "hash_chain a' s"
proof -
  let ?bs = "pa_blockSize a"
  have "k < length (seq_blockTable s)" if "k < length (seq_tokens s) div ?bs" for k
  proof -
    have "length (seq_tokens s) div ?bs \<le> (length (seq_blockTable s) * ?bs) div ?bs"
      using assms(2) by (intro div_le_mono) (simp add: seq_shape_def)
    also have "\<dots> \<le> length (seq_blockTable s)" by (cases "?bs = 0") simp_all
    finally show ?thesis using that by simp
  qed
  then show ?thesis using assms by (auto simp: hash_chain_def)
qed

lemma kv_inv_owns:
  assumes "kv_inv a ss" "s \<in> set ss"
  shows "seq_owns a s"
proof -
  have one: "count_list (seq_blockTable s) w \<le> 1" for w
    using assms count_le_owners [OF assms(2), of w] by (meson kv_inv_def le_trans)
  have "refcountOf a w \<noteq> 0" if "w \<in> set (seq_blockTable s)" for w
  proof
    assume "refcountOf a w = 0"
    then have "owners ss w = 0" using assms(1) by (metis kv_inv_def unat_0)
    then have "count_list (seq_blockTable s) w = 0"
      using count_le_owners [OF assms(2), of w] by simp
    with that show False by (simp add: count_list_0_iff)
  qed
  with one show ?thesis by (auto simp: seq_owns_def intro: distinct_count_le_one)
qed

lemma seq_owns_count: "seq_owns a s \<Longrightarrow> count_list (seq_blockTable s) w \<le> 1"
  using distinct_count_le [of "seq_blockTable s" w] by (simp add: seq_owns_def)

lemma kv_inv_rc: "kv_inv a ss \<Longrightarrow> unat (refcountOf a w) = owners ss w"
  and kv_inv_le_one: "kv_inv a ss \<Longrightarrow> owners ss w \<le> 1"
  and kv_inv_pool: "kv_inv a ss \<Longrightarrow> pool_inv a"
  by (simp_all add: kv_inv_def)

text \<open>A change of the allocator that leaves the hashes of a sequence's blocks alone keeps its chain.\<close>

lemma kv_inv_frame:
  assumes "kv_inv a ss" "s \<in> set ss" "pa_blockSize a' = pa_blockSize a"
    and "\<And>w. w \<in> set (seq_blockTable s) \<Longrightarrow> refcountOf a w \<noteq> 0 \<Longrightarrow> hashOf a' w = hashOf a w"
  shows "seq_bound s \<and> seq_shape (pa_blockSize a') s \<and> hash_chain a' s"
proof -
  have s: "seq_bound s" "seq_shape (pa_blockSize a) s" "hash_chain a s"
    using assms(1,2) by (simp_all add: kv_inv_def)
  have "hashOf a' w = hashOf a w" if "w \<in> set (seq_blockTable s)" for w
    using assms(4) that kv_inv_owns [OF assms(1,2)] by (simp add: seq_owns_def)
  then show ?thesis using hash_chain_cong [of a s a'] s assms(3) by simp
qed

text \<open>Blocks of two different sequences are different.\<close>

lemma kv_inv_disjoint:
  assumes "kv_inv a ss" "i < length ss" "j < length ss" "i \<noteq> j"
  shows "set (seq_blockTable (ss ! i)) \<inter> set (seq_blockTable (ss ! j)) = {}"
proof (rule ccontr)
  assume "\<not> ?thesis"
  then obtain w where w: "w \<in> set (seq_blockTable (ss ! i))" "w \<in> set (seq_blockTable (ss ! j))"
    by blast
  let ?f = "\<lambda>s. count_list (seq_blockTable s) w"
  have pos: "0 < ?f (ss ! i)" "0 < ?f (ss ! j)"
    using w by (metis count_list_0_iff neq0_conv)+
  have "?f (ss ! i) + ?f (ss ! j) \<le> owners ss w"
    unfolding owners_def using two_members_le_sum_list [of i j ss ?f]
      two_members_le_sum_list [of j i ss ?f] assms(2-4) by (cases "i < j") auto
  moreover have "owners ss w \<le> 1" using assms(1) by (simp add: kv_inv_def)
  ultimately show False using pos by linarith
qed

section \<open>Each operation on one of the sequences keeps the invariant\<close>

lemma kv_inv_insert_empty:
  assumes "kv_inv a (xs @ ys)" "seq_bound e" "seq_blockTable e = []" "seq_tokens e = []"
  shows "kv_inv a (xs @ e # ys)"
  using assms pool_invD(1) [of a] by (auto simp: kv_inv_def seq_shape_def hash_chain_def)

lemma kv_inv_new_sequence: "kv_inv a ss \<Longrightarrow> kv_inv a (ss @ [newSequence])"
  using kv_inv_insert_empty [of a ss "[]" newSequence] by (simp add: newSequence_def)

lemma owners_after_append:
  assumes kv: "kv_inv a ss" and i: "i < length ss"
    and own: "seq_owns a' s'"
    and fresh: "\<And>w. w \<in> set (seq_blockTable s') \<Longrightarrow> w \<notin> set (seq_blockTable (ss ! i)) \<Longrightarrow> refcountOf a w = 0"
  shows "owners (ss[i := s']) w \<le> 1"
proof (cases "w \<in> set (seq_blockTable s') \<and> w \<notin> set (seq_blockTable (ss ! i))")
  case True
  then have "owners ss w = 0" using fresh kv_inv_rc [OF kv, of w] by simp
  then show ?thesis
    using owners_update [OF i, of s' w] seq_owns_count [OF own, of w] by simp
next
  case False
  have "count_list (seq_blockTable s') w \<le> count_list (seq_blockTable (ss ! i)) w"
  proof (cases "w \<in> set (seq_blockTable s')")
    case True
    with False have "count_list (seq_blockTable (ss ! i)) w \<noteq> 0" by (simp add: count_list_0_iff)
    then show ?thesis using seq_owns_count [OF own, of w] by simp
  qed (simp add: count_notin)
  then show ?thesis
    using owners_update [OF i, of s' w] kv_inv_le_one [OF kv, of w] by linarith
qed

lemma kv_inv_appendToken:
  assumes kv: "kv_inv a ss" and i: "i < length ss" and run: "appendToken t (ss ! i) a = (ok, s', a')"
  shows "kv_inv a' (ss[i := s'])"
proof (cases ok)
  case False
  then have "s' = ss ! i" "a' = a"
    using appendToken_False [of a "ss ! i" t s' a'] kv i run by (simp_all add: kv_inv_def)
  with kv show ?thesis by simp
next
  case True
  let ?s = "ss ! i"
  have mem: "?s \<in> set ss" using i by simp
  have s: "seq_bound ?s" "seq_shape (pa_blockSize a) ?s" "hash_chain a ?s"
    using kv mem by (simp_all add: kv_inv_def)
  have run': "appendToken t ?s a = (True, s', a')" using run True by simp
  note eff = appendToken_effect [OF kv_inv_pool [OF kv] s(1) kv_inv_owns [OF kv mem] s(2,3) run']
  have "unat (refcountOf a' w) = owners (ss[i := s']) w" for w
    using eff(8) [of w] owners_update [OF i, of s' w] kv_inv_rc [OF kv, of w] by simp
  moreover have "owners (ss[i := s']) w \<le> 1" for w
    using owners_after_append [OF kv i eff(6,10)] .
  moreover have "seq_bound s2 \<and> seq_shape (pa_blockSize a') s2 \<and> hash_chain a' s2"
    if mem2: "s2 \<in> set (ss[i := s'])" for s2
  proof -
    obtain j where j: "j < length ss" "s2 = (ss[i := s']) ! j"
      using mem2 by (metis in_set_conv_nth length_list_update)
    show ?thesis
    proof (cases "j = i")
      case True
      with j i eff(3,5,7) show ?thesis by simp
    next
      case False
      then have s2: "s2 = ss ! j" "s2 \<in> set ss" using j by simp_all
      show ?thesis
      proof (rule kv_inv_frame [OF kv s2(2) eff(2)])
        fix w assume "w \<in> set (seq_blockTable s2)" and live: "refcountOf a w \<noteq> 0"
        then have "w \<notin> set (seq_blockTable ?s)"
          using kv_inv_disjoint [OF kv i j(1)] False s2(1) by auto
        then show "hashOf a' w = hashOf a w" using live by (rule eff(9))
      qed
    qed
  qed
  ultimately show ?thesis using eff(1) by (simp add: kv_inv_def)
qed

text \<open>
  Giving back all blocks of one sequence, as \<^verbatim>\<open>reset\<close> and the destructor do, leaves the invariant
  for the sequences that remain.
\<close>

lemma kv_inv_release_sequence:
  assumes kv: "kv_inv a (xs @ s # ys)"
  shows "kv_inv (releaseAllBlocks s a) (xs @ ys)"
proof -
  let ?a = "fold release (seq_blockTable s) a"
  have b: "releaseAllBlocks s a = ?a"
    using kv by (simp add: releaseAllBlocks_def kv_inv_def)
  have inv: "pool_inv a" using kv by (rule kv_inv_pool)
  have rc: "unat (refcountOf ?a w) = owners (xs @ ys) w" for w
    using kv.rel_list_rc [OF inv, of "seq_blockTable s" w] kv_inv_rc [OF kv, of w] by simp
  have bs: "pa_blockSize ?a = pa_blockSize a"
  proof -
    have "pa_blockSize (fold release ws b) = pa_blockSize b" for ws b
      by (induction ws arbitrary: b) simp_all
    then show ?thesis .
  qed
  have chain: "seq_bound s2 \<and> seq_shape (pa_blockSize ?a) s2 \<and> hash_chain ?a s2"
    if s2: "s2 \<in> set (xs @ ys)" for s2
  proof (rule kv_inv_frame [OF kv _ bs])
    show "s2 \<in> set (xs @ s # ys)" using s2 by auto
    fix w assume w: "w \<in> set (seq_blockTable s2)"
    then have "count_list (seq_blockTable s2) w \<noteq> 0" by (simp add: count_list_0_iff)
    then have "unat (refcountOf ?a w) \<noteq> 0"
      using count_le_owners [OF s2, of w] rc [of w] by linarith
    then show "hashOf ?a w = hashOf a w" by (rule kv.rel_list_hash [OF inv])
  qed
  have "owners (xs @ ys) w \<le> 1" for w using kv_inv_le_one [OF kv, of w] by simp
  then show ?thesis
    using rc chain kv.rel_list_inv [OF inv] by (simp add: kv_inv_def b)
qed

lemma kv_inv_resetSequence:
  assumes kv: "kv_inv a ss" and i: "i < length ss" and run: "resetSequence (ss ! i) a = (s', a')"
  shows "kv_inv a' (ss[i := s'])"
proof -
  have ss: "ss = take i ss @ ss ! i # drop (Suc i) ss" using i by (rule id_take_nth_drop)
  with kv have kv': "kv_inv a (take i ss @ ss ! i # drop (Suc i) ss)" by simp
  have "kv_inv a' (take i ss @ drop (Suc i) ss)"
    using kv_inv_release_sequence [OF kv'] run by (auto simp: resetSequence_def)
  moreover have "seq_bound s'" "seq_blockTable s' = []" "seq_tokens s' = []"
    using run kv i by (auto simp: resetSequence_def kv_inv_def)
  ultimately have "kv_inv a' (take i ss @ s' # drop (Suc i) ss)" by (rule kv_inv_insert_empty)
  then show ?thesis using i by (simp add: upd_conv_take_nth_drop)
qed

lemma kv_inv_drop:
  "kv_inv a (pre @ map f rs) \<Longrightarrow>
   kv_inv (fold releaseAllBlocks (map f (filter P rs)) a) (pre @ map f (filter (\<lambda>r. \<not> P r) rs))"
proof (induction rs arbitrary: a pre)
  case Nil
  then show ?case by simp
next
  case (Cons r rs)
  show ?case
  proof (cases "P r")
    case True
    have "kv_inv (releaseAllBlocks (f r) a) (pre @ map f rs)"
      using kv_inv_release_sequence [of a pre "f r" "map f rs"] Cons.prems by simp
    with True show ?thesis using Cons.IH by simp
  next
    case False
    have "kv_inv a ((pre @ [f r]) @ map f rs)" using Cons.prems by simp
    from Cons.IH [OF this] False show ?thesis by simp
  qed
qed

end
