(* ===== verification/PrefillScheduler.thy ===== *)
theory PrefillScheduler
  imports Prelude
begin

text \<open>
  The token-budget arithmetic of one forward pass, \<^verbatim>\<open>ChunkedPrefillScheduler\<close>
  (\<^verbatim>\<open>src/runtime/serving/ChunkedPrefillScheduler.{hpp,cpp}\<close>): decodes first, one token each, then
  prefill chunks out of what is left of the budget. The two loops over the request span with their
  \<^verbatim>\<open>break\<close> and \<^verbatim>\<open>continue\<close> are the two recursive passes; \<^verbatim>\<open>remaining\<close> is their accumulator.
\<close>

record RequestSlice =
  sl_request_id :: u64
  sl_tokens_pending :: int
  sl_tokens_decoded :: int
  sl_is_decoding :: bool

record DecodeAssignment =
  da_request_id :: u64

record PrefillAssignment =
  pf_request_id :: u64
  pf_chunk_size :: int

record BatchSchedule =
  bs_decodes :: "DecodeAssignment list"
  bs_prefills :: "PrefillAssignment list"
  bs_total_tokens_scheduled :: int

record ChunkedPrefillScheduler =
  cps_tokenBudget :: int

definition newPrefillScheduler :: "int \<Rightarrow> ChunkedPrefillScheduler result" where
  "newPrefillScheduler tokenBudget =
     (if tokenBudget \<le> 0
      then Inl (InvalidArgument ''ChunkedPrefillScheduler: tokenBudget must be > 0'')
      else Inr \<lparr>cps_tokenBudget = tokenBudget\<rparr>)"

fun decode_pass :: "int \<Rightarrow> RequestSlice list \<Rightarrow> DecodeAssignment list \<times> int" where
  "decode_pass remaining [] = ([], remaining)"
| "decode_pass remaining (r # rs) =
     (if remaining \<le> 0 then ([], remaining)
      else if \<not> sl_is_decoding r then decode_pass remaining rs
      else let (ds, remaining') = decode_pass (remaining - 1) rs
           in (\<lparr>da_request_id = sl_request_id r\<rparr> # ds, remaining'))"

fun prefill_pass :: "int \<Rightarrow> RequestSlice list \<Rightarrow> PrefillAssignment list \<times> int" where
  "prefill_pass remaining [] = ([], remaining)"
| "prefill_pass remaining (r # rs) =
     (if remaining \<le> 0 then ([], remaining)
      else if sl_is_decoding r then prefill_pass remaining rs
      else if sl_tokens_pending r \<le> 0 then prefill_pass remaining rs
      else let chunk = min remaining (sl_tokens_pending r);
               (ps, remaining') = prefill_pass (remaining - chunk) rs
           in (\<lparr>pf_request_id = sl_request_id r, pf_chunk_size = chunk\<rparr> # ps, remaining'))"

definition schedule :: "ChunkedPrefillScheduler \<Rightarrow> RequestSlice list \<Rightarrow> BatchSchedule" where
  "schedule c requests =
     (let (ds, remaining) = decode_pass (cps_tokenBudget c) requests;
          (ps, remaining') = prefill_pass remaining requests
      in \<lparr>bs_decodes = ds, bs_prefills = ps,
          bs_total_tokens_scheduled = cps_tokenBudget c - remaining'\<rparr>)"

lemmas prefill_defs [model_defs] = newPrefillScheduler_def schedule_def

section \<open>Closed forms of the two passes\<close>

text \<open>The demand of a request: what it could use of the budget in this iteration.\<close>

definition decode_demand :: "RequestSlice list \<Rightarrow> nat" where
  "decode_demand rs = length (filter sl_is_decoding rs)"

definition prefill_demand :: "RequestSlice list \<Rightarrow> int" where
  "prefill_demand rs = sum_list (map (\<lambda>r. if sl_is_decoding r then 0 else max 0 (sl_tokens_pending r)) rs)"

lemma prefill_demand_simps [simp]:
  "prefill_demand [] = 0"
  "prefill_demand (r # rs)
     = (if sl_is_decoding r then 0 else max 0 (sl_tokens_pending r)) + prefill_demand rs"
  by (simp_all add: prefill_demand_def)

lemma prefill_demand_nonneg: "0 \<le> prefill_demand rs"
  by (induction rs) auto

lemma decode_demand_simps [simp]:
  "decode_demand [] = 0"
  "decode_demand (r # rs) = (if sl_is_decoding r then 1 else 0) + decode_demand rs"
  by (simp_all add: decode_demand_def)

lemma fst_decode_pass:
  "fst (decode_pass n rs)
     = map (\<lambda>r. \<lparr>da_request_id = sl_request_id r\<rparr>) (take (nat n) (filter sl_is_decoding rs))"
proof (induction n rs rule: decode_pass.induct)
  case (2 n r rs)
  show ?case
  proof (cases "n \<le> 0")
    case False
    then have "nat n = Suc (nat (n - 1))" by simp
    with 2 False show ?thesis by (auto simp: split_beta Let_def)
  qed simp
qed simp

lemma snd_decode_pass: "0 \<le> n \<Longrightarrow> snd (decode_pass n rs) = n - min n (int (decode_demand rs))"
proof (induction n rs rule: decode_pass.induct)
  case (2 n r rs)
  then show ?case by (auto simp: split_beta Let_def min_def)
qed simp

lemma snd_prefill_pass: "0 \<le> n \<Longrightarrow> snd (prefill_pass n rs) = n - min n (prefill_demand rs)"
proof (induction n rs rule: prefill_pass.induct)
  case (2 n r rs)
  show ?case
  proof (cases "n \<le> 0")
    case True
    with 2 show ?thesis
      using prefill_demand_nonneg [of rs] by (auto simp: min_def max_def)
  next
    case False
    with 2 show ?thesis
      using prefill_demand_nonneg [of rs] by (auto simp: split_beta Let_def min_def max_def)
  qed
qed simp

lemma sum_prefill_pass:
  "0 \<le> n \<Longrightarrow> sum_list (map pf_chunk_size (fst (prefill_pass n rs))) = n - snd (prefill_pass n rs)"
proof (induction n rs rule: prefill_pass.induct)
  case (2 n r rs)
  then show ?case by (cases "n \<le> 0") (auto simp: split_beta Let_def min_def)
qed simp

lemma prefill_pass_chunks:
  assumes "p \<in> set (fst (prefill_pass n rs))"
  shows "\<exists>r \<in> set rs. \<not> sl_is_decoding r \<and> pf_request_id p = sl_request_id r
           \<and> 0 < pf_chunk_size p \<and> pf_chunk_size p \<le> sl_tokens_pending r \<and> pf_chunk_size p \<le> n"
  using assms
proof (induction n rs rule: prefill_pass.induct)
  case (2 n r rs)
  show ?case
  proof (cases "n \<le> 0 \<or> sl_is_decoding r \<or> sl_tokens_pending r \<le> 0")
    case True
    with 2 show ?thesis by (auto split: if_splits)
  next
    case False
    let ?c = "min n (sl_tokens_pending r)"
    from False 2(4) consider (head) "p = \<lparr>pf_request_id = sl_request_id r, pf_chunk_size = ?c\<rparr>"
      | (tail) "p \<in> set (fst (prefill_pass (n - ?c) rs))"
      by (auto simp: split_beta Let_def)
    then show ?thesis
    proof cases
      case head
      with False show ?thesis by auto
    next
      case tail
      with 2(3) False have "\<exists>r \<in> set rs. \<not> sl_is_decoding r \<and> pf_request_id p = sl_request_id r
           \<and> 0 < pf_chunk_size p \<and> pf_chunk_size p \<le> sl_tokens_pending r \<and> pf_chunk_size p \<le> n - ?c"
        by auto
      with False show ?thesis by fastforce
    qed
  qed
qed simp

lemma prefill_pass_ids:
  "n \<le> 0 \<Longrightarrow> fst (prefill_pass n rs) = []"
  by (cases rs) auto

section \<open>Properties of a schedule\<close>

text \<open>
  C9. The schedule uses exactly as much of the token budget as the active requests can use: the
  decodes of this iteration plus the prefill chunks, counted by \<^verbatim>\<open>total_tokens_scheduled\<close>, are the
  minimum of the budget and the total demand. So the budget is never exceeded and no budget is
  left while a request could use it.
\<close>

theorem schedule_work_conserving:
  assumes "newPrefillScheduler budget = Inr c"
  shows "bs_total_tokens_scheduled (schedule c rs)
           = min budget (int (decode_demand rs) + prefill_demand rs)
       \<and> bs_total_tokens_scheduled (schedule c rs)
           = int (length (bs_decodes (schedule c rs)))
             + sum_list (map pf_chunk_size (bs_prefills (schedule c rs)))"
proof -
  have pos: "0 < budget" and c: "cps_tokenBudget c = budget"
    using assms by (auto simp: newPrefillScheduler_def split: if_splits)
  let ?rem = "snd (decode_pass budget rs)"
  have rem: "0 \<le> ?rem" "?rem = budget - min budget (int (decode_demand rs))"
    using snd_decode_pass [of budget rs] pos by auto
  have len: "int (length (fst (decode_pass budget rs))) = min budget (int (decode_demand rs))"
    using pos by (simp add: fst_decode_pass decode_demand_def min_def) linarith
  show ?thesis
    using rem len snd_prefill_pass [OF rem(1), of rs] sum_prefill_pass [OF rem(1), of rs] prefill_demand_nonneg [of rs]
    by (auto simp: schedule_def c split_beta Let_def min_def)
qed

theorem schedule_work_conserving_witness:
  "bs_total_tokens_scheduled (schedule \<lparr>cps_tokenBudget = 8\<rparr>
     [\<lparr>sl_request_id = 1, sl_tokens_pending = 20, sl_tokens_decoded = 0, sl_is_decoding = False\<rparr>,
      \<lparr>sl_request_id = 2, sl_tokens_pending = 0, sl_tokens_decoded = 3, sl_is_decoding = True\<rparr>]) = 8"
  using schedule_work_conserving [of 8 "\<lparr>cps_tokenBudget = 8\<rparr>"
     "[\<lparr>sl_request_id = 1, sl_tokens_pending = 20, sl_tokens_decoded = 0, sl_is_decoding = False\<rparr>,
      \<lparr>sl_request_id = 2, sl_tokens_pending = 0, sl_tokens_decoded = 3, sl_is_decoding = True\<rparr>]"]
  by (simp add: newPrefillScheduler_def)

text \<open>
  C12. Decodes come first: the decodes of the schedule are the first decoding requests in input
  order, as many as the budget admits, and as soon as any prefill chunk is scheduled every
  decoding request has its token. Every chunk is positive, fits the budget, and is part of what a
  prefilling request of the input still has pending.
\<close>

theorem schedule_decode_first:
  fixes c :: ChunkedPrefillScheduler
  shows "map da_request_id (bs_decodes (schedule c rs))
           = map sl_request_id (take (nat (cps_tokenBudget c)) (filter sl_is_decoding rs))
       \<and> (bs_prefills (schedule c rs) \<noteq> [] \<longrightarrow>
            length (bs_decodes (schedule c rs)) = decode_demand rs)
       \<and> (\<forall>p \<in> set (bs_prefills (schedule c rs)).
            \<exists>r \<in> set rs. \<not> sl_is_decoding r \<and> pf_request_id p = sl_request_id r \<and> 0 < pf_chunk_size p
              \<and> pf_chunk_size p \<le> sl_tokens_pending r \<and> pf_chunk_size p \<le> cps_tokenBudget c)"
proof (intro conjI impI ballI)
  let ?b = "cps_tokenBudget c"
  let ?rem = "snd (decode_pass ?b rs)"
  have pre: "bs_prefills (schedule c rs) = fst (prefill_pass ?rem rs)"
    and dec: "bs_decodes (schedule c rs) = fst (decode_pass ?b rs)"
    by (simp_all add: schedule_def split_beta Let_def)
  show "map da_request_id (bs_decodes (schedule c rs))
      = map sl_request_id (take (nat ?b) (filter sl_is_decoding rs))"
    by (simp add: dec fst_decode_pass)
  show "length (bs_decodes (schedule c rs)) = decode_demand rs" if "bs_prefills (schedule c rs) \<noteq> []"
  proof -
    have "0 < ?rem" using that prefill_pass_ids [of ?rem rs] unfolding pre by linarith
    moreover have "?rem \<le> ?b" if "?b \<le> 0" using that by (cases rs) auto
    ultimately have "0 \<le> ?b" by linarith
    with \<open>0 < ?rem\<close> show ?thesis
      using snd_decode_pass [of ?b rs] by (simp add: dec fst_decode_pass decode_demand_def min_def split: if_splits)
  qed
  fix p assume "p \<in> set (bs_prefills (schedule c rs))"
  then obtain r where r: "r \<in> set rs" "\<not> sl_is_decoding r" "pf_request_id p = sl_request_id r"
    "0 < pf_chunk_size p" "pf_chunk_size p \<le> sl_tokens_pending r" "pf_chunk_size p \<le> ?rem"
    using prefill_pass_chunks [of p ?rem rs] by (auto simp: pre)
  have "?rem \<le> ?b"
    using snd_decode_pass [of ?b rs] by (cases "0 \<le> ?b"; cases rs) (auto simp: min_def)
  with r show "\<exists>r \<in> set rs. \<not> sl_is_decoding r \<and> pf_request_id p = sl_request_id r \<and> 0 < pf_chunk_size p
      \<and> pf_chunk_size p \<le> sl_tokens_pending r \<and> pf_chunk_size p \<le> ?b"
    by force
qed

theorem schedule_decode_first_witness:
  "bs_prefills (schedule \<lparr>cps_tokenBudget = 8\<rparr>
     [\<lparr>sl_request_id = 1, sl_tokens_pending = 20, sl_tokens_decoded = 0, sl_is_decoding = False\<rparr>,
      \<lparr>sl_request_id = 2, sl_tokens_pending = 0, sl_tokens_decoded = 3, sl_is_decoding = True\<rparr>])
     = [\<lparr>pf_request_id = 1, pf_chunk_size = 7\<rparr>]
   \<and> length (bs_decodes (schedule \<lparr>cps_tokenBudget = 8\<rparr>
     [\<lparr>sl_request_id = 1, sl_tokens_pending = 20, sl_tokens_decoded = 0, sl_is_decoding = False\<rparr>,
      \<lparr>sl_request_id = 2, sl_tokens_pending = 0, sl_tokens_decoded = 3, sl_is_decoding = True\<rparr>])) = 1"
  using schedule_decode_first [of "\<lparr>cps_tokenBudget = 8\<rparr>"
     "[\<lparr>sl_request_id = 1, sl_tokens_pending = 20, sl_tokens_decoded = 0, sl_is_decoding = False\<rparr>,
      \<lparr>sl_request_id = 2, sl_tokens_pending = 0, sl_tokens_decoded = 3, sl_is_decoding = True\<rparr>]"]
  by (simp add: schedule_def)

end
