(* ===== verification/RequestScheduling.thy ===== *)
theory RequestScheduling
  imports Complex_Main KvOwnership PrefillScheduler
begin

text \<open>
  The request lifecycle of the serving loop, \<^verbatim>\<open>RequestScheduler\<close>
  (\<^verbatim>\<open>src/runtime/serving/RequestScheduler.{hpp,cpp}\<close>).

  \<^item> \<^verbatim>\<open>_requests\<close> is the list \<open>rs_requests\<close> in storage order; a reference or pointer into the vector
    is an index, and a write through it is a list update at that index.
  \<^item> \<^verbatim>\<open>_indexById\<close> is a map, \<^verbatim>\<open>_stateCount\<close> a function from the state to its population.
  \<^item> \<^verbatim>\<open>_allocator\<close> points to the shared allocator: \<open>rs_allocator\<close> holds the state of the pointee, or
    \<open>None\<close> for the null pointer of the state-machine-only mode.
  \<^item> \<^verbatim>\<open>drainCompleted\<close> destroys the completed entries in storage order: \<^verbatim>\<open>std::remove_if\<close> overwrites
    them from the front, and the rest is destroyed front to back by \<^verbatim>\<open>erase\<close>; a moved-from entry has a
    null allocator and releases nothing. So the releases are one fold over the completed entries.
\<close>

datatype RequestState = Waiting | Prefilling | Decoding | Completed | Preempted

record RequestStateData =
  rq_request_id :: u64
  rq_state :: RequestState
  rq_prompt_length :: int
  rq_tokens_pending :: int
  rq_tokens_decoded :: int
  rq_max_tokens :: int
  rq_admit_seq :: u64
  rq_kv_sequence :: "PagedKvSequence option"
  rq_ever_preempted :: bool

type_synonym state_counts = "RequestState \<Rightarrow> nat"

record RequestScheduler =
  rs_prefillScheduler :: ChunkedPrefillScheduler
  rs_maxActiveRequests :: nat
  rs_allocator :: "PagedKvBlockAllocator option"
  rs_nextRequestId :: u64
  rs_nextAdmitSeq :: u64
  rs_requests :: "RequestStateData list"
  rs_indexById :: "u64 \<rightharpoonup> nat"
  rs_stateCount :: state_counts
  rs_totalAdmitted :: u64
  rs_totalCompleted :: u64
  rs_totalPreempted :: u64

record ServingMetrics =
  sm_num_waiting :: nat
  sm_num_active :: nat
  sm_num_preempted :: nat
  sm_num_completed_current :: nat
  sm_total_admitted :: u64
  sm_total_completed :: u64
  sm_total_preempted :: u64
  sm_block_pool_total :: nat
  sm_block_pool_free :: nat
  sm_block_pool_used :: nat
  sm_block_pool_utilization :: rat

definition newRequestScheduler ::
  "int \<Rightarrow> nat \<Rightarrow> PagedKvBlockAllocator option \<Rightarrow> RequestScheduler result" where
  "newRequestScheduler tokenBudget maxActiveRequests allocator =
     (case newPrefillScheduler tokenBudget of
        Inl e \<Rightarrow> Inl e
      | Inr c \<Rightarrow>
          if maxActiveRequests = 0
          then Inl (InvalidArgument ''RequestScheduler: maxActiveRequests must be > 0'')
          else Inr \<lparr>rs_prefillScheduler = c, rs_maxActiveRequests = maxActiveRequests,
                    rs_allocator = allocator, rs_nextRequestId = 1, rs_nextAdmitSeq = 1,
                    rs_requests = [], rs_indexById = Map.empty, rs_stateCount = (\<lambda>_. 0),
                    rs_totalAdmitted = 0, rs_totalCompleted = 0, rs_totalPreempted = 0\<rparr>)"

definition admit :: "int \<Rightarrow> int \<Rightarrow> RequestScheduler \<Rightarrow> u64 \<times> RequestScheduler" where
  "admit promptLength maxTokens s =
     (if promptLength \<le> 0 \<or> maxTokens \<le> 0 then (0, s)
      else
        let r = \<lparr>rq_request_id = rs_nextRequestId s, rq_state = Waiting,
                 rq_prompt_length = promptLength, rq_tokens_pending = promptLength,
                 rq_tokens_decoded = 0, rq_max_tokens = maxTokens,
                 rq_admit_seq = rs_nextAdmitSeq s,
                 rq_kv_sequence = map_option (\<lambda>_. newSequence) (rs_allocator s),
                 rq_ever_preempted = False\<rparr>;
            i = length (rs_requests s)
        in (rq_request_id r,
            s\<lparr>rs_nextRequestId := rs_nextRequestId s + 1,
              rs_nextAdmitSeq := rs_nextAdmitSeq s + 1,
              rs_requests := rs_requests s @ [r],
              rs_indexById := (case rs_indexById s (rq_request_id r) of
                                 None \<Rightarrow> (rs_indexById s)(rq_request_id r \<mapsto> i)
                               | Some _ \<Rightarrow> rs_indexById s),
              rs_stateCount := (rs_stateCount s)(Waiting := rs_stateCount s Waiting + 1),
              rs_totalAdmitted := rs_totalAdmitted s + 1\<rparr>))"

definition setState ::
  "RequestStateData \<Rightarrow> RequestState \<Rightarrow> state_counts \<Rightarrow> RequestStateData \<times> state_counts" where
  "setState r nxt c =
     (let c1 = c(rq_state r := c (rq_state r) - 1)
      in (r\<lparr>rq_state := nxt\<rparr>, c1(nxt := c1 nxt + 1)))"

fun index_from :: "nat \<Rightarrow> RequestStateData list \<Rightarrow> (u64 \<rightharpoonup> nat) \<Rightarrow> (u64 \<rightharpoonup> nat)" where
  "index_from i [] m = m"
| "index_from i (r # rs) m =
     index_from (Suc i) rs
       (case m (rq_request_id r) of None \<Rightarrow> m(rq_request_id r \<mapsto> i) | Some _ \<Rightarrow> m)"

definition rebuildIndex :: "RequestScheduler \<Rightarrow> RequestScheduler" where
  "rebuildIndex s = s\<lparr>rs_indexById := index_from 0 (rs_requests s) Map.empty\<rparr>"

fun reenqueue_loop ::
  "RequestStateData list \<Rightarrow> state_counts \<Rightarrow> RequestStateData list \<times> state_counts" where
  "reenqueue_loop [] c = ([], c)"
| "reenqueue_loop (r # rs) c =
     (let (r1, c1) =
            (if rq_state r = Preempted
             then (let (r', c') = setState r Waiting c
                   in (r'\<lparr>rq_tokens_pending := rq_prompt_length r', rq_tokens_decoded := 0\<rparr>, c'))
             else (r, c));
          (rs', c2) = reenqueue_loop rs c1
      in (r1 # rs', c2))"

definition reenqueuePreempted :: "RequestScheduler \<Rightarrow> RequestScheduler" where
  "reenqueuePreempted s =
     (let (rs, c) = reenqueue_loop (rs_requests s) (rs_stateCount s)
      in s\<lparr>rs_requests := rs, rs_stateCount := c\<rparr>)"

definition numWaiting :: "RequestScheduler \<Rightarrow> nat" where
  "numWaiting s = rs_stateCount s Waiting"

definition numActive :: "RequestScheduler \<Rightarrow> nat" where
  "numActive s = rs_stateCount s Prefilling + rs_stateCount s Decoding"

definition numCompleted :: "RequestScheduler \<Rightarrow> nat" where
  "numCompleted s = rs_stateCount s Completed"

definition numPreempted :: "RequestScheduler \<Rightarrow> nat" where
  "numPreempted s = rs_stateCount s Preempted"

fun promote_loop ::
  "nat \<Rightarrow> nat \<Rightarrow> RequestStateData list \<Rightarrow> state_counts \<Rightarrow> RequestStateData list \<times> state_counts" where
  "promote_loop maxActive active [] c = ([], c)"
| "promote_loop maxActive active (r # rs) c =
     (if active \<ge> maxActive then (r # rs, c)
      else if rq_state r \<noteq> Waiting
           then (let (rs', c') = promote_loop maxActive active rs c in (r # rs', c'))
           else (let (r', c1) = setState r (if rq_tokens_pending r > 0 then Prefilling else Decoding) c;
                     (rs', c2) = promote_loop maxActive (Suc active) rs c1
                 in (r' # rs', c2)))"

definition promoteWaitingToActive :: "RequestScheduler \<Rightarrow> RequestScheduler" where
  "promoteWaitingToActive s =
     (if numActive s \<ge> rs_maxActiveRequests s then s
      else let (rs, c) = promote_loop (rs_maxActiveRequests s) (numActive s)
                           (rs_requests s) (rs_stateCount s)
           in s\<lparr>rs_requests := rs, rs_stateCount := c\<rparr>)"

definition is_active :: "RequestStateData \<Rightarrow> bool" where
  "is_active r \<longleftrightarrow> rq_state r = Prefilling \<or> rq_state r = Decoding"

definition slice_of :: "RequestStateData \<Rightarrow> RequestSlice" where
  "slice_of r = \<lparr>sl_request_id = rq_request_id r, sl_tokens_pending = rq_tokens_pending r,
     sl_tokens_decoded = rq_tokens_decoded r, sl_is_decoding = (rq_state r = Decoding)\<rparr>"

definition snapshotActiveSlices :: "RequestScheduler \<Rightarrow> RequestSlice list" where
  "snapshotActiveSlices s = map slice_of (filter is_active (rs_requests s))"

definition tick :: "RequestScheduler \<Rightarrow> BatchSchedule \<times> RequestScheduler" where
  "tick s = (let s' = promoteWaitingToActive (reenqueuePreempted s)
             in (schedule (rs_prefillScheduler s') (snapshotActiveSlices s'), s'))"

definition commit_prefill :: "PrefillAssignment \<Rightarrow> RequestScheduler \<Rightarrow> RequestScheduler" where
  "commit_prefill p s =
     (case rs_indexById s (pf_request_id p) of
        None \<Rightarrow> s
      | Some i \<Rightarrow>
          let r = rs_requests s ! i in
          if rq_state r \<noteq> Prefilling then s
          else let r1 = r\<lparr>rq_tokens_pending := rq_tokens_pending r - pf_chunk_size p\<rparr> in
            if rq_tokens_pending r1 \<le> 0
            then let (r2, c) = setState (r1\<lparr>rq_tokens_pending := 0\<rparr>) Decoding (rs_stateCount s)
                 in s\<lparr>rs_requests := (rs_requests s)[i := r2], rs_stateCount := c\<rparr>
            else s\<lparr>rs_requests := (rs_requests s)[i := r1]\<rparr>)"

definition commit_decode :: "DecodeAssignment \<times> bool \<Rightarrow> RequestScheduler \<Rightarrow> RequestScheduler" where
  "commit_decode de s =
     (case rs_indexById s (da_request_id (fst de)) of
        None \<Rightarrow> s
      | Some i \<Rightarrow>
          let r = rs_requests s ! i in
          if rq_state r \<noteq> Decoding then s
          else let r1 = r\<lparr>rq_tokens_decoded := rq_tokens_decoded r + 1\<rparr> in
            if snd de \<or> rq_tokens_decoded r1 \<ge> rq_max_tokens r1
            then let (r2, c) = setState r1 Completed (rs_stateCount s)
                 in s\<lparr>rs_requests := (rs_requests s)[i := r2], rs_stateCount := c,
                      rs_totalCompleted := rs_totalCompleted s + 1\<rparr>
            else s\<lparr>rs_requests := (rs_requests s)[i := r1]\<rparr>)"

text \<open>The EOS flags as \<^verbatim>\<open>commitProgress\<close> reads them: all false when the sizes do not match.\<close>

definition eos_flags :: "BatchSchedule \<Rightarrow> u8 list \<Rightarrow> bool list" where
  "eos_flags executed reachedEos =
     (if length reachedEos = length (bs_decodes executed)
      then map (\<lambda>b. b \<noteq> 0) reachedEos
      else replicate (length (bs_decodes executed)) False)"

definition commitProgress :: "BatchSchedule \<Rightarrow> u8 list \<Rightarrow> RequestScheduler \<Rightarrow> RequestScheduler" where
  "commitProgress executed reachedEos s =
     fold commit_decode (zip (bs_decodes executed) (eos_flags executed reachedEos))
       (fold commit_prefill (bs_prefills executed) s)"

text \<open>The victim loop of \<^verbatim>\<open>preemptOne\<close>: the pointer \<^verbatim>\<open>victim\<close> is an optional index.\<close>

fun victim_loop ::
  "RequestStateData list \<Rightarrow> nat \<Rightarrow> RequestStateData list \<Rightarrow> nat option \<Rightarrow> nat option" where
  "victim_loop reqs i [] v = v"
| "victim_loop reqs i (r # rs) v =
     victim_loop reqs (Suc i) rs
       (if \<not> is_active r then v
        else case v of None \<Rightarrow> Some i
             | Some j \<Rightarrow> if rq_admit_seq r > rq_admit_seq (reqs ! j) then Some i else v)"

definition preemptOne :: "RequestScheduler \<Rightarrow> u64 \<times> RequestScheduler" where
  "preemptOne s =
     (case victim_loop (rs_requests s) 0 (rs_requests s) None of
        None \<Rightarrow> (0, s)
      | Some i \<Rightarrow>
          let (r1, c) = setState (rs_requests s ! i) Preempted (rs_stateCount s);
              r2 = r1\<lparr>rq_ever_preempted := True\<rparr>;
              (kv, al) = (case (rq_kv_sequence r2, rs_allocator s) of
                            (Some q, Some a) \<Rightarrow> (let (q', a') = resetSequence q a in (Some q', Some a'))
                          | _ \<Rightarrow> (rq_kv_sequence r2, rs_allocator s))
          in (rq_request_id r2,
              s\<lparr>rs_requests := (rs_requests s)[i := r2\<lparr>rq_kv_sequence := kv\<rparr>],
                rs_stateCount := c, rs_allocator := al,
                rs_totalPreempted := rs_totalPreempted s + 1\<rparr>))"

definition drainCompleted :: "RequestScheduler \<Rightarrow> u64 list \<times> RequestScheduler" where
  "drainCompleted s =
     (let done = filter (\<lambda>r. rq_state r = Completed) (rs_requests s);
          al = map_option (fold releaseAllBlocks (List.map_filter rq_kv_sequence done)) (rs_allocator s)
      in (map rq_request_id done,
          rebuildIndex (s\<lparr>rs_requests := filter (\<lambda>r. rq_state r \<noteq> Completed) (rs_requests s),
                          rs_allocator := al,
                          rs_stateCount := (rs_stateCount s)(Completed := 0)\<rparr>)))"

text \<open>Appending the tokens of a span one by one, up to the first failure.\<close>

fun append_tokens ::
  "u32 list \<Rightarrow> PagedKvSequence \<Rightarrow> PagedKvBlockAllocator \<Rightarrow> bool \<times> PagedKvSequence \<times> PagedKvBlockAllocator" where
  "append_tokens [] q a = (True, q, a)"
| "append_tokens (t # ts) q a =
     (case appendToken t q a of
        (ok, q', a') \<Rightarrow> if ok then append_tokens ts q' a' else (False, q', a'))"

definition feedPrefillTokens :: "u64 \<Rightarrow> u32 list \<Rightarrow> RequestScheduler \<Rightarrow> bool \<times> RequestScheduler" where
  "feedPrefillTokens rid tokens s =
     (case rs_indexById s rid of
        None \<Rightarrow> (False, s)
      | Some i \<Rightarrow>
          (case (rq_kv_sequence (rs_requests s ! i), rs_allocator s) of
             (Some q, Some a) \<Rightarrow>
               (let (ok, q', a') = append_tokens tokens q a
                in (ok, s\<lparr>rs_requests := (rs_requests s)[i := (rs_requests s ! i)\<lparr>rq_kv_sequence := Some q'\<rparr>],
                          rs_allocator := Some a'\<rparr>))
           | _ \<Rightarrow> (False, s)))"

definition feedDecodeToken :: "u64 \<Rightarrow> u32 \<Rightarrow> RequestScheduler \<Rightarrow> bool \<times> RequestScheduler" where
  "feedDecodeToken rid token s =
     (case rs_indexById s rid of
        None \<Rightarrow> (False, s)
      | Some i \<Rightarrow>
          (case (rq_kv_sequence (rs_requests s ! i), rs_allocator s) of
             (Some q, Some a) \<Rightarrow>
               (let (ok, q', a') = appendToken token q a
                in (ok, s\<lparr>rs_requests := (rs_requests s)[i := (rs_requests s ! i)\<lparr>rq_kv_sequence := Some q'\<rparr>],
                          rs_allocator := Some a'\<rparr>))
           | _ \<Rightarrow> (False, s)))"

definition find_request :: "RequestScheduler \<Rightarrow> u64 \<Rightarrow> RequestStateData option" where
  "find_request s rid = map_option (\<lambda>i. rs_requests s ! i) (rs_indexById s rid)"

text \<open>\<^verbatim>\<open>block_pool_utilization\<close> is the exact quotient; the code rounds it to a double.\<close>

definition snapshotMetrics :: "RequestScheduler \<Rightarrow> ServingMetrics" where
  "snapshotMetrics s =
     (let (tot, fr, us) = (case rs_allocator s of None \<Rightarrow> (0, 0, 0)
                           | Some a \<Rightarrow> (numBlocksTotal a, numBlocksFree a, numBlocksUsed a))
      in \<lparr>sm_num_waiting = numWaiting s, sm_num_active = numActive s,
          sm_num_preempted = numPreempted s, sm_num_completed_current = numCompleted s,
          sm_total_admitted = rs_totalAdmitted s, sm_total_completed = rs_totalCompleted s,
          sm_total_preempted = rs_totalPreempted s,
          sm_block_pool_total = tot, sm_block_pool_free = fr, sm_block_pool_used = us,
          sm_block_pool_utilization = (if tot > 0 then of_nat us / of_nat tot else 0)\<rparr>)"

end
