(* ===== verification/SchedulerInvariant.thy ===== *)
theory SchedulerInvariant
  imports RequestScheduling
begin

text \<open>
  The invariant of the request scheduler and its preservation by every public operation of
  \<^verbatim>\<open>src/runtime/serving/RequestScheduler.cpp\<close>: the id index, the per-state counters, the cap on
  active requests, the ranges of the token counters, and the ownership of KV blocks.
\<close>

section \<open>The invariant\<close>

abbreviation count_st :: "RequestStateData list \<Rightarrow> RequestState \<Rightarrow> nat" where
  "count_st rs st \<equiv> length (filter (\<lambda>r. rq_state r = st) rs)"

definition req_ok :: "RequestStateData \<Rightarrow> bool" where
  "req_ok r \<longleftrightarrow>
     0 < rq_prompt_length r \<and> rq_prompt_length r < 2 ^ 31 \<and>
     0 < rq_max_tokens r \<and> rq_max_tokens r < 2 ^ 31 \<and>
     (case rq_state r of
        Waiting \<Rightarrow> rq_tokens_pending r = rq_prompt_length r \<and> rq_tokens_decoded r = 0
      | Prefilling \<Rightarrow> 0 < rq_tokens_pending r \<and> rq_tokens_pending r \<le> rq_prompt_length r
          \<and> rq_tokens_decoded r = 0
      | Decoding \<Rightarrow> rq_tokens_pending r = 0 \<and> 0 \<le> rq_tokens_decoded r
          \<and> rq_tokens_decoded r < rq_max_tokens r
      | Completed \<Rightarrow> rq_tokens_pending r = 0 \<and> 0 < rq_tokens_decoded r
          \<and> rq_tokens_decoded r \<le> rq_max_tokens r
      | Preempted \<Rightarrow> 0 \<le> rq_tokens_pending r \<and> rq_tokens_pending r \<le> rq_prompt_length r
          \<and> 0 \<le> rq_tokens_decoded r \<and> rq_tokens_decoded r < rq_max_tokens r)"

definition admitted_before :: "RequestStateData \<Rightarrow> RequestStateData \<Rightarrow> bool" where
  "admitted_before r r' \<longleftrightarrow> rq_request_id r < rq_request_id r' \<and> rq_admit_seq r < rq_admit_seq r'"

definition index_ok :: "(u64 \<rightharpoonup> nat) \<Rightarrow> RequestStateData list \<Rightarrow> bool" where
  "index_ok m rs \<longleftrightarrow> (\<forall>k i. m k = Some i \<longleftrightarrow> i < length rs \<and> rq_request_id (rs ! i) = k)"

definition table_inv :: "RequestScheduler \<Rightarrow> bool" where
  "table_inv s \<longleftrightarrow>
     0 < cps_tokenBudget (rs_prefillScheduler s) \<and> 0 < rs_maxActiveRequests s \<and>
     (\<forall>st. rs_stateCount s st = count_st (rs_requests s) st) \<and>
     length (filter is_active (rs_requests s)) \<le> rs_maxActiveRequests s \<and>
     index_ok (rs_indexById s) (rs_requests s) \<and>
     (\<forall>r \<in> set (rs_requests s). req_ok r) \<and>
     sorted_wrt admitted_before (rs_requests s) \<and>
     (\<forall>r \<in> set (rs_requests s). 0 < rq_request_id r \<and> rq_request_id r < rs_nextRequestId s
        \<and> rq_admit_seq r < rs_nextAdmitSeq s) \<and> 0 < rs_nextRequestId s"

definition sequences :: "RequestScheduler \<Rightarrow> PagedKvSequence list" where
  "sequences s = map (the \<circ> rq_kv_sequence) (rs_requests s)"

definition sched_kv :: "RequestScheduler \<Rightarrow> bool" where
  "sched_kv s \<longleftrightarrow>
     (case rs_allocator s of
        None \<Rightarrow> \<forall>r \<in> set (rs_requests s). rq_kv_sequence r = None
      | Some a \<Rightarrow> (\<forall>r \<in> set (rs_requests s). rq_kv_sequence r \<noteq> None) \<and> kv_inv a (sequences s))"

definition sched_inv :: "RequestScheduler \<Rightarrow> bool" where
  "sched_inv s \<longleftrightarrow> table_inv s \<and> sched_kv s"

section \<open>Counters and single-entry updates\<close>

lemma filter_is_active: "length (filter is_active rs) = count_st rs Prefilling + count_st rs Decoding"
  by (induction rs) (auto simp: is_active_def)

lemma numActive_eq: "table_inv s \<Longrightarrow> numActive s = length (filter is_active (rs_requests s))"
  by (simp add: numActive_def table_inv_def filter_is_active)

lemma count_st_update:
  "i < length rs \<Longrightarrow>
   count_st (rs[i := r']) st + (if rq_state (rs ! i) = st then 1 else 0)
     = count_st rs st + (if rq_state r' = st then 1 else 0)"
  by (rule length_filter_update)

lemma setState_simps [simp]:
  "fst (setState r nxt c) = r\<lparr>rq_state := nxt\<rparr>"
  by (simp add: setState_def)

lemma setState_counts:
  assumes "\<And>st. c st = count_st rs st" "i < length rs" "rq_state r = rq_state (rs ! i)"
    "rq_state r' = nxt"
  shows "snd (setState r nxt c) st = count_st (rs[i := r']) st"
proof -
  have "0 < count_st rs (rq_state (rs ! i))"
    using assms(2) by (auto simp: filter_empty_conv intro!: nth_mem)
  then show ?thesis
    using count_st_update [OF assms(2), of st r'] count_st_update [OF assms(2), of "rq_state (rs ! i)" r']
      assms by (auto simp: setState_def Let_def split: if_splits)
qed

lemma index_ok_update:
  assumes "index_ok m rs" "rq_request_id r' = rq_request_id (rs ! i)"
  shows "index_ok m (rs[i := r'])"
proof -
  have "rq_request_id (rs[i := r'] ! j) = rq_request_id (rs ! j)" for j
    using assms(2) by (cases "i < length rs") (auto simp: nth_list_update list_update_beyond)
  then show ?thesis using assms(1) by (simp add: index_ok_def)
qed

lemma sorted_wrt_update:
  assumes "sorted_wrt admitted_before rs" "i < length rs"
    "rq_request_id r' = rq_request_id (rs ! i)" "rq_admit_seq r' = rq_admit_seq (rs ! i)"
  shows "sorted_wrt admitted_before (rs[i := r'])"
  using assms by (auto simp: sorted_wrt_iff_nth_less admitted_before_def nth_list_update)

text \<open>The frame of every single-entry update: ids and admission order stay, counters follow.\<close>

lemma table_inv_update:
  assumes inv: "table_inv s" and i: "i < length (rs_requests s)"
    and r': "rq_request_id r' = rq_request_id (rs_requests s ! i)"
      "rq_admit_seq r' = rq_admit_seq (rs_requests s ! i)" "req_ok r'"
    and act: "is_active r' \<longrightarrow> is_active (rs_requests s ! i)"
    and s': "rs_requests s' = (rs_requests s)[i := r']"
      "\<And>st. rs_stateCount s' st = count_st ((rs_requests s)[i := r']) st"
      "rs_indexById s' = rs_indexById s" "rs_prefillScheduler s' = rs_prefillScheduler s"
      "rs_maxActiveRequests s' = rs_maxActiveRequests s"
      "rs_nextRequestId s' = rs_nextRequestId s" "rs_nextAdmitSeq s' = rs_nextAdmitSeq s"
  shows "table_inv s'"
proof -
  let ?rs = "rs_requests s"
  have mem: "r \<in> set (?rs[i := r']) \<Longrightarrow> r = r' \<or> r \<in> set ?rs" for r
    using set_update_subset_insert [of ?rs i r'] by auto
  have "length (filter is_active (?rs[i := r'])) \<le> length (filter is_active ?rs)"
    using length_filter_update [OF i, of is_active r'] act by (auto split: if_splits)
  moreover have "?rs ! i \<in> set ?rs" using i by simp
  ultimately show ?thesis
    using inv r' s' mem index_ok_update [of "rs_indexById s" ?rs r' i] sorted_wrt_update [OF _ i, of r']
    unfolding table_inv_def by (smt (verit) order_trans)
qed

section \<open>Admission, progress and preemption\<close>

lemma table_invD:
  assumes "table_inv s"
  shows "\<And>st. rs_stateCount s st = count_st (rs_requests s) st"
    and "length (filter is_active (rs_requests s)) \<le> rs_maxActiveRequests s"
    and "index_ok (rs_indexById s) (rs_requests s)"
    and "\<And>r. r \<in> set (rs_requests s) \<Longrightarrow> req_ok r"
    and "sorted_wrt admitted_before (rs_requests s)"
    and "0 < cps_tokenBudget (rs_prefillScheduler s)" "0 < rs_maxActiveRequests s"
  using assms by (auto simp: table_inv_def)

lemma index_okD:
  assumes "index_ok m rs" "m k = Some i"
  shows "i < length rs" "rq_request_id (rs ! i) = k"
  using assms by (auto simp: index_ok_def)

lemma index_ok_append:
  assumes "index_ok m rs" "\<And>r'. r' \<in> set rs \<Longrightarrow> rq_request_id r' \<noteq> rq_request_id r"
  shows "m (rq_request_id r) = None" "index_ok (m(rq_request_id r \<mapsto> length rs)) (rs @ [r])"
proof -
  show none: "m (rq_request_id r) = None"
    using assms by (metis index_ok_def not_None_eq nth_mem)
  show "index_ok (m(rq_request_id r \<mapsto> length rs)) (rs @ [r])"
    unfolding index_ok_def
  proof (intro allI)
    fix k i
    show "((m(rq_request_id r \<mapsto> length rs)) k = Some i) =
       (i < length (rs @ [r]) \<and> rq_request_id ((rs @ [r]) ! i) = k)"
      using assms none by (cases "k = rq_request_id r"; cases "i < length rs")
        (auto simp: index_ok_def nth_append less_Suc_eq)
  qed
qed

lemma table_inv_admit:
  assumes inv: "table_inv s" and bounds: "promptLength < 2 ^ 31" "maxTokens < 2 ^ 31"
    and room: "rs_nextRequestId s \<noteq> - 1" "rs_nextAdmitSeq s \<noteq> - 1"
  shows "table_inv (snd (admit promptLength maxTokens s))"
proof (cases "promptLength \<le> 0 \<or> maxTokens \<le> 0")
  case True
  with inv show ?thesis by (simp add: admit_def)
next
  case False
  have lt: "rs_nextRequestId s < rs_nextRequestId s + 1" "rs_nextAdmitSeq s < rs_nextAdmitSeq s + 1"
    using room unat_plus_one_u64 by (auto simp: word_less_nat_alt)
  have ids: "r' \<in> set (rs_requests s) \<Longrightarrow> rq_request_id r' \<noteq> rs_nextRequestId s" for r'
    using inv by (auto simp: table_inv_def)
  have none: "rs_indexById s (rs_nextRequestId s) = None"
    using table_invD(3) [OF inv] ids by (metis index_ok_def not_None_eq nth_mem)
  let ?s = "snd (admit promptLength maxTokens s)"
  define r where "r = last (rs_requests ?s)"
  have r: "rq_request_id r = rs_nextRequestId s" "rq_admit_seq r = rs_nextAdmitSeq s"
      "rq_state r = Waiting" "req_ok r"
    and fields: "rs_requests ?s = rs_requests s @ [r]"
      "rs_indexById ?s = (rs_indexById s)(rq_request_id r \<mapsto> length (rs_requests s))"
      "rs_stateCount ?s = (rs_stateCount s)(Waiting := rs_stateCount s Waiting + 1)"
      "rs_nextRequestId ?s = rs_nextRequestId s + 1" "rs_nextAdmitSeq ?s = rs_nextAdmitSeq s + 1"
      "rs_prefillScheduler ?s = rs_prefillScheduler s"
      "rs_maxActiveRequests ?s = rs_maxActiveRequests s"
    using False bounds none by (simp_all add: r_def admit_def Let_def req_ok_def)
  have "index_ok (rs_indexById ?s) (rs_requests ?s)"
    unfolding fields using index_ok_append(2) [OF table_invD(3) [OF inv]] ids r(1) by metis
  moreover have "sorted_wrt admitted_before (rs_requests ?s)"
    using inv r by (auto simp: fields sorted_wrt_append admitted_before_def table_inv_def)
  moreover have "\<forall>q \<in> set (rs_requests ?s). 0 < rq_request_id q \<and> rq_request_id q < rs_nextRequestId ?s
      \<and> rq_admit_seq q < rs_nextAdmitSeq ?s"
    using inv r lt by (auto simp: fields table_inv_def intro: less_trans)
  moreover have "0 < rs_nextRequestId ?s"
    using lt(1) by (metis fields(4) word_gt_0 word_not_simps(1))
  ultimately show ?thesis
    using inv r by (auto simp: table_inv_def fields is_active_def)
qed

text \<open>Progress of one prefill chunk and of one decoded token.\<close>

lemma table_inv_commit_prefill:
  assumes inv: "table_inv s" and pos: "0 \<le> pf_chunk_size p"
  shows "table_inv (commit_prefill p s)"
proof (cases "rs_indexById s (pf_request_id p)")
  case None
  with inv show ?thesis by (simp add: commit_prefill_def)
next
  case (Some i)
  note i = index_okD [OF table_invD(3) [OF inv] Some]
  let ?r = "rs_requests s ! i"
  have ok: "req_ok ?r" using table_invD(4) [OF inv] i by simp
  show ?thesis
  proof (cases "rq_state ?r = Prefilling")
    case False
    with inv Some show ?thesis by (simp add: commit_prefill_def)
  next
    case True
    let ?p = "rq_tokens_pending ?r - pf_chunk_size p"
    define r' where "r' = (if ?p \<le> 0 then ?r\<lparr>rq_tokens_pending := 0, rq_state := Decoding\<rparr>
                           else ?r\<lparr>rq_tokens_pending := ?p\<rparr>)"
    have "req_ok r'" using ok True pos by (auto simp: r'_def req_ok_def)
    moreover have "snd (setState (?r\<lparr>rq_tokens_pending := 0\<rparr>) Decoding (rs_stateCount s)) st
        = count_st ((rs_requests s)[i := r']) st" if "?p \<le> 0" for st
      using setState_counts [OF table_invD(1) [OF inv] i(1)] that by (simp add: r'_def)
    moreover have "count_st ((rs_requests s)[i := r']) st = count_st (rs_requests s) st" if "\<not> ?p \<le> 0" for st
      using count_st_update [OF i(1), of st r'] that by (simp add: r'_def)
    ultimately show ?thesis
      using True Some table_invD(1) [OF inv]
      by (intro table_inv_update [OF inv i(1), of r'])
        (auto simp: commit_prefill_def Let_def split_beta r'_def is_active_def)
  qed
qed

lemma table_inv_commit_decode:
  assumes inv: "table_inv s"
  shows "table_inv (commit_decode de s)"
proof (cases "rs_indexById s (da_request_id (fst de))")
  case None
  with inv show ?thesis by (simp add: commit_decode_def)
next
  case (Some i)
  note i = index_okD [OF table_invD(3) [OF inv] Some]
  let ?r = "rs_requests s ! i"
  have ok: "req_ok ?r" using table_invD(4) [OF inv] i by simp
  show ?thesis
  proof (cases "rq_state ?r = Decoding")
    case False
    with inv Some show ?thesis by (simp add: commit_decode_def)
  next
    case True
    let ?fin = "snd de \<or> rq_tokens_decoded ?r + 1 \<ge> rq_max_tokens ?r"
    let ?r1 = "?r\<lparr>rq_tokens_decoded := rq_tokens_decoded ?r + 1\<rparr>"
    define r' where "r' = (if ?fin then ?r1\<lparr>rq_state := Completed\<rparr> else ?r1)"
    have "req_ok r'" using ok True by (auto simp: r'_def req_ok_def)
    moreover have "snd (setState ?r1 Completed (rs_stateCount s)) st
        = count_st ((rs_requests s)[i := r']) st" if "?fin" for st
      using setState_counts [OF table_invD(1) [OF inv] i(1)] that by (simp add: r'_def)
    moreover have "count_st ((rs_requests s)[i := r']) st = count_st (rs_requests s) st" if "\<not> ?fin" for st
      using count_st_update [OF i(1), of st r'] that by (simp add: r'_def)
    ultimately show ?thesis
      using True Some table_invD(1) [OF inv]
      by (intro table_inv_update [OF inv i(1), of r'])
        (auto simp: commit_decode_def Let_def split_beta r'_def is_active_def)
  qed
qed

lemma table_inv_commitProgress:
  assumes "table_inv s" "\<And>p. p \<in> set (bs_prefills ex) \<Longrightarrow> 0 \<le> pf_chunk_size p"
  shows "table_inv (commitProgress ex eos s)"
proof -
  have pre: "table_inv (fold commit_prefill ps t)"
    if "table_inv t" "\<And>p. p \<in> set ps \<Longrightarrow> 0 \<le> pf_chunk_size p" for ps t
    using that by (induction ps arbitrary: t) (simp_all add: table_inv_commit_prefill)
  have dec: "table_inv t \<Longrightarrow> table_inv (fold commit_decode ds t)" for ds t
    by (induction ds arbitrary: t) (simp_all add: table_inv_commit_decode)
  show ?thesis unfolding commitProgress_def using pre dec assms by blast
qed

text \<open>The victim of a preemption is the active request with the greatest admission number.\<close>

definition victim_spec :: "RequestStateData list \<Rightarrow> nat \<Rightarrow> nat option \<Rightarrow> bool" where
  "victim_spec reqs k v \<longleftrightarrow>
     (case v of
        None \<Rightarrow> \<forall>j < k. \<not> is_active (reqs ! j)
      | Some i \<Rightarrow> i < k \<and> is_active (reqs ! i) \<and>
          (\<forall>j < k. is_active (reqs ! j) \<longrightarrow> rq_admit_seq (reqs ! j) \<le> rq_admit_seq (reqs ! i)))"

lemma victim_loop_spec:
  "rs = drop k reqs \<Longrightarrow> k \<le> length reqs \<Longrightarrow> victim_spec reqs k v \<Longrightarrow>
   victim_spec reqs (length reqs) (victim_loop reqs k rs v)"
proof (induction rs arbitrary: k v)
  case Nil
  then show ?case by simp
next
  case (Cons r rs)
  have k: "k < length reqs" using Cons.prems(1) by (metis drop_eq_Nil list.distinct(1) not_le)
  have r: "r = reqs ! k" "rs = drop (Suc k) reqs"
    using Cons.prems(1) k by (metis Cons_nth_drop_Suc list.inject)+
  let ?v = "if \<not> is_active r then v else case v of None \<Rightarrow> Some k
      | Some j \<Rightarrow> if rq_admit_seq r > rq_admit_seq (reqs ! j) then Some k else v"
  have "victim_spec reqs (Suc k) ?v"
    using Cons.prems(3) r(1) by (auto simp: victim_spec_def less_Suc_eq split: option.splits)
  then show ?case using Cons.IH [OF r(2)] k by simp
qed

lemma victim_of: "victim_spec rs (length rs) (victim_loop rs 0 rs None)"
  by (rule victim_loop_spec) (simp_all add: victim_spec_def)

lemma req_ok_preempt: "req_ok r \<Longrightarrow> is_active r \<Longrightarrow> req_ok (r\<lparr>rq_state := Preempted, rq_ever_preempted := b, rq_kv_sequence := q\<rparr>)"
  by (auto simp: req_ok_def is_active_def split: RequestState.splits)

lemma table_inv_preemptOne:
  assumes inv: "table_inv s"
  shows "table_inv (snd (preemptOne s))"
proof (cases "victim_loop (rs_requests s) 0 (rs_requests s) None")
  case None
  with inv show ?thesis by (simp add: preemptOne_def)
next
  case (Some i)
  let ?r = "rs_requests s ! i"
  have i: "i < length (rs_requests s)" "is_active ?r"
    using victim_of [of "rs_requests s"] Some by (simp_all add: victim_spec_def)
  obtain q where q: "rs_requests (snd (preemptOne s))
      = (rs_requests s)[i := ?r\<lparr>rq_state := Preempted, rq_ever_preempted := True, rq_kv_sequence := q\<rparr>]"
    using Some by (fastforce simp: preemptOne_def Let_def split_beta)
  let ?r' = "?r\<lparr>rq_state := Preempted, rq_ever_preempted := True, rq_kv_sequence := q\<rparr>"
  have ok: "req_ok ?r'" using req_ok_preempt table_invD(4) [OF inv] i by simp
  have cnt: "snd (setState ?r Preempted (rs_stateCount s)) st = count_st ((rs_requests s)[i := ?r']) st" for st
    by (rule setState_counts [OF table_invD(1) [OF inv] i(1)]) simp_all
  show ?thesis
    by (rule table_inv_update [OF inv i(1) _ _ ok _ q])
      (use Some cnt in \<open>auto simp: preemptOne_def Let_def split_beta is_active_def\<close>)
qed

section \<open>Draining and the id index\<close>

lemma index_from_Some:
  assumes "distinct (map rq_request_id rs)" "\<And>r. r \<in> set rs \<Longrightarrow> m (rq_request_id r) = None"
  shows "index_from n rs m k = Some i \<longleftrightarrow>
    m k = Some i \<or> (\<exists>j < length rs. i = n + j \<and> rq_request_id (rs ! j) = k)"
  using assms
proof (induction rs arbitrary: n m)
  case Nil
  then show ?case by simp
next
  case (Cons r rs)
  let ?m = "m(rq_request_id r \<mapsto> n)"
  have step: "index_from n (r # rs) m = index_from (Suc n) rs ?m" using Cons.prems(2) by simp
  have "index_from (Suc n) rs ?m k = Some i \<longleftrightarrow>
      ?m k = Some i \<or> (\<exists>j < length rs. i = Suc n + j \<and> rq_request_id (rs ! j) = k)"
  proof (rule Cons.IH)
    show "distinct (map rq_request_id rs)" using Cons.prems(1) by simp
    fix q assume "q \<in> set rs"
    moreover from this have "rq_request_id q \<noteq> rq_request_id r"
      using Cons.prems(1) by (metis distinct.simps(2) imageI list.set_map list.simps(9))
    ultimately show "?m (rq_request_id q) = None" using Cons.prems(2) by simp
  qed
  also have "\<dots> \<longleftrightarrow> m k = Some i \<or> (\<exists>j < length (r # rs). i = n + j \<and> rq_request_id ((r # rs) ! j) = k)"
    using Cons.prems by (auto simp: less_Suc_eq_0_disj)
  finally show ?case by (simp only: step)
qed

lemma sorted_ids_distinct: "sorted_wrt admitted_before rs \<Longrightarrow> distinct (map rq_request_id rs)"
  by (induction rs) (auto simp: admitted_before_def)

lemma index_from_ok: "sorted_wrt admitted_before rs \<Longrightarrow> index_ok (index_from 0 rs Map.empty) rs"
  using index_from_Some [OF sorted_ids_distinct, of rs Map.empty 0] by (simp add: index_ok_def)

lemma table_inv_drainCompleted:
  assumes inv: "table_inv s"
  shows "table_inv (snd (drainCompleted s))"
proof -
  let ?P = "\<lambda>r. rq_state r \<noteq> Completed"
  have srt: "sorted_wrt admitted_before (filter ?P (rs_requests s))"
    using table_invD(5) [OF inv] by (rule sorted_wrt_filter)
  have cnt: "((rs_stateCount s)(Completed := 0)) st = count_st (filter ?P (rs_requests s)) st" for st
    using table_invD(1) [OF inv] by (cases "st = Completed") (auto simp: filter_empty_conv intro: arg_cong [of _ _ length] filter_cong)
  have "filter is_active (filter ?P (rs_requests s)) = filter is_active (rs_requests s)"
    by (auto simp: is_active_def intro: filter_cong)
  then show ?thesis
    using inv cnt index_from_ok [OF srt] srt
    by (auto simp: drainCompleted_def rebuildIndex_def Let_def table_inv_def)
qed

section \<open>The passes of a tick\<close>

definition same_entry :: "RequestStateData \<Rightarrow> RequestStateData \<Rightarrow> bool" where
  "same_entry r r' \<longleftrightarrow> rq_request_id r' = rq_request_id r \<and> rq_admit_seq r' = rq_admit_seq r
     \<and> rq_kv_sequence r' = rq_kv_sequence r \<and> (req_ok r \<longrightarrow> req_ok r')"

lemma table_inv_list:
  assumes inv: "table_inv s" and same: "list_all2 same_entry (rs_requests s) rs'"
    and cnt: "\<And>st. c st = count_st rs' st"
    and act: "length (filter is_active rs') \<le> rs_maxActiveRequests s"
  shows "table_inv (s\<lparr>rs_requests := rs', rs_stateCount := c\<rparr>)"
proof -
  let ?rs = "rs_requests s"
  have len: "length rs' = length ?rs" and nth: "\<And>i. i < length ?rs \<Longrightarrow> same_entry (?rs ! i) (rs' ! i)"
    using same by (auto simp: list_all2_conv_all_nth)
  have "index_ok (rs_indexById s) rs'"
    using table_invD(3) [OF inv] len nth by (auto simp: index_ok_def same_entry_def)
  moreover have "sorted_wrt admitted_before rs'"
    using table_invD(5) [OF inv] len nth
    by (auto simp: sorted_wrt_iff_nth_less admitted_before_def same_entry_def)
  moreover have "req_ok r' \<and> 0 < rq_request_id r' \<and> rq_request_id r' < rs_nextRequestId s
      \<and> rq_admit_seq r' < rs_nextAdmitSeq s" if "r' \<in> set rs'" for r'
  proof -
    obtain i where "i < length ?rs" "r' = rs' ! i" using \<open>r' \<in> set rs'\<close> len by (metis in_set_conv_nth)
    then show ?thesis using nth [of i] inv by (auto simp: same_entry_def table_inv_def)
  qed
  ultimately show ?thesis using inv cnt act by (simp add: table_inv_def)
qed

definition reenq :: "RequestStateData \<Rightarrow> RequestStateData" where
  "reenq r = (if rq_state r = Preempted
              then r\<lparr>rq_state := Waiting, rq_tokens_pending := rq_prompt_length r, rq_tokens_decoded := 0\<rparr>
              else r)"

lemma reenqueue_loop_Cons:
  "reenqueue_loop (r # rs) c =
     (let c1 = (if rq_state r = Preempted then snd (setState r Waiting c) else c);
          res = reenqueue_loop rs c1
      in (reenq r # fst res, snd res))"
  by (simp add: split_beta Let_def reenq_def)

lemma fst_reenqueue_loop: "fst (reenqueue_loop rs c) = map reenq rs"
  by (induction rs arbitrary: c) (simp_all add: reenqueue_loop_Cons Let_def del: reenqueue_loop.simps(2))

lemma reenqueue_loop_counts:
  "(\<And>st. count_st rs st \<le> c st) \<Longrightarrow>
   snd (reenqueue_loop rs c) st + count_st rs st = c st + count_st (map reenq rs) st"
proof (induction rs arbitrary: c)
  case (Cons r rs)
  define c1 where "c1 = (if rq_state r = Preempted then snd (setState r Waiting c) else c)"
  have c1: "c1 st + (if rq_state r = st then 1 else 0) = c st + (if rq_state (reenq r) = st then 1 else 0)" for st
    using Cons.prems [of Preempted] by (auto simp: c1_def setState_def reenq_def)
  have "count_st rs st \<le> c1 st" for st using c1 [of st] Cons.prems [of st] by (auto split: if_splits)
  from Cons.IH [OF this] c1 [of st] show ?case
    by (auto simp: reenqueue_loop_Cons c1_def [symmetric] Let_def simp del: reenqueue_loop.simps(2) split: if_splits)
qed simp

lemma same_entry_reenq: "same_entry r (reenq r)"
  by (auto simp: same_entry_def reenq_def req_ok_def)

lemma table_inv_reenqueue:
  assumes inv: "table_inv s"
  shows "table_inv (reenqueuePreempted s)"
    and "rs_requests (reenqueuePreempted s) = map reenq (rs_requests s)"
proof -
  let ?rs = "rs_requests s" and ?c = "snd (reenqueue_loop (rs_requests s) (rs_stateCount s))"
  have eq: "reenqueuePreempted s = s\<lparr>rs_requests := map reenq ?rs, rs_stateCount := ?c\<rparr>"
    by (simp add: reenqueuePreempted_def split_beta fst_reenqueue_loop)
  have cnt: "?c st = count_st (map reenq ?rs) st" for st
    using reenqueue_loop_counts [of ?rs "rs_stateCount s" st] table_invD(1) [OF inv] by simp
  have "filter is_active (map reenq rs) = map reenq (filter is_active rs)" for rs
    by (induction rs) (auto simp: reenq_def is_active_def)
  then have act: "length (filter is_active (map reenq ?rs)) \<le> rs_maxActiveRequests s"
    using table_invD(2) [OF inv] by simp
  show "table_inv (reenqueuePreempted s)"
    unfolding eq by (rule table_inv_list [OF inv _ cnt act]) (simp add: list_all2_conv_all_nth same_entry_reenq)
  show "rs_requests (reenqueuePreempted s) = map reenq ?rs" by (simp add: eq)
qed

definition promoted :: "RequestStateData \<Rightarrow> RequestStateData \<Rightarrow> bool" where
  "promoted r r' \<longleftrightarrow> r' = r \<or> (rq_state r = Waiting \<and>
     r' = r\<lparr>rq_state := (if rq_tokens_pending r > 0 then Prefilling else Decoding)\<rparr>)"

lemma promote_loop_Cons:
  "act < mx \<Longrightarrow> rq_state r = Waiting \<Longrightarrow>
   promote_loop mx act (r # rs) c =
     (let nxt = (if rq_tokens_pending r > 0 then Prefilling else Decoding);
          res = promote_loop mx (Suc act) rs (snd (setState r nxt c))
      in (r\<lparr>rq_state := nxt\<rparr> # fst res, snd res))"
  "act < mx \<Longrightarrow> rq_state r \<noteq> Waiting \<Longrightarrow>
   promote_loop mx act (r # rs) c =
     (r # fst (promote_loop mx act rs c), snd (promote_loop mx act rs c))"
  "\<not> act < mx \<Longrightarrow> promote_loop mx act rs c = (rs, c)"
  by (simp_all add: split_beta Let_def not_less) (cases rs; simp)

lemma promote_loop_promoted: "list_all2 promoted rs (fst (promote_loop mx act rs c))"
proof (induction rs arbitrary: act c)
  case (Cons r rs)
  then show ?case
    by (cases "act < mx"; cases "rq_state r = Waiting")
      (auto simp: promote_loop_Cons Let_def promoted_def list_all2_refl simp del: promote_loop.simps)
qed simp

lemma promote_loop_counts:
  "(\<And>st. count_st rs st \<le> c st) \<Longrightarrow>
   snd (promote_loop mx act rs c) st + count_st rs st = c st + count_st (fst (promote_loop mx act rs c)) st"
proof (induction rs arbitrary: act c)
  case (Cons r rs)
  let ?nxt = "if rq_tokens_pending r > 0 then Prefilling else Decoding"
  have le: "count_st rs st \<le> c st" for st using Cons.prems [of st] by (auto split: if_splits)
  show ?case
  proof (cases "act < mx \<and> rq_state r = Waiting")
    case False
    then show ?thesis
      using Cons.IH [OF le] by (cases "act < mx") (auto simp: promote_loop_Cons simp del: promote_loop.simps)
  next
    case True
    define nxt where "nxt = ?nxt"
    define c1 where "c1 = snd (setState r nxt c)"
    have c1: "c1 st + (if Waiting = st then 1 else 0) = c st + (if nxt = st then 1 else 0)" for st
      using Cons.prems [of Waiting] True by (auto simp: c1_def nxt_def setState_def)
    have "count_st rs st \<le> c1 st" for st using c1 [of st] Cons.prems [of st] True by (auto split: if_splits)
    from Cons.IH [OF this, of "Suc act"] c1 [of st] True show ?thesis
      by (auto simp: promote_loop_Cons c1_def [symmetric] nxt_def [symmetric] Let_def
          simp del: promote_loop.simps split: if_splits)
  qed
qed simp

lemma promote_loop_active:
  "act \<le> mx \<Longrightarrow>
   act + length (filter is_active (fst (promote_loop mx act rs c)))
     = min mx (act + count_st rs Waiting) + length (filter is_active rs)"
proof (induction rs arbitrary: act c)
  case (Cons r rs)
  let ?nxt = "if rq_tokens_pending r > 0 then Prefilling else Decoding"
  show ?case
  proof (cases "act < mx \<and> rq_state r = Waiting")
    case False
    then show ?thesis
      using Cons by (cases "act < mx") (auto simp: promote_loop_Cons is_active_def simp del: promote_loop.simps)
  next
    case True
    then have "Suc act \<le> mx" by simp
    from Cons.IH [OF this, of "snd (setState r ?nxt c)"] True show ?thesis
      by (auto simp: promote_loop_Cons Let_def is_active_def simp del: promote_loop.simps)
  qed
qed simp

lemma same_entry_promoted: "promoted r r' \<Longrightarrow> same_entry r r'"
  by (auto simp: same_entry_def promoted_def req_ok_def split: if_splits)

lemma table_inv_promote:
  assumes inv: "table_inv s"
  shows "table_inv (promoteWaitingToActive s)"
    and "list_all2 promoted (rs_requests s) (rs_requests (promoteWaitingToActive s))"
    and "length (filter is_active (rs_requests (promoteWaitingToActive s)))
      = min (rs_maxActiveRequests s) (length (filter is_active (rs_requests s)) + count_st (rs_requests s) Waiting)"
proof -
  let ?rs = "rs_requests s" and ?mx = "rs_maxActiveRequests s"
  let ?act = "length (filter is_active ?rs)"
  let ?p = "promote_loop ?mx ?act ?rs (rs_stateCount s)"
  have eq: "promoteWaitingToActive s = s\<lparr>rs_requests := fst ?p, rs_stateCount := snd ?p\<rparr>"
    using promote_loop_Cons(3) [of ?act ?mx ?rs "rs_stateCount s"]
    by (simp add: promoteWaitingToActive_def numActive_eq [OF inv] split_beta not_less)
  have act: "length (filter is_active (fst ?p)) = min ?mx (?act + count_st ?rs Waiting)"
    using promote_loop_active [OF table_invD(2) [OF inv], of ?rs "rs_stateCount s"] by simp
  have cnt: "snd ?p st = count_st (fst ?p) st" for st
    using promote_loop_counts [of ?rs "rs_stateCount s" ?mx ?act st] table_invD(1) [OF inv] by simp
  have same: "list_all2 same_entry ?rs (fst ?p)"
    using promote_loop_promoted by (rule list_all2_mono) (rule same_entry_promoted)
  show "table_inv (promoteWaitingToActive s)"
    unfolding eq by (rule table_inv_list [OF inv same cnt]) (simp add: act)
  show "list_all2 promoted ?rs (rs_requests (promoteWaitingToActive s))"
    by (simp add: eq promote_loop_promoted)
  show "length (filter is_active (rs_requests (promoteWaitingToActive s)))
      = min ?mx (?act + count_st ?rs Waiting)" by (simp add: eq act)
qed

lemma table_inv_tick: "table_inv s \<Longrightarrow> table_inv (snd (tick s))"
  by (simp add: tick_def Let_def table_inv_promote(1) table_inv_reenqueue(1))

section \<open>Block ownership across the operations\<close>

lemma sched_kv_list:
  assumes "sched_kv s" "rs_allocator s' = rs_allocator s"
    "map rq_kv_sequence (rs_requests s') = map rq_kv_sequence (rs_requests s)"
  shows "sched_kv s'"
proof -
  have "sequences s' = sequences s"
    unfolding sequences_def map_map [symmetric] assms(3) by simp
  moreover have "rq_kv_sequence ` set (rs_requests s') = rq_kv_sequence ` set (rs_requests s)"
    using assms(3) by (metis list.set_map)
  ultimately show ?thesis
    using assms(1,2) by (auto simp: sched_kv_def image_iff set_eq_iff split: option.splits) metis+
qed

lemma same_entry_kv: "list_all2 same_entry rs rs' \<Longrightarrow> map rq_kv_sequence rs' = map rq_kv_sequence rs"
  by (induction rule: list_all2_induct) (auto simp: same_entry_def)

lemma map_kv_update:
  "rq_kv_sequence r' = rq_kv_sequence (rs ! i) \<Longrightarrow> map rq_kv_sequence (rs[i := r']) = map rq_kv_sequence rs"
  by (cases "i < length rs") (simp_all add: map_update list_update_same_conv list_update_beyond)

lemma sched_kv_commit:
  "sched_kv s \<Longrightarrow> sched_kv (commit_prefill p s)"
  "sched_kv s \<Longrightarrow> sched_kv (commit_decode de s)"
  by (erule sched_kv_list;
      auto simp: commit_prefill_def commit_decode_def Let_def split_beta map_kv_update split: option.splits)+

lemma sched_kv_commitProgress: "sched_kv s \<Longrightarrow> sched_kv (commitProgress ex eos s)"
proof -
  have "sched_kv t \<Longrightarrow> sched_kv (fold commit_prefill ps t)" for ps t
    by (induction ps arbitrary: t) (simp_all add: sched_kv_commit)
  moreover have "sched_kv t \<Longrightarrow> sched_kv (fold commit_decode ds t)" for ds t
    by (induction ds arbitrary: t) (simp_all add: sched_kv_commit)
  ultimately show "sched_kv s \<Longrightarrow> sched_kv (commitProgress ex eos s)"
    by (simp add: commitProgress_def)
qed

lemma sched_kv_tick:
  assumes "table_inv s" "sched_kv s"
  shows "sched_kv (snd (tick s))"
proof -
  have "sched_kv (reenqueuePreempted s)"
    using assms(2)
  proof (rule sched_kv_list)
    show "map rq_kv_sequence (rs_requests (reenqueuePreempted s)) = map rq_kv_sequence (rs_requests s)"
      using table_inv_reenqueue(2) [OF assms(1)] by (simp add: reenq_def)
  qed (simp add: reenqueuePreempted_def split_beta)
  then have "sched_kv (promoteWaitingToActive (reenqueuePreempted s))"
  proof (rule sched_kv_list)
    have "list_all2 same_entry (rs_requests (reenqueuePreempted s))
        (rs_requests (promoteWaitingToActive (reenqueuePreempted s)))"
      using table_inv_promote(2) [OF table_inv_reenqueue(1) [OF assms(1)]]
      by (rule list_all2_mono) (rule same_entry_promoted)
    then show "map rq_kv_sequence (rs_requests (promoteWaitingToActive (reenqueuePreempted s)))
        = map rq_kv_sequence (rs_requests (reenqueuePreempted s))" by (rule same_entry_kv)
  qed (simp add: promoteWaitingToActive_def split_beta)
  then show ?thesis by (simp add: tick_def Let_def)
qed

lemma sched_kv_admit: "sched_kv s \<Longrightarrow> sched_kv (snd (admit p m s))"
  using kv_inv_new_sequence
  by (auto simp: sched_kv_def admit_def sequences_def Let_def split: option.splits)

text \<open>A change of one entry's sequence together with the allocator.\<close>

lemma sched_kv_update:
  assumes "sched_kv s" "rs_allocator s = Some a" "i < length (rs_requests s)"
    and "kv_inv a' ((sequences s)[i := q'])"
    and "rs_allocator s' = Some a'" "rs_requests s' = (rs_requests s)[i := r']" "rq_kv_sequence r' = Some q'"
  shows "sched_kv s'"
proof -
  have "sequences s' = (sequences s)[i := q']"
    using assms(6,7) by (simp add: sequences_def map_update)
  moreover have "rq_kv_sequence r \<noteq> None" if "r \<in> set (rs_requests s')" for r
    using that assms(1,2,6,7) set_update_subset_insert [of "rs_requests s" i r']
    by (auto simp: sched_kv_def)
  ultimately show ?thesis using assms(4,5) by (simp add: sched_kv_def)
qed

lemma sched_kvD:
  assumes "sched_kv s" "rs_allocator s = Some a" "i < length (rs_requests s)"
  shows "kv_inv a (sequences s)" "i < length (sequences s)"
    "rq_kv_sequence (rs_requests s ! i) = Some (sequences s ! i)"
proof -
  show "kv_inv a (sequences s)" "i < length (sequences s)"
    using assms by (simp_all add: sched_kv_def sequences_def)
  have "rq_kv_sequence (rs_requests s ! i) \<noteq> None" using assms by (simp add: sched_kv_def)
  then show "rq_kv_sequence (rs_requests s ! i) = Some (sequences s ! i)"
    using assms(3) by (simp add: sequences_def)
qed

lemma sched_kv_none: "sched_kv s \<Longrightarrow> rs_allocator s = None \<Longrightarrow> i < length (rs_requests s) \<Longrightarrow>
   rq_kv_sequence (rs_requests s ! i) = None"
  by (simp add: sched_kv_def)

lemma sched_kv_preemptOne:
  assumes "sched_kv s"
  shows "sched_kv (snd (preemptOne s))"
proof (cases "victim_loop (rs_requests s) 0 (rs_requests s) None")
  case None
  with assms show ?thesis by (simp add: preemptOne_def)
next
  case (Some i)
  have i: "i < length (rs_requests s)"
    using victim_of [of "rs_requests s"] Some by (simp add: victim_spec_def)
  show ?thesis
  proof (cases "rs_allocator s")
    case None
    have "rq_kv_sequence (rs_requests s ! i) = None" using sched_kv_none [OF assms None i] .
    with Some None show ?thesis
      by (intro sched_kv_list [OF assms]) (simp_all add: preemptOne_def Let_def split_beta map_kv_update)
  next
    case (Some a)
    note kv = sched_kvD [OF assms Some i]
    obtain q' a' where r: "resetSequence (sequences s ! i) a = (q', a')" by fastforce
    show ?thesis
      by (rule sched_kv_update [OF assms Some i kv_inv_resetSequence [OF kv(1,2) r]])
        (use \<open>victim_loop _ _ _ _ = Some i\<close> Some kv(3) r in \<open>auto simp: preemptOne_def Let_def split_beta\<close>)
  qed
qed

lemma append_tokens_inv:
  "kv_inv a ss \<Longrightarrow> i < length ss \<Longrightarrow> append_tokens ts (ss ! i) a = (ok, q', a') \<Longrightarrow> kv_inv a' (ss[i := q'])"
proof (induction ts arbitrary: a ss)
  case (Cons t ts)
  obtain ok1 q1 a1 where r: "appendToken t (ss ! i) a = (ok1, q1, a1)" by (cases "appendToken t (ss ! i) a") auto
  have kv: "kv_inv a1 (ss[i := q1])" using kv_inv_appendToken [OF Cons.prems(1,2) r] .
  show ?case
  proof (cases ok1)
    case True
    with r Cons.prems have "append_tokens ts ((ss[i := q1]) ! i) a1 = (ok, q', a')" by simp
    from Cons.IH [OF kv _ this] Cons.prems(2) show ?thesis by simp
  next
    case False
    with r Cons.prems kv show ?thesis by simp
  qed
qed auto

lemma sched_kv_feed:
  assumes inv: "table_inv s" and kv: "sched_kv s"
  shows "sched_kv (snd (feedPrefillTokens rid ts s))" "sched_kv (snd (feedDecodeToken rid t s))"
proof -
  have "sched_kv (snd (feedPrefillTokens rid ts s)) \<and> sched_kv (snd (feedDecodeToken rid t s))"
  proof (cases "rs_indexById s rid")
    case None
    with kv show ?thesis by (simp add: feedPrefillTokens_def feedDecodeToken_def)
  next
    case ix: (Some i)
    note i = index_okD(1) [OF table_invD(3) [OF inv] ix]
    show ?thesis
    proof (cases "rs_allocator s")
      case None
      with kv ix sched_kv_none [OF kv None i] show ?thesis
        by (simp add: feedPrefillTokens_def feedDecodeToken_def)
    next
      case (Some a)
      note d = sched_kvD [OF kv Some i]
      obtain ok1 q1 a1 where r1: "append_tokens ts (sequences s ! i) a = (ok1, q1, a1)"
        by (cases "append_tokens ts (sequences s ! i) a") auto
      obtain ok2 q2 a2 where r2: "appendToken t (sequences s ! i) a = (ok2, q2, a2)"
        by (cases "appendToken t (sequences s ! i) a") auto
      have "sched_kv (snd (feedPrefillTokens rid ts s))"
        by (rule sched_kv_update [OF kv Some i append_tokens_inv [OF d(1,2) r1],
            where r' = "(rs_requests s ! i)\<lparr>rq_kv_sequence := Some q1\<rparr>"])
          (simp_all add: feedPrefillTokens_def ix Some d(3) r1)
      moreover have "sched_kv (snd (feedDecodeToken rid t s))"
        by (rule sched_kv_update [OF kv Some i kv_inv_appendToken [OF d(1,2) r2],
            where r' = "(rs_requests s ! i)\<lparr>rq_kv_sequence := Some q2\<rparr>"])
          (simp_all add: feedDecodeToken_def ix Some d(3) r2)
      ultimately show ?thesis by simp
    qed
  qed
  then show "sched_kv (snd (feedPrefillTokens rid ts s))" "sched_kv (snd (feedDecodeToken rid t s))"
    by simp_all
qed

lemma sched_kv_drainCompleted:
  assumes "sched_kv s"
  shows "sched_kv (snd (drainCompleted s))"
proof (cases "rs_allocator s")
  case None
  with assms show ?thesis by (simp add: sched_kv_def drainCompleted_def rebuildIndex_def Let_def)
next
  case (Some a)
  let ?rs = "rs_requests s" and ?P = "\<lambda>r. rq_state r = Completed"
  have all: "\<forall>r \<in> set ?rs. rq_kv_sequence r \<noteq> None" and kv: "kv_inv a (sequences s)"
    using assms Some by (simp_all add: sched_kv_def)
  have mf: "List.map_filter rq_kv_sequence xs = map (the \<circ> rq_kv_sequence) xs"
    if "\<forall>r \<in> set xs. rq_kv_sequence r \<noteq> None" for xs
    using that by (induction xs) (auto simp: List.map_filter_simps)
  have "kv_inv (fold releaseAllBlocks (map (the \<circ> rq_kv_sequence) (filter ?P ?rs)) a)
      ([] @ map (the \<circ> rq_kv_sequence) (filter (\<lambda>r. \<not> ?P r) ?rs))"
    by (rule kv_inv_drop) (use kv in \<open>simp add: sequences_def\<close>)
  then show ?thesis
    using all mf [of "filter ?P ?rs"] Some
    by (simp add: sched_kv_def drainCompleted_def rebuildIndex_def Let_def sequences_def)
qed

end
