(* ===== verification/SchedulerProperties.thy ===== *)
theory SchedulerProperties
  imports SchedulerInvariant
begin

text \<open>
  The serving loop as a state machine over the public operations of \<^verbatim>\<open>RequestScheduler\<close>, in any
  order, and what holds in every reachable state: the invariant, exclusive ownership of KV blocks
  without leaks, the hash chain the prefix cache relies on, admission up to the cap, the choice of
  the preemption victim, and progress of the loop.
\<close>

section \<open>Runs of the scheduler\<close>

text \<open>
  The guards are those of the C++ types: token counts are \<^verbatim>\<open>std::int32_t\<close>, the id counters have not
  used up their 64 bits, and a committed schedule has no negative chunk.
\<close>

inductive sched_step :: "RequestScheduler \<Rightarrow> RequestScheduler \<Rightarrow> bool" where
  step_admit: "p < 2 ^ 31 \<Longrightarrow> m < 2 ^ 31 \<Longrightarrow> rs_nextRequestId s \<noteq> - 1 \<Longrightarrow> rs_nextAdmitSeq s \<noteq> - 1 \<Longrightarrow>
    sched_step s (snd (admit p m s))"
| step_tick: "sched_step s (snd (tick s))"
| step_commit: "(\<forall>p \<in> set (bs_prefills ex). 0 \<le> pf_chunk_size p) \<Longrightarrow> sched_step s (commitProgress ex eos s)"
| step_preempt: "sched_step s (snd (preemptOne s))"
| step_drain: "sched_step s (snd (drainCompleted s))"
| step_feed_prefill: "sched_step s (snd (feedPrefillTokens rid ts s))"
| step_feed_decode: "sched_step s (snd (feedDecodeToken rid t s))"

definition initial_scheduler :: "RequestScheduler \<Rightarrow> bool" where
  "initial_scheduler s \<longleftrightarrow>
     (\<exists>budget mx. newRequestScheduler budget mx None = Inr s) \<or>
     (\<exists>budget mx n b a. n < 2 ^ 32 \<and> newAllocator n b = Inr a \<and> newRequestScheduler budget mx (Some a) = Inr s)"

inductive sched_reachable :: "RequestScheduler \<Rightarrow> bool" where
  reach_start: "initial_scheduler s \<Longrightarrow> sched_reachable s"
| reach_step: "sched_reachable s \<Longrightarrow> sched_step s t \<Longrightarrow> sched_reachable t"

lemma sched_inv_initial:
  assumes "initial_scheduler s"
  shows "sched_inv s"
proof -
  have fields: "table_inv s" "rs_requests s = []" "rs_allocator s = al"
    if "newRequestScheduler budget mx al = Inr s" for budget mx al
    using that by (auto simp: newRequestScheduler_def newPrefillScheduler_def table_inv_def index_ok_def
        split: if_splits sum.splits)
  have fresh: "kv_inv a []" if "newAllocator n b = Inr a" "n < 2 ^ 32" for n b a
    using pool_inv_new [OF that] that(1)
    by (auto simp: kv_inv_def newAllocator_def refcountOf_def split: if_splits)
  from assms consider (bare) budget mx where "newRequestScheduler budget mx None = Inr s"
    | (pool) budget mx n b a where "n < 2 ^ 32" "newAllocator n b = Inr a"
        "newRequestScheduler budget mx (Some a) = Inr s"
    unfolding initial_scheduler_def by blast
  then show ?thesis
  proof cases
    case bare
    from fields [OF this] show ?thesis by (simp add: sched_inv_def sched_kv_def)
  next
    case pool
    from fields [OF pool(3)] fresh [OF pool(2,1)] show ?thesis
      by (simp add: sched_inv_def sched_kv_def sequences_def)
  qed
qed

lemma table_inv_feed:
  assumes "table_inv s"
  shows "table_inv (snd (feedPrefillTokens rid ts s))" "table_inv (snd (feedDecodeToken rid t s))"
proof -
  have upd: "table_inv (s\<lparr>rs_requests := (rs_requests s)[i := (rs_requests s ! i)\<lparr>rq_kv_sequence := q\<rparr>],
      rs_allocator := a\<rparr>)" if "i < length (rs_requests s)" for i q a
  proof (rule table_inv_update [OF assms that])
    let ?r = "(rs_requests s ! i)\<lparr>rq_kv_sequence := q\<rparr>"
    show "req_ok ?r" using table_invD(4) [OF assms nth_mem [OF that]] by (simp add: req_ok_def split: RequestState.splits)
    show "rs_stateCount (s\<lparr>rs_requests := (rs_requests s)[i := ?r], rs_allocator := a\<rparr>) st
        = count_st ((rs_requests s)[i := ?r]) st" for st
      using count_st_update [OF that, of st ?r] table_invD(1) [OF assms] by simp
  qed (simp_all add: is_active_def)
  show "table_inv (snd (feedPrefillTokens rid ts s))" "table_inv (snd (feedDecodeToken rid t s))"
    using assms upd index_okD(1) [OF table_invD(3) [OF assms]]
    by (auto simp: feedPrefillTokens_def feedDecodeToken_def split: option.splits prod.splits)
qed

lemma sched_inv_step: "sched_step s t \<Longrightarrow> sched_inv s \<Longrightarrow> sched_inv t"
  unfolding sched_inv_def
  by (induction rule: sched_step.induct)
    (simp_all add: table_inv_admit sched_kv_admit table_inv_tick sched_kv_tick table_inv_commitProgress
      sched_kv_commitProgress table_inv_preemptOne sched_kv_preemptOne table_inv_drainCompleted
      sched_kv_drainCompleted table_inv_feed sched_kv_feed)

lemma reachable_sched_inv: "sched_reachable s \<Longrightarrow> sched_inv s"
  by (induction rule: sched_reachable.induct) (blast intro: sched_inv_initial sched_inv_step)+

section \<open>Blocks in use\<close>

lemma owners_concat: "owners ss w = count_list (concat (map seq_blockTable ss)) w"
  by (induction ss) simp_all

lemma kv_inv_used:
  assumes kv: "kv_inv a ss"
  shows "numBlocksUsed a = sum_list (map (\<lambda>s. length (seq_blockTable s)) ss)"
proof -
  let ?ws = "concat (map seq_blockTable ss)"
  let ?live = "{w. unat w < length (pa_blocks a) \<and> refcountOf a w \<noteq> 0}"
  note inv = kv_inv_pool [OF kv]
  have "distinct ?ws"
    using kv_inv_le_one [OF kv] by (intro distinct_count_le_one) (simp add: owners_concat)
  moreover have "set ?ws = ?live"
  proof -
    have "w \<in> set ?ws \<longleftrightarrow> refcountOf a w \<noteq> 0" for w
      using kv_inv_rc [OF kv, of w] owners_concat [of ss w]
      by (metis count_list_0_iff unat_0 unsigned_eq_0_iff)
    then show ?thesis using refcountOf_pos_bound by auto
  qed
  ultimately have len: "length ?ws = card ?live" by (metis distinct_card)
  have all: "card {w :: u32. unat w < length (pa_blocks a)} = length (pa_blocks a)"
  proof -
    have "set (fillFreeList (length (pa_blocks a)) []) = {w :: u32. unat w < length (pa_blocks a)}"
      using set_fillFreeList [OF pool_invD(2) [OF inv]] by blast
    then show ?thesis
      using distinct_card [OF distinct_fillFreeList [OF pool_invD(2) [OF inv]]]
      by (simp add: fillFreeList_eq)
  qed
  have "{w. unat w < length (pa_blocks a)} = set (pa_freeList a) \<union> ?live"
    using pool_invD(4) [OF inv] by auto
  moreover have "set (pa_freeList a) \<inter> ?live = {}" using pool_invD(4) [OF inv] by auto
  ultimately have "length (pa_blocks a) = length (pa_freeList a) + card ?live"
    using all card_Un_disjoint [of "set (pa_freeList a)" ?live] distinct_card [OF pool_invD(3) [OF inv]]
    by simp
  then show ?thesis using len by (simp add: numBlocksUsed_def length_concat comp_def)
qed

section \<open>Progress\<close>

text \<open>
  The work a request still needs: prompt tokens to prefill plus tokens to decode. A preempted
  request starts over.
\<close>

definition work :: "RequestStateData \<Rightarrow> nat" where
  "work r = (case rq_state r of
       Completed \<Rightarrow> 0
     | Preempted \<Rightarrow> nat (rq_prompt_length r + rq_max_tokens r)
     | _ \<Rightarrow> nat (rq_tokens_pending r + rq_max_tokens r - rq_tokens_decoded r))"

definition total_work :: "RequestScheduler \<Rightarrow> nat" where
  "total_work s = sum_list (map work (rs_requests s))"

text \<open>One turn of the event loop: schedule, execute, report back.\<close>

definition serve_step :: "u8 list \<Rightarrow> RequestScheduler \<Rightarrow> RequestScheduler" where
  "serve_step eos s = (let (b, s') = tick s in commitProgress b eos s')"

lemma work_reenq: "work (reenq r) = work r"
  by (simp add: work_def reenq_def)

lemma work_promoted: "promoted r r' \<Longrightarrow> work r' = work r"
  by (auto simp: work_def promoted_def)

lemma total_work_tick:
  assumes "table_inv s"
  shows "total_work (snd (tick s)) = total_work s"
proof -
  let ?s1 = "reenqueuePreempted s"
  have "map work (rs_requests ?s1) = map work (rs_requests s)"
    by (simp add: table_inv_reenqueue(2) [OF assms] work_reenq)
  moreover have "list_all2 promoted (rs_requests ?s1) (rs_requests (snd (tick s)))"
    using table_inv_promote(2) [OF table_inv_reenqueue(1) [OF assms]] by (simp add: tick_def Let_def)
  then have "map work (rs_requests (snd (tick s))) = map work (rs_requests ?s1)"
    by (induction rule: list_all2_induct) (simp_all add: work_promoted)
  ultimately show ?thesis by (simp add: total_work_def)
qed

lemma total_work_update:
  assumes "i < length (rs_requests s)" "rs_requests s' = (rs_requests s)[i := r']"
    "work r' < work (rs_requests s ! i)"
  shows "total_work s' < total_work s"
  using sum_list_map_update [OF assms(1), of work r'] assms(2,3) by (simp add: total_work_def)

lemma commit_prefill_work:
  assumes inv: "table_inv s" and pos: "0 < pf_chunk_size p"
  shows "total_work (commit_prefill p s) \<le> total_work s"
    and "rs_indexById s (pf_request_id p) = Some i \<Longrightarrow> rq_state (rs_requests s ! i) = Prefilling \<Longrightarrow>
      total_work (commit_prefill p s) < total_work s"
proof -
  show lt: "total_work (commit_prefill p s) < total_work s"
    if ix: "rs_indexById s (pf_request_id p) = Some i" and st: "rq_state (rs_requests s ! i) = Prefilling" for i
  proof -
    note i = index_okD(1) [OF table_invD(3) [OF inv] ix]
    let ?r = "rs_requests s ! i"
    let ?p = "rq_tokens_pending ?r - pf_chunk_size p"
    let ?r' = "if ?p \<le> 0 then ?r\<lparr>rq_tokens_pending := 0, rq_state := Decoding\<rparr> else ?r\<lparr>rq_tokens_pending := ?p\<rparr>"
    have "req_ok ?r" using table_invD(4) [OF inv] i by simp
    then have "work ?r' < work ?r" using st pos by (auto simp: work_def req_ok_def)
    moreover have "rs_requests (commit_prefill p s) = (rs_requests s)[i := ?r']"
      using ix st by (auto simp: commit_prefill_def Let_def split_beta)
    ultimately show ?thesis using total_work_update [OF i] by blast
  qed
  show "total_work (commit_prefill p s) \<le> total_work s"
  proof (cases "\<exists>i. rs_indexById s (pf_request_id p) = Some i \<and> rq_state (rs_requests s ! i) = Prefilling")
    case True
    then show ?thesis using lt by (meson less_imp_le)
  next
    case False
    then show ?thesis by (auto simp: commit_prefill_def Let_def split: option.splits)
  qed
qed

lemma commit_decode_work:
  assumes inv: "table_inv s"
  shows "total_work (commit_decode de s) \<le> total_work s"
    and "rs_indexById s (da_request_id (fst de)) = Some i \<Longrightarrow> rq_state (rs_requests s ! i) = Decoding \<Longrightarrow>
      total_work (commit_decode de s) < total_work s"
proof -
  show lt: "total_work (commit_decode de s) < total_work s"
    if ix: "rs_indexById s (da_request_id (fst de)) = Some i" and st: "rq_state (rs_requests s ! i) = Decoding" for i
  proof -
    note i = index_okD(1) [OF table_invD(3) [OF inv] ix]
    let ?r = "rs_requests s ! i"
    let ?r1 = "?r\<lparr>rq_tokens_decoded := rq_tokens_decoded ?r + 1\<rparr>"
    let ?r' = "if snd de \<or> rq_tokens_decoded ?r + 1 \<ge> rq_max_tokens ?r then ?r1\<lparr>rq_state := Completed\<rparr> else ?r1"
    have "req_ok ?r" using table_invD(4) [OF inv] i by simp
    then have "work ?r' < work ?r" using st by (auto simp: work_def req_ok_def)
    moreover have "rs_requests (commit_decode de s) = (rs_requests s)[i := ?r']"
      using ix st by (auto simp: commit_decode_def Let_def split_beta)
    ultimately show ?thesis using total_work_update [OF i] by blast
  qed
  show "total_work (commit_decode de s) \<le> total_work s"
  proof (cases "\<exists>i. rs_indexById s (da_request_id (fst de)) = Some i \<and> rq_state (rs_requests s ! i) = Decoding")
    case True
    then show ?thesis using lt by (meson less_imp_le)
  next
    case False
    then show ?thesis by (auto simp: commit_decode_def Let_def split: option.splits)
  qed
qed

lemma fold_commit_prefill_work:
  "table_inv s \<Longrightarrow> (\<And>p. p \<in> set ps \<Longrightarrow> 0 < pf_chunk_size p) \<Longrightarrow>
   table_inv (fold commit_prefill ps s) \<and> total_work (fold commit_prefill ps s) \<le> total_work s"
proof (induction ps arbitrary: s)
  case (Cons p ps)
  have p: "0 < pf_chunk_size p" using Cons.prems(2) by simp
  have "table_inv (commit_prefill p s)"
    using table_inv_commit_prefill [OF Cons.prems(1)] p by simp
  then have "table_inv (fold commit_prefill ps (commit_prefill p s))
      \<and> total_work (fold commit_prefill ps (commit_prefill p s)) \<le> total_work (commit_prefill p s)"
    by (rule Cons.IH) (use Cons.prems(2) in simp)
  with commit_prefill_work(1) [OF Cons.prems(1) p] show ?case by simp
qed simp

lemma fold_commit_decode_work:
  "table_inv s \<Longrightarrow> total_work (fold commit_decode ds s) \<le> total_work s"
proof (induction ds arbitrary: s)
  case (Cons d ds)
  have "total_work (fold commit_decode ds (commit_decode d s)) \<le> total_work (commit_decode d s)"
    using Cons.IH table_inv_commit_decode [OF Cons.prems] by blast
  with commit_decode_work(1) [OF Cons.prems, of d] show ?case by simp
qed simp

lemma index_of_member:
  assumes "table_inv s" "q \<in> set (rs_requests s)"
  obtains i where "rs_indexById s (rq_request_id q) = Some i" "rs_requests s ! i = q"
  using assms table_invD(3) [OF assms(1)] by (metis in_set_conv_nth index_ok_def)

lemma slice_member:
  assumes "sl \<in> set (snapshotActiveSlices s)"
  obtains q where "q \<in> set (rs_requests s)" "sl_request_id sl = rq_request_id q"
    "rq_state q = (if sl_is_decoding sl then Decoding else Prefilling)"
    "sl_tokens_pending sl = rq_tokens_pending q"
  using assms by (auto simp: snapshotActiveSlices_def slice_of_def is_active_def)

text \<open>An active request always has something to do.\<close>

lemma active_demand:
  assumes inv: "table_inv s" and act: "filter is_active (rs_requests s) \<noteq> []"
  shows "0 < int (decode_demand (snapshotActiveSlices s)) + prefill_demand (snapshotActiveSlices s)"
proof -
  have demand: "0 < int (decode_demand sls) + prefill_demand sls"
    if "sl \<in> set sls" "sl_is_decoding sl \<or> 0 < sl_tokens_pending sl" for sl sls
    using that
  proof (induction sls)
    case (Cons x xs)
    then show ?case using prefill_demand_nonneg [of xs] by (auto simp: max_def)
  qed simp
  obtain q where q: "q \<in> set (rs_requests s)" "is_active q" using act by (auto simp: filter_empty_conv)
  have "slice_of q \<in> set (snapshotActiveSlices s)" using q by (simp add: snapshotActiveSlices_def)
  moreover have "sl_is_decoding (slice_of q) \<or> 0 < sl_tokens_pending (slice_of q)"
    using table_invD(4) [OF inv q(1)] q(2) by (auto simp: slice_of_def is_active_def req_ok_def)
  ultimately show ?thesis by (rule demand)
qed

lemma commit_first_prefill:
  assumes inv: "table_inv s" and pre: "bs_prefills b = p # ps"
    and chunks: "\<And>p. p \<in> set (bs_prefills b) \<Longrightarrow> 0 < pf_chunk_size p"
    and q: "q \<in> set (rs_requests s)" "rq_state q = Prefilling" "pf_request_id p = rq_request_id q"
  shows "total_work (commitProgress b eos s) < total_work s"
proof -
  let ?s1 = "commit_prefill p s" and ?ds = "zip (bs_decodes b) (eos_flags b eos)"
  obtain i where i: "rs_indexById s (pf_request_id p) = Some i" "rs_requests s ! i = q"
    using index_of_member [OF inv q(1)] q(3) by metis
  have p: "0 < pf_chunk_size p" using chunks pre by simp
  have "total_work ?s1 < total_work s" using commit_prefill_work(2) [OF inv p i(1)] i(2) q(2) by simp
  moreover have "table_inv ?s1" using table_inv_commit_prefill [OF inv] p by simp
  then have "table_inv (fold commit_prefill ps ?s1) \<and> total_work (fold commit_prefill ps ?s1) \<le> total_work ?s1"
    by (rule fold_commit_prefill_work) (use chunks pre in simp)
  moreover from this have "total_work (fold commit_decode ?ds (fold commit_prefill ps ?s1))
      \<le> total_work (fold commit_prefill ps ?s1)" using fold_commit_decode_work by blast
  ultimately show ?thesis by (simp add: commitProgress_def pre)
qed

lemma commit_first_decode:
  assumes inv: "table_inv s" and pre: "bs_prefills b = []" and dec: "bs_decodes b = d # ds"
    and q: "q \<in> set (rs_requests s)" "rq_state q = Decoding" "da_request_id d = rq_request_id q"
  shows "total_work (commitProgress b eos s) < total_work s"
proof -
  obtain e es where e: "zip (bs_decodes b) (eos_flags b eos) = (d, e) # es"
    using dec by (cases "eos_flags b eos") (auto simp: eos_flags_def split: if_splits)
  let ?s1 = "commit_decode (d, e) s"
  obtain i where i: "rs_indexById s (da_request_id d) = Some i" "rs_requests s ! i = q"
    using index_of_member [OF inv q(1)] q(3) by metis
  have "total_work ?s1 < total_work s" using commit_decode_work(2) [OF inv, of "(d, e)" i] i q(2) by simp
  moreover have "total_work (fold commit_decode es ?s1) \<le> total_work ?s1"
    using fold_commit_decode_work table_inv_commit_decode [OF inv] by blast
  ultimately show ?thesis by (simp add: commitProgress_def pre e)
qed

text \<open>Committing a fresh schedule reduces the work as soon as there is an active request.\<close>

lemma commit_schedule_work:
  assumes inv: "table_inv s" and act: "filter is_active (rs_requests s) \<noteq> []"
    and b: "b = schedule (rs_prefillScheduler s) (snapshotActiveSlices s)"
  shows "total_work (commitProgress b eos s) < total_work s"
proof -
  let ?n = "cps_tokenBudget (rs_prefillScheduler s)" and ?sl = "snapshotActiveSlices s"
  have n: "0 < ?n" using table_invD(6) [OF inv] .
  let ?rem = "snd (decode_pass ?n ?sl)"
  have dec: "bs_decodes b = fst (decode_pass ?n ?sl)" and pre: "bs_prefills b = fst (prefill_pass ?rem ?sl)"
    by (simp_all add: b schedule_def split_beta Let_def)
  note chunk = prefill_pass_chunks [where n = ?rem and rs = ?sl, folded pre]
  show ?thesis
  proof (cases "bs_prefills b")
    case (Cons p ps)
    then obtain sl where sl: "sl \<in> set ?sl" "\<not> sl_is_decoding sl" "pf_request_id p = sl_request_id sl"
      using chunk [of p] by auto
    obtain q where "q \<in> set (rs_requests s)" "rq_state q = Prefilling" "pf_request_id p = rq_request_id q"
      using slice_member [OF sl(1)] sl(2,3) by metis
    then show ?thesis using commit_first_prefill [OF inv Cons] chunk by blast
  next
    case Nil
    have rem: "0 \<le> ?rem" "?rem = ?n - min ?n (int (decode_demand ?sl))"
      using snd_decode_pass [of ?n ?sl] n by auto
    then have "min ?rem (prefill_demand ?sl) = 0"
      using sum_prefill_pass [of ?rem ?sl] snd_prefill_pass [of ?rem ?sl] Nil by (simp add: pre)
    then have "decode_demand ?sl \<noteq> 0" using rem n active_demand [OF inv act] by auto
    then obtain sl sls where f: "filter sl_is_decoding ?sl = sl # sls"
      by (cases "filter sl_is_decoding ?sl") (auto simp: decode_demand_def)
    have "sl \<in> set ?sl" "sl_is_decoding sl" using f by (metis filter_eq_ConsD in_set_conv_decomp)+
    then obtain q where q: "q \<in> set (rs_requests s)" "rq_state q = Decoding" "sl_request_id sl = rq_request_id q"
      using slice_member by metis
    have "nat ?n = Suc (nat ?n - 1)" using n by simp
    then have "bs_decodes b = \<lparr>da_request_id = sl_request_id sl\<rparr>
        # map (\<lambda>r. \<lparr>da_request_id = sl_request_id r\<rparr>) (take (nat ?n - 1) sls)"
      unfolding dec fst_decode_pass f by (metis list.simps(9) take_Suc_Cons)
    from commit_first_decode [OF inv Nil this q(1,2)] q(3) show ?thesis by simp
  qed
qed

lemma tick_activates:
  assumes inv: "table_inv s" and r: "r \<in> set (rs_requests s)" "rq_state r \<noteq> Completed"
  shows "filter is_active (rs_requests (snd (tick s))) \<noteq> []"
proof -
  let ?s1 = "reenqueuePreempted s"
  note inv1 = table_inv_reenqueue(1) [OF inv]
  have r1: "reenq r \<in> set (rs_requests ?s1)" using r(1) by (simp add: table_inv_reenqueue(2) [OF inv])
  have "is_active (reenq r) \<or> rq_state (reenq r) = Waiting"
    using r(2) by (cases "rq_state r") (simp_all add: reenq_def is_active_def)
  then have "0 < length (filter is_active (rs_requests ?s1)) + count_st (rs_requests ?s1) Waiting"
    using r1 by (auto simp: filter_empty_conv)
  moreover have "0 < rs_maxActiveRequests ?s1" using table_invD(7) [OF inv1] .
  ultimately have "0 < length (filter is_active (rs_requests (snd (tick s))))"
    using table_inv_promote(3) [OF inv1] by (simp add: tick_def Let_def)
  then show ?thesis by auto
qed

lemma serve_step_work:
  assumes "table_inv s" "r \<in> set (rs_requests s)" "rq_state r \<noteq> Completed"
  shows "total_work (serve_step eos s) < total_work s"
proof -
  have "fst (tick s) = schedule (rs_prefillScheduler (snd (tick s))) (snapshotActiveSlices (snd (tick s)))"
    by (simp add: tick_def Let_def)
  from commit_schedule_work [OF table_inv_tick [OF assms(1)] tick_activates [OF assms] this, of eos]
  show ?thesis using total_work_tick [OF assms(1)] by (simp add: serve_step_def split_beta)
qed

section \<open>A concrete run\<close>

text \<open>
  A pool of four blocks of two tokens, two admitted requests with three and two prompt tokens fed.
\<close>

definition demo_pool :: PagedKvBlockAllocator where
  "demo_pool = \<lparr>pa_blockSize = 2, pa_blocks = replicate 4 \<lparr>bd_refcount = 0, bd_hash = 0\<rparr>,
                pa_freeList = [3, 2, 1, 0]\<rparr>"

definition demo_start :: RequestScheduler where
  "demo_start = \<lparr>rs_prefillScheduler = \<lparr>cps_tokenBudget = 4\<rparr>, rs_maxActiveRequests = 2,
     rs_allocator = Some demo_pool, rs_nextRequestId = 1, rs_nextAdmitSeq = 1, rs_requests = [],
     rs_indexById = Map.empty, rs_stateCount = (\<lambda>_. 0),
     rs_totalAdmitted = 0, rs_totalCompleted = 0, rs_totalPreempted = 0\<rparr>"

definition demo_two :: RequestScheduler where
  "demo_two = snd (admit 2 1 (snd (admit 3 1 demo_start)))"

definition demo_fed :: RequestScheduler where
  "demo_fed = snd (feedPrefillTokens 2 [7, 8] (snd (feedPrefillTokens 1 [7, 8, 9] demo_two)))"

lemma demo_start_initial: "initial_scheduler demo_start"
proof -
  have "newAllocator 4 2 = Inr demo_pool"
    by (simp add: newAllocator_def demo_pool_def eval_nat_numeral)
  moreover have "newRequestScheduler 4 2 (Some demo_pool) = Inr demo_start"
    by (simp add: newRequestScheduler_def newPrefillScheduler_def demo_start_def)
  moreover have "(4 :: nat) < 2 ^ 32" by simp
  ultimately show ?thesis unfolding initial_scheduler_def by blast
qed

lemma demo_two_reachable: "sched_reachable demo_two"
  unfolding demo_two_def
  by (intro reach_step [OF _ step_admit] reach_start demo_start_initial)
    (simp_all add: admit_def demo_start_def Let_def)

lemma demo_fed_reachable: "sched_reachable demo_fed"
  unfolding demo_fed_def by (intro reach_step [OF _ step_feed_prefill] demo_two_reachable)

lemma demo_fed_shape:
  "rs_allocator demo_fed \<noteq> None" "map (\<lambda>q. seq_blockTable q) (sequences demo_fed) = [[0, 1], [2]]"
  "map (\<lambda>q. seq_tokens q) (sequences demo_fed) = [[7, 8, 9], [7, 8]]"
  by code_simp+

section \<open>Properties of every reachable state\<close>

lemma find_request_iff:
  assumes "table_inv s"
  shows "find_request s rid = Some r \<longleftrightarrow> r \<in> set (rs_requests s) \<and> rq_request_id r = rid"
proof
  assume "find_request s rid = Some r"
  then obtain i where "rs_indexById s rid = Some i" "r = rs_requests s ! i"
    by (auto simp: find_request_def)
  then show "r \<in> set (rs_requests s) \<and> rq_request_id r = rid"
    using index_okD [OF table_invD(3) [OF assms]] by force
next
  assume r: "r \<in> set (rs_requests s) \<and> rq_request_id r = rid"
  obtain i where "rs_indexById s (rq_request_id r) = Some i" "rs_requests s ! i = r"
    using index_of_member [OF assms] r by blast
  then show "find_request s rid = Some r" using r by (simp add: find_request_def)
qed

text \<open>
  C6. In every state the scheduler can reach by its public operations in any order, at most
  \<^verbatim>\<open>maxActiveRequests\<close> requests are active, the constant-time counters \<^verbatim>\<open>numActive\<close>, \<^verbatim>\<open>numWaiting\<close>,
  \<^verbatim>\<open>numCompleted\<close> and \<^verbatim>\<open>numPreempted\<close> are the true populations, \<^verbatim>\<open>find\<close> returns exactly the stored
  request with the given id, ids are distinct, and every token counter is consistent with the
  request's state and within the range of \<^verbatim>\<open>std::int32_t\<close>.
\<close>

theorem scheduler_registry_consistent:
  assumes "sched_reachable s"
  shows "numActive s = length (filter is_active (rs_requests s)) \<and> numActive s \<le> rs_maxActiveRequests s
    \<and> numWaiting s = length (filter (\<lambda>r. rq_state r = Waiting) (rs_requests s))
    \<and> numCompleted s = length (filter (\<lambda>r. rq_state r = Completed) (rs_requests s))
    \<and> numPreempted s = length (filter (\<lambda>r. rq_state r = Preempted) (rs_requests s))
    \<and> distinct (map rq_request_id (rs_requests s))
    \<and> (\<forall>rid r. find_request s rid = Some r \<longleftrightarrow> r \<in> set (rs_requests s) \<and> rq_request_id r = rid)
    \<and> (\<forall>r \<in> set (rs_requests s). req_ok r)"
proof -
  have inv: "table_inv s" using reachable_sched_inv [OF assms] by (simp add: sched_inv_def)
  show ?thesis
    using numActive_eq [OF inv] table_invD [OF inv] find_request_iff [OF inv]
      sorted_ids_distinct [OF table_invD(5) [OF inv]]
    by (simp add: numWaiting_def numCompleted_def numPreempted_def)
qed

theorem scheduler_registry_consistent_witness:
  "numWaiting demo_fed = 2 \<and> numActive demo_fed \<le> rs_maxActiveRequests demo_fed"
proof
  show "numWaiting demo_fed = 2" by code_simp
  show "numActive demo_fed \<le> rs_maxActiveRequests demo_fed"
    using scheduler_registry_consistent [OF demo_fed_reachable] by blast
qed

text \<open>
  C7. KV blocks have exactly one owner. In every reachable state, the block tables of two different
  requests share no block, no table lists a block twice, every listed block has reference count one,
  and the number of used blocks of the pool is the total length of the tables, so that no block is
  leaked: a block that no request lists is free.
\<close>

theorem kv_blocks_exclusively_owned:
  assumes "sched_reachable s" "rs_allocator s = Some a"
  shows "numBlocksUsed a = sum_list (map (\<lambda>q. length (seq_blockTable q)) (sequences s))
    \<and> (\<forall>q \<in> set (sequences s). distinct (seq_blockTable q) \<and> (\<forall>w \<in> set (seq_blockTable q). refcountOf a w = 1))
    \<and> (\<forall>i j. i < j \<and> j < length (sequences s) \<longrightarrow>
         set (seq_blockTable (sequences s ! i)) \<inter> set (seq_blockTable (sequences s ! j)) = {})"
proof -
  have kv: "kv_inv a (sequences s)"
    using reachable_sched_inv [OF assms(1)] assms(2) by (simp add: sched_inv_def sched_kv_def)
  have "refcountOf a w = 1" if "q \<in> set (sequences s)" "w \<in> set (seq_blockTable q)" for q w
  proof -
    have "refcountOf a w \<noteq> 0" using kv_inv_owns [OF kv that(1)] that(2) by (simp add: seq_owns_def)
    then have "unat (refcountOf a w) \<noteq> 0" by (simp add: unsigned_eq_0_iff)
    then have "unat (refcountOf a w) = 1"
      using kv_inv_rc [OF kv, of w] kv_inv_le_one [OF kv, of w] by simp
    then show ?thesis by (metis unat_1 word_unat_eq_iff)
  qed
  moreover have "distinct (seq_blockTable q)" if "q \<in> set (sequences s)" for q
    using kv_inv_owns [OF kv that] by (simp add: seq_owns_def)
  ultimately show ?thesis using kv_inv_used [OF kv] kv_inv_disjoint [OF kv] by auto
qed

theorem kv_blocks_exclusively_owned_witness:
  "numBlocksUsed (the (rs_allocator demo_fed)) = 3
   \<and> set (seq_blockTable (sequences demo_fed ! 0)) \<inter> set (seq_blockTable (sequences demo_fed ! 1)) = {}"
proof -
  obtain a where a: "rs_allocator demo_fed = Some a" using demo_fed_shape(1) by blast
  have len: "length (sequences demo_fed) = 2"
    using demo_fed_shape(2) by (metis length_map length_Cons list.size(3) numeral_2_eq_2)
  note own = kv_blocks_exclusively_owned [OF demo_fed_reachable a]
  have "sum_list (map length (map (\<lambda>q. seq_blockTable q) (sequences demo_fed))) = 3"
    by (simp only: demo_fed_shape(2)) simp
  with own have "numBlocksUsed a = 3" by (simp add: comp_def)
  moreover have "set (seq_blockTable (sequences demo_fed ! 0)) \<inter> set (seq_blockTable (sequences demo_fed ! 1)) = {}"
    using own len by (metis less_numeral_extra(1) one_less_numeral_iff semiring_norm(76))
  ultimately show ?thesis using a by simp
qed

text \<open>
  C8. The block hashes the prefix cache looks up are a function of the token prefix. In every
  reachable state, if two requests agree on the tokens of their first \<open>Suc k\<close> blocks, both full,
  then block \<open>k\<close> of both carries the same hash, the FNV-1a hash of those tokens.
\<close>

theorem equal_prefix_equal_block_hash:
  assumes "sched_reachable s" "rs_allocator s = Some a"
    and "p \<in> set (sequences s)" "q \<in> set (sequences s)"
    and "Suc k * pa_blockSize a \<le> length (seq_tokens p)" "Suc k * pa_blockSize a \<le> length (seq_tokens q)"
    and "take (Suc k * pa_blockSize a) (seq_tokens p) = take (Suc k * pa_blockSize a) (seq_tokens q)"
  shows "hashOf a (seq_blockTable p ! k) = hashOf a (seq_blockTable q ! k)
    \<and> hashOf a (seq_blockTable p ! k) = fnv1aChain kFnvBasis (take (Suc k * pa_blockSize a) (seq_tokens p))"
proof -
  have kv: "kv_inv a (sequences s)"
    using reachable_sched_inv [OF assms(1)] assms(2) by (simp add: sched_inv_def sched_kv_def)
  have bs: "0 < pa_blockSize a" using kv_inv_pool [OF kv] by (rule pool_invD)
  have "hashOf a (seq_blockTable x ! k) = fnv1aChain kFnvBasis (take (Suc k * pa_blockSize a) (seq_tokens x))"
    if "x \<in> set (sequences s)" "Suc k * pa_blockSize a \<le> length (seq_tokens x)" for x
  proof -
    have "Suc k \<le> length (seq_tokens x) div pa_blockSize a"
      using that(2) bs by (simp add: less_eq_div_iff_mult_less_eq)
    then show ?thesis using kv that(1) by (simp add: kv_inv_def hash_chain_def Suc_le_eq)
  qed
  then show ?thesis using assms(3-7) by metis
qed

theorem equal_prefix_equal_block_hash_witness:
  "hashOf (the (rs_allocator demo_fed)) (seq_blockTable (sequences demo_fed ! 0) ! 0)
     = hashOf (the (rs_allocator demo_fed)) (seq_blockTable (sequences demo_fed ! 1) ! 0)"
proof -
  obtain a where a: "rs_allocator demo_fed = Some a" using demo_fed_shape(1) by blast
  have len: "length (sequences demo_fed) = 2"
    using demo_fed_shape(2) by (metis length_map length_Cons list.size(3) numeral_2_eq_2)
  have toks: "seq_tokens (sequences demo_fed ! 0) = [7, 8, 9]" "seq_tokens (sequences demo_fed ! 1) = [7, 8]"
    by code_simp+
  have bs: "pa_blockSize a = 2"
  proof -
    have "pa_blockSize (the (rs_allocator demo_fed)) = 2" by code_simp
    then show ?thesis using a by simp
  qed
  have mem: "sequences demo_fed ! 0 \<in> set (sequences demo_fed)" "sequences demo_fed ! 1 \<in> set (sequences demo_fed)"
    using len by auto
  have "Suc 0 * pa_blockSize a \<le> length (seq_tokens (sequences demo_fed ! 0))"
    "Suc 0 * pa_blockSize a \<le> length (seq_tokens (sequences demo_fed ! 1))"
    "take (Suc 0 * pa_blockSize a) (seq_tokens (sequences demo_fed ! 0))
       = take (Suc 0 * pa_blockSize a) (seq_tokens (sequences demo_fed ! 1))"
    unfolding toks bs by simp_all
  from equal_prefix_equal_block_hash [OF demo_fed_reachable a mem this] show ?thesis by (simp add: a)
qed

lemma scheduled_chunks_pos: "p \<in> set (bs_prefills (fst (tick t))) \<Longrightarrow> 0 < pf_chunk_size p"
  using prefill_pass_chunks by (fastforce simp: tick_def schedule_def split_beta Let_def)

lemma serve_step_reachable:
  assumes "sched_reachable t"
  shows "sched_reachable (serve_step eos t)"
proof -
  have "\<forall>p \<in> set (bs_prefills (fst (tick t))). 0 \<le> pf_chunk_size p"
    using scheduled_chunks_pos less_imp_le by blast
  from reach_step [OF reach_step [OF assms step_tick] step_commit [OF this]] show ?thesis
    by (simp add: serve_step_def split_beta)
qed

lemma serve_step_work_le:
  assumes "table_inv t"
  shows "total_work (serve_step eos t) \<le> total_work t"
proof -
  let ?t = "snd (tick t)" and ?ps = "bs_prefills (fst (tick t))"
  have "table_inv (fold commit_prefill ?ps ?t) \<and> total_work (fold commit_prefill ?ps ?t) \<le> total_work ?t"
    by (rule fold_commit_prefill_work [OF table_inv_tick [OF assms] scheduled_chunks_pos])
  then show ?thesis
    using fold_commit_decode_work total_work_tick [OF assms] order_trans
    by (fastforce simp: serve_step_def commitProgress_def split_beta)
qed

lemma serve_step_progress:
  assumes "table_inv t" "total_work t \<le> Suc n"
  shows "total_work (serve_step eos t) \<le> n"
proof (cases "\<exists>r \<in> set (rs_requests t). rq_state r \<noteq> Completed")
  case True
  then obtain r where "r \<in> set (rs_requests t)" "rq_state r \<noteq> Completed" by blast
  from serve_step_work [OF assms(1) this, of eos] show ?thesis using assms(2) by simp
next
  case False
  then have "total_work t = 0" by (simp add: total_work_def work_def)
  then show ?thesis using serve_step_work_le [OF assms(1), of eos] by simp
qed

lemma reachable_table_inv: "sched_reachable s \<Longrightarrow> table_inv s"
  using reachable_sched_inv by (simp add: sched_inv_def)

lemma serve_loop_work:
  "sched_reachable t \<Longrightarrow> total_work t \<le> length es \<Longrightarrow>
   sched_reachable (fold serve_step es t) \<and> total_work (fold serve_step es t) = 0"
proof (induction es arbitrary: t)
  case (Cons e es)
  have "total_work (serve_step e t) \<le> length es"
    using serve_step_progress [OF reachable_table_inv [OF Cons.prems(1)]] Cons.prems(2) by simp
  then show ?case using Cons.IH [OF serve_step_reachable [OF Cons.prems(1)]] by simp
qed simp

text \<open>
  C10. The event loop makes progress. From every reachable state, running the loop (tick, execute,
  commit) completes every request in the registry after as many turns as there is work, whatever
  the model's end-of-sequence flags are: no request starves and none is scheduled forever.
\<close>

theorem serving_loop_completes:
  assumes "sched_reachable s" "total_work s \<le> length eoss"
  shows "\<forall>r \<in> set (rs_requests (fold serve_step eoss s)). rq_state r = Completed"
proof (rule ccontr)
  let ?t = "fold serve_step eoss s"
  note t = serve_loop_work [OF assms]
  assume "\<not> ?thesis"
  then obtain r where "r \<in> set (rs_requests ?t)" "rq_state r \<noteq> Completed" by blast
  then have "total_work (serve_step [] ?t) < total_work ?t"
    using serve_step_work reachable_table_inv t by blast
  with t show False by simp
qed

theorem serving_loop_completes_witness:
  "list_all (\<lambda>r. rq_state r = Completed) (rs_requests (fold serve_step (replicate 7 [0]) demo_two))"
proof -
  have "total_work demo_two \<le> length (replicate 7 [0 :: u8])" by code_simp
  from serving_loop_completes [OF demo_two_reachable this] show ?thesis by (simp only: list_all_iff)
qed


section \<open>The single operations in a reachable state\<close>

lemma count_reenq: "count_st (map reenq rs) Waiting = count_st rs Waiting + count_st rs Preempted"
  "length (filter is_active (map reenq rs)) = length (filter is_active rs)"
  by (induction rs) (auto simp: reenq_def is_active_def)

text \<open>
  Admission is work conserving. In a reachable state \<^verbatim>\<open>tick\<close> leaves no preempted request, and the
  number of active requests afterwards is the smaller of the cap and of all requests that are not
  completed: a request waits only when the active set is full.
\<close>

theorem tick_fills_active_set:
  assumes "sched_reachable s"
  shows "numActive (snd (tick s)) = min (rs_maxActiveRequests s) (numActive s + numWaiting s + numPreempted s)
    \<and> numPreempted (snd (tick s)) = 0"
proof -
  let ?s1 = "reenqueuePreempted s" and ?t = "snd (tick s)"
  note inv = reachable_table_inv [OF assms]
  note inv1 = table_inv_reenqueue [OF inv]
  have t: "?t = promoteWaitingToActive ?s1" by (simp add: tick_def Let_def)
  have "rs_maxActiveRequests ?s1 = rs_maxActiveRequests s" by (simp add: reenqueuePreempted_def split_beta)
  then have "length (filter is_active (rs_requests ?t))
      = min (rs_maxActiveRequests s) (numActive s + numWaiting s + numPreempted s)"
    using table_inv_promote(3) [OF inv1(1)] table_invD(1) [OF inv] numActive_eq [OF inv] count_reenq
    by (simp add: t inv1(2) numWaiting_def numPreempted_def add.assoc)
  moreover have "rq_state r \<noteq> Preempted" if "r \<in> set (rs_requests ?t)" for r
  proof -
    from that obtain q where "q \<in> set (rs_requests ?s1)" "promoted q r"
      using table_inv_promote(2) [OF inv1(1)] unfolding t by (metis in_set_conv_nth list_all2_conv_all_nth)
    then show ?thesis by (auto simp: inv1(2) promoted_def reenq_def split: if_splits)
  qed
  then have "count_st (rs_requests ?t) Preempted = 0" by (simp add: filter_empty_conv)
  ultimately show ?thesis
    using numActive_eq [OF table_inv_tick [OF inv]] table_invD(1) [OF table_inv_tick [OF inv]]
    by (simp add: numPreempted_def)
qed

theorem tick_fills_active_set_witness: "numWaiting demo_two = 2 \<and> numActive (snd (tick demo_two)) = 2"
proof -
  have "numWaiting demo_two = 2" "rs_maxActiveRequests demo_two = 2" by code_simp+
  then show ?thesis using tick_fills_active_set [OF demo_two_reachable] by simp
qed

lemma preemptOne_requests:
  assumes "victim_loop (rs_requests s) 0 (rs_requests s) None = Some i" "sched_kv s" "i < length (rs_requests s)"
  shows "fst (preemptOne s) = rq_request_id (rs_requests s ! i)"
    and "map rq_state (rs_requests (snd (preemptOne s))) = (map rq_state (rs_requests s))[i := Preempted]"
    and "rs_allocator s = Some a \<Longrightarrow> \<exists>a'. rs_allocator (snd (preemptOne s)) = Some a' \<and>
      sequences (snd (preemptOne s)) = (sequences s)[i := newSequence]"
proof -
  show "fst (preemptOne s) = rq_request_id (rs_requests s ! i)"
    and "map rq_state (rs_requests (snd (preemptOne s))) = (map rq_state (rs_requests s))[i := Preempted]"
    using assms by (simp_all add: preemptOne_def Let_def split_beta map_update)
  assume a: "rs_allocator s = Some a"
  note kv = sched_kvD [OF assms(2) a assms(3)]
  obtain q where q: "rq_kv_sequence (rs_requests s ! i) = Some q" "seq_bound q"
    using kv by (simp add: kv_inv_def)
  have "q\<lparr>seq_blockTable := [], seq_tokens := []\<rparr> = newSequence" using q(2) by (simp add: newSequence_def)
  then show "\<exists>a'. rs_allocator (snd (preemptOne s)) = Some a' \<and>
      sequences (snd (preemptOne s)) = (sequences s)[i := newSequence]"
    using assms(1) q(1) a
    by (simp add: preemptOne_def Let_def split_beta sequences_def map_update resetSequence_def)
qed

text \<open>
  C11. Preemption. In a reachable state with an active request, \<^verbatim>\<open>preemptOne\<close> picks the active request
  with the greatest admission number, returns its id, moves that request and no other to \<^verbatim>\<open>Preempted\<close>
  and gives all its KV blocks back to the pool; with no active request it returns the sentinel 0 and
  changes nothing. The sentinel is never the id of a request.
\<close>

theorem preemptOne_newest:
  assumes reach: "sched_reachable s"
  shows "(filter is_active (rs_requests s) = [] \<longrightarrow> preemptOne s = (0, s)) \<and>
    (filter is_active (rs_requests s) \<noteq> [] \<longrightarrow>
      (\<exists>i < length (rs_requests s).
         is_active (rs_requests s ! i)
       \<and> (\<forall>r \<in> set (rs_requests s). is_active r \<longrightarrow> rq_admit_seq r \<le> rq_admit_seq (rs_requests s ! i))
       \<and> fst (preemptOne s) = rq_request_id (rs_requests s ! i) \<and> fst (preemptOne s) \<noteq> 0
       \<and> map rq_state (rs_requests (snd (preemptOne s))) = (map rq_state (rs_requests s))[i := Preempted]
       \<and> (\<forall>a. rs_allocator s = Some a \<longrightarrow>
            (\<exists>a'. rs_allocator (snd (preemptOne s)) = Some a' \<and>
              numBlocksUsed a = numBlocksUsed a' + length (seq_blockTable (sequences s ! i))))))"
proof (cases "victim_loop (rs_requests s) 0 (rs_requests s) None")
  case None
  then have "\<not> is_active r" if "r \<in> set (rs_requests s)" for r
    using victim_of [of "rs_requests s"] that by (auto simp: victim_spec_def in_set_conv_nth)
  then have "filter is_active (rs_requests s) = []" by (simp add: filter_empty_conv)
  then show ?thesis using None by (simp add: preemptOne_def)
next
  case (Some i)
  note inv = reachable_table_inv [OF reach]
  have kv: "sched_kv s" and kv': "sched_kv (snd (preemptOne s))"
    using reachable_sched_inv reach reach_step [OF reach step_preempt] by (simp_all add: sched_inv_def)
  have i: "i < length (rs_requests s)" "is_active (rs_requests s ! i)"
    and newest: "\<forall>r \<in> set (rs_requests s). is_active r \<longrightarrow> rq_admit_seq r \<le> rq_admit_seq (rs_requests s ! i)"
    using victim_of [of "rs_requests s"] Some by (auto simp: victim_spec_def in_set_conv_nth)
  note p = preemptOne_requests [OF Some kv i(1)]
  have freed: "\<exists>a'. rs_allocator (snd (preemptOne s)) = Some a' \<and>
      numBlocksUsed a = numBlocksUsed a' + length (seq_blockTable (sequences s ! i))" if a: "rs_allocator s = Some a" for a
  proof -
    obtain a' where a': "rs_allocator (snd (preemptOne s)) = Some a'"
      "sequences (snd (preemptOne s)) = (sequences s)[i := newSequence]" using p(3) [OF a] by blast
    then have used: "numBlocksUsed a' = sum_list (map (\<lambda>q. length (seq_blockTable q)) ((sequences s)[i := newSequence]))"
      using kv' kv_inv_used by (simp add: sched_kv_def)
    note kva = sched_kvD [OF kv a i(1)]
    show ?thesis
      using sum_list_map_update [OF kva(2), of "\<lambda>q. length (seq_blockTable q)" newSequence]
        kv_inv_used [OF kva(1)] used a'(1) by (simp add: newSequence_def)
  qed
  have "0 < rq_request_id (rs_requests s ! i)" using inv nth_mem [OF i(1)] by (simp add: table_inv_def)
  moreover have "filter is_active (rs_requests s) \<noteq> []"
    using i nth_mem by (auto simp: filter_empty_conv)
  ultimately show ?thesis using i newest p(1,2) freed by auto
qed

theorem preemptOne_newest_witness:
  "filter is_active (rs_requests (snd (tick demo_fed))) \<noteq> [] \<and> fst (preemptOne (snd (tick demo_fed))) \<noteq> 0"
proof -
  have "filter is_active (rs_requests (snd (tick demo_fed))) \<noteq> []"
  proof
    assume none: "filter is_active (rs_requests (snd (tick demo_fed))) = []"
    have "length (filter is_active (rs_requests (snd (tick demo_fed)))) = 2" by code_simp
    with none show False by simp
  qed
  then show ?thesis
    using preemptOne_newest [OF reach_step [OF demo_fed_reachable step_tick]] by blast
qed

text \<open>
  Draining. In a reachable state \<^verbatim>\<open>drainCompleted\<close> returns the ids of exactly the completed
  requests, in strictly increasing order of admission, keeps every other request unchanged and in
  order, and afterwards the pool's used blocks are exactly those of the remaining requests.
\<close>

theorem drainCompleted_exact:
  assumes reach: "sched_reachable s"
  shows "fst (drainCompleted s) = map rq_request_id (filter (\<lambda>r. rq_state r = Completed) (rs_requests s))
    \<and> sorted_wrt (<) (fst (drainCompleted s))
    \<and> rs_requests (snd (drainCompleted s)) = filter (\<lambda>r. rq_state r \<noteq> Completed) (rs_requests s)
    \<and> numCompleted (snd (drainCompleted s)) = 0
    \<and> (\<forall>rid. find_request (snd (drainCompleted s)) rid =
         (case find_request s rid of Some r \<Rightarrow> if rq_state r = Completed then None else Some r | None \<Rightarrow> None))
    \<and> (\<forall>a. rs_allocator (snd (drainCompleted s)) = Some a \<longrightarrow>
         numBlocksUsed a = sum_list (map (\<lambda>q. length (seq_blockTable q)) (sequences (snd (drainCompleted s)))))"
proof -
  note inv = reachable_table_inv [OF reach]
  note reach' = reach_step [OF reach step_drain]
  note inv' = reachable_table_inv [OF reach']
  have reqs: "rs_requests (snd (drainCompleted s)) = filter (\<lambda>r. rq_state r \<noteq> Completed) (rs_requests s)"
    and ids: "fst (drainCompleted s) = map rq_request_id (filter (\<lambda>r. rq_state r = Completed) (rs_requests s))"
    by (simp_all add: drainCompleted_def rebuildIndex_def Let_def)
  have "sorted_wrt (\<lambda>r r'. rq_request_id r < rq_request_id r') (filter (\<lambda>r. rq_state r = Completed) (rs_requests s))"
    using sorted_wrt_filter [OF table_invD(5) [OF inv]]
    by (rule sorted_wrt_mono_rel [rotated]) (simp add: admitted_before_def)
  then have srt: "sorted_wrt (<) (fst (drainCompleted s))" by (simp add: ids sorted_wrt_map)
  have find: "find_request (snd (drainCompleted s)) rid =
      (case find_request s rid of Some r \<Rightarrow> if rq_state r = Completed then None else Some r | None \<Rightarrow> None)" for rid
  proof (cases "find_request (snd (drainCompleted s)) rid")
    case (Some r)
    then have "r \<in> set (rs_requests s) \<and> rq_request_id r = rid" "rq_state r \<noteq> Completed"
      using find_request_iff [OF inv', of rid r] reqs by auto
    then show ?thesis using Some find_request_iff [OF inv, of rid r] by simp
  next
    case None
    then have "rq_state r = Completed" if "find_request s rid = Some r" for r
      using that find_request_iff [OF inv, of rid r] find_request_iff [OF inv', of rid r] reqs by auto
    then show ?thesis using None by (auto split: option.split)
  qed
  have "count_st (rs_requests (snd (drainCompleted s))) Completed = 0" by (simp add: reqs filter_empty_conv)
  then have "numCompleted (snd (drainCompleted s)) = 0"
    using table_invD(1) [OF inv'] by (simp add: numCompleted_def)
  moreover have "kv_inv a (sequences (snd (drainCompleted s)))" if "rs_allocator (snd (drainCompleted s)) = Some a" for a
    using reachable_sched_inv [OF reach'] that by (simp add: sched_inv_def sched_kv_def)
  ultimately show ?thesis using reqs ids srt find kv_inv_used by auto
qed

definition demo_done :: RequestScheduler where
  "demo_done = fold serve_step (replicate 7 [0]) demo_two"

lemma demo_done_reachable: "sched_reachable demo_done"
proof -
  have "total_work demo_two \<le> length (replicate 7 [0 :: u8])" by code_simp
  from serve_loop_work [OF demo_two_reachable this] show ?thesis by (simp only: demo_done_def)
qed

theorem drainCompleted_exact_witness:
  "fst (drainCompleted demo_done) = [1, 2] \<and> numCompleted (snd (drainCompleted demo_done)) = 0"
proof
  show "fst (drainCompleted demo_done) = [1, 2]" by code_simp
  show "numCompleted (snd (drainCompleted demo_done)) = 0"
    using drainCompleted_exact [OF demo_done_reachable] by blast
qed

end
