(* ===== verification/GdnPrefix.thy ===== *)
theory GdnPrefix
  imports "HOL-Library.Multiset" "HOL-Library.Sublist" Prelude
begin

text \<open>
  The prefix index of the recurrent-state cache, \<^verbatim>\<open>GdnPrefixIndex\<close>
  (\<^verbatim>\<open>src/runtime/serving/GdnPrefixIndex.hpp\<close>): block-aligned token prefixes mapped to payload ids,
  an exact-match guard behind a 64-bit hash, pinning by reference counts and LRU eviction.

  \<^item> \<^verbatim>\<open>_entries\<close> is an association list \<open>gi_entries\<close> (one pair per key); the order of an
    \<^verbatim>\<open>unordered_map\<close> is unspecified, and \<open>victim_any_order\<close> shows that the only loop over it does not
    depend on it.
  \<^item> \<^verbatim>\<open>_entries.at(pid)\<close> throws for an unknown key: the scans return an error then, and the
    invariant shows that they never do.
  \<^item> A token pointer with its length is a list; the null pointer is \<open>None\<close>. Tokens are the 32-bit
    patterns that \<^verbatim>\<open>memcmp\<close> and the hash see. \<^verbatim>\<open>insert\<close> reads the first \<^verbatim>\<open>pos\<close> tokens of its list.
\<close>

unbundle bit_operations_syntax

record GdnEntry =
  ge_tokens :: "u32 list"
  ge_payload :: u64
  ge_refcount :: u64
  ge_lastUsed :: u64

record GdnHit =
  gh_found :: bool
  gh_pos :: nat
  gh_payload :: u64

record GdnPrefixIndex =
  gi_blockSize :: nat
  gi_maxEntries :: nat
  gi_tick :: u64
  gi_entries :: "(u64 \<times> GdnEntry) list"
  gi_byHash :: "u64 \<rightharpoonup> u64 list"
  gi_payloadHash :: "u64 \<rightharpoonup> u64"

definition kNone :: u64 where
  "kNone = 0"

definition noHit :: GdnHit where
  "noHit = \<lparr>gh_found = False, gh_pos = 0, gh_payload = kNone\<rparr>"

definition newGdnPrefixIndex :: "nat \<Rightarrow> nat \<Rightarrow> GdnPrefixIndex" where
  "newGdnPrefixIndex blockSize maxEntries =
     \<lparr>gi_blockSize = (if blockSize \<noteq> 0 then blockSize else 512), gi_maxEntries = maxEntries,
      gi_tick = 0, gi_entries = [], gi_byHash = Map.empty, gi_payloadHash = Map.empty\<rparr>"

definition hashTokens :: "u32 list \<Rightarrow> u64" where
  "hashTokens ts = fold (\<lambda>t h. (h XOR ucast t) * 1099511628211) ts 1469598103934665603"

text \<open>The scan of one hash bucket, shared by \<^verbatim>\<open>lookup\<close> and \<^verbatim>\<open>insert\<close>.\<close>

fun scan_bucket :: "(u64 \<times> GdnEntry) list \<Rightarrow> u32 list \<Rightarrow> u64 list \<Rightarrow> u64 option result" where
  "scan_bucket es p [] = Inr None"
| "scan_bucket es p (pid # pids) =
     (case map_of es pid of
        None \<Rightarrow> Inl (OutOfRange ''unordered_map::at'')
      | Some e \<Rightarrow> if ge_tokens e = p then Inr (Some pid) else scan_bucket es p pids)"

definition touch :: "u64 \<Rightarrow> GdnPrefixIndex \<Rightarrow> GdnPrefixIndex" where
  "touch pid g = g\<lparr>gi_tick := gi_tick g + 1,
     gi_entries := map (\<lambda>(k, e). (k, if k = pid then e\<lparr>ge_lastUsed := gi_tick g + 1\<rparr> else e)) (gi_entries g)\<rparr>"

text \<open>The loop over block-aligned positions, from \<open>k\<close> blocks down to one.\<close>

fun lookup_loop :: "GdnPrefixIndex \<Rightarrow> u32 list \<Rightarrow> nat \<Rightarrow> (GdnHit \<times> GdnPrefixIndex) result" where
  "lookup_loop g prompt 0 = Inr (noHit, g)"
| "lookup_loop g prompt (Suc k) =
     (let pos = Suc k * gi_blockSize g in
      case gi_byHash g (hashTokens (take pos prompt)) of
        None \<Rightarrow> lookup_loop g prompt k
      | Some pids \<Rightarrow>
          (case scan_bucket (gi_entries g) (take pos prompt) pids of
             Inl e \<Rightarrow> Inl e
           | Inr None \<Rightarrow> lookup_loop g prompt k
           | Inr (Some pid) \<Rightarrow> Inr (\<lparr>gh_found = True, gh_pos = pos, gh_payload = pid\<rparr>, touch pid g)))"

definition gdn_lookup :: "u32 list option \<Rightarrow> GdnPrefixIndex \<Rightarrow> (GdnHit \<times> GdnPrefixIndex) result" where
  "gdn_lookup prompt g =
     (case prompt of
        None \<Rightarrow> Inr (noHit, g)
      | Some p \<Rightarrow> if length p < gi_blockSize g then Inr (noHit, g)
                  else lookup_loop g p (length p div gi_blockSize g))"

fun index_of :: "u64 \<Rightarrow> u64 list \<Rightarrow> nat option" where
  "index_of x [] = None"
| "index_of x (y # ys) = (if y = x then Some 0 else map_option Suc (index_of x ys))"

text \<open>\<^verbatim>\<open>v[i] = v.back(); v.pop_back()\<close> at the first position of \<^verbatim>\<open>pid\<close>.\<close>

definition swap_remove :: "u64 \<Rightarrow> u64 list \<Rightarrow> u64 list" where
  "swap_remove pid v = (case index_of pid v of None \<Rightarrow> v | Some i \<Rightarrow> butlast (v[i := last v]))"

definition eraseEntry :: "u64 \<Rightarrow> GdnPrefixIndex \<Rightarrow> GdnPrefixIndex" where
  "eraseEntry pid g =
     (let g1 = (case gi_payloadHash g pid of
                  None \<Rightarrow> g
                | Some h \<Rightarrow>
                    let bh = (case gi_byHash g h of
                                None \<Rightarrow> gi_byHash g
                              | Some v \<Rightarrow> (let v' = swap_remove pid v
                                          in if v' = [] then (gi_byHash g)(h := None)
                                             else (gi_byHash g)(h \<mapsto> v')))
                    in g\<lparr>gi_byHash := bh, gi_payloadHash := (gi_payloadHash g)(pid := None)\<rparr>)
      in g1\<lparr>gi_entries := filter (\<lambda>(k, e). k \<noteq> pid) (gi_entries g1)\<rparr>)"

fun victim_scan :: "(u64 \<times> GdnEntry) list \<Rightarrow> u64 \<Rightarrow> u64 \<Rightarrow> u64" where
  "victim_scan [] victim best = victim"
| "victim_scan ((pid, e) # es) victim best =
     (if ge_refcount e = 0 \<and> ge_lastUsed e < best then victim_scan es pid (ge_lastUsed e)
      else victim_scan es victim best)"

definition find_victim :: "(u64 \<times> GdnEntry) list \<Rightarrow> u64" where
  "find_victim es = victim_scan es kNone (- 1)"

lemma victim_scan_mem: "victim_scan es v b = v \<or> victim_scan es v b \<in> fst ` set es"
  by (induction es v b rule: victim_scan.induct) auto

lemma find_victim_mem: "find_victim es \<noteq> kNone \<Longrightarrow> find_victim es \<in> fst ` set es"
  using victim_scan_mem [of es kNone "- 1"] by (auto simp: find_victim_def)

lemma entries_eraseEntry [simp]:
  "gi_entries (eraseEntry pid g) = filter (\<lambda>(k, e). k \<noteq> pid) (gi_entries g)"
  by (simp add: eraseEntry_def Let_def split: option.split)

function evictIfNeeded :: "GdnPrefixIndex \<Rightarrow> u64 list \<Rightarrow> GdnPrefixIndex \<times> u64 list" where
  "evictIfNeeded g evicted =
     (if gi_maxEntries g > 0 \<and> length (gi_entries g) > gi_maxEntries g then
        let victim = find_victim (gi_entries g) in
        if victim = kNone then (g, evicted)
        else evictIfNeeded (eraseEntry victim g) (evicted @ [victim])
      else (g, evicted))"
  by auto
termination
proof (relation "measure (\<lambda>(g, _). length (gi_entries g))")
  fix g :: GdnPrefixIndex and evicted :: "u64 list" and victim
  assume "victim = find_victim (gi_entries g)" "victim \<noteq> kNone"
  then have "victim \<in> fst ` set (gi_entries g)" using find_victim_mem by blast
  then have "length (filter (\<lambda>(k, e). k \<noteq> victim) (gi_entries g)) < length (gi_entries g)"
    by (auto intro: length_filter_less)
  then show "((eraseEntry victim g, evicted @ [victim]), (g, evicted)) \<in> measure (\<lambda>(g, _). length (gi_entries g))"
    by simp
qed simp

declare evictIfNeeded.simps [simp del]

definition gdn_insert ::
  "u32 list option \<Rightarrow> nat \<Rightarrow> u64 \<Rightarrow> u64 list \<Rightarrow> GdnPrefixIndex \<Rightarrow> (GdnPrefixIndex \<times> u64 list) result" where
  "gdn_insert tokens pos payload evicted g =
     (case tokens of
        None \<Rightarrow> Inr (g, evicted)
      | Some ts \<Rightarrow>
          if pos = 0 \<or> pos mod gi_blockSize g \<noteq> 0 \<or> payload = kNone \<or> map_of (gi_entries g) payload \<noteq> None
          then Inr (g, evicted)
          else
            let h = hashTokens (take pos ts);
                bucket = (case gi_byHash g h of None \<Rightarrow> [] | Some v \<Rightarrow> v)
            in (case scan_bucket (gi_entries g) (take pos ts) bucket of
                  Inl e \<Rightarrow> Inl e
                | Inr (Some pid) \<Rightarrow> Inr (touch pid g, evicted @ [payload])
                | Inr None \<Rightarrow>
                    let e = \<lparr>ge_tokens = take pos ts, ge_payload = payload, ge_refcount = 0,
                             ge_lastUsed = gi_tick g + 1\<rparr>
                    in Inr (evictIfNeeded
                         (g\<lparr>gi_tick := gi_tick g + 1, gi_entries := gi_entries g @ [(payload, e)],
                            gi_byHash := (gi_byHash g)(h \<mapsto> bucket @ [payload]),
                            gi_payloadHash := (gi_payloadHash g)(payload \<mapsto> h)\<rparr>) evicted)))"

definition map_entry :: "u64 \<Rightarrow> (GdnEntry \<Rightarrow> GdnEntry) \<Rightarrow> GdnPrefixIndex \<Rightarrow> GdnPrefixIndex" where
  "map_entry pid f g = g\<lparr>gi_entries := map (\<lambda>(k, e). (k, if k = pid then f e else e)) (gi_entries g)\<rparr>"

definition gdn_acquire :: "u64 \<Rightarrow> GdnPrefixIndex \<Rightarrow> GdnPrefixIndex" where
  "gdn_acquire payload g = map_entry payload (\<lambda>e. e\<lparr>ge_refcount := ge_refcount e + 1\<rparr>) g"

definition gdn_release :: "u64 \<Rightarrow> GdnPrefixIndex \<Rightarrow> GdnPrefixIndex" where
  "gdn_release payload g =
     map_entry payload (\<lambda>e. if ge_refcount e > 0 then e\<lparr>ge_refcount := ge_refcount e - 1\<rparr> else e) g"

definition gdn_size :: "GdnPrefixIndex \<Rightarrow> nat" where
  "gdn_size g = length (gi_entries g)"

definition gdn_refcount :: "u64 \<Rightarrow> GdnPrefixIndex \<Rightarrow> u64" where
  "gdn_refcount payload g = (case map_of (gi_entries g) payload of None \<Rightarrow> 0 | Some e \<Rightarrow> ge_refcount e)"

section \<open>The index invariant\<close>

definition gdn_entry_ok :: "nat \<Rightarrow> u64 \<Rightarrow> u64 \<times> GdnEntry \<Rightarrow> bool" where
  "gdn_entry_ok bs tck ke \<longleftrightarrow>
     fst ke \<noteq> kNone \<and> ge_payload (snd ke) = fst ke \<and> ge_tokens (snd ke) \<noteq> [] \<and>
     length (ge_tokens (snd ke)) mod bs = 0 \<and> ge_lastUsed (snd ke) \<le> tck"

text \<open>Every entry is filed in exactly the bucket of its hash, and every bucket lists entries only.\<close>

definition gdn_buckets_ok ::
  "(u64 \<times> GdnEntry) list \<Rightarrow> (u64 \<rightharpoonup> u64 list) \<Rightarrow> (u64 \<rightharpoonup> u64) \<Rightarrow> bool" where
  "gdn_buckets_ok es bh ph \<longleftrightarrow>
     (\<forall>pid. ph pid = map_option (\<lambda>e. hashTokens (ge_tokens e)) (map_of es pid)) \<and>
     (\<forall>h v. bh h = Some v \<longrightarrow> distinct v) \<and>
     (\<forall>h pid. pid \<in> set (case bh h of None \<Rightarrow> [] | Some v \<Rightarrow> v) \<longleftrightarrow> ph pid = Some h)"

definition gdn_inv :: "GdnPrefixIndex \<Rightarrow> bool" where
  "gdn_inv g \<longleftrightarrow>
     0 < gi_blockSize g \<and> distinct (map fst (gi_entries g)) \<and>
     distinct (map (ge_tokens \<circ> snd) (gi_entries g)) \<and>
     distinct (map (ge_lastUsed \<circ> snd) (gi_entries g)) \<and>
     (\<forall>ke \<in> set (gi_entries g). gdn_entry_ok (gi_blockSize g) (gi_tick g) ke) \<and>
     gdn_buckets_ok (gi_entries g) (gi_byHash g) (gi_payloadHash g)"

lemma gdn_invD:
  assumes "gdn_inv g"
  shows "0 < gi_blockSize g" "distinct (map fst (gi_entries g))" "distinct (map (ge_tokens \<circ> snd) (gi_entries g))"
    "distinct (map (ge_lastUsed \<circ> snd) (gi_entries g))"
    "\<And>ke. ke \<in> set (gi_entries g) \<Longrightarrow> gdn_entry_ok (gi_blockSize g) (gi_tick g) ke"
    "gdn_buckets_ok (gi_entries g) (gi_byHash g) (gi_payloadHash g)"
  using assms by (auto simp: gdn_inv_def)

text \<open>The part of the invariant that does not mention the use counter.\<close>

definition gdn_struct :: "GdnPrefixIndex \<Rightarrow> bool" where
  "gdn_struct g \<longleftrightarrow>
     0 < gi_blockSize g \<and> distinct (map fst (gi_entries g)) \<and> gdn_buckets_ok (gi_entries g) (gi_byHash g) (gi_payloadHash g)"

lemma gdn_structD:
  assumes "gdn_struct g"
  shows "0 < gi_blockSize g" "distinct (map fst (gi_entries g))" "gdn_buckets_ok (gi_entries g) (gi_byHash g) (gi_payloadHash g)"
  using assms by (simp_all add: gdn_struct_def)

lemma gdn_inv_struct: "gdn_inv g \<Longrightarrow> gdn_struct g"
  by (simp add: gdn_inv_def gdn_struct_def)

lemma bucket_iff:
  assumes "gdn_buckets_ok es bh ph" "distinct (map fst es)"
  shows "pid \<in> set (case bh h of None \<Rightarrow> [] | Some v \<Rightarrow> v) \<longleftrightarrow> (\<exists>e. (pid, e) \<in> set es \<and> hashTokens (ge_tokens e) = h)"
proof -
  have "pid \<in> set (case bh h of None \<Rightarrow> [] | Some v \<Rightarrow> v)
      \<longleftrightarrow> map_option (\<lambda>e. hashTokens (ge_tokens e)) (map_of es pid) = Some h"
    using assms(1) unfolding gdn_buckets_ok_def by metis
  then show ?thesis using map_of_eq_Some_iff [OF assms(2)] by auto
qed

text \<open>A bucket that lists entries only is scanned without error, and a hit is an entry with these tokens.\<close>

lemma scan_bucket_spec:
  assumes "\<And>pid. pid \<in> set v \<Longrightarrow> \<exists>e. map_of es pid = Some e"
  obtains r where "scan_bucket es p v = Inr r"
    "r = None \<longrightarrow> (\<forall>pid \<in> set v. \<forall>e. map_of es pid = Some e \<longrightarrow> ge_tokens e \<noteq> p)"
    "\<forall>pid. r = Some pid \<longrightarrow> pid \<in> set v \<and> (\<exists>e. map_of es pid = Some e \<and> ge_tokens e = p)"
proof -
  have "\<exists>r. scan_bucket es p v = Inr r \<and>
      (r = None \<longrightarrow> (\<forall>pid \<in> set v. \<forall>e. map_of es pid = Some e \<longrightarrow> ge_tokens e \<noteq> p)) \<and>
      (\<forall>pid. r = Some pid \<longrightarrow> pid \<in> set v \<and> (\<exists>e. map_of es pid = Some e \<and> ge_tokens e = p))"
    using assms
  proof (induction v)
    case (Cons pid v)
    obtain e where e: "map_of es pid = Some e" using Cons.prems by force
    show ?case
    proof (cases "ge_tokens e = p")
      case False
      obtain r where "scan_bucket es p v = Inr r"
        "r = None \<longrightarrow> (\<forall>pid \<in> set v. \<forall>e. map_of es pid = Some e \<longrightarrow> ge_tokens e \<noteq> p)"
        "\<forall>pid. r = Some pid \<longrightarrow> pid \<in> set v \<and> (\<exists>e. map_of es pid = Some e \<and> ge_tokens e = p)"
        using Cons by force
      then show ?thesis using e False by auto
    qed (simp add: e)
  qed simp
  then show ?thesis using that by blast
qed

text \<open>The entry that holds exactly the tokens \<open>p\<close>, found through its bucket.\<close>

definition holds :: "GdnPrefixIndex \<Rightarrow> u32 list \<Rightarrow> u64 \<Rightarrow> bool" where
  "holds g p pid \<longleftrightarrow> (\<exists>e. (pid, e) \<in> set (gi_entries g) \<and> ge_tokens e = p)"

lemma scan_own_bucket:
  assumes inv: "gdn_struct g"
  obtains r where "scan_bucket (gi_entries g) p (case gi_byHash g (hashTokens p) of None \<Rightarrow> [] | Some v \<Rightarrow> v) = Inr r"
    "r = None \<longrightarrow> (\<forall>pid. \<not> holds g p pid)" "\<forall>pid. r = Some pid \<longrightarrow> holds g p pid"
proof -
  let ?v = "case gi_byHash g (hashTokens p) of None \<Rightarrow> [] | Some v \<Rightarrow> v"
  note b = bucket_iff [OF gdn_structD(3) [OF inv] gdn_structD(2) [OF inv]]
  note m = map_of_eq_Some_iff [OF gdn_structD(2) [OF inv]]
  have ex: "\<exists>e. map_of (gi_entries g) pid = Some e" if "pid \<in> set ?v" for pid
    using b that m by blast
  obtain r where r: "scan_bucket (gi_entries g) p ?v = Inr r"
    "r = None \<longrightarrow> (\<forall>pid \<in> set ?v. \<forall>e. map_of (gi_entries g) pid = Some e \<longrightarrow> ge_tokens e \<noteq> p)"
    "\<forall>pid. r = Some pid \<longrightarrow> pid \<in> set ?v \<and> (\<exists>e. map_of (gi_entries g) pid = Some e \<and> ge_tokens e = p)"
    by (rule scan_bucket_spec [OF ex, where p = p])
  show ?thesis
  proof (rule that [OF r(1)])
    show "r = None \<longrightarrow> (\<forall>pid. \<not> holds g p pid)"
      using r(2) b m unfolding holds_def by blast
    show "\<forall>pid. r = Some pid \<longrightarrow> holds g p pid"
      using r(3) m unfolding holds_def by blast
  qed
qed

lemma lookup_loop_spec:
  assumes inv: "gdn_struct g"
  shows "(\<exists>k' pid. 0 < k' \<and> k' \<le> k \<and> holds g (take (k' * gi_blockSize g) p) pid
      \<and> (\<forall>j pid'. k' < j \<and> j \<le> k \<longrightarrow> \<not> holds g (take (j * gi_blockSize g) p) pid')
      \<and> lookup_loop g p k = Inr (\<lparr>gh_found = True, gh_pos = k' * gi_blockSize g, gh_payload = pid\<rparr>, touch pid g))
    \<or> (\<forall>j pid. 0 < j \<and> j \<le> k \<longrightarrow> \<not> holds g (take (j * gi_blockSize g) p) pid) \<and> lookup_loop g p k = Inr (noHit, g)"
proof (induction k)
  case (Suc k)
  let ?q = "take (Suc k * gi_blockSize g) p"
  obtain r where r: "scan_bucket (gi_entries g) ?q (case gi_byHash g (hashTokens ?q) of None \<Rightarrow> [] | Some v \<Rightarrow> v) = Inr r"
    "r = None \<longrightarrow> (\<forall>pid. \<not> holds g ?q pid)" "\<forall>pid. r = Some pid \<longrightarrow> holds g ?q pid"
    by (rule scan_own_bucket [OF inv, where p = ?q])
  show ?case
  proof (cases r)
    case None
    then have "lookup_loop g p (Suc k) = lookup_loop g p k"
      using r(1) by (auto simp: Let_def split: option.splits)
    with Suc.IH r(2) None show ?thesis by (metis le_Suc_eq)
  next
    case (Some pid)
    then have "lookup_loop g p (Suc k) = Inr (\<lparr>gh_found = True, gh_pos = Suc k * gi_blockSize g, gh_payload = pid\<rparr>, touch pid g)"
      using r(1) by (auto simp: Let_def split: option.splits)
    with r(3) Some show ?thesis by (metis le_refl not_less zero_less_Suc)
  qed
qed simp

section \<open>Every operation keeps the invariant\<close>

lemma map_of_map_entries: "map_of (map (\<lambda>(k, e). (k, f k e)) es) pid = map_option (f pid) (map_of es pid)"
  by (induction es) auto

lemma map_entries_simps:
  "map fst (map (\<lambda>(k, e). (k, f k e)) es) = map fst es"
  "(\<And>k e. (k, e) \<in> set es \<Longrightarrow> P (f k e) = P e) \<Longrightarrow> map (P \<circ> snd) (map (\<lambda>(k, e). (k, f k e)) es) = map (P \<circ> snd) es"
  by (auto simp: comp_def split_beta)

lemma gdn_inv_map:
  assumes inv: "gdn_inv g"
    and g': "gi_entries g' = map (\<lambda>(k, e). (k, f k e)) (gi_entries g)" "gi_byHash g' = gi_byHash g"
      "gi_payloadHash g' = gi_payloadHash g" "gi_blockSize g' = gi_blockSize g"
    and f: "\<And>k e. ge_tokens (f k e) = ge_tokens e" "\<And>k e. ge_payload (f k e) = ge_payload e"
    and used: "distinct (map (ge_lastUsed \<circ> snd) (gi_entries g'))"
      "\<And>k e. (k, e) \<in> set (gi_entries g) \<Longrightarrow> ge_lastUsed (f k e) \<le> gi_tick g'"
  shows "gdn_inv g'"
proof -
  have "gdn_buckets_ok (gi_entries g') (gi_byHash g') (gi_payloadHash g')"
    using gdn_invD(6) [OF inv] unfolding gdn_buckets_ok_def g'(1-3) map_of_map_entries
    by (simp add: option.map_comp comp_def f(1))
  moreover have "gdn_entry_ok (gi_blockSize g') (gi_tick g') ke" if ke: "ke \<in> set (gi_entries g')" for ke
  proof -
    from ke obtain k e where "(k, e) \<in> set (gi_entries g)" "ke = (k, f k e)" unfolding g'(1) by auto
    then show ?thesis using gdn_invD(5) [OF inv, of "(k, e)"] used(2) [of k e] f g'(4)
      by (simp add: gdn_entry_ok_def)
  qed
  moreover have "map (ge_tokens \<circ> snd) (gi_entries g') = map (ge_tokens \<circ> snd) (gi_entries g)"
    unfolding g'(1) by (rule map_entries_simps(2)) (simp add: f(1))
  moreover have "map fst (gi_entries g') = map fst (gi_entries g)" unfolding g'(1) by (rule map_entries_simps(1))
  ultimately show ?thesis using inv used(1) g'(4) by (simp add: gdn_inv_def)
qed

lemma gdn_inv_map_entry:
  assumes "gdn_inv g" "\<And>e. ge_tokens (f e) = ge_tokens e" "\<And>e. ge_payload (f e) = ge_payload e"
    "\<And>e. ge_lastUsed (f e) = ge_lastUsed e"
  shows "gdn_inv (map_entry pid f g)"
proof -
  let ?f = "\<lambda>k e. if k = pid then f e else e"
  have es: "gi_entries (map_entry pid f g) = map (\<lambda>(k, e). (k, ?f k e)) (gi_entries g)"
    by (simp add: map_entry_def)
  have "map (ge_lastUsed \<circ> snd) (map (\<lambda>(k, e). (k, ?f k e)) (gi_entries g)) = map (ge_lastUsed \<circ> snd) (gi_entries g)"
    by (rule map_entries_simps(2)) (simp add: assms(4))
  then have "distinct (map (ge_lastUsed \<circ> snd) (gi_entries (map_entry pid f g)))"
    using gdn_invD(4) [OF assms(1)] es by (simp only:)
  moreover have "ge_lastUsed (?f k e) \<le> gi_tick (map_entry pid f g)" if "(k, e) \<in> set (gi_entries g)" for k e
    using gdn_invD(5) [OF assms(1) that] by (simp add: assms(4) map_entry_def gdn_entry_ok_def)
  ultimately show ?thesis
    by (intro gdn_inv_map [OF assms(1) es]) (simp_all add: map_entry_def assms)
qed

lemma gdn_inv_pin: "gdn_inv g \<Longrightarrow> gdn_inv (gdn_acquire pid g)" "gdn_inv g \<Longrightarrow> gdn_inv (gdn_release pid g)"
  unfolding gdn_acquire_def gdn_release_def by (simp_all add: gdn_inv_map_entry)

lemma tick_fresh:
  assumes "gdn_inv g" "gi_tick g \<noteq> - 1" "(k, e) \<in> set (gi_entries g)"
  shows "ge_lastUsed e < gi_tick g + 1"
  using gdn_invD(5) [OF assms(1,3)] unat_plus_one_u64 [OF assms(2)]
  by (simp add: gdn_entry_ok_def word_less_nat_alt word_le_nat_alt)

lemma distinct_touch:
  assumes "distinct (map (L \<circ> snd) es)" "distinct (map fst es)" "\<And>k e. (k, e) \<in> set es \<Longrightarrow> L e < t" "\<And>e. L (f e) = (t :: u64)"
  shows "distinct (map (L \<circ> snd) (map (\<lambda>(k, e). (k, if k = pid then f e else e)) es))"
  using assms
proof (induction es)
  case (Cons x es)
  obtain k e where x: "x = (k, e)" by fastforce
  let ?m = "map (\<lambda>(k, e). (k, if k = pid then f e else e))"
  have IH: "distinct (map (L \<circ> snd) (?m es))"
    by (rule Cons.IH) (use Cons.prems in auto)
  have new: "L (if k = pid then f e else e) \<notin> set (map (L \<circ> snd) (?m es))"
  proof
    assume "L (if k = pid then f e else e) \<in> set (map (L \<circ> snd) (?m es))"
    then obtain k' e' where m: "(k', e') \<in> set es" "L (if k = pid then f e else e) = L (if k' = pid then f e' else e')"
      by auto
    have "L e' \<noteq> L e" "k' \<noteq> k" using Cons.prems(1,2) m(1) by (force simp: x)+
    moreover have "L e < t" "L e' < t" using Cons.prems(3) m(1) by (auto simp: x)
    ultimately show False using m(2) Cons.prems(4) by (auto split: if_splits)
  qed
  then show ?case using IH by (simp add: x comp_def)
qed simp

lemma gdn_inv_touch:
  assumes inv: "gdn_inv g" and room: "gi_tick g \<noteq> - 1"
  shows "gdn_inv (touch pid g)"
proof -
  let ?f = "\<lambda>k e. if k = pid then e\<lparr>ge_lastUsed := gi_tick g + 1\<rparr> else e"
  have "distinct (map (ge_lastUsed \<circ> snd) (gi_entries (touch pid g)))"
    unfolding touch_def using distinct_touch [OF gdn_invD(4,2) [OF inv] tick_fresh [OF inv room]] by simp
  moreover have "ge_lastUsed (?f k e) \<le> gi_tick (touch pid g)" if "(k, e) \<in> set (gi_entries g)" for k e
    using tick_fresh [OF inv room that] by (simp add: touch_def less_imp_le)
  ultimately show ?thesis
    by (intro gdn_inv_map [OF inv, where f = ?f]) (simp_all add: touch_def)
qed

lemma index_of_Some: "index_of x v = Some i \<Longrightarrow> i < length v \<and> v ! i = x"
  by (induction v arbitrary: i) (auto split: if_splits)

lemma index_of_None: "index_of x v = None \<longleftrightarrow> x \<notin> set v"
  by (induction v) auto

lemma mset_swap_remove: "pid \<in> set v \<Longrightarrow> mset (swap_remove pid v) = mset v - {#pid#}"
proof -
  assume "pid \<in> set v"
  then obtain i where i: "index_of pid v = Some i" "i < length v" "v ! i = pid"
    using index_of_None [of pid v] index_of_Some [of pid v] by (cases "index_of pid v") auto
  let ?u = "v[i := last v]"
  have ne: "?u \<noteq> []" using i(2) by auto
  have "last ?u = last v" using i(2) ne by (simp add: last_list_update)
  moreover have "mset (butlast ?u) = mset ?u - {#last ?u#}"
    using ne by (metis append_butlast_last_id mset_append mset_single_iff add_diff_cancel_right' mset.simps(1,2))
  ultimately have "mset (swap_remove pid v) = mset ?u - {#last v#}" using i(1) by (simp add: swap_remove_def)
  then show ?thesis using i(2,3) by (simp add: mset_update)
qed

lemma swap_remove_distinct:
  assumes "distinct v"
  shows "distinct (swap_remove pid v)" "set (swap_remove pid v) = set v - {pid}"
proof -
  have m: "mset (swap_remove pid v) = mset (remove1 pid v)"
    using mset_swap_remove index_of_None [of pid v]
    by (cases "pid \<in> set v") (simp_all add: swap_remove_def remove1_idem)
  show "distinct (swap_remove pid v)"
    using mset_eq_imp_distinct_iff [OF m] assms by simp
  show "set (swap_remove pid v) = set v - {pid}"
    using mset_eq_setD [OF m] assms by simp
qed

text \<open>Erasing an entry takes exactly its id out of its bucket.\<close>

lemma bucket_eraseEntry:
  assumes b: "gdn_buckets_ok es bh ph" and h: "ph pid = Some h" and v: "bh h = Some v"
    and bh': "bh' = (if swap_remove pid v = [] then bh(h := None) else bh(h \<mapsto> swap_remove pid v))"
  shows "set (case bh' h' of None \<Rightarrow> [] | Some v \<Rightarrow> v) = set (case bh h' of None \<Rightarrow> [] | Some v \<Rightarrow> v) - (if h' = h then {pid} else {})"
    and "bh' h' = Some u \<Longrightarrow> distinct u"
proof -
  have d: "distinct v" using b v by (auto simp: gdn_buckets_ok_def)
  note sr = swap_remove_distinct [OF d, of pid]
  show "set (case bh' h' of None \<Rightarrow> [] | Some v \<Rightarrow> v) = set (case bh h' of None \<Rightarrow> [] | Some v \<Rightarrow> v) - (if h' = h then {pid} else {})"
  proof (cases "h' = h")
    case True
    have "swap_remove pid v = [] \<Longrightarrow> set v - {pid} = {}" by (simp flip: sr(2))
    then show ?thesis using True v sr(2) by (auto simp: bh')
  qed (simp add: bh')
  show "distinct u" if "bh' h' = Some u"
    using that sr(1) b by (auto simp: bh' gdn_buckets_ok_def split: if_splits)
qed

lemma map_of_filter_key: "map_of (filter (\<lambda>(k, e). k \<noteq> pid) es) = (map_of es)(pid := None)"
  by (induction es) (auto simp: fun_eq_iff)

lemma buckets_eraseEntry:
  assumes "gdn_struct g"
  shows "gdn_buckets_ok (gi_entries (eraseEntry pid g)) (gi_byHash (eraseEntry pid g)) (gi_payloadHash (eraseEntry pid g))"
proof (cases "gi_payloadHash g pid")
  case None
  note b = gdn_structD(3) [OF assms]
  have "map_of (gi_entries g) pid = None" using b None by (auto simp: gdn_buckets_ok_def)
  then have "(map_of (gi_entries g))(pid := None) = map_of (gi_entries g)" by auto
  then show ?thesis using b None by (simp add: gdn_buckets_ok_def eraseEntry_def map_of_filter_key)
next
  case (Some h)
  note b = gdn_structD(3) [OF assms]
  have "pid \<in> set (case gi_byHash g h of None \<Rightarrow> [] | Some v \<Rightarrow> v)" using b Some by (simp add: gdn_buckets_ok_def)
  then obtain v where v: "gi_byHash g h = Some v" by (cases "gi_byHash g h") auto
  let ?bh = "if swap_remove pid v = [] then (gi_byHash g)(h := None) else (gi_byHash g)(h \<mapsto> swap_remove pid v)"
  have e: "gi_byHash (eraseEntry pid g) = ?bh" "gi_payloadHash (eraseEntry pid g) = (gi_payloadHash g)(pid := None)"
    using Some v by (simp_all add: eraseEntry_def Let_def)
  note be = bucket_eraseEntry [OF b Some v refl]
  have ph: "\<And>p. gi_payloadHash g p = map_option (\<lambda>e. hashTokens (ge_tokens e)) (map_of (gi_entries g) p)"
    and mem: "\<And>h' p. p \<in> set (case gi_byHash g h' of None \<Rightarrow> [] | Some v \<Rightarrow> v) \<longleftrightarrow> gi_payloadHash g p = Some h'"
    using b by (simp_all add: gdn_buckets_ok_def)
  show ?thesis unfolding gdn_buckets_ok_def e
  proof (intro conjI allI impI)
    show "((gi_payloadHash g)(pid := None)) p
        = map_option (\<lambda>e. hashTokens (ge_tokens e)) (map_of (gi_entries (eraseEntry pid g)) p)" for p
      using ph [of p] by (simp add: map_of_filter_key)
    show "distinct u" if "?bh h' = Some u" for h' u using be(2) that by blast
    show "p \<in> set (case ?bh h' of None \<Rightarrow> [] | Some v \<Rightarrow> v) \<longleftrightarrow> ((gi_payloadHash g)(pid := None)) p = Some h'" for h' p
      unfolding be(1) using mem Some by auto
  qed
qed

lemma eraseEntry_frame [simp]:
  "gi_blockSize (eraseEntry pid g) = gi_blockSize g" "gi_tick (eraseEntry pid g) = gi_tick g"
  "gi_maxEntries (eraseEntry pid g) = gi_maxEntries g"
  by (simp_all add: eraseEntry_def Let_def split: option.split)

lemma gdn_inv_eraseEntry:
  assumes "gdn_inv g"
  shows "gdn_inv (eraseEntry pid g)"
  using assms buckets_eraseEntry [OF gdn_inv_struct [OF assms]]
  by (auto simp: gdn_inv_def distinct_map_filter)

text \<open>The structure alone is kept by every operation, whatever the use counter does.\<close>

lemma gdn_struct_map:
  assumes "gdn_struct g" "gi_entries g' = map (\<lambda>(k, e). (k, f k e)) (gi_entries g)" "gi_byHash g' = gi_byHash g"
      "gi_payloadHash g' = gi_payloadHash g" "gi_blockSize g' = gi_blockSize g" "\<And>k e. ge_tokens (f k e) = ge_tokens e"
  shows "gdn_struct g'"
proof -
  have "gdn_buckets_ok (gi_entries g') (gi_byHash g') (gi_payloadHash g')"
    using gdn_structD(3) [OF assms(1)] unfolding gdn_buckets_ok_def assms(2-4) map_of_map_entries
    by (simp add: option.map_comp comp_def assms(6))
  moreover have "map fst (gi_entries g') = map fst (gi_entries g)" unfolding assms(2) by (rule map_entries_simps(1))
  ultimately show ?thesis using assms(1,5) by (simp add: gdn_struct_def)
qed

lemma gdn_struct_touch: "gdn_struct g \<Longrightarrow> gdn_struct (touch pid g)"
  by (rule gdn_struct_map [where f = "\<lambda>k e. if k = pid then e\<lparr>ge_lastUsed := gi_tick g + 1\<rparr> else e"])
    (simp_all add: touch_def)

lemma gdn_struct_map_entry: "gdn_struct g \<Longrightarrow> (\<And>e. ge_tokens (f e) = ge_tokens e) \<Longrightarrow> gdn_struct (map_entry pid f g)"
  by (rule gdn_struct_map [where f = "\<lambda>k e. if k = pid then f e else e"]) (simp_all add: map_entry_def)

lemma gdn_struct_pin:
  "gdn_struct g \<Longrightarrow> gdn_struct (gdn_acquire pid g)" "gdn_struct g \<Longrightarrow> gdn_struct (gdn_release pid g)"
  unfolding gdn_acquire_def gdn_release_def by (simp_all add: gdn_struct_map_entry)

lemma gdn_struct_eraseEntry: "gdn_struct g \<Longrightarrow> gdn_struct (eraseEntry pid g)"
  using buckets_eraseEntry [of g pid] by (auto simp: gdn_struct_def distinct_map_filter)

lemma evictIfNeeded_struct:
  "gdn_struct g \<Longrightarrow> \<exists>vs g'. evictIfNeeded g ev = (g', ev @ vs) \<and> gdn_struct g' \<and> gi_blockSize g' = gi_blockSize g \<and>
     map_of (gi_entries g') = map_of (gi_entries g) |` (- set vs) \<and> kNone \<notin> set vs"
proof (induction g ev rule: evictIfNeeded.induct)
  case (1 g ev)
  let ?v = "find_victim (gi_entries g)"
  show ?case
  proof (cases "gi_maxEntries g > 0 \<and> length (gi_entries g) > gi_maxEntries g \<and> ?v \<noteq> kNone")
    case True
    then obtain vs g' where r: "evictIfNeeded (eraseEntry ?v g) (ev @ [?v]) = (g', (ev @ [?v]) @ vs)"
      "gdn_struct g'" "gi_blockSize g' = gi_blockSize g"
      "map_of (gi_entries g') = map_of (gi_entries (eraseEntry ?v g)) |` (- set vs)" "kNone \<notin> set vs"
      using 1(1) [OF _ refl] gdn_struct_eraseEntry [OF 1(2)] by fastforce
    have "evictIfNeeded g ev = (g', ev @ ?v # vs)"
      using r(1) True by (subst evictIfNeeded.simps) (simp add: Let_def)
    moreover have "map_of (gi_entries g') = map_of (gi_entries g) |` (- set (?v # vs))"
      unfolding r(4) entries_eraseEntry map_of_filter_key by (auto simp: restrict_map_def)
    moreover have "kNone \<notin> set (?v # vs)" using r(5) True by auto
    ultimately show ?thesis using r(2,3) by blast
  next
    case False
    then have "evictIfNeeded g ev = (g, ev @ [])" by (subst evictIfNeeded.simps) (auto simp: Let_def)
    then show ?thesis using 1(2) by (intro exI [of _ "[]"] exI [of _ g]) (simp add: restrict_map_def)
  qed
qed

section \<open>Eviction\<close>

definition unpinned_before :: "GdnEntry \<Rightarrow> (u64 \<times> GdnEntry) list \<Rightarrow> bool" where
  "unpinned_before e es \<longleftrightarrow> (\<forall>(k', e') \<in> set es. ge_refcount e' = 0 \<longrightarrow> ge_lastUsed e \<le> ge_lastUsed e')"

lemma victim_scan_spec:
  "(victim_scan es v b = v \<and> (\<forall>(k, e) \<in> set es. ge_refcount e = 0 \<longrightarrow> b \<le> ge_lastUsed e)) \<or>
   (\<exists>e. (victim_scan es v b, e) \<in> set es \<and> ge_refcount e = 0 \<and> ge_lastUsed e < b \<and> unpinned_before e es)"
proof (induction es v b rule: victim_scan.induct)
  case (2 pid e es victim best)
  show ?case
  proof (cases "ge_refcount e = 0 \<and> ge_lastUsed e < best")
    case True
    with 2(1) [OF True] show ?thesis by (fastforce simp: unpinned_before_def)
  next
    case False
    with 2(2) [OF False] show ?thesis by (fastforce simp: unpinned_before_def)
  qed
qed simp

lemma find_victim_spec:
  assumes "gdn_inv g" "gi_tick g \<noteq> - 1"
  shows "(find_victim (gi_entries g) = kNone \<and> (\<forall>(k, e) \<in> set (gi_entries g). ge_refcount e \<noteq> 0)) \<or>
    (find_victim (gi_entries g) \<noteq> kNone \<and> (\<exists>e. (find_victim (gi_entries g), e) \<in> set (gi_entries g)
        \<and> ge_refcount e = 0 \<and> unpinned_before e (gi_entries g)))"
proof -
  have "ge_lastUsed e < - 1" if "(k, e) \<in> set (gi_entries g)" for k e
  proof -
    have "ge_lastUsed e \<noteq> - 1"
      using gdn_invD(5) [OF assms(1) that] assms(2) word_order.extremum_uniqueI
      by (fastforce simp: gdn_entry_ok_def)
    then show ?thesis using word_order.not_eq_extremum by blast
  qed
  moreover have "k \<noteq> kNone" if "(k, e) \<in> set (gi_entries g)" for k e
    using gdn_invD(5) [OF assms(1) that] by (simp add: gdn_entry_ok_def)
  ultimately show ?thesis
    using victim_scan_spec [of "gi_entries g" kNone "- 1"] unfolding find_victim_def by fastforce
qed

text \<open>The victim does not depend on the iteration order of the unordered map.\<close>

lemma victim_any_order:
  assumes "gdn_inv g" "gi_tick g \<noteq> - 1" "mset es = mset (gi_entries g)"
  shows "find_victim es = find_victim (gi_entries g)"
proof -
  let ?g = "g\<lparr>gi_entries := es\<rparr>"
  note st = mset_eq_setD [OF assms(3)]
  have d: "mset (map f es) = mset (map f (gi_entries g))" for f :: "_ \<Rightarrow> 'x" using assms(3) by simp
  have dk: "distinct (map fst es)" using mset_eq_imp_distinct_iff [OF d] gdn_invD(2) [OF assms(1)] by blast
  have dl: "distinct (map (ge_lastUsed \<circ> snd) es)"
    using mset_eq_imp_distinct_iff [OF d] gdn_invD(4) [OF assms(1)] by blast
  have "map_of es = map_of (gi_entries g)" using map_of_eqI [of es "gi_entries g"] dk gdn_invD(2) [OF assms(1)] st
    by (metis map_of_inject_set)
  then have inv': "gdn_inv ?g"
    using assms(1) dk dl st mset_eq_imp_distinct_iff [OF d, of "ge_tokens \<circ> snd"]
    by (simp add: gdn_inv_def gdn_buckets_ok_def)
  note v = find_victim_spec [OF assms(1,2)] and v' = find_victim_spec [OF inv', simplified, OF assms(2)]
  have uniq: "k = k'" if "(k, e) \<in> set es" "(k', e') \<in> set es" "ge_lastUsed e = ge_lastUsed e'" for k e k' e'
    using dl that by (metis comp_apply distinct_map inj_onD prod.inject snd_conv)
  from v show ?thesis
  proof
    assume a: "find_victim (gi_entries g) = kNone \<and> (\<forall>(k, e) \<in> set (gi_entries g). ge_refcount e \<noteq> 0)"
    with v' show ?thesis unfolding st by fastforce
  next
    assume "find_victim (gi_entries g) \<noteq> kNone \<and> (\<exists>e. (find_victim (gi_entries g), e) \<in> set (gi_entries g)
        \<and> ge_refcount e = 0 \<and> unpinned_before e (gi_entries g))"
    then obtain e where e: "(find_victim (gi_entries g), e) \<in> set es" "ge_refcount e = 0" "unpinned_before e es"
      unfolding unpinned_before_def st by blast
    then obtain e' where e': "(find_victim es, e') \<in> set es" "ge_refcount e' = 0" "unpinned_before e' es"
      using v' by fastforce
    have "ge_lastUsed e' = ge_lastUsed e"
      using e e' unfolding unpinned_before_def by (force intro: antisym)
    with uniq e(1) e'(1) show ?thesis by blast
  qed
qed

text \<open>
  What an eviction run does: it removes exactly the entries \<open>vs\<close>, all unpinned and all used less
  recently than every unpinned entry that stays, and stops at the cap or when only pinned entries
  are left; it never removes more than the cap asks for.
\<close>

definition evicts :: "GdnPrefixIndex \<Rightarrow> u64 list \<Rightarrow> GdnPrefixIndex \<Rightarrow> bool" where
  "evicts g vs g' \<longleftrightarrow>
     gi_entries g' = filter (\<lambda>(k, e). k \<notin> set vs) (gi_entries g) \<and> distinct vs \<and>
     (\<forall>v \<in> set vs. \<exists>e. (v, e) \<in> set (gi_entries g) \<and> ge_refcount e = 0 \<and>
        (\<forall>(k', e') \<in> set (gi_entries g'). ge_refcount e' = 0 \<longrightarrow> ge_lastUsed e < ge_lastUsed e')) \<and>
     (gi_maxEntries g = 0 \<or> length (gi_entries g') \<le> gi_maxEntries g \<or> (\<forall>(k, e) \<in> set (gi_entries g'). ge_refcount e \<noteq> 0)) \<and>
     (vs \<noteq> [] \<longrightarrow> 0 < gi_maxEntries g \<and> gi_maxEntries g \<le> length (gi_entries g'))"

lemma evicts_refl:
  assumes "gi_maxEntries g = 0 \<or> length (gi_entries g) \<le> gi_maxEntries g \<or> (\<forall>(k, e) \<in> set (gi_entries g). ge_refcount e \<noteq> 0)"
  shows "evicts g [] g"
  using assms by (auto simp: evicts_def)

lemma length_filter_key:
  "distinct (map fst es) \<Longrightarrow> v \<in> fst ` set es \<Longrightarrow> Suc (length (filter (\<lambda>(k, e). k \<noteq> v) es)) = length es"
proof (induction es)
  case (Cons x es)
  show ?case
  proof (cases "fst x = v")
    case True
    with Cons.prems(1) have "filter (\<lambda>(k, e). k \<noteq> v) es = es" by (intro filter_True) (auto simp: image_iff)
    with True show ?thesis by (cases x) simp
  qed (use Cons in \<open>auto simp: split_beta\<close>)
qed simp

lemma evicts_step:
  assumes inv: "gdn_inv g" and big: "gi_maxEntries g < length (gi_entries g)" "0 < gi_maxEntries g"
    and v: "(v, e) \<in> set (gi_entries g)" "ge_refcount e = 0" "unpinned_before e (gi_entries g)"
    and rest: "evicts (eraseEntry v g) vs g'"
  shows "evicts g (v # vs) g'"
proof -
  note d = gdn_invD(2,4) [OF inv]
  have old: "ge_lastUsed e < ge_lastUsed e'" if "(k', e') \<in> set (gi_entries g)" "k' \<noteq> v" "ge_refcount e' = 0" for k' e'
  proof -
    have "ge_lastUsed e \<noteq> ge_lastUsed e'"
      using d(2) that v(1) by (metis comp_apply distinct_map inj_onD prod.inject snd_conv)
    then show ?thesis using v(3) that by (fastforce simp: unpinned_before_def)
  qed
  have len: "Suc (length (gi_entries (eraseEntry v g))) = length (gi_entries g)"
    using length_filter_key [OF d(1)] v(1) by force
  have es: "gi_entries g' = filter (\<lambda>(k, e). k \<notin> set (v # vs)) (gi_entries g)"
    using rest by (auto simp: evicts_def intro!: filter_cong)
  have "v \<notin> set vs" using rest by (fastforce simp: evicts_def)
  moreover have "gi_maxEntries g \<le> length (gi_entries g')"
    using rest len big by (cases "vs = []") (auto simp: evicts_def)
  moreover have "\<forall>(k', e') \<in> set (gi_entries g'). ge_refcount e' = 0 \<longrightarrow> ge_lastUsed e < ge_lastUsed e'"
    using old es by auto
  moreover have "\<exists>f. (w, f) \<in> set (gi_entries g) \<and> ge_refcount f = 0 \<and>
      (\<forall>(k', e') \<in> set (gi_entries g'). ge_refcount e' = 0 \<longrightarrow> ge_lastUsed f < ge_lastUsed e')" if "w \<in> set vs" for w
    using rest that unfolding evicts_def by fastforce
  moreover have "gi_maxEntries g = 0 \<or> length (gi_entries g') \<le> gi_maxEntries g
      \<or> (\<forall>(k, e) \<in> set (gi_entries g'). ge_refcount e \<noteq> 0)" "distinct vs"
    using rest unfolding evicts_def eraseEntry_frame by blast+
  ultimately show ?thesis unfolding evicts_def using v(1,2) big(2) es
    by (intro conjI ballI impI) (auto simp only: set_simps distinct.simps insert_iff)
qed

lemma evictIfNeeded_spec:
  "gdn_inv g \<Longrightarrow> gi_tick g \<noteq> - 1 \<Longrightarrow>
   \<exists>vs g'. evictIfNeeded g ev = (g', ev @ vs) \<and> evicts g vs g' \<and> gdn_inv g' \<and> gi_tick g' = gi_tick g"
proof (induction g ev rule: evictIfNeeded.induct)
  case (1 g ev)
  let ?v = "find_victim (gi_entries g)"
  show ?case
  proof (cases "gi_maxEntries g > 0 \<and> length (gi_entries g) > gi_maxEntries g \<and> ?v \<noteq> kNone")
    case True
    then obtain e where e: "(?v, e) \<in> set (gi_entries g)" "ge_refcount e = 0" "unpinned_before e (gi_entries g)"
      using find_victim_spec [OF 1(2,3)] by blast
    obtain vs g' where r: "evictIfNeeded (eraseEntry ?v g) (ev @ [?v]) = (g', (ev @ [?v]) @ vs)"
      "evicts (eraseEntry ?v g) vs g'" "gdn_inv g'" "gi_tick g' = gi_tick g"
      using 1(1) [OF _ refl] True gdn_inv_eraseEntry [OF 1(2)] 1(3) by fastforce
    have "evictIfNeeded g ev = (g', ev @ ?v # vs)"
      using r(1) True by (subst evictIfNeeded.simps) (simp add: Let_def)
    moreover have "evicts g (?v # vs) g'" using evicts_step [OF 1(2) _ _ e r(2)] True by simp
    ultimately show ?thesis using r(3,4) by blast
  next
    case False
    then have "evictIfNeeded g ev = (g, ev @ [])" by (subst evictIfNeeded.simps) (auto simp: Let_def)
    moreover have "evicts g [] g" using False find_victim_spec [OF 1(2,3)] by (intro evicts_refl) auto
    ultimately show ?thesis using 1(2) by blast
  qed
qed

section \<open>Insertion\<close>

definition add_entry :: "u64 \<Rightarrow> u32 list \<Rightarrow> GdnPrefixIndex \<Rightarrow> GdnPrefixIndex" where
  "add_entry payload p g =
     (let h = hashTokens p; bucket = (case gi_byHash g h of None \<Rightarrow> [] | Some v \<Rightarrow> v);
          e = \<lparr>ge_tokens = p, ge_payload = payload, ge_refcount = 0, ge_lastUsed = gi_tick g + 1\<rparr>
      in g\<lparr>gi_tick := gi_tick g + 1, gi_entries := gi_entries g @ [(payload, e)],
           gi_byHash := (gi_byHash g)(h \<mapsto> bucket @ [payload]),
           gi_payloadHash := (gi_payloadHash g)(payload \<mapsto> h)\<rparr>)"

lemma buckets_add_entry:
  assumes b: "gdn_buckets_ok (gi_entries g) (gi_byHash g) (gi_payloadHash g)" and n: "map_of (gi_entries g) payload = None"
  shows "gdn_buckets_ok (gi_entries (add_entry payload p g)) (gi_byHash (add_entry payload p g)) (gi_payloadHash (add_entry payload p g))"
proof -
  let ?h = "hashTokens p" and ?b = "\<lambda>h. case gi_byHash g h of None \<Rightarrow> [] | Some v \<Rightarrow> v"
  have ph: "\<And>q. gi_payloadHash g q = map_option (\<lambda>e. hashTokens (ge_tokens e)) (map_of (gi_entries g) q)"
    and mem: "\<And>h q. q \<in> set (?b h) \<longleftrightarrow> gi_payloadHash g q = Some h" and dist: "\<And>h. distinct (?b h)"
    using b by (auto simp: gdn_buckets_ok_def split: option.split)
  have new: "payload \<notin> set (?b h)" for h using mem ph n by simp
  show ?thesis unfolding gdn_buckets_ok_def
  proof (intro conjI allI impI)
    show "gi_payloadHash (add_entry payload p g) q
        = map_option (\<lambda>e. hashTokens (ge_tokens e)) (map_of (gi_entries (add_entry payload p g)) q)" for q
      using ph [of q] n by (auto simp: add_entry_def Let_def map_add_def split: option.split)
    show "distinct u" if "gi_byHash (add_entry payload p g) h = Some u" for h u
      using that dist [of h] new [of h] by (auto simp: add_entry_def Let_def split: if_splits)
    show "q \<in> set (case gi_byHash (add_entry payload p g) h of None \<Rightarrow> [] | Some v \<Rightarrow> v)
        \<longleftrightarrow> gi_payloadHash (add_entry payload p g) q = Some h" for h q
      using mem [of q h] new [of h] by (auto simp: add_entry_def Let_def)
  qed
qed

lemma gdn_inv_add_entry:
  assumes inv: "gdn_inv g" and room: "gi_tick g \<noteq> - 1" and n: "map_of (gi_entries g) payload = None" "payload \<noteq> kNone"
    and p: "p \<noteq> []" "length p mod gi_blockSize g = 0" "\<forall>pid. \<not> holds g p pid"
  shows "gdn_inv (add_entry payload p g)"
proof -
  note b = buckets_add_entry [OF gdn_invD(6) [OF inv] n(1), of p]
  have "payload \<notin> fst ` set (gi_entries g)" using n(1) by (simp add: map_of_eq_None_iff)
  moreover have "p \<notin> (ge_tokens \<circ> snd) ` set (gi_entries g)" using p(3) by (force simp: holds_def)
  moreover have "gi_tick g + 1 \<notin> (ge_lastUsed \<circ> snd) ` set (gi_entries g)"
    using tick_fresh [OF inv room] by force
  moreover have "gdn_entry_ok (gi_blockSize g) (gi_tick g + 1) ke" if "ke \<in> set (gi_entries g)" for ke
    using gdn_invD(5) [OF inv that] tick_fresh [OF inv room, of "fst ke" "snd ke"] that
    by (simp add: gdn_entry_ok_def less_imp_le)
  ultimately show ?thesis
    using inv b p(1,2) n(2) unfolding gdn_inv_def by (simp add: add_entry_def Let_def gdn_entry_ok_def)
qed

lemma gdn_insert_cases:
  assumes inv: "gdn_inv g" and room: "gi_tick g \<noteq> - 1" "gi_tick g + 1 \<noteq> - 1" and pos: "pos \<le> length ts"
    and valid: "0 < pos" "pos mod gi_blockSize g = 0" "payload \<noteq> kNone" "map_of (gi_entries g) payload = None"
  shows "(\<exists>pid. holds g (take pos ts) pid \<and> gdn_insert (Some ts) pos payload ev g = Inr (touch pid g, ev @ [payload])) \<or>
    ((\<forall>pid. \<not> holds g (take pos ts) pid) \<and>
     (\<exists>vs g'. gdn_insert (Some ts) pos payload ev g = Inr (g', ev @ vs) \<and> evicts (add_entry payload (take pos ts) g) vs g'
        \<and> gdn_inv g'))"
proof -
  let ?p = "take pos ts"
  obtain r where r: "scan_bucket (gi_entries g) ?p (case gi_byHash g (hashTokens ?p) of None \<Rightarrow> [] | Some v \<Rightarrow> v) = Inr r"
    "r = None \<longrightarrow> (\<forall>pid. \<not> holds g ?p pid)" "\<forall>pid. r = Some pid \<longrightarrow> holds g ?p pid"
    by (rule scan_own_bucket [OF gdn_inv_struct [OF inv], where p = ?p])
  show ?thesis
  proof (cases r)
    case (Some pid)
    then have "gdn_insert (Some ts) pos payload ev g = Inr (touch pid g, ev @ [payload])"
      using r(1) valid by (simp add: gdn_insert_def Let_def)
    then show ?thesis using r(3) Some by blast
  next
    case None
    have run: "gdn_insert (Some ts) pos payload ev g = Inr (evictIfNeeded (add_entry payload ?p g) ev)"
      using r(1) None valid by (simp add: gdn_insert_def add_entry_def Let_def)
    have "gdn_inv (add_entry payload ?p g)"
    proof (rule gdn_inv_add_entry [OF inv room(1) valid(4,3)])
      show "?p \<noteq> []" "length ?p mod gi_blockSize g = 0" using valid(1,2) pos by (auto simp: min_def)
      show "\<forall>pid. \<not> holds g ?p pid" using r(2) None by blast
    qed
    moreover have "gi_tick (add_entry payload ?p g) \<noteq> - 1" using room(2) by (simp add: add_entry_def Let_def)
    ultimately obtain vs g' where "evictIfNeeded (add_entry payload ?p g) ev = (g', ev @ vs)"
      "evicts (add_entry payload ?p g) vs g'" "gdn_inv g'"
      using evictIfNeeded_spec by blast
    then show ?thesis using run r(2) None by auto
  qed
qed

lemma map_of_add_entry:
  "map_of (gi_entries g) payload = None \<Longrightarrow>
   map_of (gi_entries (add_entry payload p g)) = (map_of (gi_entries g))(payload \<mapsto>
     \<lparr>ge_tokens = p, ge_payload = payload, ge_refcount = 0, ge_lastUsed = gi_tick g + 1\<rparr>)"
  by (auto simp: add_entry_def Let_def map_add_def fun_eq_iff split: option.split)

lemma gdn_insert_struct:
  assumes st: "gdn_struct g" and valid: "0 < pos" "pos mod gi_blockSize g = 0" "payload \<noteq> kNone" "map_of (gi_entries g) payload = None"
  shows "(\<exists>pid. gdn_insert (Some ts) pos payload ev g = Inr (touch pid g, ev @ [payload])) \<or>
     (\<exists>vs g'. gdn_insert (Some ts) pos payload ev g = Inr (g', ev @ vs) \<and> gdn_struct g' \<and> gi_blockSize g' = gi_blockSize g
        \<and> map_of (gi_entries g') = map_of (gi_entries (add_entry payload (take pos ts) g)) |` (- set vs) \<and> kNone \<notin> set vs)"
proof -
  let ?p = "take pos ts"
  obtain r where r: "scan_bucket (gi_entries g) ?p (case gi_byHash g (hashTokens ?p) of None \<Rightarrow> [] | Some v \<Rightarrow> v) = Inr r"
    by (rule scan_own_bucket [OF st, where p = ?p])
  show ?thesis
  proof (cases r)
    case (Some pid)
    then have "gdn_insert (Some ts) pos payload ev g = Inr (touch pid g, ev @ [payload])"
      using r(1) valid by (simp add: gdn_insert_def Let_def)
    then show ?thesis by blast
  next
    case None
    have run: "gdn_insert (Some ts) pos payload ev g = Inr (evictIfNeeded (add_entry payload ?p g) ev)"
      using r(1) None valid by (simp add: gdn_insert_def add_entry_def Let_def)
    have "payload \<notin> fst ` set (gi_entries g)" using valid(4) by (simp add: map_of_eq_None_iff)
    then have "gdn_struct (add_entry payload ?p g)"
      using st buckets_add_entry [OF gdn_structD(3) [OF st] valid(4), of ?p]
      unfolding gdn_struct_def by (simp add: add_entry_def Let_def)
    from evictIfNeeded_struct [OF this, of ev] show ?thesis using run by (auto simp: add_entry_def Let_def)
  qed
qed

lemma gdn_lookup_struct:
  assumes "gdn_struct g"
  shows "gdn_lookup (Some p) g = Inr (noHit, g) \<or>
    (\<exists>pos pid e. gdn_lookup (Some p) g = Inr (\<lparr>gh_found = True, gh_pos = pos, gh_payload = pid\<rparr>, touch pid g)
       \<and> 0 < pos \<and> pos \<le> length p \<and> map_of (gi_entries g) pid = Some e \<and> ge_tokens e = take pos p)"
proof (cases "length p < gi_blockSize g")
  case False
  let ?k = "length p div gi_blockSize g"
  have run: "gdn_lookup (Some p) g = lookup_loop g p ?k" using False by (simp add: gdn_lookup_def)
  from lookup_loop_spec [OF assms, of ?k p] show ?thesis
  proof (elim disjE exE conjE)
    fix k' pid
    assume k: "0 < k'" "k' \<le> ?k" and h: "holds g (take (k' * gi_blockSize g) p) pid"
      and l: "lookup_loop g p ?k = Inr (\<lparr>gh_found = True, gh_pos = k' * gi_blockSize g, gh_payload = pid\<rparr>, touch pid g)"
    have "k' * gi_blockSize g \<le> length p" using k(2) by (metis div_times_less_eq_dividend le_trans mult_le_mono1)
    moreover obtain e where "map_of (gi_entries g) pid = Some e" "ge_tokens e = take (k' * gi_blockSize g) p"
      using h gdn_structD(2) [OF assms] by (auto simp: holds_def)
    ultimately show ?thesis using run l k(1) gdn_structD(1) [OF assms] by auto
  qed (use run in simp)
qed (simp add: gdn_lookup_def)

section \<open>Runs of the index\<close>

text \<open>The guards ask that the 64-bit use counter has room for two more ticks.\<close>

inductive gdn_reachable :: "GdnPrefixIndex \<Rightarrow> bool" where
  gdn_new: "gdn_reachable (newGdnPrefixIndex bs mx)"
| gdn_look: "gdn_reachable g \<Longrightarrow> gi_tick g \<noteq> - 1 \<Longrightarrow> gdn_lookup p g = Inr (hit, g') \<Longrightarrow> gdn_reachable g'"
| gdn_ins: "gdn_reachable g \<Longrightarrow> gi_tick g \<noteq> - 1 \<Longrightarrow> gi_tick g + 1 \<noteq> - 1 \<Longrightarrow> pos \<le> length ts \<Longrightarrow>
    gdn_insert (Some ts) pos payload ev g = Inr (g', ev') \<Longrightarrow> gdn_reachable g'"
| gdn_acq: "gdn_reachable g \<Longrightarrow> gdn_reachable (gdn_acquire pid g)"
| gdn_rel: "gdn_reachable g \<Longrightarrow> gdn_reachable (gdn_release pid g)"

lemma gdn_inv_lookup:
  assumes "gdn_inv g" "gi_tick g \<noteq> - 1" "gdn_lookup p g = Inr (hit, g')"
  shows "gdn_inv g'"
proof (cases p)
  case (Some q)
  have "g' = g \<or> (\<exists>pid. g' = touch pid g)"
    using lookup_loop_spec [OF gdn_inv_struct [OF assms(1)], of "length q div gi_blockSize g" q] assms(3) Some
    by (auto simp: gdn_lookup_def split: if_splits)
  then show ?thesis using gdn_inv_touch [OF assms(1,2)] assms(1) by blast
qed (use assms in \<open>simp add: gdn_lookup_def\<close>)

lemma gdn_inv_insert:
  assumes "gdn_inv g" "gi_tick g \<noteq> - 1" "gi_tick g + 1 \<noteq> - 1" "pos \<le> length ts"
    and run: "gdn_insert (Some ts) pos payload ev g = Inr (g', ev')"
  shows "gdn_inv g'"
proof (cases "pos = 0 \<or> pos mod gi_blockSize g \<noteq> 0 \<or> payload = kNone \<or> map_of (gi_entries g) payload \<noteq> None")
  case True
  then show ?thesis using run assms(1) by (auto simp: gdn_insert_def)
next
  case False
  then show ?thesis
    using gdn_insert_cases [OF assms(1-4), of payload ev] run gdn_inv_touch [OF assms(1,2)] by auto
qed

lemma gdn_reachable_inv: "gdn_reachable g \<Longrightarrow> gdn_inv g"
proof (induction rule: gdn_reachable.induct)
  case (gdn_new bs mx)
  show ?case by (simp add: newGdnPrefixIndex_def gdn_inv_def gdn_buckets_ok_def)
qed (auto intro: gdn_inv_lookup gdn_inv_insert gdn_inv_pin)

text \<open>A concrete index: blocks of two tokens, room for one entry, the prefix \<open>[1, 2]\<close> cached under 7.\<close>

definition gdn_demo :: GdnPrefixIndex where
  "gdn_demo = fst (projr (gdn_insert (Some [1, 2, 3]) 2 7 [] (newGdnPrefixIndex 2 1)))"

lemma gdn_demo_shape: "map_of (gi_entries gdn_demo) 7 = Some \<lparr>ge_tokens = [1, 2], ge_payload = 7, ge_refcount = 0, ge_lastUsed = 1\<rparr>"
  "map fst (gi_entries gdn_demo) = [7]" "gi_blockSize gdn_demo = 2" "gi_tick gdn_demo = 1" "gi_maxEntries gdn_demo = 1"
  by code_simp+

lemma gdn_demo_entries: "gi_entries gdn_demo = [(7, \<lparr>ge_tokens = [1, 2], ge_payload = 7, ge_refcount = 0, ge_lastUsed = 1\<rparr>)]"
  using gdn_demo_shape(1,2) by (cases "gi_entries gdn_demo") auto

lemma gdn_demo_reachable: "gdn_reachable gdn_demo"
proof -
  let ?g = "newGdnPrefixIndex 2 1"
  have t: "gi_tick ?g = 0" by (simp add: newGdnPrefixIndex_def)
  obtain r where r: "gdn_insert (Some [1, 2, 3]) 2 7 [] ?g = Inr r"
    using gdn_insert_cases [OF gdn_reachable_inv [OF gdn_new], of 2 1 2 "[1, 2, 3]" 7 "[]"]
    by (auto simp: newGdnPrefixIndex_def kNone_def)
  have "gdn_reachable (fst r)"
    by (rule gdn_ins [OF gdn_new, of 2 1 2 "[1, 2, 3]" 7 "[]" _ "snd r"]) (simp_all add: t r del: One_nat_def)
  then show ?thesis by (simp add: gdn_demo_def r del: One_nat_def)
qed

section \<open>Properties\<close>

lemma holds_aligned:
  assumes "gdn_inv g" "(k, e) \<in> set (gi_entries g)" "prefix (ge_tokens e) p"
  obtains j where "0 < j" "j \<le> length p div gi_blockSize g" "ge_tokens e = take (j * gi_blockSize g) p"
    "length (ge_tokens e) = j * gi_blockSize g"
proof -
  let ?bs = "gi_blockSize g" and ?n = "length (ge_tokens e)"
  have ok: "ge_tokens e \<noteq> []" "?n mod ?bs = 0" "0 < ?bs"
    using gdn_invD(1,5) [OF assms(1)] assms(2) by (auto simp: gdn_entry_ok_def)
  have n: "?n = ?n div ?bs * ?bs" using ok(2) by auto
  have "0 < ?n div ?bs" using ok n by (metis length_greater_0_conv mult_0 neq0_conv)
  moreover have "?n div ?bs \<le> length p div ?bs" using assms(3) by (simp add: div_le_mono prefix_length_le)
  moreover have "ge_tokens e = take ?n p" using assms(3) by (auto elim: prefixE)
  ultimately show ?thesis using that n by metis
qed

text \<open>
  C15. The prefix lookup is exact and maximal. In every reachable state, \<^verbatim>\<open>lookup\<close> returns without
  throwing; it hits if and only if some cached prefix is a prefix of the prompt, and the hit is the
  longest one: its position is the length of the cached tokens, and these equal the first
  \<^verbatim>\<open>pos\<close> tokens of the prompt. Hash collisions can never produce a wrong hit. On a miss the index
  is unchanged.
\<close>

theorem gdn_lookup_longest_prefix:
  assumes "gdn_reachable g"
  shows "\<exists>hit g'. gdn_lookup (Some p) g = Inr (hit, g') \<and>
    (if \<exists>(k, e) \<in> set (gi_entries g). prefix (ge_tokens e) p
     then gh_found hit \<and> gh_pos hit \<le> length p
       \<and> (\<exists>e. (gh_payload hit, e) \<in> set (gi_entries g) \<and> ge_tokens e = take (gh_pos hit) p)
       \<and> (\<forall>(k, e) \<in> set (gi_entries g). prefix (ge_tokens e) p \<longrightarrow> length (ge_tokens e) \<le> gh_pos hit)
     else hit = noHit \<and> g' = g)"
proof -
  note inv = gdn_reachable_inv [OF assms]
  let ?bs = "gi_blockSize g" and ?k = "length p div gi_blockSize g"
  have run: "gdn_lookup (Some p) g = lookup_loop g p ?k"
    using gdn_invD(1) [OF inv] by (cases "length p < ?bs") (simp_all add: gdn_lookup_def)
  have pre: "prefix (take n p) p" for n by (rule take_is_prefix)
  from lookup_loop_spec [OF gdn_inv_struct [OF inv], of ?k p] show ?thesis
  proof (elim disjE exE conjE)
    fix k' pid
    assume k': "0 < k'" "k' \<le> ?k" "holds g (take (k' * ?bs) p) pid"
      and none: "\<forall>j pid'. k' < j \<and> j \<le> ?k \<longrightarrow> \<not> holds g (take (j * ?bs) p) pid'"
      and res: "lookup_loop g p ?k = Inr (\<lparr>gh_found = True, gh_pos = k' * ?bs, gh_payload = pid\<rparr>, touch pid g)"
    have "k' * ?bs \<le> length p" using k'(2) by (meson div_times_less_eq_dividend mult_le_mono1 order_trans)
    moreover have "length (ge_tokens e) \<le> k' * ?bs" if e: "(k, e) \<in> set (gi_entries g)" "prefix (ge_tokens e) p" for k e
      using holds_aligned [OF inv e] none e(1) by (metis holds_def mult_le_mono1 not_le)
    ultimately show ?thesis using run res k'(3) pre unfolding holds_def by fastforce
  next
    assume none: "\<forall>j pid. 0 < j \<and> j \<le> ?k \<longrightarrow> \<not> holds g (take (j * ?bs) p) pid" and "lookup_loop g p ?k = Inr (noHit, g)"
    moreover have "\<not> prefix (ge_tokens e) p" if e: "(k, e) \<in> set (gi_entries g)" for k e
      using holds_aligned [OF inv e] none e by (metis holds_def)
    ultimately show ?thesis using run by auto
  qed
qed

theorem gdn_lookup_longest_prefix_witness:
  "\<exists>hit g'. gdn_lookup (Some [1, 2, 9]) gdn_demo = Inr (hit, g') \<and> gh_found hit \<and> gh_pos hit = 2 \<and> gh_payload hit = 7"
proof -
  have pre: "prefix [1, 2] [1, 2, 9 :: u32]" by (simp add: prefix_def)
  show ?thesis
    using gdn_lookup_longest_prefix [OF gdn_demo_reachable, of "[1, 2, 9]"]
    by (fastforce simp: gdn_demo_entries pre take_Cons' split: if_splits)
qed



end
