(* ===== verification/ServingSession.thy ===== *)
theory ServingSession
  imports GdnPrefix
begin

text \<open>
  The per-slot substrate of continuous batching,
  \<^verbatim>\<open>src/runtime/engine/ServingSession.cpp\<close> (the CUDA path): the slots' recurrent state and KV
  rows, the ragged prefill and decode forwards over them, the ring of interior checkpoints of a
  slot, and the store of prefix images that any slot can restore.

  \<^item> The device slabs appear as values per slot: \<open>st_ssm\<close> is the recurrent and convolution state of
    all recurrent layers of a slot, \<open>st_kv\<close> the rows of its block run, one per position, for all
    full-attention layers. A queued copy between slabs is an assignment of such values; all copies
    and forwards are queued on one stream and take effect in order.
  \<^item> The transformer itself is an argument, \<open>md_forward\<close>: from the recurrent state, the KV rows
    before the chunk and the chunk it gives the new state, the rows of the chunk and the logits of
    its last token. \<open>md_zero\<close> is the zeroed recurrence of a sequence start.
  \<^item> \<open>md_sample\<close> stands for the constraint mask, the sampler with its penalties, \<^verbatim>\<open>pushRecent\<close> and the
    constraint's \<^verbatim>\<open>advance\<close> on the sampling state of a slot; \<open>md_slotSampling\<close> for
    \<^verbatim>\<open>setSlotSampling\<close> followed by \<^verbatim>\<open>setSlotToolConstraint\<close>.
  \<^item> A forward may fail for reasons outside the code (a CUDA error): \<open>st_faults\<close> lists, call by call,
    whether it does and with which message.
\<close>

record ('s, 'k, 'h, 'q, 'p) ServingModel =
  md_zero :: 's
  md_forward :: "'s \<Rightarrow> 'k list \<Rightarrow> u32 list \<Rightarrow> 's \<times> 'k list \<times> 'h"
  md_sample :: "'q \<Rightarrow> 'h \<Rightarrow> u32 \<times> 'q"
  md_slotSampling :: "'p \<Rightarrow> u32 list \<Rightarrow> 'q"

record ('s, 'k) PrefixImage =
  im_pos :: nat
  im_state :: 's
  im_kv :: "'k list"

record ('s, 'k, 'q) ServingState =
  st_maxBatch :: nat
  st_maxContext :: nat
  st_prefillChunk :: nat
  st_chunkedPrefill :: bool
  st_nRowMax :: nat
  st_ssm :: "'s list"
  st_kv :: "'k list list"
  st_slotSampling :: "'q list"
  st_ckptRing :: "(nat \<times> 's) list list"
  st_xslot :: bool
  st_prefixIndex :: GdnPrefixIndex
  st_prefixImages :: "u64 \<rightharpoonup> ('s, 'k) PrefixImage"
  st_nextPayloadId :: u64
  st_pendingFree :: "('s, 'k) PrefixImage list"
  st_faults :: "string option list"

record ServingSlotStep =
  sp_slot :: nat
  sp_token :: u32
  sp_pos :: nat
  sp_seqStart :: bool

definition kMaxPerSlot :: nat where
  "kMaxPerSlot = 8"

definition prefillChunkSize :: "('s, 'k, 'q) ServingState option \<Rightarrow> nat" where
  "prefillChunkSize st = (case st of None \<Rightarrow> 0 | Some s \<Rightarrow> if st_chunkedPrefill s then st_prefillChunk s else 0)"

definition prefillMaxRows :: "('s, 'k, 'q) ServingState option \<Rightarrow> nat" where
  "prefillMaxRows st = (case st of None \<Rightarrow> 0 | Some s \<Rightarrow> if st_chunkedPrefill s then st_nRowMax s else 0)"

text \<open>
  The geometry \<^verbatim>\<open>ensureServingState\<close> sets up, with the environment overrides already parsed. \<open>old\<close> is
  the session's previous state, which \<^verbatim>\<open>prefillChunkSize()\<close> reads while the new one is still a local;
  \<open>ssm0\<close>, \<open>row0\<close> and \<open>q0\<close> are the unspecified contents of the fresh slabs.
\<close>

definition blockSize_default :: nat where
  "blockSize_default = 16"

definition blocksPerSeq :: "nat \<Rightarrow> nat" where
  "blocksPerSeq maxContext = (maxContext + blockSize_default - 1) div blockSize_default"

definition ensureServingState ::
  "('s, 'k, 'q) ServingState option \<Rightarrow> nat \<Rightarrow> nat \<Rightarrow> bool \<Rightarrow> int option \<Rightarrow> bool \<Rightarrow> int option \<Rightarrow> int option \<Rightarrow>
   's \<Rightarrow> 'k \<Rightarrow> 'q \<Rightarrow> string option list \<Rightarrow> ('s, 'k, 'q) ServingState" where
  "ensureServingState old maxBatch maxContext chunkedPrefill chunkEnv hasRecurrent xslotEnv xslotMaxEnv ssm0 row0 q0 faults =
     (let chunk = min (case chunkEnv of Some v \<Rightarrow> if v \<ge> 1 then nat v else 512 | None \<Rightarrow> 512) maxContext;
          xslot = (case xslotEnv of Some v \<Rightarrow> v > 0 \<and> hasRecurrent | None \<Rightarrow> hasRecurrent);
          xslotMax = (case xslotMaxEnv of Some v \<Rightarrow> if v > 0 then nat v else 64 | None \<Rightarrow> 64);
          xblk = (if prefillChunkSize old \<noteq> 0 then prefillChunkSize old else 512)
      in \<lparr>st_maxBatch = maxBatch, st_maxContext = maxContext, st_prefillChunk = chunk,
          st_chunkedPrefill = chunkedPrefill,
          st_nRowMax = (if chunkedPrefill then min maxContext (4 * chunk) else 0),
          st_ssm = replicate maxBatch ssm0,
          st_kv = replicate maxBatch (replicate (blocksPerSeq maxContext * blockSize_default) row0),
          st_slotSampling = replicate maxBatch q0, st_ckptRing = [],
          st_xslot = xslot, st_prefixIndex = newGdnPrefixIndex xblk xslotMax,
          st_prefixImages = Map.empty, st_nextPayloadId = 1, st_pendingFree = [], st_faults = faults\<rparr>)"

section \<open>Forwards\<close>

text \<open>Rows \<open>[start, start + n)\<close> of a slot's block run are overwritten.\<close>

definition write_rows :: "nat \<Rightarrow> 'k list \<Rightarrow> 'k list \<Rightarrow> 'k list" where
  "write_rows start rows kv = take start kv @ rows @ drop (start + length rows) kv"

definition take_fault :: "('s, 'k, 'q) ServingState \<Rightarrow> string option \<times> ('s, 'k, 'q) ServingState" where
  "take_fault st = (case st_faults st of [] \<Rightarrow> (None, st) | f # fs \<Rightarrow> (f, st\<lparr>st_faults := fs\<rparr>))"

definition forward_slot ::
  "('s, 'k, 'h, 'q, 'p) ServingModel \<Rightarrow> nat \<Rightarrow> nat \<Rightarrow> bool \<Rightarrow> u32 list \<Rightarrow> ('s, 'k, 'q) ServingState \<Rightarrow> 'h \<times> ('s, 'k, 'q) ServingState"
where
  "forward_slot md slot start seqStart chunk st =
     (let (s', rows, h) = md_forward md (if seqStart then md_zero md else st_ssm st ! slot)
                            (take start (st_kv st ! slot)) chunk
      in (h, st\<lparr>st_ssm := (st_ssm st)[slot := s'],
                st_kv := (st_kv st)[slot := write_rows start rows (st_kv st ! slot)]\<rparr>))"

definition sample_slot ::
  "('s, 'k, 'h, 'q, 'p) ServingModel \<Rightarrow> nat \<Rightarrow> 'h \<Rightarrow> ('s, 'k, 'q) ServingState \<Rightarrow> u32 \<times> ('s, 'k, 'q) ServingState" where
  "sample_slot md slot h st =
     (let (t, q) = md_sample md (st_slotSampling st ! slot) h
      in (t, st\<lparr>st_slotSampling := (st_slotSampling st)[slot := q]\<rparr>))"

text \<open>One ragged forward: first every slot's rows, then the samples in slot order.\<close>

fun forward_rows ::
  "('s, 'k, 'h, 'q, 'p) ServingModel \<Rightarrow> (nat \<times> nat \<times> bool \<times> u32 list) list \<Rightarrow> ('s, 'k, 'q) ServingState \<Rightarrow> 'h list \<times> ('s, 'k, 'q) ServingState"
where
  "forward_rows md [] st = ([], st)"
| "forward_rows md ((slot, start, seqStart, chunk) # rs) st =
     (let (h, st1) = forward_slot md slot start seqStart chunk st; (hs, st2) = forward_rows md rs st1 in (h # hs, st2))"

fun sample_rows ::
  "('s, 'k, 'h, 'q, 'p) ServingModel \<Rightarrow> (nat \<times> 'h) list \<Rightarrow> ('s, 'k, 'q) ServingState \<Rightarrow> u32 list \<times> ('s, 'k, 'q) ServingState" where
  "sample_rows md [] st = ([], st)"
| "sample_rows md ((slot, h) # rs) st =
     (let (t, st1) = sample_slot md slot h st; (ts, st2) = sample_rows md rs st1 in (t # ts, st2))"

fun check_steps :: "nat \<Rightarrow> nat \<Rightarrow> ServingSlotStep list \<Rightarrow> string option" where
  "check_steps maxContext i [] = None"
| "check_steps maxContext i (s # ss) =
     (if sp_slot s \<noteq> i then Some ''stepServing: steps must be ordered by slot over a contiguous prefix (steps[i].slot == i)''
      else if sp_pos s \<ge> maxContext then Some ''stepServing: position exceeds maxContext''
      else check_steps maxContext (Suc i) ss)"

fun check_chunks :: "nat \<Rightarrow> u32 list list \<Rightarrow> nat list \<Rightarrow> string option" where
  "check_chunks maxContext (c # cs) (sp # sps) =
     (if c = [] then Some ''runVarlenPrefill: empty chunk''
      else if sp + length c > maxContext then Some ''runVarlenPrefill: startPos+T exceeds maxContext''
      else check_chunks maxContext cs sps)"
| "check_chunks maxContext cs sps = None"

definition stepServing ::
  "('s, 'k, 'h, 'q, 'p) ServingModel \<Rightarrow> ServingSlotStep list \<Rightarrow> ('s, 'k, 'q) ServingState \<Rightarrow> (exn + u32 list) \<times> ('s, 'k, 'q) ServingState" where
  "stepServing md steps st =
     (if steps = [] then (Inr [], st)
      else if length steps > st_maxBatch st then (Inl (RuntimeError ''stepServing: nSeq exceeds serving maxBatch''), st)
      else case check_steps (st_maxContext st) 0 steps of
        Some e \<Rightarrow> (Inl (RuntimeError e), st)
      | None \<Rightarrow>
          (case take_fault st of
             (Some e, st1) \<Rightarrow> (Inl (RuntimeError e), st1)
           | (None, st1) \<Rightarrow>
               (let (hs, st2) = forward_rows md (map (\<lambda>s. (sp_slot s, sp_pos s, sp_seqStart s, [sp_token s])) steps) st1;
                    (ts, st3) = sample_rows md (zip [0..<length steps] hs) st2
                in (Inr ts, st3))))"

definition runVarlenPrefill ::
  "('s, 'k, 'h, 'q, 'p) ServingModel \<Rightarrow> nat \<Rightarrow> u32 list list \<Rightarrow> nat list \<Rightarrow> bool \<Rightarrow> ('s, 'k, 'q) ServingState \<Rightarrow>
   (exn + u32 list) \<times> ('s, 'k, 'q) ServingState" where
  "runVarlenPrefill md firstSlot chunks startPositions produceToken st =
     (let N = length chunks in
      if \<not> st_chunkedPrefill st then (Inl (RuntimeError ''runVarlenPrefill: mixed prefill not enabled''), st)
      else if N = 0 then (Inr [], st)
      else if N \<noteq> length startPositions then (Inl (RuntimeError ''runVarlenPrefill: span length mismatch''), st)
      else if firstSlot + N > st_maxBatch st then (Inl (RuntimeError ''runVarlenPrefill: slot run out of range''), st)
      else case check_chunks (st_maxContext st) chunks startPositions of
        Some e \<Rightarrow> (Inl (RuntimeError e), st)
      | None \<Rightarrow>
        if sum_list (map length chunks) > st_nRowMax st
        then (Inl (RuntimeError ''runVarlenPrefill: token budget exceeds nRowMax''), st)
        else case take_fault st of
             (Some e, st1) \<Rightarrow> (Inl (RuntimeError e), st1)
           | (None, st1) \<Rightarrow>
               (let (hs, st2) = forward_rows md
                      (map (\<lambda>i. (firstSlot + i, startPositions ! i, startPositions ! i = 0, chunks ! i)) [0..<N]) st1
                in if produceToken
                   then (let (ts, st3) = sample_rows md (zip [firstSlot..<firstSlot + N] hs) st2 in (Inr ts, st3))
                   else (Inr (replicate N (- 1)), st2)))"

definition prefillSlot ::
  "('s, 'k, 'h, 'q, 'p) ServingModel \<Rightarrow> nat \<Rightarrow> u32 list \<Rightarrow> nat \<Rightarrow> bool \<Rightarrow> ('s, 'k, 'q) ServingState \<Rightarrow> (exn + u32) \<times> ('s, 'k, 'q) ServingState" where
  "prefillSlot md slot tokens startPos produceToken st =
     (if \<not> st_chunkedPrefill st then (Inl (RuntimeError ''prefillSlot: chunked prefill not enabled''), st)
      else if tokens = [] then (Inr (- 1), st)
      else if length tokens > st_prefillChunk st then (Inl (RuntimeError ''prefillSlot: chunk larger than prefillChunk''), st)
      else if slot \<ge> st_maxBatch st then (Inl (RuntimeError ''prefillSlot: slot out of range''), st)
      else if startPos + length tokens > st_maxContext st then (Inl (RuntimeError ''prefillSlot: startPos+T exceeds maxContext''), st)
      else case take_fault st of
             (Some e, st1) \<Rightarrow> (Inl (RuntimeError e), st1)
           | (None, st1) \<Rightarrow>
               (let (h, st2) = forward_slot md slot startPos (startPos = 0) tokens st1
                in if produceToken then (let (t, st3) = sample_slot md slot h st2 in (Inr t, st3))
                   else (Inr (- 1), st2)))"

definition setSlot ::
  "('s, 'k, 'h, 'q, 'p) ServingModel \<Rightarrow> nat \<Rightarrow> 'p \<Rightarrow> u32 list \<Rightarrow> ('s, 'k, 'q) ServingState \<Rightarrow> ('s, 'k, 'q) ServingState" where
  "setSlot md slot p promptTail st =
     (if slot \<ge> length (st_slotSampling st) then st
      else st\<lparr>st_slotSampling := (st_slotSampling st)[slot := md_slotSampling md p promptTail]\<rparr>)"

section \<open>The ring of interior checkpoints\<close>

definition captureSlotSsmCkpt :: "nat \<Rightarrow> nat \<Rightarrow> ('s, 'k, 'q) ServingState \<Rightarrow> ('s, 'k, 'q) ServingState" where
  "captureSlotSsmCkpt slot pos st =
     (let slots = (if st_ckptRing st = [] then replicate (st_maxBatch st) [] else st_ckptRing st);
          ring = slots ! slot;
          kept = (if length ring \<ge> kMaxPerSlot then tl ring else ring)
      in st\<lparr>st_ckptRing := slots[slot := kept @ [(pos, st_ssm st ! slot)]]\<rparr>)"

definition slotCkptBestPos :: "nat \<Rightarrow> nat \<Rightarrow> ('s, 'k, 'q) ServingState \<Rightarrow> nat" where
  "slotCkptBestPos slot lcp st =
     (if st_ckptRing st = [] \<or> slot \<ge> length (st_ckptRing st) then 0
      else fold (\<lambda>(p, img) best. if p \<le> lcp \<and> p > best then p else best) (st_ckptRing st ! slot) 0)"

definition restoreSlotSsmCkptAtPos :: "nat \<Rightarrow> nat \<Rightarrow> ('s, 'k, 'q) ServingState \<Rightarrow> ('s, 'k, 'q) ServingState" where
  "restoreSlotSsmCkptAtPos slot pos st =
     (if st_ckptRing st = [] \<or> slot \<ge> length (st_ckptRing st) then st
      else case map_of (st_ckptRing st ! slot) pos of
             None \<Rightarrow> st
           | Some img \<Rightarrow> st\<lparr>st_ssm := (st_ssm st)[slot := img]\<rparr>)"

definition pruneSlotSsmCkpts :: "nat \<Rightarrow> nat \<Rightarrow> ('s, 'k, 'q) ServingState \<Rightarrow> ('s, 'k, 'q) ServingState" where
  "pruneSlotSsmCkpts slot keepMaxPos st =
     (if st_ckptRing st = [] \<or> slot \<ge> length (st_ckptRing st) then st
      else st\<lparr>st_ckptRing := (st_ckptRing st)[slot := filter (\<lambda>(p, img). \<not> p > keepMaxPos) (st_ckptRing st ! slot)]\<rparr>)"

definition clearSlotSsmCkpts :: "nat \<Rightarrow> ('s, 'k, 'q) ServingState \<Rightarrow> ('s, 'k, 'q) ServingState" where
  "clearSlotSsmCkpts slot st =
     (if st_ckptRing st = [] \<or> slot \<ge> length (st_ckptRing st) then st
      else st\<lparr>st_ckptRing := (st_ckptRing st)[slot := []]\<rparr>)"

section \<open>The cross-slot store of prefix images\<close>

text \<open>The images of the evicted payloads move to the deferred frees; our own id is skipped.\<close>

fun evict_images ::
  "u64 \<Rightarrow> u64 list \<Rightarrow> ('s, 'k, 'q) ServingState \<Rightarrow> ('s, 'k, 'q) ServingState" where
  "evict_images pid [] st = st"
| "evict_images pid (e # es) st =
     (if e = pid then evict_images pid es st
      else evict_images pid es
        (case st_prefixImages st e of
           None \<Rightarrow> st
         | Some img \<Rightarrow> st\<lparr>st_prefixImages := (st_prefixImages st)(e := None), st_pendingFree := st_pendingFree st @ [img]\<rparr>))"

definition snapshotSlotToPrefixImage ::
  "nat \<Rightarrow> nat \<Rightarrow> u32 list \<Rightarrow> ('s, 'k, 'q) ServingState \<Rightarrow> (exn + u64) \<times> ('s, 'k, 'q) ServingState" where
  "snapshotSlotToPrefixImage slot pos tokens st =
     (if \<not> st_xslot st \<or> pos = 0 then (Inr kNone, st)
      else if pos mod gi_blockSize (st_prefixIndex st) \<noteq> 0 \<or> pos > st_maxContext st then (Inr kNone, st)
      else
        let img = \<lparr>im_pos = pos, im_state = st_ssm st ! slot, im_kv = take pos (st_kv st ! slot)\<rparr>;
            pid = st_nextPayloadId st;
            st1 = st\<lparr>st_nextPayloadId := pid + 1\<rparr>
        in case gdn_insert (Some tokens) pos pid [] (st_prefixIndex st1) of
             Inl e \<Rightarrow> (Inl e, st1)
           | Inr (g, evicted) \<Rightarrow>
               let st2 = evict_images pid evicted (st1\<lparr>st_prefixIndex := g\<rparr>)
               in if pid \<in> set evicted
                  then (Inr kNone, st2\<lparr>st_pendingFree := st_pendingFree st2 @ [img]\<rparr>)
                  else (Inr pid,
                        if st_prefixImages st2 pid = None
                        then st2\<lparr>st_prefixImages := (st_prefixImages st2)(pid \<mapsto> img)\<rparr> else st2))"

definition lookupPrefixImage ::
  "u32 list \<Rightarrow> ('s, 'k, 'q) ServingState \<Rightarrow> (exn + (nat \<times> u64) option) \<times> ('s, 'k, 'q) ServingState" where
  "lookupPrefixImage prompt st =
     (if \<not> st_xslot st then (Inr None, st)
      else case gdn_lookup (Some prompt) (st_prefixIndex st) of
             Inl e \<Rightarrow> (Inl e, st)
           | Inr (hit, g) \<Rightarrow>
               let st1 = st\<lparr>st_prefixIndex := g\<rparr>
               in if \<not> gh_found hit \<or> st_prefixImages st1 (gh_payload hit) = None then (Inr None, st1)
                  else (Inr (Some (gh_pos hit, gh_payload hit)), st1))"

definition restorePrefixImageToSlot :: "nat \<Rightarrow> u64 \<Rightarrow> ('s, 'k, 'q) ServingState \<Rightarrow> bool \<times> ('s, 'k, 'q) ServingState" where
  "restorePrefixImageToSlot slot payload st =
     (if \<not> st_xslot st then (False, st)
      else case st_prefixImages st payload of
             None \<Rightarrow> (False, st)
           | Some img \<Rightarrow>
               (True, st\<lparr>st_ssm := (st_ssm st)[slot := im_state img],
                         st_kv := (st_kv st)[slot := write_rows 0 (im_kv img) (st_kv st ! slot)]\<rparr>))"

definition acquirePrefixImage :: "u64 \<Rightarrow> ('s, 'k, 'q) ServingState \<Rightarrow> ('s, 'k, 'q) ServingState" where
  "acquirePrefixImage payload st =
     (if st_xslot st then st\<lparr>st_prefixIndex := gdn_acquire payload (st_prefixIndex st)\<rparr> else st)"

definition releasePrefixImage :: "u64 \<Rightarrow> ('s, 'k, 'q) ServingState \<Rightarrow> ('s, 'k, 'q) ServingState" where
  "releasePrefixImage payload st =
     (if st_xslot st then st\<lparr>st_prefixIndex := gdn_release payload (st_prefixIndex st)\<rparr> else st)"

definition crossSlotEnabled :: "('s, 'k, 'q) ServingState \<Rightarrow> bool" where
  "crossSlotEnabled st = st_xslot st"

definition drainPrefixImageFrees :: "('s, 'k, 'q) ServingState \<Rightarrow> ('s, 'k, 'q) ServingState" where
  "drainPrefixImageFrees st = (if st_pendingFree st = [] then st else st\<lparr>st_pendingFree := []\<rparr>)"

end
