(* ===== verification/Batcher.thy ===== *)
theory Batcher
  imports ServingSession
begin

text \<open>
  The continuous-batching worker, \<^verbatim>\<open>ContinuousBatcher\<close>
  (\<^verbatim>\<open>src/runtime/serving/ContinuousBatcher.cpp\<close>): submission with the global and the per-tenant bound,
  the three admission passes, eager single-slot and multi-slot prefill, the mixed prefill and decode
  step, the decode step, retirement and shutdown.

  \<^item> Requests are shared objects: \<open>cb_requests\<close> is the heap of them, a handle is an index into it.
  \<^item> Tokens are 32-bit patterns; \<^verbatim>\<open>_eosId >= 0\<close> reads them as signed.
  \<^item> \<^verbatim>\<open>SIZE_MAX\<close> as "no slot" is \<open>None\<close>. \<open>pd_sampling\<close> is the pair of sampling parameters and
    tool-call constraint of a request. Wall-clock times, log-probabilities and logging are left out.
  \<^item> The critical sections of the worker are functions of the state; \<open>batcher_step\<close> interleaves them
    with \<^verbatim>\<open>submit\<close>, \<^verbatim>\<open>cancel\<close> and the destructor's stop flag. Within one section of the worker the other
    threads can only append to the waiting queue and set \<^verbatim>\<open>cancelled\<close> flags; every flag is read once
    per section, under the lock of its request, so an interleaving inside a section has the effect of
    one before or after it.
\<close>

record ServingRequest =
  sr_tokens :: "u32 list"
  sr_done :: bool
  sr_cancelled :: bool
  sr_overloaded :: bool
  sr_tenantQuotaExceeded :: bool
  sr_error :: string
  sr_tenantId :: string
  sr_promptTokens :: nat
  sr_cachedTokens :: nat
  sr_prefilledTokens :: nat
  sr_prefillSet :: bool

record 'p Pending =
  pd_req :: nat
  pd_prompt :: "u32 list"
  pd_maxNew :: nat
  pd_stopIds :: "u32 list"
  pd_sampling :: 'p

record ThinkState =
  th_open :: bool
  th_reasoningTokens :: nat
  th_forcing :: bool
  th_forceIdx :: nat

record Slot = ThinkState +
  s_occupied :: bool
  s_req :: "nat option"
  s_prompt :: "u32 list"
  s_promptLen :: nat
  s_pos :: nat
  s_lastTok :: u32
  s_maxNew :: nat
  s_produced :: nat
  s_stopIds :: "u32 list"
  s_prefillPos :: nat
  s_resident :: bool
  s_residentTokens :: "u32 list"
  s_residentTick :: u64
  s_prefillStart :: nat
  s_xslotPayload :: u64

record BatcherConfig =
  cf_maxBatch :: nat
  cf_maxContext :: nat
  cf_eosId :: u32
  cf_maxInflight :: nat
  cf_maxInflightPerTenant :: nat
  cf_prefillChunk :: nat
  cf_admitPerIter :: nat
  cf_warmSlot :: bool
  cf_xslot :: bool
  cf_mixedBatchPrefill :: bool
  cf_prefillMaxRows :: nat
  cf_mixedStep :: bool
  cf_mixedStepPressureGate :: bool
  cf_thinkBudget :: nat
  cf_thinkStartId :: u32
  cf_thinkEndId :: u32
  cf_thinkForceSeq :: "u32 list"

record ('s, 'k, 'q, 'p) ContinuousBatcher =
  cb_cfg :: BatcherConfig
  cb_slots :: "Slot list"
  cb_waiting :: "'p Pending list"
  cb_requests :: "ServingRequest list"
  cb_warmTick :: u64
  cb_running :: bool
  cb_engine :: "('s, 'k, 'q) ServingState"

section \<open>Construction\<close>

definition newSlot :: Slot where
  "newSlot = \<lparr>th_open = False, th_reasoningTokens = 0, th_forcing = False, th_forceIdx = 0,
     s_occupied = False, s_req = None, s_prompt = [], s_promptLen = 0, s_pos = 0, s_lastTok = 0, s_maxNew = 0,
     s_produced = 0, s_stopIds = [], s_prefillPos = 0, s_resident = False, s_residentTokens = [],
     s_residentTick = 0, s_prefillStart = 0, s_xslotPayload = 0\<rparr>"

definition newRequest :: "string \<Rightarrow> ServingRequest" where
  "newRequest tenant = \<lparr>sr_tokens = [], sr_done = False, sr_cancelled = False, sr_overloaded = False,
     sr_tenantQuotaExceeded = False, sr_error = [], sr_tenantId = tenant, sr_promptTokens = 0,
     sr_cachedTokens = 0, sr_prefilledTokens = 0, sr_prefillSet = False\<rparr>"

text \<open>The environment variables the constructor reads, parsed, and what it asks of the engine.\<close>

record BatcherEnv =
  ev_admitPerIter :: "int option"
  ev_mixedBatch :: "bool option"
  ev_mixedStep :: "bool option"
  ev_pressure :: "bool option"
  ev_prefixCkpt :: "int option"
  ev_xslot :: "int option"
  ev_thinkBudget :: "int option"
  ev_thinkMsg :: "string option"

record EngineInfo =
  ei_architecture :: string
  ei_needsSsm :: bool
  ei_findToken :: "string \<Rightarrow> u32"
  ei_encode :: "string \<Rightarrow> u32 list"

definition think_budget :: "BatcherEnv \<Rightarrow> EngineInfo \<Rightarrow> nat" where
  "think_budget ev ei =
     (case ev_thinkBudget ev of
        Some v \<Rightarrow> if v > 0 \<and> 0 \<le> sint (ei_findToken ei ''<think>'') \<and> 0 \<le> sint (ei_findToken ei ''</think>'') then nat v else 0
      | None \<Rightarrow> 0)"

definition think_force_seq :: "BatcherEnv \<Rightarrow> EngineInfo \<Rightarrow> u32 list" where
  "think_force_seq ev ei =
     (if think_budget ev ei > 0
      then ei_encode ei (case ev_thinkMsg ev of Some m \<Rightarrow> m
             | None \<Rightarrow> [CHR 0x0A, CHR 0x0A] @ ''I have enough information now; I will give the final answer.'' @ [CHR 0x0A])
           @ [ei_findToken ei ''</think>''] @ ei_encode ei [CHR 0x0A, CHR 0x0A]
      else [])"

definition newContinuousBatcher ::
  "BatcherEnv \<Rightarrow> EngineInfo \<Rightarrow> ('s, 'k, 'q) ServingState \<Rightarrow> nat \<Rightarrow> nat \<Rightarrow> u32 \<Rightarrow> nat \<Rightarrow> nat \<Rightarrow> ('s, 'k, 'q, 'p) ContinuousBatcher result" where
  "newContinuousBatcher ev ei eng maxBatch maxContext eosId maxInflight perTenant =
     (if maxBatch = 0 \<or> maxContext = 0 then Inl (RuntimeError ''ContinuousBatcher: maxBatch/maxContext > 0'')
      else
        let chunk = prefillChunkSize (Some eng); rows = prefillMaxRows (Some eng);
            q4 = (ei_architecture ei = ''qwen4_exp'');
            cfg = \<lparr>cf_maxBatch = maxBatch, cf_maxContext = maxContext, cf_eosId = eosId,
              cf_maxInflight = max maxInflight maxBatch, cf_maxInflightPerTenant = perTenant,
              cf_prefillChunk = chunk,
              cf_admitPerIter = (case ev_admitPerIter ev of Some v \<Rightarrow> if v > 0 then nat v else 0 | None \<Rightarrow> 0),
              cf_warmSlot = ((case ev_prefixCkpt ev of Some v \<Rightarrow> v > 0 | None \<Rightarrow> True) \<and> ei_needsSsm ei \<and> chunk > 0),
              cf_xslot = ((case ev_xslot ev of Some v \<Rightarrow> v > 0 | None \<Rightarrow> True) \<and> ei_needsSsm ei \<and> chunk > 0),
              cf_mixedBatchPrefill = ((case ev_mixedBatch ev of Some b \<Rightarrow> b | None \<Rightarrow> False) \<and> rows \<noteq> 0 \<and> \<not> q4),
              cf_prefillMaxRows = rows,
              cf_mixedStep = ((case ev_mixedStep ev of Some b \<Rightarrow> b | None \<Rightarrow> True) \<and> rows \<noteq> 0 \<and> \<not> q4),
              cf_mixedStepPressureGate = (case ev_pressure ev of Some b \<Rightarrow> b | None \<Rightarrow> True),
              cf_thinkBudget = think_budget ev ei, cf_thinkStartId = ei_findToken ei ''<think>'',
              cf_thinkEndId = ei_findToken ei ''</think>'', cf_thinkForceSeq = think_force_seq ev ei\<rparr>
        in Inr \<lparr>cb_cfg = cfg, cb_slots = replicate maxBatch newSlot, cb_waiting = [], cb_requests = [],
                cb_warmTick = 0, cb_running = True, cb_engine = eng\<rparr>)"

section \<open>Helpers of the worker\<close>

definition isStop :: "u32 \<Rightarrow> Slot \<Rightarrow> bool" where
  "isStop tok s \<longleftrightarrow> tok \<in> set (s_stopIds s)"

fun think_scan :: "u32 \<Rightarrow> u32 \<Rightarrow> u32 list \<Rightarrow> int \<Rightarrow> int \<Rightarrow> int \<Rightarrow> int \<times> int" where
  "think_scan startId endId [] k lastStart lastEnd = (lastStart, lastEnd)"
| "think_scan startId endId (t # ts) k lastStart lastEnd =
     (if t = startId then think_scan startId endId ts (k + 1) k lastEnd
      else if t = endId then think_scan startId endId ts (k + 1) lastStart k
      else think_scan startId endId ts (k + 1) lastStart lastEnd)"

definition initThinkState :: "BatcherConfig \<Rightarrow> u32 list \<Rightarrow> 'a ThinkState_scheme \<Rightarrow> 'a ThinkState_scheme" where
  "initThinkState cf prompt s =
     (let s0 = s\<lparr>th_reasoningTokens := 0, th_open := False, th_forcing := False, th_forceIdx := 0\<rparr> in
      if cf_thinkBudget cf = 0 \<or> sint (cf_thinkStartId cf) < 0 \<or> sint (cf_thinkEndId cf) < 0 then s0
      else let (lastStart, lastEnd) = think_scan (cf_thinkStartId cf) (cf_thinkEndId cf) prompt 0 (- 1) (- 1)
           in s0\<lparr>th_open := (lastStart \<ge> 0 \<and> lastStart > lastEnd)\<rparr>)"

definition force_next :: "BatcherConfig \<Rightarrow> 'a ThinkState_scheme \<Rightarrow> u32 \<times> 'a ThinkState_scheme" where
  "force_next cf s =
     (let tok = cf_thinkForceSeq cf ! th_forceIdx s; s1 = s\<lparr>th_forceIdx := Suc (th_forceIdx s)\<rparr>
      in (tok, if th_forceIdx s1 \<ge> length (cf_thinkForceSeq cf) then s1\<lparr>th_forcing := False, th_open := False\<rparr> else s1))"

definition applyThinkBudget :: "BatcherConfig \<Rightarrow> 'a ThinkState_scheme \<Rightarrow> u32 \<Rightarrow> u32 \<times> 'a ThinkState_scheme" where
  "applyThinkBudget cf s tok =
     (if th_forcing s then force_next cf s
      else if \<not> th_open s then (tok, s)
      else if tok = cf_thinkEndId cf then (tok, s\<lparr>th_open := False\<rparr>)
      else let s1 = s\<lparr>th_reasoningTokens := Suc (th_reasoningTokens s)\<rparr> in
        if th_reasoningTokens s1 \<ge> cf_thinkBudget cf
        then if cf_thinkForceSeq cf = [] then (cf_thinkEndId cf, s1\<lparr>th_open := False\<rparr>)
             else force_next cf (s1\<lparr>th_forcing := True, th_forceIdx := 0\<rparr>)
        else (tok, s1))"

definition upd_slot :: "nat \<Rightarrow> (Slot \<Rightarrow> Slot) \<Rightarrow> ('s, 'k, 'q, 'p) ContinuousBatcher \<Rightarrow> ('s, 'k, 'q, 'p) ContinuousBatcher" where
  "upd_slot i f b = b\<lparr>cb_slots := (cb_slots b)[i := f (cb_slots b ! i)]\<rparr>"

definition upd_req :: "nat option \<Rightarrow> (ServingRequest \<Rightarrow> ServingRequest) \<Rightarrow> ('s, 'k, 'q, 'p) ContinuousBatcher \<Rightarrow> ('s, 'k, 'q, 'p) ContinuousBatcher" where
  "upd_req r f b = (case r of None \<Rightarrow> b | Some i \<Rightarrow> b\<lparr>cb_requests := (cb_requests b)[i := f (cb_requests b ! i)]\<rparr>)"

definition upd_eng ::
  "(('s, 'k, 'q) ServingState \<Rightarrow> ('s, 'k, 'q) ServingState) \<Rightarrow> ('s, 'k, 'q, 'p) ContinuousBatcher \<Rightarrow> ('s, 'k, 'q, 'p) ContinuousBatcher" where
  "upd_eng f b = b\<lparr>cb_engine := f (cb_engine b)\<rparr>"

definition req_cancelled :: "nat option \<Rightarrow> ('s, 'k, 'q, 'p) ContinuousBatcher \<Rightarrow> bool" where
  "req_cancelled r b = (case r of None \<Rightarrow> False | Some i \<Rightarrow> sr_cancelled (cb_requests b ! i))"

text \<open>The lambdas \<^verbatim>\<open>finish\<close> and \<^verbatim>\<open>failReq\<close>, and the inline retirement of the failure paths.\<close>

definition finish_req :: "string \<Rightarrow> ServingRequest \<Rightarrow> ServingRequest" where
  "finish_req err r = r\<lparr>sr_error := (if err \<noteq> [] then err else sr_error r), sr_done := True\<rparr>"

definition push_token :: "u32 \<Rightarrow> ServingRequest \<Rightarrow> ServingRequest" where
  "push_token t r = r\<lparr>sr_tokens := sr_tokens r @ [t]\<rparr>"

definition drop_slot :: "Slot \<Rightarrow> Slot" where
  "drop_slot s = s\<lparr>s_occupied := False, s_req := None, s_prompt := []\<rparr>"

definition what :: "exn \<Rightarrow> string" where
  "what e = (case e of InvalidArgument m \<Rightarrow> m | OutOfRange m \<Rightarrow> m | RuntimeError m \<Rightarrow> m | LogicError m \<Rightarrow> m | LengthError m \<Rightarrow> m)"

definition retireSlot :: "nat \<Rightarrow> bool \<Rightarrow> ('s, 'k, 'q, 'p) ContinuousBatcher \<Rightarrow> ('s, 'k, 'q, 'p) ContinuousBatcher" where
  "retireSlot i keepWarm b =
     (let b1 = upd_slot i (\<lambda>s. s\<lparr>s_occupied := False, s_req := None, s_prefillStart := 0\<rparr>) b;
          payload = s_xslotPayload (cb_slots b1 ! i);
          b2 = (if payload \<noteq> 0
                then upd_slot i (\<lambda>s. s\<lparr>s_xslotPayload := 0\<rparr>) (upd_eng (releasePrefixImage payload) b1) else b1)
      in if keepWarm \<and> cf_warmSlot (cb_cfg b) \<and> s_residentTokens (cb_slots b2 ! i) \<noteq> []
         then upd_slot i (\<lambda>s. s\<lparr>s_resident := True, s_residentTick := cb_warmTick b2 + 1\<rparr>)
                (b2\<lparr>cb_warmTick := cb_warmTick b2 + 1\<rparr>)
         else upd_eng (clearSlotSsmCkpts i)
                (upd_slot i (\<lambda>s. s\<lparr>s_prompt := [], s_residentTokens := [], s_resident := False\<rparr>) b2))"

fun token_lcp :: "u32 list \<Rightarrow> u32 list \<Rightarrow> nat" where
  "token_lcp (x # xs) (y # ys) = (if x = y then Suc (token_lcp xs ys) else 0)"
| "token_lcp xs ys = 0"

fun warm_scan ::
  "('s, 'k, 'q) ServingState \<Rightarrow> u32 list \<Rightarrow> nat \<Rightarrow> Slot list \<Rightarrow> nat option \<Rightarrow> nat \<Rightarrow> u64 \<Rightarrow> nat option \<times> nat" where
  "warm_scan e prompt i [] best bestPos bestTick = (best, bestPos)"
| "warm_scan e prompt i (s # ss) best bestPos bestTick =
     (let lcp = token_lcp (s_residentTokens s) prompt; pos = slotCkptBestPos i lcp e in
      if \<not> s_resident s \<or> s_occupied s \<or> lcp = 0 \<or> lcp \<ge> length prompt \<or> pos = 0 \<or> pos \<ge> length prompt
      then warm_scan e prompt (Suc i) ss best bestPos bestTick
      else if pos > bestPos \<or> (pos = bestPos \<and> s_residentTick s > bestTick)
      then warm_scan e prompt (Suc i) ss (Some i) pos (s_residentTick s)
      else warm_scan e prompt (Suc i) ss best bestPos bestTick)"

definition findWarmSlot :: "u32 list \<Rightarrow> ('s, 'k, 'q, 'p) ContinuousBatcher \<Rightarrow> nat option \<times> nat" where
  "findWarmSlot prompt b =
     (if \<not> cf_warmSlot (cb_cfg b) \<or> prompt = [] then (None, 0)
      else warm_scan (cb_engine b) prompt 0 (cb_slots b) None 0 0)"

fun cold_scan :: "nat \<Rightarrow> Slot list \<Rightarrow> nat option \<Rightarrow> nat option \<Rightarrow> u64 \<Rightarrow> nat option \<times> nat option" where
  "cold_scan i [] nonResident lruResident lruTick = (nonResident, lruResident)"
| "cold_scan i (s # ss) nonResident lruResident lruTick =
     (if s_occupied s then cold_scan (Suc i) ss nonResident lruResident lruTick
      else if \<not> s_resident s
      then cold_scan (Suc i) ss (if nonResident = None then Some i else nonResident) lruResident lruTick
      else if s_residentTick s < lruTick then cold_scan (Suc i) ss nonResident (Some i) (s_residentTick s)
      else cold_scan (Suc i) ss nonResident lruResident lruTick)"

definition pickColdSlot :: "('s, 'k, 'q, 'p) ContinuousBatcher \<Rightarrow> nat option" where
  "pickColdSlot b =
     (let (nonResident, lruResident) = cold_scan 0 (cb_slots b) None None (- 1)
      in if nonResident \<noteq> None then nonResident else lruResident)"

section \<open>Submission\<close>

definition activeSlots :: "('s, 'k, 'q, 'p) ContinuousBatcher \<Rightarrow> nat" where
  "activeSlots b = length (filter s_occupied (cb_slots b))"

definition queueDepth :: "('s, 'k, 'q, 'p) ContinuousBatcher \<Rightarrow> nat" where
  "queueDepth b = length (cb_waiting b)"

definition inflight :: "('s, 'k, 'q, 'p) ContinuousBatcher \<Rightarrow> nat" where
  "inflight b = length (cb_waiting b) + length (filter s_occupied (cb_slots b))"

definition kvTokensInUse :: "('s, 'k, 'q, 'p) ContinuousBatcher \<Rightarrow> nat" where
  "kvTokensInUse b = sum_list (map s_pos (filter s_occupied (cb_slots b)))"

definition countTenantLocked :: "string \<Rightarrow> ('s, 'k, 'q, 'p) ContinuousBatcher \<Rightarrow> nat" where
  "countTenantLocked tenant b =
     (if tenant = [] then 0
      else length (filter (\<lambda>p. sr_tenantId (cb_requests b ! pd_req p) = tenant) (cb_waiting b))
         + length (filter (\<lambda>s. s_occupied s \<and> (case s_req s of None \<Rightarrow> False | Some r \<Rightarrow> sr_tenantId (cb_requests b ! r) = tenant)) (cb_slots b)))"

definition atCapacityForTenant :: "string \<Rightarrow> ('s, 'k, 'q, 'p) ContinuousBatcher \<Rightarrow> bool" where
  "atCapacityForTenant tenant b =
     (if cf_maxInflightPerTenant (cb_cfg b) = 0 \<or> tenant = [] then False
      else countTenantLocked tenant b \<ge> cf_maxInflightPerTenant (cb_cfg b))"

definition submit ::
  "u32 list \<Rightarrow> nat \<Rightarrow> u32 list \<Rightarrow> string \<Rightarrow> 'p \<Rightarrow> ('s, 'k, 'q, 'p) ContinuousBatcher \<Rightarrow> nat \<times> ('s, 'k, 'q, 'p) ContinuousBatcher" where
  "submit prompt maxNew stopIds tenantId sampling b =
     (let r = length (cb_requests b); req = newRequest tenantId; cf = cb_cfg b;
          reject = (\<lambda>q. (r, b\<lparr>cb_requests := cb_requests b @ [q]\<rparr>))
      in if prompt = [] then reject (req\<lparr>sr_error := ''empty prompt'', sr_done := True\<rparr>)
         else if length prompt \<ge> cf_maxContext cf
         then reject (req\<lparr>sr_error := ''prompt exceeds serving maxContext'', sr_done := True\<rparr>)
         else if \<not> cb_running b
         then reject (req\<lparr>sr_error := ''batcher stopped'', sr_done := True, sr_cancelled := True\<rparr>)
         else if inflight b \<ge> cf_maxInflight cf
         then reject (req\<lparr>sr_error := ''server overloaded: request queue full'', sr_overloaded := True, sr_done := True\<rparr>)
         else if cf_maxInflightPerTenant cf > 0 \<and> tenantId \<noteq> [] \<and> countTenantLocked tenantId b \<ge> cf_maxInflightPerTenant cf
         then reject (req\<lparr>sr_error := ''tenant quota exceeded: too many concurrent requests for this key'',
                          sr_tenantQuotaExceeded := True, sr_done := True\<rparr>)
         else (r, b\<lparr>cb_requests := cb_requests b @ [req],
                    cb_waiting := cb_waiting b @ [\<lparr>pd_req = r, pd_prompt = prompt, pd_maxNew = maxNew,
                      pd_stopIds = stopIds, pd_sampling = sampling\<rparr>]\<rparr>))"

definition cancel :: "nat \<Rightarrow> ('s, 'k, 'q, 'p) ContinuousBatcher \<Rightarrow> ('s, 'k, 'q, 'p) ContinuousBatcher" where
  "cancel r b = upd_req (Some r) (\<lambda>q. q\<lparr>sr_cancelled := True\<rparr>) b"

text \<open>The wait predicates of the request handle: the value, or \<open>None\<close> while the caller blocks.\<close>

definition waitAll :: "ServingRequest \<Rightarrow> u32 list option" where
  "waitAll r = (if sr_done r then Some (sr_tokens r) else None)"

definition waitToken :: "nat \<Rightarrow> ServingRequest \<Rightarrow> u32 option option" where
  "waitToken next r =
     (if length (sr_tokens r) > next then Some (Some (sr_tokens r ! next))
      else if sr_done r then Some None else None)"

end
