(* ===== verification/BatcherWorker.thy ===== *)
theory BatcherWorker
  imports Batcher
begin

text \<open>
  The worker loop of the continuous batcher, \<^verbatim>\<open>ContinuousBatcher::workerLoop\<close> with the admission,
  prefill and step functions it calls, and the runs of the batcher: the sections of the worker
  interleaved with the calls of the request threads.
\<close>

type_synonym ('s, 'k, 'q, 'p) batcher = "('s, 'k, 'q, 'p) ContinuousBatcher"

section \<open>Admission\<close>

text \<open>What the three passes have in common: the slot takes over the pending request.\<close>

definition take_request :: "BatcherConfig \<Rightarrow> 'p Pending \<Rightarrow> nat \<Rightarrow> Slot \<Rightarrow> Slot" where
  "take_request cf p start s =
     (initThinkState cf (pd_prompt p) s)
       \<lparr>s_occupied := True, s_resident := False, s_req := Some (pd_req p), s_prompt := pd_prompt p,
        s_promptLen := length (pd_prompt p), s_pos := 0, s_lastTok := 0, s_maxNew := pd_maxNew p,
        s_produced := 0, s_stopIds := pd_stopIds p, s_prefillPos := 0, s_prefillStart := start\<rparr>"

definition may_admit :: "BatcherConfig \<Rightarrow> nat \<Rightarrow> bool" where
  "may_admit cf admitted \<longleftrightarrow> cf_admitPerIter cf = 0 \<or> admitted < cf_admitPerIter cf"

text \<open>Both iterator loops return the requests that stay in the queue.\<close>

fun admit_warm_loop ::
  "('s, 'k, 'h, 'q, 'p) ServingModel \<Rightarrow> 'p Pending list \<Rightarrow> nat \<Rightarrow> nat list \<Rightarrow> ('s, 'k, 'q, 'p) batcher \<Rightarrow>
   'p Pending list \<times> nat \<times> nat list \<times> ('s, 'k, 'q, 'p) batcher" where
  "admit_warm_loop md [] admitted toPrefill b = ([], admitted, toPrefill, b)"
| "admit_warm_loop md (p # ps) admitted toPrefill b =
     (if \<not> may_admit (cb_cfg b) admitted then (p # ps, admitted, toPrefill, b)
      else case findWarmSlot (pd_prompt p) b of
        (None, _) \<Rightarrow>
          (let (kept, r) = admit_warm_loop md ps admitted toPrefill b in (p # kept, r))
      | (Some ws, reusePos) \<Rightarrow>
          (let lcp = token_lcp (s_residentTokens (cb_slots b ! ws)) (pd_prompt p);
               b1 = upd_eng (pruneSlotSsmCkpts ws lcp) b;
               b2 = upd_slot ws (\<lambda>s. (take_request (cb_cfg b) p reusePos s)\<lparr>s_xslotPayload := 0\<rparr>) b1;
               b3 = upd_eng (setSlot md ws (pd_sampling p) (pd_prompt p)) b2
           in admit_warm_loop md ps (Suc admitted)
                (if cf_prefillChunk (cb_cfg b) > 0 \<and> length (pd_prompt p) > reusePos then toPrefill @ [ws] else toPrefill) b3))"

definition admitWarmSlots ::
  "('s, 'k, 'h, 'q, 'p) ServingModel \<Rightarrow> nat \<times> nat list \<times> ('s, 'k, 'q, 'p) batcher \<Rightarrow> nat \<times> nat list \<times> ('s, 'k, 'q, 'p) batcher" where
  "admitWarmSlots md x =
     (case x of (admitted, toPrefill, b) \<Rightarrow>
        if cf_warmSlot (cb_cfg b)
        then (let (kept, a, tp, b') = admit_warm_loop md (cb_waiting b) admitted toPrefill b in (a, tp, b'\<lparr>cb_waiting := kept\<rparr>))
        else x)"

fun admit_cross_loop ::
  "('s, 'k, 'h, 'q, 'p) ServingModel \<Rightarrow> 'p Pending list \<Rightarrow> nat \<Rightarrow> nat list \<Rightarrow> ('s, 'k, 'q, 'p) batcher \<Rightarrow>
   exn + ('p Pending list \<times> nat \<times> nat list \<times> ('s, 'k, 'q, 'p) batcher)" where
  "admit_cross_loop md [] admitted toPrefill b = Inr ([], admitted, toPrefill, b)"
| "admit_cross_loop md (p # ps) admitted toPrefill b =
     (if \<not> may_admit (cb_cfg b) admitted then Inr (p # ps, admitted, toPrefill, b)
      else case lookupPrefixImage (pd_prompt p) (cb_engine b) of
        (Inl e, _) \<Rightarrow> Inl e
      | (Inr hit, e1) \<Rightarrow>
          (let b1 = b\<lparr>cb_engine := e1\<rparr>;
               skip = (\<lambda>b'. bind_result (admit_cross_loop md ps admitted toPrefill b') (\<lambda>(kept, r). Inr (p # kept, r)))
           in case hit of
                None \<Rightarrow> skip b1
              | Some (xpos, xpid) \<Rightarrow>
                  if xpos = 0 \<or> xpos \<ge> length (pd_prompt p) then skip b1
                  else (case pickColdSlot b1 of
                          None \<Rightarrow> Inr (p # ps, admitted, toPrefill, b1)
                        | Some i \<Rightarrow>
                            (case restorePrefixImageToSlot i xpid (cb_engine b1) of
                               (False, e2) \<Rightarrow> skip (b1\<lparr>cb_engine := e2\<rparr>)
                             | (True, e2) \<Rightarrow>
                                 (let b2 = upd_eng (clearSlotSsmCkpts i \<circ> acquirePrefixImage xpid) (b1\<lparr>cb_engine := e2\<rparr>);
                                      b3 = upd_slot i (\<lambda>s. (take_request (cb_cfg b) p xpos s)\<lparr>s_xslotPayload := xpid\<rparr>) b2;
                                      b4 = upd_eng (setSlot md i (pd_sampling p) (pd_prompt p)) b3
                                  in admit_cross_loop md ps (Suc admitted)
                                       (if cf_prefillChunk (cb_cfg b) > 0 \<and> length (pd_prompt p) > xpos then toPrefill @ [i] else toPrefill) b4)))))"

definition admitCrossSlots ::
  "('s, 'k, 'h, 'q, 'p) ServingModel \<Rightarrow> nat \<times> nat list \<times> ('s, 'k, 'q, 'p) batcher \<Rightarrow> exn + (nat \<times> nat list \<times> ('s, 'k, 'q, 'p) batcher)" where
  "admitCrossSlots md x =
     (case x of (admitted, toPrefill, b) \<Rightarrow>
        if cf_xslot (cb_cfg b)
        then bind_result (admit_cross_loop md (cb_waiting b) admitted toPrefill b)
               (\<lambda>(kept, a, tp, b'). Inr (a, tp, b'\<lparr>cb_waiting := kept\<rparr>))
        else Inr x)"

fun admit_cold_loop ::
  "('s, 'k, 'h, 'q, 'p) ServingModel \<Rightarrow> bool \<Rightarrow> 'p Pending list \<Rightarrow> nat \<Rightarrow> nat list \<Rightarrow> ('s, 'k, 'q, 'p) batcher \<Rightarrow>
   'p Pending list \<times> nat \<times> nat list \<times> ('s, 'k, 'q, 'p) batcher" where
  "admit_cold_loop md pressure [] admitted toPrefill b = ([], admitted, toPrefill, b)"
| "admit_cold_loop md pressure (p # ps) admitted toPrefill b =
     (if \<not> may_admit (cb_cfg b) admitted then (p # ps, admitted, toPrefill, b)
      else case pickColdSlot b of
        None \<Rightarrow> (p # ps, admitted, toPrefill, b)
      | Some i \<Rightarrow>
          (let b1 = upd_slot i (\<lambda>s. (take_request (cb_cfg b) p 0 s)\<lparr>s_xslotPayload := 0, s_residentTokens := []\<rparr>) b;
               b2 = upd_eng (setSlot md i (pd_sampling p) (pd_prompt p) \<circ> clearSlotSsmCkpts i) b1;
               eagerPrefill = (\<not> cf_mixedStep (cb_cfg b) \<or> (cf_mixedStepPressureGate (cb_cfg b) \<and> \<not> pressure))
           in admit_cold_loop md pressure ps (Suc admitted)
                (if cf_prefillChunk (cb_cfg b) > 0 \<and> length (pd_prompt p) > 0 \<and> eagerPrefill then toPrefill @ [i] else toPrefill) b2))"

definition admitColdSlots ::
  "('s, 'k, 'h, 'q, 'p) ServingModel \<Rightarrow> bool \<Rightarrow> nat \<times> nat list \<times> ('s, 'k, 'q, 'p) batcher \<Rightarrow> nat \<times> nat list \<times> ('s, 'k, 'q, 'p) batcher" where
  "admitColdSlots md pressure x =
     (case x of (admitted, toPrefill, b) \<Rightarrow>
        (let (kept, a, tp, b') = admit_cold_loop md pressure (cb_waiting b) admitted toPrefill b in (a, tp, b'\<lparr>cb_waiting := kept\<rparr>)))"

definition prefill_pressure :: "('s, 'k, 'q, 'p) batcher \<Rightarrow> bool" where
  "prefill_pressure b =
     (if cf_mixedStep (cb_cfg b) \<and> cf_mixedStepPressureGate (cb_cfg b)
      then length (cb_waiting b) > length (filter (\<lambda>s. \<not> s_occupied s) (take (cf_maxBatch (cb_cfg b)) (cb_slots b)))
      else True)"

text \<open>The locked section at the top of the loop, up to the test for idleness.\<close>

definition admit_section ::
  "('s, 'k, 'h, 'q, 'p) ServingModel \<Rightarrow> ('s, 'k, 'q, 'p) batcher \<Rightarrow> exn + (nat list \<times> ('s, 'k, 'q, 'p) batcher)" where
  "admit_section md b =
     bind_result (admitCrossSlots md (admitWarmSlots md (0, [], b)))
       (\<lambda>x. case admitColdSlots md (prefill_pressure b) x of (_, tp, b') \<Rightarrow> Inr (tp, b'))"

definition shutdown_section :: "('s, 'k, 'q, 'p) batcher \<Rightarrow> ('s, 'k, 'q, 'p) batcher" where
  "shutdown_section b =
     (let stop_req = (\<lambda>q. finish_req ''batcher stopped'' (q\<lparr>sr_cancelled := True\<rparr>));
          b1 = fold (\<lambda>p. upd_req (Some (pd_req p)) stop_req) (cb_waiting b) b;
          b2 = fold (\<lambda>i b'. if s_occupied (cb_slots b' ! i)
                            then upd_slot i (\<lambda>s. s\<lparr>s_occupied := False, s_req := None\<rparr>) (upd_req (s_req (cb_slots b' ! i)) stop_req b')
                            else b') [0..<length (cb_slots b)] (b1\<lparr>cb_waiting := []\<rparr>)
      in b2)"

section \<open>Eager prefill\<close>

definition stop_token :: "BatcherConfig \<Rightarrow> Slot \<Rightarrow> u32 \<Rightarrow> bool \<Rightarrow> bool" where
  "stop_token cf s t ctxFull \<longleftrightarrow>
     (0 \<le> sint (cf_eosId cf) \<and> t = cf_eosId cf) \<or> isStop t s \<or> s_produced s \<ge> s_maxNew s \<or> ctxFull"

definition commitPrefilledSlot ::
  "nat \<Rightarrow> nat option \<Rightarrow> u32 \<Rightarrow> ('s, 'k, 'q, 'p) batcher \<Rightarrow> ('s, 'k, 'q, 'p) batcher" where
  "commitPrefilledSlot i req firstTok b =
     (let cf = cb_cfg b; s0 = cb_slots b ! i in
      if \<not> s_occupied s0 \<or> s_req s0 \<noteq> req then b
      else
        let (t, s1) = applyThinkBudget cf s0 firstTok;
            s2 = s1\<lparr>s_pos := s_promptLen s1, s_prefillPos := s_promptLen s1, s_lastTok := t, s_produced := 1,
                    s_residentTokens := (if cf_warmSlot cf then s_prompt s1 else s_residentTokens s1)\<rparr>;
            cancelled = req_cancelled req b;
            b1 = upd_req req (\<lambda>r. (if cancelled then r else push_token t r)
                   \<lparr>sr_promptTokens := s_promptLen s2, sr_cachedTokens := s_prefillStart s2,
                    sr_prefilledTokens := s_promptLen s2 - s_prefillStart s2, sr_prefillSet := True\<rparr>)
                   (upd_slot i (\<lambda>_. s2) b);
            ctxFull = (s_pos s2 + 1 \<ge> cf_maxContext cf)
        in if cancelled \<or> stop_token cf s2 t ctxFull
           then retireSlot i (\<not> cancelled) (upd_req req (finish_req []) b1)
           else b1)"

definition fail_slot :: "nat \<Rightarrow> nat option \<Rightarrow> string \<Rightarrow> ('s, 'k, 'q, 'p) batcher \<Rightarrow> ('s, 'k, 'q, 'p) batcher" where
  "fail_slot i req msg b =
     (if s_occupied (cb_slots b ! i) \<and> s_req (cb_slots b ! i) = req
      then upd_slot i drop_slot (upd_req req (\<lambda>r. r\<lparr>sr_error := msg, sr_done := True\<rparr>) b) else b)"

text \<open>
  The chunk loop of \<^verbatim>\<open>prefillSlotAdmitted\<close> on the engine: it returns the first generated token, or the
  exception that ended it. The test \<open>C = 0\<close> only makes the loop total: the worker never prefills
  eagerly then.
\<close>

function prefill_chunks ::
  "('s, 'k, 'h, 'q, 'p) ServingModel \<Rightarrow> BatcherConfig \<Rightarrow> nat \<Rightarrow> u32 list \<Rightarrow> nat \<Rightarrow> nat \<Rightarrow> u32 \<Rightarrow> ('s, 'k, 'q) ServingState \<Rightarrow>
   (exn + u32) \<times> ('s, 'k, 'q) ServingState" where
  "prefill_chunks md cf slot prompt deepest p firstTok e =
     (let C = cf_prefillChunk cf; L = length prompt in
      if p \<ge> L \<or> C = 0 then (Inr firstTok, e)
      else
        let t = min C (L - p); last = (p + t = L)
        in case prefillSlot md slot (take t (drop p prompt)) p last e of
             (Inl x, e1) \<Rightarrow> (Inl x, e1)
           | (Inr tk, e1) \<Rightarrow>
               (let e2 = (if cf_warmSlot cf then captureSlotSsmCkpt slot (p + t) e1 else e1);
                    snap = (if cf_xslot cf \<and> p + t = deepest \<and> deepest > 0
                            then snapshotSlotToPrefixImage slot deepest prompt e2 else (Inr kNone, e2))
                in case snap of
                     (Inl x, e3) \<Rightarrow> (Inl x, e3)
                   | (Inr _, e3) \<Rightarrow>
                       prefill_chunks md cf slot prompt deepest (p + C) (if last then tk else firstTok) e3))"
  by auto
termination by (relation "measure (\<lambda>(md, cf, slot, prompt, deepest, p, firstTok, e). length prompt - p)") auto

declare prefill_chunks.simps [simp del]

definition prefillSlotAdmitted ::
  "('s, 'k, 'h, 'q, 'p) ServingModel \<Rightarrow> nat \<Rightarrow> ('s, 'k, 'q, 'p) batcher \<Rightarrow> ('s, 'k, 'q, 'p) batcher" where
  "prefillSlotAdmitted md slot b =
     (let s = cb_slots b ! slot; cf = cb_cfg b; prompt = s_prompt s; req = s_req s; start = s_prefillStart s; L = length prompt in
      if \<not> s_occupied s then b
      else if L = 0 \<or> start \<ge> L then b
      else
        let e0 = (if start > 0 then restoreSlotSsmCkptAtPos slot start (cb_engine b) else cb_engine b);
            deepest = (if cf_xslot cf \<and> cf_prefillChunk cf > 0 then (L div cf_prefillChunk cf) * cf_prefillChunk cf else 0)
        in case prefill_chunks md cf slot prompt deepest start (- 1) e0 of
             (Inl x, e1) \<Rightarrow> fail_slot slot req (''prefill failed: '' @ what x) (b\<lparr>cb_engine := e1\<rparr>)
           | (Inr firstTok, e1) \<Rightarrow>
               commitPrefilledSlot slot req firstTok
                 (b\<lparr>cb_engine := (if cf_xslot cf then drainPrefixImageFrees e1 else e1)\<rparr>))"

text \<open>The greedy packing of consecutive slots into one ragged forward.\<close>

type_synonym run_item = "nat \<times> u32 list \<times> nat option"

fun grow_batch :: "nat \<Rightarrow> nat \<Rightarrow> run_item list \<Rightarrow> run_item list \<times> run_item list" where
  "grow_batch maxRows tok [] = ([], [])"
| "grow_batch maxRows tok ((slot, prompt, req) # items) =
     (if req = None \<or> prompt = [] \<or> length prompt > maxRows \<or> tok + length prompt > maxRows
      then ([], (slot, prompt, req) # items)
      else let (batch, rest) = grow_batch maxRows (tok + length prompt) items in ((slot, prompt, req) # batch, rest))"

lemma length_grow_batch [termination_simp]:
  "(batch, rest) = grow_batch maxRows tok items \<Longrightarrow> length rest \<le> length items"
  by (induction maxRows tok items arbitrary: batch rest rule: grow_batch.induct)
    (auto split: if_splits prod.splits intro: le_SucI)

definition prefill_batch ::
  "('s, 'k, 'h, 'q, 'p) ServingModel \<Rightarrow> run_item list \<Rightarrow> ('s, 'k, 'q, 'p) batcher \<Rightarrow> ('s, 'k, 'q, 'p) batcher" where
  "prefill_batch md batch b =
     (case runVarlenPrefill md (fst (hd batch)) (map (fst \<circ> snd) batch) (replicate (length batch) 0) True (cb_engine b) of
        (Inl x, e) \<Rightarrow> fold (\<lambda>(slot, prompt, req). fail_slot slot req (''prefill failed: '' @ what x)) batch (b\<lparr>cb_engine := e\<rparr>)
      | (Inr toks, e) \<Rightarrow>
          fold (\<lambda>((slot, prompt, req), t). commitPrefilledSlot slot req t) (zip batch toks) (b\<lparr>cb_engine := e\<rparr>))"

function run_batched ::
  "('s, 'k, 'h, 'q, 'p) ServingModel \<Rightarrow> run_item list \<Rightarrow> ('s, 'k, 'q, 'p) batcher \<Rightarrow> ('s, 'k, 'q, 'p) batcher" where
  "run_batched md [] b = b"
| "run_batched md ((slot, prompt, req) # items) b =
     (if req = None \<or> prompt = [] then run_batched md items b
      else if length prompt > cf_prefillMaxRows (cb_cfg b) then run_batched md items (prefillSlotAdmitted md slot b)
      else let (batch, rest) = grow_batch (cf_prefillMaxRows (cb_cfg b)) (length prompt) items
           in run_batched md rest (prefill_batch md ((slot, prompt, req) # batch) b))"
  by pat_completeness auto
termination
  by (relation "measure (\<lambda>(md, items, b). length items)") (auto simp: length_grow_batch less_Suc_eq_le)

definition prefillSlotRunBatched ::
  "('s, 'k, 'h, 'q, 'p) ServingModel \<Rightarrow> nat list \<Rightarrow> ('s, 'k, 'q, 'p) batcher \<Rightarrow> ('s, 'k, 'q, 'p) batcher" where
  "prefillSlotRunBatched md run b =
     run_batched md (map (\<lambda>i. let s = cb_slots b ! i
                              in if s_occupied s then (i, s_prompt s, s_req s) else (i, [], None)) run) b"

text \<open>The maximal runs of consecutive slots, in the order of the list.\<close>

fun split_run :: "nat \<Rightarrow> nat list \<Rightarrow> nat list \<times> nat list" where
  "split_run prev [] = ([], [])"
| "split_run prev (x # xs) = (if x = prev + 1 then (let (r, rest) = split_run x xs in (x # r, rest)) else ([], x # xs))"

lemma length_split_run: "length (snd (split_run prev xs)) \<le> length xs"
  by (induction prev xs rule: split_run.induct) (auto split: prod.splits intro: le_SucI)

function contiguous_runs :: "nat list \<Rightarrow> nat list list" where
  "contiguous_runs [] = []"
| "contiguous_runs (x # xs) = (x # fst (split_run x xs)) # contiguous_runs (snd (split_run x xs))"
  by pat_completeness auto
termination by (relation "measure length") (auto simp: length_split_run less_Suc_eq_le)

definition prefill_section ::
  "('s, 'k, 'h, 'q, 'p) ServingModel \<Rightarrow> nat list \<Rightarrow> ('s, 'k, 'q, 'p) batcher \<Rightarrow> ('s, 'k, 'q, 'p) batcher" where
  "prefill_section md toPrefill b =
     (if cf_mixedBatchPrefill (cb_cfg b) \<or> cf_mixedStep (cb_cfg b)
      then fold (prefillSlotRunBatched md) (contiguous_runs toPrefill) b
      else fold (prefillSlotAdmitted md) toPrefill b)"

section \<open>The step over the active prefix\<close>

definition nActive :: "('s, 'k, 'q, 'p) batcher \<Rightarrow> nat" where
  "nActive b = fold (\<lambda>i n. if s_occupied (cb_slots b ! i) then i + 1 else n) [0..<cf_maxBatch (cb_cfg b)] 0"

record MixedRow =
  mr_chunk :: "u32 list"
  mr_startPos :: nat
  mr_req :: "nat option"
  mr_prefilling :: bool
  mr_finishes :: bool
  mr_newPrefillPos :: nat

definition mixed_row :: "BatcherConfig \<Rightarrow> Slot \<Rightarrow> nat \<Rightarrow> MixedRow \<times> nat" where
  "mixed_row cf s extraBudget =
     (if \<not> s_occupied s
      then (\<lparr>mr_chunk = [0], mr_startPos = 0, mr_req = None, mr_prefilling = False, mr_finishes = False, mr_newPrefillPos = 0\<rparr>, extraBudget)
      else if s_prefillPos s < s_promptLen s
      then let remain = s_promptLen s - s_prefillPos s;
               want = min (cf_prefillChunk cf) remain;
               tk = min (want - 1) extraBudget;
               c = 1 + tk
           in (\<lparr>mr_chunk = take c (drop (s_prefillPos s) (s_prompt s)), mr_startPos = s_prefillPos s, mr_req = s_req s,
                mr_prefilling = True, mr_finishes = (s_prefillPos s + c = s_promptLen s), mr_newPrefillPos = s_prefillPos s + c\<rparr>,
               extraBudget - tk)
      else (\<lparr>mr_chunk = [s_lastTok s], mr_startPos = s_pos s, mr_req = s_req s, mr_prefilling = False, mr_finishes = False,
             mr_newPrefillPos = 0\<rparr>, extraBudget))"

fun mixed_rows :: "BatcherConfig \<Rightarrow> Slot list \<Rightarrow> nat \<Rightarrow> MixedRow list" where
  "mixed_rows cf [] extraBudget = []"
| "mixed_rows cf (s # ss) extraBudget = (let (r, x) = mixed_row cf s extraBudget in r # mixed_rows cf ss x)"

text \<open>Emitting one token on a slot: shared by the mixed and the decode step. The last argument is the
  retirement the step uses.\<close>

definition mixed_dist :: "nat \<Rightarrow> MixedRow \<Rightarrow> u32 \<Rightarrow> ('s, 'k, 'q, 'p) batcher \<Rightarrow> ('s, 'k, 'q, 'p) batcher" where
  "mixed_dist i row tok b =
     (let cf = cb_cfg b; s0 = cb_slots b ! i in
      if \<not> s_occupied s0 \<or> s_req s0 \<noteq> mr_req row then b
      else if req_cancelled (s_req s0) b
      then upd_slot i drop_slot (upd_req (s_req s0) (finish_req []) b)
      else if mr_prefilling row \<and> \<not> mr_finishes row
      then upd_slot i (\<lambda>s. s\<lparr>s_prefillPos := mr_newPrefillPos row\<rparr>) b
      else
        let s1 = (if mr_prefilling row then s0\<lparr>s_prefillPos := mr_newPrefillPos row, s_pos := s_promptLen s0\<rparr> else s0);
            (t, s2) = applyThinkBudget cf s1 tok;
            s3 = s2\<lparr>s_lastTok := t, s_produced := Suc (s_produced s2)\<rparr>;
            ctxFull = (if mr_prefilling row then s_pos s3 + 1 \<ge> cf_maxContext cf else s_pos s3 + 2 \<ge> cf_maxContext cf);
            b1 = upd_req (s_req s0) (push_token t) b
        in if stop_token cf s3 t ctxFull
           then upd_slot i (\<lambda>_. drop_slot s3) (upd_req (s_req s0) (finish_req []) b1)
           else upd_slot i (\<lambda>_. if mr_prefilling row then s3 else s3\<lparr>s_pos := Suc (s_pos s3)\<rparr>) b1)"

definition fail_active :: "string \<Rightarrow> (Slot \<Rightarrow> Slot) \<Rightarrow> nat \<Rightarrow> ('s, 'k, 'q, 'p) batcher \<Rightarrow> ('s, 'k, 'q, 'p) batcher" where
  "fail_active msg retire n b =
     fold (\<lambda>i b'. if s_occupied (cb_slots b' ! i)
                  then upd_slot i retire (upd_req (s_req (cb_slots b' ! i)) (finish_req msg) b') else b') [0..<n] b"

definition runMixedStep ::
  "('s, 'k, 'h, 'q, 'p) ServingModel \<Rightarrow> ('s, 'k, 'q, 'p) batcher \<Rightarrow> ('s, 'k, 'q, 'p) batcher" where
  "runMixedStep md b =
     (let n = nActive b; cf = cb_cfg b in
      if n = 0 then b
      else
        let rows = mixed_rows cf (take n (cb_slots b)) (cf_prefillMaxRows cf - n)
        in case runVarlenPrefill md 0 (map mr_chunk rows) (map mr_startPos rows) True (cb_engine b) of
             (Inl x, e) \<Rightarrow> fail_active (''mixed step failed: '' @ what x) drop_slot n (b\<lparr>cb_engine := e\<rparr>)
           | (Inr toks, e) \<Rightarrow>
               fold (\<lambda>i. mixed_dist i (rows ! i) (toks ! i)) [0..<n] (b\<lparr>cb_engine := e\<rparr>))"

definition decode_input :: "nat \<Rightarrow> Slot \<Rightarrow> ServingSlotStep" where
  "decode_input i s =
     (if s_occupied s
      then \<lparr>sp_slot = i, sp_token = (if s_pos s < s_promptLen s then s_prompt s ! s_pos s else s_lastTok s),
            sp_pos = s_pos s, sp_seqStart = (s_pos s = 0)\<rparr>
      else \<lparr>sp_slot = i, sp_token = 0, sp_pos = 0, sp_seqStart = True\<rparr>)"

definition decode_dist :: "nat \<Rightarrow> u32 \<Rightarrow> ('s, 'k, 'q, 'p) batcher \<Rightarrow> ('s, 'k, 'q, 'p) batcher" where
  "decode_dist i tok b =
     (let cf = cb_cfg b; s0 = cb_slots b ! i in
      if \<not> s_occupied s0 then b
      else if req_cancelled (s_req s0) b
      then retireSlot i False (upd_req (s_req s0) (finish_req []) b)
      else if s_pos s0 + 1 \<ge> s_promptLen s0
      then
        let (t, s1) = applyThinkBudget cf s0 tok;
            s2 = s1\<lparr>s_lastTok := t, s_produced := Suc (s_produced s1)\<rparr>;
            b1 = upd_slot i (\<lambda>_. s2) (upd_req (s_req s0) (push_token t) b)
        in if stop_token cf s2 t (s_pos s2 + 2 \<ge> cf_maxContext cf)
           then retireSlot i True (upd_req (s_req s0) (finish_req []) b1)
           else upd_slot i (\<lambda>s. s\<lparr>s_pos := Suc (s_pos s)\<rparr>) b1
      else upd_slot i (\<lambda>s. s\<lparr>s_pos := Suc (s_pos s)\<rparr>) b)"

definition decode_step ::
  "('s, 'k, 'h, 'q, 'p) ServingModel \<Rightarrow> ('s, 'k, 'q, 'p) batcher \<Rightarrow> ('s, 'k, 'q, 'p) batcher" where
  "decode_step md b =
     (let n = nActive b in
      if n = 0 then b
      else case stepServing md (map (\<lambda>i. decode_input i (cb_slots b ! i)) [0..<n]) (cb_engine b) of
             (Inl x, e) \<Rightarrow> fail_active (''stepServing failed: '' @ what x) (\<lambda>s. s\<lparr>s_occupied := False, s_req := None\<rparr>) n (b\<lparr>cb_engine := e\<rparr>)
           | (Inr toks, e) \<Rightarrow> fold (\<lambda>i. decode_dist i (toks ! i)) [0..<n] (b\<lparr>cb_engine := e\<rparr>))"

definition any_prefilling :: "('s, 'k, 'q, 'p) batcher \<Rightarrow> bool" where
  "any_prefilling b \<longleftrightarrow> list_ex (\<lambda>s. s_occupied s \<and> s_prefillPos s < s_promptLen s) (take (cf_maxBatch (cb_cfg b)) (cb_slots b))"

definition step_section ::
  "('s, 'k, 'h, 'q, 'p) ServingModel \<Rightarrow> ('s, 'k, 'q, 'p) batcher \<Rightarrow> ('s, 'k, 'q, 'p) batcher" where
  "step_section md b =
     (if cf_mixedStep (cb_cfg b) \<and> any_prefilling b then runMixedStep md b else decode_step md b)"

section \<open>Runs\<close>

text \<open>
  Where the worker stands between two of its sections, and one step of the batcher. The last
  component of a state is the history of accepted and rejected submissions, by handle.
\<close>

datatype worker_pc = AtTop | AtPrefill "nat list" | AtStep | Stopped

type_synonym 'p job = "u32 list \<times> nat \<times> u32 list \<times> 'p"
type_synonym ('s, 'k, 'q, 'p) batcher_state = "worker_pc \<times> ('s, 'k, 'q, 'p) batcher \<times> 'p job list"

inductive batcher_step ::
  "('s, 'k, 'h, 'q, 'p) ServingModel \<Rightarrow> ('s, 'k, 'q, 'p) batcher_state \<Rightarrow> ('s, 'k, 'q, 'p) batcher_state \<Rightarrow> bool"
  for md where
  step_submit: "batcher_step md (pc, b, js) (pc, snd (submit prompt maxNew stops tenant p b), js @ [(prompt, maxNew, stops, p)])"
| step_cancel: "r < length (cb_requests b) \<Longrightarrow> batcher_step md (pc, b, js) (pc, cancel r b, js)"
| step_stop: "batcher_step md (pc, b, js) (pc, b\<lparr>cb_running := False\<rparr>, js)"
| step_idle: "cb_running b \<Longrightarrow> admit_section md b = Inr (tp, b') \<Longrightarrow> nActive b' = 0 \<Longrightarrow> batcher_step md (AtTop, b, js) (AtTop, b', js)"
| step_admit: "cb_running b \<Longrightarrow> admit_section md b = Inr (tp, b') \<Longrightarrow> nActive b' \<noteq> 0 \<Longrightarrow> batcher_step md (AtTop, b, js) (AtPrefill tp, b', js)"
| step_prefill: "batcher_step md (AtPrefill tp, b, js) (AtStep, prefill_section md tp b, js)"
| step_step: "batcher_step md (AtStep, b, js) (AtTop, step_section md b, js)"
| step_shutdown: "\<not> cb_running b \<Longrightarrow> batcher_step md (AtTop, b, js) (Stopped, shutdown_section b, js)"

end
