(* ===== verification/BatcherRefinement.thy ===== *)
theory BatcherRefinement
  imports BatcherWorker
begin

text \<open>
  What a request would get if it were served alone, the reference \<open>serve_alone\<close>, and the lemmas
  that relate the slots of the serving session to it: the contents of a slot after a forward, the
  independence of the slots of one ragged forward, and the validity of the stored prefix images.
\<close>

section \<open>The transformer on a token context\<close>

text \<open>The law the sources state for chunked prefill: a prompt may be split into successive forwards.\<close>

definition forward_ok :: "('s, 'k, 'h, 'q, 'p) ServingModel \<Rightarrow> bool" where
  "forward_ok md \<longleftrightarrow>
     (\<forall>s ks a. length (fst (snd (md_forward md s ks a))) = length a) \<and>
     (\<forall>s ks a b. a \<noteq> [] \<longrightarrow> b \<noteq> [] \<longrightarrow>
        md_forward md s ks (a @ b) =
          (let (s1, r1, _) = md_forward md s ks a; (s2, r2, h) = md_forward md s1 (ks @ r1) b in (s2, r1 @ r2, h)))"

definition ctx_state :: "('s, 'k, 'h, 'q, 'p) ServingModel \<Rightarrow> u32 list \<Rightarrow> 's" where
  "ctx_state md ctx = fst (md_forward md (md_zero md) [] ctx)"

definition ctx_rows :: "('s, 'k, 'h, 'q, 'p) ServingModel \<Rightarrow> u32 list \<Rightarrow> 'k list" where
  "ctx_rows md ctx = fst (snd (md_forward md (md_zero md) [] ctx))"

definition ctx_logits :: "('s, 'k, 'h, 'q, 'p) ServingModel \<Rightarrow> u32 list \<Rightarrow> 'h" where
  "ctx_logits md ctx = snd (snd (md_forward md (md_zero md) [] ctx))"

definition stop_now :: "BatcherConfig \<Rightarrow> u32 list \<Rightarrow> nat \<Rightarrow> nat \<Rightarrow> nat \<Rightarrow> u32 \<Rightarrow> bool" where
  "stop_now cf stops maxNew n feedPos t \<longleftrightarrow>
     (0 \<le> sint (cf_eosId cf) \<and> t = cf_eosId cf) \<or> t \<in> set stops \<or> n \<ge> maxNew \<or> feedPos + 1 \<ge> cf_maxContext cf"

function serve_gen ::
  "('s, 'k, 'h, 'q, 'p) ServingModel \<Rightarrow> BatcherConfig \<Rightarrow> u32 list \<Rightarrow> nat \<Rightarrow> nat \<Rightarrow> 'q \<Rightarrow> ThinkState \<Rightarrow> u32 list \<Rightarrow> u32 list" where
  "serve_gen md cf stops maxNew n q th ctx =
     (let (t0, q') = md_sample md q (ctx_logits md ctx);
          (t, th') = applyThinkBudget cf th t0
      in t # (if stop_now cf stops maxNew (Suc n) (length ctx) t then []
              else serve_gen md cf stops maxNew (Suc n) q' th' (ctx @ [t])))"
  by auto
termination
  by (relation "measure (\<lambda>(md, cf, stops, maxNew, n, q, th, ctx). cf_maxContext cf - length ctx)")
    (auto simp: stop_now_def)

declare serve_gen.simps [simp del]

definition noThink :: ThinkState where
  "noThink = \<lparr>th_open = False, th_reasoningTokens = 0, th_forcing = False, th_forceIdx = 0\<rparr>"

definition serve_alone :: "('s, 'k, 'h, 'q, 'p) ServingModel \<Rightarrow> BatcherConfig \<Rightarrow> 'p job \<Rightarrow> u32 list" where
  "serve_alone md cf j =
     (case j of (prompt, maxNew, stops, p) \<Rightarrow>
        serve_gen md cf stops maxNew 0 (md_slotSampling md p prompt) (initThinkState cf prompt noThink) prompt)"

section \<open>The thinking budget touches its own fields only\<close>

abbreviation think_of :: "Slot \<Rightarrow> ThinkState" where
  "think_of s \<equiv> ThinkState.truncate s"

lemma applyThink_slot:
  "applyThinkBudget cf s t = (t', s') \<Longrightarrow>
   applyThinkBudget cf (think_of s) t = (t', think_of s') \<and>
   s_occupied s' = s_occupied s \<and> s_req s' = s_req s \<and> s_prompt s' = s_prompt s \<and> s_promptLen s' = s_promptLen s \<and>
   s_pos s' = s_pos s \<and> s_lastTok s' = s_lastTok s \<and> s_maxNew s' = s_maxNew s \<and> s_produced s' = s_produced s \<and>
   s_stopIds s' = s_stopIds s \<and> s_prefillPos s' = s_prefillPos s \<and> s_resident s' = s_resident s \<and>
   s_residentTokens s' = s_residentTokens s \<and> s_prefillStart s' = s_prefillStart s \<and> s_xslotPayload s' = s_xslotPayload s"
  by (cases s) (auto simp: applyThinkBudget_def force_next_def Let_def ThinkState.truncate_def split: if_splits)

lemma initThink_slot: "think_of (initThinkState cf prompt s) = initThinkState cf prompt noThink"
  by (cases s) (auto simp: initThinkState_def noThink_def Let_def ThinkState.truncate_def split: prod.splits)

lemma think_of_updates [simp]:
  "think_of (s\<lparr>s_pos := a\<rparr>) = think_of s" "think_of (s\<lparr>s_lastTok := t\<rparr>) = think_of s"
  "think_of (s\<lparr>s_produced := a\<rparr>) = think_of s" "think_of (s\<lparr>s_prefillPos := a\<rparr>) = think_of s"
  "think_of (s\<lparr>s_residentTokens := ts\<rparr>) = think_of s"
  by (cases s; simp add: ThinkState.truncate_def)+

text \<open>One emitted token, in the reference and on a slot.\<close>

lemma serve_gen_emit:
  assumes "md_sample md q (ctx_logits md ctx) = (t0, q')" "applyThinkBudget cf s t0 = (t, s')"
    and "ref = toks @ serve_gen md cf stops maxNew (length toks) q (think_of s) ctx"
  shows "stop_now cf stops maxNew (Suc (length toks)) (length ctx) t \<Longrightarrow> ref = toks @ [t]"
    and "\<not> stop_now cf stops maxNew (Suc (length toks)) (length ctx) t \<Longrightarrow>
      ref = (toks @ [t]) @ serve_gen md cf stops maxNew (length (toks @ [t])) q' (think_of s') (ctx @ [t])"
  using assms applyThink_slot [OF assms(2)] by (simp_all add: serve_gen.simps [of _ _ _ _ "length toks"])

section \<open>The contents of a slot\<close>

type_synonym ('s, 'k, 'q) slot_view = "'s \<times> 'k list \<times> 'q"

definition eview :: "('s, 'k, 'q) ServingState \<Rightarrow> nat \<Rightarrow> ('s, 'k, 'q) slot_view" where
  "eview e i = (st_ssm e ! i, st_kv e ! i, st_slotSampling e ! i)"

definition content :: "('s, 'k, 'h, 'q, 'p) ServingModel \<Rightarrow> ('s, 'k, 'q) slot_view \<Rightarrow> u32 list \<Rightarrow> bool" where
  "content md v ctx \<longleftrightarrow>
     ctx \<noteq> [] \<longrightarrow> fst v = ctx_state md ctx \<and> take (length ctx) (fst (snd v)) = ctx_rows md ctx"

lemma content_Nil [simp]: "content md v []"
  by (simp add: content_def)

lemma content_sampling: "content md (s, kv, q) ctx \<Longrightarrow> content md (s, kv, q') ctx"
  by (simp add: content_def)

definition fwd_view ::
  "('s, 'k, 'h, 'q, 'p) ServingModel \<Rightarrow> nat \<Rightarrow> bool \<Rightarrow> u32 list \<Rightarrow> ('s, 'k, 'q) slot_view \<Rightarrow> 'h \<times> ('s, 'k, 'q) slot_view" where
  "fwd_view md start seqStart chunk v =
     (case v of (s, kv, q) \<Rightarrow>
        let (s', rows, h) = md_forward md (if seqStart then md_zero md else s) (take start kv) chunk
        in (h, s', write_rows start rows kv, q))"

lemma length_write_rows: "start + length rows \<le> length kv \<Longrightarrow> length (write_rows start rows kv) = length kv"
  by (simp add: write_rows_def)

lemma ctx_append:
  assumes "forward_ok md" "a \<noteq> []" "b \<noteq> []"
    and "md_forward md (ctx_state md a) (ctx_rows md a) b = (s, rows, h)"
  shows "ctx_state md (a @ b) = s" "ctx_rows md (a @ b) = ctx_rows md a @ rows" "ctx_logits md (a @ b) = h"
proof -
  obtain s1 r1 h1 where f: "md_forward md (md_zero md) [] a = (s1, r1, h1)" by (metis prod_cases3)
  have "md_forward md (md_zero md) [] (a @ b) = (s, r1 @ rows, h)"
    using assms f unfolding forward_ok_def ctx_state_def ctx_rows_def by (simp add: Let_def)
  then show "ctx_state md (a @ b) = s" "ctx_rows md (a @ b) = ctx_rows md a @ rows" "ctx_logits md (a @ b) = h"
    using f by (simp_all add: ctx_state_def ctx_rows_def ctx_logits_def)
qed

lemma length_ctx_rows: "forward_ok md \<Longrightarrow> length (ctx_rows md ctx) = length ctx"
  by (simp add: forward_ok_def ctx_rows_def)

lemma fwd_view_content:
  assumes ok: "forward_ok md" and c: "content md v ctx" and chunk: "chunk \<noteq> []"
    and cap: "length ctx + length chunk \<le> length (fst (snd v))"
    and run: "fwd_view md (length ctx) (ctx = []) chunk v = (h, v')"
  shows "h = ctx_logits md (ctx @ chunk)" "content md v' (ctx @ chunk)" "length (fst (snd v')) = length (fst (snd v))"
    "snd (snd v') = snd (snd v)"
proof -
  obtain s kv q where v: "v = (s, kv, q)" by (metis prod_cases3)
  obtain s' rows h' where f: "md_forward md (if ctx = [] then md_zero md else s) (take (length ctx) kv) chunk = (s', rows, h')"
    by (metis prod_cases3)
  have v': "v' = (s', write_rows (length ctx) rows kv, q)" and h: "h = h'"
    using run v f by (simp_all add: fwd_view_def Let_def)
  have len: "length rows = length chunk" using ok f unfolding forward_ok_def by (metis fst_conv snd_conv)
  show "length (fst (snd v')) = length (fst (snd v))" "snd (snd v') = snd (snd v)"
    using v v' len cap by (simp_all add: length_write_rows)
  have tk: "take (length ctx + length chunk) (write_rows (length ctx) rows kv) = take (length ctx) kv @ rows"
    using cap v len by (simp add: write_rows_def min_absorb2)
  have "h = ctx_logits md (ctx @ chunk) \<and> content md v' (ctx @ chunk)"
  proof (cases "ctx = []")
    case True
    then show ?thesis using f h v' tk by (simp add: content_def ctx_logits_def ctx_state_def ctx_rows_def)
  next
    case False
    then have "s = ctx_state md ctx" "take (length ctx) kv = ctx_rows md ctx" using c v by (simp_all add: content_def)
    with False f have "md_forward md (ctx_state md ctx) (ctx_rows md ctx) chunk = (s', rows, h')" by simp
    from ctx_append [OF ok False chunk this] show ?thesis
      using v' h tk \<open>take (length ctx) kv = ctx_rows md ctx\<close> by (simp add: content_def)
  qed
  then show "h = ctx_logits md (ctx @ chunk)" "content md v' (ctx @ chunk)" by simp_all
qed

section \<open>Geometry and frames of the session's operations\<close>

definition geometry :: "BatcherConfig \<Rightarrow> ('s, 'k, 'q) ServingState \<Rightarrow> bool" where
  "geometry cf e \<longleftrightarrow>
     length (st_ssm e) = cf_maxBatch cf \<and> length (st_kv e) = cf_maxBatch cf \<and> length (st_slotSampling e) = cf_maxBatch cf \<and>
     (\<forall>i < cf_maxBatch cf. cf_maxContext cf \<le> length (st_kv e ! i)) \<and>
     st_maxBatch e = cf_maxBatch cf \<and> st_maxContext e = cf_maxContext cf \<and> st_ckptRing e = []"

text \<open>The components of the session a forward leaves alone.\<close>

definition same_store :: "('s, 'k, 'q) ServingState \<Rightarrow> ('s, 'k, 'q) ServingState \<Rightarrow> bool" where
  "same_store e e' \<longleftrightarrow>
     st_maxBatch e' = st_maxBatch e \<and> st_maxContext e' = st_maxContext e \<and> st_ckptRing e' = st_ckptRing e \<and>
     st_xslot e' = st_xslot e \<and> st_prefixIndex e' = st_prefixIndex e \<and> st_prefixImages e' = st_prefixImages e \<and>
     length (st_ssm e') = length (st_ssm e) \<and> length (st_kv e') = length (st_kv e) \<and>
     length (st_slotSampling e') = length (st_slotSampling e)"

lemma same_store_refl [simp]: "same_store e e"
  and same_store_trans: "same_store a b \<Longrightarrow> same_store b c \<Longrightarrow> same_store a c"
  by (simp_all add: same_store_def)

lemma forward_slot_view:
  assumes "forward_slot md i start seqStart chunk e = (h, e')" "i < length (st_ssm e)" "i < length (st_kv e)"
  shows "fwd_view md start seqStart chunk (eview e i) = (h, eview e' i)"
    and "j \<noteq> i \<Longrightarrow> eview e' j = eview e j" and "same_store e e'"
  using assms by (auto simp: forward_slot_def fwd_view_def eview_def same_store_def Let_def split: prod.splits)

lemma sample_slot_view:
  assumes "sample_slot md i h e = (t, e')" "i < length (st_slotSampling e)"
  shows "md_sample md (snd (snd (eview e i))) h = (t, snd (snd (eview e' i)))"
    and "fst (eview e' j) = fst (eview e j)" "fst (snd (eview e' j)) = fst (snd (eview e j))"
    and "j \<noteq> i \<Longrightarrow> eview e' j = eview e j" and "same_store e e'"
  using assms by (auto simp: sample_slot_def eview_def same_store_def Let_def split: prod.splits)

lemma take_fault_view:
  assumes "take_fault e = (f, e')"
  shows "eview e' j = eview e j" "same_store e e'"
  using assms by (auto simp: take_fault_def eview_def same_store_def split: list.splits)

text \<open>The slots of one ragged forward do not interfere.\<close>

lemma forward_rows_view:
  assumes "forward_rows md rs e = (hs, e')" "distinct (map fst rs)"
    and "\<forall>r \<in> set rs. fst r < length (st_ssm e) \<and> fst r < length (st_kv e)"
  shows "length hs = length rs \<and> same_store e e' \<and> (\<forall>j. j \<notin> fst ` set rs \<longrightarrow> eview e' j = eview e j) \<and>
    (\<forall>k < length rs. case rs ! k of (i, start, seqStart, chunk) \<Rightarrow>
       fwd_view md start seqStart chunk (eview e i) = (hs ! k, eview e' i))"
  using assms
proof (induction md rs e arbitrary: hs e' rule: forward_rows.induct)
  case (2 md i start seqStart chunk rs e)
  obtain h e1 where f: "forward_slot md i start seqStart chunk e = (h, e1)" by fastforce
  obtain hs' e2 where g: "forward_rows md rs e1 = (hs', e2)" by fastforce
  have eq: "hs = h # hs'" "e' = e2" using 2(2) f g by simp_all
  have i: "i < length (st_ssm e)" "i < length (st_kv e)" "i \<notin> fst ` set rs" "distinct (map fst rs)"
    using 2(3,4) by auto
  note fs = forward_slot_view [OF f i(1,2)]
  have "\<forall>r \<in> set rs. fst r < length (st_ssm e1) \<and> fst r < length (st_kv e1)"
    using 2(4) fs(3) by (simp add: same_store_def)
  note IH = 2(1) [OF f [symmetric] refl g i(4) this]
  have "eview e2 i = eview e1 i" using IH i(3) by blast
  then have head: "fwd_view md start seqStart chunk (eview e i) = (h, eview e2 i)" using fs(1) by simp
  have tail: "case rs ! k of (i, start, seqStart, chunk) \<Rightarrow> fwd_view md start seqStart chunk (eview e i) = (hs' ! k, eview e2 i)"
    if "k < length rs" for k
  proof -
    have "fst (rs ! k) \<noteq> i" using that i(3) by (metis image_eqI nth_mem)
    then have "eview e1 (fst (rs ! k)) = eview e (fst (rs ! k))" using fs(2) by blast
    then show ?thesis using IH that by (auto split: prod.splits)
  qed
  have "(\<forall>k < length ((i, start, seqStart, chunk) # rs). case ((i, start, seqStart, chunk) # rs) ! k of (i, start, seqStart, chunk) \<Rightarrow>
      fwd_view md start seqStart chunk (eview e i) = (hs ! k, eview e' i))"
    using head tail eq by (auto simp: nth_Cons split: nat.splits)
  moreover have "eview e' j = eview e j" if "j \<notin> fst ` set ((i, start, seqStart, chunk) # rs)" for j
    using that IH fs(2) eq by auto
  ultimately show ?case using IH eq same_store_trans [OF fs(3)] by auto
qed simp

lemma sample_rows_view:
  assumes "sample_rows md rs e = (ts, e')" "distinct (map fst rs)"
    and "\<forall>r \<in> set rs. fst r < length (st_slotSampling e)"
  shows "length ts = length rs \<and> same_store e e' \<and> (\<forall>j. j \<notin> fst ` set rs \<longrightarrow> eview e' j = eview e j) \<and>
    (\<forall>j. fst (eview e' j) = fst (eview e j) \<and> fst (snd (eview e' j)) = fst (snd (eview e j))) \<and>
    (\<forall>k < length rs. case rs ! k of (i, h) \<Rightarrow> md_sample md (snd (snd (eview e i))) h = (ts ! k, snd (snd (eview e' i))))"
  using assms
proof (induction md rs e arbitrary: ts e' rule: sample_rows.induct)
  case (2 md i h rs e)
  obtain t e1 where f: "sample_slot md i h e = (t, e1)" by fastforce
  obtain ts' e2 where g: "sample_rows md rs e1 = (ts', e2)" by fastforce
  have eq: "ts = t # ts'" "e' = e2" using 2(2) f g by simp_all
  have i: "i < length (st_slotSampling e)" "i \<notin> fst ` set rs" "distinct (map fst rs)" using 2(3,4) by auto
  note fs = sample_slot_view [OF f i(1)]
  have "\<forall>r \<in> set rs. fst r < length (st_slotSampling e1)" using 2(4) fs(5) by (simp add: same_store_def)
  note IH = 2(1) [OF f [symmetric] refl g i(3) this]
  have "eview e2 i = eview e1 i" using IH i(2) by blast
  then have head: "md_sample md (snd (snd (eview e i))) h = (t, snd (snd (eview e2 i)))" using fs(1) by simp
  have tail: "case rs ! k of (i, h) \<Rightarrow> md_sample md (snd (snd (eview e i))) h = (ts' ! k, snd (snd (eview e2 i)))"
    if "k < length rs" for k
  proof -
    have "fst (rs ! k) \<noteq> i" using that i(2) by (metis image_eqI nth_mem)
    then have "eview e1 (fst (rs ! k)) = eview e (fst (rs ! k))" using fs(4) by blast
    then show ?thesis using IH that by (auto split: prod.splits)
  qed
  have "\<forall>k < length ((i, h) # rs). case ((i, h) # rs) ! k of (i, h) \<Rightarrow>
      md_sample md (snd (snd (eview e i))) h = (ts ! k, snd (snd (eview e' i)))"
    using head tail eq by (auto simp: nth_Cons split: nat.splits)
  moreover have "eview e' j = eview e j" if "j \<notin> fst ` set ((i, h) # rs)" for j
    using that IH fs(4) eq by auto
  ultimately show ?case using IH eq fs(2,3) same_store_trans [OF fs(5)] by auto
qed simp

end
