(* ===== verification/PrefixStore.thy ===== *)
theory PrefixStore
  imports BatcherRefinement
begin

text \<open>
  The cross-slot store of the serving session: every payload of the prefix index has an image, and
  the image holds the recurrent state and the KV rows of exactly the tokens the index files it under.
\<close>

definition image_of :: "('s, 'k, 'h, 'q, 'p) ServingModel \<Rightarrow> u32 list \<Rightarrow> ('s, 'k) PrefixImage" where
  "image_of md ts = \<lparr>im_pos = length ts, im_state = ctx_state md ts, im_kv = ctx_rows md ts\<rparr>"

definition store_ok :: "('s, 'k, 'h, 'q, 'p) ServingModel \<Rightarrow> ('s, 'k, 'q) ServingState \<Rightarrow> bool" where
  "store_ok md e \<longleftrightarrow>
     gdn_struct (st_prefixIndex e) \<and> map_of (gi_entries (st_prefixIndex e)) kNone = None \<and>
     (\<forall>pid. pid \<noteq> kNone \<longrightarrow>
        st_prefixImages e pid = map_option (\<lambda>en. image_of md (ge_tokens en)) (map_of (gi_entries (st_prefixIndex e)) pid))"

definition same_slots :: "('s, 'k, 'q) ServingState \<Rightarrow> ('s, 'k, 'q) ServingState \<Rightarrow> bool" where
  "same_slots e e' \<longleftrightarrow>
     st_maxBatch e' = st_maxBatch e \<and> st_maxContext e' = st_maxContext e \<and> st_ckptRing e' = st_ckptRing e \<and>
     st_ssm e' = st_ssm e \<and> st_kv e' = st_kv e \<and> st_slotSampling e' = st_slotSampling e"

lemma same_slots_refl [simp]: "same_slots e e"
  by (simp add: same_slots_def)

lemma same_slots_trans: "same_slots a b \<Longrightarrow> same_slots b c \<Longrightarrow> same_slots a c"
  by (simp add: same_slots_def)

lemma same_slots_view: "same_slots e e' \<Longrightarrow> eview e' j = eview e j"
  by (simp add: same_slots_def eview_def)

lemma same_slots_geometry: "same_slots e e' \<Longrightarrow> geometry cf e' = geometry cf e"
  by (simp add: same_slots_def geometry_def)

lemma same_store_ok: "same_store e e' \<Longrightarrow> store_ok md e' = store_ok md e"
  by (simp add: same_store_def store_ok_def)

lemma map_of_touch:
  "map_option ge_tokens (map_of (gi_entries (touch pid' g)) pid) = map_option ge_tokens (map_of (gi_entries g) pid)"
  using map_of_map_entries [of "\<lambda>k e. if k = pid' then e\<lparr>ge_lastUsed := gi_tick g + 1\<rparr> else e" "gi_entries g" pid]
  by (simp add: touch_def option.map_comp comp_def if_distrib cong: if_cong)

lemma map_of_map_entry:
  assumes "\<And>e. ge_tokens (f e) = ge_tokens e"
  shows "map_option ge_tokens (map_of (gi_entries (map_entry pid' f g)) pid) = map_option ge_tokens (map_of (gi_entries g) pid)"
  using map_of_map_entries [of "\<lambda>k e. if k = pid' then f e else e" "gi_entries g" pid] assms
  by (simp add: map_entry_def option.map_comp comp_def if_distrib cong: if_cong)

text \<open>A change of the index that keeps the tokens of every payload keeps the store.\<close>

lemma store_ok_index:
  assumes "store_ok md e" "gdn_struct g"
    and tok: "\<And>pid. map_option ge_tokens (map_of (gi_entries g) pid) = map_option ge_tokens (map_of (gi_entries (st_prefixIndex e)) pid)"
  shows "store_ok md (e\<lparr>st_prefixIndex := g\<rparr>)"
proof -
  have "map_option (\<lambda>en. image_of md (ge_tokens en)) (map_of (gi_entries g) pid)
      = map_option (\<lambda>en. image_of md (ge_tokens en)) (map_of (gi_entries (st_prefixIndex e)) pid)" for pid
    using arg_cong [OF tok [of pid], of "map_option (image_of md)"] by (simp add: option.map_comp comp_def)
  moreover have "map_of (gi_entries g) kNone = None" using assms(1) tok [of kNone] by (simp add: store_ok_def)
  ultimately show ?thesis using assms(1,2) by (simp add: store_ok_def)
qed

lemma store_ok_pins:
  assumes "store_ok md e"
  shows "store_ok md (acquirePrefixImage pid e)" "store_ok md (releasePrefixImage pid e)"
  using store_ok_index [OF assms gdn_struct_pin(1) [of _ pid]] store_ok_index [OF assms gdn_struct_pin(2) [of _ pid]] assms
  by (simp_all add: acquirePrefixImage_def releasePrefixImage_def gdn_acquire_def gdn_release_def map_of_map_entry store_ok_def)

lemma pins_same_slots [simp]:
  "same_slots e (acquirePrefixImage pid e)" "same_slots e (releasePrefixImage pid e)" "same_slots e (drainPrefixImageFrees e)"
  by (simp_all add: acquirePrefixImage_def releasePrefixImage_def drainPrefixImageFrees_def same_slots_def)

lemma store_ok_drain: "store_ok md e \<Longrightarrow> store_ok md (drainPrefixImageFrees e)"
  by (simp add: drainPrefixImageFrees_def store_ok_def)

text \<open>A lookup never fails, and what it finds is the image of a prefix of the prompt.\<close>

lemma lookupPrefixImage_spec:
  assumes ok: "store_ok md e" and run: "lookupPrefixImage prompt e = (r, e')"
  obtains hit where "r = Inr hit" "store_ok md e'" "same_slots e e'"
    "\<And>pos pid. hit = Some (pos, pid) \<Longrightarrow> pos \<le> length prompt \<and> st_xslot e' \<and> st_prefixImages e' pid = Some (image_of md (take pos prompt))"
proof (cases "st_xslot e")
  case False
  then show ?thesis using that [of None] run ok by (auto simp: lookupPrefixImage_def)
next
  case True
  let ?g = "st_prefixIndex e"
  have st: "gdn_struct ?g" using ok by (simp add: store_ok_def)
  from gdn_lookup_struct [OF st, of prompt] show ?thesis
  proof (elim disjE exE conjE)
    assume "gdn_lookup (Some prompt) ?g = Inr (noHit, ?g)"
    then show ?thesis using that [of None] run ok True by (auto simp: lookupPrefixImage_def noHit_def)
  next
    fix pos pid en
    assume l: "gdn_lookup (Some prompt) ?g = Inr (\<lparr>gh_found = True, gh_pos = pos, gh_payload = pid\<rparr>, touch pid ?g)"
      and en: "0 < pos" "pos \<le> length prompt" "map_of (gi_entries ?g) pid = Some en" "ge_tokens en = take pos prompt"
    let ?e = "e\<lparr>st_prefixIndex := touch pid ?g\<rparr>"
    have "store_ok md ?e" by (rule store_ok_index [OF ok gdn_struct_touch [OF st] map_of_touch])
    moreover have "pid \<noteq> kNone" using ok en(3) by (auto simp: store_ok_def)
    then have img: "st_prefixImages e pid = Some (image_of md (take pos prompt))"
      using ok en(3,4) by (auto simp: store_ok_def)
    moreover have "r = Inr (Some (pos, pid))" "e' = ?e"
      using run l True img by (auto simp: lookupPrefixImage_def)
    moreover have "same_slots e ?e" by (simp add: same_slots_def)
    ultimately show ?thesis using that [of "Some (pos, pid)"] en(2) True by auto
  qed
qed

lemma restorePrefixImage_spec:
  assumes "st_prefixImages e pid = Some (image_of md ts)" "st_xslot e" "i < length (st_ssm e)" "i < length (st_kv e)"
    and "forward_ok md" "length ts \<le> length (st_kv e ! i)"
  obtains e' where "restorePrefixImageToSlot i pid e = (True, e')" "same_store e e'" "content md (eview e' i) ts"
    "\<And>j. j \<noteq> i \<Longrightarrow> eview e' j = eview e j" "length (st_kv e' ! i) = length (st_kv e ! i)" "store_ok md e' = store_ok md e"
proof -
  let ?e = "e\<lparr>st_ssm := (st_ssm e)[i := ctx_state md ts], st_kv := (st_kv e)[i := write_rows 0 (ctx_rows md ts) (st_kv e ! i)]\<rparr>"
  have len: "length (ctx_rows md ts) = length ts" using assms(5) by (rule length_ctx_rows)
  have "restorePrefixImageToSlot i pid e = (True, ?e)"
    using assms(1,2) by (simp add: restorePrefixImageToSlot_def image_of_def)
  moreover have "content md (eview ?e i) ts"
    using assms(3,4) len by (simp add: content_def eview_def write_rows_def)
  moreover have "length (st_kv ?e ! i) = length (st_kv e ! i)"
    using assms(4,6) len by (simp add: length_write_rows)
  moreover have "same_store e ?e" by (simp add: same_store_def)
  ultimately show ?thesis using that [of ?e] same_store_ok [of e ?e] by (auto simp: eview_def)
qed

lemma evict_images_same: "same_slots e (evict_images pid es e)"
  by (induction pid es e rule: evict_images.induct) (auto simp: same_slots_def split: option.splits)

lemma evict_images_index: "st_prefixIndex (evict_images pid es e) = st_prefixIndex e"
  by (induction pid es e rule: evict_images.induct) (auto split: option.splits)

lemma evict_images_images: "st_prefixImages (evict_images pid es e) = st_prefixImages e |` (- (set es - {pid}))"
  by (induction pid es e rule: evict_images.induct) (auto simp: restrict_map_def fun_eq_iff split: option.splits)

text \<open>Publishing the prefix a slot holds never fails and keeps the store, whatever it evicts.\<close>

lemma snapshot_spec:
  assumes ok: "store_ok md e" and c: "content md (eview e slot) (take pos prompt)" and pos: "pos \<le> length prompt"
    and run: "snapshotSlotToPrefixImage slot pos prompt e = (r, e')"
  obtains v where "r = Inr v" "store_ok md e'" "same_slots e e'"
proof (cases "\<not> st_xslot e \<or> pos = 0 \<or> pos mod gi_blockSize (st_prefixIndex e) \<noteq> 0 \<or> pos > st_maxContext e")
  case True
  then have "r = Inr kNone" "e' = e" using run by (auto simp: snapshotSlotToPrefixImage_def split: if_splits)
  then show ?thesis using that ok by simp
next
  case False
  let ?g = "st_prefixIndex e" and ?pid = "st_nextPayloadId e" and ?ts = "take pos prompt"
  let ?img = "\<lparr>im_pos = pos, im_state = st_ssm e ! slot, im_kv = take pos (st_kv e ! slot)\<rparr>"
  let ?e1 = "e\<lparr>st_nextPayloadId := ?pid + 1\<rparr>"
  have "?ts \<noteq> []" using False pos by auto
  then have img: "?img = image_of md ?ts" using c pos by (simp add: content_def eview_def image_of_def)
  have st: "gdn_struct ?g" using ok by (simp add: store_ok_def)
  have ok1: "store_ok md ?e1" using ok by (simp add: store_ok_def)
  have run2: "gdn_insert (Some prompt) pos ?pid [] ?g = Inr (g, ev) \<Longrightarrow>
      r = Inr (if ?pid \<in> set ev then kNone else ?pid) \<and>
      (let e2 = evict_images ?pid ev (?e1\<lparr>st_prefixIndex := g\<rparr>)
       in e' = (if ?pid \<in> set ev then e2\<lparr>st_pendingFree := st_pendingFree e2 @ [?img]\<rparr>
                else if st_prefixImages e2 ?pid = None then e2\<lparr>st_prefixImages := (st_prefixImages e2)(?pid \<mapsto> ?img)\<rparr> else e2))" for g ev
    using run False by (auto simp: snapshotSlotToPrefixImage_def Let_def split: if_splits)
  have same: "same_slots e (evict_images ?pid ev (?e1\<lparr>st_prefixIndex := g\<rparr>))" for ev g
    using evict_images_same [of "?e1\<lparr>st_prefixIndex := g\<rparr>" ?pid ev] by (simp add: same_slots_def)
  show ?thesis
  proof (cases "?pid = kNone \<or> map_of (gi_entries ?g) ?pid \<noteq> None")
    case True
    then have "gdn_insert (Some prompt) pos ?pid [] ?g = Inr (?g, [])" by (simp add: gdn_insert_def)
    from run2 [OF this] have r: "r = Inr ?pid"
      and e': "e' = (if st_prefixImages e ?pid = None then ?e1\<lparr>st_prefixImages := (st_prefixImages e)(?pid \<mapsto> ?img)\<rparr> else ?e1)"
      by (auto simp: Let_def)
    have "st_prefixImages e ?pid \<noteq> None \<or> ?pid = kNone" using True ok by (auto simp: store_ok_def)
    then have "store_ok md e'" using ok1 e' by (auto simp: store_ok_def)
    moreover have "same_slots e e'" using e' by (simp add: same_slots_def)
    ultimately show ?thesis using that r by blast
  next
    case new: False
    then have n: "?pid \<noteq> kNone" "map_of (gi_entries ?g) ?pid = None" by auto
    have v: "0 < pos" "pos mod gi_blockSize ?g = 0" using False by auto
    from gdn_insert_struct [OF st v n, of prompt "[]"] show ?thesis
    proof (elim disjE exE conjE)
      fix pid
      assume ins: "gdn_insert (Some prompt) pos ?pid [] ?g = Inr (touch pid ?g, [] @ [?pid])"
      have e2: "evict_images ?pid [?pid] (?e1\<lparr>st_prefixIndex := touch pid ?g\<rparr>) = ?e1\<lparr>st_prefixIndex := touch pid ?g\<rparr>" by simp
      have "store_ok md (?e1\<lparr>st_prefixIndex := touch pid ?g\<rparr>)"
        by (rule store_ok_index [OF ok1 gdn_struct_touch [OF st]]) (simp add: map_of_touch)
      then show ?thesis using that [of kNone] run2 [OF ins] same [of "[?pid]" "touch pid ?g"]
        by (simp add: Let_def store_ok_def same_slots_def)
    next
      fix vs g'
      assume ins: "gdn_insert (Some prompt) pos ?pid [] ?g = Inr (g', [] @ vs)" and g': "gdn_struct g'"
        and m: "map_of (gi_entries g') = map_of (gi_entries (add_entry ?pid ?ts ?g)) |` (- set vs)" and k: "kNone \<notin> set vs"
      let ?e2 = "evict_images ?pid vs (?e1\<lparr>st_prefixIndex := g'\<rparr>)"
      have im: "st_prefixImages ?e2 = st_prefixImages e |` (- (set vs - {?pid}))" by (simp add: evict_images_images)
      have old: "st_prefixImages e ?pid = None" using ok n by (simp add: store_ok_def)
      have sl: "same_slots e ?e2" by (rule same)
      have mo: "map_of (gi_entries g') q = (if q \<in> set vs then None else
          if q = ?pid then Some \<lparr>ge_tokens = ?ts, ge_payload = ?pid, ge_refcount = 0, ge_lastUsed = gi_tick ?g + 1\<rparr>
          else map_of (gi_entries ?g) q)" for q
        unfolding m map_of_add_entry [OF n(2)] by (simp add: restrict_map_def)
      have imq: "st_prefixImages e q = map_option (\<lambda>en. image_of md (ge_tokens en)) (map_of (gi_entries ?g) q)" if "q \<noteq> kNone" for q
        using ok that by (simp add: store_ok_def)
      have base: "gdn_struct (st_prefixIndex ?e2)" "map_of (gi_entries (st_prefixIndex ?e2)) kNone = None"
        using g' mo [of kNone] n(1) ok by (auto simp: evict_images_index store_ok_def)
      show ?thesis
      proof (cases "?pid \<in> set vs")
        case True
        let ?f = "?e2\<lparr>st_pendingFree := st_pendingFree ?e2 @ [?img]\<rparr>"
        have e': "r = Inr kNone" "e' = ?f" using run2 [OF ins] True by (simp_all add: Let_def)
        have "st_prefixImages ?e2 q = map_option (\<lambda>en. image_of md (ge_tokens en)) (map_of (gi_entries g') q)" if "q \<noteq> kNone" for q
          using imq [OF that] mo [of q] True old by (auto simp: im restrict_map_def)
        then have "store_ok md ?f" using base by (simp add: store_ok_def evict_images_index)
        moreover have "same_slots e ?f" using sl by (simp add: same_slots_def)
        ultimately show ?thesis using that e' by blast
      next
        case False
        let ?f = "?e2\<lparr>st_prefixImages := (st_prefixImages ?e2)(?pid \<mapsto> ?img)\<rparr>"
        have "st_prefixImages ?e2 ?pid = None" using old by (simp add: im restrict_map_def)
        then have e': "r = Inr ?pid" "e' = ?f" using run2 [OF ins] False by (simp_all add: Let_def)
        have "st_prefixImages ?f q = map_option (\<lambda>en. image_of md (ge_tokens en)) (map_of (gi_entries g') q)" if "q \<noteq> kNone" for q
          using imq [OF that] mo [of q] False img by (auto simp: im restrict_map_def)
        then have "store_ok md ?f" using base by (simp add: store_ok_def evict_images_index)
        moreover have "same_slots e ?f" using sl by (simp add: same_slots_def)
        ultimately show ?thesis using that e' by blast
      qed
    qed
  qed
qed

end
