(* ===== verification/BatcherInvariant.thy ===== *)
theory BatcherInvariant
  imports PrefixStore "HOL-Library.Sublist"
begin

text \<open>
  The invariant of the continuous batcher without warm slots: every occupied slot is either
  ingesting its prompt or decoding, its recurrent state and KV rows are those of the tokens fed so
  far, and the tokens delivered so far are a prefix of what serving the request alone gives.
\<close>

section \<open>Slots and requests\<close>

definition pure_sampler :: "('s, 'k, 'h, 'q, 'p) ServingModel \<Rightarrow> bool" where
  "pure_sampler md \<longleftrightarrow> (\<forall>q h. snd (md_sample md q h) = q)"

definition cfg_ok :: "BatcherConfig \<Rightarrow> bool" where
  "cfg_ok cf \<longleftrightarrow> \<not> cf_warmSlot cf \<and> (cf_xslot cf \<longrightarrow> cf_prefillChunk cf > 0) \<and> (cf_mixedStep cf \<longrightarrow> cf_prefillChunk cf > 0)"

text \<open>
  Where the samples of unfinished prompts are drawn and thrown away, the sampler must not keep state:
  in the mixed step and in token-by-token ingestion.
\<close>

definition sampler_ok :: "('s, 'k, 'h, 'q, 'p) ServingModel \<Rightarrow> BatcherConfig \<Rightarrow> bool" where
  "sampler_ok md cf \<longleftrightarrow> (cf_mixedStep cf \<or> cf_prefillChunk cf = 0 \<longrightarrow> pure_sampler md)"

definition job_slot :: "BatcherConfig \<Rightarrow> 'p job list \<Rightarrow> Slot \<Rightarrow> bool" where
  "job_slot cf js s \<longleftrightarrow>
     (case js ! the (s_req s) of (prompt, maxNew, stops, p) \<Rightarrow>
        s_prompt s = prompt \<and> s_promptLen s = length prompt \<and> s_maxNew s = maxNew \<and> s_stopIds s = stops \<and>
        prompt \<noteq> [] \<and> length prompt < cf_maxContext cf)"

definition ingesting ::
  "('s, 'k, 'h, 'q, 'p) ServingModel \<Rightarrow> BatcherConfig \<Rightarrow> 'p job \<Rightarrow> bool \<Rightarrow> Slot \<Rightarrow> ('s, 'k, 'q) slot_view \<Rightarrow> ServingRequest \<Rightarrow> nat \<Rightarrow> bool" where
  "ingesting md cf j eager s v rq n \<longleftrightarrow>
     (case j of (prompt, maxNew, stops, p) \<Rightarrow>
        s_produced s = 0 \<and> sr_tokens rq = [] \<and> think_of s = initThinkState cf prompt noThink \<and>
        snd (snd v) = md_slotSampling md p prompt \<and> n < length prompt \<and> content md v (take n prompt)) \<and>
     s_pos s = (if cf_prefillChunk cf > 0 then 0 else n) \<and>
     (if eager then s_prefillStart s = n \<and> cf_prefillChunk cf > 0 \<and> s_prefillPos s = 0
      else cf_prefillChunk cf > 0 \<longrightarrow> cf_mixedStep cf \<and> s_prefillPos s = n)"

definition decoding ::
  "('s, 'k, 'h, 'q, 'p) ServingModel \<Rightarrow> BatcherConfig \<Rightarrow> 'p job \<Rightarrow> Slot \<Rightarrow> ('s, 'k, 'q) slot_view \<Rightarrow> ServingRequest \<Rightarrow> bool" where
  "decoding md cf j s v rq \<longleftrightarrow>
     (case j of (prompt, maxNew, stops, p) \<Rightarrow>
        sr_tokens rq \<noteq> [] \<and> s_produced s = length (sr_tokens rq) \<and> s_lastTok s = last (sr_tokens rq) \<and>
        Suc (s_pos s) = length prompt + length (sr_tokens rq) \<and> Suc (s_pos s) < cf_maxContext cf \<and>
        content md v (prompt @ butlast (sr_tokens rq)) \<and> (cf_mixedStep cf \<longrightarrow> s_prefillPos s = length prompt) \<and>
        serve_alone md cf j = sr_tokens rq @
          serve_gen md cf stops maxNew (length (sr_tokens rq)) (snd (snd v)) (think_of s) (prompt @ sr_tokens rq))"

definition slot_ok ::
  "('s, 'k, 'h, 'q, 'p) ServingModel \<Rightarrow> BatcherConfig \<Rightarrow> 'p job list \<Rightarrow> bool \<Rightarrow> Slot \<Rightarrow> ('s, 'k, 'q) slot_view \<Rightarrow> ServingRequest \<Rightarrow> bool" where
  "slot_ok md cf js eager s v rq \<longleftrightarrow>
     s_occupied s \<longrightarrow> job_slot cf js s \<and> \<not> sr_done rq \<and>
       (if eager then \<exists>n. ingesting md cf (js ! the (s_req s)) True s v rq n
        else (\<exists>n. ingesting md cf (js ! the (s_req s)) False s v rq n) \<or> decoding md cf (js ! the (s_req s)) s v rq)"

definition req_ok :: "('s, 'k, 'h, 'q, 'p) ServingModel \<Rightarrow> BatcherConfig \<Rightarrow> 'p job \<Rightarrow> ServingRequest \<Rightarrow> bool" where
  "req_ok md cf j rq \<longleftrightarrow>
     prefix (sr_tokens rq) (serve_alone md cf j) \<and>
     (sr_done rq \<and> \<not> sr_cancelled rq \<and> sr_error rq = [] \<longrightarrow> sr_tokens rq = serve_alone md cf j)"

definition waiting_ok :: "BatcherConfig \<Rightarrow> 'p job list \<Rightarrow> ServingRequest list \<Rightarrow> 'p Pending \<Rightarrow> bool" where
  "waiting_ok cf js rqs p \<longleftrightarrow>
     pd_req p < length js \<and> js ! pd_req p = (pd_prompt p, pd_maxNew p, pd_stopIds p, pd_sampling p) \<and>
     pd_prompt p \<noteq> [] \<and> length (pd_prompt p) < cf_maxContext cf \<and>
     \<not> sr_done (rqs ! pd_req p) \<and> sr_tokens (rqs ! pd_req p) = []"

text \<open>
  The invariant with the queue \<open>W\<close>, the slots \<open>tp\<close> still to be prefilled eagerly, and a predicate on
  every slot: between the sections it is \<open>slot_ok\<close>, inside a loop over the slots it changes slot by
  slot.
\<close>

definition placed :: "'p Pending list \<Rightarrow> Slot list \<Rightarrow> nat \<Rightarrow> nat \<Rightarrow> bool" where
  "placed W slots n r \<longleftrightarrow> r \<in> pd_req ` set W \<or> (\<exists>i < n. s_occupied (slots ! i) \<and> s_req (slots ! i) = Some r)"

lemma homes_mono:
  assumes "placed W slots n r" "pd_req ` set W - {r'} \<subseteq> pd_req ` set W'" "r \<noteq> r'"
    "\<And>i. i < n \<Longrightarrow> s_occupied (slots ! i) \<Longrightarrow> s_req (slots ! i) = Some r \<Longrightarrow> s_occupied (slots' ! i) \<and> s_req (slots' ! i) = Some r"
  shows "placed W' slots' n r"
  using assms unfolding placed_def by blast

type_synonym ('s, 'k, 'q) slot_pred = "nat \<Rightarrow> Slot \<Rightarrow> ('s, 'k, 'q) slot_view \<Rightarrow> ServingRequest \<Rightarrow> bool"

definition core ::
  "('s, 'k, 'h, 'q, 'p) ServingModel \<Rightarrow> BatcherConfig \<Rightarrow> 'p job list \<Rightarrow> 'p Pending list \<Rightarrow> nat list \<Rightarrow> ('s, 'k, 'q) slot_pred \<Rightarrow>
   ('s, 'k, 'q, 'p) batcher \<Rightarrow> bool" where
  "core md cf js W tp Q b \<longleftrightarrow>
     (cb_cfg b = cf \<and> length (cb_slots b) = cf_maxBatch cf \<and> geometry cf (cb_engine b) \<and> store_ok md (cb_engine b) \<and>
      length (cb_requests b) = length js) \<and>
     (\<forall>r < length js. req_ok md cf (js ! r) (cb_requests b ! r)) \<and>
     (\<forall>p \<in> set W. waiting_ok cf js (cb_requests b) p) \<and> distinct (map pd_req W) \<and>
     (\<forall>i < cf_maxBatch cf. s_occupied (cb_slots b ! i) \<longrightarrow>
        (\<exists>r. s_req (cb_slots b ! i) = Some r \<and> r < length js \<and> r \<notin> pd_req ` set W \<and>
           (\<forall>j < cf_maxBatch cf. j \<noteq> i \<and> s_occupied (cb_slots b ! j) \<longrightarrow> s_req (cb_slots b ! j) \<noteq> Some r))) \<and>
     distinct tp \<and> (\<forall>i \<in> set tp. i < cf_maxBatch cf \<and> s_occupied (cb_slots b ! i)) \<and>
     (\<forall>i < cf_maxBatch cf. Q i (cb_slots b ! i) (eview (cb_engine b) i) (cb_requests b ! the (s_req (cb_slots b ! i)))) \<and>
     (\<forall>r < length js. \<not> sr_done (cb_requests b ! r) \<longrightarrow> placed W (cb_slots b) (cf_maxBatch cf) r)"

lemma coreD:
  assumes "core md cf js W tp Q b"
  shows "cb_cfg b = cf" "length (cb_slots b) = cf_maxBatch cf" "geometry cf (cb_engine b)" "store_ok md (cb_engine b)"
    "length (cb_requests b) = length js" "\<And>r. r < length js \<Longrightarrow> req_ok md cf (js ! r) (cb_requests b ! r)"
    "\<And>p. p \<in> set W \<Longrightarrow> waiting_ok cf js (cb_requests b) p" "distinct (map pd_req W)"
    "distinct tp" "\<And>i. i \<in> set tp \<Longrightarrow> i < cf_maxBatch cf \<and> s_occupied (cb_slots b ! i)"
    "\<And>i. i < cf_maxBatch cf \<Longrightarrow> Q i (cb_slots b ! i) (eview (cb_engine b) i) (cb_requests b ! the (s_req (cb_slots b ! i)))"
    "\<And>r. r < length js \<Longrightarrow> \<not> sr_done (cb_requests b ! r) \<Longrightarrow> placed W (cb_slots b) (cf_maxBatch cf) r"
  using assms by (simp_all add: core_def)

lemma core_slotD:
  assumes "core md cf js W tp Q b" "i < cf_maxBatch cf" "s_occupied (cb_slots b ! i)"
  obtains r where "s_req (cb_slots b ! i) = Some r" "r < length js" "r \<notin> pd_req ` set W"
    "\<And>j. j < cf_maxBatch cf \<Longrightarrow> j \<noteq> i \<Longrightarrow> s_occupied (cb_slots b ! j) \<Longrightarrow> s_req (cb_slots b ! j) \<noteq> Some r"
  using assms by (auto simp: core_def)

lemma core_slot_req:
  assumes "core md cf js W tp Q b" "i < cf_maxBatch cf" "s_occupied (cb_slots b ! i)"
  shows "\<exists>r. s_req (cb_slots b ! i) = Some r \<and> r < length js \<and> r \<notin> pd_req ` set W"
  using assms by (auto simp: core_def)

text \<open>A change of the engine that keeps the slots.\<close>

lemma core_engine:
  assumes "core md cf js W tp Q b" "geometry cf e" "store_ok md e" "\<And>i. i < cf_maxBatch cf \<Longrightarrow> eview e i = eview (cb_engine b) i"
  shows "core md cf js W tp Q (b\<lparr>cb_engine := e\<rparr>)"
  using assms unfolding core_def by simp

lemma core_same_slots:
  assumes "core md cf js W tp Q b" "same_slots (cb_engine b) e" "store_ok md e"
  shows "core md cf js W tp Q (b\<lparr>cb_engine := e\<rparr>)"
  using core_engine [OF assms(1) _ assms(3)] coreD(3) [OF assms(1)] assms(2)
  by (simp add: same_slots_geometry same_slots_view)

lemma core_weaken:
  assumes "core md cf js W tp Q b"
    "\<And>i s v rq. i < cf_maxBatch cf \<Longrightarrow> s = cb_slots b ! i \<Longrightarrow> Q i s v rq \<Longrightarrow> Q' i s v rq"
  shows "core md cf js W tp Q' b"
  using assms unfolding core_def by simp

text \<open>The worker changes one occupied slot, its request and the engine.\<close>

lemma core_update:
  assumes core: "core md cf js W tp Q b" and i: "i < cf_maxBatch cf" "s_occupied (cb_slots b ! i)" and r: "s_req (cb_slots b ! i) = Some r"
    and b': "cb_cfg b' = cf" "cb_slots b' = (cb_slots b)[i := s']" "cb_requests b' = (cb_requests b)[r := q']"
    and s': "s_occupied s' \<Longrightarrow> s_req s' = Some r"
    and e': "geometry cf (cb_engine b')" "store_ok md (cb_engine b')"
      "\<And>j. j < cf_maxBatch cf \<Longrightarrow> j \<noteq> i \<Longrightarrow> eview (cb_engine b') j = eview (cb_engine b) j"
    and q': "req_ok md cf (js ! r) q'" "s_occupied s' \<or> sr_done q'"
    and Q': "s_req s' = Some r \<Longrightarrow> Q' i s' (eview (cb_engine b') i) q'"
      "\<not> s_occupied s' \<Longrightarrow> (\<And>v rq. Q' i s' v rq)"
      "\<And>j s v rq. j < cf_maxBatch cf \<Longrightarrow> j \<noteq> i \<Longrightarrow> Q j s v rq \<Longrightarrow> Q' j s v rq"
    and empty: "\<And>j s v rq rq'. Q' j s v rq \<Longrightarrow> \<not> s_occupied s \<Longrightarrow> Q' j s v rq'"
    and tp': "distinct tp'" "set tp' \<subseteq> set tp" "i \<in> set tp' \<Longrightarrow> s_occupied s'"
  shows "core md cf js W tp' Q' b'"
proof -
  note D = coreD [OF core]
  obtain r0 where r0: "s_req (cb_slots b ! i) = Some r0" "r0 < length js" "r0 \<notin> pd_req ` set W"
    "\<And>j. j < cf_maxBatch cf \<Longrightarrow> j \<noteq> i \<Longrightarrow> s_occupied (cb_slots b ! j) \<Longrightarrow> s_req (cb_slots b ! j) \<noteq> Some r0"
    using core_slotD [OF core i] by blast
  have rr: "r < length js" "r \<notin> pd_req ` set W"
    and other: "\<And>j. j < cf_maxBatch cf \<Longrightarrow> j \<noteq> i \<Longrightarrow> s_occupied (cb_slots b ! j) \<Longrightarrow> s_req (cb_slots b ! j) \<noteq> Some r"
    using r0 r by auto
  have sl: "cb_slots b' ! j = (if j = i then s' else cb_slots b ! j)" if "j < cf_maxBatch cf" for j
    using that D(2) b'(2) by simp
  have rq: "cb_requests b' ! r' = (if r' = r then q' else cb_requests b ! r')" if "r' < length js" for r'
    using that D(5) b'(3) by simp
  have "req_ok md cf (js ! r') (cb_requests b' ! r')" if "r' < length js" for r'
    using D(6) [OF that] q'(1) rq [OF that] by simp
  moreover have "waiting_ok cf js (cb_requests b') p" if "p \<in> set W" for p
  proof -
    have "pd_req p \<noteq> r" "pd_req p < length js" using that rr(2) D(7) [OF that] by (auto simp: waiting_ok_def)
    then show ?thesis using D(7) [OF that] rq by (simp add: waiting_ok_def)
  qed
  moreover have "\<exists>r. s_req (cb_slots b' ! k) = Some r \<and> r < length js \<and> r \<notin> pd_req ` set W \<and>
        (\<forall>j < cf_maxBatch cf. j \<noteq> k \<and> s_occupied (cb_slots b' ! j) \<longrightarrow> s_req (cb_slots b' ! j) \<noteq> Some r)"
    if k: "k < cf_maxBatch cf" "s_occupied (cb_slots b' ! k)" for k
  proof (cases "k = i")
    case True
    then show ?thesis using k sl s' rr other by auto
  next
    case False
    have ok: "s_occupied (cb_slots b ! k)" using k sl False by simp
    obtain rk where rk: "s_req (cb_slots b ! k) = Some rk" "rk < length js" "rk \<notin> pd_req ` set W"
      "\<And>j. j < cf_maxBatch cf \<Longrightarrow> j \<noteq> k \<Longrightarrow> s_occupied (cb_slots b ! j) \<Longrightarrow> s_req (cb_slots b ! j) \<noteq> Some rk"
      using core_slotD [OF core k(1) ok] by blast
    have "rk \<noteq> r" using other [OF k(1) False ok] rk(1) by simp
    then have "s_req (cb_slots b' ! j) \<noteq> Some rk" if "j < cf_maxBatch cf" "j \<noteq> k" "s_occupied (cb_slots b' ! j)" for j
      using that sl s' rk(4) by (cases "j = i") auto
    then show ?thesis using rk(1-3) k(1) sl False by auto
  qed
  moreover have "j < cf_maxBatch cf \<and> s_occupied (cb_slots b' ! j)" if "j \<in> set tp'" for j
    using that tp'(2,3) D(10) sl by (cases "j = i") auto
  moreover have "Q' j (cb_slots b' ! j) (eview (cb_engine b') j) (cb_requests b' ! the (s_req (cb_slots b' ! j)))"
    if j: "j < cf_maxBatch cf" for j
  proof (cases "j = i")
    case True
    then show ?thesis
      using sl [OF j] Q'(1,2) s' rr(1) rq by (cases "s_occupied s'") auto
  next
    case False
    have old: "Q' j (cb_slots b ! j) (eview (cb_engine b) j) (cb_requests b ! the (s_req (cb_slots b ! j)))"
      using Q'(3) [OF j False D(11) [OF j]] .
    show ?thesis
    proof (cases "s_occupied (cb_slots b ! j)")
      case True
      obtain rj where "s_req (cb_slots b ! j) = Some rj" "rj < length js" using core_slot_req [OF core j True] by blast
      moreover have "rj \<noteq> r" using other [OF j False True] calculation by simp
      ultimately show ?thesis using old False sl [OF j] e'(3) [OF j False] rq by simp
    next
      case unocc: False
      from old have "Q' j (cb_slots b ! j) (eview (cb_engine b) j) (cb_requests b' ! the (s_req (cb_slots b ! j)))"
        using unocc by (rule empty)
      then show ?thesis using sl [OF j] False e'(3) [OF j False] by simp
    qed
  qed
  moreover have "placed W (cb_slots b') (cf_maxBatch cf) k" if k: "k < length js" "\<not> sr_done (cb_requests b' ! k)" for k
  proof (cases "k = r")
    case True
    then have "s_occupied s'" using k rq q'(2) by auto
    then show ?thesis using True s' sl [OF i(1)] i(1) by (auto simp: placed_def)
  next
    case False
    then have "placed W (cb_slots b) (cf_maxBatch cf) k" using D(12) k rq by simp
    then show ?thesis by (rule homes_mono [OF _ _ False]) (use False r sl in auto)
  qed
  ultimately show ?thesis
    unfolding core_def using b' e'(1,2) D(2,5,8) tp'(1) by simp
qed

text \<open>Admission: a free slot takes a waiting request.\<close>

lemma core_place:
  assumes core: "core md cf js (pre @ p # ps) tp Q b" and i: "i < cf_maxBatch cf" "\<not> s_occupied (cb_slots b ! i)"
    and b': "cb_cfg b' = cf" "cb_slots b' = (cb_slots b)[i := s']" "cb_requests b' = cb_requests b"
    and s': "s_occupied s'" "s_req s' = Some (pd_req p)"
    and e': "geometry cf (cb_engine b')" "store_ok md (cb_engine b')"
      "\<And>j. j < cf_maxBatch cf \<Longrightarrow> j \<noteq> i \<Longrightarrow> eview (cb_engine b') j = eview (cb_engine b) j"
    and Q': "Q' i s' (eview (cb_engine b') i) (cb_requests b ! pd_req p)"
      "\<And>j s v rq. j < cf_maxBatch cf \<Longrightarrow> j \<noteq> i \<Longrightarrow> Q j s v rq \<Longrightarrow> Q' j s v rq"
    and tp': "tp' = tp \<or> tp' = tp @ [i]"
  shows "core md cf js (pre @ ps) tp' Q' b'"
proof -
  note D = coreD [OF core]
  have p: "p \<in> set (pre @ p # ps)" by simp
  have w: "waiting_ok cf js (cb_requests b) p" by (rule D(7) [OF p])
  have sl: "cb_slots b' ! j = (if j = i then s' else cb_slots b ! j)" if "j < cf_maxBatch cf" for j
    using that D(2) b'(2) by simp
  have new: "pd_req p \<notin> pd_req ` set (pre @ ps)" using D(8) by auto
  have held: "s_req (cb_slots b ! j) \<noteq> Some (pd_req p)" if j: "j < cf_maxBatch cf" "s_occupied (cb_slots b ! j)" for j
  proof -
    obtain rj where "s_req (cb_slots b ! j) = Some rj" "rj \<notin> pd_req ` set (pre @ p # ps)"
      using core_slot_req [OF core j] by blast
    then show ?thesis by auto
  qed
  have "\<exists>r. s_req (cb_slots b' ! k) = Some r \<and> r < length js \<and> r \<notin> pd_req ` set (pre @ ps) \<and>
        (\<forall>j < cf_maxBatch cf. j \<noteq> k \<and> s_occupied (cb_slots b' ! j) \<longrightarrow> s_req (cb_slots b' ! j) \<noteq> Some r)"
    if k: "k < cf_maxBatch cf" "s_occupied (cb_slots b' ! k)" for k
  proof (cases "k = i")
    case True
    then show ?thesis using k sl s' w new held by (auto simp: waiting_ok_def)
  next
    case False
    then have ok: "s_occupied (cb_slots b ! k)" using k sl by simp
    obtain rk where rk: "s_req (cb_slots b ! k) = Some rk" "rk < length js" "rk \<notin> pd_req ` set (pre @ p # ps)"
      "\<And>j. j < cf_maxBatch cf \<Longrightarrow> j \<noteq> k \<Longrightarrow> s_occupied (cb_slots b ! j) \<Longrightarrow> s_req (cb_slots b ! j) \<noteq> Some rk"
      using core_slotD [OF core k(1) ok] by blast
    have "s_req (cb_slots b' ! j) \<noteq> Some rk" if "j < cf_maxBatch cf" "j \<noteq> k" "s_occupied (cb_slots b' ! j)" for j
      using that sl s' rk(3,4) by (cases "j = i") auto
    then show ?thesis using rk(1-3) k(1) sl False by auto
  qed
  moreover have "Q' j (cb_slots b' ! j) (eview (cb_engine b') j) (cb_requests b' ! the (s_req (cb_slots b' ! j)))"
    if j: "j < cf_maxBatch cf" for j
    using D(11) [OF j] Q' sl [OF j] e'(3) [OF j] b'(3) s'(2) j by (cases "j = i") simp_all
  moreover have "j < cf_maxBatch cf \<and> s_occupied (cb_slots b' ! j)" if "j \<in> set tp'" for j
    using that tp' D(10) sl s'(1) i(1) by (cases "j = i") auto
  moreover have "distinct tp'" using tp' D(9,10) i(2) by auto
  moreover have "waiting_ok cf js (cb_requests b') q" if "q \<in> set (pre @ ps)" for q using D(7) [of q] that b'(3) by auto
  moreover have "distinct (map pd_req (pre @ ps))" using D(8) by auto
  moreover have "placed (pre @ ps) (cb_slots b') (cf_maxBatch cf) k" if k: "k < length js" "\<not> sr_done (cb_requests b' ! k)" for k
  proof (cases "k = pd_req p")
    case True
    then show ?thesis using s' sl [OF i(1)] i(1) by (auto simp: placed_def)
  next
    case False
    then have "placed (pre @ p # ps) (cb_slots b) (cf_maxBatch cf) k" using D(12) k b'(3) by simp
    then show ?thesis by (rule homes_mono [OF _ _ False]) (use i(2) sl in auto)
  qed
  ultimately show ?thesis
    unfolding core_def using b' e'(1,2) D(2,5,6) by simp
qed

end
