(* ===== verification/BatcherAdmission.thy ===== *)
theory BatcherAdmission
  imports BatcherInvariant
begin

text \<open>
  Submission, cancellation and the admission section keep the invariant of the batcher, and the
  admission section never throws.
\<close>

abbreviation Qok ::
  "('s, 'k, 'h, 'q, 'p) ServingModel \<Rightarrow> BatcherConfig \<Rightarrow> 'p job list \<Rightarrow> nat list \<Rightarrow> ('s, 'k, 'q) slot_pred" where
  "Qok md cf js tp \<equiv> \<lambda>i. slot_ok md cf js (i \<in> set tp)"

lemma slot_ok_empty: "\<not> s_occupied s \<Longrightarrow> slot_ok md cf js eager s v rq"
  by (simp add: slot_ok_def)

lemma geometryD:
  assumes "geometry cf e"
  shows "length (st_ssm e) = cf_maxBatch cf" "length (st_kv e) = cf_maxBatch cf" "length (st_slotSampling e) = cf_maxBatch cf"
    "\<And>i. i < cf_maxBatch cf \<Longrightarrow> cf_maxContext cf \<le> length (st_kv e ! i)"
    "st_maxBatch e = cf_maxBatch cf" "st_maxContext e = cf_maxContext cf" "st_ckptRing e = []"
  using assms by (simp_all add: geometry_def)

lemma rings_empty [simp]:
  "st_ckptRing e = [] \<Longrightarrow> clearSlotSsmCkpts i e = e" "st_ckptRing e = [] \<Longrightarrow> pruneSlotSsmCkpts i n e = e"
  "st_ckptRing e = [] \<Longrightarrow> restoreSlotSsmCkptAtPos i n e = e"
  by (simp_all add: clearSlotSsmCkpts_def pruneSlotSsmCkpts_def restoreSlotSsmCkptAtPos_def)

section \<open>Searching a slot\<close>

definition free_in :: "nat \<Rightarrow> Slot list \<Rightarrow> nat \<Rightarrow> bool" where
  "free_in k ss i \<longleftrightarrow> k \<le> i \<and> i < k + length ss \<and> \<not> s_occupied (ss ! (i - k))"

lemma free_in_Cons: "free_in k (s # ss) i \<longleftrightarrow> (i = k \<and> \<not> s_occupied s) \<or> free_in (Suc k) ss i"
  by (cases "i = k") (auto simp: free_in_def nth_Cons')

lemma cold_scan_spec:
  "cold_scan k ss nr lr t = (x, y) \<Longrightarrow>
   (x = Some i \<longrightarrow> nr = Some i \<or> free_in k ss i) \<and> (y = Some i \<longrightarrow> lr = Some i \<or> free_in k ss i)"
  by (induction k ss nr lr t rule: cold_scan.induct) (auto simp: free_in_Cons split: if_splits)

lemma pickColdSlot_free:
  assumes "pickColdSlot b = Some i"
  shows "i < length (cb_slots b) \<and> \<not> s_occupied (cb_slots b ! i)"
proof -
  obtain x y where r: "cold_scan 0 (cb_slots b) None None (- 1) = (x, y)" by fastforce
  show ?thesis using assms r cold_scan_spec [OF r, of i] by (auto simp: pickColdSlot_def free_in_def split: if_splits)
qed

section \<open>Taking over a request\<close>

lemma take_request_simps [simp]:
  "s_occupied (take_request cf p n s)" "s_req (take_request cf p n s) = Some (pd_req p)"
  "s_prompt (take_request cf p n s) = pd_prompt p" "s_promptLen (take_request cf p n s) = length (pd_prompt p)"
  "s_pos (take_request cf p n s) = 0" "s_maxNew (take_request cf p n s) = pd_maxNew p"
  "s_produced (take_request cf p n s) = 0" "s_stopIds (take_request cf p n s) = pd_stopIds p"
  "s_prefillPos (take_request cf p n s) = 0" "s_prefillStart (take_request cf p n s) = n"
  by (simp_all add: take_request_def)

lemma think_take_request: "think_of (take_request cf p n s) = initThinkState cf (pd_prompt p) noThink"
proof -
  have "think_of (take_request cf p n s) = think_of (initThinkState cf (pd_prompt p) s)"
    by (simp add: take_request_def ThinkState.truncate_def)
  then show ?thesis by (simp add: initThink_slot)
qed

lemma take_request_ok:
  assumes w: "waiting_ok cf js rqs p" and s': "s' = (take_request cf p n s)\<lparr>s_xslotPayload := x\<rparr> \<or>
      s' = (take_request cf p n s)\<lparr>s_xslotPayload := x, s_residentTokens := []\<rparr>"
    and n: "n < length (pd_prompt p)" "content md v (take n (pd_prompt p))" "snd (snd v) = md_slotSampling md (pd_sampling p) (pd_prompt p)"
    and mode: "if eager then cf_prefillChunk cf > 0 else n = 0 \<and> (cf_prefillChunk cf > 0 \<longrightarrow> cf_mixedStep cf)"
  shows "slot_ok md cf js eager s' v (rqs ! pd_req p)"
proof -
  have th: "think_of s' = initThinkState cf (pd_prompt p) noThink"
    using s' think_take_request [of cf p n s] by (auto simp: ThinkState.truncate_def)
  have f: "s_req s' = Some (pd_req p)" "s_prompt s' = pd_prompt p" "s_promptLen s' = length (pd_prompt p)" "s_pos s' = 0"
    "s_maxNew s' = pd_maxNew p" "s_produced s' = 0" "s_stopIds s' = pd_stopIds p" "s_prefillPos s' = 0" "s_prefillStart s' = n"
    using s' by auto
  have j: "js ! pd_req p = (pd_prompt p, pd_maxNew p, pd_stopIds p, pd_sampling p)" using w by (simp add: waiting_ok_def)
  have "ingesting md cf (js ! pd_req p) eager s' v (rqs ! pd_req p) n"
    unfolding ingesting_def j using f th n w mode by (auto simp: waiting_ok_def split: if_splits)
  then show ?thesis unfolding slot_ok_def job_slot_def
    using f j w by (auto simp: waiting_ok_def split: if_splits)
qed

lemma setSlot_view:
  assumes "i < length (st_slotSampling e)"
  shows "eview (setSlot md i p prompt e) i = (st_ssm e ! i, st_kv e ! i, md_slotSampling md p prompt)"
    and "j \<noteq> i \<Longrightarrow> eview (setSlot md i p prompt e) j = eview e j"
    and "same_store e (setSlot md i p prompt e)" "st_kv (setSlot md i p prompt e) = st_kv e"
  using assms by (simp_all add: setSlot_def eview_def same_store_def)

lemma geometry_same_store:
  assumes "geometry cf e" "same_store e e'" "\<And>i. i < cf_maxBatch cf \<Longrightarrow> length (st_kv e' ! i) = length (st_kv e ! i)"
  shows "geometry cf e'"
  using assms by (simp add: geometry_def same_store_def)

text \<open>The common step of the passes: slot \<open>i\<close>, whose contents are those of the first \<open>n\<close> prompt tokens,
  takes \<open>p\<close>; \<open>b2\<close> is the batcher with the slot record written.\<close>

lemma admit_slot:
  assumes core: "core md cf js (pre @ p # ps) tp (Qok md cf js tp) b" and i: "i < cf_maxBatch cf" "\<not> s_occupied (cb_slots b ! i)"
    and s': "s' = (take_request cf p n (cb_slots b ! i))\<lparr>s_xslotPayload := x\<rparr> \<or>
      s' = (take_request cf p n (cb_slots b ! i))\<lparr>s_xslotPayload := x, s_residentTokens := []\<rparr>"
    and e1: "geometry cf e1" "store_ok md e1" "content md (eview e1 i) (take n (pd_prompt p))" "n < length (pd_prompt p)"
      "\<And>j. j < cf_maxBatch cf \<Longrightarrow> j \<noteq> i \<Longrightarrow> eview e1 j = eview (cb_engine b) j"
    and mode: "if eager then cf_prefillChunk cf > 0 \<and> tp' = tp @ [i]
       else tp' = tp \<and> n = 0 \<and> (cf_prefillChunk cf > 0 \<longrightarrow> cf_mixedStep cf)"
  shows "core md cf js (pre @ ps) tp' (Qok md cf js tp')
    (b\<lparr>cb_slots := (cb_slots b)[i := s'], cb_engine := setSlot md i (pd_sampling p) (pd_prompt p) e1\<rparr>)" (is "core _ _ _ _ _ _ ?b")
proof -
  note D = coreD [OF core]
  have w: "waiting_ok cf js (cb_requests b) p" using D(7) [of p] by simp
  have len: "i < length (st_slotSampling e1)" using geometryD(3) [OF e1(1)] i(1) by simp
  note sv = setSlot_view [OF len, where md = md and p = "pd_sampling p" and prompt = "pd_prompt p"]
  have notin: "i \<notin> set tp" using D(10) i(2) by blast
  have mem: "(i \<in> set tp') = eager" using mode notin by (auto split: if_splits)
  have others: "j \<noteq> i \<Longrightarrow> (j \<in> set tp') = (j \<in> set tp)" for j using mode by (auto split: if_splits)
  show ?thesis
  proof (rule core_place [OF core i])
    show "cb_cfg ?b = cf" "cb_slots ?b = (cb_slots b)[i := s']" "cb_requests ?b = cb_requests b" using D(1) by simp_all
    show "s_occupied s'" "s_req s' = Some (pd_req p)" using s' by auto
    show "geometry cf (cb_engine ?b)" using geometry_same_store [OF e1(1) sv(3)] sv(4) by simp
    show "store_ok md (cb_engine ?b)" using e1(2) same_store_ok [OF sv(3), of md] by simp
    show "eview (cb_engine ?b) j = eview (cb_engine b) j" if "j < cf_maxBatch cf" "j \<noteq> i" for j
      using sv(2) [OF that(2)] e1(5) [OF that] by simp
    show "slot_ok md cf js (i \<in> set tp') s' (eview (cb_engine ?b) i) (cb_requests b ! pd_req p)"
      unfolding mem
    proof (rule take_request_ok [OF w s' e1(4)])
      show "content md (eview (cb_engine ?b) i) (take n (pd_prompt p))"
        using e1(3) sv(1) by (simp add: eview_def content_def)
      show "snd (snd (eview (cb_engine ?b) i)) = md_slotSampling md (pd_sampling p) (pd_prompt p)" using sv(1) by simp
      show "if eager then cf_prefillChunk cf > 0 else n = 0 \<and> (cf_prefillChunk cf > 0 \<longrightarrow> cf_mixedStep cf)"
        using mode by (simp split: if_splits)
    qed
    show "slot_ok md cf js (j \<in> set tp') s v rq" if "j < cf_maxBatch cf" "j \<noteq> i" "slot_ok md cf js (j \<in> set tp) s v rq" for j s v rq
      using that others by simp
    show "tp' = tp \<or> tp' = tp @ [i]" using mode by (simp split: if_splits)
  qed
qed

section \<open>The admission passes\<close>

lemma admit_cold_core:
  assumes "cfg_ok cf"
  shows "core md cf js (pre @ ps) tp (Qok md cf js tp) b \<Longrightarrow> admit_cold_loop md pr ps a tp b = (kept, a', tp', b') \<Longrightarrow>
    core md cf js (pre @ kept) tp' (Qok md cf js tp') b'"
proof (induction md pr ps a tp b rule: admit_cold_loop.induct)
  case (2 md pr p ps a tp b)
  note D = coreD [OF 2(2)]
  show ?case
  proof (cases "\<not> may_admit cf a \<or> pickColdSlot b = None")
    case True
    then show ?thesis using 2(2,3) D(1) by (auto split: if_splits)
  next
    case False
    then obtain i where i: "pickColdSlot b = Some i" by blast
    have fi: "i < cf_maxBatch cf" "\<not> s_occupied (cb_slots b ! i)" using pickColdSlot_free [OF i] D(2) by simp_all
    let ?s = "(take_request cf p 0 (cb_slots b ! i))\<lparr>s_xslotPayload := 0, s_residentTokens := []\<rparr>"
    let ?eager = "\<not> cf_mixedStep cf \<or> (cf_mixedStepPressureGate cf \<and> \<not> pr)"
    let ?in = "cf_prefillChunk cf > 0 \<and> length (pd_prompt p) > 0 \<and> ?eager"
    let ?tp = "if ?in then tp @ [i] else tp"
    let ?b2 = "b\<lparr>cb_slots := (cb_slots b)[i := ?s], cb_engine := setSlot md i (pd_sampling p) (pd_prompt p) (cb_engine b)\<rparr>"
    have pn: "pd_prompt p \<noteq> []" using D(7) [of p] by (simp add: waiting_ok_def)
    have eq: "upd_eng (setSlot md i (pd_sampling p) (pd_prompt p) \<circ> clearSlotSsmCkpts i)
        (upd_slot i (\<lambda>s. (take_request (cb_cfg b) p 0 s)\<lparr>s_xslotPayload := 0, s_residentTokens := []\<rparr>) b) = ?b2"
      using D(1) geometryD(7) [OF D(3)] by (simp add: upd_eng_def upd_slot_def)
    have c2: "core md cf js (pre @ ps) ?tp (Qok md cf js ?tp) ?b2"
    proof (rule admit_slot [OF 2(2) fi, where n = 0 and x = 0 and eager = ?in])
      show "?s = (take_request cf p 0 (cb_slots b ! i))\<lparr>s_xslotPayload := 0\<rparr> \<or> ?s = ?s" by simp
      show "if ?in then cf_prefillChunk cf > 0 \<and> ?tp = tp @ [i] else ?tp = tp \<and> (0 :: nat) = 0 \<and> (cf_prefillChunk cf > 0 \<longrightarrow> cf_mixedStep cf)"
        using pn by auto
    qed (use D(3,4) pn in auto)
    have "admit_cold_loop md pr ps (Suc a) ?tp ?b2 = (kept, a', tp', b')"
      using 2(3) False i eq D(1) by (simp add: Let_def)
    then show ?thesis using 2(1) [OF _ i refl eq [symmetric] refl] c2 False D(1) by simp
  qed
qed simp

lemma admit_cross_core:
  assumes cfg: "cfg_ok cf" "forward_ok md" and x: "cf_xslot cf"
  shows "core md cf js (pre @ ps) tp (Qok md cf js tp) b \<Longrightarrow>
    \<exists>kept a' tp' b'. admit_cross_loop md ps a tp b = Inr (kept, a', tp', b') \<and>
      core md cf js (pre @ kept) tp' (Qok md cf js tp') b'"
proof (induction ps arbitrary: pre a tp b)
  case (Cons p ps)
  note D = coreD [OF Cons.prems]
  have chunk: "cf_prefillChunk cf > 0" using cfg(1) x by (simp add: cfg_ok_def)
  show ?case
  proof (cases "may_admit cf a")
    case False
    then show ?thesis using Cons.prems D(1) by simp
  next
    case True
    obtain res e1 where l: "lookupPrefixImage (pd_prompt p) (cb_engine b) = (res, e1)" by fastforce
    obtain hit where h: "res = Inr hit" "store_ok md e1" "same_slots (cb_engine b) e1"
      "\<And>pos pid. hit = Some (pos, pid) \<Longrightarrow> pos \<le> length (pd_prompt p) \<and> st_xslot e1 \<and> st_prefixImages e1 pid = Some (image_of md (take pos (pd_prompt p)))"
      using lookupPrefixImage_spec [OF D(4) l] by blast
    let ?b1 = "b\<lparr>cb_engine := e1\<rparr>"
    have c1: "core md cf js (pre @ p # ps) tp (Qok md cf js tp) ?b1" by (rule core_same_slots [OF Cons.prems h(3,2)])
    have c1': "core md cf js ((pre @ [p]) @ ps) tp (Qok md cf js tp) ?b1" using c1 by simp
    have skip: "\<exists>kept a' tp' b'. bind_result (admit_cross_loop md ps a tp ?b1) (\<lambda>(kept, r). Inr (p # kept, r)) = Inr (kept, a', tp', b') \<and>
        core md cf js (pre @ kept) tp' (Qok md cf js tp') b'"
      using Cons.IH [OF c1', of a] by auto
    show ?thesis
    proof (cases hit)
      case None
      then show ?thesis using skip True l h(1) D(1) by (simp add: Let_def)
    next
      case (Some px)
      then obtain xpos xpid where hit: "hit = Some (xpos, xpid)" by (cases px) auto
      note hh = h(4) [OF hit]
      show ?thesis
      proof (cases "xpos = 0 \<or> xpos \<ge> length (pd_prompt p) \<or> pickColdSlot ?b1 = None")
        case True
        have stay: "core md cf js (pre @ p # ps) tp (Qok md cf js tp) ?b1" by (rule c1)
        show ?thesis
        proof (cases "xpos = 0 \<or> xpos \<ge> length (pd_prompt p)")
          case True
          then show ?thesis using skip \<open>may_admit cf a\<close> l h(1) hit D(1) by (simp add: Let_def)
        next
          case False
          then have "admit_cross_loop md (p # ps) a tp b = Inr (p # ps, a, tp, ?b1)"
            using True \<open>may_admit cf a\<close> l h(1) hit D(1) by (simp add: Let_def)
          then show ?thesis using stay by blast
        qed
      next
        case False
        then obtain i where i: "pickColdSlot ?b1 = Some i" and n: "0 < xpos" "xpos < length (pd_prompt p)" by auto
        have fi: "i < cf_maxBatch cf" "\<not> s_occupied (cb_slots b ! i)" using pickColdSlot_free [OF i] D(2) by simp_all
        have g1: "geometry cf e1" using coreD(3) [OF c1] by simp
        have "length (take xpos (pd_prompt p)) \<le> length (st_kv e1 ! i)"
          using geometryD(4) [OF g1 fi(1)] n(2) D(7) [of p] by (simp add: waiting_ok_def)
        then obtain e2 where e2: "restorePrefixImageToSlot i xpid e1 = (True, e2)" "same_store e1 e2"
          "content md (eview e2 i) (take xpos (pd_prompt p))" "\<And>j. j \<noteq> i \<Longrightarrow> eview e2 j = eview e1 j"
          "length (st_kv e2 ! i) = length (st_kv e1 ! i)" "store_ok md e2 = store_ok md e1"
          using restorePrefixImage_spec [OF conjunct2 [OF conjunct2 [OF hh]] _ _ _ cfg(2)] hh geometryD(1,2) [OF g1] fi(1) by metis
        let ?e3 = "acquirePrefixImage xpid e2"
        have kv: "length (st_kv e2 ! j) = length (st_kv e1 ! j)" for j using e2(4,5) by (cases "j = i") (auto simp: eview_def)
        have g2: "geometry cf e2" by (rule geometry_same_store [OF g1 e2(2) kv])
        have ss: "same_slots e2 ?e3" by simp
        have g3: "geometry cf ?e3" using g2 same_slots_geometry [OF ss] by simp
        have s3: "store_ok md ?e3" using store_ok_pins(1) e2(6) h(2) by blast
        let ?s = "(take_request cf p xpos (cb_slots b ! i))\<lparr>s_xslotPayload := xpid\<rparr>"
        let ?b4 = "b\<lparr>cb_slots := (cb_slots b)[i := ?s], cb_engine := setSlot md i (pd_sampling p) (pd_prompt p) ?e3\<rparr>"
        have c4: "core md cf js (pre @ ps) (tp @ [i]) (Qok md cf js (tp @ [i])) ?b4"
        proof (rule admit_slot [OF Cons.prems fi, where n = xpos and x = xpid and eager = True])
          show "?s = (take_request cf p xpos (cb_slots b ! i))\<lparr>s_xslotPayload := xpid\<rparr> \<or>
              ?s = (take_request cf p xpos (cb_slots b ! i))\<lparr>s_xslotPayload := xpid, s_residentTokens := []\<rparr>" by simp
          show "content md (eview ?e3 i) (take xpos (pd_prompt p))" using e2(3) same_slots_view [OF ss] by metis
          show "eview ?e3 j = eview (cb_engine b) j" if "j < cf_maxBatch cf" "j \<noteq> i" for j
            using same_slots_view [OF ss, of j] e2(4) [OF that(2)] same_slots_view [OF h(3), of j] by simp
          show "if True then cf_prefillChunk cf > 0 \<and> tp @ [i] = tp @ [i] else tp @ [i] = tp \<and> xpos = 0 \<and> (cf_prefillChunk cf > 0 \<longrightarrow> cf_mixedStep cf)"
            using chunk by simp
        qed (use g3 s3 n in auto)
        have "admit_cross_loop md (p # ps) a tp b = admit_cross_loop md ps (Suc a) (tp @ [i]) ?b4"
          using True l h(1) hit n i e2(1) D(1) chunk geometryD(7) [OF g3]
          by (simp add: Let_def upd_eng_def upd_slot_def)
        then show ?thesis using Cons.IH [OF c4, of "Suc a"] by simp
      qed
    qed
  qed
qed simp

lemma core_waiting: "core md cf js W tp Q (b\<lparr>cb_waiting := X\<rparr>) = core md cf js W tp Q b"
  by (simp add: core_def)

lemma admit_section_core:
  assumes cfg: "cfg_ok cf" "forward_ok md" and c: "core md cf js (cb_waiting b) [] (Qok md cf js []) b"
  shows "\<exists>tp b'. admit_section md b = Inr (tp, b') \<and> core md cf js (cb_waiting b') tp (Qok md cf js tp) b'"
proof -
  have warm: "admitWarmSlots md (0, [], b) = (0, [], b)" using cfg(1) coreD(1) [OF c] by (simp add: admitWarmSlots_def cfg_ok_def)
  have "\<exists>a tp b1. admitCrossSlots md (0, [], b) = Inr (a, tp, b1) \<and> core md cf js (cb_waiting b1) tp (Qok md cf js tp) b1"
  proof (cases "cf_xslot cf")
    case True
    have "core md cf js ([] @ cb_waiting b) [] (Qok md cf js []) b" using c by simp
    from admit_cross_core [OF cfg True this, of 0] obtain kept a tp b1 where
      r: "admit_cross_loop md (cb_waiting b) 0 [] b = Inr (kept, a, tp, b1)" "core md cf js ([] @ kept) tp (Qok md cf js tp) b1" by blast
    have "admitCrossSlots md (0, [], b) = Inr (a, tp, b1\<lparr>cb_waiting := kept\<rparr>)"
      using True r(1) coreD(1) [OF c] by (simp add: admitCrossSlots_def)
    then show ?thesis using r(2) by (auto simp: core_waiting)
  next
    case False
    then have "admitCrossSlots md (0, [], b) = Inr (0, [], b)" using coreD(1) [OF c] by (simp add: admitCrossSlots_def)
    then show ?thesis using c by blast
  qed
  then obtain a tp b1 where x: "admitCrossSlots md (0, [], b) = Inr (a, tp, b1)" "core md cf js (cb_waiting b1) tp (Qok md cf js tp) b1" by blast
  obtain kept a' tp' b' where l: "admit_cold_loop md (prefill_pressure b) (cb_waiting b1) a tp b1 = (kept, a', tp', b')" by (metis prod_cases4)
  have "core md cf js ([] @ cb_waiting b1) tp (Qok md cf js tp) b1" using x(2) by simp
  from admit_cold_core [OF cfg(1) this l] have "core md cf js kept tp' (Qok md cf js tp') b'" by simp
  moreover have "admit_section md b = Inr (tp', b'\<lparr>cb_waiting := kept\<rparr>)"
    using warm x(1) l by (simp add: admit_section_def admitColdSlots_def)
  ultimately show ?thesis by (auto simp: core_waiting)
qed

section \<open>The calls of the request threads\<close>

lemma req_ok_flags:
  assumes "req_ok md cf j rq" "sr_tokens rq' = sr_tokens rq"
    "sr_done rq' \<and> \<not> sr_cancelled rq' \<and> sr_error rq' = [] \<Longrightarrow> sr_done rq \<and> \<not> sr_cancelled rq \<and> sr_error rq = []"
  shows "req_ok md cf j rq'"
  using assms by (auto simp: req_ok_def)

lemma slot_ok_request:
  assumes "sr_tokens rq' = sr_tokens rq" "sr_done rq' = sr_done rq"
  shows "slot_ok md cf js eager s v rq' = slot_ok md cf js eager s v rq"
  by (simp only: slot_ok_def ingesting_def decoding_def assms)

lemma cancel_core:
  assumes c: "core md cf js W tp (Qok md cf js tp) b" and r: "r < length (cb_requests b)"
  shows "core md cf js W tp (Qok md cf js tp) (cancel r b)"
proof -
  note D = coreD [OF c]
  let ?q = "(cb_requests b ! r)\<lparr>sr_cancelled := True\<rparr>"
  have b': "cancel r b = b\<lparr>cb_requests := (cb_requests b)[r := ?q]\<rparr>" by (simp add: cancel_def upd_req_def)
  have nth: "sr_tokens ((cb_requests b)[r := ?q] ! k) = sr_tokens (cb_requests b ! k)"
    "sr_done ((cb_requests b)[r := ?q] ! k) = sr_done (cb_requests b ! k)"
    "sr_cancelled (cb_requests b ! k) \<Longrightarrow> sr_cancelled ((cb_requests b)[r := ?q] ! k)"
    "sr_error ((cb_requests b)[r := ?q] ! k) = sr_error (cb_requests b ! k)" for k
    using r by (cases "k = r"; simp)+
  have "req_ok md cf (js ! k) ((cb_requests b)[r := ?q] ! k)" if "k < length js" for k
    by (rule req_ok_flags [OF D(6) [OF that]]) (use nth in auto)
  moreover have "waiting_ok cf js ((cb_requests b)[r := ?q]) p" if "p \<in> set W" for p
    using D(7) [OF that] nth by (simp add: waiting_ok_def)
  moreover have "placed W (cb_slots b) (cf_maxBatch cf) k" if "k < length js" "\<not> sr_done ((cb_requests b)[r := ?q] ! k)" for k
    using D(12) [OF that(1)] that(2) nth(2) by simp
  moreover have "slot_ok md cf js (i \<in> set tp) (cb_slots b ! i) (eview (cb_engine b) i) ((cb_requests b)[r := ?q] ! the (s_req (cb_slots b ! i)))"
    if "i < cf_maxBatch cf" for i
    using D(11) [OF that] by (simp only: slot_ok_request [OF nth(1,2)])
  ultimately show ?thesis using c unfolding b' core_def by simp
qed

lemma core_new_request:
  assumes c: "core md cf js W tp (Qok md cf js tp) b" and rq: "req_ok md cf j rq"
    and W': "W' = W \<and> sr_done rq \<or> (W' = W @ [p] \<and> pd_req p = length js \<and> waiting_ok cf (js @ [j]) (cb_requests b @ [rq]) p)"
  shows "core md cf (js @ [j]) W' tp (Qok md cf (js @ [j]) tp) (b\<lparr>cb_requests := cb_requests b @ [rq]\<rparr>)"
proof -
  note D = coreD [OF c]
  have rlen: "length (cb_requests b) = length js" by (rule D(5))
  have old: "waiting_ok cf (js @ [j]) (cb_requests b @ [rq]) p" if "p \<in> set W" for p
    using D(7) [OF that] rlen by (simp add: waiting_ok_def nth_append)
  have lt: "pd_req p < length js" if "p \<in> set W" for p using D(7) [OF that] by (simp add: waiting_ok_def)
  have "req_ok md cf ((js @ [j]) ! r) ((cb_requests b @ [rq]) ! r)" if "r < length (js @ [j])" for r
    using that D(6) [of r] rq rlen by (cases "r = length js") (auto simp: nth_append)
  moreover have "waiting_ok cf (js @ [j]) (cb_requests b @ [rq]) p'" if "p' \<in> set W'" for p'
    using that W' old [of p'] by auto
  moreover have "length js \<notin> pd_req ` set W" using lt by (metis imageE less_irrefl)
  then have "distinct (map pd_req W')" using W' D(8) by auto
  moreover have "\<exists>r. s_req (cb_slots b ! i) = Some r \<and> r < length (js @ [j]) \<and> r \<notin> pd_req ` set W' \<and>
      (\<forall>k < cf_maxBatch cf. k \<noteq> i \<and> s_occupied (cb_slots b ! k) \<longrightarrow> s_req (cb_slots b ! k) \<noteq> Some r)"
    if i: "i < cf_maxBatch cf" "s_occupied (cb_slots b ! i)" for i
  proof -
    obtain r where r: "s_req (cb_slots b ! i) = Some r" "r < length js" "r \<notin> pd_req ` set W"
      "\<And>k. k < cf_maxBatch cf \<Longrightarrow> k \<noteq> i \<Longrightarrow> s_occupied (cb_slots b ! k) \<Longrightarrow> s_req (cb_slots b ! k) \<noteq> Some r"
      using core_slotD [OF c i] by blast
    have "r \<notin> pd_req ` set W'" using W' r(2,3) by auto
    then show ?thesis using r by (intro exI [of _ r]) simp
  qed
  moreover have "slot_ok md cf (js @ [j]) (i \<in> set tp) (cb_slots b ! i) (eview (cb_engine b) i)
      ((cb_requests b @ [rq]) ! the (s_req (cb_slots b ! i)))" if i: "i < cf_maxBatch cf" for i
  proof (cases "s_occupied (cb_slots b ! i)")
    case True
    obtain r where "s_req (cb_slots b ! i) = Some r" "r < length js" using core_slot_req [OF c i True] by blast
    then have n: "(js @ [j]) ! the (s_req (cb_slots b ! i)) = js ! the (s_req (cb_slots b ! i))"
      "(cb_requests b @ [rq]) ! the (s_req (cb_slots b ! i)) = cb_requests b ! the (s_req (cb_slots b ! i))"
      using rlen by (simp_all add: nth_append)
    show ?thesis using D(11) [OF i] by (simp only: slot_ok_def job_slot_def n)
  qed (simp add: slot_ok_def)
  moreover have "placed W' (cb_slots b) (cf_maxBatch cf) r" if r: "r < length (js @ [j])" "\<not> sr_done ((cb_requests b @ [rq]) ! r)" for r
  proof (cases "r = length js")
    case True
    then have "W' = W @ [p] \<and> pd_req p = length js" using r(2) W' rlen by (auto simp: nth_append)
    then show ?thesis using True by (auto simp: placed_def)
  next
    case False
    then have "placed W (cb_slots b) (cf_maxBatch cf) r" using D(12) [of r] r rlen by (simp add: nth_append)
    then show ?thesis using W' by (auto simp: placed_def)
  qed
  ultimately show ?thesis using D(1-5,9,10) unfolding core_def by simp
qed

lemma submit_cases:
  fixes b :: "('s, 'k, 'q, 'p) batcher"
  obtains (reject) q where "submit prompt maxNew stops tenant p b = (length (cb_requests b), b\<lparr>cb_requests := cb_requests b @ [q]\<rparr>)"
      "sr_tokens q = []" "sr_error q \<noteq> []" "sr_done q" "sr_tenantId q = tenant"
  | (accept) "submit prompt maxNew stops tenant p b = (length (cb_requests b),
        b\<lparr>cb_requests := cb_requests b @ [newRequest tenant],
          cb_waiting := cb_waiting b @ [\<lparr>pd_req = length (cb_requests b), pd_prompt = prompt, pd_maxNew = maxNew, pd_stopIds = stops, pd_sampling = p\<rparr>]\<rparr>)"
      "prompt \<noteq> []" "length prompt < cf_maxContext (cb_cfg b)" "inflight b < cf_maxInflight (cb_cfg b)" "cb_running b"
      "cf_maxInflightPerTenant (cb_cfg b) = 0 \<or> tenant = [] \<or> countTenantLocked tenant b < cf_maxInflightPerTenant (cb_cfg b)"
proof -
  let ?q = "newRequest tenant"
  consider "prompt = []" | "prompt \<noteq> []" "length prompt \<ge> cf_maxContext (cb_cfg b)"
    | "prompt \<noteq> []" "\<not> length prompt \<ge> cf_maxContext (cb_cfg b)" "\<not> cb_running b"
    | "prompt \<noteq> []" "\<not> length prompt \<ge> cf_maxContext (cb_cfg b)" "cb_running b" "inflight b \<ge> cf_maxInflight (cb_cfg b)"
    | "prompt \<noteq> []" "\<not> length prompt \<ge> cf_maxContext (cb_cfg b)" "cb_running b" "\<not> inflight b \<ge> cf_maxInflight (cb_cfg b)"
      "cf_maxInflightPerTenant (cb_cfg b) > 0 \<and> tenant \<noteq> [] \<and> countTenantLocked tenant b \<ge> cf_maxInflightPerTenant (cb_cfg b)"
    | "prompt \<noteq> []" "\<not> length prompt \<ge> cf_maxContext (cb_cfg b)" "cb_running b" "\<not> inflight b \<ge> cf_maxInflight (cb_cfg b)"
      "\<not> (cf_maxInflightPerTenant (cb_cfg b) > 0 \<and> tenant \<noteq> [] \<and> countTenantLocked tenant b \<ge> cf_maxInflightPerTenant (cb_cfg b))"
    by blast
  then show thesis
  proof cases
    case 1
    then show thesis
      by (intro reject [of "?q\<lparr>sr_error := ''empty prompt'', sr_done := True\<rparr>"]) (simp_all add: submit_def newRequest_def)
  next
    case 2
    then show thesis
      by (intro reject [of "?q\<lparr>sr_error := ''prompt exceeds serving maxContext'', sr_done := True\<rparr>"]) (simp_all add: submit_def newRequest_def)
  next
    case 3
    then show thesis
      by (intro reject [of "?q\<lparr>sr_error := ''batcher stopped'', sr_done := True, sr_cancelled := True\<rparr>"]) (simp_all add: submit_def newRequest_def)
  next
    case 4
    then show thesis
      by (intro reject [of "?q\<lparr>sr_error := ''server overloaded: request queue full'', sr_overloaded := True, sr_done := True\<rparr>"])
        (simp_all add: submit_def newRequest_def)
  next
    case 5
    then show thesis
      by (intro reject [of "?q\<lparr>sr_error := ''tenant quota exceeded: too many concurrent requests for this key'',
          sr_tenantQuotaExceeded := True, sr_done := True\<rparr>"]) (simp_all add: submit_def newRequest_def)
  next
    case 6
    show thesis
    proof (rule accept)
      show "submit prompt maxNew stops tenant p b = (length (cb_requests b),
        b\<lparr>cb_requests := cb_requests b @ [newRequest tenant],
          cb_waiting := cb_waiting b @ [\<lparr>pd_req = length (cb_requests b), pd_prompt = prompt, pd_maxNew = maxNew, pd_stopIds = stops, pd_sampling = p\<rparr>]\<rparr>)"
        using 6 by (simp only: submit_def Let_def if_False not_True_eq_False not_False_eq_True)
    qed (use 6 in auto)
  qed
qed

lemma submit_core:
  assumes c: "core md cf js (cb_waiting b) tp (Qok md cf js tp) b" and j: "j = (prompt, maxNew, stops, p)"
  shows "core md cf (js @ [j]) (cb_waiting (snd (submit prompt maxNew stops tenant p b))) tp (Qok md cf (js @ [j]) tp)
    (snd (submit prompt maxNew stops tenant p b))"
proof (cases rule: submit_cases [of prompt maxNew stops tenant p b])
  case (reject q)
  have "core md cf (js @ [j]) (cb_waiting b) tp (Qok md cf (js @ [j]) tp) (b\<lparr>cb_requests := cb_requests b @ [q]\<rparr>)"
    by (rule core_new_request [OF c]) (use reject in \<open>auto simp: req_ok_def\<close>)
  then show ?thesis using reject(1) by simp
next
  case accept
  note D = coreD [OF c]
  let ?pd = "\<lparr>pd_req = length (cb_requests b), pd_prompt = prompt, pd_maxNew = maxNew, pd_stopIds = stops, pd_sampling = p\<rparr>"
  have "core md cf (js @ [j]) (cb_waiting b @ [?pd]) tp (Qok md cf (js @ [j]) tp) (b\<lparr>cb_requests := cb_requests b @ [newRequest tenant]\<rparr>)"
  proof (rule core_new_request [OF c])
    show "req_ok md cf j (newRequest tenant)" by (simp add: req_ok_def newRequest_def)
    have "waiting_ok cf (js @ [j]) (cb_requests b @ [newRequest tenant]) ?pd"
      using accept(2,3) D(1,5) j by (simp add: waiting_ok_def newRequest_def nth_append)
    then show "cb_waiting b @ [?pd] = cb_waiting b \<and> sr_done (newRequest tenant) \<or>
      cb_waiting b @ [?pd] = cb_waiting b @ [?pd] \<and> pd_req ?pd = length js \<and> waiting_ok cf (js @ [j]) (cb_requests b @ [newRequest tenant]) ?pd"
      using D(5) by simp
  qed
  then show ?thesis using accept(1) by (simp add: core_waiting)
qed

end
