(* ===== verification/BatcherPrefill.thy ===== *)
theory BatcherPrefill
  imports BatcherAdmission
begin

text \<open>The eager prefill section keeps the invariant of the batcher.\<close>

section \<open>Emitting a token\<close>

text \<open>The slot has been fed everything delivered so far, and \<open>tok\<close> is the sample of its logits.\<close>

definition ready ::
  "('s, 'k, 'h, 'q, 'p) ServingModel \<Rightarrow> BatcherConfig \<Rightarrow> 'p job list \<Rightarrow> u32 \<Rightarrow> Slot \<Rightarrow> ('s, 'k, 'q) slot_view \<Rightarrow> ServingRequest \<Rightarrow> bool" where
  "ready md cf js tok s v rq \<longleftrightarrow>
     s_occupied s \<longrightarrow> job_slot cf js s \<and> \<not> sr_done rq \<and>
       (case js ! the (s_req s) of (prompt, maxNew, stops, p) \<Rightarrow>
          s_produced s = length (sr_tokens rq) \<and> content md v (prompt @ sr_tokens rq) \<and>
          (\<exists>q. md_sample md q (ctx_logits md (prompt @ sr_tokens rq)) = (tok, snd (snd v)) \<and>
             serve_alone md cf (js ! the (s_req s)) = sr_tokens rq @
               serve_gen md cf stops maxNew (length (sr_tokens rq)) q (think_of s) (prompt @ sr_tokens rq)))"

lemma emit_token:
  assumes rdy: "ready md cf js tok s v rq" and occ: "s_occupied s" and req: "s_req s = Some r"
    and th: "applyThinkBudget cf s tok = (t, s1)" "think_of s2 = think_of s1" "s_occupied s2" "s_req s2 = Some r"
    and s2: "s_prompt s2 = s_prompt s" "s_promptLen s2 = s_promptLen s" "s_maxNew s2 = s_maxNew s" "s_stopIds s2 = s_stopIds s"
      "s_lastTok s2 = t" "s_produced s2 = Suc (s_produced s)"
    and rq': "sr_tokens rq' = sr_tokens rq @ [t]"
    and full: "ctxFull = (s_promptLen s + s_produced s + 1 \<ge> cf_maxContext cf)"
  shows "stop_token cf s2 t ctxFull \<Longrightarrow> req_ok md cf (js ! r) rq'"
    and "\<not> stop_token cf s2 t ctxFull \<Longrightarrow> \<not> sr_done rq' \<Longrightarrow> s_pos s2 = s_promptLen s + s_produced s \<Longrightarrow>
      (cf_mixedStep cf \<Longrightarrow> s_prefillPos s2 = s_promptLen s) \<Longrightarrow>
      req_ok md cf (js ! r) rq' \<and> slot_ok md cf js False s2 v rq'"
proof -
  obtain prompt maxNew stops p where j: "js ! r = (prompt, maxNew, stops, p)" by (metis prod_cases4)
  have js: "s_prompt s = prompt" "s_promptLen s = length prompt" "s_maxNew s = maxNew" "s_stopIds s = stops"
    "prompt \<noteq> []" "length prompt < cf_maxContext cf" "s_produced s = length (sr_tokens rq)" "content md v (prompt @ sr_tokens rq)"
    using rdy occ req j by (simp_all add: ready_def job_slot_def)
  obtain q where q: "md_sample md q (ctx_logits md (prompt @ sr_tokens rq)) = (tok, snd (snd v))"
    "serve_alone md cf (js ! r) = sr_tokens rq @ serve_gen md cf stops maxNew (length (sr_tokens rq)) q (think_of s) (prompt @ sr_tokens rq)"
    using rdy occ req j by (auto simp: ready_def)
  note em = serve_gen_emit [OF q(1) th(1) q(2)]
  have stop: "stop_token cf s2 t ctxFull = stop_now cf stops maxNew (Suc (length (sr_tokens rq))) (length (prompt @ sr_tokens rq)) t"
    using s2 js full by (simp add: stop_token_def stop_now_def isStop_def)
  show "req_ok md cf (js ! r) rq'" if "stop_token cf s2 t ctxFull"
    using em(1) that stop rq' by (simp add: req_ok_def)
  show "req_ok md cf (js ! r) rq' \<and> slot_ok md cf js False s2 v rq'"
    if st: "\<not> stop_token cf s2 t ctxFull" and nd: "\<not> sr_done rq'" and pos: "s_pos s2 = s_promptLen s + s_produced s"
      and mx: "cf_mixedStep cf \<Longrightarrow> s_prefillPos s2 = s_promptLen s"
  proof -
    have ref: "serve_alone md cf (js ! r) = sr_tokens rq' @
        serve_gen md cf stops maxNew (length (sr_tokens rq')) (snd (snd v)) (think_of s2) (prompt @ sr_tokens rq')"
      using em(2) st stop rq' th(2) by simp
    have lt: "Suc (s_pos s2) < cf_maxContext cf" using st full pos by (simp add: stop_token_def)
    have "decoding md cf (js ! r) s2 v rq'"
      unfolding decoding_def j prod.case using rq' js s2 pos lt mx ref j by simp
    then have "slot_ok md cf js False s2 v rq'"
      using js s2 th(3,4) nd j by (simp add: slot_ok_def job_slot_def)
    moreover have "req_ok md cf (js ! r) rq'" using ref nd by (simp add: req_ok_def)
    ultimately show ?thesis by simp
  qed
qed

section \<open>Retirement\<close>

lemma upd_twice:
  assumes "i < length (cb_slots b)"
  shows "upd_slot i f (upd_slot i g b) = upd_slot i (\<lambda>s. f (g s)) b" "upd_slot i f (upd_eng h b) = upd_eng h (upd_slot i f b)"
    "upd_eng h (upd_eng k b) = upd_eng (\<lambda>e. h (k e)) b" "cb_slots (upd_slot i f b) ! i = f (cb_slots b ! i)"
  using assms by (simp_all add: upd_slot_def upd_eng_def)

lemma retireSlot_spec:
  assumes w: "\<not> cf_warmSlot (cb_cfg b)" and i: "i < length (cb_slots b)" and r: "st_ckptRing (cb_engine b) = []"
  obtains s' e' where "retireSlot i keep b = b\<lparr>cb_slots := (cb_slots b)[i := s'], cb_engine := e'\<rparr>" "\<not> s_occupied s'"
    "same_slots (cb_engine b) e'" "store_ok md (cb_engine b) \<Longrightarrow> store_ok md e'"
proof -
  let ?x = "s_xslotPayload (cb_slots b ! i)" and ?e = "cb_engine b"
  let ?f1 = "\<lambda>s :: Slot. s\<lparr>s_occupied := False, s_req := None, s_prefillStart := 0\<rparr>"
  let ?f3 = "\<lambda>s :: Slot. s\<lparr>s_prompt := [], s_residentTokens := [], s_resident := False\<rparr>"
  let ?b1 = "upd_slot i ?f1 b"
  let ?b2 = "if ?x \<noteq> 0 then upd_slot i (\<lambda>s. s\<lparr>s_xslotPayload := 0\<rparr>) (upd_eng (releasePrefixImage ?x) ?b1) else ?b1"
  have px: "s_xslotPayload (cb_slots ?b1 ! i) = ?x" using upd_twice(4) [OF i, of ?f1] by simp
  have run: "retireSlot i keep b = upd_eng (clearSlotSsmCkpts i) (upd_slot i ?f3 ?b2)"
    unfolding retireSlot_def Let_def px using w by (simp only: simp_thms if_False if_True)
  show thesis
  proof (cases "?x = 0")
    case True
    have "retireSlot i keep b = b\<lparr>cb_slots := (cb_slots b)[i := ?f3 (?f1 (cb_slots b ! i))], cb_engine := ?e\<rparr>"
      unfolding run using True r i by (simp add: upd_slot_def upd_eng_def)
    then show thesis by (rule that) simp_all
  next
    case False
    let ?e' = "releasePrefixImage ?x ?e"
    have ring: "st_ckptRing ?e' = []" using r by (simp add: releasePrefixImage_def)
    have "retireSlot i keep b = b\<lparr>cb_slots := (cb_slots b)[i := ?f3 ((?f1 (cb_slots b ! i))\<lparr>s_xslotPayload := 0\<rparr>)], cb_engine := ?e'\<rparr>"
      unfolding run using False ring i by (simp add: upd_slot_def upd_eng_def)
    then show thesis by (rule that) (simp_all add: store_ok_pins)
  qed
qed

section \<open>Committing a prefilled slot\<close>

abbreviation Qat :: "('s, 'k, 'q) slot_pred \<Rightarrow> nat \<Rightarrow> (Slot \<Rightarrow> ('s, 'k, 'q) slot_view \<Rightarrow> ServingRequest \<Rightarrow> bool) \<Rightarrow> ('s, 'k, 'q) slot_pred" where
  "Qat Q i P \<equiv> Q(i := P)"

text \<open>The slot predicates the loops use say nothing about free slots.\<close>

definition lax :: "('s, 'k, 'q) slot_pred \<Rightarrow> bool" where
  "lax Q \<longleftrightarrow> (\<forall>j s v rq. \<not> s_occupied s \<longrightarrow> Q j s v rq)"

lemma laxI: "(\<And>j s v rq. \<not> s_occupied s \<Longrightarrow> Q j s v rq) \<Longrightarrow> lax Q"
  and laxD: "lax Q \<Longrightarrow> \<not> s_occupied s \<Longrightarrow> Q j s v rq"
  unfolding lax_def by blast+

lemma lax_Qok [simp]: "lax (Qok md cf js tp)"
  by (rule laxI) (simp add: slot_ok_def)

lemma lax_upd: "lax Q \<Longrightarrow> (\<And>s v rq. \<not> s_occupied s \<Longrightarrow> P s v rq) \<Longrightarrow> lax (Q(i := P))"
  by (rule laxI) (simp add: laxD)

lemma drop_slot_simps [simp]: "\<not> s_occupied (drop_slot s)" "s_req (drop_slot s) = None"
  by (simp_all add: drop_slot_def)

lemma lax_ready [simp]: "\<not> s_occupied s \<Longrightarrow> ready md cf js tok s v rq"
  by (simp add: ready_def)

text \<open>A slot that gives up its request: everything else stays.\<close>

lemma core_release:
  assumes c: "core md cf js W tp Q b" and i: "i < cf_maxBatch cf" "s_occupied (cb_slots b ! i)" "s_req (cb_slots b ! i) = Some r" "i \<notin> set tp"
    and lax: "lax Q" and b': "cb_cfg b' = cf" "cb_slots b' = (cb_slots b)[i := s']" "cb_requests b' = (cb_requests b)[r := q']"
      "\<not> s_occupied s'" "same_slots (cb_engine b) (cb_engine b')" "store_ok md (cb_engine b')"
    and q': "req_ok md cf (js ! r) q'" "sr_done q'"
    and Q': "\<And>j. j \<noteq> i \<Longrightarrow> Q' j = Q j" "lax Q'"
  shows "core md cf js W tp Q' b'"
proof (rule core_update [OF c i(1-3) b'(1-3)])
  show "geometry cf (cb_engine b')" using coreD(3) [OF c] same_slots_geometry [OF b'(5)] by simp
  show "eview (cb_engine b') j = eview (cb_engine b) j" for j by (rule same_slots_view [OF b'(5)])
  show "Q' i s' v rq" for v rq by (rule laxD [OF Q'(2) b'(4)])
  show "Q' i s' v rq" for v rq by (rule laxD [OF Q'(2) b'(4)])
  show "Q' j s v rq" if "j \<noteq> i" "Q j s v rq" for j s v rq using that Q'(1) by simp
  show "Q' j s v rq'" if "\<not> s_occupied s" for j s v rq' by (rule laxD [OF Q'(2) that])
qed (use b' q' i(4) coreD(9) [OF c] in auto)

lemma fail_slot_core:
  assumes c: "core md cf js W tp Q b" and i: "i < cf_maxBatch cf" "i \<notin> set tp" and occ: "s_occupied (cb_slots b ! i)"
    and Q: "lax Q" "\<And>j. j \<noteq> i \<Longrightarrow> Q' j = Q j" "lax Q'" and msg: "msg \<noteq> []"
  shows "core md cf js W tp Q' (fail_slot i (s_req (cb_slots b ! i)) msg b)"
proof -
  obtain r where r: "s_req (cb_slots b ! i) = Some r" "r < length js" using core_slot_req [OF c i(1) occ] by blast
  let ?q = "(cb_requests b ! r)\<lparr>sr_error := msg, sr_done := True\<rparr>"
  have b': "fail_slot i (s_req (cb_slots b ! i)) msg b = b\<lparr>cb_requests := (cb_requests b)[r := ?q], cb_slots := (cb_slots b)[i := drop_slot (cb_slots b ! i)]\<rparr>"
    using occ r(1) by (simp add: fail_slot_def upd_slot_def upd_req_def)
  show ?thesis unfolding b'
  proof (rule core_release [OF c i(1) occ r(1) i(2) Q(1)])
    show "req_ok md cf (js ! r) ?q" using coreD(6) [OF c r(2)] msg by (simp add: req_ok_def)
    show "\<not> s_occupied (drop_slot (cb_slots b ! i))" by (rule drop_slot_simps)
  qed (use Q coreD(1,4) [OF c] in simp_all)
qed

lemma commit_core:
  assumes cfg: "cfg_ok cf" and c: "core md cf js W tp Q b" and i: "i < cf_maxBatch cf" "i \<notin> set tp" and occ: "s_occupied (cb_slots b ! i)"
    and Qi: "Q i = ready md cf js tok" and fresh: "s_produced (cb_slots b ! i) = 0"
    and Q: "lax Q" "\<And>j. j \<noteq> i \<Longrightarrow> Q' j = Q j" "Q' i = slot_ok md cf js False"
  shows "core md cf js W tp Q' (commitPrefilledSlot i (s_req (cb_slots b ! i)) tok b)"
proof -
  note D = coreD [OF c]
  let ?s = "cb_slots b ! i"
  obtain r where r: "s_req ?s = Some r" "r < length js" using core_slot_req [OF c i(1) occ] by blast
  obtain t s1 where th: "applyThinkBudget cf ?s tok = (t, s1)" by fastforce
  note at = applyThink_slot [OF th]
  have warm: "\<not> cf_warmSlot cf" using cfg by (simp add: cfg_ok_def)
  define s2 where "s2 = s1\<lparr>s_pos := s_promptLen s1, s_prefillPos := s_promptLen s1, s_lastTok := t, s_produced := 1\<rparr>"
  define cn where "cn = sr_cancelled (cb_requests b ! r)"
  define q1 where "q1 = (if cn then cb_requests b ! r else push_token t (cb_requests b ! r))
      \<lparr>sr_promptTokens := s_promptLen s2, sr_cachedTokens := s_prefillStart s2,
       sr_prefilledTokens := s_promptLen s2 - s_prefillStart s2, sr_prefillSet := True\<rparr>"
  define b1 where "b1 = b\<lparr>cb_slots := (cb_slots b)[i := s2], cb_requests := (cb_requests b)[r := q1]\<rparr>"
  have ctx: "(s_pos s2 + 1 \<ge> cf_maxContext cf) = (s_promptLen ?s + s_produced ?s + 1 \<ge> cf_maxContext cf)"
    using at fresh by (simp add: s2_def)
  have run: "commitPrefilledSlot i (s_req ?s) tok b =
      (if cn \<or> stop_token cf s2 t (s_pos s2 + 1 \<ge> cf_maxContext cf)
       then retireSlot i (\<not> cn) (b1\<lparr>cb_requests := (cb_requests b)[r := finish_req [] q1]\<rparr>) else b1)"
    using occ r D(1,5) th warm
    by (simp add: commitPrefilledSlot_def Let_def upd_req_def upd_slot_def req_cancelled_def s2_def [symmetric] cn_def [symmetric]
        q1_def [symmetric] b1_def [symmetric]) (simp add: s2_def q1_def b1_def cn_def)
  have rdy: "ready md cf js tok ?s (eview (cb_engine b) i) (cb_requests b ! r)" using D(11) [OF i(1)] Qi r(1) by simp
  have q1c: "cn \<Longrightarrow> sr_tokens q1 = sr_tokens (cb_requests b ! r)" "\<not> cn \<Longrightarrow> sr_tokens q1 = sr_tokens (cb_requests b ! r) @ [t]"
    "sr_cancelled q1 = cn" "sr_error q1 = sr_error (cb_requests b ! r)" "sr_done q1 = sr_done (cb_requests b ! r)"
    by (simp_all add: q1_def push_token_def cn_def)
  have e: "think_of s2 = think_of s1" "s_occupied s2" "s_req s2 = Some r" "s_prompt s2 = s_prompt ?s" "s_promptLen s2 = s_promptLen ?s"
    "s_maxNew s2 = s_maxNew ?s" "s_stopIds s2 = s_stopIds ?s" "s_lastTok s2 = t" "s_produced s2 = Suc (s_produced ?s)"
    using at occ r(1) fresh by (simp_all add: s2_def)
  have rq2: "sr_tokens (finish_req [] q1) = sr_tokens q1" by (simp add: finish_req_def)
  have lax': "lax Q'"
  proof (rule laxI)
    show "Q' j s v rq" if "\<not> s_occupied s" for j s v rq
      using laxD [OF Q(1) that, of j] Q(2) [of j] Q(3) that by (cases "j = i") (simp_all add: slot_ok_def)
  qed
  show ?thesis
  proof (cases "cn \<or> stop_token cf s2 t (s_pos s2 + 1 \<ge> cf_maxContext cf)")
    case True
    let ?b2 = "b1\<lparr>cb_requests := (cb_requests b)[r := finish_req [] q1]\<rparr>"
    have "\<not> cf_warmSlot (cb_cfg ?b2)" "i < length (cb_slots ?b2)" "st_ckptRing (cb_engine ?b2) = []"
      using warm D(1,2) i(1) geometryD(7) [OF D(3)] by (simp_all add: b1_def)
    from retireSlot_spec [OF this, where keep = "\<not> cn" and md = md] obtain s' e' where
      rt: "retireSlot i (\<not> cn) ?b2 = ?b2\<lparr>cb_slots := (cb_slots ?b2)[i := s'], cb_engine := e'\<rparr>" "\<not> s_occupied s'"
        "same_slots (cb_engine ?b2) e'" "store_ok md (cb_engine ?b2) \<Longrightarrow> store_ok md e'" by blast
    have "req_ok md cf (js ! r) (finish_req [] q1)"
    proof (cases cn)
      case True
      then show ?thesis using D(6) [OF r(2)] q1c(1,3) by (simp add: req_ok_def finish_req_def)
    next
      case False
      show ?thesis
        by (rule emit_token(1) [OF rdy occ r(1) th e _ ctx]) (use True False q1c(2) rq2 in auto)
    qed
    note ok = this
    have "core md cf js W tp Q' (?b2\<lparr>cb_slots := (cb_slots ?b2)[i := s'], cb_engine := e'\<rparr>)"
    proof (rule core_release [OF c i(1) occ r(1) i(2) Q(1) _ _ _ rt(2) _ _ ok _ Q(2) lax'])
      show "sr_done (finish_req [] q1)" by (simp add: finish_req_def)
      show "same_slots (cb_engine b) (cb_engine (?b2\<lparr>cb_slots := (cb_slots ?b2)[i := s'], cb_engine := e'\<rparr>))"
        using rt(3) by (simp add: b1_def)
      show "store_ok md (cb_engine (?b2\<lparr>cb_slots := (cb_slots ?b2)[i := s'], cb_engine := e'\<rparr>))"
        using rt(4) D(4) by (simp add: b1_def)
    qed (use D(1) in \<open>simp_all add: b1_def\<close>)
    then show ?thesis using run True rt(1) by simp
  next
    case False
    have nd: "\<not> sr_done q1" using rdy occ q1c(5) by (simp add: ready_def)
    have ok: "req_ok md cf (js ! r) q1 \<and> slot_ok md cf js False s2 (eview (cb_engine b) i) q1"
    proof (rule emit_token(2) [OF rdy occ r(1) th e _ ctx])
      show "s_pos s2 = s_promptLen ?s + s_produced ?s" using at fresh by (simp add: s2_def)
      show "s_prefillPos s2 = s_promptLen ?s" using at by (simp add: s2_def)
    qed (use False q1c(2) nd in auto)
    have "core md cf js W tp Q' b1"
    proof (rule core_update [OF c i(1) occ r(1)])
      show "cb_cfg b1 = cf" "cb_slots b1 = (cb_slots b)[i := s2]" "cb_requests b1 = (cb_requests b)[r := q1]" using D(1) by (simp_all add: b1_def)
      show "geometry cf (cb_engine b1)" "store_ok md (cb_engine b1)" using D(3,4) by (simp_all add: b1_def)
      show "eview (cb_engine b1) j = eview (cb_engine b) j" for j by (simp add: b1_def)
      show "req_ok md cf (js ! r) q1" using ok by simp
      show "Q' i s2 (eview (cb_engine b1) i) q1" using ok Q(3) by (simp add: b1_def)
      show "Q' i s2 v rq" if "\<not> s_occupied s2" for v rq using that e(2) by simp
      show "Q' j s v rq" if "j \<noteq> i" "Q j s v rq" for j s v rq using that Q(2) by simp
      show "Q' j s v rq'" if "\<not> s_occupied s" for j s v rq' by (rule laxD [OF lax' that])
    qed (use e(2,3) D(9) i(2) in auto)
    then show ?thesis using run False by simp
  qed
qed

section \<open>The chunk loop\<close>

definition frame_slot :: "BatcherConfig \<Rightarrow> nat \<Rightarrow> ('s, 'k, 'q) ServingState \<Rightarrow> ('s, 'k, 'q) ServingState \<Rightarrow> bool" where
  "frame_slot cf i e e' \<longleftrightarrow> geometry cf e' \<and> (\<forall>j. j \<noteq> i \<longrightarrow> eview e' j = eview e j)"

lemma frame_slot_trans: "frame_slot cf i a b \<Longrightarrow> frame_slot cf i b c \<Longrightarrow> frame_slot cf i a c"
  by (simp add: frame_slot_def)

lemma frame_slot_same: "geometry cf e \<Longrightarrow> same_slots e e' \<Longrightarrow> frame_slot cf i e e'"
  by (simp add: frame_slot_def same_slots_geometry same_slots_view)

lemma frame_slotI:
  assumes "geometry cf e" "same_store e e'" "\<And>j. j \<noteq> i \<Longrightarrow> eview e' j = eview e j" "length (st_kv e' ! i) = length (st_kv e ! i)"
  shows "frame_slot cf i e e'"
proof -
  have "length (st_kv e' ! j) = length (st_kv e ! j)" for j
    using assms(3) [of j] assms(4) by (cases "j = i") (auto simp: eview_def)
  then show ?thesis using geometry_same_store [OF assms(1,2)] assms(3) by (simp add: frame_slot_def)
qed

lemma prefillSlot_spec:
  assumes ok: "forward_ok md" and g: "geometry cf e" and i: "i < cf_maxBatch cf" and c: "content md (eview e i) ctx"
    and chunk: "chunk \<noteq> []" "length ctx + length chunk \<le> cf_maxContext cf"
    and run: "prefillSlot md i chunk (length ctx) lst e = (res, e')"
  shows "frame_slot cf i e e'" "same_store e e'"
    and "res = Inr tk \<Longrightarrow> content md (eview e' i) (ctx @ chunk)"
    and "res = Inr tk \<Longrightarrow> lst \<Longrightarrow> md_sample md (snd (snd (eview e i))) (ctx_logits md (ctx @ chunk)) = (tk, snd (snd (eview e' i)))"
    and "res = Inr tk \<Longrightarrow> \<not> lst \<Longrightarrow> snd (snd (eview e' i)) = snd (snd (eview e i))"
proof -
  have fr0: "frame_slot cf i e e" using g by (simp add: frame_slot_def)
  obtain f e1 where f: "take_fault e = (f, e1)" by fastforce
  note tf = take_fault_view [OF f]
  have kv1: "st_kv e1 = st_kv e" using f by (auto simp: take_fault_def split: list.splits)
  have fr1: "frame_slot cf i e e1" by (rule frame_slotI [OF g tf(2) tf(1)]) (simp add: kv1)
  obtain h e2 where fw: "forward_slot md i (length ctx) (length ctx = 0) chunk e1 = (h, e2)" by fastforce
  have i1: "i < length (st_ssm e1)" "i < length (st_kv e1)" "i < length (st_slotSampling e1)"
    using geometryD(1-3) [of cf e1] fr1 i by (simp_all add: frame_slot_def)
  note fs = forward_slot_view [OF fw i1(1,2)]
  have cap: "length ctx + length chunk \<le> length (fst (snd (eview e1 i)))"
    using geometryD(4) [OF g i] chunk(2) kv1 by (simp add: eview_def)
  have c1: "content md (eview e1 i) ctx" using c tf(1) by simp
  have fv: "fwd_view md (length ctx) (ctx = []) chunk (eview e1 i) = (h, eview e2 i)" using fs(1) by simp
  note fc = fwd_view_content [OF ok c1 chunk(1) cap fv]
  have fr2: "frame_slot cf i e1 e2"
    using frame_slotI [of cf e1 e2 i] fr1 fs(2,3) fc(3) by (simp add: frame_slot_def eview_def)
  obtain t e3 where sm: "sample_slot md i h e2 = (t, e3)" by fastforce
  have i2: "i < length (st_slotSampling e2)" using i1(3) fs(3) by (simp add: same_store_def)
  note ss = sample_slot_view [OF sm i2]
  have kv3: "st_kv e3 = st_kv e2" using sm by (auto simp: sample_slot_def Let_def split: prod.splits)
  have fr3: "frame_slot cf i e2 e3"
    using frame_slotI [of cf e2 e3 i] fr2 ss(4,5) kv3 by (simp add: frame_slot_def)
  note fr13 = frame_slot_trans [OF fr1 frame_slot_trans [OF fr2 fr3]] and fr12 = frame_slot_trans [OF fr1 fr2]
  have st: "same_store e e2" "same_store e e3" using same_store_trans tf(2) fs(3) ss(5) by blast+
  have c3: "content md (eview e3 i) (ctx @ chunk)" using fc(2) ss(2,3) [of i] by (simp add: content_def)
  have q: "snd (snd (eview e2 i)) = snd (snd (eview e i))" using fc(4) tf(1) by simp
  have smp: "md_sample md (snd (snd (eview e i))) (ctx_logits md (ctx @ chunk)) = (t, snd (snd (eview e3 i)))"
    using ss(1) fc(1) q by simp
  consider (guard) x where "res = Inl x" "e' = e" | (fault) x where "res = Inl x" "e' = e1"
    | (tok) "res = Inr t" "e' = e3" "lst" | (mid) "res = Inr (- 1)" "e' = e2" "\<not> lst"
    using run chunk(1) f fw sm
    by (cases f) (auto simp: prefillSlot_def Let_def split: if_splits)
  note cs = this
  show "frame_slot cf i e e'" using cs fr0 fr1 fr13 fr12 by cases auto
  show "same_store e e'" using cs tf(2) st by cases auto
  show "content md (eview e' i) (ctx @ chunk)" if "res = Inr tk" using cs that c3 fc(2) by cases auto
  show "md_sample md (snd (snd (eview e i))) (ctx_logits md (ctx @ chunk)) = (tk, snd (snd (eview e' i)))" if "res = Inr tk" "lst"
    using cs that smp by cases auto
  show "snd (snd (eview e' i)) = snd (snd (eview e i))" if "res = Inr tk" "\<not> lst"
    using cs that q by cases auto
qed

lemma prefill_chunks_spec:
  assumes ok: "forward_ok md" and w: "\<not> cf_warmSlot cf" and i: "i < cf_maxBatch cf" and L: "length prompt \<le> cf_maxContext cf"
    and C: "cf_prefillChunk cf > 0" and dp: "deepest \<le> length prompt"
  shows "geometry cf e \<Longrightarrow> store_ok md e \<Longrightarrow> p < length prompt \<Longrightarrow> content md (eview e i) (take p prompt) \<Longrightarrow>
    snd (snd (eview e i)) = q \<Longrightarrow> prefill_chunks md cf i prompt deepest p ft e = (res, e') \<Longrightarrow>
    frame_slot cf i e e' \<and> store_ok md e' \<and>
    (\<forall>tk. res = Inr tk \<longrightarrow> content md (eview e' i) prompt \<and> md_sample md q (ctx_logits md prompt) = (tk, snd (snd (eview e' i))))"
proof (induction "length prompt - p" arbitrary: p ft e rule: less_induct)
  case less
  let ?t = "min (cf_prefillChunk cf) (length prompt - p)" and ?L = "length prompt"
  let ?chunk = "take ?t (drop p prompt)"
  have len: "length (take p prompt) = p" "length ?chunk = ?t" "take p prompt @ ?chunk = take (p + ?t) prompt" "?chunk \<noteq> []"
    using less.prems(3) C by (auto simp: take_add min_def)
  obtain r1 e1 where r1: "prefillSlot md i ?chunk p (p + ?t = ?L) e = (r1, e1)" by fastforce
  have sp: "prefillSlot md i ?chunk (length (take p prompt)) (p + ?t = ?L) e = (r1, e1)" using r1 len(1) by simp
  have cap: "length (take p prompt) + length ?chunk \<le> cf_maxContext cf" using len(1,2) L less.prems(3) by simp
  note ps = prefillSlot_spec [OF ok less.prems(1) i less.prems(4) len(4) cap sp]
  have g1: "geometry cf e1" using ps(1) by (simp add: frame_slot_def)
  have s1: "store_ok md e1" using same_store_ok [OF ps(2), of md] less.prems(2) by simp
  note unf = prefill_chunks.simps [of md cf i prompt deepest p ft e]
  show ?case
  proof (cases r1)
    case (Inl x)
    then have "res = Inl x" "e' = e1" using less.prems(3,6) C r1 unf by (simp_all add: Let_def)
    then show ?thesis using ps(1) s1 by simp
  next
    case (Inr tk)
    have c1: "content md (eview e1 i) (take (p + ?t) prompt)" using ps(3) [OF Inr] len(3) by simp
    define snap where "snap = (if cf_xslot cf \<and> p + ?t = deepest \<and> deepest > 0
        then snapshotSlotToPrefixImage i deepest prompt e1 else (Inr kNone, e1))"
    obtain r2 e2 where sn: "snap = (r2, e2)" by fastforce
    have "(\<exists>v. r2 = Inr v) \<and> store_ok md e2 \<and> same_slots e1 e2"
    proof (cases "cf_xslot cf \<and> p + ?t = deepest \<and> deepest > 0")
      case True
      then have "snapshotSlotToPrefixImage i deepest prompt e1 = (r2, e2)" using sn by (simp add: snap_def)
      moreover have "content md (eview e1 i) (take deepest prompt)" using c1 True by simp
      ultimately show ?thesis using snapshot_spec [OF s1 _ dp] by blast
    next
      case False
      then show ?thesis using sn s1 unfolding snap_def by auto
    qed
    then obtain v where r2: "r2 = Inr v" and s2: "store_ok md e2" and ss: "same_slots e1 e2" by blast
    have fr2: "frame_slot cf i e e2" using frame_slot_trans [OF ps(1) frame_slot_same [OF g1 ss]] .
    have step: "(res, e') = prefill_chunks md cf i prompt deepest (p + cf_prefillChunk cf) (if p + ?t = ?L then tk else ft) e2"
      using less.prems(3,6) C r1 Inr w sn r2 unf by (simp add: Let_def snap_def)
    show ?thesis
    proof (cases "p + ?t = ?L")
      case True
      then have "p + cf_prefillChunk cf \<ge> ?L" by simp
      then have "res = Inr tk" "e' = e2"
        using step True by (simp_all add: prefill_chunks.simps [of md cf i prompt deepest "p + cf_prefillChunk cf"])
      moreover have "md_sample md q (ctx_logits md prompt) = (tk, snd (snd (eview e1 i)))"
        using ps(4) [OF Inr True] less.prems(5) len(3) True by simp
      ultimately show ?thesis using fr2 s2 c1 True same_slots_view [OF ss, of i] by simp
    next
      case False
      then have lt: "p + cf_prefillChunk cf < ?L" and t: "?t = cf_prefillChunk cf" using less.prems(3) by auto
      have "frame_slot cf i e2 e' \<and> store_ok md e' \<and>
        (\<forall>tk. res = Inr tk \<longrightarrow> content md (eview e' i) prompt \<and> md_sample md q (ctx_logits md prompt) = (tk, snd (snd (eview e' i))))"
      proof (rule less.hyps)
        show "?L - (p + cf_prefillChunk cf) < ?L - p" using C less.prems(3) by simp
        show "geometry cf e2" using fr2 by (simp add: frame_slot_def)
        show "content md (eview e2 i) (take (p + cf_prefillChunk cf) prompt)" using c1 t same_slots_view [OF ss, of i] by simp
        show "snd (snd (eview e2 i)) = q" using ps(5) [OF Inr False] less.prems(5) same_slots_view [OF ss, of i] by simp
        show "prefill_chunks md cf i prompt deepest (p + cf_prefillChunk cf) (if p + ?t = ?L then tk else ft) e2 = (res, e')" using step by simp
      qed (use s2 lt in auto)
      then show ?thesis using frame_slot_trans [OF fr2] by blast
    qed
  qed
qed

end
