(* ===== verification/BatcherEager.thy ===== *)
theory BatcherEager
  imports BatcherPrefill
begin

text \<open>The eager prefill section, one slot at a time and batched over runs of consecutive slots.\<close>

section \<open>Prefilling one slot\<close>

lemma core_feed:
  assumes c: "core md cf js W tp Q b" and tp': "distinct tp'" "set tp' \<subseteq> set tp"
    and e': "frame_slot cf i (cb_engine b) e'" "store_ok md e'"
    and Q': "\<And>j s v rq. j < cf_maxBatch cf \<Longrightarrow> j \<noteq> i \<Longrightarrow> Q j s v rq \<Longrightarrow> Q' j s v rq"
      "Q' i (cb_slots b ! i) (eview e' i) (cb_requests b ! the (s_req (cb_slots b ! i)))"
  shows "core md cf js W tp' Q' (b\<lparr>cb_engine := e'\<rparr>)"
proof -
  note D = coreD [OF c]
  have "Q' j (cb_slots b ! j) (eview e' j) (cb_requests b ! the (s_req (cb_slots b ! j)))" if "j < cf_maxBatch cf" for j
    using Q'(1) [OF that _ D(11) [OF that]] Q'(2) e'(1) by (cases "j = i") (simp_all add: frame_slot_def)
  then show ?thesis using c tp' e' unfolding core_def frame_slot_def by auto
qed

lemma ready_prefilled:
  assumes ing: "ingesting md cf (js ! r) eager s v0 rq n" and s: "s_req s = Some r" "job_slot cf js s" "\<not> sr_done rq"
    and v: "content md v (s_prompt s)"
      "md_sample md (snd (snd v0)) (ctx_logits md (s_prompt s)) = (tok, snd (snd v))"
  shows "ready md cf js tok s v rq"
proof -
  obtain prompt maxNew stops p where j: "js ! r = (prompt, maxNew, stops, p)" by (metis prod_cases4)
  have f: "s_produced s = 0" "sr_tokens rq = []" "think_of s = initThinkState cf prompt noThink" "snd (snd v0) = md_slotSampling md p prompt"
    "s_prompt s = prompt"
    using ing s j by (simp_all add: ingesting_def job_slot_def)
  show ?thesis unfolding ready_def
    using f s v j by (auto simp: serve_alone_def)
qed

lemma upd_frame [simp]:
  "j \<noteq> i \<Longrightarrow> cb_slots (upd_slot i f b) ! j = cb_slots b ! j" "cb_waiting (upd_slot i f b) = cb_waiting b"
  "cb_slots (upd_eng g b) = cb_slots b" "cb_waiting (upd_eng g b) = cb_waiting b"
  "cb_slots (upd_req r h b) = cb_slots b" "cb_waiting (upd_req r h b) = cb_waiting b"
  "cb_cfg (upd_slot i f b) = cb_cfg b" "cb_cfg (upd_eng g b) = cb_cfg b" "cb_cfg (upd_req r h b) = cb_cfg b"
  by (simp_all add: upd_slot_def upd_eng_def upd_req_def split: option.splits)

lemma retire_frame [simp]:
  "j \<noteq> i \<Longrightarrow> cb_slots (retireSlot i keep b) ! j = cb_slots b ! j" "cb_waiting (retireSlot i keep b) = cb_waiting b"
  "cb_cfg (retireSlot i keep b) = cb_cfg b"
  by (simp_all add: retireSlot_def Let_def)

lemma commit_frame [simp]:
  "j \<noteq> i \<Longrightarrow> cb_slots (commitPrefilledSlot i r t b) ! j = cb_slots b ! j"
  "cb_waiting (commitPrefilledSlot i r t b) = cb_waiting b" "cb_cfg (commitPrefilledSlot i r t b) = cb_cfg b"
  by (simp_all add: commitPrefilledSlot_def Let_def case_prod_beta)

lemma fail_frame [simp]:
  "j \<noteq> i \<Longrightarrow> cb_slots (fail_slot i r m b) ! j = cb_slots b ! j" "cb_waiting (fail_slot i r m b) = cb_waiting b"
  "cb_cfg (fail_slot i r m b) = cb_cfg b"
  by (simp_all add: fail_slot_def)

lemma admitted_cases:
  obtains "prefillSlotAdmitted md i b = b"
  | m e where "prefillSlotAdmitted md i b = fail_slot i (s_req (cb_slots b ! i)) m (b\<lparr>cb_engine := e\<rparr>)"
  | t e where "prefillSlotAdmitted md i b = commitPrefilledSlot i (s_req (cb_slots b ! i)) t (b\<lparr>cb_engine := e\<rparr>)"
proof (cases "\<not> s_occupied (cb_slots b ! i) \<or> length (s_prompt (cb_slots b ! i)) = 0 \<or> s_prefillStart (cb_slots b ! i) \<ge> length (s_prompt (cb_slots b ! i))")
  case True
  then have "prefillSlotAdmitted md i b = b" by (simp only: prefillSlotAdmitted_def Let_def) auto
  then show ?thesis by (rule that(1))
next
  case False
  let ?s = "cb_slots b ! i" and ?cf = "cb_cfg b"
  obtain res e where "prefill_chunks md ?cf i (s_prompt ?s) (if cf_xslot ?cf \<and> cf_prefillChunk ?cf > 0 then (length (s_prompt ?s) div cf_prefillChunk ?cf) * cf_prefillChunk ?cf else 0)
     (s_prefillStart ?s) (- 1) (if s_prefillStart ?s > 0 then restoreSlotSsmCkptAtPos i (s_prefillStart ?s) (cb_engine b) else cb_engine b) = (res, e)" by fastforce
  note run = this
  have "prefillSlotAdmitted md i b = (case res of
      Inl x \<Rightarrow> fail_slot i (s_req ?s) (''prefill failed: '' @ what x) (b\<lparr>cb_engine := e\<rparr>)
    | Inr t \<Rightarrow> commitPrefilledSlot i (s_req ?s) t (b\<lparr>cb_engine := (if cf_xslot ?cf then drainPrefixImageFrees e else e)\<rparr>))"
    unfolding prefillSlotAdmitted_def Let_def run using False by (simp split: sum.split)
  then show ?thesis using that(2,3) by (cases res) auto
qed

lemma admitted_frame:
  "j \<noteq> i \<Longrightarrow> cb_slots (prefillSlotAdmitted md i b) ! j = cb_slots b ! j" "cb_waiting (prefillSlotAdmitted md i b) = cb_waiting b"
  by (cases rule: admitted_cases [of md i b]; simp)+

text \<open>An eager slot: its prompt is prefilled from the position it starts at.\<close>

lemma eager_slot:
  assumes c: "core md cf js W (i # tp) (Qok md cf js (i # tp)) b"
  obtains r n where "i < cf_maxBatch cf" "s_occupied (cb_slots b ! i)" "s_req (cb_slots b ! i) = Some r" "r < length js" "i \<notin> set tp"
    "job_slot cf js (cb_slots b ! i)" "\<not> sr_done (cb_requests b ! r)" "s_prompt (cb_slots b ! i) \<noteq> []"
    "length (s_prompt (cb_slots b ! i)) < cf_maxContext cf"
    "ingesting md cf (js ! r) True (cb_slots b ! i) (eview (cb_engine b) i) (cb_requests b ! r) n"
    "s_prefillStart (cb_slots b ! i) = n" "n < length (s_prompt (cb_slots b ! i))"
    "content md (eview (cb_engine b) i) (take n (s_prompt (cb_slots b ! i)))" "cf_prefillChunk cf > 0"
    "s_produced (cb_slots b ! i) = 0"
proof -
  note D = coreD [OF c]
  have i: "i < cf_maxBatch cf" "s_occupied (cb_slots b ! i)" "i \<notin> set tp" using D(9) D(10) [of i] by auto
  obtain r where r: "s_req (cb_slots b ! i) = Some r" "r < length js" using core_slot_req [OF c i(1,2)] by blast
  have ok: "slot_ok md cf js True (cb_slots b ! i) (eview (cb_engine b) i) (cb_requests b ! r)"
    using D(11) [OF i(1)] r(1) by simp
  obtain n where n: "job_slot cf js (cb_slots b ! i)" "\<not> sr_done (cb_requests b ! r)"
    "ingesting md cf (js ! r) True (cb_slots b ! i) (eview (cb_engine b) i) (cb_requests b ! r) n"
    using ok i(2) r(1) by (auto simp: slot_ok_def)
  obtain prompt maxNew stops p where j: "js ! r = (prompt, maxNew, stops, p)" by (metis prod_cases4)
  have f: "s_prompt (cb_slots b ! i) = prompt" "prompt \<noteq> []" "length prompt < cf_maxContext cf" using n(1) r(1) j by (simp_all add: job_slot_def)
  have g: "s_prefillStart (cb_slots b ! i) = n" "n < length prompt" "content md (eview (cb_engine b) i) (take n prompt)"
    "cf_prefillChunk cf > 0" "s_produced (cb_slots b ! i) = 0"
    using n(3) j by (simp_all add: ingesting_def)
  show ?thesis using that [OF i(1,2) r i(3) n(1,2) _ _ n(3) g(1) _ _ g(4,5)] f g(2,3) by simp
qed

lemma Qok_other: "j \<noteq> i \<Longrightarrow> slot_ok md cf js (j \<in> set (i # tp)) s v rq \<Longrightarrow> slot_ok md cf js (j \<in> set tp) s v rq"
  by simp

lemma prefillSlotAdmitted_core:
  assumes cfg: "cfg_ok cf" "forward_ok md" and c: "core md cf js W (i # tp) (Qok md cf js (i # tp)) b"
  shows "core md cf js W tp (Qok md cf js tp) (prefillSlotAdmitted md i b)"
proof -
  note D = coreD [OF c]
  obtain r n where E: "i < cf_maxBatch cf" "s_occupied (cb_slots b ! i)" "s_req (cb_slots b ! i) = Some r" "r < length js" "i \<notin> set tp"
    "job_slot cf js (cb_slots b ! i)" "\<not> sr_done (cb_requests b ! r)" "s_prompt (cb_slots b ! i) \<noteq> []"
    "length (s_prompt (cb_slots b ! i)) < cf_maxContext cf"
    "ingesting md cf (js ! r) True (cb_slots b ! i) (eview (cb_engine b) i) (cb_requests b ! r) n"
    "s_prefillStart (cb_slots b ! i) = n" "n < length (s_prompt (cb_slots b ! i))"
    "content md (eview (cb_engine b) i) (take n (s_prompt (cb_slots b ! i)))" "cf_prefillChunk cf > 0"
    "s_produced (cb_slots b ! i) = 0" by (rule eager_slot [OF c])
  let ?s = "cb_slots b ! i"
  define dp where "dp = (if cf_xslot cf \<and> cf_prefillChunk cf > 0 then (length (s_prompt ?s) div cf_prefillChunk cf) * cf_prefillChunk cf else 0)"
  have dple: "dp \<le> length (s_prompt ?s)" by (simp add: dp_def)
  obtain res e1 where run: "prefill_chunks md cf i (s_prompt ?s) dp n (- 1) (cb_engine b) = (res, e1)" by fastforce
  have warm: "\<not> cf_warmSlot cf" using cfg(1) by (simp add: cfg_ok_def)
  have pc: "frame_slot cf i (cb_engine b) e1" "store_ok md e1"
    "\<And>tk. res = Inr tk \<Longrightarrow> content md (eview e1 i) (s_prompt ?s) \<and>
       md_sample md (snd (snd (eview (cb_engine b) i))) (ctx_logits md (s_prompt ?s)) = (tk, snd (snd (eview e1 i)))"
    using prefill_chunks_spec [OF cfg(2) warm E(1) less_imp_le [OF E(9)] E(14) dple D(3,4) E(12,13) refl run] by blast+
  have restore: "restoreSlotSsmCkptAtPos i n (cb_engine b) = cb_engine b" using geometryD(7) [OF D(3)] by simp
  have unf: "prefillSlotAdmitted md i b = (case res of
       Inl x \<Rightarrow> fail_slot i (s_req ?s) (''prefill failed: '' @ what x) (b\<lparr>cb_engine := e1\<rparr>)
     | Inr t \<Rightarrow> commitPrefilledSlot i (s_req ?s) t (b\<lparr>cb_engine := (if cf_xslot cf then drainPrefixImageFrees e1 else e1)\<rparr>))"
    unfolding prefillSlotAdmitted_def Let_def D(1) E(11) restore if_cancel dp_def [symmetric] run
    using E(2,8,12) by (simp split: sum.split)
  have tp: "distinct tp" "set tp \<subseteq> set (i # tp)" using D(9) by auto
  show ?thesis
  proof (cases res)
    case (Inl x)
    let ?Q = "(Qok md cf js tp)(i := \<lambda>_ _ _. True)"
    have "core md cf js W tp ?Q (b\<lparr>cb_engine := e1\<rparr>)"
      by (rule core_feed [OF c tp pc(1,2)]) auto
    then have "core md cf js W tp (Qok md cf js tp) (fail_slot i (s_req (cb_slots (b\<lparr>cb_engine := e1\<rparr>) ! i)) (''prefill failed: '' @ what x) (b\<lparr>cb_engine := e1\<rparr>))"
      by (rule fail_slot_core) (use E(1,2,5) in \<open>auto intro: lax_upd\<close>)
    then show ?thesis using unf Inl by simp
  next
    case (Inr t)
    let ?e = "if cf_xslot cf then drainPrefixImageFrees e1 else e1"
    let ?Q = "(Qok md cf js tp)(i := ready md cf js t)"
    have sl: "same_slots e1 ?e" and so: "store_ok md ?e" using pc(2) store_ok_drain by auto
    have fr: "frame_slot cf i (cb_engine b) ?e"
      using frame_slot_trans [OF pc(1) frame_slot_same [OF _ sl]] pc(1) by (simp add: frame_slot_def)
    have rdy: "ready md cf js t ?s (eview ?e i) (cb_requests b ! the (s_req ?s))"
      using ready_prefilled [OF E(10,3,6,7)] pc(3) [OF Inr] same_slots_view [OF sl, of i] E(3) by simp
    have c1: "core md cf js W tp ?Q (b\<lparr>cb_engine := ?e\<rparr>)"
      by (rule core_feed [OF c tp fr so]) (use rdy in auto)
    have "core md cf js W tp (Qok md cf js tp) (commitPrefilledSlot i (s_req (cb_slots (b\<lparr>cb_engine := ?e\<rparr>) ! i)) t (b\<lparr>cb_engine := ?e\<rparr>))"
      by (rule commit_core [OF cfg(1) c1 E(1,5)]) (use E(2,5,15) in \<open>auto intro: lax_upd\<close>)
    then show ?thesis using unf Inr by simp
  qed
qed

section \<open>One ragged forward\<close>

lemma core_views:
  assumes c: "core md cf js W tp Q b" and e': "geometry cf e'" "store_ok md e'" and tp': "distinct tp'" "set tp' \<subseteq> set tp"
    and Q': "\<And>j. j < cf_maxBatch cf \<Longrightarrow> Q' j (cb_slots b ! j) (eview e' j) (cb_requests b ! the (s_req (cb_slots b ! j)))"
  shows "core md cf js W tp' Q' (b\<lparr>cb_engine := e'\<rparr>)"
  using c e' tp' Q' unfolding core_def by (simp add: subset_iff)

lemma check_chunks_None:
  "check_chunks mc cs sps = None \<Longrightarrow> length cs = length sps \<Longrightarrow> k < length cs \<Longrightarrow> cs ! k \<noteq> [] \<and> sps ! k + length (cs ! k) \<le> mc"
  by (induction mc cs sps arbitrary: k rule: check_chunks.induct) (auto simp: nth_Cons split: nat.splits if_splits)

lemma fwd_view_length:
  assumes "forward_ok md" "fwd_view md start sq chunk v = (h, v')" "start + length chunk \<le> length (fst (snd v))"
  shows "length (fst (snd v')) = length (fst (snd v))"
proof -
  obtain s kv q where v: "v = (s, kv, q)" by (metis prod_cases3)
  obtain s' rows h' where f: "md_forward md (if sq then md_zero md else s) (take start kv) chunk = (s', rows, h')" by (metis prod_cases3)
  have "length rows = length chunk" using assms(1) f unfolding forward_ok_def by (metis fst_conv snd_conv)
  then show ?thesis using assms(2,3) v f by (auto simp: fwd_view_def Let_def length_write_rows)
qed

text \<open>The forward and the samples of a run of consecutive slots, slot by slot.\<close>

lemma ragged_spec:
  assumes ok: "forward_ok md" and g: "geometry cf e" and hi: "lo + N \<le> cf_maxBatch cf"
    and rs: "rs = map (\<lambda>k. (lo + k, start k, start k = 0, chunk k)) [0..<N]"
    and fits: "\<forall>k < N. chunk k \<noteq> [] \<and> start k + length (chunk k) \<le> cf_maxContext cf"
    and fw: "forward_rows md rs e = (hs, e1)" and sm: "sample_rows md (zip [lo..<lo + N] hs) e1 = (ts, e2)"
  shows "same_store e e2" "geometry cf e2" "length ts = N" "\<And>j. j \<notin> {lo..<lo + N} \<Longrightarrow> eview e2 j = eview e j"
    and "\<And>k ctx. k < N \<Longrightarrow> content md (eview e (lo + k)) ctx \<Longrightarrow> start k = length ctx \<Longrightarrow>
      content md (eview e2 (lo + k)) (ctx @ chunk k) \<and>
      md_sample md (snd (snd (eview e (lo + k)))) (ctx_logits md (ctx @ chunk k)) = (ts ! k, snd (snd (eview e2 (lo + k))))"
proof -
  note G = geometryD [OF g]
  have fst_rs: "map fst rs = [lo..<lo + N]" by (rule nth_equalityI) (simp_all add: rs)
  have d: "distinct (map fst rs)" and len: "length rs = N" using fst_rs by (simp, simp add: rs)
  have im: "fst ` set rs = {lo..<lo + N}" using fst_rs by (metis set_map set_upt)
  have b1: "\<forall>r \<in> set rs. fst r < length (st_ssm e) \<and> fst r < length (st_kv e)" using G(1,2) hi by (auto simp: rs)
  note F = forward_rows_view [OF fw d b1]
  have lh: "length hs = N" and st1: "same_store e e1" using F len by blast+
  have fz: "map fst (zip [lo..<lo + N] hs) = [lo..<lo + N]" using lh by simp
  have dz: "distinct (map fst (zip [lo..<lo + N] hs))" using fz by simp
  have iz: "fst ` set (zip [lo..<lo + N] hs) = {lo..<lo + N}" using fz by (metis set_map set_upt)
  have "length (st_slotSampling e1) = cf_maxBatch cf" using st1 G(3) by (simp add: same_store_def)
  then have b2: "\<forall>r \<in> set (zip [lo..<lo + N] hs). fst r < length (st_slotSampling e1)" using hi by (auto dest: set_zip_leftD)
  note S = sample_rows_view [OF sm dz b2]
  show st2: "same_store e e2" using same_store_trans [OF st1] S by blast
  show "length ts = N" using S lh by simp
  show out: "eview e2 j = eview e j" if "j \<notin> {lo..<lo + N}" for j using F S that im iz by metis
  have row: "fwd_view md (start k) (start k = 0) (chunk k) (eview e (lo + k)) = (hs ! k, eview e1 (lo + k))"
    "md_sample md (snd (snd (eview e1 (lo + k)))) (hs ! k) = (ts ! k, snd (snd (eview e2 (lo + k))))" if k: "k < N" for k
  proof -
    have "rs ! k = (lo + k, start k, start k = 0, chunk k)" using k by (simp add: rs)
    then show "fwd_view md (start k) (start k = 0) (chunk k) (eview e (lo + k)) = (hs ! k, eview e1 (lo + k))"
      using F k len by auto
    have "zip [lo..<lo + N] hs ! k = (lo + k, hs ! k)" using k lh by simp
    then show "md_sample md (snd (snd (eview e1 (lo + k)))) (hs ! k) = (ts ! k, snd (snd (eview e2 (lo + k))))"
      using S k lh by auto
  qed
  have same: "fst (eview e2 j) = fst (eview e1 j)" "fst (snd (eview e2 j)) = fst (snd (eview e1 j))" for j using S by blast+
  have cap: "start k + length (chunk k) \<le> length (fst (snd (eview e (lo + k))))" if k: "k < N" for k
    using le_trans [of "start k + length (chunk k)" "cf_maxContext cf"] fits k G(4) [of "lo + k"] hi by (simp add: eview_def)
  have kvlen: "length (st_kv e2 ! j) = length (st_kv e ! j)" for j
  proof (cases "j \<in> {lo..<lo + N}")
    case True
    define k where "k = j - lo"
    have k: "k < N" "j = lo + k" using True by (auto simp: k_def)
    show ?thesis using fwd_view_length [OF ok row(1) [OF k(1)] cap [OF k(1)]] same(2) [of j] k(2) by (simp add: eview_def)
  next
    case False
    then show ?thesis using out [OF False] by (simp add: eview_def)
  qed
  show "geometry cf e2" using geometry_same_store [OF g st2] kvlen by simp
  show "content md (eview e2 (lo + k)) (ctx @ chunk k) \<and>
      md_sample md (snd (snd (eview e (lo + k)))) (ctx_logits md (ctx @ chunk k)) = (ts ! k, snd (snd (eview e2 (lo + k))))"
    if k: "k < N" and c: "content md (eview e (lo + k)) ctx" and s: "start k = length ctx" for k ctx
  proof -
    have "fwd_view md (length ctx) (ctx = []) (chunk k) (eview e (lo + k)) = (hs ! k, eview e1 (lo + k))"
      using row(1) [OF k] s by simp
    from fwd_view_content [OF ok c _ _ this] have fc: "hs ! k = ctx_logits md (ctx @ chunk k)" "content md (eview e1 (lo + k)) (ctx @ chunk k)"
      "snd (snd (eview e1 (lo + k))) = snd (snd (eview e (lo + k)))"
      using fits k cap [OF k] s by simp_all
    then show ?thesis using row(2) [OF k] same [of "lo + k"] by (simp add: content_def)
  qed
qed

lemma take_fault_keeps:
  assumes "take_fault e = (f, e')" "geometry cf e"
  shows "geometry cf e'"
  using assms by (auto simp: take_fault_def geometry_def split: list.splits)

lemma runVarlen_spec:
  assumes ok: "forward_ok md" and g: "geometry cf e" and len: "length chunks = N" "length sps = N"
    and run: "runVarlenPrefill md lo chunks sps True e = (res, e')"
  shows "same_store e e'" "geometry cf e'" "\<And>j. j \<notin> {lo..<lo + N} \<Longrightarrow> eview e' j = eview e j"
    and "\<And>x j. res = Inl x \<Longrightarrow> eview e' j = eview e j" and "\<And>ts. res = Inr ts \<Longrightarrow> length ts = N"
    and "\<And>ts k ctx. res = Inr ts \<Longrightarrow> k < N \<Longrightarrow> content md (eview e (lo + k)) ctx \<Longrightarrow> sps ! k = length ctx \<Longrightarrow>
      content md (eview e' (lo + k)) (ctx @ chunks ! k) \<and>
      md_sample md (snd (snd (eview e (lo + k)))) (ctx_logits md (ctx @ chunks ! k)) = (ts ! k, snd (snd (eview e' (lo + k))))"
proof -
  obtain f e1 where f: "take_fault e = (f, e1)" by fastforce
  note tf = take_fault_view [OF f] and tg = take_fault_keeps [OF f g]
  let ?rs = "map (\<lambda>i. (lo + i, sps ! i, sps ! i = 0, chunks ! i)) [0..<N]"
  obtain hs e2 where fw: "forward_rows md ?rs e1 = (hs, e2)" by fastforce
  obtain ts e3 where sm: "sample_rows md (zip [lo..<lo + N] hs) e2 = (ts, e3)" by fastforce
  consider (guard) x where "res = Inl x" "e' = e" | (none) "res = Inr []" "e' = e" "N = 0" | (fault) x where "res = Inl x" "e' = e1"
    | (tok) "res = Inr ts" "e' = e3" "lo + N \<le> cf_maxBatch cf" "check_chunks (cf_maxContext cf) chunks sps = None"
    using run len f fw sm geometryD(5,6) [OF g]
    by (cases f) (auto simp: runVarlenPrefill_def Let_def split: if_splits option.splits)
  note cs = this
  have R: "same_store e e3" "geometry cf e3" "length ts = N" "\<And>j. j \<notin> {lo..<lo + N} \<Longrightarrow> eview e3 j = eview e j"
    "\<And>k ctx. k < N \<Longrightarrow> content md (eview e (lo + k)) ctx \<Longrightarrow> sps ! k = length ctx \<Longrightarrow>
      content md (eview e3 (lo + k)) (ctx @ chunks ! k) \<and>
      md_sample md (snd (snd (eview e (lo + k)))) (ctx_logits md (ctx @ chunks ! k)) = (ts ! k, snd (snd (eview e3 (lo + k))))"
    if t: "lo + N \<le> cf_maxBatch cf" "check_chunks (cf_maxContext cf) chunks sps = None"
  proof -
    have fits: "\<forall>k < N. chunks ! k \<noteq> [] \<and> sps ! k + length (chunks ! k) \<le> cf_maxContext cf"
      using check_chunks_None [OF t(2)] len by simp
    note r = ragged_spec [OF ok tg t(1) refl fits fw sm]
    show "same_store e e3" by (rule same_store_trans [OF tf(2) r(1)])
    show "geometry cf e3" "length ts = N" using r(2,3) by simp_all
    show "eview e3 j = eview e j" if "j \<notin> {lo..<lo + N}" for j using r(4) [OF that] tf(1) by simp
    show "content md (eview e3 (lo + k)) (ctx @ chunks ! k) \<and>
      md_sample md (snd (snd (eview e (lo + k)))) (ctx_logits md (ctx @ chunks ! k)) = (ts ! k, snd (snd (eview e3 (lo + k))))"
      if "k < N" "content md (eview e (lo + k)) ctx" "sps ! k = length ctx" for k ctx
      using r(5) [OF that(1) _ that(3)] that(2) tf(1) by simp
  qed
  show "same_store e e'" using cs R(1) tf(2) by cases auto
  show "geometry cf e'" using cs R(2) tg g by cases auto
  show "eview e' j = eview e j" if "j \<notin> {lo..<lo + N}" for j using cs R(4) tf(1) that by cases auto
  show "eview e' j = eview e j" if "res = Inl x" for x j using cs that tf(1) by cases auto
  show "length ts' = N" if "res = Inr ts'" for ts' using cs that R(3) by cases auto
  show "content md (eview e' (lo + k)) (ctx @ chunks ! k) \<and>
      md_sample md (snd (snd (eview e (lo + k)))) (ctx_logits md (ctx @ chunks ! k)) = (ts' ! k, snd (snd (eview e' (lo + k))))"
    if "res = Inr ts'" "k < N" "content md (eview e (lo + k)) ctx" "sps ! k = length ctx" for ts' k ctx
    using cs that R(5) by cases auto
qed

text \<open>A loop over the slots, one after the other.\<close>

lemma core_fold_slots:
  assumes step: "\<And>i b. lo \<le> i \<Longrightarrow> i < hi \<Longrightarrow> core md cf js W tp (\<lambda>j. if lo \<le> j \<and> j < i then P j else Q j) b \<Longrightarrow>
      core md cf js W tp (\<lambda>j. if lo \<le> j \<and> j < Suc i then P j else Q j) (f i b)"
    and b: "core md cf js W tp Q b" and le: "lo \<le> hi"
  shows "core md cf js W tp (\<lambda>j. if lo \<le> j \<and> j < hi then P j else Q j) (fold f [lo..<hi] b)"
proof -
  have "core md cf js W tp (\<lambda>j. if lo \<le> j \<and> j < m then P j else Q j) (fold f [lo..<m] b)" if "lo \<le> m" "m \<le> hi" for m
    using that
  proof (induction m rule: dec_induct)
    case base
    have "(\<lambda>j. if lo \<le> j \<and> j < lo then P j else Q j) = Q" by (rule ext) auto
    then show ?case using b by simp
  next
    case (step n)
    then show ?case using assms(1) [of n] by simp
  qed
  then show ?thesis using le by simp
qed

section \<open>Batched prefill\<close>

lemma core_at:
  assumes "core md cf js W tp Q b" "i < cf_maxBatch cf"
  shows "Q i (cb_slots b ! i) (eview (cb_engine b) i) (cb_requests b ! the (s_req (cb_slots b ! i)))"
  by (rule coreD(11) [OF assms])

definition held :: "(nat \<Rightarrow> Slot) \<Rightarrow> (nat \<Rightarrow> Slot \<Rightarrow> ('s, 'k, 'q) slot_view \<Rightarrow> ServingRequest \<Rightarrow> bool) \<Rightarrow> ('s, 'k, 'q) slot_pred" where
  "held S P j s v rq \<longleftrightarrow> s_occupied s \<longrightarrow> s = S j \<and> P j s v rq"

lemma heldD: "held S P j s v rq \<Longrightarrow> s_occupied s \<Longrightarrow> s = S j \<and> P j s v rq"
  unfolding held_def by blast

lemma lax_held: "lax (held S P)"
  by (rule laxI) (simp add: held_def)

lemma lax_split: "lax P \<Longrightarrow> lax Q \<Longrightarrow> lax (\<lambda>j. if c j then P j else Q j)"
  by (rule laxI) (simp add: laxD)

lemma commit_free: "\<not> s_occupied (cb_slots b ! i) \<Longrightarrow> commitPrefilledSlot i r t b = b"
  and fail_free: "\<not> s_occupied (cb_slots b ! i) \<Longrightarrow> fail_slot i r m b = b"
  by (simp_all add: commitPrefilledSlot_def fail_slot_def Let_def)

text \<open>Where the loop stands at slot \<open>i\<close>: the slots before it are done.\<close>

abbreviation upto_slot :: "nat \<Rightarrow> nat \<Rightarrow> ('s, 'k, 'q) slot_pred \<Rightarrow> ('s, 'k, 'q) slot_pred \<Rightarrow> ('s, 'k, 'q) slot_pred" where
  "upto_slot lo i P Q \<equiv> (\<lambda>j. if lo \<le> j \<and> j < i then P j else Q j)"

lemma core_upto_free:
  assumes "core md cf js W tp (upto_slot lo i P Q) b" "\<not> s_occupied (cb_slots b ! i)" "lax P"
  shows "core md cf js W tp (upto_slot lo (Suc i) P Q) b"
  by (rule core_weaken [OF assms(1)]) (use assms(2,3) in \<open>auto simp: less_Suc_eq intro: laxD split: if_splits\<close>)

lemma fail_loop:
  assumes c: "core md cf js W tp (held S P) b" and hi: "lo \<le> hi" "hi \<le> cf_maxBatch cf" "\<And>i. lo \<le> i \<Longrightarrow> i < hi \<Longrightarrow> i \<notin> set tp"
    and Q: "\<And>j s v rq. j < cf_maxBatch cf \<Longrightarrow> j \<notin> {lo..<hi} \<Longrightarrow> held S P j s v rq \<Longrightarrow> Q j s v rq" "lax Q" and msg: "msg \<noteq> []"
  shows "core md cf js W tp Q (fold (\<lambda>i. fail_slot i (s_req (S i)) msg) [lo..<hi] b)"
proof -
  have "core md cf js W tp (upto_slot lo hi Q (held S P)) (fold (\<lambda>i. fail_slot i (s_req (S i)) msg) [lo..<hi] b)"
  proof (rule core_fold_slots [OF _ c hi(1)])
    fix i b assume i: "lo \<le> i" "i < hi" and c: "core md cf js W tp (upto_slot lo i Q (held S P)) b"
    have im: "i < cf_maxBatch cf" using i hi by simp
    show "core md cf js W tp (upto_slot lo (Suc i) Q (held S P)) (fail_slot i (s_req (S i)) msg b)"
    proof (cases "s_occupied (cb_slots b ! i)")
      case True
      have "s_req (S i) = s_req (cb_slots b ! i)" using core_at [OF c im] True by (auto dest: heldD)
      then show ?thesis
        using fail_slot_core [OF c im hi(3) [OF i] True, of "upto_slot lo (Suc i) Q (held S P)" msg]
        using lax_split [OF Q(2) lax_held] msg by simp
    next
      case False
      then show ?thesis using core_upto_free [OF c False Q(2)] by (simp add: fail_free)
    qed
  qed
  then show ?thesis by (rule core_weaken) (use Q(1) in \<open>auto split: if_splits\<close>)
qed

lemma commit_loop:
  assumes cfg: "cfg_ok cf" and c: "core md cf js W tp (held S P) b"
    and hi: "lo \<le> hi" "hi \<le> cf_maxBatch cf" "\<And>i. lo \<le> i \<Longrightarrow> i < hi \<Longrightarrow> i \<notin> set tp"
    and P: "\<And>i s v rq. lo \<le> i \<Longrightarrow> i < hi \<Longrightarrow> P i s v rq \<Longrightarrow> ready md cf js (tok i) s v rq \<and> s_produced s = 0"
    and Q: "\<And>j s v rq. j < cf_maxBatch cf \<Longrightarrow> j \<notin> {lo..<hi} \<Longrightarrow> held S P j s v rq \<Longrightarrow> Qok md cf js tp j s v rq"
  shows "core md cf js W tp (Qok md cf js tp) (fold (\<lambda>i. commitPrefilledSlot i (s_req (S i)) (tok i)) [lo..<hi] b)"
proof -
  let ?Q = "Qok md cf js tp"
  have "core md cf js W tp (upto_slot lo hi ?Q (held S P)) (fold (\<lambda>i. commitPrefilledSlot i (s_req (S i)) (tok i)) [lo..<hi] b)"
  proof (rule core_fold_slots [OF _ c hi(1)])
    fix i b assume i: "lo \<le> i" "i < hi" and c: "core md cf js W tp (upto_slot lo i ?Q (held S P)) b"
    have im: "i < cf_maxBatch cf" using i hi by simp
    show "core md cf js W tp (upto_slot lo (Suc i) ?Q (held S P)) (commitPrefilledSlot i (s_req (S i)) (tok i) b)"
    proof (cases "s_occupied (cb_slots b ! i)")
      case True
      have at: "cb_slots b ! i = S i" "P i (cb_slots b ! i) (eview (cb_engine b) i) (cb_requests b ! the (s_req (cb_slots b ! i)))"
        using core_at [OF c im] True by (auto dest: heldD)
      let ?Q1 = "(upto_slot lo i ?Q (held S P))(i := ready md cf js (tok i))"
      have c1: "core md cf js W tp ?Q1 b"
        by (rule core_weaken [OF c]) (use P [OF i] i True in \<open>auto simp: held_def\<close>)
      have "lax ?Q1" by (rule lax_upd [OF lax_split [OF lax_Qok lax_held]]) simp
      from commit_core [OF cfg c1 im hi(3) [OF i] True _ _ this, of "tok i" "upto_slot lo (Suc i) ?Q (held S P)"]
      show ?thesis using P [OF i at(2)] i hi(3) [OF i] at(1) by auto
    next
      case False
      then show ?thesis using core_upto_free [OF c False lax_Qok] by (simp add: commit_free)
    qed
  qed
  then show ?thesis by (rule core_weaken) (use Q in \<open>auto split: if_splits\<close>)
qed

definition run_items :: "(nat \<Rightarrow> Slot) \<Rightarrow> nat list \<Rightarrow> run_item list" where
  "run_items S is = map (\<lambda>i. (i, s_prompt (S i), s_req (S i))) is"

lemma run_items_simps [simp]: "run_items S [] = []" "run_items S (i # is) = (i, s_prompt (S i), s_req (S i)) # run_items S is"
  by (simp_all add: run_items_def)

lemma prefill_batch_core:
  assumes cfg: "cfg_ok cf" "forward_ok md" and N: "0 < N"
    and c: "core md cf js W ([lo..<lo + N] @ tp) (Qok md cf js ([lo..<lo + N] @ tp)) b"
    and S: "\<And>i. i \<in> {lo..<lo + N} \<Longrightarrow> S i = cb_slots b ! i"
  shows "core md cf js W tp (Qok md cf js tp) (prefill_batch md (run_items S [lo..<lo + N]) b)"
proof -
  note D = coreD [OF c]
  let ?B = "{lo..<lo + N}"
  have "lo + N - 1 \<in> set [lo..<lo + N]" unfolding set_upt using N by auto
  then have "lo + N - 1 < cf_maxBatch cf" using D(10) by simp
  then have hi: "lo + N \<le> cf_maxBatch cf" using N by arith
  have d: "distinct tp" "set tp \<subseteq> set ([lo..<lo + N] @ tp)" "\<And>i. i \<in> ?B \<Longrightarrow> i \<notin> set tp" using D(9) by auto
  define chunks where "chunks = map (\<lambda>i. s_prompt (S i)) [lo..<lo + N]"
  obtain res e where run: "runVarlenPrefill md lo chunks (replicate N 0) True (cb_engine b) = (res, e)" by fastforce
  have len: "length chunks = N" "length (replicate N 0) = N" by (simp_all add: chunks_def)
  note R = runVarlen_spec [OF cfg(2) D(3) len run]
  have unf: "runVarlenPrefill md (fst (hd (run_items S [lo..<lo + N]))) (map (fst \<circ> snd) (run_items S [lo..<lo + N]))
      (replicate (length (run_items S [lo..<lo + N])) 0) True (cb_engine b) = (res, e)"
    using run N by (simp add: run_items_def chunks_def comp_def hd_map)
  have it: "run_items S [lo..<lo + N] = run_items (\<lambda>i. cb_slots b ! i) [lo..<lo + N]" using S by (simp add: run_items_def)
  have so: "store_ok md e" using same_store_ok [OF R(1), of md] D(4) by simp
  have other: "slot_ok md cf js (j \<in> set tp) (cb_slots b ! j) (eview e j) (cb_requests b ! the (s_req (cb_slots b ! j)))"
    if "j < cf_maxBatch cf" "j \<notin> ?B" for j
    using core_at [OF c that(1)] R(3) [OF that(2)] that(2) by auto
  have eager: "\<exists>r n. s_occupied (cb_slots b ! i) \<and> s_req (cb_slots b ! i) = Some r \<and> job_slot cf js (cb_slots b ! i) \<and> \<not> sr_done (cb_requests b ! r) \<and>
      s_produced (cb_slots b ! i) = 0 \<and> ingesting md cf (js ! r) True (cb_slots b ! i) (eview (cb_engine b) i) (cb_requests b ! r) n"
    if i: "i \<in> ?B" for i
  proof -
    have im: "i < cf_maxBatch cf" "s_occupied (cb_slots b ! i)" using D(10) [of i] i by auto
    obtain r where "s_req (cb_slots b ! i) = Some r" using core_slot_req [OF c im] by blast
    then show ?thesis using core_at [OF c im(1)] im(2) i by (auto simp: slot_ok_def ingesting_def split: prod.splits)
  qed
  show ?thesis
  proof (cases res)
    case (Inl x)
    let ?P = "\<lambda>j s v rq. j \<in> ?B \<or> Qok md cf js tp j s v rq" and ?S = "\<lambda>i. cb_slots b ! i"
    have c1: "core md cf js W tp (held ?S ?P) (b\<lparr>cb_engine := e\<rparr>)"
      by (rule core_views [OF c R(2) so d(1,2)]) (use other in \<open>auto simp: held_def\<close>)
    have "core md cf js W tp (Qok md cf js tp) (fold (\<lambda>i. fail_slot i (s_req (?S i)) (''prefill failed: '' @ what x)) [lo..<lo + N] (b\<lparr>cb_engine := e\<rparr>))"
      by (rule fail_loop [OF c1 _ hi]) (use d(3) in \<open>auto simp: held_def slot_ok_def\<close>)
    moreover have "prefill_batch md (run_items S [lo..<lo + N]) b =
        fold (\<lambda>i. fail_slot i (s_req (?S i)) (''prefill failed: '' @ what x)) [lo..<lo + N] (b\<lparr>cb_engine := e\<rparr>)"
      unfolding prefill_batch_def unf by (simp only: Inl prod.case sum.case it) (simp add: run_items_def fold_map comp_def)
    ultimately show ?thesis by simp
  next
    case (Inr ts)
    let ?P = "\<lambda>j s v rq. if j \<in> ?B then ready md cf js (ts ! (j - lo)) s v rq \<and> s_produced s = 0 else Qok md cf js tp j s v rq"
      and ?S = "\<lambda>i. cb_slots b ! i"
    have rdy: "ready md cf js (ts ! (i - lo)) (cb_slots b ! i) (eview e i) (cb_requests b ! the (s_req (cb_slots b ! i)))
        \<and> s_produced (cb_slots b ! i) = 0" if i: "i \<in> ?B" for i
    proof -
      define k where "k = i - lo"
      have k: "k < N" "i = lo + k" using i by (auto simp: k_def)
      have ck: "chunks ! k = s_prompt (cb_slots b ! i)" using k S [OF i] by (simp add: chunks_def)
      obtain r n where E: "s_occupied (cb_slots b ! i)" "s_req (cb_slots b ! i) = Some r" "job_slot cf js (cb_slots b ! i)" "\<not> sr_done (cb_requests b ! r)"
        "s_produced (cb_slots b ! i) = 0" "ingesting md cf (js ! r) True (cb_slots b ! i) (eview (cb_engine b) i) (cb_requests b ! r) n"
        using eager [OF i] by blast
      have "content md (eview e i) (s_prompt (cb_slots b ! i))"
        "md_sample md (snd (snd (eview (cb_engine b) i))) (ctx_logits md (s_prompt (cb_slots b ! i))) = (ts ! k, snd (snd (eview e i)))"
        using R(6) [OF Inr k(1), of "[]"] k ck by simp_all
      from ready_prefilled [OF E(6,2,3,4) this] show ?thesis using E(2,5) k by simp
    qed
    have c1: "core md cf js W tp (held ?S ?P) (b\<lparr>cb_engine := e\<rparr>)"
      by (rule core_views [OF c R(2) so d(1,2)]) (use other rdy in \<open>auto simp: held_def\<close>)
    have "core md cf js W tp (Qok md cf js tp) (fold (\<lambda>i. commitPrefilledSlot i (s_req (?S i)) (ts ! (i - lo))) [lo..<lo + N] (b\<lparr>cb_engine := e\<rparr>))"
      by (rule commit_loop [OF cfg(1) c1 _ hi]) (use d(3) in \<open>auto simp: held_def slot_ok_def\<close>)
    moreover have "zip (run_items S [lo..<lo + N]) ts = map (\<lambda>i. ((i, s_prompt (?S i), s_req (?S i)), ts ! (i - lo))) [lo..<lo + N]"
      unfolding it by (rule nth_equalityI) (simp_all add: run_items_def R(5) [OF Inr])
    then have "prefill_batch md (run_items S [lo..<lo + N]) b =
        fold (\<lambda>i. commitPrefilledSlot i (s_req (?S i)) (ts ! (i - lo))) [lo..<lo + N] (b\<lparr>cb_engine := e\<rparr>)"
      unfolding prefill_batch_def unf using Inr by (simp add: fold_map comp_def)
    ultimately show ?thesis by simp
  qed
qed

section \<open>Runs of consecutive slots\<close>

lemma fold_frame:
  assumes "\<And>x b. x \<in> set xs \<Longrightarrow> F (f x b) = F b"
  shows "F (fold f xs b) = F b"
  using assms by (induction xs arbitrary: b) auto

lemma prefill_batch_frame:
  assumes "j \<notin> fst ` set batch"
  shows "cb_slots (prefill_batch md batch b) ! j = cb_slots b ! j"
proof -
  have 1: "cb_slots (fold (\<lambda>(slot, prompt, req). fail_slot slot req m) batch b0) ! j = cb_slots b0 ! j" for m b0
    by (rule fold_frame) (clarsimp, rule fail_frame, use assms in force)
  have 2: "cb_slots (fold (\<lambda>((slot, prompt, req), t). commitPrefilledSlot slot req t) (zip batch ts) b0) ! j = cb_slots b0 ! j" for ts b0
    by (rule fold_frame) (clarsimp, rule commit_frame, use assms in \<open>force dest: set_zip_leftD\<close>)
  show ?thesis by (simp add: prefill_batch_def 1 2 split: prod.splits sum.splits)
qed

lemma prefill_batch_waiting: "cb_waiting (prefill_batch md batch b) = cb_waiting b"
proof -
  have 1: "cb_waiting (fold (\<lambda>(slot, prompt, req). fail_slot slot req m) batch b0) = cb_waiting b0" for m b0
    by (rule fold_frame) auto
  have 2: "cb_waiting (fold (\<lambda>((slot, prompt, req), t). commitPrefilledSlot slot req t) (zip batch ts) b0) = cb_waiting b0" for ts b0
    by (rule fold_frame) auto
  show ?thesis by (simp add: prefill_batch_def 1 2 split: prod.splits sum.splits)
qed

lemma run_batched_waiting: "cb_waiting (run_batched md items b) = cb_waiting b"
  by (induction md items b rule: run_batched.induct) (simp_all add: prefill_batch_waiting admitted_frame split: prod.split)

lemma grow_batch_items:
  "\<exists>m \<le> length is. grow_batch M tok (run_items S is) = (run_items S (take m is), run_items S (drop m is))"
proof (induction "is" arbitrary: tok)
  case (Cons i "is")
  let ?tok = "tok + length (s_prompt (S i))"
  obtain m where m: "m \<le> length is" "grow_batch M ?tok (run_items S is) = (run_items S (take m is), run_items S (drop m is))"
    using Cons by blast
  let ?stop = "s_req (S i) = None \<or> s_prompt (S i) = [] \<or> length (s_prompt (S i)) > M \<or> ?tok > M"
  have "grow_batch M tok (run_items S (i # is)) = (if ?stop then ([], run_items S (i # is)) else (run_items S (take (Suc m) (i # is)), run_items S (drop (Suc m) (i # is))))"
    using m(2) by (simp add: run_items_def)
  then show ?case using m(1) by (intro exI [of _ "if ?stop then 0 else Suc m"]) auto
qed (simp add: run_items_def)

lemma run_batched_core:
  assumes cfg: "cfg_ok cf" "forward_ok md"
  shows "core md cf js W ([lo..<lo + n] @ tp) (Qok md cf js ([lo..<lo + n] @ tp)) b \<Longrightarrow>
    (\<And>i. i \<in> {lo..<lo + n} \<Longrightarrow> S i = cb_slots b ! i) \<Longrightarrow>
    core md cf js W tp (Qok md cf js tp) (run_batched md (run_items S [lo..<lo + n]) b)"
proof (induction n arbitrary: lo b rule: less_induct)
  case (less n)
  show ?case
  proof (cases n)
    case 0
    then show ?thesis using less.prems(1) by (simp add: run_items_def)
  next
    case (Suc n')
    have split: "[lo..<lo + n] = lo # [Suc lo..<lo + n]" using Suc by (simp add: upt_conv_Cons)
    have c: "core md cf js W (lo # [Suc lo..<lo + n] @ tp) (Qok md cf js (lo # [Suc lo..<lo + n] @ tp)) b"
      using less.prems(1) split by simp
    have "s_req (cb_slots b ! lo) \<noteq> None \<and> s_prompt (cb_slots b ! lo) \<noteq> []" by (rule eager_slot [OF c]) simp
    then obtain r0 where head: "s_req (S lo) = Some r0" "s_prompt (S lo) \<noteq> []" using less.prems(2) [of lo] Suc by auto
    define rest where "rest = [Suc lo..<lo + n]"
    have items: "run_items S [lo..<lo + n] = (lo, s_prompt (S lo), s_req (S lo)) # run_items S rest"
      unfolding split rest_def by (simp add: run_items_def)
    show ?thesis
    proof (cases "length (s_prompt (S lo)) > cf_prefillMaxRows (cb_cfg b)")
      case True
      have eq: "lo + n = Suc lo + n'" using Suc by simp
      have "core md cf js W ([Suc lo..<Suc lo + n'] @ tp) (Qok md cf js ([Suc lo..<Suc lo + n'] @ tp)) (prefillSlotAdmitted md lo b)"
        using prefillSlotAdmitted_core [OF cfg c] eq by simp
      from less.IH [OF _ this] have "core md cf js W tp (Qok md cf js tp) (run_batched md (run_items S [Suc lo..<Suc lo + n']) (prefillSlotAdmitted md lo b))"
        using Suc less.prems(2) by (auto simp: admitted_frame)
      moreover have "run_batched md (run_items S [lo..<lo + n]) b = run_batched md (run_items S rest) (prefillSlotAdmitted md lo b)"
        unfolding items using head True by simp
      ultimately show ?thesis unfolding rest_def eq by (simp only:)
    next
      case False
      obtain m where m: "m \<le> length rest"
        "grow_batch (cf_prefillMaxRows (cb_cfg b)) (length (s_prompt (S lo))) (run_items S rest) = (run_items S (take m rest), run_items S (drop m rest))"
        using grow_batch_items by blast
      have mn: "Suc m \<le> n" using m(1) Suc by (simp add: rest_def del: upt_Suc)
      have tk: "lo # take m rest = [lo..<lo + Suc m]" "drop m rest = [lo + Suc m..<lo + Suc m + (n - Suc m)]"
        using mn by (simp_all add: rest_def upt_conv_Cons take_upt drop_upt)
      have all: "[lo..<lo + n] @ tp = [lo..<lo + Suc m] @ [lo + Suc m..<lo + Suc m + (n - Suc m)] @ tp"
        using split tk append_take_drop_id [of m rest] by (metis append_Cons append_assoc rest_def)
      let ?b = "prefill_batch md (run_items S [lo..<lo + Suc m]) b"
      have "core md cf js W ([lo + Suc m..<lo + Suc m + (n - Suc m)] @ tp) (Qok md cf js ([lo + Suc m..<lo + Suc m + (n - Suc m)] @ tp)) ?b"
        by (rule prefill_batch_core [OF cfg]) (use less.prems mn in \<open>simp_all add: all\<close>)
      moreover have "S i = cb_slots ?b ! i" if "i \<in> {lo + Suc m..<lo + Suc m + (n - Suc m)}" for i
        using that less.prems(2) [of i] mn by (subst prefill_batch_frame) (auto simp: run_items_def)
      ultimately have "core md cf js W tp (Qok md cf js tp) (run_batched md (run_items S [lo + Suc m..<lo + Suc m + (n - Suc m)]) ?b)"
        using less.IH [of "n - Suc m" "lo + Suc m" ?b] mn by simp
      moreover have "(lo, s_prompt (S lo), s_req (S lo)) # run_items S (take m rest) = run_items S [lo..<lo + Suc m]"
        unfolding tk(1) [symmetric] by (simp add: run_items_def)
      moreover have "run_batched md (run_items S [lo..<lo + n]) b =
          run_batched md (run_items S (drop m rest)) (prefill_batch md ((lo, s_prompt (S lo), s_req (S lo)) # run_items S (take m rest)) b)"
        unfolding items using head False m(2) by simp
      ultimately show ?thesis unfolding tk(2) by (simp only:)
    qed
  qed
qed

lemma prefillSlotRunBatched_core:
  assumes cfg: "cfg_ok cf" "forward_ok md" and c: "core md cf js W ([lo..<lo + n] @ tp) (Qok md cf js ([lo..<lo + n] @ tp)) b"
  shows "core md cf js W tp (Qok md cf js tp) (prefillSlotRunBatched md [lo..<lo + n] b)"
proof -
  have "map (\<lambda>i. let s = cb_slots b ! i in if s_occupied s then (i, s_prompt s, s_req s) else (i, [], None)) [lo..<lo + n]
      = run_items (\<lambda>i. cb_slots b ! i) [lo..<lo + n]"
    using coreD(10) [OF c] by (simp add: run_items_def Let_def)
  then show ?thesis using run_batched_core [OF cfg c, of "\<lambda>i. cb_slots b ! i"] by (simp add: prefillSlotRunBatched_def)
qed

lemma split_run_spec: "split_run prev xs = (r, rest) \<Longrightarrow> xs = r @ rest \<and> r = [Suc prev..<Suc prev + length r]"
proof (induction prev xs arbitrary: r rest rule: split_run.induct)
  case (2 prev x xs)
  show ?case
  proof (cases "x = prev + 1")
    case True
    obtain r' where r': "split_run x xs = (r', rest)" "r = x # r'" using "2.prems" True by (auto split: prod.splits)
    then have "xs = r' @ rest" "r' = [Suc x..<Suc x + length r']" using "2.IH" [OF True r'(1)] by auto
    then show ?thesis using r'(2) True by (simp add: upt_conv_Cons del: upt_Suc)
  next
    case False
    then show ?thesis using "2.prems" by auto
  qed
qed simp

lemma contiguous_runs_core:
  assumes cfg: "cfg_ok cf" "forward_ok md"
  shows "core md cf js W tp (Qok md cf js tp) b \<Longrightarrow>
    core md cf js W [] (Qok md cf js []) (fold (prefillSlotRunBatched md) (contiguous_runs tp) b)"
proof (induction tp arbitrary: b rule: contiguous_runs.induct)
  case (2 x xs)
  obtain r rest where r: "split_run x xs = (r, rest)" by fastforce
  have sp: "xs = r @ rest" "r = [Suc x..<Suc x + length r]" using split_run_spec [OF r] by auto
  have run: "x # r = [x..<x + Suc (length r)]" using sp(2) by (simp add: upt_conv_Cons del: upt_Suc)
  have "core md cf js W ([x..<x + Suc (length r)] @ rest) (Qok md cf js ([x..<x + Suc (length r)] @ rest)) b"
    using "2.prems" sp(1) run by (metis append_Cons)
  from prefillSlotRunBatched_core [OF cfg this] show ?case using "2.IH" r run by (simp del: upt_Suc)
qed simp

theorem prefill_section_core:
  assumes cfg: "cfg_ok cf" "forward_ok md" and c: "core md cf js W tp (Qok md cf js tp) b"
  shows "core md cf js W [] (Qok md cf js []) (prefill_section md tp b)" "cb_waiting (prefill_section md tp b) = cb_waiting b"
proof -
  have "core md cf js W [] (Qok md cf js []) (fold (prefillSlotAdmitted md) tp b)"
    using c
  proof (induction tp arbitrary: b)
    case (Cons i tp)
    show ?case using Cons.IH [OF prefillSlotAdmitted_core [OF cfg Cons.prems]] by simp
  qed simp
  then show "core md cf js W [] (Qok md cf js []) (prefill_section md tp b)"
    using contiguous_runs_core [OF cfg c] by (simp add: prefill_section_def)
  have "cb_waiting (fold (prefillSlotAdmitted md) tp b) = cb_waiting b"
    "cb_waiting (fold (prefillSlotRunBatched md) (contiguous_runs tp) b) = cb_waiting b"
    by (rule fold_frame; simp add: admitted_frame prefillSlotRunBatched_def run_batched_waiting)+
  then show "cb_waiting (prefill_section md tp b) = cb_waiting b" by (simp add: prefill_section_def)
qed

end
