(* ===== verification/BatcherStep.thy ===== *)
theory BatcherStep
  imports BatcherEager
begin

text \<open>
  The decode step and the mixed prefill and decode step keep the invariant of the batcher; so does
  the shutdown.
\<close>

section \<open>Releasing slots in a loop\<close>

definition release_loop ::
  "(Slot \<Rightarrow> Slot) \<Rightarrow> (ServingRequest \<Rightarrow> ServingRequest) \<Rightarrow> nat \<Rightarrow> ('s, 'k, 'q, 'p) batcher \<Rightarrow> ('s, 'k, 'q, 'p) batcher" where
  "release_loop retire g n b =
     fold (\<lambda>i b'. if s_occupied (cb_slots b' ! i)
                  then upd_slot i retire (upd_req (s_req (cb_slots b' ! i)) g b') else b') [0..<n] b"

lemma lax_slot_ok [simp]: "lax (\<lambda>j. slot_ok md cf js False)"
  by (rule laxI) (simp add: slot_ok_def)

lemma release_loop_waiting: "cb_waiting (release_loop retire g n b) = cb_waiting b"
  unfolding release_loop_def by (rule fold_frame) simp

lemma release_loop_core:
  assumes c: "core md cf js W [] Q b" and n: "n \<le> cf_maxBatch cf" and retire: "\<And>s. \<not> s_occupied (retire s)"
    and g: "\<And>j q. req_ok md cf j q \<Longrightarrow> req_ok md cf j (g q)" "\<And>q. sr_done (g q)"
    and Q: "lax Q" "lax Q'" "\<And>j s v rq. n \<le> j \<Longrightarrow> j < cf_maxBatch cf \<Longrightarrow> Q j s v rq \<Longrightarrow> Q' j s v rq"
  shows "core md cf js W [] Q' (release_loop retire g n b)"
proof -
  have "core md cf js W [] (upto_slot 0 n Q' Q) (release_loop retire g n b)"
    unfolding release_loop_def
  proof (rule core_fold_slots [OF _ c])
    fix i b assume i: "i < n" and c: "core md cf js W [] (upto_slot 0 i Q' Q) b"
    have im: "i < cf_maxBatch cf" using i n by simp
    show "core md cf js W [] (upto_slot 0 (Suc i) Q' Q)
        (if s_occupied (cb_slots b ! i) then upd_slot i retire (upd_req (s_req (cb_slots b ! i)) g b) else b)"
    proof (cases "s_occupied (cb_slots b ! i)")
      case True
      obtain r where r: "s_req (cb_slots b ! i) = Some r" "r < length js" using core_slot_req [OF c im True] by blast
      let ?b = "b\<lparr>cb_requests := (cb_requests b)[r := g (cb_requests b ! r)], cb_slots := (cb_slots b)[i := retire (cb_slots b ! i)]\<rparr>"
      have "core md cf js W [] (upto_slot 0 (Suc i) Q' Q) ?b"
        by (rule core_release [OF c im True r(1) _ lax_split [OF Q(2,1)] _ _ _ retire _ _ g(1) [OF coreD(6) [OF c r(2)]] g(2) _ lax_split [OF Q(2,1)]])
          (use coreD(1,4) [OF c] in auto)
      then show ?thesis using True r(1) by (simp add: upd_slot_def upd_req_def)
    next
      case False
      then show ?thesis using core_upto_free [OF c False Q(2)] by simp
    qed
  qed simp
  then show ?thesis by (rule core_weaken) (use Q(3) in \<open>auto split: if_splits\<close>)
qed

lemma fail_active_eq: "fail_active msg retire n b = release_loop retire (finish_req msg) n b"
  by (simp add: fail_active_def release_loop_def)

lemma req_ok_finish: "msg \<noteq> [] \<Longrightarrow> req_ok md cf j q \<Longrightarrow> req_ok md cf j (finish_req msg q)"
  by (simp add: req_ok_def finish_req_def)

lemma fail_active_core:
  assumes "core md cf js W [] Q b" "n \<le> cf_maxBatch cf" "\<And>s. \<not> s_occupied (retire s)" "msg \<noteq> []" "lax Q"
    "\<forall>j s v rq. n \<le> j \<longrightarrow> j < cf_maxBatch cf \<longrightarrow> Q j s v rq \<longrightarrow> Qok md cf js [] j s v rq"
  shows "core md cf js W [] (Qok md cf js []) (fail_active msg retire n b)"
  unfolding fail_active_eq
proof (rule release_loop_core [OF assms(1-3) req_ok_finish [OF assms(4)] _ assms(5) lax_Qok])
  show "Qok md cf js [] j s v rq" if "n \<le> j" "j < cf_maxBatch cf" "Q j s v rq" for j s v rq using assms(6) that by blast
qed (simp_all add: finish_req_def)

section \<open>Emitting on a slot\<close>

lemma emit_core:
  assumes c: "core md cf js W [] Q b" and i: "i < cf_maxBatch cf" "s_occupied (cb_slots b ! i)" "s_req (cb_slots b ! i) = Some r"
    and Q: "lax Q" "\<And>j. j \<noteq> i \<Longrightarrow> Q' j = Q j" "Q' i = slot_ok md cf js False"
    and rdy: "ready md cf js tok s (eview (cb_engine b) i) (cb_requests b ! r)" and occ: "s_occupied s" "s_req s = Some r"
    and th: "applyThinkBudget cf s tok = (t, s1)" "think_of s2 = think_of s1" "s_occupied s2" "s_req s2 = Some r"
    and s2: "s_prompt s2 = s_prompt s" "s_promptLen s2 = s_promptLen s" "s_maxNew s2 = s_maxNew s" "s_stopIds s2 = s_stopIds s"
      "s_lastTok s2 = t" "s_produced s2 = Suc (s_produced s)" "s_pos s2 = s_promptLen s + s_produced s"
      "cf_mixedStep cf \<Longrightarrow> s_prefillPos s2 = s_promptLen s"
    and full: "ctxFull = (s_promptLen s + s_produced s + 1 \<ge> cf_maxContext cf)"
  shows "stop_token cf s2 t ctxFull \<Longrightarrow> \<not> s_occupied s' \<Longrightarrow> same_slots (cb_engine b) e' \<Longrightarrow> store_ok md e' \<Longrightarrow>
      core md cf js W [] Q' (b\<lparr>cb_slots := (cb_slots b)[i := s'],
        cb_requests := (cb_requests b)[r := finish_req [] (push_token t (cb_requests b ! r))], cb_engine := e'\<rparr>)"
    and "\<not> stop_token cf s2 t ctxFull \<Longrightarrow>
      core md cf js W [] Q' (b\<lparr>cb_slots := (cb_slots b)[i := s2], cb_requests := (cb_requests b)[r := push_token t (cb_requests b ! r)]\<rparr>)"
proof -
  note D = coreD [OF c]
  note et = emit_token [OF rdy occ th s2(1-6) _ full]
  have lax': "lax Q'"
  proof (rule laxI)
    show "Q' j s v rq" if "\<not> s_occupied s" for j s v rq
      using laxD [OF Q(1) that, of j] Q(2) [of j] Q(3) that by (cases "j = i") (simp_all add: slot_ok_def)
  qed
  show "core md cf js W [] Q' (b\<lparr>cb_slots := (cb_slots b)[i := s'],
        cb_requests := (cb_requests b)[r := finish_req [] (push_token t (cb_requests b ! r))], cb_engine := e'\<rparr>)"
    if "stop_token cf s2 t ctxFull" "\<not> s_occupied s'" "same_slots (cb_engine b) e'" "store_ok md e'"
  proof (rule core_release [OF c i _ Q(1) _ _ _ that(2) _ _ _ _ Q(2) lax'])
    show "sr_done (finish_req [] (push_token t (cb_requests b ! r)))" by (simp add: finish_req_def)
    show "req_ok md cf (js ! r) (finish_req [] (push_token t (cb_requests b ! r)))"
      using et(1) that(1) by (simp add: finish_req_def push_token_def)
  qed (use D(1) that in simp_all)
  show "core md cf js W [] Q' (b\<lparr>cb_slots := (cb_slots b)[i := s2], cb_requests := (cb_requests b)[r := push_token t (cb_requests b ! r)]\<rparr>)"
    if st: "\<not> stop_token cf s2 t ctxFull"
  proof (rule core_update [OF c i])
    let ?q = "push_token t (cb_requests b ! r)"
    have "\<not> sr_done ?q" using rdy occ by (simp add: ready_def push_token_def)
    then have ok: "req_ok md cf (js ! r) ?q \<and> slot_ok md cf js False s2 (eview (cb_engine b) i) ?q"
      using et(2) [OF _ st _ s2(7,8)] by (simp add: push_token_def)
    show "req_ok md cf (js ! r) ?q" using ok by simp
    show "Q' i s2 (eview (cb_engine (b\<lparr>cb_slots := (cb_slots b)[i := s2], cb_requests := (cb_requests b)[r := ?q]\<rparr>)) i) ?q"
      using ok Q(3) by simp
    show "Q' i s2 v rq" if "\<not> s_occupied s2" for v rq using that th(3) by simp
    show "Q' j s v rq" if "j \<noteq> i" "Q j s v rq" for j s v rq using that Q(2) by simp
    show "Q' j s v rq'" if "\<not> s_occupied s" for j s v rq' by (rule laxD [OF lax' that])
  qed (use D(1,3,4) th(3,4) in simp_all)
qed

text \<open>A slot whose request was cancelled is released.\<close>

lemma cancelled_core:
  assumes c: "core md cf js W [] Q b" and i: "i < cf_maxBatch cf" "s_occupied (cb_slots b ! i)" "s_req (cb_slots b ! i) = Some r"
    and cn: "sr_cancelled (cb_requests b ! r)"
    and Q: "lax Q" "\<And>j. j \<noteq> i \<Longrightarrow> Q' j = Q j" "lax Q'"
    and b': "\<not> s_occupied s'" "same_slots (cb_engine b) e'" "store_ok md e'"
  shows "core md cf js W [] Q' (b\<lparr>cb_slots := (cb_slots b)[i := s'],
    cb_requests := (cb_requests b)[r := finish_req [] (cb_requests b ! r)], cb_engine := e'\<rparr>)"
proof -
  obtain r' where "s_req (cb_slots b ! i) = Some r'" "r' < length js" using core_slot_req [OF c i(1,2)] by blast
  then have r: "r < length js" using i(3) by simp
  have "req_ok md cf (js ! r) (finish_req [] (cb_requests b ! r))"
    using coreD(6) [OF c r] cn by (simp add: req_ok_def finish_req_def)
  then show ?thesis
    using core_release [OF c i _ Q(1) _ _ _ b'(1) _ _ _ _ Q(2,3)] b'(2,3) coreD(1) [OF c] by (simp add: finish_req_def)
qed

text \<open>A slot that only moves its position.\<close>

lemma advance_core:
  assumes c: "core md cf js W [] Q b" and i: "i < cf_maxBatch cf" "s_occupied (cb_slots b ! i)" "s_req (cb_slots b ! i) = Some r"
    and Q: "lax Q" "\<And>j. j \<noteq> i \<Longrightarrow> Q' j = Q j" "lax Q'"
    and s': "s_occupied s'" "s_req s' = Some r" "Q' i s' (eview (cb_engine b) i) (cb_requests b ! r)"
  shows "core md cf js W [] Q' (b\<lparr>cb_slots := (cb_slots b)[i := s']\<rparr>)"
proof -
  note D = coreD [OF c]
  obtain r' where "s_req (cb_slots b ! i) = Some r'" "r' < length js" using core_slot_req [OF c i(1,2)] by blast
  then have r: "r < length js" using i(3) by simp
  show ?thesis
  proof (rule core_update [OF c i, of _ s' "cb_requests b ! r"])
    show "Q' i s' v rq" if "\<not> s_occupied s'" for v rq using that s'(1) by simp
    show "Q' j s v rq" if "j \<noteq> i" "Q j s v rq" for j s v rq using that Q(2) by simp
    show "Q' j s v rq'" if "\<not> s_occupied s" for j s v rq' by (rule laxD [OF Q(3) that])
  qed (use D(1,3,4) D(6) [OF r] s' in simp_all)
qed

section \<open>What a slot is fed\<close>

lemma ready_updates [simp]:
  "ready md cf js tok (s\<lparr>s_prefillPos := a, s_pos := p\<rparr>) v rq = ready md cf js tok s v rq"
  by (simp add: ready_def job_slot_def)

text \<open>The next token position of a decoding slot has been fed: the sample is the next token.\<close>

lemma ready_decoded:
  assumes dec: "decoding md cf (js ! r) s v0 rq" and s: "s_req s = Some r" "job_slot cf js s" "\<not> sr_done rq" and j: "js ! r = (prompt, maxNew, stops, p)"
    and v: "content md v (prompt @ butlast (sr_tokens rq) @ [s_lastTok s])"
      "md_sample md (snd (snd v0)) (ctx_logits md (prompt @ butlast (sr_tokens rq) @ [s_lastTok s])) = (tok, snd (snd v))"
  shows "ready md cf js tok s v rq" "Suc (s_pos s) = s_promptLen s + s_produced s"
proof -
  have d: "sr_tokens rq \<noteq> []" "s_produced s = length (sr_tokens rq)" "s_lastTok s = last (sr_tokens rq)"
    "Suc (s_pos s) = length prompt + length (sr_tokens rq)"
    "serve_alone md cf (js ! r) = sr_tokens rq @
          serve_gen md cf stops maxNew (length (sr_tokens rq)) (snd (snd v0)) (think_of s) (prompt @ sr_tokens rq)"
    using dec j by (simp_all add: decoding_def)
  have fed: "prompt @ butlast (sr_tokens rq) @ [s_lastTok s] = prompt @ sr_tokens rq" using d(1,3) by simp
  show "ready md cf js tok s v rq" unfolding ready_def
    using d s v j unfolding fed by auto
  show "Suc (s_pos s) = s_promptLen s + s_produced s" using d(2,4) s(1,2) j by (simp add: job_slot_def)
qed

lemma ingest_more:
  assumes ing: "ingesting md cf (js ! r) False s v0 rq n" and s: "s_occupied s" "s_req s = Some r" "job_slot cf js s" "\<not> sr_done rq"
    and pure: "pure_sampler md" and n': "n' < length (s_prompt s)"
    and v: "content md v (take n' (s_prompt s))" "md_sample md (snd (snd v0)) h = (tok, snd (snd v))"
    and s': "s' = (if cf_prefillChunk cf > 0 then s\<lparr>s_prefillPos := n'\<rparr> else s\<lparr>s_pos := n'\<rparr>)"
  shows "slot_ok md cf js False s' v rq"
proof -
  obtain prompt maxNew stops p where j: "js ! r = (prompt, maxNew, stops, p)" by (metis prod_cases4)
  have q: "snd (snd v) = snd (snd v0)" using pure v(2) unfolding pure_sampler_def by (metis snd_conv)
  have pr: "s_prompt s = prompt" using s(2,3) j by (simp add: job_slot_def)
  have "ingesting md cf (js ! r) False s' v rq n'"
    using ing j q pr n' v(1) s' by (simp add: ingesting_def)
  then show ?thesis using s s' by (auto simp: slot_ok_def job_slot_def)
qed

section \<open>The decode step\<close>

definition decode_fed ::
  "('s, 'k, 'h, 'q, 'p) ServingModel \<Rightarrow> BatcherConfig \<Rightarrow> 'p job list \<Rightarrow> u32 \<Rightarrow> Slot \<Rightarrow> ('s, 'k, 'q) slot_view \<Rightarrow> ServingRequest \<Rightarrow> bool" where
  "decode_fed md cf js tok s v rq \<longleftrightarrow>
     (if s_pos s + 1 \<ge> s_promptLen s
      then ready md cf js tok s v rq \<and> Suc (s_pos s) = s_promptLen s + s_produced s \<and> (cf_mixedStep cf \<longrightarrow> s_prefillPos s = s_promptLen s)
      else slot_ok md cf js False (s\<lparr>s_pos := Suc (s_pos s)\<rparr>) v rq)"

lemma decode_feeds:
  assumes cfg: "cfg_ok cf" "sampler_ok md cf" and ok: "slot_ok md cf js False s v rq" and s: "s_occupied s" "s_req s = Some r"
    and npre: "cf_mixedStep cf \<Longrightarrow> \<not> s_prefillPos s < s_promptLen s"
  obtains ctx where "content md v ctx" "s_pos s = length ctx" "length ctx < cf_maxContext cf"
    "\<And>v' tok. content md v' (ctx @ [sp_token (decode_input i s)]) \<Longrightarrow>
       md_sample md (snd (snd v)) (ctx_logits md (ctx @ [sp_token (decode_input i s)])) = (tok, snd (snd v')) \<Longrightarrow> decode_fed md cf js tok s v' rq"
proof -
  obtain prompt maxNew stops p where j: "js ! r = (prompt, maxNew, stops, p)" by (metis prod_cases4)
  have js: "job_slot cf js s" "\<not> sr_done rq" using ok s by (auto simp: slot_ok_def)
  have pr: "s_prompt s = prompt" "s_promptLen s = length prompt" "length prompt < cf_maxContext cf" using js(1) s(2) j by (simp_all add: job_slot_def)
  consider (ing) n where "ingesting md cf (js ! r) False s v rq n" | (dec) "decoding md cf (js ! r) s v rq"
    using ok s by (auto simp: slot_ok_def)
  then show thesis
  proof cases
    case ing
    have n: "n < length prompt" "content md v (take n prompt)" using ing j by (simp_all add: ingesting_def)
    have C: "cf_prefillChunk cf = 0"
    proof (rule ccontr)
      assume "cf_prefillChunk cf \<noteq> 0"
      then have "cf_mixedStep cf" "s_prefillPos s = n" using ing by (simp_all add: ingesting_def)
      then show False using npre n(1) pr(2) by simp
    qed
    then have pos: "s_pos s = n" and mx: "\<not> cf_mixedStep cf" and pure: "pure_sampler md"
      using ing cfg by (simp_all add: ingesting_def cfg_ok_def sampler_ok_def)
    have tk: "sp_token (decode_input i s) = prompt ! n" using s(1) n(1) pos pr by (simp add: decode_input_def)
    have app: "take n prompt @ [prompt ! n] = take (Suc n) prompt" using n(1) by (simp add: take_Suc_conv_app_nth)
    show thesis
    proof (rule that [OF n(2)])
      show "s_pos s = length (take n prompt)" "length (take n prompt) < cf_maxContext cf" using pos n(1) pr(3) by simp_all
      fix v' tok
      assume fed: "content md v' (take n prompt @ [sp_token (decode_input i s)])"
        "md_sample md (snd (snd v)) (ctx_logits md (take n prompt @ [sp_token (decode_input i s)])) = (tok, snd (snd v'))"
      show "decode_fed md cf js tok s v' rq"
      proof (cases "Suc n = length prompt")
        case True
        then have "take (Suc n) prompt = s_prompt s" using pr by simp
        then have "ready md cf js tok s v' rq" using ready_prefilled [OF ing s(2) js] fed tk app by simp
        then show ?thesis using True pos pr ing mx j by (simp add: decode_fed_def ingesting_def)
      next
        case False
        have "slot_ok md cf js False (s\<lparr>s_pos := Suc n\<rparr>) v' rq"
          by (rule ingest_more [OF ing s js pure _ _ fed(2)]) (use False n(1) fed(1) tk app pr C in simp_all)
        then show ?thesis using False pos pr n(1) by (simp add: decode_fed_def)
      qed
    qed
  next
    case dec
    have d: "sr_tokens rq \<noteq> []" "Suc (s_pos s) = length prompt + length (sr_tokens rq)" "content md v (prompt @ butlast (sr_tokens rq))"
      "Suc (s_pos s) < cf_maxContext cf" "cf_mixedStep cf \<Longrightarrow> s_prefillPos s = length prompt"
      using dec j by (simp_all add: decoding_def)
    have lt: "s_pos s \<ge> length prompt" using d(1,2) by (cases "sr_tokens rq") auto
    then have tk: "sp_token (decode_input i s) = s_lastTok s" using s(1) pr by (simp add: decode_input_def)
    show thesis
    proof (rule that [OF d(3)])
      show pl: "s_pos s = length (prompt @ butlast (sr_tokens rq))" using d(1,2) by (cases "sr_tokens rq") auto
      show "length (prompt @ butlast (sr_tokens rq)) < cf_maxContext cf" using pl d(4) by simp
      fix v' tok
      assume "content md v' ((prompt @ butlast (sr_tokens rq)) @ [sp_token (decode_input i s)])"
        "md_sample md (snd (snd v)) (ctx_logits md ((prompt @ butlast (sr_tokens rq)) @ [sp_token (decode_input i s)])) = (tok, snd (snd v'))"
      then show "decode_fed md cf js tok s v' rq"
        using ready_decoded [OF dec s(2) js j] tk lt pr d(5) by (simp add: decode_fed_def)
    qed
  qed
qed

lemma check_steps_None:
  "check_steps mc i steps = None \<Longrightarrow> k < length steps \<Longrightarrow> sp_slot (steps ! k) = i + k \<and> sp_pos (steps ! k) < mc"
  by (induction mc i steps arbitrary: k rule: check_steps.induct) (auto simp: nth_Cons split: nat.splits if_splits)

lemma stepServing_spec:
  assumes ok: "forward_ok md" and g: "geometry cf e" and len: "length steps = N"
    and sq: "\<forall>k < N. sp_seqStart (steps ! k) = (sp_pos (steps ! k) = 0)"
    and run: "stepServing md steps e = (res, e')"
  shows "same_store e e'" "geometry cf e'" "\<And>j. N \<le> j \<Longrightarrow> eview e' j = eview e j"
    and "\<And>x j. res = Inl x \<Longrightarrow> eview e' j = eview e j" and "\<And>ts. res = Inr ts \<Longrightarrow> length ts = N"
    and "\<And>ts k ctx. res = Inr ts \<Longrightarrow> k < N \<Longrightarrow> content md (eview e k) ctx \<Longrightarrow> sp_pos (steps ! k) = length ctx \<Longrightarrow>
      content md (eview e' k) (ctx @ [sp_token (steps ! k)]) \<and>
      md_sample md (snd (snd (eview e k))) (ctx_logits md (ctx @ [sp_token (steps ! k)])) = (ts ! k, snd (snd (eview e' k)))"
proof -
  obtain f e1 where f: "take_fault e = (f, e1)" by fastforce
  note tf = take_fault_view [OF f] and tg = take_fault_keeps [OF f g]
  obtain hs e2 where fw: "forward_rows md (map (\<lambda>s. (sp_slot s, sp_pos s, sp_seqStart s, [sp_token s])) steps) e1 = (hs, e2)" by fastforce
  obtain ts e3 where sm: "sample_rows md (zip [0..<N] hs) e2 = (ts, e3)" by fastforce
  consider (guard) x where "res = Inl x" "e' = e" | (none) "res = Inr []" "e' = e" "N = 0" | (fault) x where "res = Inl x" "e' = e1"
    | (tok) "res = Inr ts" "e' = e3" "N \<le> cf_maxBatch cf" "check_steps (cf_maxContext cf) 0 steps = None"
    using run len f fw sm geometryD(5,6) [OF g]
    by (cases f) (auto simp: stepServing_def Let_def split: if_splits option.splits)
  note cs = this
  have R: "same_store e e3" "geometry cf e3" "length ts = N" "\<And>j. N \<le> j \<Longrightarrow> eview e3 j = eview e j"
    "\<And>k ctx. k < N \<Longrightarrow> content md (eview e k) ctx \<Longrightarrow> sp_pos (steps ! k) = length ctx \<Longrightarrow>
      content md (eview e3 k) (ctx @ [sp_token (steps ! k)]) \<and>
      md_sample md (snd (snd (eview e k))) (ctx_logits md (ctx @ [sp_token (steps ! k)])) = (ts ! k, snd (snd (eview e3 k)))"
    if t: "N \<le> cf_maxBatch cf" "check_steps (cf_maxContext cf) 0 steps = None"
  proof -
    have st: "\<forall>k < N. sp_slot (steps ! k) = k \<and> sp_pos (steps ! k) < cf_maxContext cf"
      using check_steps_None [OF t(2)] len by simp
    have rs: "map (\<lambda>s. (sp_slot s, sp_pos s, sp_seqStart s, [sp_token s])) steps =
        map (\<lambda>k. (0 + k, sp_pos (steps ! k), sp_pos (steps ! k) = 0, [sp_token (steps ! k)])) [0..<N]"
      using st sq len by (intro nth_equalityI) simp_all
    have fits: "\<forall>k < N. [sp_token (steps ! k)] \<noteq> [] \<and> sp_pos (steps ! k) + length [sp_token (steps ! k)] \<le> cf_maxContext cf"
      using st by (simp add: Suc_le_eq)
    have t0: "0 + N \<le> cf_maxBatch cf" using t(1) by simp
    have sm0: "sample_rows md (zip [0..<0 + N] hs) e2 = (ts, e3)" using sm by simp
    note r = ragged_spec [OF ok tg t0 rs fits fw sm0]
    show "same_store e e3" by (rule same_store_trans [OF tf(2) r(1)])
    show "geometry cf e3" "length ts = N" using r(2,3) by simp_all
    show "eview e3 j = eview e j" if "N \<le> j" for j using r(4) [of j] that tf(1) by simp
    show "content md (eview e3 k) (ctx @ [sp_token (steps ! k)]) \<and>
      md_sample md (snd (snd (eview e k))) (ctx_logits md (ctx @ [sp_token (steps ! k)])) = (ts ! k, snd (snd (eview e3 k)))"
      if "k < N" "content md (eview e k) ctx" "sp_pos (steps ! k) = length ctx" for k ctx
      using r(5) [OF that(1) _ that(3)] that(2) tf(1) by simp
  qed
  show "same_store e e'" using cs R(1) tf(2) by cases auto
  show "geometry cf e'" using cs R(2) tg g by cases auto
  show "eview e' j = eview e j" if "N \<le> j" for j using cs R(4) tf(1) that by cases auto
  show "eview e' j = eview e j" if "res = Inl x" for x j using cs that tf(1) by cases auto
  show "length ts' = N" if "res = Inr ts'" for ts' using cs that R(3) by cases auto
  show "content md (eview e' k) (ctx @ [sp_token (steps ! k)]) \<and>
      md_sample md (snd (snd (eview e k))) (ctx_logits md (ctx @ [sp_token (steps ! k)])) = (ts' ! k, snd (snd (eview e' k)))"
    if "res = Inr ts'" "k < N" "content md (eview e k) ctx" "sp_pos (steps ! k) = length ctx" for ts' k ctx
    using cs that R(5) by cases auto
qed

lemma nActive_spec:
  "nActive b \<le> cf_maxBatch (cb_cfg b)" "i < cf_maxBatch (cb_cfg b) \<Longrightarrow> s_occupied (cb_slots b ! i) \<Longrightarrow> i < nActive b"
proof -
  define f where "f = (\<lambda>i n. if s_occupied (cb_slots b ! i) then i + 1 else n)"
  have f: "s_occupied (cb_slots b ! i) \<Longrightarrow> f i n = Suc i" "\<not> s_occupied (cb_slots b ! i) \<Longrightarrow> f i n = n" for i n by (simp_all add: f_def)
  have fn: "f m n \<le> Suc m" if "n \<le> m" for m n using f [of m n] that by (cases "s_occupied (cb_slots b ! m)") auto
  have le: "fold f [0..<m] 0 \<le> m" for m by (induction m) (auto simp: fn)
  have lt: "i < f m n" if "i < n \<or> i = m \<and> s_occupied (cb_slots b ! m)" "n \<le> m" for m n
    using f [of m n] that by (cases "s_occupied (cb_slots b ! m)") auto
  have "i < m \<longrightarrow> s_occupied (cb_slots b ! i) \<longrightarrow> i < fold f [0..<m] 0" for m by (induction m) (auto simp: less_Suc_eq intro: lt le)
  then show "nActive b \<le> cf_maxBatch (cb_cfg b)" "i < cf_maxBatch (cb_cfg b) \<Longrightarrow> s_occupied (cb_slots b ! i) \<Longrightarrow> i < nActive b"
    using le unfolding nActive_def f_def [symmetric] by auto
qed

text \<open>The distribution loop of both steps.\<close>

lemma dist_loop:
  assumes c: "core md cf js W [] (held S P) b" and n: "n \<le> cf_maxBatch cf" "\<And>i. i < cf_maxBatch cf \<Longrightarrow> s_occupied (S i) \<Longrightarrow> i < n"
    and free: "\<And>i b. \<not> s_occupied (cb_slots b ! i) \<Longrightarrow> f i b = b"
    and dist: "\<And>i b Q Q'. core md cf js W [] Q b \<Longrightarrow> i < cf_maxBatch cf \<Longrightarrow> s_occupied (cb_slots b ! i) \<Longrightarrow>
      P i (cb_slots b ! i) (eview (cb_engine b) i) (cb_requests b ! the (s_req (cb_slots b ! i))) \<Longrightarrow>
      lax Q \<Longrightarrow> \<forall>j. j \<noteq> i \<longrightarrow> Q' j = Q j \<Longrightarrow> Q' i = slot_ok md cf js False \<Longrightarrow> lax Q' \<Longrightarrow> core md cf js W [] Q' (f i b)"
  shows "core md cf js W [] (Qok md cf js []) (fold f [0..<n] b)"
proof -
  let ?Q = "\<lambda>i. upto_slot 0 i (Qok md cf js []) (held S P)"
  have lax: "lax (?Q i)" for i by (rule lax_split [OF lax_Qok lax_held])
  have "core md cf js W [] (?Q n) (fold f [0..<n] b)"
  proof (rule core_fold_slots [OF _ c])
    fix i b assume i: "i < n" and c: "core md cf js W [] (?Q i) b"
    have im: "i < cf_maxBatch cf" using i n(1) by simp
    show "core md cf js W [] (?Q (Suc i)) (f i b)"
    proof (cases "s_occupied (cb_slots b ! i)")
      case True
      have "P i (cb_slots b ! i) (eview (cb_engine b) i) (cb_requests b ! the (s_req (cb_slots b ! i)))"
        using core_at [OF c im] True by (auto dest: heldD)
      then show ?thesis by (rule dist [OF c im True _ lax _ _ lax]) (auto simp: less_Suc_eq)
    next
      case False
      then show ?thesis using core_upto_free [OF c False lax_Qok] by (simp add: free)
    qed
  qed simp
  then show ?thesis by (rule core_weaken) (use n(2) in \<open>auto simp: held_def slot_ok_def split: if_splits\<close>)
qed

lemma decode_dist_waiting: "cb_waiting (decode_dist i tok b) = cb_waiting b"
  by (simp add: decode_dist_def Let_def case_prod_beta)

lemma decode_dist_core:
  assumes cfg: "cfg_ok cf" and c: "core md cf js W [] Q b" and i: "i < cf_maxBatch cf" "s_occupied (cb_slots b ! i)"
    and fed: "decode_fed md cf js tok (cb_slots b ! i) (eview (cb_engine b) i) (cb_requests b ! the (s_req (cb_slots b ! i)))"
    and Q: "lax Q" "\<forall>j. j \<noteq> i \<longrightarrow> Q' j = Q j" "Q' i = slot_ok md cf js False" "lax Q'"
  shows "core md cf js W [] Q' (decode_dist i tok b)"
proof -
  note D = coreD [OF c]
  have Q2: "\<And>j. j \<noteq> i \<Longrightarrow> Q' j = Q j" using Q(2) by simp
  let ?s = "cb_slots b ! i"
  obtain r where r: "s_req ?s = Some r" "r < length js" using core_slot_req [OF c i] by blast
  have retire: "\<exists>s' e'. retireSlot i keep (b\<lparr>cb_slots := (cb_slots b)[i := s0], cb_requests := rqs\<rparr>) =
      b\<lparr>cb_slots := (cb_slots b)[i := s'], cb_requests := rqs, cb_engine := e'\<rparr> \<and> \<not> s_occupied s' \<and> same_slots (cb_engine b) e' \<and> store_ok md e'"
    for keep s0 rqs
  proof -
    let ?b = "b\<lparr>cb_slots := (cb_slots b)[i := s0], cb_requests := rqs\<rparr>"
    have "\<not> cf_warmSlot (cb_cfg ?b)" "i < length (cb_slots ?b)" "st_ckptRing (cb_engine ?b) = []"
      using cfg D(1,2) i(1) geometryD(7) [OF D(3)] by (simp_all add: cfg_ok_def)
    from retireSlot_spec [OF this, where keep = keep and md = md] obtain s' e' where
      "retireSlot i keep ?b = ?b\<lparr>cb_slots := (cb_slots ?b)[i := s'], cb_engine := e'\<rparr>" "\<not> s_occupied s'"
      "same_slots (cb_engine ?b) e'" "store_ok md (cb_engine ?b) \<Longrightarrow> store_ok md e'" by blast
    then show ?thesis using D(4) by (intro exI [of _ s'] exI [of _ e']) simp
  qed
  show ?thesis
  proof (cases "sr_cancelled (cb_requests b ! r)")
    case True
    let ?q = "(cb_requests b)[r := finish_req [] (cb_requests b ! r)]"
    obtain s' e' where rt: "retireSlot i False (b\<lparr>cb_slots := (cb_slots b)[i := ?s], cb_requests := ?q\<rparr>) =
      b\<lparr>cb_slots := (cb_slots b)[i := s'], cb_requests := ?q, cb_engine := e'\<rparr>" "\<not> s_occupied s'" "same_slots (cb_engine b) e'" "store_ok md e'"
      using retire by blast
    have "decode_dist i tok b = retireSlot i False (b\<lparr>cb_slots := (cb_slots b)[i := ?s], cb_requests := ?q\<rparr>)"
      using i(2) r(1) True by (simp add: decode_dist_def Let_def req_cancelled_def upd_req_def)
    then show ?thesis using cancelled_core [OF c i r(1) True Q(1) Q2 Q(4) rt(2-4)] rt(1) by simp
  next
    case nc: False
    show ?thesis
    proof (cases "s_pos ?s + 1 \<ge> s_promptLen ?s")
      case False
      have "decode_dist i tok b = b\<lparr>cb_slots := (cb_slots b)[i := ?s\<lparr>s_pos := Suc (s_pos ?s)\<rparr>]\<rparr>"
        using i(2) r(1) nc False by (simp add: decode_dist_def Let_def req_cancelled_def upd_slot_def)
      moreover have "Q' i (?s\<lparr>s_pos := Suc (s_pos ?s)\<rparr>) (eview (cb_engine b) i) (cb_requests b ! r)"
        using fed False r(1) Q(3) by (simp add: decode_fed_def)
      ultimately show ?thesis using advance_core [OF c i r(1) Q(1) Q2 Q(4)] i(2) r(1) by simp
    next
      case True
      obtain t s1 where th: "applyThinkBudget cf ?s tok = (t, s1)" by fastforce
      note at = applyThink_slot [OF th]
      have rdy: "ready md cf js tok ?s (eview (cb_engine b) i) (cb_requests b ! r)" "Suc (s_pos ?s) = s_promptLen ?s + s_produced ?s"
        "cf_mixedStep cf \<Longrightarrow> s_prefillPos ?s = s_promptLen ?s"
        using fed True r(1) by (auto simp: decode_fed_def)
      define s2 where "s2 = s1\<lparr>s_lastTok := t, s_produced := Suc (s_produced s1)\<rparr>"
      define s3 where "s3 = s2\<lparr>s_pos := Suc (s_pos s2)\<rparr>"
      define q where "q = (cb_requests b)[r := push_token t (cb_requests b ! r)]"
      have e3: "think_of s3 = think_of s1" "s_occupied s3" "s_req s3 = Some r" "s_prompt s3 = s_prompt ?s" "s_promptLen s3 = s_promptLen ?s"
        "s_maxNew s3 = s_maxNew ?s" "s_stopIds s3 = s_stopIds ?s" "s_lastTok s3 = t" "s_produced s3 = Suc (s_produced ?s)"
        "s_pos s3 = s_promptLen ?s + s_produced ?s" "cf_mixedStep cf \<Longrightarrow> s_prefillPos s3 = s_promptLen ?s"
        using at i(2) r(1) rdy(2,3) by (simp_all add: s3_def s2_def)
      have full: "(s_pos s2 + 2 \<ge> cf_maxContext cf) = (s_promptLen ?s + s_produced ?s + 1 \<ge> cf_maxContext cf)"
        using at rdy(2) by (simp add: s2_def)
      note em = emit_core [where Q' = Q', OF c i r(1) Q(1) _ Q(3) rdy(1) i(2) r(1) th e3(1-10) _ full]
      have st: "stop_token cf s3 t x = stop_token cf s2 t x" for x by (simp add: s3_def stop_token_def isStop_def)
      have pos2: "s_pos s1 = s_pos s2" by (simp add: s2_def)
      have rq: "q ! r = push_token t (cb_requests b ! r)" "q[r := x] = (cb_requests b)[r := x]" for x using r(2) D(5) by (simp_all add: q_def)
      have run: "decode_dist i tok b =
          (if stop_token cf s2 t (s_pos s2 + 2 \<ge> cf_maxContext cf)
           then retireSlot i True (b\<lparr>cb_slots := (cb_slots b)[i := s2], cb_requests := (cb_requests b)[r := finish_req [] (push_token t (cb_requests b ! r))]\<rparr>)
           else b\<lparr>cb_slots := (cb_slots b)[i := s3], cb_requests := q\<rparr>)"
        using i r(1) D(1,2) nc True th rq
        by (simp add: decode_dist_def Let_def req_cancelled_def upd_slot_def upd_req_def s2_def [symmetric] q_def [symmetric] s3_def pos2)
      show ?thesis
      proof (cases "stop_token cf s2 t (s_pos s2 + 2 \<ge> cf_maxContext cf)")
        case True
        let ?q = "(cb_requests b)[r := finish_req [] (push_token t (cb_requests b ! r))]"
        obtain s' e' where rt: "retireSlot i True (b\<lparr>cb_slots := (cb_slots b)[i := s2], cb_requests := ?q\<rparr>) =
          b\<lparr>cb_slots := (cb_slots b)[i := s'], cb_requests := ?q, cb_engine := e'\<rparr>" "\<not> s_occupied s'" "same_slots (cb_engine b) e'" "store_ok md e'"
          using retire by blast
        have "core md cf js W [] Q' (b\<lparr>cb_slots := (cb_slots b)[i := s'], cb_requests := ?q, cb_engine := e'\<rparr>)"
          by (rule em(1) [OF Q2 e3(11) _ rt(2-4)]) (use True st in simp_all)
        then show ?thesis using True run rt(1) by simp
      next
        case False
        have "core md cf js W [] Q' (b\<lparr>cb_slots := (cb_slots b)[i := s3], cb_requests := (cb_requests b)[r := push_token t (cb_requests b ! r)]\<rparr>)"
          by (rule em(2) [OF Q2 e3(11)]) (use False st in simp_all)
        then show ?thesis using False run by (simp add: q_def)
      qed
    qed
  qed
qed

lemma decode_free: "\<not> s_occupied (cb_slots b ! i) \<Longrightarrow> decode_dist i tok b = b"
  by (simp add: decode_dist_def)

lemma decode_loop_waiting: "cb_waiting (fold (\<lambda>i. decode_dist i (ts ! i)) is b) = cb_waiting b"
  by (rule fold_frame) (simp add: decode_dist_waiting)

lemma decode_step_waiting: "cb_waiting (decode_step md b) = cb_waiting b"
  by (simp add: decode_step_def Let_def fail_active_eq release_loop_waiting decode_loop_waiting split: prod.split sum.split)

lemma decode_step_core:
  assumes cfg: "cfg_ok cf" "forward_ok md" "sampler_ok md cf" and c: "core md cf js W [] (Qok md cf js []) b"
    and npre: "cf_mixedStep cf \<Longrightarrow> \<not> any_prefilling b"
  shows "core md cf js W [] (Qok md cf js []) (decode_step md b)"
proof (cases "nActive b = 0")
  case True
  then show ?thesis using c by (simp add: decode_step_def)
next
  case False
  note D = coreD [OF c]
  define n where "n = nActive b"
  have n: "n \<le> cf_maxBatch cf" "\<And>i. i < cf_maxBatch cf \<Longrightarrow> s_occupied (cb_slots b ! i) \<Longrightarrow> i < n"
    using nActive_spec [where b = b] D(1) by (simp_all add: n_def)
  define steps where "steps = map (\<lambda>i. decode_input i (cb_slots b ! i)) [0..<n]"
  obtain res e where run: "stepServing md steps (cb_engine b) = (res, e)" by fastforce
  have len: "length steps = n" by (simp add: steps_def)
  have sq: "\<forall>k < n. sp_seqStart (steps ! k) = (sp_pos (steps ! k) = 0)" by (simp add: steps_def decode_input_def)
  note R = stepServing_spec [OF cfg(2) D(3) len sq run]
  have so: "store_ok md e" using same_store_ok [OF R(1), of md] D(4) by simp
  have unf: "decode_step md b = (case res of
      Inl x \<Rightarrow> fail_active (''stepServing failed: '' @ what x) (\<lambda>s. s\<lparr>s_occupied := False, s_req := None\<rparr>) n (b\<lparr>cb_engine := e\<rparr>)
    | Inr toks \<Rightarrow> fold (\<lambda>i. decode_dist i (toks ! i)) [0..<n] (b\<lparr>cb_engine := e\<rparr>))"
    using False run unfolding decode_step_def Let_def n_def [symmetric] steps_def [symmetric] by (simp split: sum.split)
  show ?thesis
  proof (cases res)
    case (Inl x)
    have c1: "core md cf js W [] (Qok md cf js []) (b\<lparr>cb_engine := e\<rparr>)"
      by (rule core_views [OF c R(2) so]) (use R(4) [OF Inl] D(11) in simp_all)
    show ?thesis unfolding unf Inl sum.case by (rule fail_active_core [OF c1 n(1)]) simp_all
  next
    case (Inr ts)
    let ?S = "\<lambda>i. cb_slots b ! i"
    let ?P = "\<lambda>i. decode_fed md cf js (ts ! i)"
    have fed: "decode_fed md cf js (ts ! i) (?S i) (eview e i) (cb_requests b ! the (s_req (?S i)))"
      if i: "i < cf_maxBatch cf" "s_occupied (?S i)" for i
    proof -
      obtain r where r: "s_req (?S i) = Some r" "r < length js" using core_slot_req [OF c i] by blast
      have ok: "slot_ok md cf js False (?S i) (eview (cb_engine b) i) (cb_requests b ! r)" using D(11) [OF i(1)] r(1) by simp
      have np: "\<not> s_prefillPos (?S i) < s_promptLen (?S i)" if "cf_mixedStep cf"
        using npre [OF that] i D(1,2) nth_mem [of i "cb_slots b"] by (auto simp: any_prefilling_def list_ex_iff)
      show ?thesis
      proof (rule decode_feeds [OF cfg(1,3) ok i(2) r(1) np, of i])
        fix ctx
        assume f: "content md (eview (cb_engine b) i) ctx" "s_pos (?S i) = length ctx"
          "\<And>v' tok. content md v' (ctx @ [sp_token (decode_input i (?S i))]) \<Longrightarrow>
           md_sample md (snd (snd (eview (cb_engine b) i))) (ctx_logits md (ctx @ [sp_token (decode_input i (?S i))])) = (tok, snd (snd v')) \<Longrightarrow>
           decode_fed md cf js tok (?S i) v' (cb_requests b ! r)"
        have st: "steps ! i = decode_input i (?S i)" "sp_pos (steps ! i) = length ctx"
          using n(2) [OF i] f(2) i(2) by (simp_all add: steps_def decode_input_def)
        show ?thesis using R(6) [OF Inr n(2) [OF i] f(1) st(2)] f(3) st(1) r(1) by simp
      qed
    qed
    have c1: "core md cf js W [] (held ?S ?P) (b\<lparr>cb_engine := e\<rparr>)"
      by (rule core_views [OF c R(2) so]) (use fed in \<open>auto simp: held_def\<close>)
    have "core md cf js W [] (Qok md cf js []) (fold (\<lambda>i. decode_dist i (ts ! i)) [0..<n] (b\<lparr>cb_engine := e\<rparr>))"
      by (rule dist_loop [OF c1 n decode_free decode_dist_core [OF cfg(1)]])
    then show ?thesis unfolding unf by (simp add: Inr)
  qed
qed

section \<open>The mixed step\<close>

definition mixed_fed ::
  "('s, 'k, 'h, 'q, 'p) ServingModel \<Rightarrow> BatcherConfig \<Rightarrow> 'p job list \<Rightarrow> MixedRow \<Rightarrow> u32 \<Rightarrow> Slot \<Rightarrow> ('s, 'k, 'q) slot_view \<Rightarrow> ServingRequest \<Rightarrow> bool" where
  "mixed_fed md cf js row tok s v rq \<longleftrightarrow>
     s_req s = mr_req row \<and>
     (if mr_prefilling row \<and> \<not> mr_finishes row then slot_ok md cf js False (s\<lparr>s_prefillPos := mr_newPrefillPos row\<rparr>) v rq
      else ready md cf js tok s v rq \<and>
        (if mr_prefilling row then s_produced s = 0 \<and> mr_newPrefillPos row = s_promptLen s
         else Suc (s_pos s) = s_promptLen s + s_produced s \<and> s_prefillPos s = s_promptLen s))"

lemma mixed_feeds:
  assumes cfg: "cfg_ok cf" "cf_mixedStep cf" "pure_sampler md" and ok: "slot_ok md cf js False s v rq" and s: "s_occupied s" "s_req s = Some r"
    and row: "row = fst (mixed_row cf s x)"
  obtains ctx where "content md v ctx" "mr_startPos row = length ctx"
    "\<And>v' tok. content md v' (ctx @ mr_chunk row) \<Longrightarrow>
       md_sample md (snd (snd v)) (ctx_logits md (ctx @ mr_chunk row)) = (tok, snd (snd v')) \<Longrightarrow> mixed_fed md cf js row tok s v' rq"
proof -
  obtain prompt maxNew stops p where j: "js ! r = (prompt, maxNew, stops, p)" by (metis prod_cases4)
  have C: "cf_prefillChunk cf > 0" using cfg(1,2) by (simp add: cfg_ok_def)
  have js: "job_slot cf js s" "\<not> sr_done rq" using ok s by (auto simp: slot_ok_def)
  have pr: "s_prompt s = prompt" "s_promptLen s = length prompt" using js(1) s(2) j by (simp_all add: job_slot_def)
  consider (ing) n where "ingesting md cf (js ! r) False s v rq n" | (dec) "decoding md cf (js ! r) s v rq"
    using ok s by (auto simp: slot_ok_def)
  then show thesis
  proof cases
    case ing
    have n: "n < length prompt" "content md v (take n prompt)" "s_prefillPos s = n" "s_produced s = 0" using ing j C by (simp_all add: ingesting_def)
    define c where "c = 1 + min (min (cf_prefillChunk cf) (length prompt - n) - 1) x"
    have c: "0 < c" "n + c \<le> length prompt" using n(1) C by (auto simp: c_def)
    have roweq: "row = \<lparr>mr_chunk = take c (drop n prompt), mr_startPos = n, mr_req = Some r, mr_prefilling = True,
        mr_finishes = (n + c = length prompt), mr_newPrefillPos = n + c\<rparr>"
      unfolding row mixed_row_def n(3) pr Let_def c_def s(2) using s(1) n(1) by simp
    have row': "mr_chunk row = take c (drop n prompt)" "mr_startPos row = n" "mr_req row = Some r" "mr_prefilling row"
      "mr_finishes row = (n + c = length prompt)" "mr_newPrefillPos row = n + c"
      unfolding roweq by simp_all
    have app: "take n prompt @ mr_chunk row = take (n + c) prompt" using row'(1) by (simp add: take_add)
    show thesis
    proof (rule that [OF n(2)])
      show "mr_startPos row = length (take n prompt)" using row'(2) n(1) by simp
      fix v' tok
      assume fed: "content md v' (take n prompt @ mr_chunk row)"
        "md_sample md (snd (snd v)) (ctx_logits md (take n prompt @ mr_chunk row)) = (tok, snd (snd v'))"
      show "mixed_fed md cf js row tok s v' rq"
      proof (cases "n + c = length prompt")
        case True
        then have "take (n + c) prompt = s_prompt s" using pr by simp
        then have "ready md cf js tok s v' rq" using ready_prefilled [OF ing s(2) js] fed app by simp
        then show ?thesis using row' True s(2) n(4) pr by (simp add: mixed_fed_def)
      next
        case False
        have "slot_ok md cf js False (s\<lparr>s_prefillPos := n + c\<rparr>) v' rq"
          by (rule ingest_more [OF ing s js cfg(3) _ _ fed(2)]) (use False c fed(1) app pr C in simp_all)
        then show ?thesis using row' False s(2) by (simp add: mixed_fed_def)
      qed
    qed
  next
    case dec
    have d: "sr_tokens rq \<noteq> []" "Suc (s_pos s) = length prompt + length (sr_tokens rq)" "content md v (prompt @ butlast (sr_tokens rq))"
      "s_prefillPos s = length prompt"
      using dec j cfg(2) by (simp_all add: decoding_def)
    have row': "mr_chunk row = [s_lastTok s]" "mr_startPos row = s_pos s" "mr_req row = Some r" "\<not> mr_prefilling row"
      using row s d(4) pr by (simp_all add: mixed_row_def)
    show thesis
    proof (rule that [OF d(3)])
      show "mr_startPos row = length (prompt @ butlast (sr_tokens rq))" using row'(2) d(1,2) by (cases "sr_tokens rq") auto
      fix v' tok
      assume "content md v' ((prompt @ butlast (sr_tokens rq)) @ mr_chunk row)"
        "md_sample md (snd (snd v)) (ctx_logits md ((prompt @ butlast (sr_tokens rq)) @ mr_chunk row)) = (tok, snd (snd v'))"
      then show "mixed_fed md cf js row tok s v' rq"
        using ready_decoded [OF dec s(2) js j] row' pr d(4) s(2) by (simp add: mixed_fed_def)
    qed
  qed
qed

lemma length_mixed_rows [simp]: "length (mixed_rows cf ss x) = length ss"
  by (induction cf ss x rule: mixed_rows.induct) (auto simp: Let_def split: prod.splits)

lemma mixed_rows_nth: "k < length ss \<Longrightarrow> \<exists>y. mixed_rows cf ss x ! k = fst (mixed_row cf (ss ! k) y)"
proof (induction ss arbitrary: k x)
  case (Cons s ss)
  show ?case
  proof (cases k)
    case 0
    then show ?thesis by (auto simp: Let_def case_prod_beta)
  next
    case (Suc k')
    then show ?thesis using Cons.IH [of k'] Cons.prems by (simp add: Let_def case_prod_beta)
  qed
qed simp

lemma mixed_dist_waiting: "cb_waiting (mixed_dist i row tok b) = cb_waiting b"
  by (simp add: mixed_dist_def Let_def case_prod_beta)

lemma mixed_free: "\<not> s_occupied (cb_slots b ! i) \<Longrightarrow> mixed_dist i row tok b = b"
  by (simp add: mixed_dist_def)

lemma mixed_dist_core:
  assumes c: "core md cf js W [] Q b" and i: "i < cf_maxBatch cf" "s_occupied (cb_slots b ! i)"
    and fed: "mixed_fed md cf js row tok (cb_slots b ! i) (eview (cb_engine b) i) (cb_requests b ! the (s_req (cb_slots b ! i)))"
    and Q: "lax Q" "\<forall>j. j \<noteq> i \<longrightarrow> Q' j = Q j" "Q' i = slot_ok md cf js False" "lax Q'"
  shows "core md cf js W [] Q' (mixed_dist i row tok b)"
proof -
  note D = coreD [OF c]
  have Q2: "\<And>j. j \<noteq> i \<Longrightarrow> Q' j = Q j" using Q(2) by simp
  let ?s = "cb_slots b ! i"
  obtain r where r: "s_req ?s = Some r" "r < length js" using core_slot_req [OF c i] by blast
  have rr: "mr_req row = Some r" using fed r(1) by (simp add: mixed_fed_def)
  show ?thesis
  proof (cases "sr_cancelled (cb_requests b ! r)")
    case True
    have "mixed_dist i row tok b = b\<lparr>cb_slots := (cb_slots b)[i := drop_slot ?s],
        cb_requests := (cb_requests b)[r := finish_req [] (cb_requests b ! r)], cb_engine := cb_engine b\<rparr>"
      using i(2) r(1) rr True by (simp add: mixed_dist_def Let_def req_cancelled_def upd_req_def upd_slot_def)
    then show ?thesis using cancelled_core [OF c i r(1) True Q(1) Q2 Q(4) drop_slot_simps(1) same_slots_refl D(4)] by simp
  next
    case nc: False
    show ?thesis
    proof (cases "mr_prefilling row \<and> \<not> mr_finishes row")
      case True
      have "mixed_dist i row tok b = b\<lparr>cb_slots := (cb_slots b)[i := ?s\<lparr>s_prefillPos := mr_newPrefillPos row\<rparr>]\<rparr>"
        using i(2) r(1) rr nc True by (simp add: mixed_dist_def Let_def req_cancelled_def upd_slot_def)
      moreover have "Q' i (?s\<lparr>s_prefillPos := mr_newPrefillPos row\<rparr>) (eview (cb_engine b) i) (cb_requests b ! r)"
        using fed True r(1) Q(3) by (simp add: mixed_fed_def)
      ultimately show ?thesis using advance_core [OF c i r(1) Q(1) Q2 Q(4)] i(2) r(1) by simp
    next
      case False
      define s1 where "s1 = (if mr_prefilling row then ?s\<lparr>s_prefillPos := mr_newPrefillPos row, s_pos := s_promptLen ?s\<rparr> else ?s)"
      obtain t s2 where th: "applyThinkBudget cf s1 tok = (t, s2)" by fastforce
      note at = applyThink_slot [OF th]
      define s3 where "s3 = s2\<lparr>s_lastTok := t, s_produced := Suc (s_produced s2)\<rparr>"
      define s4 where "s4 = (if mr_prefilling row then s3 else s3\<lparr>s_pos := Suc (s_pos s3)\<rparr>)"
      define full where "full = (if mr_prefilling row then s_pos s3 + 1 \<ge> cf_maxContext cf else s_pos s3 + 2 \<ge> cf_maxContext cf)"
      have rdy0: "ready md cf js tok ?s (eview (cb_engine b) i) (cb_requests b ! r)"
        "if mr_prefilling row then s_produced ?s = 0 \<and> mr_newPrefillPos row = s_promptLen ?s
         else Suc (s_pos ?s) = s_promptLen ?s + s_produced ?s \<and> s_prefillPos ?s = s_promptLen ?s"
        using fed False r(1) by (auto simp: mixed_fed_def)
      have rdy: "ready md cf js tok s1 (eview (cb_engine b) i) (cb_requests b ! r)" using rdy0(1) by (simp add: s1_def)
      have e1: "s_occupied s1" "s_req s1 = Some r" using i(2) r(1) by (simp_all add: s1_def)
      have e4: "think_of s4 = think_of s2" "s_occupied s4" "s_req s4 = Some r" "s_prompt s4 = s_prompt s1" "s_promptLen s4 = s_promptLen s1"
        "s_maxNew s4 = s_maxNew s1" "s_stopIds s4 = s_stopIds s1" "s_lastTok s4 = t" "s_produced s4 = Suc (s_produced s1)"
        "s_pos s4 = s_promptLen s1 + s_produced s1" "s_prefillPos s4 = s_promptLen s1"
        using at e1 rdy0(2) by (auto simp: s4_def s3_def s1_def split: if_splits)
      have fl: "full = (s_promptLen s1 + s_produced s1 + 1 \<ge> cf_maxContext cf)"
        using at rdy0(2) by (auto simp: full_def s3_def s1_def split: if_splits)
      note em = emit_core [where Q' = Q', OF c i r(1) Q(1) _ Q(3) rdy e1 th e4(1-10) _ fl]
      have st: "stop_token cf s4 t y = stop_token cf s3 t y" for y by (simp add: s4_def stop_token_def isStop_def)
      have unfinished: "(mr_prefilling row \<and> \<not> mr_finishes row) = False" using False by simp
      have run: "mixed_dist i row tok b =
          (if stop_token cf s3 t full
           then b\<lparr>cb_slots := (cb_slots b)[i := drop_slot s3], cb_requests := (cb_requests b)[r := finish_req [] (push_token t (cb_requests b ! r))]\<rparr>
           else b\<lparr>cb_slots := (cb_slots b)[i := s4], cb_requests := (cb_requests b)[r := push_token t (cb_requests b ! r)]\<rparr>)"
        unfolding mixed_dist_def Let_def D(1) s1_def [symmetric] th prod.case s3_def [symmetric] full_def [symmetric] unfinished if_False
        using i r rr nc D(2,5) by (simp add: req_cancelled_def upd_slot_def upd_req_def s4_def)
      show ?thesis
      proof (cases "stop_token cf s3 t full")
        case True
        have "core md cf js W [] Q' (b\<lparr>cb_slots := (cb_slots b)[i := drop_slot s3],
            cb_requests := (cb_requests b)[r := finish_req [] (push_token t (cb_requests b ! r))], cb_engine := cb_engine b\<rparr>)"
          by (rule em(1) [OF Q2 e4(11)]) (use True st D(4) in simp_all)
        then show ?thesis using True run by simp
      next
        case False
        have "core md cf js W [] Q' (b\<lparr>cb_slots := (cb_slots b)[i := s4], cb_requests := (cb_requests b)[r := push_token t (cb_requests b ! r)]\<rparr>)"
          by (rule em(2) [OF Q2 e4(11)]) (use False st in simp_all)
        then show ?thesis using False run by simp
      qed
    qed
  qed
qed

lemma mixed_loop_waiting: "cb_waiting (fold (\<lambda>i. mixed_dist i (rows ! i) (ts ! i)) is b) = cb_waiting b"
  by (rule fold_frame) (simp add: mixed_dist_waiting)

lemma runMixedStep_waiting: "cb_waiting (runMixedStep md b) = cb_waiting b"
  by (simp add: runMixedStep_def Let_def fail_active_eq release_loop_waiting mixed_loop_waiting split: prod.split sum.split)

lemma runMixedStep_core:
  assumes cfg: "cfg_ok cf" "forward_ok md" "cf_mixedStep cf" "pure_sampler md" and c: "core md cf js W [] (Qok md cf js []) b"
  shows "core md cf js W [] (Qok md cf js []) (runMixedStep md b)"
proof (cases "nActive b = 0")
  case True
  then show ?thesis using c by (simp add: runMixedStep_def)
next
  case False
  note D = coreD [OF c]
  define n where "n = nActive b"
  have n: "n \<le> cf_maxBatch cf" "\<And>i. i < cf_maxBatch cf \<Longrightarrow> s_occupied (cb_slots b ! i) \<Longrightarrow> i < n"
    using nActive_spec [where b = b] D(1) by (simp_all add: n_def)
  define rows where "rows = mixed_rows cf (take n (cb_slots b)) (cf_prefillMaxRows cf - n)"
  have lr: "length rows = n" using n(1) D(2) by (simp add: rows_def)
  obtain res e where run: "runVarlenPrefill md 0 (map mr_chunk rows) (map mr_startPos rows) True (cb_engine b) = (res, e)" by fastforce
  have len: "length (map mr_chunk rows) = n" "length (map mr_startPos rows) = n" using lr by simp_all
  note R = runVarlen_spec [OF cfg(2) D(3) len run]
  have so: "store_ok md e" using same_store_ok [OF R(1), of md] D(4) by simp
  have unf: "runMixedStep md b = (case res of
      Inl x \<Rightarrow> fail_active (''mixed step failed: '' @ what x) drop_slot n (b\<lparr>cb_engine := e\<rparr>)
    | Inr toks \<Rightarrow> fold (\<lambda>i. mixed_dist i (rows ! i) (toks ! i)) [0..<n] (b\<lparr>cb_engine := e\<rparr>))"
    using False run unfolding runMixedStep_def Let_def D(1) n_def [symmetric] rows_def [symmetric] by (simp split: sum.split)
  show ?thesis
  proof (cases res)
    case (Inl x)
    have c1: "core md cf js W [] (Qok md cf js []) (b\<lparr>cb_engine := e\<rparr>)"
      by (rule core_views [OF c R(2) so]) (use R(4) [OF Inl] D(11) in simp_all)
    show ?thesis unfolding unf Inl sum.case by (rule fail_active_core [OF c1 n(1)]) simp_all
  next
    case (Inr ts)
    let ?S = "\<lambda>i. cb_slots b ! i"
    let ?P = "\<lambda>i. mixed_fed md cf js (rows ! i) (ts ! i)"
    have fed: "mixed_fed md cf js (rows ! i) (ts ! i) (?S i) (eview e i) (cb_requests b ! the (s_req (?S i)))"
      if i: "i < cf_maxBatch cf" "s_occupied (?S i)" for i
    proof -
      obtain r where r: "s_req (?S i) = Some r" "r < length js" using core_slot_req [OF c i] by blast
      have ok: "slot_ok md cf js False (?S i) (eview (cb_engine b) i) (cb_requests b ! r)" using D(11) [OF i(1)] r(1) by simp
      have "i < length (take n (cb_slots b))" using n(2) [OF i] i(1) D(2) by simp
      then obtain y where row: "rows ! i = fst (mixed_row cf (?S i) y)"
        using mixed_rows_nth [of i "take n (cb_slots b)" cf "cf_prefillMaxRows cf - n"] n(2) [OF i] by (auto simp: rows_def)
      show ?thesis
      proof (rule mixed_feeds [OF cfg(1,3,4) ok i(2) r(1) row])
        fix ctx
        assume f: "content md (eview (cb_engine b) i) ctx" "mr_startPos (rows ! i) = length ctx"
          "\<And>v' tok. content md v' (ctx @ mr_chunk (rows ! i)) \<Longrightarrow>
           md_sample md (snd (snd (eview (cb_engine b) i))) (ctx_logits md (ctx @ mr_chunk (rows ! i))) = (tok, snd (snd v')) \<Longrightarrow>
           mixed_fed md cf js (rows ! i) tok (?S i) v' (cb_requests b ! r)"
        show ?thesis using R(6) [OF Inr n(2) [OF i], of ctx] f n(2) [OF i] lr r(1) by simp
      qed
    qed
    have c1: "core md cf js W [] (held ?S ?P) (b\<lparr>cb_engine := e\<rparr>)"
      by (rule core_views [OF c R(2) so]) (use fed in \<open>auto simp: held_def\<close>)
    have "core md cf js W [] (Qok md cf js []) (fold (\<lambda>i. mixed_dist i (rows ! i) (ts ! i)) [0..<n] (b\<lparr>cb_engine := e\<rparr>))"
      by (rule dist_loop [OF c1 n mixed_free mixed_dist_core])
    then show ?thesis unfolding unf by (simp add: Inr)
  qed
qed

end
