(* ===== verification/BatcherTransparency.thy ===== *)
theory BatcherTransparency
  imports BatcherStep
begin

text \<open>
  Every run of the batcher: the invariant holds in each reachable state, whatever the interleaving
  of submissions, cancellations, stop and worker sections, and whichever forwards fail.
\<close>

section \<open>Shutdown\<close>

lemma core_drop_waiting:
  assumes c: "core md cf js (p # ps) [] Q b" and g: "\<And>j q. req_ok md cf j q \<Longrightarrow> req_ok md cf j (g q)" "\<And>q. sr_done (g q)" and Q: "lax Q"
  shows "core md cf js ps [] Q (upd_req (Some (pd_req p)) g b)"
proof -
  note D = coreD [OF c]
  let ?r = "pd_req p" and ?rqs = "(cb_requests b)[pd_req p := g (cb_requests b ! pd_req p)]"
  have r: "?r < length js" using D(7) [of p] by (simp add: waiting_ok_def)
  have nth: "?rqs ! k = (if k = ?r then g (cb_requests b ! ?r) else cb_requests b ! k)" if "k < length js" for k using that D(5) r by simp
  have "req_ok md cf (js ! k) (?rqs ! k)" if "k < length js" for k using D(6) [OF that] g(1) [OF D(6) [OF that]] nth [OF that] by (auto split: if_splits)
  moreover have "waiting_ok cf js ?rqs p'" if "p' \<in> set ps" for p'
  proof -
    have "pd_req p' \<noteq> ?r" using that D(8) by (metis distinct.simps(2) image_eqI list.set_map list.simps(9))
    then show ?thesis using D(7) [of p'] that nth by (auto simp: waiting_ok_def)
  qed
  moreover have "Q i (cb_slots b ! i) (eview (cb_engine b) i) (?rqs ! the (s_req (cb_slots b ! i)))" if i: "i < cf_maxBatch cf" for i
  proof (cases "s_occupied (cb_slots b ! i)")
    case True
    obtain k where "s_req (cb_slots b ! i) = Some k" "k < length js" "k \<notin> pd_req ` set (p # ps)" using core_slot_req [OF c i True] by blast
    then show ?thesis using D(11) [OF i] nth by auto
  next
    case False
    show ?thesis by (rule laxD [OF Q False])
  qed
  moreover have "placed ps (cb_slots b) (cf_maxBatch cf) k" if k: "k < length js" "\<not> sr_done (?rqs ! k)" for k
    using D(12) [OF k(1)] k nth [OF k(1)] g(2) by (auto simp: placed_def split: if_splits)
  ultimately show ?thesis using c D(5) unfolding core_def upd_req_def by auto
qed

lemma stop_waiting_core:
  assumes g: "\<And>j q. req_ok md cf j q \<Longrightarrow> req_ok md cf j (g q)" "\<And>q. sr_done (g q)" and Q: "lax Q"
  shows "core md cf js W [] Q b \<Longrightarrow> core md cf js [] [] Q (fold (\<lambda>p. upd_req (Some (pd_req p)) g) W b)"
proof (induction W arbitrary: b)
  case (Cons p ps)
  show ?case using Cons.IH [OF core_drop_waiting [OF Cons.prems g Q]] by simp
qed simp

lemma shutdown_core:
  assumes c: "core md cf js (cb_waiting b) [] (Qok md cf js []) b"
  shows "core md cf js (cb_waiting (shutdown_section b)) [] (Qok md cf js []) (shutdown_section b)"
proof -
  let ?g = "\<lambda>q. finish_req ''batcher stopped'' (q\<lparr>sr_cancelled := True\<rparr>)"
  let ?b1 = "fold (\<lambda>p. upd_req (Some (pd_req p)) ?g) (cb_waiting b) b"
  have g: "req_ok md cf j q \<Longrightarrow> req_ok md cf j (?g q)" "sr_done (?g q)" for j q by (simp_all add: req_ok_def finish_req_def)
  have c1: "core md cf js [] [] (Qok md cf js []) (?b1\<lparr>cb_waiting := []\<rparr>)"
    using stop_waiting_core [OF g lax_Qok c] by (simp add: core_waiting)
  have sd: "shutdown_section b = release_loop (\<lambda>s. s\<lparr>s_occupied := False, s_req := None\<rparr>) ?g (length (cb_slots b)) (?b1\<lparr>cb_waiting := []\<rparr>)"
    by (simp add: shutdown_section_def release_loop_def Let_def)
  have "core md cf js [] [] (Qok md cf js []) (shutdown_section b)"
    unfolding sd by (rule release_loop_core [OF c1 _ _ g]) (use coreD(2) [OF c] in simp_all)
  moreover have "cb_waiting (shutdown_section b) = []" unfolding sd by (simp add: release_loop_waiting)
  ultimately show ?thesis by simp
qed

section \<open>Reachable states\<close>

definition pc_toPrefill :: "worker_pc \<Rightarrow> nat list" where
  "pc_toPrefill pc = (case pc of AtPrefill tp \<Rightarrow> tp | _ \<Rightarrow> [])"

definition batcher_inv ::
  "('s, 'k, 'h, 'q, 'p) ServingModel \<Rightarrow> BatcherConfig \<Rightarrow> ('s, 'k, 'q, 'p) batcher_state \<Rightarrow> bool" where
  "batcher_inv md cf x \<longleftrightarrow>
     (case x of (pc, b, js) \<Rightarrow> core md cf js (cb_waiting b) (pc_toPrefill pc) (Qok md cf js (pc_toPrefill pc)) b)"

lemma step_section_core:
  assumes cfg: "cfg_ok cf" "forward_ok md" "sampler_ok md cf" and c: "core md cf js (cb_waiting b) [] (Qok md cf js []) b"
  shows "core md cf js (cb_waiting (step_section md b)) [] (Qok md cf js []) (step_section md b)"
proof (cases "cf_mixedStep cf \<and> any_prefilling b")
  case True
  then have "pure_sampler md" using cfg(3) by (simp add: sampler_ok_def)
  then show ?thesis
    using runMixedStep_core [OF cfg(1,2) _ _ c] True coreD(1) [OF c] by (simp add: step_section_def runMixedStep_waiting)
next
  case False
  then show ?thesis
    using decode_step_core [OF cfg c] coreD(1) [OF c] by (auto simp: step_section_def decode_step_waiting)
qed

theorem batcher_inv_step:
  assumes cfg: "cfg_ok cf" "forward_ok md" "sampler_ok md cf" and step: "batcher_step md x y" and inv: "batcher_inv md cf x"
  shows "batcher_inv md cf y"
  using step inv
proof cases
  case (step_submit pc b js prompt maxNew stops tenant p)
  then show ?thesis using submit_core [OF _ refl] inv by (simp add: batcher_inv_def)
next
  case (step_cancel r b pc js)
  have "core md cf js (cb_waiting b) (pc_toPrefill pc) (Qok md cf js (pc_toPrefill pc)) (cancel r b)"
    using cancel_core [OF _ step_cancel(3)] inv step_cancel(1) by (simp add: batcher_inv_def)
  then show ?thesis using step_cancel by (simp add: batcher_inv_def cancel_def)
next
  case (step_stop pc b js)
  then show ?thesis using inv by (simp add: batcher_inv_def core_def)
next
  case (step_idle b tp b' js)
  then obtain tp' b'' where r: "admit_section md b = Inr (tp', b'')" "core md cf js (cb_waiting b'') tp' (Qok md cf js tp') b''"
    using admit_section_core [OF cfg(1,2)] inv by (fastforce simp: batcher_inv_def pc_toPrefill_def)
  then have c: "core md cf js (cb_waiting b') tp (Qok md cf js tp) b'" using step_idle by simp
  have "tp = []"
  proof (cases tp)
    case (Cons i rest)
    then have "i < cf_maxBatch cf" "s_occupied (cb_slots b' ! i)" using coreD(10) [OF c, of i] by auto
    then show ?thesis using nActive_spec(2) [of i b'] step_idle coreD(1) [OF c] by simp
  qed
  then show ?thesis using c step_idle by (simp add: batcher_inv_def pc_toPrefill_def)
next
  case (step_admit b tp b' js)
  then show ?thesis
    using admit_section_core [OF cfg(1,2)] inv by (fastforce simp: batcher_inv_def pc_toPrefill_def)
next
  case (step_prefill tp b js)
  then have "core md cf js (cb_waiting b) tp (Qok md cf js tp) b" using inv by (simp add: batcher_inv_def pc_toPrefill_def)
  from prefill_section_core [OF cfg(1,2) this] show ?thesis using step_prefill by (simp add: batcher_inv_def pc_toPrefill_def)
next
  case (step_step b js)
  then show ?thesis using step_section_core [OF cfg] inv by (simp add: batcher_inv_def pc_toPrefill_def)
next
  case (step_shutdown b js)
  then show ?thesis using shutdown_core inv by (simp add: batcher_inv_def pc_toPrefill_def)
qed

lemma batcher_inv_reach:
  assumes "cfg_ok cf" "forward_ok md" "sampler_ok md cf" and "(batcher_step md)\<^sup>*\<^sup>* x y" "batcher_inv md cf x"
  shows "batcher_inv md cf y"
  using assms(4,5) by (induction rule: rtranclp_induct) (auto intro: batcher_inv_step [OF assms(1-3)])

section \<open>The initial state\<close>

lemma ensureServingState_geometry:
  assumes "cf_maxBatch cf = maxBatch" "cf_maxContext cf = maxContext"
  shows "geometry cf (ensureServingState old maxBatch maxContext cp chunkEnv rec xe xm ssm0 row0 q0 faults)"
proof -
  have "maxContext \<le> (maxContext + 15) div 16 * 16" by presburger
  then show ?thesis using assms by (simp add: geometry_def ensureServingState_def Let_def blocksPerSeq_def blockSize_default_def add.commute)
qed

lemma ensureServingState_store: "store_ok md (ensureServingState old maxBatch maxContext cp chunkEnv rec xe xm ssm0 row0 q0 faults)"
proof -
  have "gdn_struct (newGdnPrefixIndex bs n)" "gi_entries (newGdnPrefixIndex bs n) = []" for bs n
    by (simp_all add: gdn_struct_def gdn_buckets_ok_def newGdnPrefixIndex_def)
  then show ?thesis by (simp add: store_ok_def ensureServingState_def Let_def)
qed

lemma newContinuousBatcher_facts:
  assumes "newContinuousBatcher ev ei eng maxBatch maxContext eos mi pt = Inr b"
  shows "cb_engine b = eng" "cb_slots b = replicate maxBatch newSlot" "cb_waiting b = []" "cb_requests b = []" "cb_running b"
    "cf_maxBatch (cb_cfg b) = maxBatch" "cf_maxContext (cb_cfg b) = maxContext" "cf_maxInflight (cb_cfg b) = max mi maxBatch"
    "cf_maxInflightPerTenant (cb_cfg b) = pt" "cf_xslot (cb_cfg b) \<Longrightarrow> cf_prefillChunk (cb_cfg b) > 0"
    "cf_mixedStep (cb_cfg b) \<Longrightarrow> prefillMaxRows (Some eng) \<noteq> 0" "cf_prefillChunk (cb_cfg b) = prefillChunkSize (Some eng)"
    "0 < maxBatch" "0 < maxContext"
  using assms by (auto simp: newContinuousBatcher_def Let_def split: if_splits)

lemma serving_chunk:
  "prefillMaxRows (Some (ensureServingState old maxBatch maxContext cp chunkEnv rec xe xm ssm0 row0 q0 faults)) \<noteq> 0 \<Longrightarrow>
   prefillChunkSize (Some (ensureServingState old maxBatch maxContext cp chunkEnv rec xe xm ssm0 row0 q0 faults)) > 0"
  by (auto simp: prefillMaxRows_def prefillChunkSize_def ensureServingState_def Let_def split: if_splits)

lemma batcher_inv_init:
  assumes b: "newContinuousBatcher ev ei (ensureServingState old maxBatch maxContext cp chunkEnv rec xe xm ssm0 row0 q0 faults)
      maxBatch maxContext eos mi pt = Inr b" and warm: "\<not> cf_warmSlot (cb_cfg b)"
  shows "batcher_inv md (cb_cfg b) (AtTop, b, [])" "cfg_ok (cb_cfg b)"
proof -
  note F = newContinuousBatcher_facts [OF b]
  show "batcher_inv md (cb_cfg b) (AtTop, b, [])"
    using F by (simp add: batcher_inv_def core_def pc_toPrefill_def newSlot_def slot_ok_def
        ensureServingState_geometry [OF F(6,7)] ensureServingState_store)
  show "cfg_ok (cb_cfg b)" using F(10-12) warm by (auto simp: cfg_ok_def intro: serving_chunk)
qed

section \<open>Runs of the constructed batcher\<close>

text \<open>The states a batcher reaches from its constructor over a fresh serving state.\<close>

definition batcher_run ::
  "('s, 'k, 'h, 'q, 'p) ServingModel \<Rightarrow> ('s, 'k, 'q, 'p) batcher \<Rightarrow> ('s, 'k, 'q, 'p) batcher_state \<Rightarrow> bool" where
  "batcher_run md b0 x \<longleftrightarrow>
     (\<exists>ev ei old cp chunkEnv rec xe xm ssm0 row0 q0 faults eos mi.
        newContinuousBatcher ev ei (ensureServingState old (cf_maxBatch (cb_cfg b0)) (cf_maxContext (cb_cfg b0)) cp chunkEnv rec xe xm ssm0 row0 q0 faults)
          (cf_maxBatch (cb_cfg b0)) (cf_maxContext (cb_cfg b0)) eos mi (cf_maxInflightPerTenant (cb_cfg b0)) = Inr b0) \<and>
     (batcher_step md)\<^sup>*\<^sup>* (AtTop, b0, []) x"

definition batcher_ok :: "('s, 'k, 'h, 'q, 'p) ServingModel \<Rightarrow> BatcherConfig \<Rightarrow> bool" where
  "batcher_ok md cf \<longleftrightarrow> \<not> cf_warmSlot cf \<and> forward_ok md \<and> sampler_ok md cf"

lemma batcher_run_inv:
  assumes "batcher_ok md (cb_cfg b0)" "batcher_run md b0 x"
  shows "batcher_inv md (cb_cfg b0) x" "cfg_ok (cb_cfg b0)"
proof -
  obtain ev ei old cp chunkEnv rec xe xm ssm0 row0 q0 faults eos mi where
    b: "newContinuousBatcher ev ei (ensureServingState old (cf_maxBatch (cb_cfg b0)) (cf_maxContext (cb_cfg b0)) cp chunkEnv rec xe xm ssm0 row0 q0 faults)
          (cf_maxBatch (cb_cfg b0)) (cf_maxContext (cb_cfg b0)) eos mi (cf_maxInflightPerTenant (cb_cfg b0)) = Inr b0"
    and run: "(batcher_step md)\<^sup>*\<^sup>* (AtTop, b0, []) x" using assms(2) by (auto simp: batcher_run_def)
  have ok: "\<not> cf_warmSlot (cb_cfg b0)" "forward_ok md" "sampler_ok md (cb_cfg b0)" using assms(1) by (simp_all add: batcher_ok_def)
  show "cfg_ok (cb_cfg b0)" by (rule batcher_inv_init(2) [OF b ok(1)])
  then show "batcher_inv md (cb_cfg b0) x"
    by (rule batcher_inv_reach [OF _ ok(2,3) run batcher_inv_init(1) [OF b ok(1)]])
qed

lemma batcher_run_step: "batcher_run md b0 x \<Longrightarrow> batcher_step md x y \<Longrightarrow> batcher_run md b0 y"
  unfolding batcher_run_def by (meson rtranclp.rtrancl_into_rtrancl)

section \<open>A concrete run\<close>

text \<open>
  A model whose logits are the sum of the tokens so far: one request is submitted, admitted,
  prefilled in two chunks and finished by one decode step.
\<close>

definition demo_md :: "(u32, u32, u32, unit, unit) ServingModel" where
  "demo_md = \<lparr>md_zero = 0, md_forward = \<lambda>s ks chunk. (s + sum_list chunk, chunk, s + sum_list chunk),
     md_sample = \<lambda>q h. (h, q), md_slotSampling = \<lambda>p prompt. ()\<rparr>"

definition demo_ev :: BatcherEnv where
  "demo_ev = \<lparr>ev_admitPerIter = None, ev_mixedBatch = None, ev_mixedStep = None, ev_pressure = None, ev_prefixCkpt = Some 0,
     ev_xslot = None, ev_thinkBudget = None, ev_thinkMsg = None\<rparr>"

definition demo_ei :: EngineInfo where
  "demo_ei = \<lparr>ei_architecture = ''qwen3next'', ei_needsSsm = True, ei_findToken = \<lambda>t. - 1, ei_encode = \<lambda>t. []\<rparr>"

definition demo_engine :: "(u32, u32, unit) ServingState" where
  "demo_engine = ensureServingState None 2 8 True (Some 2) True None None 0 0 () []"

definition demo0 :: "(u32, u32, unit, unit) batcher" where
  "demo0 = projr (newContinuousBatcher demo_ev demo_ei demo_engine 2 8 (- 1) 4 1)"

definition demo1 :: "(u32, u32, unit, unit) batcher" where
  "demo1 = snd (submit [1, 2, 3] 2 [] ''a'' () demo0)"

definition demo2 :: "(u32, u32, unit, unit) batcher" where
  "demo2 = snd (projr (admit_section demo_md demo1))"

definition demo3 :: "(u32, u32, unit, unit) batcher" where
  "demo3 = prefill_section demo_md [0] demo2"

definition demo4 :: "(u32, u32, unit, unit) batcher" where
  "demo4 = step_section demo_md demo3"

abbreviation demo_jobs :: "unit job list" where
  "demo_jobs \<equiv> [([1, 2, 3], 2, [], ())]"

lemma demo_ok: "batcher_ok demo_md (cb_cfg demo0)"
proof -
  have "\<not> cf_warmSlot (cb_cfg demo0)" by code_simp
  then show ?thesis
    by (simp add: batcher_ok_def forward_ok_def sampler_ok_def pure_sampler_def demo_md_def add.assoc)
qed

lemma demo_start: "batcher_run demo_md demo0 (AtTop, demo0, [])"
proof -
  have "newContinuousBatcher demo_ev demo_ei demo_engine 2 8 (- 1) 4 1 = Inr demo0" by code_simp
  moreover have "cf_maxBatch (cb_cfg demo0) = 2" "cf_maxContext (cb_cfg demo0) = 8" "cf_maxInflightPerTenant (cb_cfg demo0) = 1" by code_simp+
  ultimately show ?thesis unfolding batcher_run_def demo_engine_def by (intro conjI exI) (simp_all only: rtranclp.rtrancl_refl)
qed

lemma demo_submitted: "batcher_run demo_md demo0 (AtTop, demo1, demo_jobs)"
  using batcher_run_step [OF demo_start step_submit [where prompt = "[1, 2, 3]" and maxNew = 2 and stops = "[]" and tenant = "''a''" and p = "()"]]
  by (simp add: demo1_def)

lemma demo_run: "batcher_run demo_md demo0 (AtTop, demo4, demo_jobs)"
proof -
  have "cb_running demo1" "nActive demo2 \<noteq> 0" by code_simp+
  moreover have "admit_section demo_md demo1 = Inr ([0], demo2)" unfolding demo2_def by code_simp
  ultimately have "batcher_run demo_md demo0 (AtPrefill [0], demo2, demo_jobs)"
    by (intro batcher_run_step [OF demo_submitted] step_admit)
  from batcher_run_step [OF batcher_run_step [OF this step_prefill] step_step] show ?thesis
    by (simp add: demo3_def demo4_def)
qed

section \<open>Transparency\<close>







end
