(* ===== verification/BatcherBounds.thy ===== *)
theory BatcherBounds
  imports BatcherTransparency
begin

text \<open>
  Load: the number of requests in flight is the number of unfinished requests, the worker never
  un-finishes one, so the global and the per-tenant bound hold in every reachable state.
\<close>

section \<open>Counting unfinished requests\<close>

definition undone :: "(ServingRequest \<Rightarrow> bool) \<Rightarrow> ServingRequest list \<Rightarrow> nat" where
  "undone P qs = card {r. r < length qs \<and> \<not> sr_done (qs ! r) \<and> P (qs ! r)}"

lemma undone_append: "undone P (qs @ [q]) = undone P qs + (if \<not> sr_done q \<and> P q then 1 else 0)"
proof -
  let ?U = "{r. r < length qs \<and> \<not> sr_done (qs ! r) \<and> P (qs ! r)}"
  have "{r. r < length (qs @ [q]) \<and> \<not> sr_done ((qs @ [q]) ! r) \<and> P ((qs @ [q]) ! r)} =
      (if \<not> sr_done q \<and> P q then insert (length qs) ?U else ?U)"
    by (auto simp: nth_append less_Suc_eq)
  then show ?thesis by (simp add: undone_def)
qed

lemma core_homes:
  assumes c: "core md cf js (cb_waiting b) tp (Qok md cf js tp) b"
  shows "length (filter (\<lambda>p. P (cb_requests b ! pd_req p)) (cb_waiting b)) +
      length (filter (\<lambda>s. s_occupied s \<and> (case s_req s of None \<Rightarrow> False | Some r \<Rightarrow> P (cb_requests b ! r))) (cb_slots b))
    = undone P (cb_requests b)"
proof -
  note D = coreD [OF c]
  let ?W = "{p \<in> set (cb_waiting b). P (cb_requests b ! pd_req p)}"
  let ?I = "{i. i < length (cb_slots b) \<and> s_occupied (cb_slots b ! i) \<and> (case s_req (cb_slots b ! i) of None \<Rightarrow> False | Some r \<Rightarrow> P (cb_requests b ! r))}"
  let ?h = "\<lambda>i. the (s_req (cb_slots b ! i))"
  have occ: "\<exists>r. s_req (cb_slots b ! i) = Some r \<and> r < length js \<and> r \<notin> pd_req ` set (cb_waiting b) \<and> \<not> sr_done (cb_requests b ! r)"
    if "i < cf_maxBatch cf" "s_occupied (cb_slots b ! i)" for i
    using core_slot_req [OF c that] D(11) [OF that(1)] that(2) by (auto simp: slot_ok_def)
  have w: "pd_req p < length js \<and> \<not> sr_done (cb_requests b ! pd_req p)" if "p \<in> set (cb_waiting b)" for p
    using D(7) [OF that] by (simp add: waiting_ok_def)
  have injW: "inj_on pd_req ?W" using D(8) by (auto simp: distinct_map intro: inj_on_subset)
  have injI: "inj_on ?h ?I"
  proof (rule inj_onI, rule ccontr)
    fix i j assume h: "i \<in> ?I" "j \<in> ?I" "?h i = ?h j" "i \<noteq> j"
    then have ij: "i < cf_maxBatch cf" "s_occupied (cb_slots b ! i)" "j < cf_maxBatch cf" "s_occupied (cb_slots b ! j)" using D(2) by auto
    obtain r where r: "s_req (cb_slots b ! i) = Some r"
      "\<And>k. k < cf_maxBatch cf \<Longrightarrow> k \<noteq> i \<Longrightarrow> s_occupied (cb_slots b ! k) \<Longrightarrow> s_req (cb_slots b ! k) \<noteq> Some r"
      using core_slotD [OF c ij(1,2)] by metis
    show False using r(2) [OF ij(3) _ ij(4)] h(3,4) r(1) occ [OF ij(3,4)] by auto
  qed
  have "{r. r < length (cb_requests b) \<and> \<not> sr_done (cb_requests b ! r) \<and> P (cb_requests b ! r)} = pd_req ` ?W \<union> ?h ` ?I"
  proof (intro equalityI subsetI)
    fix r assume r: "r \<in> {r. r < length (cb_requests b) \<and> \<not> sr_done (cb_requests b ! r) \<and> P (cb_requests b ! r)}"
    then have "placed (cb_waiting b) (cb_slots b) (cf_maxBatch cf) r" using D(5,12) by simp
    then show "r \<in> pd_req ` ?W \<union> ?h ` ?I"
    proof (unfold placed_def, elim disjE exE conjE)
      assume "r \<in> pd_req ` set (cb_waiting b)"
      then show ?thesis using r by auto
    next
      fix i assume "i < cf_maxBatch cf" "s_occupied (cb_slots b ! i)" "s_req (cb_slots b ! i) = Some r"
      then have "i \<in> ?I" "?h i = r" using r D(2) by auto
      then show ?thesis by blast
    qed
  next
    fix r assume "r \<in> pd_req ` ?W \<union> ?h ` ?I"
    then show "r \<in> {r. r < length (cb_requests b) \<and> \<not> sr_done (cb_requests b ! r) \<and> P (cb_requests b ! r)}"
      using w occ D(2,5) by fastforce
  qed
  moreover have "pd_req ` ?W \<inter> ?h ` ?I = {}" using occ D(2) by fastforce
  ultimately have "undone P (cb_requests b) = card ?W + card ?I"
    unfolding undone_def by (simp add: card_Un_disjoint card_image injW injI)
  moreover have "card ?W = length (filter (\<lambda>p. P (cb_requests b ! pd_req p)) (cb_waiting b))"
    using D(8) distinct_card [of "filter (\<lambda>p. P (cb_requests b ! pd_req p)) (cb_waiting b)"] by (simp add: distinct_map)
  moreover have "card ?I = length (filter (\<lambda>s. s_occupied s \<and> (case s_req s of None \<Rightarrow> False | Some r \<Rightarrow> P (cb_requests b ! r))) (cb_slots b))"
    by (simp add: length_filter_conv_card)
  ultimately show ?thesis by simp
qed

lemma core_inflight:
  assumes c: "core md cf js (cb_waiting b) tp (Qok md cf js tp) b"
  shows "inflight b = undone (\<lambda>_. True) (cb_requests b)"
    and "tenant \<noteq> [] \<Longrightarrow> countTenantLocked tenant b = undone (\<lambda>q. sr_tenantId q = tenant) (cb_requests b)"
proof -
  have "filter s_occupied (cb_slots b) = filter (\<lambda>s. s_occupied s \<and> (case s_req s of None \<Rightarrow> False | Some r \<Rightarrow> True)) (cb_slots b)"
  proof (rule filter_cong [OF refl])
    fix s assume "s \<in> set (cb_slots b)"
    then obtain i where i: "i < cf_maxBatch cf" "s = cb_slots b ! i" using coreD(2) [OF c] by (metis in_set_conv_nth)
    show "s_occupied s = (s_occupied s \<and> (case s_req s of None \<Rightarrow> False | Some r \<Rightarrow> True))"
      using core_slot_req [OF c i(1)] i(2) by auto
  qed
  then show "inflight b = undone (\<lambda>_. True) (cb_requests b)" using core_homes [OF c, of "\<lambda>_. True"] by (simp add: inflight_def)
  show "countTenantLocked tenant b = undone (\<lambda>q. sr_tenantId q = tenant) (cb_requests b)" if "tenant \<noteq> []"
    using core_homes [OF c, of "\<lambda>q. sr_tenantId q = tenant"] that by (simp add: countTenantLocked_def)
qed

section \<open>The worker only finishes requests\<close>

definition reqs_le :: "ServingRequest list \<Rightarrow> ServingRequest list \<Rightarrow> bool" where
  "reqs_le qs qs' \<longleftrightarrow> length qs' = length qs \<and>
     (\<forall>r < length qs. (sr_done (qs ! r) \<longrightarrow> sr_done (qs' ! r)) \<and> sr_tenantId (qs' ! r) = sr_tenantId (qs ! r))"

definition tame :: "(ServingRequest \<Rightarrow> ServingRequest) \<Rightarrow> bool" where
  "tame f \<longleftrightarrow> (\<forall>q. (sr_done q \<longrightarrow> sr_done (f q)) \<and> sr_tenantId (f q) = sr_tenantId q)"

lemma reqs_le_refl [simp]: "reqs_le qs qs"
  and reqs_le_trans: "reqs_le a b \<Longrightarrow> reqs_le b c \<Longrightarrow> reqs_le a c"
  by (simp_all add: reqs_le_def)

lemma reqs_le_upd: "reqs_le qs (cb_requests b) \<Longrightarrow> tame f \<Longrightarrow> reqs_le qs (cb_requests (upd_req r f b))"
proof (cases r)
  case (Some x)
  assume a: "reqs_le qs (cb_requests b)" "tame f"
  have "(sr_done (qs ! k) \<longrightarrow> sr_done ((cb_requests b)[x := f (cb_requests b ! x)] ! k)) \<and>
      sr_tenantId ((cb_requests b)[x := f (cb_requests b ! x)] ! k) = sr_tenantId (qs ! k)" if "k < length qs" for k
    using a that by (cases "k = x") (simp_all add: reqs_le_def tame_def)
  then show ?thesis using a(1) Some by (simp add: upd_req_def reqs_le_def)
qed (simp add: upd_req_def)

lemma cb_requests_upd [simp]: "cb_requests (upd_slot i f b) = cb_requests b" "cb_requests (upd_eng g b) = cb_requests b"
  by (simp_all add: upd_slot_def upd_eng_def)

lemma tame_simps [simp]:
  "tame (finish_req m)" "tame (push_token t)" "tame (\<lambda>q. q\<lparr>sr_error := e, sr_done := True\<rparr>)"
  "tame (\<lambda>q. finish_req m (q\<lparr>sr_cancelled := c\<rparr>))" "tame (\<lambda>q. q\<lparr>sr_cancelled := c\<rparr>)"
  "tame (\<lambda>r. (if x then r else push_token t r)\<lparr>sr_promptTokens := a, sr_cachedTokens := b, sr_prefilledTokens := d, sr_prefillSet := e'\<rparr>)"
  by (auto simp: tame_def finish_req_def push_token_def)

lemma undone_le:
  assumes "reqs_le qs qs'" "\<And>q q'. sr_tenantId q' = sr_tenantId q \<Longrightarrow> P q' = P q"
  shows "undone P qs' \<le> undone P qs"
  unfolding undone_def
proof (rule card_mono)
  show "{r. r < length qs' \<and> \<not> sr_done (qs' ! r) \<and> P (qs' ! r)} \<subseteq> {r. r < length qs \<and> \<not> sr_done (qs ! r) \<and> P (qs ! r)}"
  proof (intro subsetI CollectI)
    fix r assume "r \<in> {r. r < length qs' \<and> \<not> sr_done (qs' ! r) \<and> P (qs' ! r)}"
    then show "r < length qs \<and> \<not> sr_done (qs ! r) \<and> P (qs ! r)"
      using assms(1) assms(2) [of "qs' ! r" "qs ! r"] by (auto simp: reqs_le_def)
  qed
qed simp

lemma retire_requests [simp]: "cb_requests (retireSlot i keep b) = cb_requests b"
  by (simp add: retireSlot_def Let_def)

lemma fold_reqs_le:
  assumes "\<And>x b. x \<in> set xs \<Longrightarrow> reqs_le (cb_requests b) (cb_requests (f x b))"
  shows "reqs_le (cb_requests b) (cb_requests (fold f xs b))"
  using assms
proof (induction xs arbitrary: b)
  case (Cons x xs)
  then show ?case using reqs_le_trans [of _ "cb_requests (f x b)"] by simp
qed simp

lemma commit_reqs: "reqs_le (cb_requests b) (cb_requests (commitPrefilledSlot i r t b))"
  unfolding commitPrefilledSlot_def Let_def case_prod_beta
  by (auto intro!: reqs_le_upd simp: tame_def push_token_def finish_req_def)

lemma fail_reqs: "reqs_le (cb_requests b) (cb_requests (fail_slot i r m b))"
  unfolding fail_slot_def by (auto intro!: reqs_le_upd)

lemma admitted_reqs: "reqs_le (cb_requests b) (cb_requests (prefillSlotAdmitted md i b))"
proof (cases rule: admitted_cases [of md i b])
  case (2 m e)
  then show ?thesis using fail_reqs [of "b\<lparr>cb_engine := e\<rparr>"] by simp
next
  case (3 t e)
  then show ?thesis using commit_reqs [of "b\<lparr>cb_engine := e\<rparr>"] by simp
qed simp

lemma prefill_batch_reqs: "reqs_le (cb_requests b) (cb_requests (prefill_batch md batch b))"
proof -
  have 1: "reqs_le (cb_requests b0) (cb_requests (fold (\<lambda>(slot, prompt, req). fail_slot slot req m) xs b0))" for m xs b0
    by (rule fold_reqs_le) (auto intro: fail_reqs)
  have 2: "reqs_le (cb_requests b0) (cb_requests (fold (\<lambda>((slot, prompt, req), t). commitPrefilledSlot slot req t) xs b0))" for xs b0
    by (rule fold_reqs_le) (auto intro: commit_reqs)
  show ?thesis
    using 1 [of "b\<lparr>cb_engine := e\<rparr>" for e] 2 [of "b\<lparr>cb_engine := e\<rparr>" for e]
    by (auto simp: prefill_batch_def split: prod.split sum.split)
qed

lemma run_batched_reqs: "reqs_le (cb_requests b) (cb_requests (run_batched md items b))"
proof (induction md items b rule: run_batched.induct)
  case (2 md slot prompt req items b)
  obtain batch rest where g: "grow_batch (cf_prefillMaxRows (cb_cfg b)) (length prompt) items = (batch, rest)" by fastforce
  consider "req = None \<or> prompt = []" | "\<not> (req = None \<or> prompt = [])" "length prompt > cf_prefillMaxRows (cb_cfg b)"
    | "\<not> (req = None \<or> prompt = [])" "\<not> length prompt > cf_prefillMaxRows (cb_cfg b)" by blast
  then show ?case
  proof cases
    case 1
    then show ?thesis using "2.IH"(1) by simp
  next
    case 2
    then show ?thesis using "2.IH"(2) [OF 2] reqs_le_trans [OF admitted_reqs [of b md slot]] by auto
  next
    case 3
    show ?thesis using 3 reqs_le_trans [OF prefill_batch_reqs "2.IH"(3) [OF 3 g [symmetric] refl]] g by auto
  qed
qed simp

lemma prefill_section_reqs: "reqs_le (cb_requests b) (cb_requests (prefill_section md tp b))"
  unfolding prefill_section_def
  by (auto intro!: fold_reqs_le admitted_reqs run_batched_reqs simp: prefillSlotRunBatched_def)

lemma release_loop_reqs: "tame g \<Longrightarrow> reqs_le (cb_requests b) (cb_requests (release_loop retire g n b))"
  unfolding release_loop_def by (rule fold_reqs_le) (simp add: reqs_le_upd)

lemma decode_dist_reqs: "reqs_le (cb_requests b) (cb_requests (decode_dist i tok b))"
  unfolding decode_dist_def Let_def case_prod_beta by (auto intro!: reqs_le_upd)

lemma mixed_dist_reqs: "reqs_le (cb_requests b) (cb_requests (mixed_dist i row tok b))"
  unfolding mixed_dist_def Let_def case_prod_beta by (auto intro!: reqs_le_upd)

lemma step_section_reqs: "reqs_le (cb_requests b) (cb_requests (step_section md b))"
proof -
  have 1: "reqs_le (cb_requests b) (cb_requests (release_loop retire (finish_req m) n (b\<lparr>cb_engine := e\<rparr>)))" for retire m n e
    using release_loop_reqs [of "finish_req m" "b\<lparr>cb_engine := e\<rparr>"] by simp
  have 2: "reqs_le (cb_requests b) (cb_requests (fold (\<lambda>i. decode_dist i (ts ! i)) xs (b\<lparr>cb_engine := e\<rparr>)))" for ts xs e
    using fold_reqs_le [of xs "\<lambda>i. decode_dist i (ts ! i)" "b\<lparr>cb_engine := e\<rparr>"] by (simp add: decode_dist_reqs)
  have 3: "reqs_le (cb_requests b) (cb_requests (fold (\<lambda>i. mixed_dist i (rows ! i) (ts ! i)) xs (b\<lparr>cb_engine := e\<rparr>)))" for rows ts xs e
    using fold_reqs_le [of xs "\<lambda>i. mixed_dist i (rows ! i) (ts ! i)" "b\<lparr>cb_engine := e\<rparr>"] by (simp add: mixed_dist_reqs)
  show ?thesis
    by (simp add: step_section_def runMixedStep_def decode_step_def Let_def fail_active_eq 1 2 3 split: prod.split sum.split)
qed

lemma shutdown_reqs: "reqs_le (cb_requests b) (cb_requests (shutdown_section b))"
proof -
  let ?g = "\<lambda>q. finish_req ''batcher stopped'' (q\<lparr>sr_cancelled := True\<rparr>)"
  let ?b1 = "fold (\<lambda>p. upd_req (Some (pd_req p)) ?g) (cb_waiting b) b"
  have "reqs_le (cb_requests b) (cb_requests ?b1)" by (rule fold_reqs_le) (rule reqs_le_upd; simp)
  moreover have "shutdown_section b = release_loop (\<lambda>s. s\<lparr>s_occupied := False, s_req := None\<rparr>) ?g (length (cb_slots b)) (?b1\<lparr>cb_waiting := []\<rparr>)"
    by (simp add: shutdown_section_def release_loop_def Let_def)
  ultimately show ?thesis
    using release_loop_reqs [of ?g "?b1\<lparr>cb_waiting := []\<rparr>"] by (auto intro: reqs_le_trans)
qed

text \<open>Admission does not touch the requests.\<close>

lemma admit_cold_reqs: "admit_cold_loop md pressure ps a tp b = (kept, a', tp', b') \<Longrightarrow> cb_requests b' = cb_requests b"
  by (induction md pressure ps a tp b rule: admit_cold_loop.induct) (auto simp: Let_def split: if_splits option.splits)

lemma admit_cross_reqs: "admit_cross_loop md ps a tp b = Inr (kept, a', tp', b') \<Longrightarrow> cb_requests b' = cb_requests b"
proof (induction ps arbitrary: a tp b kept)
  case (Cons p ps)
  obtain res e1 where l: "lookupPrefixImage (pd_prompt p) (cb_engine b) = (res, e1)" by fastforce
  let ?b1 = "b\<lparr>cb_engine := e1\<rparr>"
  have skip: "cb_requests b' = cb_requests b"
    if "bind_result (admit_cross_loop md ps a tp bb) (\<lambda>(kept, r). Inr (p # kept, r)) = Inr (kept, a', tp', b')" "cb_requests bb = cb_requests b" for bb
    using that Cons.IH [of a tp bb] by (auto split: prod.splits)
  show ?case
  proof (cases res)
    case (Inl x)
    then show ?thesis using Cons.prems l by (simp split: if_splits)
  next
    case (Inr hit)
    consider (stop) "\<not> may_admit (cb_cfg b) a" | (none) "may_admit (cb_cfg b) a" "hit = None"
      | (some) xpos xpid where "may_admit (cb_cfg b) a" "hit = Some (xpos, xpid)" by (cases hit) auto
    then show ?thesis
    proof cases
      case stop
      then show ?thesis using Cons.prems by simp
    next
      case none
      then show ?thesis using Cons.prems l Inr skip [of ?b1] by (simp add: Let_def)
    next
      case some
      show ?thesis
      proof (cases "xpos = 0 \<or> xpos \<ge> length (pd_prompt p)")
        case True
        then show ?thesis using Cons.prems l Inr some skip [of ?b1] by (simp add: Let_def)
      next
        case False
        show ?thesis
        proof (cases "pickColdSlot ?b1")
          case None
          then show ?thesis using False Cons.prems l Inr some by (auto simp: Let_def)
        next
          case (Some i)
          obtain ok e2 where r: "restorePrefixImageToSlot i xpid e1 = (ok, e2)" by fastforce
          show ?thesis
          proof (cases ok)
            case True
            then show ?thesis using False Cons.prems l Inr some Some r Cons.IH by (fastforce simp: Let_def)
          next
            case notok: False
            then show ?thesis using False Cons.prems l Inr some Some r skip [of "b\<lparr>cb_engine := e2\<rparr>"] by (simp add: Let_def)
          qed
        qed
      qed
    qed
  qed
qed simp

lemma admit_section_reqs:
  assumes "admit_section md b = Inr (tp, b')" "\<not> cf_warmSlot (cb_cfg b)"
  shows "cb_requests b' = cb_requests b"
proof -
  have warm: "admitWarmSlots md (0, [], b) = (0, [], b)" using assms(2) by (simp add: admitWarmSlots_def)
  from assms(1) warm obtain x where x: "admitCrossSlots md (0, [], b) = Inr x"
    "(case admitColdSlots md (prefill_pressure b) x of (_, tp, b') \<Rightarrow> Inr (tp, b')) = (Inr (tp, b') :: exn + _)"
    by (auto simp: admit_section_def)
  obtain a tp1 b1 where xx: "x = (a, tp1, b1)" by (metis prod_cases3)
  obtain kept a' tp' b'' where l: "admit_cold_loop md (prefill_pressure b) (cb_waiting b1) a tp1 b1 = (kept, a', tp', b'')" by (metis prod_cases4)
  have "cb_requests b1 = cb_requests b"
    using x(1) xx by (auto simp: admitCrossSlots_def dest: admit_cross_reqs split: if_splits)
  moreover have "cb_requests b' = cb_requests b1"
    using x(2) xx l admit_cold_reqs [OF l] by (auto simp: admitColdSlots_def)
  ultimately show ?thesis by simp
qed

section \<open>The bounds\<close>

definition load_ok :: "BatcherConfig \<Rightarrow> ServingRequest list \<Rightarrow> bool" where
  "load_ok cf qs \<longleftrightarrow> undone (\<lambda>_. True) qs \<le> cf_maxInflight cf \<and>
     (\<forall>t. 0 < cf_maxInflightPerTenant cf \<and> t \<noteq> [] \<longrightarrow> undone (\<lambda>q. sr_tenantId q = t) qs \<le> cf_maxInflightPerTenant cf)"

lemma load_ok_le: "load_ok cf qs \<Longrightarrow> reqs_le qs qs' \<Longrightarrow> load_ok cf qs'"
  unfolding load_ok_def using undone_le [of qs qs'] by (metis (no_types, lifting) le_trans)

lemma load_ok_submit:
  assumes c: "core md cf js (cb_waiting b) tp (Qok md cf js tp) b" and ok: "load_ok cf (cb_requests b)"
  shows "load_ok cf (cb_requests (snd (submit prompt maxNew stops tenant p b)))"
proof (cases rule: submit_cases [of prompt maxNew stops tenant p b])
  case (reject q)
  then show ?thesis using ok by (simp add: load_ok_def undone_append)
next
  case accept
  have cf: "cb_cfg b = cf" by (rule coreD(1) [OF c])
  have "undone (\<lambda>_. True) (cb_requests b) < cf_maxInflight cf" using accept(4) core_inflight(1) [OF c] cf by simp
  moreover have "undone (\<lambda>q. sr_tenantId q = tenant) (cb_requests b) < cf_maxInflightPerTenant cf"
    if "0 < cf_maxInflightPerTenant cf" "tenant \<noteq> []"
    using accept(6) core_inflight(2) [OF c that(2)] that cf by auto
  ultimately show ?thesis using accept(1) ok by (auto simp: load_ok_def undone_append newRequest_def Suc_le_eq)
qed

lemma load_ok_run:
  assumes ok: "batcher_ok md (cb_cfg b0)" and run: "batcher_run md b0 x"
  shows "load_ok (cb_cfg b0) (cb_requests (fst (snd x)))"
proof -
  let ?cf = "cb_cfg b0"
  have nw: "\<not> cf_warmSlot ?cf" using ok by (simp add: batcher_ok_def)
  have "(batcher_step md)\<^sup>*\<^sup>* (AtTop, b0, []) x" using run by (simp add: batcher_run_def)
  then show ?thesis
  proof (induction rule: rtranclp_induct)
    case base
    have "cb_requests b0 = []" using run newContinuousBatcher_facts(4) unfolding batcher_run_def by blast
    then show ?case by (simp add: load_ok_def undone_def)
  next
    case (step y z)
    have ry: "batcher_run md b0 y" using step(1) run by (simp add: batcher_run_def)
    have inv: "batcher_inv md ?cf y" by (rule batcher_run_inv(1) [OF ok ry])
    from step(2) show ?case
    proof cases
      case (step_submit pc b js prompt maxNew stops tenant p)
      then show ?thesis using load_ok_submit step(3) inv by (simp add: batcher_inv_def)
    next
      case (step_cancel r b pc js)
      then show ?thesis using load_ok_le [OF step(3)] reqs_le_upd [of "cb_requests b" b] by (simp add: cancel_def)
    next
      case (step_idle b tp b' js)
      then show ?thesis
        using step(3) admit_section_reqs nw coreD(1) inv by (fastforce simp: batcher_inv_def)
    next
      case (step_admit b tp b' js)
      then show ?thesis
        using step(3) admit_section_reqs nw coreD(1) inv by (fastforce simp: batcher_inv_def)
    next
      case (step_stop pc b js)
      then show ?thesis using step(3) by simp
    next
      case (step_prefill tp b js)
      then show ?thesis using load_ok_le [OF step(3)] prefill_section_reqs [of b md tp] by simp
    next
      case (step_step b js)
      then show ?thesis using load_ok_le [OF step(3)] step_section_reqs [of b md] by simp
    next
      case (step_shutdown b js)
      then show ?thesis using load_ok_le [OF step(3)] shutdown_reqs [of b] by simp
    qed
  qed
qed



end
