(* ===== verification/BatcherProgress.thy ===== *)
theory BatcherProgress
  imports BatcherBounds
begin

text \<open>
  The worker drains its queue: left alone, it finishes every request within a number of iterations
  that depends on the number of requests in flight and the context length only, whichever forwards
  fail.
\<close>

section \<open>One iteration of the loop\<close>

text \<open>The body of \<^verbatim>\<open>workerLoop\<close> with the running flag set and no other thread in between.\<close>

definition worker_iteration ::
  "('s, 'k, 'h, 'q, 'p) ServingModel \<Rightarrow> ('s, 'k, 'q, 'p) batcher \<Rightarrow> ('s, 'k, 'q, 'p) batcher option" where
  "worker_iteration md b =
     (case admit_section md b of
        Inl e \<Rightarrow> None
      | Inr (tp, b1) \<Rightarrow> Some (if nActive b1 = 0 then b1 else step_section md (prefill_section md tp b1)))"

fun worker_iterations ::
  "('s, 'k, 'h, 'q, 'p) ServingModel \<Rightarrow> nat \<Rightarrow> ('s, 'k, 'q, 'p) batcher \<Rightarrow> ('s, 'k, 'q, 'p) batcher option" where
  "worker_iterations md 0 b = Some b"
| "worker_iterations md (Suc n) b = (case worker_iteration md b of None \<Rightarrow> None | Some b' \<Rightarrow> worker_iterations md n b')"

lemma iteration_run:
  assumes run: "batcher_run md b0 (AtTop, b, js)" and r: "cb_running b" and it: "worker_iteration md b = Some b'"
  shows "batcher_run md b0 (AtTop, b', js)"
proof -
  obtain tp b1 where a: "admit_section md b = Inr (tp, b1)" using it by (auto simp: worker_iteration_def split: sum.splits)
  show ?thesis
  proof (cases "nActive b1 = 0")
    case True
    then show ?thesis using batcher_run_step [OF run step_idle [OF r a]] it a by (simp add: worker_iteration_def)
  next
    case False
    then show ?thesis
      using batcher_run_step [OF batcher_run_step [OF batcher_run_step [OF run step_admit [OF r a False]] step_prefill] step_step] it a
      by (simp add: worker_iteration_def)
  qed
qed

section \<open>What the sections leave alone\<close>

definition calm :: "('s, 'k, 'q, 'p) batcher \<Rightarrow> ('s, 'k, 'q, 'p) batcher \<Rightarrow> bool" where
  "calm b b' \<longleftrightarrow> cb_cfg b' = cb_cfg b \<and> cb_running b' = cb_running b \<and> length (cb_slots b') = length (cb_slots b) \<and>
     (\<not> cf_warmSlot (cb_cfg b) \<longrightarrow> (\<forall>j. s_resident (cb_slots b' ! j) \<longrightarrow> s_resident (cb_slots b ! j)))"

lemma calm_refl [simp]: "calm b b"
  and calm_trans: "calm a b \<Longrightarrow> calm b c \<Longrightarrow> calm a c"
  and calm_engine [simp]: "calm b (b'\<lparr>cb_engine := e\<rparr>) = calm b b'"
    "calm (b\<lparr>cb_engine := e\<rparr>) b' = calm b b'"
  by (auto simp: calm_def)

lemma calm_req: "calm b0 b \<Longrightarrow> calm b0 (upd_req r f b)"
  and calm_eng: "calm b0 b \<Longrightarrow> calm b0 (upd_eng g b)"
  by (auto simp: calm_def upd_req_def upd_eng_def split: option.splits)

lemma calm_slot:
  assumes "calm b0 b" "s_resident (f (cb_slots b ! i)) \<Longrightarrow> s_resident (cb_slots b ! i)"
  shows "calm b0 (upd_slot i f b)"
proof -
  have "s_resident (cb_slots (upd_slot i f b) ! j) \<longrightarrow> s_resident (cb_slots b ! j)" for j
    using assms(2) by (cases "j = i"; cases "i < length (cb_slots b)") (auto simp: upd_slot_def list_update_beyond)
  then show ?thesis using assms(1) by (auto simp: calm_def upd_slot_def)
qed

lemma calm_fold:
  assumes "\<And>x b. x \<in> set xs \<Longrightarrow> calm b (f x b)"
  shows "calm b (fold f xs b)"
  using assms
proof (induction xs arbitrary: b)
  case (Cons x xs)
  then show ?case using calm_trans [of b "f x b"] by simp
qed simp

lemma calm_retire: "calm b0 b \<Longrightarrow> \<not> cf_warmSlot (cb_cfg b) \<Longrightarrow> calm b0 (retireSlot i keep b)"
  unfolding retireSlot_def Let_def by (auto intro!: calm_eng calm_slot)

lemma calm_if: "(c \<Longrightarrow> calm b x) \<Longrightarrow> (\<not> c \<Longrightarrow> calm b y) \<Longrightarrow> calm b (if c then x else y)"
  by simp

lemma think_resident: "s_resident (snd (applyThinkBudget cf (s :: Slot) t)) = s_resident s"
  using applyThink_slot [of cf s t "fst (applyThinkBudget cf s t)" "snd (applyThinkBudget cf s t)"] by simp

lemma calm_commit: "\<not> cf_warmSlot (cb_cfg b) \<Longrightarrow> calm b (commitPrefilledSlot i r t b)"
  unfolding commitPrefilledSlot_def Let_def case_prod_beta
  by (intro calm_if calm_retire calm_req calm_slot) (auto simp: think_resident)

lemma calm_fail: "calm b (fail_slot i r m b)"
  unfolding fail_slot_def by (intro calm_if calm_slot calm_req) (auto simp: drop_slot_def)

lemma calm_admitted: "\<not> cf_warmSlot (cb_cfg b) \<Longrightarrow> calm b (prefillSlotAdmitted md i b)"
proof (cases rule: admitted_cases [of md i b])
  case (2 m e)
  then show ?thesis using calm_fail [of "b\<lparr>cb_engine := e\<rparr>"] by simp
next
  case (3 t e)
  assume "\<not> cf_warmSlot (cb_cfg b)"
  then show ?thesis using 3 calm_commit [of "b\<lparr>cb_engine := e\<rparr>"] by simp
qed simp

lemma calm_fold_cold:
  assumes "\<not> cf_warmSlot (cb_cfg b)" "\<And>x b. x \<in> set xs \<Longrightarrow> \<not> cf_warmSlot (cb_cfg b) \<Longrightarrow> calm b (f x b)"
  shows "calm b (fold f xs b)"
  using assms
proof (induction xs arbitrary: b)
  case (Cons x xs)
  have c: "calm b (f x b)" by (rule Cons.prems(2)) (use Cons.prems in auto)
  then have "cb_cfg (f x b) = cb_cfg b" by (simp add: calm_def)
  then show ?case using calm_trans [OF c] Cons by simp
qed simp

lemma calm_batch:
  assumes "\<not> cf_warmSlot (cb_cfg b)"
  shows "calm b (prefill_batch md batch b)"
proof -
  have 1: "calm b (fold (\<lambda>(slot, prompt, req). fail_slot slot req m) xs (b\<lparr>cb_engine := e\<rparr>))" for m xs e
    using calm_fold [of xs "\<lambda>(slot, prompt, req). fail_slot slot req m" "b\<lparr>cb_engine := e\<rparr>"] by (auto simp: calm_fail)
  have 2: "calm b (fold (\<lambda>((slot, prompt, req), t). commitPrefilledSlot slot req t) xs (b\<lparr>cb_engine := e\<rparr>))" for xs e
    using calm_fold_cold [of "b\<lparr>cb_engine := e\<rparr>" xs "\<lambda>((slot, prompt, req), t). commitPrefilledSlot slot req t"] assms by (auto simp: calm_commit)
  show ?thesis by (simp add: prefill_batch_def 1 2 split: prod.split sum.split)
qed

lemma calm_run_batched: "\<not> cf_warmSlot (cb_cfg b) \<Longrightarrow> calm b (run_batched md items b)"
proof (induction md items b rule: run_batched.induct)
  case (2 md slot prompt req items b)
  obtain batch rest where g: "grow_batch (cf_prefillMaxRows (cb_cfg b)) (length prompt) items = (batch, rest)" by fastforce
  have a: "calm b (prefillSlotAdmitted md slot b)" and p: "calm b (prefill_batch md xs b)" for xs
    using 2(4) by (simp_all add: calm_admitted calm_batch)
  have cfg: "cb_cfg (prefillSlotAdmitted md slot b) = cb_cfg b" "cb_cfg (prefill_batch md xs b) = cb_cfg b" for xs
    using a p by (simp_all add: calm_def)
  consider "req = None \<or> prompt = []" | "\<not> (req = None \<or> prompt = [])" "length prompt > cf_prefillMaxRows (cb_cfg b)"
    | "\<not> (req = None \<or> prompt = [])" "\<not> length prompt > cf_prefillMaxRows (cb_cfg b)" by blast
  then show ?case
  proof cases
    case 1
    then show ?thesis using "2.IH"(1) "2.prems" by simp
  next
    case 2
    then show ?thesis using "2.IH"(2) [OF 2] calm_trans [OF a] cfg "2.prems" by auto
  next
    case 3
    show ?thesis using 3 calm_trans [OF p "2.IH"(3) [OF 3 g [symmetric] refl]] cfg g "2.prems" by auto
  qed
qed simp

lemma calm_prefill_section: "\<not> cf_warmSlot (cb_cfg b) \<Longrightarrow> calm b (prefill_section md tp b)"
  unfolding prefill_section_def
  by (intro calm_if calm_fold_cold) (simp_all add: calm_admitted calm_run_batched prefillSlotRunBatched_def)

lemma calm_release: "(\<And>s. s_resident (retire s) \<Longrightarrow> s_resident s) \<Longrightarrow> calm b (release_loop retire g n b)"
  unfolding release_loop_def by (rule calm_fold) (auto intro!: calm_slot calm_req)

lemma calm_decode_dist: "\<not> cf_warmSlot (cb_cfg b) \<Longrightarrow> calm b (decode_dist i tok b)"
  unfolding decode_dist_def Let_def case_prod_beta
  by (intro calm_if calm_retire calm_req calm_slot) (auto simp: think_resident)

lemma calm_mixed_dist: "calm b (mixed_dist i row tok b)"
  unfolding mixed_dist_def Let_def case_prod_beta
  by (intro calm_if calm_req calm_slot) (auto simp: think_resident drop_slot_def split: if_splits)

lemma calm_step_section:
  assumes "\<not> cf_warmSlot (cb_cfg b)"
  shows "calm b (step_section md b)"
proof -
  have 1: "calm b (release_loop drop_slot g n (b\<lparr>cb_engine := e\<rparr>))"
    "calm b (release_loop (\<lambda>s. s\<lparr>s_occupied := False, s_req := None\<rparr>) g n (b\<lparr>cb_engine := e\<rparr>))" for g n e
    using calm_release [where b = "b\<lparr>cb_engine := e\<rparr>" and retire = drop_slot]
      calm_release [where b = "b\<lparr>cb_engine := e\<rparr>" and retire = "\<lambda>s. s\<lparr>s_occupied := False, s_req := None\<rparr>"]
    by (simp_all add: drop_slot_def)
  have 2: "calm b (fold (\<lambda>i. decode_dist i (ts ! i)) xs (b\<lparr>cb_engine := e\<rparr>))" for ts xs e
    using calm_fold_cold [of "b\<lparr>cb_engine := e\<rparr>" xs "\<lambda>i. decode_dist i (ts ! i)"] assms by (simp add: calm_decode_dist)
  have 3: "calm b (fold (\<lambda>i. mixed_dist i (rows ! i) (ts ! i)) xs (b\<lparr>cb_engine := e\<rparr>))" for rows ts xs e
    using calm_fold [of xs "\<lambda>i. mixed_dist i (rows ! i) (ts ! i)" "b\<lparr>cb_engine := e\<rparr>"] by (simp add: calm_mixed_dist)
  show ?thesis
    by (simp add: step_section_def runMixedStep_def decode_step_def Let_def fail_active_eq 1 2 3 split: prod.split sum.split)
qed

lemma calm_shutdown: "calm b (shutdown_section b)"
proof -
  let ?g = "\<lambda>q. finish_req ''batcher stopped'' (q\<lparr>sr_cancelled := True\<rparr>)"
  let ?b1 = "fold (\<lambda>p. upd_req (Some (pd_req p)) ?g) (cb_waiting b) b"
  have "calm b ?b1" by (rule calm_fold) (simp add: calm_req)
  then have "calm b (?b1\<lparr>cb_waiting := []\<rparr>)" by (simp add: calm_def)
  moreover have "shutdown_section b = release_loop (\<lambda>s. s\<lparr>s_occupied := False, s_req := None\<rparr>) ?g (length (cb_slots b)) (?b1\<lparr>cb_waiting := []\<rparr>)"
    by (simp add: shutdown_section_def release_loop_def Let_def)
  ultimately show ?thesis
    using calm_trans [OF _ calm_release [where b = "?b1\<lparr>cb_waiting := []\<rparr>" and retire = "\<lambda>s. s\<lparr>s_occupied := False, s_req := None\<rparr>"]]
    by simp
qed

section \<open>Admission\<close>

text \<open>
  What the admission passes do to the length of the queue, the count of admissions and the slots:
  one request at a time leaves the queue for a free slot.
\<close>

inductive admission :: "nat \<times> nat \<times> Slot list \<Rightarrow> nat \<times> nat \<times> Slot list \<Rightarrow> bool" for x where
  adm_refl: "admission x x"
| adm_take: "\<lbrakk>admission x (Suc n, a, sl); i < length sl; \<not> s_occupied (sl ! i); s_occupied s; \<not> s_resident s\<rbrakk> \<Longrightarrow>
    admission x (n, Suc a, sl[i := s])"

lemma admission_trans: "admission y z \<Longrightarrow> admission x y \<Longrightarrow> admission x z"
  by (induction rule: admission.induct) (auto intro: admission.intros)

lemma admission_one:
  "\<lbrakk>i < length sl; \<not> s_occupied (sl ! i); s_occupied s; \<not> s_resident s; admission (n, Suc a, sl[i := s]) z\<rbrakk> \<Longrightarrow>
   admission (Suc n, a, sl) z"
  by (erule admission_trans) (rule adm_take [OF adm_refl])

lemma admission_slots:
  assumes "admission (n, a, sl) (n', a', sl')"
  shows "length sl' = length sl" "(\<exists>s \<in> set sl'. s_resident s) \<Longrightarrow> (\<exists>s \<in> set sl. s_resident s)"
    "a' = a \<or> (\<exists>s \<in> set sl'. s_occupied s)"
proof -
  have "length sl' = length sl \<and> ((\<exists>s \<in> set sl'. s_resident s) \<longrightarrow> (\<exists>s \<in> set sl. s_resident s)) \<and> (a' = a \<or> (\<exists>s \<in> set sl'. s_occupied s))"
    using assms
  proof (induction "(n', a', sl')" arbitrary: n' a' sl' rule: admission.induct)
    case (adm_take m c tl i s)
    have "set (tl[i := s]) \<subseteq> insert s (set tl)" by (rule set_update_subset_insert)
    moreover have "s \<in> set (tl[i := s])" using adm_take(3) by (rule set_update_memI)
    ultimately show ?case using adm_take by auto
  qed auto
  then show "length sl' = length sl" "(\<exists>s \<in> set sl'. s_resident s) \<Longrightarrow> (\<exists>s \<in> set sl. s_resident s)"
    "a' = a \<or> (\<exists>s \<in> set sl'. s_occupied s)" by blast+
qed

lemma admit_cold_admission:
  assumes "admit_cold_loop md pr ps a tp b = (kept, a', tp', b')"
  shows "admission (length ps, a, cb_slots b) (length kept, a', cb_slots b') \<and> cb_cfg b' = cb_cfg b \<and> cb_running b' = cb_running b \<and>
    (kept \<noteq> [] \<longrightarrow> \<not> may_admit (cb_cfg b) a' \<or> pickColdSlot b' = None)"
  using assms
proof (induction md pr ps a tp b rule: admit_cold_loop.induct)
  case (2 md pr p ps a tp b)
  show ?case
  proof (cases "\<not> may_admit (cb_cfg b) a \<or> pickColdSlot b = None")
    case True
    then show ?thesis using 2(2) by (auto intro: adm_refl split: if_splits)
  next
    case False
    then obtain i where i: "pickColdSlot b = Some i" by blast
    define s where "s = (take_request (cb_cfg b) p 0 (cb_slots b ! i))\<lparr>s_xslotPayload := 0, s_residentTokens := []\<rparr>"
    have s: "s_occupied s" "\<not> s_resident s" by (simp_all add: s_def take_request_def)
    show ?thesis
      using 2(1) [OF _ i refl refl refl] 2(2) False i admission_one [OF pickColdSlot_free [OF i, THEN conjunct1] pickColdSlot_free [OF i, THEN conjunct2] s]
      by (simp add: Let_def upd_slot_def upd_eng_def s_def)
  qed
qed (auto intro: adm_refl)

lemma take_request_resident [simp]: "\<not> s_resident (take_request cf p n s)" "s_occupied (take_request cf p n s)"
  by (simp_all add: take_request_def)

text \<open>The slot a cross-slot hit is restored into.\<close>

lemma admit_cross_take:
  assumes "may_admit (cb_cfg b) a" "lookupPrefixImage (pd_prompt p) (cb_engine b) = (Inr (Some (xpos, xpid)), e1)"
    "\<not> (xpos = 0 \<or> xpos \<ge> length (pd_prompt p))" "pickColdSlot (b\<lparr>cb_engine := e1\<rparr>) = Some i"
    "restorePrefixImageToSlot i xpid e1 = (True, e2)"
  obtains tp' b4 s where "admit_cross_loop md (p # ps) a tp b = admit_cross_loop md ps (Suc a) tp' b4"
    "cb_slots b4 = (cb_slots b)[i := s]" "s_occupied s" "\<not> s_resident s" "cb_cfg b4 = cb_cfg b" "cb_running b4 = cb_running b"
proof (rule that)
  let ?s = "(take_request (cb_cfg b) p xpos (cb_slots b ! i))\<lparr>s_xslotPayload := xpid\<rparr>"
  let ?b4 = "b\<lparr>cb_slots := (cb_slots b)[i := ?s], cb_engine := setSlot md i (pd_sampling p) (pd_prompt p) (clearSlotSsmCkpts i (acquirePrefixImage xpid e2))\<rparr>"
  show "admit_cross_loop md (p # ps) a tp b =
      admit_cross_loop md ps (Suc a) (if cf_prefillChunk (cb_cfg b) > 0 \<and> length (pd_prompt p) > xpos then tp @ [i] else tp) ?b4"
    using assms by (simp add: Let_def upd_eng_def upd_slot_def)
  show "s_occupied ?s" "\<not> s_resident ?s" "cb_slots ?b4 = (cb_slots b)[i := ?s]" "cb_cfg ?b4 = cb_cfg b" "cb_running ?b4 = cb_running b" by simp_all
qed

lemma admit_cross_admission:
  assumes "admit_cross_loop md ps a tp b = Inr (kept, a', tp', b')"
  shows "admission (m + length ps, a, cb_slots b) (m + length kept, a', cb_slots b') \<and> cb_cfg b' = cb_cfg b \<and> cb_running b' = cb_running b"
  using assms
proof (induction ps arbitrary: m a tp b kept)
  case (Cons p ps)
  obtain res e1 where l: "lookupPrefixImage (pd_prompt p) (cb_engine b) = (res, e1)" by fastforce
  let ?goal = "admission (m + length (p # ps), a, cb_slots b) (m + length kept, a', cb_slots b') \<and> cb_cfg b' = cb_cfg b \<and> cb_running b' = cb_running b"
  have skip: ?goal if sk: "bind_result (admit_cross_loop md ps a tp (b\<lparr>cb_engine := e\<rparr>)) (\<lambda>(kept, r). Inr (p # kept, r)) = Inr (kept, a', tp', b')" for e
  proof -
    obtain kept' where "admit_cross_loop md ps a tp (b\<lparr>cb_engine := e\<rparr>) = Inr (kept', a', tp', b')" "kept = p # kept'"
      using sk by (auto split: prod.splits)
    then show ?thesis using Cons.IH [of a tp "b\<lparr>cb_engine := e\<rparr>" kept' "Suc m"] by simp
  qed
  show ?case
  proof (cases "may_admit (cb_cfg b) a \<and> (\<exists>hit. res = Inr (Some hit))")
    case False
    then show ?thesis using Cons.prems l skip by (cases res) (auto simp: Let_def intro: adm_refl split: if_splits option.splits)
  next
    case True
    then obtain xpos xpid where hit: "res = Inr (Some (xpos, xpid))" by auto
    let ?in = "\<not> (xpos = 0 \<or> xpos \<ge> length (pd_prompt p))"
    consider (out) "\<not> ?in" | (full) ?in "pickColdSlot (b\<lparr>cb_engine := e1\<rparr>) = None"
      | (cold) i ok e2 where ?in "pickColdSlot (b\<lparr>cb_engine := e1\<rparr>) = Some i" "restorePrefixImageToSlot i xpid e1 = (ok, e2)"
      by (metis option.exhaust surj_pair)
    then show ?thesis
    proof cases
      case out
      then have "admit_cross_loop md (p # ps) a tp b = bind_result (admit_cross_loop md ps a tp (b\<lparr>cb_engine := e1\<rparr>)) (\<lambda>(kept, r). Inr (p # kept, r))"
        using l hit True by (simp add: Let_def)
      then show ?thesis using skip Cons.prems by metis
    next
      case full
      then show ?thesis using Cons.prems l hit True by (auto simp: Let_def intro: adm_refl)
    next
      case (cold i ok e2)
      show ?thesis
      proof (cases ok)
        case False
        then have "admit_cross_loop md (p # ps) a tp b = bind_result (admit_cross_loop md ps a tp (b\<lparr>cb_engine := e2\<rparr>)) (\<lambda>(kept, r). Inr (p # kept, r))"
          using l hit True cold by (simp add: Let_def)
        then show ?thesis using skip Cons.prems by metis
      next
        case ok: True
        obtain tp4 b4 s where b4: "admit_cross_loop md (p # ps) a tp b = admit_cross_loop md ps (Suc a) tp4 b4"
          "cb_slots b4 = (cb_slots b)[i := s]" "s_occupied s" "\<not> s_resident s" "cb_cfg b4 = cb_cfg b" "cb_running b4 = cb_running b"
          by (rule admit_cross_take [of b a p xpos xpid e1 i e2 md ps tp]) (use True l hit cold ok in auto)
        have free: "i < length (cb_slots b)" "\<not> s_occupied (cb_slots b ! i)" using pickColdSlot_free [OF cold(2)] by simp_all
        show ?thesis
          using Cons.IH [of "Suc a" tp4 b4 kept m] Cons.prems b4 admission_one [OF free b4(3,4)] by simp
      qed
    qed
  qed
qed (auto intro: adm_refl)

lemma admit_section_admission:
  assumes "admit_section md b = Inr (tp, b')" "\<not> cf_warmSlot (cb_cfg b)"
  obtains a where "admission (length (cb_waiting b), 0, cb_slots b) (length (cb_waiting b'), a, cb_slots b')"
    "cb_cfg b' = cb_cfg b" "cb_running b' = cb_running b" "cb_waiting b' \<noteq> [] \<Longrightarrow> \<not> may_admit (cb_cfg b) a \<or> pickColdSlot b' = None"
proof -
  have warm: "admitWarmSlots md (0, [], b) = (0, [], b)" using assms(2) by (simp add: admitWarmSlots_def)
  from assms(1) warm obtain x where x: "admitCrossSlots md (0, [], b) = Inr x"
    "(case admitColdSlots md (prefill_pressure b) x of (_, tp, b') \<Rightarrow> Inr (tp, b')) = (Inr (tp, b') :: exn + _)"
    by (auto simp: admit_section_def)
  obtain a tp1 b1 where xx: "x = (a, tp1, b1)" by (metis prod_cases3)
  obtain kept a' tp' b'' where l: "admit_cold_loop md (prefill_pressure b) (cb_waiting b1) a tp1 b1 = (kept, a', tp', b'')" by (metis prod_cases4)
  have c1: "admission (length (cb_waiting b), 0, cb_slots b) (length (cb_waiting b1), a, cb_slots b1) \<and> cb_cfg b1 = cb_cfg b \<and> cb_running b1 = cb_running b"
  proof (cases "cf_xslot (cb_cfg b)")
    case True
    then obtain k b2 where "admit_cross_loop md (cb_waiting b) 0 [] b = Inr (k, a, tp1, b2)" "b1 = b2\<lparr>cb_waiting := k\<rparr>"
      using x(1) xx by (auto simp: admitCrossSlots_def)
    then show ?thesis using admit_cross_admission [of md "cb_waiting b" 0 "[]" b k a tp1 b2 0] by simp
  next
    case False
    then show ?thesis using x(1) xx by (simp add: admitCrossSlots_def adm_refl)
  qed
  have b': "b' = b''\<lparr>cb_waiting := kept\<rparr>" using x(2) xx l by (auto simp: admitColdSlots_def)
  have pick: "pickColdSlot (b''\<lparr>cb_waiting := kept\<rparr>) = pickColdSlot b''" by (simp add: pickColdSlot_def)
  note cold = admit_cold_admission [OF l]
  show thesis
  proof (rule that [of a'])
    have "admission (length (cb_waiting b1), a, cb_slots b1) (length kept, a', cb_slots b'')" using cold by simp
    from admission_trans [OF this] c1 show "admission (length (cb_waiting b), 0, cb_slots b) (length (cb_waiting b'), a', cb_slots b')"
      by (simp add: b')
    show "cb_cfg b' = cb_cfg b" "cb_running b' = cb_running b" using cold c1 by (simp_all add: b')
    show "\<not> may_admit (cb_cfg b) a' \<or> pickColdSlot b' = None" if "cb_waiting b' \<noteq> []" using cold c1 that by (simp add: b' pick)
  qed
qed

text \<open>With a free slot that holds no warm context, the cold pass always finds one.\<close>

lemma cold_scan_None:
  assumes "cold_scan k ss x y t = (None, z)" "\<forall>s \<in> set ss. \<not> s_resident s"
  shows "x = None \<and> (\<forall>s \<in> set ss. s_occupied s)"
  using assms
proof (induction ss arbitrary: k x y t)
  case (Cons s ss)
  note IH = Cons.IH [of "Suc k"]
  show ?case
  proof (cases "s_occupied s")
    case True
    then show ?thesis using Cons.prems IH [of x y t] by simp
  next
    case False
    then show ?thesis using Cons.prems IH [of "if x = None then Some k else x" y t] by (simp split: if_splits)
  qed
qed simp

lemma pickColdSlot_None:
  assumes "pickColdSlot b = None" "\<forall>s \<in> set (cb_slots b). \<not> s_resident s"
  shows "\<forall>s \<in> set (cb_slots b). s_occupied s"
  using assms cold_scan_None [of 0 "cb_slots b" None None "- 1"] by (auto simp: pickColdSlot_def split: if_splits prod.splits)

lemma admission_occupies:
  assumes "admit_section md b = Inr (tp, b')" "\<not> cf_warmSlot (cb_cfg b)" "cb_waiting b' \<noteq> []" "cb_slots b \<noteq> []"
    "\<forall>s \<in> set (cb_slots b). \<not> s_resident s"
  shows "\<exists>s \<in> set (cb_slots b'). s_occupied s"
proof -
  obtain a where a: "admission (length (cb_waiting b), 0, cb_slots b) (length (cb_waiting b'), a, cb_slots b')"
    "\<not> may_admit (cb_cfg b) a \<or> pickColdSlot b' = None"
    using admit_section_admission [OF assms(1,2)] assms(3) by metis
  note A = admission_slots [OF a(1)]
  have ne: "cb_slots b' \<noteq> []" using A(1) assms(4) by auto
  show ?thesis
  proof (cases "a = 0")
    case True
    then have "pickColdSlot b' = None" using a(2) by (auto simp: may_admit_def)
    then have "\<forall>s \<in> set (cb_slots b'). s_occupied s" by (rule pickColdSlot_None) (use A(2) assms(5) in blast)
    then show ?thesis using ne by (metis last_in_set)
  next
    case False
    then show ?thesis using A(3) by blast
  qed
qed

section \<open>The measure\<close>

text \<open>
  How far a slot is from the end of its context: the positions it has still to decode and, in the
  mixed step, the prompt positions it has still to ingest.
\<close>

definition todo :: "BatcherConfig \<Rightarrow> Slot \<Rightarrow> nat" where
  "todo cf s = (if s_occupied s then 2 * cf_maxContext cf - (s_pos s + (if cf_mixedStep cf then s_prefillPos s else 0)) else 0)"

definition work :: "BatcherConfig \<Rightarrow> nat \<Rightarrow> Slot list \<Rightarrow> nat" where
  "work cf n sl = (2 * cf_maxContext cf + 1) * n + sum_list (map (todo cf) sl)"

lemma todo_le: "todo cf s \<le> (if s_occupied s then 2 * cf_maxContext cf else 0)"
  by (simp add: todo_def)

lemma work_bound: "work cf n sl \<le> (2 * cf_maxContext cf + 1) * (n + length (filter s_occupied sl))"
proof (induction sl)
  case (Cons s sl)
  then show ?case using todo_le [of cf s] by (simp add: work_def split: if_splits)
qed (simp add: work_def)

lemma work_admission: "admission (n, a, sl) (n', a', sl') \<Longrightarrow> work cf n' sl' \<le> work cf n sl"
proof (induction "(n', a', sl')" arbitrary: n' a' sl' rule: admission.induct)
  case (adm_take m c tl i s)
  have "sum_list (map (todo cf) (tl[i := s])) \<le> sum_list (map (todo cf) tl) + 2 * cf_maxContext cf"
    using sum_list_map_update [OF adm_take(3), of "todo cf" s] todo_le [of cf s] adm_take(4) by (simp add: todo_def [of cf "tl ! i"] split: if_splits)
  then show ?case using adm_take(2) by (simp add: work_def)
qed simp

lemma work_less:
  assumes "length sl' = length sl" "\<And>j. j < length sl \<Longrightarrow> todo cf (sl' ! j) \<le> todo cf (sl ! j)"
    "i < length sl" "todo cf (sl' ! i) < todo cf (sl ! i)"
  shows "work cf n sl' < work cf n sl"
proof -
  have "(\<Sum>j<length sl. todo cf (sl' ! j)) < (\<Sum>j<length sl. todo cf (sl ! j))"
    by (rule sum_strict_mono_ex1) (use assms in auto)
  then show ?thesis using assms(1) by (simp add: work_def sum_list_sum_nth atLeast0LessThan)
qed

text \<open>The invariant keeps an occupied slot inside its context.\<close>

lemma slot_positions:
  assumes "cfg_ok cf" "slot_ok md cf js eager s v rq" "s_occupied s"
  shows "s_pos s + (if cf_mixedStep cf then s_prefillPos s else 0) < 2 * cf_maxContext cf"
    "cf_mixedStep cf \<Longrightarrow> s_prefillPos s < s_promptLen s \<Longrightarrow> s_pos s = 0" "s_promptLen s < cf_maxContext cf"
    "eager \<Longrightarrow> s_pos s = 0 \<and> s_prefillPos s = 0"
  using assms
  by (auto simp: slot_ok_def ingesting_def decoding_def job_slot_def cfg_ok_def split: prod.splits if_splits)

section \<open>Every step advances every occupied slot\<close>

text \<open>A loop over the slots that touches slot \<open>i\<close> in round \<open>i\<close> only.\<close>

lemma fold_slotwise:
  assumes F: "\<forall>i b. i < n \<and> n \<le> length (cb_slots b) \<and> cb_cfg b = cf \<longrightarrow>
      calm b (F i b) \<and> (\<forall>j. j \<noteq> i \<longrightarrow> cb_slots (F i b) ! j = cb_slots b ! j) \<and> R i (cb_slots b ! i) (cb_slots (F i b) ! i)"
    and b: "n \<le> length (cb_slots b)" "cb_cfg b = cf"
  shows "j < n \<Longrightarrow> R j (cb_slots b ! j) (cb_slots (fold F [0..<n] b) ! j)"
    "n \<le> j \<Longrightarrow> cb_slots (fold F [0..<n] b) ! j = cb_slots b ! j"
proof -
  have "calm b (fold F [0..<m] b) \<and>
      (\<forall>j. if j < m then R j (cb_slots b ! j) (cb_slots (fold F [0..<m] b) ! j) else cb_slots (fold F [0..<m] b) ! j = cb_slots b ! j)"
    if "m \<le> n" for m
    using that
  proof (induction m)
    case (Suc m)
    let ?c = "fold F [0..<m] b"
    have IH: "calm b ?c" "\<And>j. if j < m then R j (cb_slots b ! j) (cb_slots ?c ! j) else cb_slots ?c ! j = cb_slots b ! j" using Suc by auto
    have "calm ?c (F m ?c) \<and> (\<forall>j. j \<noteq> m \<longrightarrow> cb_slots (F m ?c) ! j = cb_slots ?c ! j) \<and> R m (cb_slots ?c ! m) (cb_slots (F m ?c) ! m)"
      by (rule F [rule_format]) (use IH(1) b Suc.prems in \<open>auto simp: calm_def\<close>)
    moreover have "cb_slots ?c ! m = cb_slots b ! m" using IH(2) [of m] by simp
    ultimately show ?case using calm_trans [OF IH(1)] IH(2) by (auto simp: less_Suc_eq split: if_splits)
  qed simp
  from this [of n] show "j < n \<Longrightarrow> R j (cb_slots b ! j) (cb_slots (fold F [0..<n] b) ! j)"
    "n \<le> j \<Longrightarrow> cb_slots (fold F [0..<n] b) ! j = cb_slots b ! j" by (auto dest: spec [of _ j])
qed

text \<open>What a slot may turn into: it is freed, decodes one position, or ingests a chunk of its prompt.\<close>

definition steps_to :: "bool \<Rightarrow> Slot \<Rightarrow> Slot \<Rightarrow> bool" where
  "steps_to mx s s' \<longleftrightarrow>
     (if s_occupied s
      then \<not> s_occupied s' \<or> (s_pos s' = Suc (s_pos s) \<and> s_prefillPos s' = s_prefillPos s) \<or>
        (mx \<and> s_prefillPos s < s_promptLen s \<and> s_prefillPos s < s_prefillPos s' \<and> (s_pos s' = s_pos s \<or> s_pos s' = s_promptLen s))
      else s' = s)"

lemma retire_free: "i < length (cb_slots b) \<Longrightarrow> \<not> s_occupied (cb_slots (retireSlot i keep b) ! i)"
  by (simp add: retireSlot_def Let_def upd_slot_def upd_eng_def)

lemma think_positions [simp]:
  "s_pos (snd (applyThinkBudget cf (s :: Slot) t)) = s_pos s" "s_prefillPos (snd (applyThinkBudget cf s t)) = s_prefillPos s"
  using applyThink_slot [of cf s t "fst (applyThinkBudget cf s t)" "snd (applyThinkBudget cf s t)"] by simp_all

lemma decode_dist_slot:
  assumes "i < length (cb_slots b)"
  shows "steps_to mx (cb_slots b ! i) (cb_slots (decode_dist i tok b) ! i)"
  using assms unfolding decode_dist_def Let_def case_prod_beta steps_to_def
  by (simp add: retire_free upd_slot_def upd_req_def split: option.split)

lemma mixed_row_spec:
  assumes "s_occupied s"
  shows "mr_req (fst (mixed_row cf s y)) = s_req s" "mr_prefilling (fst (mixed_row cf s y)) = (s_prefillPos s < s_promptLen s)"
    "mr_prefilling (fst (mixed_row cf s y)) \<Longrightarrow> s_prefillPos s < mr_newPrefillPos (fst (mixed_row cf s y))"
  using assms by (auto simp: mixed_row_def Let_def split: if_splits)

lemma mixed_dist_slot:
  assumes i: "i < length (cb_slots b)" and row: "row = fst (mixed_row cf (cb_slots b ! i) y)"
  shows "steps_to True (cb_slots b ! i) (cb_slots (mixed_dist i row tok b) ! i)"
proof (cases "s_occupied (cb_slots b ! i)")
  case True
  note R = mixed_row_spec [OF True, of cf y, folded row]
  show ?thesis using i True R unfolding mixed_dist_def Let_def case_prod_beta steps_to_def
    by (simp add: upd_slot_def upd_req_def split: option.split)
qed (simp add: mixed_free steps_to_def)

lemma steps_to_free: "\<not> s_occupied s \<Longrightarrow> steps_to mx s s"
  by (simp add: steps_to_def)

lemma dist_steps:
  assumes F: "\<And>i b. i < n \<Longrightarrow> n \<le> length (cb_slots b) \<Longrightarrow> cb_cfg b = cb_cfg b0 \<Longrightarrow>
      calm b (F i b) \<and> (\<forall>j. j \<noteq> i \<longrightarrow> cb_slots (F i b) ! j = cb_slots b ! j) \<and>
      (cb_slots b ! i = cb_slots b0 ! i \<longrightarrow> steps_to mx (cb_slots b ! i) (cb_slots (F i b) ! i))"
    and n: "n \<le> length (cb_slots b0)" and j: "n \<le> j \<Longrightarrow> \<not> s_occupied (cb_slots b0 ! j)"
  shows "steps_to mx (cb_slots b0 ! j) (cb_slots (fold F [0..<n] (b0\<lparr>cb_engine := e\<rparr>)) ! j)"
proof -
  let ?b = "b0\<lparr>cb_engine := e\<rparr>"
  have W: "\<forall>i b. i < n \<and> n \<le> length (cb_slots b) \<and> cb_cfg b = cb_cfg b0 \<longrightarrow> calm b (F i b) \<and> (\<forall>j. j \<noteq> i \<longrightarrow> cb_slots (F i b) ! j = cb_slots b ! j) \<and>
      (cb_slots b ! i = cb_slots b0 ! i \<longrightarrow> steps_to mx (cb_slots b ! i) (cb_slots (F i b) ! i))"
    using F by blast
  have b: "n \<le> length (cb_slots ?b)" "cb_cfg ?b = cb_cfg b0" using n by simp_all
  show ?thesis
  proof (cases "j < n")
    case True
    from fold_slotwise(1) [where R = "\<lambda>i s s'. s = cb_slots b0 ! i \<longrightarrow> steps_to mx s s'", OF W b True] show ?thesis by simp
  next
    case False
    then have "cb_slots (fold F [0..<n] ?b) ! j = cb_slots b0 ! j"
      using fold_slotwise(2) [where R = "\<lambda>i s s'. s = cb_slots b0 ! i \<longrightarrow> steps_to mx s s'", OF W b, of j] by simp
    then show ?thesis using steps_to_free j False by simp
  qed
qed

lemma release_steps:
  assumes "n \<le> length (cb_slots b)" "\<And>s. \<not> s_occupied (retire s)" "\<And>s. s_resident (retire s) \<Longrightarrow> s_resident s"
    "n \<le> j \<Longrightarrow> \<not> s_occupied (cb_slots b ! j)"
  shows "steps_to mx (cb_slots b ! j) (cb_slots (release_loop retire g n (b\<lparr>cb_engine := e\<rparr>)) ! j)"
  unfolding release_loop_def
proof (rule dist_steps [OF _ assms(1,4)], intro conjI impI allI)
  fix i and c :: "('a, 'b, 'c, 'd) batcher" assume i: "i < n" "n \<le> length (cb_slots c)"
  let ?c = "if s_occupied (cb_slots c ! i) then upd_slot i retire (upd_req (s_req (cb_slots c ! i)) g c) else c"
  show "calm c ?c" by (intro calm_if calm_slot calm_req) (use assms(3) in auto)
  show "cb_slots ?c ! k = cb_slots c ! k" if "k \<noteq> i" for k using that by simp
  show "steps_to mx (cb_slots c ! i) (cb_slots ?c ! i)"
    using assms(2) i by (cases "s_req (cb_slots c ! i)") (simp_all add: steps_to_def upd_slot_def upd_req_def)
qed

lemma decode_frame:
  "j \<noteq> i \<Longrightarrow> cb_slots (decode_dist i tok b) ! j = cb_slots b ! j" "j \<noteq> i \<Longrightarrow> cb_slots (mixed_dist i row tok b) ! j = cb_slots b ! j"
  by (simp_all add: decode_dist_def mixed_dist_def Let_def case_prod_beta)

lemma step_section_steps:
  assumes len: "length (cb_slots b) = cf_maxBatch (cb_cfg b)" and cold: "\<not> cf_warmSlot (cb_cfg b)" and jm: "j < cf_maxBatch (cb_cfg b)"
  shows "steps_to (cf_mixedStep (cb_cfg b)) (cb_slots b ! j) (cb_slots (step_section md b) ! j)"
proof -
  let ?n = "nActive b"
  have n: "?n \<le> length (cb_slots b)" using nActive_spec(1) [of b] len by simp
  have j: "\<not> s_occupied (cb_slots b ! j)" if "?n \<le> j" using nActive_spec(2) [OF jm] that by linarith
  have rel: "steps_to mx (cb_slots b ! j) (cb_slots (release_loop drop_slot g ?n (b\<lparr>cb_engine := e\<rparr>)) ! j)"
    "steps_to mx (cb_slots b ! j) (cb_slots (release_loop (\<lambda>s. s\<lparr>s_occupied := False, s_req := None\<rparr>) g ?n (b\<lparr>cb_engine := e\<rparr>)) ! j)" for mx g e
    by (rule release_steps [OF n _ _ j]; simp add: drop_slot_def)+
  have dec: "steps_to mx (cb_slots b ! j) (cb_slots (fold (\<lambda>i. decode_dist i (ts ! i)) [0..<?n] (b\<lparr>cb_engine := e\<rparr>)) ! j)" for mx ts e
    
  proof (rule dist_steps [OF _ n j], intro conjI impI allI)
    fix i and c :: "('a, 'b, 'c, 'd) batcher" assume i: "i < ?n" "?n \<le> length (cb_slots c)" "cb_cfg c = cb_cfg b"
    show "calm c (decode_dist i (ts ! i) c)" by (rule calm_decode_dist) (use cold i(3) in simp)
    show "steps_to mx (cb_slots c ! i) (cb_slots (decode_dist i (ts ! i) c) ! i)" by (rule decode_dist_slot) (use i in simp)
  qed (simp add: decode_frame)
  have mix: "steps_to True (cb_slots b ! j) (cb_slots (fold (\<lambda>i. mixed_dist i (mixed_rows (cb_cfg b) (take ?n (cb_slots b)) x ! i) (ts ! i)) [0..<?n] (b\<lparr>cb_engine := e\<rparr>)) ! j)" for x ts e
  proof (rule dist_steps [OF _ n j], intro conjI impI allI)
    fix i and c :: "('a, 'b, 'c, 'd) batcher" assume i: "i < ?n" "?n \<le> length (cb_slots c)" "cb_slots c ! i = cb_slots b ! i"
    obtain y where "mixed_rows (cb_cfg b) (take ?n (cb_slots b)) x ! i = fst (mixed_row (cb_cfg b) (cb_slots c ! i) y)"
      using mixed_rows_nth [of i "take ?n (cb_slots b)"] i n by auto
    then show "steps_to True (cb_slots c ! i) (cb_slots (mixed_dist i (mixed_rows (cb_cfg b) (take ?n (cb_slots b)) x ! i) (ts ! i) c) ! i)"
      using mixed_dist_slot [of i c] i(1,2) by simp
  qed (simp_all add: calm_mixed_dist decode_frame)
  have free: "steps_to mx (cb_slots b ! j) (cb_slots b ! j)" if "?n = 0" for mx by (rule steps_to_free [OF j]) (use that in simp)
  show ?thesis
  proof (cases "cf_mixedStep (cb_cfg b) \<and> any_prefilling b")
    case True
    then show ?thesis by (simp add: step_section_def runMixedStep_def Let_def fail_active_eq rel mix free split: prod.split sum.split)
  next
    case False
    then have "step_section md b = decode_step md b" by (auto simp: step_section_def)
    then show ?thesis by (simp add: decode_step_def Let_def fail_active_eq rel dec free split: prod.split sum.split)
  qed
qed

section \<open>The queue drains\<close>

text \<open>The prefill section works on the slots it is given.\<close>

lemma grow_batch_append: "grow_batch maxRows tok items = (batch, rest) \<Longrightarrow> items = batch @ rest"
  by (induction maxRows tok items arbitrary: batch rest rule: grow_batch.induct) (auto split: if_splits prod.splits)

lemma run_batched_frame: "j \<notin> fst ` set items \<Longrightarrow> cb_slots (run_batched md items b) ! j = cb_slots b ! j"
proof (induction md items b rule: run_batched.induct)
  case (2 md slot prompt req items b)
  obtain batch rest where g: "grow_batch (cf_prefillMaxRows (cb_cfg b)) (length prompt) items = (batch, rest)" by fastforce
  have sub: "items = batch @ rest" by (rule grow_batch_append [OF g])
  show ?case
    using 2 g sub prefill_batch_frame [of j "(slot, prompt, req) # batch" md b] admitted_frame(1) [of j slot md b]
    by (auto simp: image_iff)
qed simp

lemma contiguous_runs_set: "\<Union> (set ` set (contiguous_runs xs)) = set xs"
proof (induction xs rule: contiguous_runs.induct)
  case (2 x xs)
  have "xs = fst (split_run x xs) @ snd (split_run x xs)" using split_run_spec [of x xs] by (metis prod.collapse)
  then have "set xs = set (fst (split_run x xs)) \<union> set (snd (split_run x xs))" by (metis set_append)
  then show ?case using 2 by simp
qed simp

lemma prefill_section_frame: "j \<notin> set tp \<Longrightarrow> cb_slots (prefill_section md tp b) ! j = cb_slots b ! j"
proof -
  assume j: "j \<notin> set tp"
  have "cb_slots (fold (prefillSlotRunBatched md) (contiguous_runs tp) b) ! j = cb_slots b ! j"
  proof (rule fold_frame)
    fix run c assume "run \<in> set (contiguous_runs tp)"
    then have "j \<notin> set run" using j contiguous_runs_set [of tp] by blast
    then show "cb_slots (prefillSlotRunBatched md run c) ! j = cb_slots c ! j"
      unfolding prefillSlotRunBatched_def by (intro run_batched_frame) (auto simp: Let_def)
  qed
  moreover have "cb_slots (fold (prefillSlotAdmitted md) tp b) ! j = cb_slots b ! j"
    by (rule fold_frame) (use j in \<open>auto intro: admitted_frame\<close>)
  ultimately show ?thesis by (simp add: prefill_section_def)
qed

lemma prefill_todo:
  assumes cfg: "cfg_ok cf" and c: "core md cf js (cb_waiting b) tp (Qok md cf js tp) b" and j: "j < cf_maxBatch cf"
  shows "todo cf (cb_slots (prefill_section md tp b) ! j) \<le> todo cf (cb_slots b ! j)"
proof (cases "j \<in> set tp")
  case True
  then have occ: "s_occupied (cb_slots b ! j)" using coreD(10) [OF c] by simp
  have "s_pos (cb_slots b ! j) = 0 \<and> s_prefillPos (cb_slots b ! j) = 0"
    using slot_positions(4) [OF cfg _ occ True] coreD(11) [OF c j] by blast
  then show ?thesis using occ by (simp add: todo_def)
next
  case False
  then show ?thesis by (simp add: prefill_section_frame)
qed

lemma step_todo:
  assumes cfg: "cfg_ok cf" and ok: "slot_ok md cf js eager s v rq" and st: "steps_to (cf_mixedStep cf) s s'"
  shows "todo cf s' \<le> todo cf s" "s_occupied s \<Longrightarrow> todo cf s' < todo cf s"
proof -
  have "todo cf s' < todo cf s" if occ: "s_occupied s"
    using slot_positions(1,2,3) [OF cfg ok occ] st occ by (auto simp: steps_to_def todo_def split: if_splits)
  then show "todo cf s' \<le> todo cf s" "s_occupied s \<Longrightarrow> todo cf s' < todo cf s"
    using st by (cases "s_occupied s"; simp add: steps_to_def)+
qed

lemma iteration_work:
  assumes ok: "batcher_ok md cf" "cfg_ok cf" and c: "core md cf js (cb_waiting b) [] (Qok md cf js []) b"
    and res: "\<forall>s \<in> set (cb_slots b). \<not> s_resident s" and pos: "0 < cf_maxBatch cf"
    and undone: "r < length js" "\<not> sr_done (cb_requests b ! r)"
  obtains b' where "worker_iteration md b = Some b'" "cb_running b' = cb_running b"
    "work cf (length (cb_waiting b')) (cb_slots b') < work cf (length (cb_waiting b)) (cb_slots b)"
proof -
  have cf: "\<not> cf_warmSlot cf" "forward_ok md" "sampler_ok md cf" "cb_cfg b = cf" using ok coreD(1) [OF c] by (simp_all add: batcher_ok_def)
  obtain tp b1 where a: "admit_section md b = Inr (tp, b1)" "core md cf js (cb_waiting b1) tp (Qok md cf js tp) b1"
    using admit_section_core [OF ok(2) cf(2) c] by blast
  note D = coreD [OF a(2)]
  obtain k where k: "admission (length (cb_waiting b), 0, cb_slots b) (length (cb_waiting b1), k, cb_slots b1)" "cb_running b1 = cb_running b"
    using admit_section_admission [OF a(1)] cf(1,4) by metis
  have "\<not> sr_done (cb_requests b1 ! r)" using admit_section_reqs [OF a(1)] cf(1,4) undone(2) by simp
  then have "placed (cb_waiting b1) (cb_slots b1) (cf_maxBatch cf) r" using D(12) undone(1) by blast
  moreover have "cb_waiting b1 \<noteq> [] \<Longrightarrow> \<exists>s \<in> set (cb_slots b1). s_occupied s"
    by (rule admission_occupies [OF a(1)]) (use cf(1,4) res pos coreD(2) [OF c] in auto)
  ultimately obtain i where i: "i < cf_maxBatch cf" "s_occupied (cb_slots b1 ! i)"
    unfolding placed_def using D(2) by (metis empty_iff image_is_empty in_set_conv_nth list.set(1))
  have n: "nActive b1 \<noteq> 0" using nActive_spec(2) [of i b1] i D(1) by auto
  let ?b2 = "prefill_section md tp b1" and ?b3 = "step_section md (prefill_section md tp b1)"
  have c2: "core md cf js (cb_waiting ?b2) [] (Qok md cf js []) ?b2"
    using prefill_section_core [OF ok(2) cf(2) a(2)] by simp
  note E = coreD [OF c2]
  have w: "cb_waiting ?b3 = cb_waiting b1"
    by (simp add: step_section_def runMixedStep_waiting decode_step_waiting prefill_section_core [OF ok(2) cf(2) a(2)])
  have calm: "calm b1 ?b2" "calm ?b2 ?b3" using D(1) E(1) cf(1) by (simp_all add: calm_prefill_section calm_step_section)
  have ss: "slot_ok md cf js False (cb_slots ?b2 ! j) (eview (cb_engine ?b2) j) (cb_requests ?b2 ! the (s_req (cb_slots ?b2 ! j)))"
    "steps_to (cf_mixedStep cf) (cb_slots ?b2 ! j) (cb_slots ?b3 ! j)" if "j < cf_maxBatch cf" for j
    using E(11) [OF that] step_section_steps [of ?b2 j md] E(1,2) cf(1) that by simp_all
  have le: "todo cf (cb_slots ?b3 ! j) \<le> todo cf (cb_slots b1 ! j)" if "j < cf_maxBatch cf" for j
    using step_todo(1) [OF ok(2) ss [OF that]] prefill_todo [OF ok(2) a(2) that] by (rule le_trans)
  have "0 < todo cf (cb_slots b1 ! i)"
    using slot_positions(1) [OF ok(2) D(11) [OF i(1)] i(2)] i(2) by (simp add: todo_def)
  then have lt: "todo cf (cb_slots ?b3 ! i) < todo cf (cb_slots b1 ! i)"
    using step_todo [OF ok(2) ss [OF i(1)]] prefill_todo [OF ok(2) a(2) i(1)]
    by (cases "s_occupied (cb_slots ?b2 ! i)") (auto simp: todo_def)
  have "work cf (length (cb_waiting ?b3)) (cb_slots ?b3) < work cf (length (cb_waiting b1)) (cb_slots b1)"
    unfolding w by (rule work_less [OF _ _ _ lt]) (use calm D(2) i(1) le in \<open>auto simp: calm_def\<close>)
  then have "work cf (length (cb_waiting ?b3)) (cb_slots ?b3) < work cf (length (cb_waiting b)) (cb_slots b)"
    using work_admission [OF k(1), of cf] by linarith
  moreover have "worker_iteration md b = Some ?b3" "cb_running ?b3 = cb_running b"
    using a(1) n calm k(2) by (simp_all add: worker_iteration_def calm_def)
  ultimately show thesis by (intro that)
qed

lemma calm_residents: "calm b b' \<Longrightarrow> \<not> cf_warmSlot (cb_cfg b) \<Longrightarrow> \<forall>s \<in> set (cb_slots b). \<not> s_resident s \<Longrightarrow> \<forall>s \<in> set (cb_slots b'). \<not> s_resident s"
  by (auto simp: calm_def all_set_conv_all_nth)

text \<open>With warm slots off no slot is ever resident.\<close>

lemma run_cold:
  assumes ok: "batcher_ok md (cb_cfg b0)" and run: "batcher_run md b0 x"
  shows "\<forall>s \<in> set (cb_slots (fst (snd x))). \<not> s_resident s"
proof -
  have "(batcher_step md)\<^sup>*\<^sup>* (AtTop, b0, []) x" using run by (simp add: batcher_run_def)
  then show ?thesis
  proof (induction rule: rtranclp_induct)
    case base
    have "cb_slots b0 = replicate (cf_maxBatch (cb_cfg b0)) newSlot" using run newContinuousBatcher_facts(2) unfolding batcher_run_def by blast
    then show ?case by (simp add: newSlot_def)
  next
    case (step y z)
    have "batcher_inv md (cb_cfg b0) y" using batcher_run_inv(1) [OF ok] step(1) run by (simp add: batcher_run_def)
    then have nw: "\<not> cf_warmSlot (cb_cfg (fst (snd y)))" using ok coreD(1) by (fastforce simp: batcher_inv_def batcher_ok_def)
    have adm: "\<forall>s \<in> set (cb_slots b'). \<not> s_resident s" if h: "admit_section md b = Inr (tp, b')" "y = (pc, b, js)" for b tp b' pc js
    proof -
      obtain a where "admission (length (cb_waiting b), 0, cb_slots b) (length (cb_waiting b'), a, cb_slots b')"
        using admit_section_admission [OF h(1)] nw h(2) by auto
      from admission_slots(2) [OF this] show ?thesis using step(3) h(2) by auto
    qed
    from step(2) show ?case
    proof cases
      case (step_submit pc b js prompt maxNew stops tenant p)
      then show ?thesis using step(3) by (cases rule: submit_cases [of prompt maxNew stops tenant p b]) simp_all
    next
      case (step_prefill tp b js)
      then show ?thesis using calm_residents [OF calm_prefill_section] nw step(3) by simp
    next
      case (step_step b js)
      then show ?thesis using calm_residents [OF calm_step_section] nw step(3) by simp
    next
      case (step_shutdown b js)
      then show ?thesis using calm_residents [OF calm_shutdown] nw step(3) by simp
    qed (use step(3) adm in \<open>auto simp: cancel_def\<close>)
  qed
qed

lemma worker_drains_work:
  assumes ok: "batcher_ok md (cb_cfg b0)"
  shows "batcher_run md b0 (AtTop, b, js) \<Longrightarrow> cb_running b \<Longrightarrow>
    \<exists>n \<le> work (cb_cfg b0) (length (cb_waiting b)) (cb_slots b). \<exists>b'. worker_iterations md n b = Some b' \<and>
      batcher_run md b0 (AtTop, b', js) \<and> (\<forall>r < length js. sr_done (cb_requests b' ! r))"
proof (induction "work (cb_cfg b0) (length (cb_waiting b)) (cb_slots b)" arbitrary: b rule: less_induct)
  case less
  show ?case
  proof (cases "\<forall>r < length js. sr_done (cb_requests b ! r)")
    case True
    then show ?thesis using less.prems by (intro exI [of _ 0]) simp
  next
    case False
    then obtain r where r: "r < length js" "\<not> sr_done (cb_requests b ! r)" by blast
    have c: "core md (cb_cfg b0) js (cb_waiting b) [] (Qok md (cb_cfg b0) js []) b"
      using batcher_run_inv(1) [OF ok less.prems(1)] by (simp add: batcher_inv_def pc_toPrefill_def)
    have "0 < cf_maxBatch (cb_cfg b0)" using less.prems(1) newContinuousBatcher_facts(13) unfolding batcher_run_def by blast
    then obtain b1 where b1: "worker_iteration md b = Some b1" "cb_running b1 = cb_running b"
      "work (cb_cfg b0) (length (cb_waiting b1)) (cb_slots b1) < work (cb_cfg b0) (length (cb_waiting b)) (cb_slots b)"
      using iteration_work [OF ok batcher_run_inv(2) [OF ok less.prems(1)] c _ _ r] run_cold [OF ok less.prems(1)] by auto
    obtain n b' where "n \<le> work (cb_cfg b0) (length (cb_waiting b1)) (cb_slots b1)" "worker_iterations md n b1 = Some b'"
      "batcher_run md b0 (AtTop, b', js)" "\<forall>r < length js. sr_done (cb_requests b' ! r)"
      using less.hyps [OF b1(3) iteration_run [OF less.prems b1(1)]] b1(2) less.prems(2) by auto
    then show ?thesis using b1 by (intro exI [of _ "Suc n"]) simp
  qed
qed



end
