(* ===== verification/DeviceMemory.thy ===== *)
theory DeviceMemory
  imports Prelude
begin

text \<open>
  Memory outside the C++ heap: device allocations, USM chunks and shared-memory chunks. It is a list of
  allocations, each with its size in bytes; \<^verbatim>\<open>ComputeOps::allocate\<close> and its relatives add a fresh
  one. A \<^verbatim>\<open>void*\<close> is the number of an allocation and a byte offset, so pointers into different
  allocations never overlap.
\<close>

datatype ptr = NullPtr | Ptr nat nat

type_synonym device = "nat list"

definition device_alloc :: "nat \<Rightarrow> device \<Rightarrow> ptr \<times> device" where
  "device_alloc bytes d = (Ptr (length d) 0, d @ [bytes])"

fun ptr_add :: "ptr \<Rightarrow> nat \<Rightarrow> ptr" where
  "ptr_add NullPtr n = NullPtr"
| "ptr_add (Ptr b off) n = Ptr b (off + n)"

fun valid_range :: "device \<Rightarrow> ptr \<times> nat \<Rightarrow> bool" where
  "valid_range d (NullPtr, n) = False"
| "valid_range d (Ptr b off, n) = (b < length d \<and> off + n \<le> d ! b)"

fun disjoint_ranges :: "ptr \<times> nat \<Rightarrow> ptr \<times> nat \<Rightarrow> bool" where
  "disjoint_ranges (Ptr b off, n) (Ptr b' off', n') = (b \<noteq> b' \<or> off + n \<le> off' \<or> off' + n' \<le> off)"
| "disjoint_ranges _ _ = True"

section \<open>Contents\<close>

text \<open>The bytes of host-visible memory (USM and shared-memory chunks), by allocation and offset.\<close>

type_synonym store = "nat \<Rightarrow> nat \<Rightarrow> u8"

fun memcpy :: "ptr \<Rightarrow> u8 list \<Rightarrow> store \<Rightarrow> store" where
  "memcpy NullPtr data st = st"
| "memcpy (Ptr b off) data st = st(b := (\<lambda>i. if off \<le> i \<and> i < off + length data then data ! (i - off) else st b i))"

fun read_mem :: "store \<Rightarrow> ptr \<Rightarrow> nat \<Rightarrow> u8 list" where
  "read_mem st NullPtr n = []"
| "read_mem st (Ptr b off) n = map (st b) [off..<off + n]"

lemma read_mem_memcpy_same: "n = length data \<Longrightarrow> read_mem (memcpy (Ptr b off) data st) (Ptr b off) n = data"
  by (rule nth_equalityI) simp_all

lemma read_mem_memcpy_other:
  assumes "disjoint_ranges (p, n) (q, length data)"
  shows "read_mem (memcpy q data st) p n = read_mem st p n"
proof (cases p)
  case p: (Ptr b off)
  show ?thesis
  proof (cases q)
    case (Ptr b' off')
    then show ?thesis using assms p by (auto simp: not_less)
  qed simp
qed simp

end
