(* ===== verification/KvStorage.thy ===== *)
theory KvStorage
  imports DeviceMemory
begin

text \<open>
  Where key/value rows live in device memory: \<^verbatim>\<open>KvCache\<close> (\<^verbatim>\<open>src/runtime/KvCache.{hpp,cpp}\<close>), the slab pool
  of the batched decoder (\<^verbatim>\<open>src/runtime/serving/KvCacheSlabPool.{hpp,cpp}\<close>) and the paged pool
  (\<^verbatim>\<open>src/runtime/serving/PagedKvPool.{hpp,cpp}\<close>).

  Queued device operations are values; the range of bytes an operation writes is \<open>op_writes\<close>.
  Sizes are mathematical: a device allocation that overflowed \<^verbatim>\<open>std::size_t\<close> would not fit any device.
\<close>

datatype KvDtype = F32 | FP16 | Q8_0 | FP8_E4M3

fun kvElementBytes :: "KvDtype \<Rightarrow> nat" where
  "kvElementBytes F32 = 4" | "kvElementBytes FP16 = 2" | "kvElementBytes Q8_0 = 0" | "kvElementBytes FP8_E4M3 = 1"

fun kvBlockElements :: "KvDtype \<Rightarrow> nat" where
  "kvBlockElements F32 = 1" | "kvBlockElements FP16 = 1" | "kvBlockElements Q8_0 = 32" | "kvBlockElements FP8_E4M3 = 1"

fun kvBlockBytes :: "KvDtype \<Rightarrow> nat" where
  "kvBlockBytes F32 = 4" | "kvBlockBytes FP16 = 2" | "kvBlockBytes Q8_0 = 34" | "kvBlockBytes FP8_E4M3 = 1"

definition kvBytesForElements :: "KvDtype \<Rightarrow> nat \<Rightarrow> nat" where
  "kvBytesForElements d nElements = nElements div kvBlockElements d * kvBlockBytes d"

section \<open>KvCache\<close>

record KvCache =
  kc_maxSeq :: nat
  kc_kvDim :: "nat list"
  kc_dtype :: KvDtype
  kc_layerBytes :: "nat list"
  kc_kvSource :: "nat list"
  kc_length :: nat
  kc_kOwners :: "ptr option list"
  kc_vOwners :: "ptr option list"
  kc_kBuf :: "ptr list"
  kc_vBuf :: "ptr list"

definition alloc_layer :: "nat \<Rightarrow> KvCache \<times> device \<Rightarrow> KvCache \<times> device" where
  "alloc_layer i cd =
     (let (c, d) = cd;
          src = kc_kvSource c ! i;
          bytes = kc_maxSeq c * kvBytesForElements (kc_dtype c) (kc_kvDim c ! i)
      in if src = i
         then let (k, d1) = device_alloc bytes d; (v, d2) = device_alloc bytes d1
              in (c\<lparr>kc_layerBytes := (kc_layerBytes c)[i := bytes],
                    kc_kOwners := (kc_kOwners c)[i := Some k], kc_vOwners := (kc_vOwners c)[i := Some v],
                    kc_kBuf := (kc_kBuf c)[i := k], kc_vBuf := (kc_vBuf c)[i := v]\<rparr>, d2)
         else (c\<lparr>kc_layerBytes := (kc_layerBytes c)[i := 0],
                 kc_kBuf := (kc_kBuf c)[i := kc_kBuf c ! src],
                 kc_vBuf := (kc_vBuf c)[i := kc_vBuf c ! src]\<rparr>, d))"

definition allocateLayers :: "KvCache \<Rightarrow> device \<Rightarrow> (KvCache \<times> device) result" where
  "allocateLayers c d =
     (let n = length (kc_kvDim c);
          c1 = c\<lparr>kc_layerBytes := replicate n 0, kc_kOwners := replicate n None, kc_vOwners := replicate n None,
                 kc_kBuf := replicate n NullPtr, kc_vBuf := replicate n NullPtr,
                 kc_kvSource := (if kc_kvSource c = [] then [0..<n] else kc_kvSource c)\<rparr>
      in if kc_dtype c = Q8_0 \<and> \<not> list_all (\<lambda>dim. dim mod kvBlockElements (kc_dtype c) = 0) (kc_kvDim c)
         then Inl (RuntimeError ''KvCache: kvDim is not a multiple of the block size'')
         else Inr (fold alloc_layer [0..<n] (c1, d)))"

definition newKvCache :: "nat \<Rightarrow> nat list \<Rightarrow> nat list \<Rightarrow> KvDtype \<Rightarrow> device \<Rightarrow> (KvCache \<times> device) result" where
  "newKvCache maxSeq kvDimPerLayer kvSourceLayer dtype d =
     allocateLayers \<lparr>kc_maxSeq = maxSeq, kc_kvDim = kvDimPerLayer, kc_dtype = dtype, kc_layerBytes = [],
       kc_kvSource = kvSourceLayer, kc_length = 0, kc_kOwners = [], kc_vOwners = [], kc_kBuf = [], kc_vBuf = []\<rparr> d"

definition newKvCacheUniform ::
  "nat \<Rightarrow> nat \<Rightarrow> nat \<Rightarrow> nat \<Rightarrow> KvDtype \<Rightarrow> device \<Rightarrow> (KvCache \<times> device) result" where
  "newKvCacheUniform nLayers maxSeq nKvHeads headDim dtype d =
     newKvCache maxSeq (replicate nLayers (nKvHeads * headDim)) [] dtype d"

definition newKvCacheView ::
  "nat \<Rightarrow> nat list \<Rightarrow> ptr list \<Rightarrow> ptr list \<Rightarrow> nat \<Rightarrow> KvDtype \<Rightarrow> KvCache result" where
  "newKvCacheView maxSeq kvDimPerLayer kBases vBases initialLength dtype =
     (let n = length kvDimPerLayer in
      if length kBases \<noteq> n \<or> length vBases \<noteq> n
      then Inl (InvalidArgument ''KvCache(ExternalView): kBases/vBases size must equal kvDimPerLayer size'')
      else if dtype = Q8_0
      then Inl (InvalidArgument ''KvCache(ExternalView): Q8_0 block storage is not a plain external view'')
      else if initialLength > maxSeq
      then Inl (InvalidArgument ''KvCache(ExternalView): initialLength exceeds maxSeq'')
      else Inr \<lparr>kc_maxSeq = maxSeq, kc_kvDim = kvDimPerLayer, kc_dtype = dtype, kc_layerBytes = replicate n 0,
                kc_kvSource = [0..<n], kc_length = initialLength, kc_kOwners = replicate n None,
                kc_vOwners = replicate n None, kc_kBuf = kBases, kc_vBuf = vBases\<rparr>)"

definition rowBytes :: "KvCache \<Rightarrow> nat \<Rightarrow> nat" where
  "rowBytes c layer = kvBytesForElements (kc_dtype c) (kc_kvDim c ! layer)"

definition elementBytes :: "KvCache \<Rightarrow> nat result" where
  "elementBytes c =
     (if kc_dtype c = Q8_0 then Inl (LogicError ''KvCache::elementBytes: not defined for Q8_0'')
      else Inr (kvElementBytes (kc_dtype c)))"

definition writeSlotK :: "KvCache \<Rightarrow> nat \<Rightarrow> ptr" where
  "writeSlotK c layer = ptr_add (kc_kBuf c ! layer) (kc_length c * kvBytesForElements (kc_dtype c) (kc_kvDim c ! layer))"

definition writeSlotV :: "KvCache \<Rightarrow> nat \<Rightarrow> ptr" where
  "writeSlotV c layer = ptr_add (kc_vBuf c ! layer) (kc_length c * kvBytesForElements (kc_dtype c) (kc_kvDim c ! layer))"

definition baseK :: "KvCache \<Rightarrow> nat \<Rightarrow> ptr" where
  "baseK c layer = kc_kBuf c ! layer"

definition baseV :: "KvCache \<Rightarrow> nat \<Rightarrow> ptr" where
  "baseV c layer = kc_vBuf c ! layer"

definition commit :: "nat \<Rightarrow> KvCache \<Rightarrow> KvCache" where
  "commit T c = c\<lparr>kc_length := kc_length c + T\<rparr>"

definition resetCache :: "KvCache \<Rightarrow> KvCache" where
  "resetCache c = c\<lparr>kc_length := 0\<rparr>"

definition truncate :: "nat \<Rightarrow> KvCache \<Rightarrow> KvCache" where
  "truncate n c = c\<lparr>kc_length := (if n \<le> kc_length c then n else kc_length c)\<rparr>"

section \<open>KvCacheSlabPool\<close>

record KvCacheSlabPool =
  sp_contextCap :: nat
  sp_numLayers :: nat
  sp_dtype :: KvDtype
  sp_slots :: "KvCache list"

text \<open>The loop that builds one cache per slot; an exception of a \<^verbatim>\<open>KvCache\<close> constructor ends it.\<close>

fun build_slots :: "nat \<Rightarrow> nat \<Rightarrow> nat list \<Rightarrow> nat list \<Rightarrow> KvDtype \<Rightarrow> device \<Rightarrow> (KvCache list \<times> device) result" where
  "build_slots 0 cap dims srcs dt d = Inr ([], d)"
| "build_slots (Suc n) cap dims srcs dt d =
     (case newKvCache cap dims srcs dt d of
        Inl e \<Rightarrow> Inl e
      | Inr (c, d1) \<Rightarrow> (case build_slots n cap dims srcs dt d1 of
                          Inl e \<Rightarrow> Inl e
                        | Inr (cs, d2) \<Rightarrow> Inr (c # cs, d2)))"

definition newKvCacheSlabPool ::
  "nat \<Rightarrow> nat \<Rightarrow> nat list \<Rightarrow> nat list \<Rightarrow> KvDtype \<Rightarrow> device \<Rightarrow> (KvCacheSlabPool \<times> device) result" where
  "newKvCacheSlabPool maxBatch contextCap kvDimPerLayer kvSourceLayer dtype d =
     (if maxBatch = 0 then Inl (InvalidArgument ''KvCacheSlabPool: maxBatch must be > 0'')
      else if contextCap = 0 then Inl (InvalidArgument ''KvCacheSlabPool: contextCap must be > 0'')
      else if kvDimPerLayer = [] then Inl (InvalidArgument ''KvCacheSlabPool: kvDimPerLayer must not be empty'')
      else case build_slots maxBatch contextCap kvDimPerLayer kvSourceLayer dtype d of
             Inl e \<Rightarrow> Inl e
           | Inr (cs, d') \<Rightarrow> Inr (\<lparr>sp_contextCap = contextCap, sp_numLayers = length kvDimPerLayer,
                                    sp_dtype = dtype, sp_slots = cs\<rparr>, d'))"

text \<open>\<^verbatim>\<open>forBackend\<close> reads three things of the backend: its capability and its layer geometry.\<close>

definition forBackend ::
  "bool \<Rightarrow> nat list \<Rightarrow> nat list \<Rightarrow> nat \<Rightarrow> nat \<Rightarrow> KvDtype \<Rightarrow> device \<Rightarrow> (KvCacheSlabPool \<times> device) result" where
  "forBackend supportsBatchedDecode kvDimPerLayer kvSourceLayerPerLayer maxBatch contextCap dtype d =
     (if \<not> supportsBatchedDecode
      then Inl (InvalidArgument ''KvCacheSlabPool::forBackend: backend does not implement the neutral batched-decode kernel'')
      else newKvCacheSlabPool maxBatch contextCap kvDimPerLayer kvSourceLayerPerLayer dtype d)"

definition slab_slot :: "nat \<Rightarrow> KvCacheSlabPool \<Rightarrow> KvCache result" where
  "slab_slot i p = (if i \<ge> length (sp_slots p) then Inl (OutOfRange ''KvCacheSlabPool::slot'') else Inr (sp_slots p ! i))"

definition resetSlot :: "nat \<Rightarrow> KvCacheSlabPool \<Rightarrow> KvCacheSlabPool" where
  "resetSlot i p =
     (if i < length (sp_slots p) then p\<lparr>sp_slots := (sp_slots p)[i := resetCache (sp_slots p ! i)]\<rparr> else p)"

definition activeSlotCaches :: "nat \<Rightarrow> KvCacheSlabPool \<Rightarrow> KvCache list result" where
  "activeSlotCaches nSeq p =
     (if nSeq > length (sp_slots p) then Inl (OutOfRange ''KvCacheSlabPool::activeSlotCaches'')
      else Inr (take nSeq (sp_slots p)))"

definition slab_kvDim :: "nat \<Rightarrow> KvCacheSlabPool \<Rightarrow> nat" where
  "slab_kvDim layer p = (if sp_slots p = [] then 0 else kc_kvDim (hd (sp_slots p)) ! layer)"

section \<open>PagedKvPool\<close>

record PagedKvPool =
  pp_numLayers :: nat
  pp_numBlocks :: nat
  pp_blockSize :: nat
  pp_numKvHeads :: nat
  pp_headDim :: nat
  pp_dtype :: KvDtype
  pp_kPool :: "ptr list"
  pp_vPool :: "ptr list"

definition slotElems :: "PagedKvPool \<Rightarrow> nat" where
  "slotElems p = pp_numKvHeads p * pp_headDim p"

definition blockElems :: "PagedKvPool \<Rightarrow> nat" where
  "blockElems p = pp_blockSize p * slotElems p"

definition elemBytes :: "PagedKvPool \<Rightarrow> nat" where
  "elemBytes p = kvElementBytes (pp_dtype p)"

definition alloc_pool_layer :: "nat \<Rightarrow> PagedKvPool \<times> device \<Rightarrow> PagedKvPool \<times> device" where
  "alloc_pool_layer poolBytes pd =
     (let (p, d) = pd; (k, d1) = device_alloc poolBytes d; (v, d2) = device_alloc poolBytes d1
      in (p\<lparr>pp_kPool := pp_kPool p @ [k], pp_vPool := pp_vPool p @ [v]\<rparr>, d2))"

definition newPagedKvPool ::
  "nat \<Rightarrow> nat \<Rightarrow> nat \<Rightarrow> nat \<Rightarrow> nat \<Rightarrow> KvDtype \<Rightarrow> device \<Rightarrow> (PagedKvPool \<times> device) result" where
  "newPagedKvPool numLayers numBlocks blockSize numKvHeads headDim dtype d =
     (if numLayers = 0 \<or> numBlocks = 0 \<or> blockSize = 0 \<or> numKvHeads = 0 \<or> headDim = 0
      then Inl (InvalidArgument ''PagedKvPool: numLayers/numBlocks/blockSize/numKvHeads/headDim must all be > 0'')
      else if dtype \<noteq> F32 \<and> dtype \<noteq> FP16 \<and> dtype \<noteq> FP8_E4M3
      then Inl (InvalidArgument ''PagedKvPool: only F32, FP16 and FP8_E4M3 KV dtypes are supported'')
      else let p = \<lparr>pp_numLayers = numLayers, pp_numBlocks = numBlocks, pp_blockSize = blockSize,
                    pp_numKvHeads = numKvHeads, pp_headDim = headDim, pp_dtype = dtype, pp_kPool = [], pp_vPool = []\<rparr>;
               poolElems = pp_numBlocks p * blockElems p;
               poolBytes = poolElems * elemBytes p
           in Inr ((alloc_pool_layer poolBytes ^^ numLayers) (p, d)))"

definition keyPool :: "nat \<Rightarrow> PagedKvPool \<Rightarrow> ptr" where
  "keyPool layer p = pp_kPool p ! layer"

definition valuePool :: "nat \<Rightarrow> PagedKvPool \<Rightarrow> ptr" where
  "valuePool layer p = pp_vPool p ! layer"

text \<open>
  The device operations the pool queues, with their arguments; \<open>'r\<close> is the type of the source rows.
  A commit writes \<open>T\<close> rows of \<open>kvDim\<close> elements (two bytes or one) from row \<open>writeOffset\<close> on.
\<close>

datatype 'r dev_op =
    AppendMemoryCopy ptr 'r nat
  | KvCommitFp16 'r ptr nat nat nat
  | KvCommitFp8 'r ptr nat nat nat
  | WriteKvTokensBatched 'r 'r "u32 list" "u32 list" ptr ptr nat nat nat KvDtype "u8 list option"

fun op_writes :: "'r dev_op \<Rightarrow> (ptr \<times> nat) list" where
  "op_writes (AppendMemoryCopy dst src n) = [(dst, n)]"
| "op_writes (KvCommitFp16 src dst T dim off) = [(ptr_add dst (off * dim * 2), T * dim * 2)]"
| "op_writes (KvCommitFp8 src dst T dim off) = [(ptr_add dst (off * dim), T * dim)]"
| "op_writes (WriteKvTokensBatched k v blocks slots kp vp n bs width dt active) =
     concat (map (\<lambda>i. let off = (unat (blocks ! i) * bs + unat (slots ! i)) * width * kvElementBytes dt;
                          len = width * kvElementBytes dt
                      in [(ptr_add kp off, len), (ptr_add vp off, len)])
       (filter (\<lambda>i. case active of None \<Rightarrow> True | Some m \<Rightarrow> m ! i \<noteq> 0) [0..<n]))"

definition writeToken :: "PagedKvPool \<Rightarrow> nat \<Rightarrow> u32 \<Rightarrow> nat \<Rightarrow> 'r \<Rightarrow> 'r \<Rightarrow> 'r dev_op list" where
  "writeToken p layer blockId slot kRow vRow =
     (let width = slotElems p;
          rowOff = unat blockId * pp_blockSize p + slot;
          k = pp_kPool p ! layer; v = pp_vPool p ! layer
      in if pp_dtype p = FP16 then [KvCommitFp16 kRow k 1 width rowOff, KvCommitFp16 vRow v 1 width rowOff]
         else if pp_dtype p = FP8_E4M3 then [KvCommitFp8 kRow k 1 width rowOff, KvCommitFp8 vRow v 1 width rowOff]
         else let off = rowOff * width; bytes = width * 4
              in [AppendMemoryCopy (ptr_add k (off * 4)) kRow bytes, AppendMemoryCopy (ptr_add v (off * 4)) vRow bytes])"

definition writeTokensBatched ::
  "PagedKvPool \<Rightarrow> nat \<Rightarrow> 'r \<Rightarrow> 'r \<Rightarrow> u32 list \<Rightarrow> u32 list \<Rightarrow> nat \<Rightarrow> u8 list option \<Rightarrow> 'r dev_op list" where
  "writeTokensBatched p layer kProj vProj blockIds slots nSeq activeMask =
     [WriteKvTokensBatched kProj vProj blockIds slots (pp_kPool p ! layer) (pp_vPool p ! layer)
        nSeq (pp_blockSize p) (slotElems p) (pp_dtype p) activeMask]"

section \<open>The layout of a cache\<close>

lemma valid_range_append: "valid_range d r \<Longrightarrow> valid_range (d @ e) r"
  by (cases "(d, r)" rule: valid_range.cases) (auto simp: nth_append)

text \<open>
  The layer that owns the storage of a layer: its source layer's owner. The constructor asks that a
  source comes first and has the same width.
\<close>

function owner_layer :: "nat list \<Rightarrow> nat \<Rightarrow> nat" where
  "owner_layer srcs i = (if srcs ! i < i then owner_layer srcs (srcs ! i) else i)"
  by auto
termination by (relation "measure snd") auto

declare owner_layer.simps [simp del]

definition sources_ok :: "nat list \<Rightarrow> nat list \<Rightarrow> bool" where
  "sources_ok dims srcs \<longleftrightarrow>
     srcs = [] \<or> length srcs = length dims \<and> (\<forall>i < length dims. srcs ! i \<le> i \<and> dims ! (srcs ! i) = dims ! i)"

definition eff_sources :: "nat list \<Rightarrow> nat list \<Rightarrow> nat list" where
  "eff_sources dims srcs = (if srcs = [] then [0..<length dims] else srcs)"

lemma eff_sourcesD:
  assumes "sources_ok dims srcs" "i < length dims"
  shows "eff_sources dims srcs ! i \<le> i" "dims ! (eff_sources dims srcs ! i) = dims ! i"
  using assms by (auto simp: sources_ok_def eff_sources_def)

lemma owner_layer_props:
  assumes "\<And>i. i < n \<Longrightarrow> srcs ! i \<le> i" "i < n"
  shows "owner_layer srcs i \<le> i" "srcs ! owner_layer srcs i = owner_layer srcs i"
  using assms(2)
proof (induction i rule: less_induct)
  case (less i)
  { case 1
    show ?case using less(1) [of "srcs ! i"] 1 by (subst owner_layer.simps) (auto intro: order_trans less_imp_le)
  next
    case 2
    show ?case using less(2) [of "srcs ! i"] 2 assms(1) [OF 2] by (subst (1 2) owner_layer.simps) auto }
qed

text \<open>
  The state of the allocation loop after the first \<open>m\<close> layers: every owner has got a pair of fresh
  buffers, in the order of the layers, and every layer uses the pair of its owner.
\<close>

definition owners_below :: "nat list \<Rightarrow> nat \<Rightarrow> nat" where
  "owners_below srcs m = length (filter (\<lambda>j. srcs ! j = j) [0..<m])"

definition own_buf :: "KvCache \<Rightarrow> device \<Rightarrow> nat \<Rightarrow> nat \<Rightarrow> bool" where
  "own_buf c d i b \<longleftrightarrow> Suc b < length d \<and> kc_kBuf c ! i = Ptr b 0 \<and> kc_vBuf c ! i = Ptr (Suc b) 0
     \<and> d ! b = kc_maxSeq c * rowBytes c i \<and> d ! Suc b = kc_maxSeq c * rowBytes c i"

definition layers_ok :: "KvCache \<Rightarrow> device \<Rightarrow> nat \<Rightarrow> nat \<Rightarrow> bool" where
  "layers_ok c d d0 m \<longleftrightarrow>
     length (kc_kBuf c) = length (kc_kvDim c) \<and> length (kc_vBuf c) = length (kc_kvDim c) \<and>
     length d = d0 + 2 * owners_below (kc_kvSource c) m \<and>
     (\<forall>i < m. own_buf c d i (d0 + 2 * owners_below (kc_kvSource c) (owner_layer (kc_kvSource c) i)))"

lemma owners_below_Suc: "owners_below srcs (Suc m) = owners_below srcs m + (if srcs ! m = m then 1 else 0)"
  by (simp add: owners_below_def)

lemma owners_below_mono: "i \<le> j \<Longrightarrow> owners_below srcs i \<le> owners_below srcs j"
  by (induction rule: dec_induct) (simp_all add: owners_below_Suc)

lemma owners_below_less: "i < j \<Longrightarrow> srcs ! i = i \<Longrightarrow> owners_below srcs i < owners_below srcs j"
  using owners_below_mono [of "Suc i" j srcs] by (simp add: owners_below_Suc)

lemma alloc_layer_frame:
  assumes "alloc_layer i (c, d) = (c', d')"
  shows "kc_maxSeq c' = kc_maxSeq c" "kc_kvDim c' = kc_kvDim c" "kc_dtype c' = kc_dtype c"
    "kc_kvSource c' = kc_kvSource c" "kc_length c' = kc_length c"
  using assms by (auto simp: alloc_layer_def device_alloc_def Let_def split: if_splits)

lemma own_buf_mono:
  assumes "own_buf c d j b" "j \<noteq> i" "alloc_layer i (c, d) = (c', d')"
  shows "own_buf c' d' j b"
  using assms
  by (auto simp: own_buf_def rowBytes_def alloc_layer_def device_alloc_def Let_def nth_append split: if_splits)

lemma layers_ok_step:
  assumes ok: "layers_ok c d d0 m" and m: "m < length (kc_kvDim c)"
    and src: "kc_kvSource c ! m \<le> m" "kc_kvDim c ! (kc_kvSource c ! m) = kc_kvDim c ! m"
    and run: "alloc_layer m (c, d) = (c', d')"
  shows "layers_ok c' d' d0 (Suc m)"
proof -
  let ?s = "kc_kvSource c" and ?b = "\<lambda>i. d0 + 2 * owners_below (kc_kvSource c) (owner_layer (kc_kvSource c) i)"
  note fr = alloc_layer_frame [OF run]
  have len: "length (kc_kBuf c') = length (kc_kvDim c')" "length (kc_vBuf c') = length (kc_kvDim c')"
    "length d' = d0 + 2 * owners_below (kc_kvSource c') (Suc m)"
    using ok run by (auto simp: layers_ok_def alloc_layer_def device_alloc_def Let_def owners_below_Suc split: if_splits)
  have old: "own_buf c' d' i (?b i)" if "i < m" for i
    using own_buf_mono [OF _ _ run, of i] ok that by (simp add: layers_ok_def)
  have new: "own_buf c' d' m (?b m)"
  proof (cases "?s ! m = m")
    case True
    then have "?b m = length d" using ok by (subst owner_layer.simps) (simp add: layers_ok_def)
    then show ?thesis using run True m ok
      by (auto simp: own_buf_def layers_ok_def rowBytes_def alloc_layer_def device_alloc_def Let_def nth_append)
  next
    case False
    then have lt: "?s ! m < m" using src(1) by simp
    then have b: "?b m = ?b (?s ! m)" using owner_layer.simps [of ?s m] by simp
    have "own_buf c' d' (?s ! m) (?b m)" using old [OF lt] unfolding b .
    then show ?thesis using run False m ok src(2) lt
      by (auto simp: own_buf_def layers_ok_def rowBytes_def alloc_layer_def Let_def split: if_splits)
  qed
  show ?thesis unfolding layers_ok_def using len old new by (simp add: fr less_Suc_eq)
qed

lemma layers_ok_fold:
  assumes ok: "layers_ok c d d0 0" and srcs: "\<And>i. i < length (kc_kvDim c) \<Longrightarrow>
      kc_kvSource c ! i \<le> i \<and> kc_kvDim c ! (kc_kvSource c ! i) = kc_kvDim c ! i"
    and m: "m \<le> length (kc_kvDim c)"
  shows "case fold alloc_layer [0..<m] (c, d) of (c', d') \<Rightarrow> layers_ok c' d' d0 m
     \<and> kc_maxSeq c' = kc_maxSeq c \<and> kc_kvDim c' = kc_kvDim c \<and> kc_dtype c' = kc_dtype c
     \<and> kc_kvSource c' = kc_kvSource c \<and> kc_length c' = kc_length c"
  using m
proof (induction m)
  case (Suc m)
  obtain c1 d1 where f: "fold alloc_layer [0..<m] (c, d) = (c1, d1)" by fastforce
  obtain c2 d2 where r: "alloc_layer m (c1, d1) = (c2, d2)" by fastforce
  have IH: "layers_ok c1 d1 d0 m" "kc_maxSeq c1 = kc_maxSeq c" "kc_kvDim c1 = kc_kvDim c" "kc_dtype c1 = kc_dtype c"
    "kc_kvSource c1 = kc_kvSource c" "kc_length c1 = kc_length c"
    using Suc f by auto
  have "layers_ok c2 d2 d0 (Suc m)"
    using layers_ok_step [OF IH(1) _ _ _ r] srcs [of m] Suc.prems IH(3,5) by simp
  then show ?case using f r IH alloc_layer_frame [OF r] by simp
qed (use ok in simp)

lemma fold_alloc_device: "\<exists>e. snd (fold alloc_layer is cd) = snd cd @ e"
proof (induction "is" arbitrary: cd)
  case (Cons i "is")
  obtain c d where cd: "cd = (c, d)" by fastforce
  obtain e where "snd (fold alloc_layer is (alloc_layer i cd)) = snd (alloc_layer i cd) @ e" using Cons.IH by blast
  moreover have "\<exists>e. snd (alloc_layer i cd) = d @ e"
    by (simp add: cd alloc_layer_def device_alloc_def Let_def)
  ultimately show ?case by (auto simp: cd)
qed simp

lemma newKvCache_layout:
  assumes run: "newKvCache maxSeq dims srcs dt d = Inr (c, d')" and ok: "sources_ok dims srcs"
  shows "layers_ok c d' (length d) (length dims)" "kc_maxSeq c = maxSeq" "kc_kvDim c = dims" "kc_dtype c = dt"
    "kc_kvSource c = eff_sources dims srcs" "kc_length c = 0" "\<exists>e. d' = d @ e"
proof -
  let ?n = "length dims"
  let ?c1 = "\<lparr>kc_maxSeq = maxSeq, kc_kvDim = dims, kc_dtype = dt, kc_layerBytes = replicate ?n 0,
      kc_kvSource = eff_sources dims srcs, kc_length = 0, kc_kOwners = replicate ?n None, kc_vOwners = replicate ?n None,
      kc_kBuf = replicate ?n NullPtr, kc_vBuf = replicate ?n NullPtr\<rparr>"
  have f: "fold alloc_layer [0..<?n] (?c1, d) = (c, d')"
    using run by (simp add: newKvCache_def allocateLayers_def eff_sources_def Let_def split: if_splits)
  have "layers_ok ?c1 d (length d) 0" by (simp add: layers_ok_def owners_below_def)
  from layers_ok_fold [OF this, of ?n] f eff_sourcesD [OF ok]
  show "layers_ok c d' (length d) (length dims)" "kc_maxSeq c = maxSeq" "kc_kvDim c = dims" "kc_dtype c = dt"
    "kc_kvSource c = eff_sources dims srcs" "kc_length c = 0" by simp_all
  show "\<exists>e. d' = d @ e" using fold_alloc_device [of "[0..<?n]" "(?c1, d)"] f by simp
qed



section \<open>The slots of a slab pool\<close>

definition buffers :: "KvCache \<Rightarrow> ptr set" where
  "buffers c = set (kc_kBuf c) \<union> set (kc_vBuf c)"

lemma newKvCache_buffers:
  assumes run: "newKvCache maxSeq dims srcs dt d = Inr (c, d')" and ok: "sources_ok dims srcs"
  shows "buffers c \<subseteq> {Ptr b 0 | b. length d \<le> b \<and> b < length d'}"
proof -
  note lay = newKvCache_layout [OF run ok]
  have "kc_kBuf c ! i \<in> {Ptr b 0 | b. length d \<le> b \<and> b < length d'} \<and> kc_vBuf c ! i \<in> {Ptr b 0 | b. length d \<le> b \<and> b < length d'}"
    if "i < length dims" for i
  proof -
    let ?b = "length d + 2 * owners_below (kc_kvSource c) (owner_layer (kc_kvSource c) i)"
    have "own_buf c d' i ?b" using lay(1) that by (simp add: layers_ok_def)
    moreover have "length d \<le> ?b" by simp
    ultimately show ?thesis unfolding own_buf_def by (auto intro: le_SucI Suc_lessD)
  qed
  moreover have "length (kc_kBuf c) = length dims" "length (kc_vBuf c) = length dims"
    using lay(1,3) by (simp_all add: layers_ok_def)
  ultimately show ?thesis unfolding buffers_def by (auto simp: in_set_conv_nth)
qed

lemma build_slots_buffers:
  "build_slots n cap dims srcs dt d = Inr (cs, d') \<Longrightarrow> sources_ok dims srcs \<Longrightarrow>
   length cs = n \<and> length d \<le> length d'
   \<and> (\<forall>c \<in> set cs. buffers c \<subseteq> {Ptr b 0 | b. length d \<le> b \<and> b < length d'} \<and> kc_maxSeq c = cap \<and> kc_length c = 0)
   \<and> (\<forall>i j. i < j \<and> j < n \<longrightarrow> buffers (cs ! i) \<inter> buffers (cs ! j) = {})"
proof (induction n arbitrary: d cs)
  case (Suc n)
  obtain c d1 where c: "newKvCache cap dims srcs dt d = Inr (c, d1)"
    using Suc.prems(1) by (auto split: sum.splits)
  then obtain cs' where cs: "build_slots n cap dims srcs dt d1 = Inr (cs', d')" "cs = c # cs'"
    using Suc.prems(1) by (auto split: sum.splits)
  have IH: "length cs' = n" "length d1 \<le> length d'"
    "\<And>c. c \<in> set cs' \<Longrightarrow> buffers c \<subseteq> {Ptr b 0 | b. length d1 \<le> b \<and> b < length d'} \<and> kc_maxSeq c = cap \<and> kc_length c = 0"
    "\<And>i j. i < j \<Longrightarrow> j < n \<Longrightarrow> buffers (cs' ! i) \<inter> buffers (cs' ! j) = {}"
    using Suc.IH [OF cs(1) Suc.prems(2)] by auto
  note b = newKvCache_buffers [OF c Suc.prems(2)] and lay = newKvCache_layout [OF c Suc.prems(2)]
  have d: "length d \<le> length d1" using lay(7) by auto
  have first: "buffers c \<inter> buffers (cs' ! j) = {}" if "j < n" for j
    using b IH(3) [of "cs' ! j"] IH(1) that by fastforce
  have "buffers (cs ! i) \<inter> buffers (cs ! j) = {}" if "i < j" "j < Suc n" for i j
    using that first [of "j - 1"] IH(4) [of "i - 1" "j - 1"] unfolding cs(2) by (cases i) auto
  moreover have "buffers x \<subseteq> {Ptr b 0 | b. length d \<le> b \<and> b < length d'} \<and> kc_maxSeq x = cap \<and> kc_length x = 0"
    if "x \<in> set cs" for x
    using that b IH(2) IH(3) [of x] d lay(2,6) unfolding cs(2) by fastforce
  ultimately show ?case using IH(1,2) d cs(2) by simp
qed simp

text \<open>
  Slots are isolated. A slab pool for \<^verbatim>\<open>maxBatch\<close> requests has exactly that many empty caches of
  \<^verbatim>\<open>contextCap\<close> rows, and no two slots share a key or value buffer: concurrent requests in different
  slots never write to each other's KV.
\<close>

theorem slab_slots_isolated:
  assumes "newKvCacheSlabPool maxBatch contextCap dims srcs dt d = Inr (p, d')" "sources_ok dims srcs"
  shows "length (sp_slots p) = maxBatch \<and> 0 < maxBatch
    \<and> (\<forall>c \<in> set (sp_slots p). kc_maxSeq c = contextCap \<and> kc_length c = 0)
    \<and> (\<forall>i j. i < j \<and> j < maxBatch \<longrightarrow> buffers (sp_slots p ! i) \<inter> buffers (sp_slots p ! j) = {})"
proof -
  obtain cs where "build_slots maxBatch contextCap dims srcs dt d = Inr (cs, d')" "sp_slots p = cs" "0 < maxBatch"
    using assms(1) by (auto simp: newKvCacheSlabPool_def split: if_splits sum.splits)
  then show ?thesis using build_slots_buffers assms(2) by blast
qed

theorem slab_slots_isolated_witness:
  "\<exists>p d'. newKvCacheSlabPool 2 16 [8, 8] [] F32 [] = Inr (p, d') \<and> length (sp_slots p) = 2
     \<and> buffers (sp_slots p ! 0) \<inter> buffers (sp_slots p ! 1) = {}"
proof -
  have "isl (newKvCacheSlabPool 2 16 [8, 8] [] F32 []) = False" by code_simp
  then obtain p d' where r: "newKvCacheSlabPool 2 16 [8, 8] [] F32 [] = Inr (p, d')"
    by (metis isl_def old.sum.exhaust surj_pair)
  from slab_slots_isolated [OF r] have "length (sp_slots p) = 2" "buffers (sp_slots p ! 0) \<inter> buffers (sp_slots p ! 1) = {}"
    by (simp_all add: sources_ok_def)
  then show ?thesis using r by blast
qed

section \<open>Rows of the paged pool\<close>

lemma alloc_pool_iter:
  assumes "(alloc_pool_layer bytes ^^ n) (p, d) = (p', d')"
  shows "d' = d @ replicate (2 * n) bytes
    \<and> p' = p\<lparr>pp_kPool := pp_kPool p @ map (\<lambda>l. Ptr (length d + 2 * l) 0) [0..<n],
             pp_vPool := pp_vPool p @ map (\<lambda>l. Ptr (Suc (length d + 2 * l)) 0) [0..<n]\<rparr>"
  using assms
proof (induction n arbitrary: p' d')
  case (Suc n)
  obtain p1 d1 where r: "(alloc_pool_layer bytes ^^ n) (p, d) = (p1, d1)" by fastforce
  have step: "alloc_pool_layer bytes (p1, d1) = (p', d')" using r Suc.prems by simp
  have "replicate (2 * Suc n) bytes = replicate (2 * n) bytes @ [bytes, bytes]"
    by (simp add: replicate_app_Cons_same)
  then show ?case using Suc.IH [OF r] step by (auto simp: alloc_pool_layer_def device_alloc_def)
qed simp

definition row_range :: "PagedKvPool \<Rightarrow> ptr \<Rightarrow> u32 \<Rightarrow> nat \<Rightarrow> ptr \<times> nat" where
  "row_range p base blockId slot =
     (ptr_add base ((unat blockId * pp_blockSize p + slot) * slotElems p * elemBytes p), slotElems p * elemBytes p)"

lemma newPagedKvPool_layout:
  assumes "newPagedKvPool nl nb bs heads dim dt d = Inr (p, d')"
  shows "pp_numBlocks p = nb" "pp_blockSize p = bs" "0 < bs" "pp_dtype p = dt" "dt \<noteq> Q8_0"
    "slotElems p = heads * dim" "0 < slotElems p * elemBytes p"
    "l < nl \<Longrightarrow> pp_kPool p ! l = Ptr (length d + 2 * l) 0" "l < nl \<Longrightarrow> pp_vPool p ! l = Ptr (Suc (length d + 2 * l)) 0"
    "d' = d @ replicate (2 * nl) (nb * bs * (slotElems p * elemBytes p))"
proof -
  let ?p = "\<lparr>pp_numLayers = nl, pp_numBlocks = nb, pp_blockSize = bs, pp_numKvHeads = heads, pp_headDim = dim,
      pp_dtype = dt, pp_kPool = [], pp_vPool = []\<rparr>"
  have g: "\<not> (nl = 0 \<or> nb = 0 \<or> bs = 0 \<or> heads = 0 \<or> dim = 0)" "dt = F32 \<or> dt = FP16 \<or> dt = FP8_E4M3"
    and r: "(alloc_pool_layer (nb * blockElems ?p * elemBytes ?p) ^^ nl) (?p, d) = (p, d')"
    using assms by (auto simp: newPagedKvPool_def Let_def split: if_splits)
  note it = alloc_pool_iter [OF r]
  show "pp_numBlocks p = nb" "pp_blockSize p = bs" "pp_dtype p = dt" "slotElems p = heads * dim"
    using it by (simp_all add: slotElems_def)
  show "0 < bs" "dt \<noteq> Q8_0" using g by auto
  show "0 < slotElems p * elemBytes p" using it g by (auto simp: slotElems_def elemBytes_def)
  show "l < nl \<Longrightarrow> pp_kPool p ! l = Ptr (length d + 2 * l) 0" "l < nl \<Longrightarrow> pp_vPool p ! l = Ptr (Suc (length d + 2 * l)) 0"
    using it by simp_all
  show "d' = d @ replicate (2 * nl) (nb * bs * (slotElems p * elemBytes p))"
    using it by (simp add: blockElems_def slotElems_def elemBytes_def mult.assoc)
qed

text \<open>Every storage type writes the same two rows: at the same row offset, scaled by its element size.\<close>

lemma writeToken_writes:
  assumes "pp_dtype p \<noteq> Q8_0"
  shows "concat (map op_writes (writeToken p l b s k v)) = [row_range p (pp_kPool p ! l) b s, row_range p (pp_vPool p ! l) b s]"
  using assms by (cases "pp_dtype p") (simp_all add: writeToken_def row_range_def elemBytes_def Let_def mult.assoc)

lemma row_disjoint:
  assumes "unat b \<noteq> unat b' \<or> s \<noteq> s'" "s < bs" "s' < bs"
  shows "(unat b * bs + s) * w + w \<le> (unat b' * bs + s') * w \<or> (unat b' * bs + s') * w + w \<le> (unat b * bs + s) * w"
proof -
  have "unat b * bs + s \<noteq> unat b' * bs + s'"
    using assms by (metis add.commute div_less div_mult_self1 less_zeroE mod_less mod_mult_self1 neq0_conv add_cancel_right_right)
  then have "Suc (unat b * bs + s) \<le> unat b' * bs + s' \<or> Suc (unat b' * bs + s') \<le> unat b * bs + s" by linarith
  then show ?thesis by (metis add.commute mult_Suc mult_le_mono1)
qed



text \<open>
  The batched write is the loop of single writes. The graph-capturable \<^verbatim>\<open>writeTokensBatched\<close> writes
  exactly the byte ranges that \<^verbatim>\<open>writeToken\<close> writes, sequence by sequence in order, for the sequences
  the active mask selects (all of them without a mask).
\<close>

theorem writeTokensBatched_equiv:
  assumes "newPagedKvPool nl nb bs heads dim dt d = Inr (p, d')"
  shows "concat (map op_writes (writeTokensBatched p l kProj vProj blocks slots nSeq am))
    = concat (map (\<lambda>i. concat (map op_writes (writeToken p l (blocks ! i) (unat (slots ! i)) kRow vRow)))
        (filter (\<lambda>i. case am of None \<Rightarrow> True | Some m \<Rightarrow> m ! i \<noteq> 0) [0..<nSeq]))"
proof -
  note lay = newPagedKvPool_layout [OF assms]
  have "pp_dtype p \<noteq> Q8_0" using lay by simp
  then show ?thesis
    by (simp add: writeTokensBatched_def writeToken_writes row_range_def elemBytes_def Let_def mult.assoc)
qed

theorem writeTokensBatched_equiv_witness:
  "\<exists>p d'. newPagedKvPool 1 4 2 2 3 FP16 [] = Inr (p, d') \<and>
     concat (map op_writes (writeTokensBatched p 0 () () [3, 1] [0, 1] 2 (Some [0, 1])))
       = concat (map op_writes (writeToken p 0 1 1 () ()))"
proof -
  have "isl (newPagedKvPool 1 4 2 2 3 FP16 []) = False" by code_simp
  then obtain p d' where r: "newPagedKvPool 1 4 2 2 3 FP16 [] = Inr (p, d')"
    by (metis isl_def old.sum.exhaust surj_pair)
  have "filter (\<lambda>i. [0, 1 :: u8] ! i \<noteq> 0) [0..<2] = [1]" by (simp add: upt_conv_Cons numeral_2_eq_2)
  with writeTokensBatched_equiv [OF r, of 0 "()" "()" "[3, 1]" "[0, 1]" 2 "Some [0, 1]" "()" "()"] show ?thesis
    using r by auto
qed

end
