(* ===== verification/ServingPolicy.thy ===== *)
theory ServingPolicy
  imports Complex_Main SchedulerProperties
begin

text \<open>
  The two decisions around the serving loop: when to preempt, \<^verbatim>\<open>PreemptionPolicy\<close>
  (\<^verbatim>\<open>src/runtime/serving/PreemptionPolicy.{hpp,cpp}\<close>), and how many sequences a machine can serve,
  \<^verbatim>\<open>BatchCapacityProbe\<close> (\<^verbatim>\<open>src/runtime/serving/BatchCapacityProbe.{hpp,cpp}\<close>).

  The threshold and the free ratio are doubles in the code and exact reals here; a NaN threshold is
  \<open>None\<close>. The probe computes on \<^verbatim>\<open>std::size_t\<close>, modelled as 64-bit words, so products wrap as in the
  code. The log text \<^verbatim>\<open>reasoning\<close> is left out.
\<close>

section \<open>Preemption policy\<close>

record PreemptionPolicy =
  pl_threshold :: real

definition kDefaultFreeBlockThreshold :: real where
  "kDefaultFreeBlockThreshold = 5 / 100"

definition newPreemptionPolicy :: "real option \<Rightarrow> PreemptionPolicy result" where
  "newPreemptionPolicy freeBlockThreshold =
     (case freeBlockThreshold of
        Some t \<Rightarrow> if \<not> (t \<ge> 0 \<and> t \<le> 1)
                  then Inl (InvalidArgument ''PreemptionPolicy: freeBlockThreshold must be in [0.0, 1.0]'')
                  else Inr \<lparr>pl_threshold = t\<rparr>
      | None \<Rightarrow> Inl (InvalidArgument ''PreemptionPolicy: freeBlockThreshold must be in [0.0, 1.0]''))"

definition shouldPreempt :: "PreemptionPolicy \<Rightarrow> nat \<Rightarrow> nat \<Rightarrow> nat \<Rightarrow> bool" where
  "shouldPreempt p freeBlocks totalBlocks active =
     (if totalBlocks = 0 then False
      else if active \<le> 1 then False
      else real freeBlocks / real totalBlocks < pl_threshold p)"

section \<open>Capacity probe\<close>

record BatchCapacityEstimate =
  be_bandwidthGBps :: u64
  be_freeVramGB :: u64
  be_weightBytes :: u64
  be_kvBytesPerToken :: u64
  be_maxContext :: u64
  be_sustainableBatch :: u64
  be_servingClassRecommended :: bool

definition kDefaultMinServingBatch :: u64 where "kDefaultMinServingBatch = 8"
definition kMaxServingBatch :: u64 where "kMaxServingBatch = 128"
definition kMemoryReservePct :: u64 where "kMemoryReservePct = 50"

definition roundToSchedulerStep :: "u64 \<Rightarrow> u64" where
  "roundToSchedulerStep raw =
     (if raw \<ge> 128 then 128 else if raw \<ge> 64 then 64 else if raw \<ge> 32 then 32 else if raw \<ge> 16 then 16
      else if raw \<ge> 8 then 8 else if raw \<ge> 4 then 4 else if raw \<ge> 2 then 2 else 1)"

definition estimateConservativeFallback :: BatchCapacityEstimate where
  "estimateConservativeFallback =
     \<lparr>be_bandwidthGBps = 0, be_freeVramGB = 0, be_weightBytes = 0, be_kvBytesPerToken = 0, be_maxContext = 0,
      be_sustainableBatch = 1, be_servingClassRecommended = False\<rparr>"

definition vram_raw_batch :: "u64 \<Rightarrow> u64 \<Rightarrow> u64 \<Rightarrow> u64" where
  "vram_raw_batch kvBytesPerToken maxContext freeMemoryBytes =
     (let kvPerSeq = kvBytesPerToken * maxContext;
          budget = freeMemoryBytes * kMemoryReservePct div 100;
          raw1 = (if kvPerSeq > 0 then budget div kvPerSeq else 1);
          raw2 = (if raw1 < 1 then 1 else raw1)
      in if raw2 > kMaxServingBatch then kMaxServingBatch else raw2)"

definition estimate :: "u64 \<Rightarrow> u64 \<Rightarrow> u64 \<Rightarrow> u64 \<Rightarrow> u64 \<Rightarrow> BatchCapacityEstimate" where
  "estimate bandwidthGBps weightBytes kvBytesPerToken maxContext freeMemoryBytes =
     (let est = \<lparr>be_bandwidthGBps = bandwidthGBps, be_freeVramGB = drop_bit 30 freeMemoryBytes,
                 be_weightBytes = weightBytes, be_kvBytesPerToken = kvBytesPerToken,
                 be_maxContext = maxContext, be_sustainableBatch = 1, be_servingClassRecommended = False\<rparr>
      in if bandwidthGBps = 0 \<or> weightBytes = 0 \<or> kvBytesPerToken = 0 \<or> maxContext = 0 then est
         else if bandwidthGBps < 80 then est
         else let rawBatch = (if freeMemoryBytes > 0 then vram_raw_batch kvBytesPerToken maxContext freeMemoryBytes
                              else if bandwidthGBps < 200 then 4 else if bandwidthGBps < 400 then 16 else 32);
                  batch = roundToSchedulerStep rawBatch
              in est\<lparr>be_sustainableBatch := batch,
                     be_servingClassRecommended := (batch \<ge> kDefaultMinServingBatch)\<rparr>)"

section \<open>Properties\<close>

lemma length_filter_update_ge: "length (filter P xs) \<le> Suc (length (filter P (xs[i := y])))"
  using length_filter_update [of i xs P y] by (cases "i < length xs") (auto simp: list_update_beyond split: if_splits)

lemma active_states: "length (filter is_active xs) = length (filter (\<lambda>st. st = Prefilling \<or> st = Decoding) (map rq_state xs))"
  by (induction xs) (simp_all add: is_active_def)

lemma numActive_preempt:
  assumes "sched_reachable s" "1 < numActive s"
  shows "0 < numActive (snd (preemptOne s))"
proof -
  note inv = reachable_table_inv [OF assms(1)]
  have inv': "table_inv (snd (preemptOne s))" by (rule table_inv_preemptOne [OF inv])
  have kv: "sched_kv s" using reachable_sched_inv [OF assms(1)] by (simp add: sched_inv_def)
  show ?thesis
  proof (cases "victim_loop (rs_requests s) 0 (rs_requests s) None")
    case None
    then show ?thesis using assms(2) by (simp add: preemptOne_def)
  next
    case (Some i)
    have "i < length (rs_requests s)" using victim_of [of "rs_requests s"] Some by (simp add: victim_spec_def)
    note st = preemptOne_requests(2) [OF Some kv this]
    have "numActive s \<le> Suc (numActive (snd (preemptOne s)))"
      unfolding numActive_eq [OF inv] numActive_eq [OF inv'] active_states st by (rule length_filter_update_ge)
    then show ?thesis using assms(2) by simp
  qed
qed

lemma preempt_frees:
  assumes "sched_reachable s" "rs_allocator s = Some a" "0 < numActive s"
  shows "\<exists>a'. rs_allocator (snd (preemptOne s)) = Some a' \<and> numBlocksTotal a' = numBlocksTotal a \<and> numBlocksFree a \<le> numBlocksFree a'"
proof -
  have kv: "sched_kv s" and kv': "sched_kv (snd (preemptOne s))"
    using reachable_sched_inv assms(1) reach_step [OF assms(1) step_preempt] by (simp_all add: sched_inv_def)
  show ?thesis
  proof (cases "victim_loop (rs_requests s) 0 (rs_requests s) None")
    case None
    then show ?thesis using assms(2) by (simp add: preemptOne_def)
  next
    case (Some i)
    have i: "i < length (rs_requests s)" using victim_of [of "rs_requests s"] Some by (simp add: victim_spec_def)
    note kva = sched_kvD [OF kv assms(2) i]
    have a': "rs_allocator (snd (preemptOne s)) = Some (fold release (seq_blockTable (sequences s ! i)) a)"
      using Some kva assms(2)
      by (simp add: preemptOne_def Let_def split_beta resetSequence_def releaseAllBlocks_def kv_inv_def)
    have own: "seq_owns a (sequences s ! i)" using kv_inv_owns [OF kva(1)] kva(2) by simp
    have rc: "unat (refcountOf a w) = 1" if "w \<in> set (seq_blockTable (sequences s ! i))" for w
    proof -
      have "refcountOf a w \<noteq> 0" using own that by (simp add: seq_owns_def)
      then show ?thesis using kv_inv_rc [OF kva(1), of w] kv_inv_le_one [OF kva(1), of w]
        by (metis le_antisym less_one not_less unsigned_eq_0_iff)
    qed
    have "distinct (seq_blockTable (sequences s ! i))" using own by (simp add: seq_owns_def)
    from kv.rel_list_free_sole [OF kv_inv_pool [OF kva(1)] this] rc
    have "numBlocksFree (fold release (seq_blockTable (sequences s ! i)) a) = numBlocksFree a + length (seq_blockTable (sequences s ! i))"
      by simp
    moreover have "length (pa_blocks (fold release ws b)) = length (pa_blocks b)" for ws b
      by (induction ws arbitrary: b) (simp_all add: release_def Let_def)
    ultimately show ?thesis using a' by (simp add: numBlocksTotal_def)
  qed
qed

text \<open>
  The policy never livelocks the loop. When \<^verbatim>\<open>shouldPreempt\<close> says yes for a reachable scheduler, on
  its own pool counters, a preemption leaves at least one request active, keeps the size of the pool
  and never lowers the number of free blocks. A sole active request is never preempted, and with
  threshold zero nothing is.
\<close>

theorem preemption_policy_safe:
  assumes "sched_reachable s" "rs_allocator s = Some a" "newPreemptionPolicy t = Inr p"
  shows "(numActive s \<le> 1 \<longrightarrow> \<not> shouldPreempt p (numBlocksFree a) (numBlocksTotal a) (numActive s))
    \<and> (pl_threshold p = 0 \<longrightarrow> \<not> shouldPreempt p (numBlocksFree a) (numBlocksTotal a) (numActive s))
    \<and> (shouldPreempt p (numBlocksFree a) (numBlocksTotal a) (numActive s) \<longrightarrow>
        0 < numActive (snd (preemptOne s)) \<and> numBlocksFree a < numBlocksTotal a
      \<and> (\<exists>a'. rs_allocator (snd (preemptOne s)) = Some a' \<and> numBlocksTotal a' = numBlocksTotal a
            \<and> numBlocksFree a \<le> numBlocksFree a'))"
proof (intro conjI impI)
  have t: "0 \<le> pl_threshold p" "pl_threshold p \<le> 1"
    using assms(3) by (auto simp: newPreemptionPolicy_def split: option.splits if_splits)
  show "\<not> shouldPreempt p (numBlocksFree a) (numBlocksTotal a) (numActive s)" if "numActive s \<le> 1"
    using that by (simp add: shouldPreempt_def)
  show "\<not> shouldPreempt p (numBlocksFree a) (numBlocksTotal a) (numActive s)" if "pl_threshold p = 0"
    using that by (simp add: shouldPreempt_def not_less)
  assume yes: "shouldPreempt p (numBlocksFree a) (numBlocksTotal a) (numActive s)"
  then have act: "1 < numActive s" and tot: "0 < numBlocksTotal a"
    by (auto simp: shouldPreempt_def split: if_splits)
  show "0 < numActive (snd (preemptOne s))" by (rule numActive_preempt [OF assms(1) act])
  have "real (numBlocksFree a) / real (numBlocksTotal a) < pl_threshold p"
    using yes by (simp add: shouldPreempt_def split: if_splits)
  then have "real (numBlocksFree a) / real (numBlocksTotal a) < 1" using t(2) by linarith
  then show "numBlocksFree a < numBlocksTotal a" using tot by (simp add: divide_less_eq_1)
  show "\<exists>a'. rs_allocator (snd (preemptOne s)) = Some a' \<and> numBlocksTotal a' = numBlocksTotal a \<and> numBlocksFree a \<le> numBlocksFree a'"
    using preempt_frees [OF assms(1,2)] act by simp
qed

theorem preemption_policy_safe_witness:
  "shouldPreempt \<lparr>pl_threshold = 1 / 2\<rparr> (numBlocksFree (the (rs_allocator (snd (tick demo_fed))))) 4 2
   \<and> 0 < numActive (snd (preemptOne (snd (tick demo_fed))))"
proof -
  let ?s = "snd (tick demo_fed)"
  have c: "numActive ?s = 2" "numBlocksFree (the (rs_allocator ?s)) = 1" "numBlocksTotal (the (rs_allocator ?s)) = 4"
    "rs_allocator ?s = None \<longleftrightarrow> False" by code_simp+
  then obtain a where a: "rs_allocator ?s = Some a" by auto
  have yes: "shouldPreempt \<lparr>pl_threshold = 1 / 2\<rparr> (numBlocksFree a) (numBlocksTotal a) (numActive ?s)"
    using c a by (simp add: shouldPreempt_def)
  have "newPreemptionPolicy (Some (1 / 2)) = Inr \<lparr>pl_threshold = 1 / 2\<rparr>" by (simp add: newPreemptionPolicy_def)
  from preemption_policy_safe [OF reach_step [OF demo_fed_reachable step_tick] a this] yes
  show ?thesis using c a by simp
qed

lemma roundToSchedulerStep_le:
  "unat (roundToSchedulerStep raw) \<le> max 1 (unat raw)"
  "unat (roundToSchedulerStep raw) \<in> {1, 2, 4, 8, 16, 32, 64, 128}"
  by (auto simp: roundToSchedulerStep_def word_le_nat_alt)

lemma vram_raw_batch_fits:
  assumes "unat kv * unat ctx < 2 ^ 64" "unat free * 50 < 2 ^ 64" "kv \<noteq> 0" "ctx \<noteq> 0"
  shows "unat (vram_raw_batch kv ctx free) \<le> 1 \<or> unat (vram_raw_batch kv ctx free) * (unat kv * unat ctx) \<le> unat free div 2"
proof -
  let ?kv = "unat kv * unat ctx" and ?b = "unat free * 50 div 100"
  have kv: "unat (kv * ctx) = ?kv" using assms(1) by (simp add: unat_word_ariths)
  have b: "unat (free * kMemoryReservePct div 100) = ?b"
    using assms(2) by (simp add: unat_div unat_word_ariths kMemoryReservePct_def)
  have "0 < ?kv" using assms(3,4) by (simp add: unat_gt_0)
  then have pos: "kv * ctx > 0" using kv by (metis unat_gt_0 word_neq_0_conv)
  have half: "?b = unat free div 2" by simp
  have q: "unat (free * kMemoryReservePct div 100 div (kv * ctx)) = ?b div ?kv"
    by (simp only: unat_div [of "free * kMemoryReservePct div 100" "kv * ctx"] b kv)
  have le: "n * ?kv \<le> unat free div 2" if "n \<le> ?b div ?kv" for n
    using that half div_times_less_eq_dividend [of ?b ?kv] by (metis mult_le_mono1 order_trans)
  show ?thesis
    using pos q le by (auto simp: vram_raw_batch_def Let_def kMaxServingBatch_def word_less_nat_alt)
qed

text \<open>
  The probed batch fits. The sustainable batch is one of the scheduler steps 1 to 128; below the
  bandwidth floor, or when an input is unknown, it is one; with a memory signal, and as long as the
  two products do not overflow 64 bits, the KV pools of a batch larger than one together need at
  most half of the free memory; and serving is recommended exactly from a batch of eight.
\<close>

theorem capacity_estimate_fits:
  assumes "unat kv * unat ctx < 2 ^ 64" "unat free * 50 < 2 ^ 64"
  shows "let est = estimate bw weight kv ctx free; b = unat (be_sustainableBatch est) in
    b \<in> {1, 2, 4, 8, 16, 32, 64, 128}
    \<and> (bw < 80 \<or> weight = 0 \<or> kv = 0 \<or> ctx = 0 \<longrightarrow> b = 1)
    \<and> (0 < free \<and> 1 < b \<longrightarrow> b * (unat kv * unat ctx) \<le> unat free div 2)
    \<and> (be_servingClassRecommended est \<longleftrightarrow> 8 \<le> b)"
proof (cases "bw = 0 \<or> weight = 0 \<or> kv = 0 \<or> ctx = 0 \<or> bw < 80")
  case True
  then show ?thesis by (auto simp: estimate_def Let_def)
next
  case False
  define raw where "raw = (if free > 0 then vram_raw_batch kv ctx free else if bw < 200 then 4 else if bw < 400 then 16 else 32)"
  have e: "estimate bw weight kv ctx free = \<lparr>be_bandwidthGBps = bw, be_freeVramGB = drop_bit 30 free, be_weightBytes = weight,
      be_kvBytesPerToken = kv, be_maxContext = ctx, be_sustainableBatch = roundToSchedulerStep raw,
      be_servingClassRecommended = (roundToSchedulerStep raw \<ge> kDefaultMinServingBatch)\<rparr>"
    using False by (auto simp: estimate_def Let_def raw_def)
  have "unat (roundToSchedulerStep raw) * (unat kv * unat ctx) \<le> unat free div 2"
    if "0 < free" "1 < unat (roundToSchedulerStep raw)"
  proof -
    have r: "raw = vram_raw_batch kv ctx free" using that(1) by (simp add: raw_def)
    have le: "unat (roundToSchedulerStep raw) \<le> unat raw" using roundToSchedulerStep_le(1) [of raw] that(2) by linarith
    have "unat raw * (unat kv * unat ctx) \<le> unat free div 2"
      using vram_raw_batch_fits [OF assms] False le that(2) unfolding r by auto
    then show ?thesis using le by (meson mult_le_mono1 order_trans)
  qed
  then show ?thesis
    using roundToSchedulerStep_le(2) [of raw] False
    by (simp add: e Let_def kDefaultMinServingBatch_def word_le_nat_alt)
qed

theorem capacity_estimate_fits_witness:
  "be_sustainableBatch (estimate 256 1000 (2 ^ 16) (2 ^ 12) (2 ^ 33)) = 16
   \<and> unat (be_sustainableBatch (estimate 256 1000 (2 ^ 16) (2 ^ 12) (2 ^ 33))) * (2 ^ 16 * 2 ^ 12) \<le> 2 ^ 32"
proof
  show b: "be_sustainableBatch (estimate 256 1000 (2 ^ 16) (2 ^ 12) (2 ^ 33)) = 16" by code_simp
  show "unat (be_sustainableBatch (estimate 256 1000 (2 ^ 16) (2 ^ 12) (2 ^ 33))) * (2 ^ 16 * 2 ^ 12) \<le> 2 ^ 32"
    using capacity_estimate_fits [of "2 ^ 16" "2 ^ 12" "2 ^ 33" 256 1000] unfolding b Let_def by simp
qed

end
