(* ===== verification/GreedySampling.thy ===== *)
theory GreedySampling
  imports Complex_Main "HOL-Library.Option_ord" Prelude
begin

text \<open>
  The deterministic part of the sampler, \<^verbatim>\<open>Sampler::sample\<close> with temperature zero or top-k one
  (\<^verbatim>\<open>src/compute/Sampling.cpp\<close>): final-logit softcap, repetition, frequency and presence penalties,
  logit bias, bad-word masking and the argmax.

  Logits are exact reals (the code rounds to \<^verbatim>\<open>float\<close>). A masked logit, minus infinity, is \<open>None\<close> in the
  order of \<open>option\<close>, where \<open>None\<close> is below every \<open>Some\<close>. Token ids are integers; the fields of
  \<^verbatim>\<open>SamplingParams\<close> that only the random path reads are left out.
\<close>

record SamplingParams =
  sp_temperature :: real
  sp_topK :: nat
  sp_logitBias :: "(int \<times> real) list"
  sp_badWords :: "int list list"
  sp_frequencyPenalty :: real
  sp_presencePenalty :: real
  sp_repetitionPenalty :: real
  sp_penaltyWindow :: nat
  sp_finalLogitSoftcap :: real

fun argmax_from :: "nat \<Rightarrow> 'a :: linorder list \<Rightarrow> nat \<Rightarrow> 'a \<Rightarrow> nat" where
  "argmax_from i [] best bestV = best"
| "argmax_from i (v # vs) best bestV =
     (if v > bestV then argmax_from (Suc i) vs i v else argmax_from (Suc i) vs best bestV)"

definition argmaxRow :: "'a :: linorder list \<Rightarrow> int result" where
  "argmaxRow logits =
     (case logits of
        [] \<Rightarrow> Inl (RuntimeError ''Sampler: empty logits row'')
      | v # vs \<Rightarrow> Inr (int (argmax_from 1 vs 0 v)))"

definition penaltiesActive :: "SamplingParams \<Rightarrow> bool" where
  "penaltiesActive p \<longleftrightarrow> sp_penaltyWindow p > 0 \<and>
     (sp_repetitionPenalty p \<noteq> 1 \<or> sp_frequencyPenalty p \<noteq> 0 \<or> sp_presencePenalty p \<noteq> 0)"

definition softcap :: "real \<Rightarrow> real list \<Rightarrow> real list" where
  "softcap cap logits = (let invCap = 1 / cap in map (\<lambda>l. cap * tanh (l * invCap)) logits)"

text \<open>The hyperbolic tangent does not compute; evaluation treats a softcap as opaque.\<close>

declare softcap_def [code del]

definition penalty_count :: "int list \<Rightarrow> nat \<Rightarrow> nat" where
  "penalty_count window i = length (filter (\<lambda>t. \<not> t < 0 \<and> nat t = i) window)"

definition penalised :: "SamplingParams \<Rightarrow> nat \<Rightarrow> real \<Rightarrow> real" where
  "penalised p c l =
     (if c = 0 then l
      else let l1 = (if sp_repetitionPenalty p \<noteq> 1
                     then (if l > 0 then l / sp_repetitionPenalty p else l * sp_repetitionPenalty p) else l);
               l2 = (if sp_frequencyPenalty p \<noteq> 0 then l1 - sp_frequencyPenalty p * of_nat c else l1)
           in if sp_presencePenalty p \<noteq> 0 then l2 - sp_presencePenalty p else l2)"

definition applyPenalties :: "SamplingParams \<Rightarrow> int list \<Rightarrow> real list \<Rightarrow> real list" where
  "applyPenalties p recentTokens logits =
     (if recentTokens = [] then logits
      else let n = length recentTokens;
               window = drop (n - min (sp_penaltyWindow p) n) recentTokens
           in map (\<lambda>(i, l). penalised p (penalty_count window i) l) (enumerate 0 logits))"

definition applyBias :: "(int \<times> real) list \<Rightarrow> real list \<Rightarrow> real list" where
  "applyBias bias logits =
     fold (\<lambda>(i, b) ls. if 0 \<le> i \<and> i < int (length ls) then ls[nat i := ls ! nat i + b] else ls) bias logits"

text \<open>Whether the tail of \<^verbatim>\<open>recentTokens\<close> matches all but the last token of a bad word.\<close>

definition bad_word_match :: "int list \<Rightarrow> int list \<Rightarrow> bool" where
  "bad_word_match recentTokens seq =
     (let pfx = length seq - 1; rn = length recentTokens
      in pfx \<le> rn \<and> take pfx (drop (rn - pfx) recentTokens) = butlast seq)"

definition applyBadWords :: "int list list \<Rightarrow> int list \<Rightarrow> real option list \<Rightarrow> real option list" where
  "applyBadWords badWords recentTokens logits =
     fold (\<lambda>seq ls. if seq = [] then ls
                    else if bad_word_match recentTokens seq \<and> 0 \<le> last seq \<and> last seq < int (length ls)
                         then ls[nat (last seq) := None] else ls) badWords logits"

definition effective_logits :: "SamplingParams \<Rightarrow> int list \<Rightarrow> real list \<Rightarrow> real option list" where
  "effective_logits p recentTokens logits =
     (let l1 = (if sp_finalLogitSoftcap p > 0 then softcap (sp_finalLogitSoftcap p) logits else logits);
          l2 = (if penaltiesActive p \<and> recentTokens \<noteq> [] then applyPenalties p recentTokens l1 else l1);
          l3 = (if sp_logitBias p \<noteq> [] then applyBias (sp_logitBias p) l2 else l2)
      in if sp_badWords p \<noteq> [] then applyBadWords (sp_badWords p) recentTokens (map Some l3) else map Some l3)"

definition is_greedy :: "SamplingParams \<Rightarrow> bool" where
  "is_greedy p \<longleftrightarrow> sp_temperature p \<le> 0 \<or> sp_topK p = 1"

text \<open>\<^verbatim>\<open>sample\<close> for greedy parameters; the fast path skips the softcap.\<close>

definition sample_greedy :: "real list \<Rightarrow> int list \<Rightarrow> SamplingParams \<Rightarrow> int result" where
  "sample_greedy logits recentTokens p =
     (if logits = [] then Inl (RuntimeError ''Sampler::sample: empty logits'')
      else if \<not> (penaltiesActive p \<and> recentTokens \<noteq> []) \<and> sp_logitBias p = [] \<and> sp_badWords p = []
           then argmaxRow logits
           else argmaxRow (effective_logits p recentTokens logits))"

section \<open>The argmax\<close>

definition first_max :: "'a :: linorder list \<Rightarrow> nat \<Rightarrow> bool" where
  "first_max l i \<longleftrightarrow> i < length l \<and> (\<forall>j < length l. l ! j \<le> l ! i) \<and> (\<forall>j < i. l ! j < l ! i)"

lemma first_max_unique: "first_max l i \<Longrightarrow> first_max l j \<Longrightarrow> i = j"
  by (metis first_max_def leD nat_neq_iff)

lemma argmax_from_first:
  "first_max pre best \<Longrightarrow> first_max (pre @ vs) (argmax_from (length pre) vs best (pre ! best))"
proof (induction vs arbitrary: pre best)
  case (Cons v vs)
  have b: "best < length pre" "\<And>j. j < length pre \<Longrightarrow> pre ! j \<le> pre ! best" "\<And>j. j < best \<Longrightarrow> pre ! j < pre ! best"
    using Cons.prems by (auto simp: first_max_def)
  show ?case
  proof (cases "v > pre ! best")
    case True
    have "first_max (pre @ [v]) (length pre)"
      using True b(2) by (fastforce simp: first_max_def nth_append less_Suc_eq)
    from Cons.IH [OF this] True show ?thesis by (simp add: nth_append)
  next
    case False
    have "first_max (pre @ [v]) best"
      using False b by (auto simp: first_max_def nth_append less_Suc_eq)
    from Cons.IH [OF this] False b(1) show ?thesis by (simp add: nth_append)
  qed
qed simp

lemma argmaxRow_iff: "argmaxRow l = Inr i \<longleftrightarrow> 0 \<le> i \<and> first_max l (nat i)"
proof (cases l)
  case (Cons v vs)
  have "first_max [v] 0" by (simp add: first_max_def)
  from argmax_from_first [OF this, of vs] have fm: "first_max l (argmax_from 1 vs 0 v)" by (simp add: Cons)
  have "argmaxRow l = Inr (int (argmax_from 1 vs 0 v))" by (simp add: argmaxRow_def Cons)
  then show ?thesis using fm first_max_unique [OF fm] by (metis Inr_inject int_nat_eq nat_int of_nat_0_le_iff)
qed (simp add: argmaxRow_def first_max_def)

lemma argmaxRow_exists: "l \<noteq> [] \<Longrightarrow> \<exists>i. argmaxRow l = Inr i"
  by (cases l) (simp_all add: argmaxRow_def)

lemma argmaxRow_empty: "argmaxRow l = Inl e \<longleftrightarrow> l = [] \<and> e = RuntimeError ''Sampler: empty logits row''"
  by (cases l) (auto simp: argmaxRow_def)

text \<open>A strictly monotone map of the row does not change the argmax.\<close>

lemma argmaxRow_strict_mono:
  assumes "strict_mono f"
  shows "argmaxRow (map f l) = argmaxRow l"
proof (cases "l = []")
  case False
  then obtain i where i: "argmaxRow l = Inr i" using argmaxRow_exists by blast
  have "first_max (map f l) (nat i)"
    using i assms unfolding argmaxRow_iff first_max_def
    by (auto simp: strict_mono_less strict_mono_less_eq)
  then show ?thesis using i argmaxRow_iff by (metis (no_types, lifting))
qed (simp add: argmaxRow_def)

lemma strict_mono_softcap: "0 < cap \<Longrightarrow> strict_mono (\<lambda>l :: real. cap * tanh (l * (1 / cap)))"
  by (auto intro!: strict_monoI mult_strict_left_mono simp: divide_strict_right_mono)

lemma argmaxRow_softcap: "0 < cap \<Longrightarrow> argmaxRow (softcap cap l) = argmaxRow l"
  unfolding softcap_def Let_def by (rule argmaxRow_strict_mono [OF strict_mono_softcap])

lemma argmaxRow_Some: "argmaxRow (map Some l) = argmaxRow l"
  by (rule argmaxRow_strict_mono) (simp add: strict_mono_def)

section \<open>Bad words\<close>

definition completes_bad_word :: "int list list \<Rightarrow> int list \<Rightarrow> int \<Rightarrow> bool" where
  "completes_bad_word badWords recentTokens t \<longleftrightarrow>
     (\<exists>seq \<in> set badWords. seq \<noteq> [] \<and> last seq = t \<and> (\<exists>ys. recentTokens = ys @ butlast seq))"

lemma bad_word_match_iff: "seq \<noteq> [] \<Longrightarrow> bad_word_match r seq \<longleftrightarrow> (\<exists>ys. r = ys @ butlast seq)"
proof
  let ?n = "length seq - 1"
  assume "seq \<noteq> []" "bad_word_match r seq"
  then have "?n \<le> length r" "drop (length r - ?n) r = butlast seq" by (auto simp: bad_word_match_def Let_def)
  then show "\<exists>ys. r = ys @ butlast seq" by (metis append_take_drop_id)
qed (auto simp: bad_word_match_def Let_def)

lemma length_applyBadWords: "length (applyBadWords bw r ls) = length ls"
  unfolding applyBadWords_def by (induction bw arbitrary: ls) auto

lemma applyBadWords_nth:
  "i < length ls \<Longrightarrow> applyBadWords bw r ls ! i = (if completes_bad_word bw r (int i) then None else ls ! i)"
proof (induction bw arbitrary: ls)
  case Nil
  then show ?case by (simp add: applyBadWords_def completes_bad_word_def)
next
  case (Cons seq bw)
  let ?ls = "if seq = [] then ls else if bad_word_match r seq \<and> 0 \<le> last seq \<and> last seq < int (length ls)
      then ls[nat (last seq) := None] else ls"
  have run: "applyBadWords (seq # bw) r ls = applyBadWords bw r ?ls" by (simp add: applyBadWords_def)
  have len: "length ?ls = length ls" by simp
  have nth: "?ls ! i = (if seq \<noteq> [] \<and> bad_word_match r seq \<and> last seq = int i then None else ls ! i)"
    using Cons.prems by (auto simp: nth_list_update)
  have split: "completes_bad_word (seq # bw) r (int i)
      \<longleftrightarrow> seq \<noteq> [] \<and> bad_word_match r seq \<and> last seq = int i \<or> completes_bad_word bw r (int i)"
    using bad_word_match_iff [of seq r] by (auto simp: completes_bad_word_def)
  show ?case unfolding run Cons.IH [of ?ls, unfolded len, OF Cons.prems] nth split by auto
qed

lemma length_effective_logits: "length (effective_logits p r l) = length l"
proof -
  have bias: "length (applyBias b l) = length l" for b l
    unfolding applyBias_def by (induction b arbitrary: l) auto
  have pen: "length (applyPenalties p r l) = length l" for p r l
    by (simp add: applyPenalties_def Let_def)
  show ?thesis
    by (simp add: effective_logits_def Let_def length_applyBadWords bias pen softcap_def)
qed

lemma effective_logits_masked:
  assumes "sp_badWords p \<noteq> []" "i < length l"
  shows "effective_logits p r l ! i = None \<longleftrightarrow> completes_bad_word (sp_badWords p) r (int i)"
proof -
  have "effective_logits p r l = applyBadWords (sp_badWords p) r (map Some x)" if "x = (let
      l1 = (if sp_finalLogitSoftcap p > 0 then softcap (sp_finalLogitSoftcap p) l else l);
      l2 = (if penaltiesActive p \<and> r \<noteq> [] then applyPenalties p r l1 else l1)
      in if sp_logitBias p \<noteq> [] then applyBias (sp_logitBias p) l2 else l2)" for x
    using assms(1) by (simp add: effective_logits_def Let_def that)
  then obtain x where x: "effective_logits p r l = applyBadWords (sp_badWords p) r (map Some x)" by blast
  then have "length x = length l" by (metis length_applyBadWords length_effective_logits length_map)
  then show ?thesis using assms(2) by (simp add: x applyBadWords_nth)
qed



end
