(* ===== verification/Speculation.thy ===== *)
theory Speculation
  imports GreedySampling
begin

text \<open>
  Speculative decoding: the n-gram drafter (\<^verbatim>\<open>src/runtime/spec/NGramDrafter.cpp\<close>), the draft/verify/accept
  loop \<^verbatim>\<open>SpeculativeDecoder::runSpeculative\<close> (\<^verbatim>\<open>src/runtime/spec/SpeculativeDecoder.cpp\<close>) and the
  target-only decode loop it replaces, \<^verbatim>\<open>InferenceEngine::runDecode\<close> (\<^verbatim>\<open>src/runtime/InferenceEngine.cpp\<close>).

  The transformer is the parameter \<open>model\<close>: the logits row after a sequence of tokens. The two
  engine calls of a round are \<open>forwardVerify\<close>, one row per new token on top of the committed history,
  and \<open>commitVerified\<close>, which appends to that history. A drafter is the parameter \<open>propose\<close>. The token
  callback is a predicate \<open>cont\<close> on the tokens emitted so far (a stateful callback sees them in this
  order); an absent callback is the constant \<open>True\<close>. \<open>prefilled\<close> is false when the client cancelled
  during prefill. Timing and logging are left out.
\<close>

section \<open>Longest common prefix\<close>

fun lcp_loop :: "int list \<Rightarrow> int list \<Rightarrow> nat \<Rightarrow> nat" where
  "lcp_loop (a # as) (b # bs) i = (if a = b then lcp_loop as bs (Suc i) else i)"
| "lcp_loop _ _ i = i"

definition longestCommonPrefix :: "int list \<Rightarrow> int list \<Rightarrow> nat" where
  "longestCommonPrefix a b = lcp_loop a b 0"

section \<open>N-gram drafter\<close>

record NGramConfig =
  ng_maxK :: nat
  ng_minK :: nat

definition newNGramDrafter :: "NGramConfig \<Rightarrow> NGramConfig result" where
  "newNGramDrafter cfg =
     (if ng_minK cfg = 0 then Inl (InvalidArgument ''NGramDrafter: minK must be >= 1'')
      else if ng_maxK cfg < ng_minK cfg then Inl (InvalidArgument ''NGramDrafter: maxK must be >= minK'')
      else Inr cfg)"

text \<open>The backward scan over match positions below \<open>pos\<close>, for a needle of length \<open>k\<close>.\<close>

fun ngram_scan :: "int list \<Rightarrow> nat \<Rightarrow> nat \<Rightarrow> nat \<Rightarrow> int list option" where
  "ngram_scan context N k 0 = None"
| "ngram_scan context N k (Suc pos) =
     (let needleStart = length context - k; followStart = pos + k in
      if take k (drop pos context) \<noteq> take k (drop needleStart context) then ngram_scan context N k pos
      else if followStart \<ge> needleStart then ngram_scan context N k pos
      else Some (take (min N (needleStart - followStart)) (drop followStart context)))"

text \<open>The sweep over needle lengths, from \<open>minK + j\<close> down to \<open>minK\<close>.\<close>

fun ngram_sweep :: "int list \<Rightarrow> nat \<Rightarrow> nat \<Rightarrow> nat \<Rightarrow> int list" where
  "ngram_sweep context N minK j =
     (case ngram_scan context N (minK + j) (length context - (minK + j)) of
        Some r \<Rightarrow> r
      | None \<Rightarrow> (case j of 0 \<Rightarrow> [] | Suc j' \<Rightarrow> ngram_sweep context N minK j'))"

declare ngram_sweep.simps [simp del]

definition ngram_lookup :: "int list \<Rightarrow> nat \<Rightarrow> nat \<Rightarrow> nat \<Rightarrow> int list" where
  "ngram_lookup context N maxK minK =
     (if N = 0 \<or> minK = 0 \<or> maxK < minK then []
      else if length context < minK + 1 then []
      else ngram_sweep context N minK (min maxK (length context - 1) - minK))"

definition ngram_propose :: "NGramConfig \<Rightarrow> int list \<Rightarrow> nat \<Rightarrow> int list" where
  "ngram_propose cfg context N = (if N = 0 then [] else ngram_lookup context N (ng_maxK cfg) (ng_minK cfg))"

section \<open>The target engine at the level of tokens\<close>

type_synonym model = "int list \<Rightarrow> real list"

record GenerateParams =
  gp_maxNewTokens :: nat
  gp_stopIds :: "int list"
  gp_sampling :: SamplingParams

record Engine =
  en_model :: model
  en_eosId :: int
  en_softcap :: real
  en_maxContextTokens :: nat

definition isStop :: "Engine \<Rightarrow> GenerateParams \<Rightarrow> int \<Rightarrow> bool" where
  "isStop e ps t \<longleftrightarrow> t = en_eosId e \<or> t \<in> set (gp_stopIds ps)"

definition sampleNext :: "Engine \<Rightarrow> int list \<Rightarrow> int list \<Rightarrow> SamplingParams \<Rightarrow> int result" where
  "sampleNext e tokens recentTokens sampling =
     sample_greedy (en_model e tokens) recentTokens (sampling\<lparr>sp_finalLogitSoftcap := en_softcap e\<rparr>)"

text \<open>
  The decode loop of \<^verbatim>\<open>runDecode\<close> after the first sample, with \<open>n\<close> steps left. \<^verbatim>\<open>cache.length()\<close> is the
  prompt and all generated tokens but the last.
\<close>

fun decode_loop ::
  "Engine \<Rightarrow> GenerateParams \<Rightarrow> (int list \<Rightarrow> bool) \<Rightarrow> int list \<Rightarrow> nat \<Rightarrow> bool \<Rightarrow> int list \<Rightarrow> int list result" where
  "decode_loop e ps cont prompt 0 aborted gen = Inr gen"
| "decode_loop e ps cont prompt (Suc n) aborted gen =
     (if aborted \<or> \<not> length prompt + length gen - 1 < en_maxContextTokens e then Inr gen
      else if isStop e ps (last gen) then Inr gen
      else case sampleNext e (prompt @ gen) gen (gp_sampling ps) of
             Inl x \<Rightarrow> Inl x
           | Inr t \<Rightarrow> decode_loop e ps cont prompt n (\<not> cont (gen @ [t])) (gen @ [t]))"

definition runDecode ::
  "Engine \<Rightarrow> GenerateParams \<Rightarrow> (int list \<Rightarrow> bool) \<Rightarrow> int list \<Rightarrow> int list result" where
  "runDecode e ps cont prompt =
     (case sampleNext e prompt prompt (gp_sampling ps) of
        Inl x \<Rightarrow> Inl x
      | Inr t \<Rightarrow> decode_loop e ps cont prompt (gp_maxNewTokens ps - 1) (\<not> cont [t]) [t])"

definition engine_generate ::
  "Engine \<Rightarrow> GenerateParams \<Rightarrow> (int list \<Rightarrow> bool) \<Rightarrow> bool \<Rightarrow> int list \<Rightarrow> int list result" where
  "engine_generate e ps cont prefilled prompt =
     (if prompt = [] then Inl (RuntimeError ''InferenceEngine::generate: empty prompt'')
      else if \<not> prefilled then Inr []
      else runDecode e ps cont prompt)"

definition forwardVerify :: "Engine \<Rightarrow> int list \<Rightarrow> int list \<Rightarrow> real list list" where
  "forwardVerify e committed newTokens = map (\<lambda>i. en_model e (committed @ take (Suc i) newTokens)) [0..<length newTokens]"

section \<open>The speculative decoder\<close>

record SpecConfig =
  sc_enabled :: bool
  sc_draftN :: nat

definition applyPenaltiesInPlace :: "real list \<Rightarrow> int list \<Rightarrow> SamplingParams \<Rightarrow> real list" where
  "applyPenaltiesInPlace logits recentTokens params =
     (if sp_penaltyWindow params = 0 then logits
      else if sp_repetitionPenalty params = 1 \<and> sp_frequencyPenalty params = 0 \<and> sp_presencePenalty params = 0 then logits
      else applyPenalties params recentTokens logits)"

definition applySoftcapInPlace :: "real list \<Rightarrow> real \<Rightarrow> real list" where
  "applySoftcapInPlace logits cap = (if cap \<le> 0 then logits else softcap cap logits)"

definition argmaxOf :: "real list \<Rightarrow> int result" where
  "argmaxOf v =
     (case v of
        [] \<Rightarrow> Inl (RuntimeError ''SpeculativeDecoder: empty logits row'')
      | x # xs \<Rightarrow> Inr (int (argmax_from 1 xs 0 x)))"

definition wouldEngage :: "SpecConfig \<Rightarrow> GenerateParams \<Rightarrow> bool" where
  "wouldEngage cfg ps =
     (if \<not> sc_enabled cfg \<or> sc_draftN cfg = 0 then False
      else if sp_temperature (gp_sampling ps) > 0 then False else True)"

definition process_row :: "Engine \<Rightarrow> SamplingParams \<Rightarrow> int list \<Rightarrow> real list \<Rightarrow> real list" where
  "process_row e sp hist row = applyPenaltiesInPlace (applySoftcapInPlace row (en_softcap e)) hist sp"

text \<open>
  The accept loop over the drafted tokens: returns the number accepted, the rows as the loop left them
  (the row of a rejected token has been processed in place) and the extended history.
\<close>

fun accept_loop ::
  "Engine \<Rightarrow> SamplingParams \<Rightarrow> int list \<Rightarrow> nat \<Rightarrow> real list list \<Rightarrow> int list \<Rightarrow> (nat \<times> real list list \<times> int list) result" where
  "accept_loop e sp [] i rows hist = Inr (i, rows, hist)"
| "accept_loop e sp (t # ts) i rows hist =
     (let row = process_row e sp hist (rows ! i); rows' = rows[i := row] in
      case argmaxOf row of
        Inl x \<Rightarrow> Inl x
      | Inr a \<Rightarrow> if a \<noteq> t then Inr (i, rows', hist) else accept_loop e sp ts (Suc i) rows' (hist @ [t]))"

record SpecState =
  ss_committed :: "int list"
  ss_context :: "int list"
  ss_tLast :: int
  ss_generated :: "int list"
  ss_aborted :: bool
  ss_hitStop :: bool
  ss_rounds :: nat
  ss_totalDraft :: nat
  ss_totalAcc :: nat

text \<open>Emitting the accepted tokens one by one, until a stop token or an abort.\<close>

fun emit_loop ::
  "Engine \<Rightarrow> GenerateParams \<Rightarrow> (int list \<Rightarrow> bool) \<Rightarrow> int list \<Rightarrow> SpecState \<Rightarrow> SpecState" where
  "emit_loop e ps cont [] s = s"
| "emit_loop e ps cont (t # ts) s =
     (if ss_aborted s \<or> ss_hitStop s then s
      else let gen = ss_generated s @ [t] in
        emit_loop e ps cont ts
          (s\<lparr>ss_generated := gen, ss_context := ss_context s @ [t],
             ss_hitStop := (isStop e ps t \<or> ss_hitStop s),
             ss_aborted := (\<not> cont gen \<or> ss_aborted s)\<rparr>))"

text \<open>Steps 3e to 3g of a round: commit, emit the accepted tokens and, unless that ended the run, the recovery token.\<close>

definition finish_round ::
  "Engine \<Rightarrow> GenerateParams \<Rightarrow> (int list \<Rightarrow> bool) \<Rightarrow> int list \<Rightarrow> nat \<Rightarrow> int \<Rightarrow> SpecState \<Rightarrow> SpecState" where
  "finish_round e ps cont draft accepted recoveryTok s =
     (let s1 = s\<lparr>ss_committed := ss_committed s @ ss_tLast s # take accepted draft,
                 ss_context := ss_context s @ [ss_tLast s]\<rparr>;
          s2 = emit_loop e ps cont (take accepted draft) s1;
          s3 = s2\<lparr>ss_rounds := ss_rounds s2 + 1, ss_totalDraft := ss_totalDraft s2 + length draft,
                  ss_totalAcc := ss_totalAcc s2 + accepted\<rparr>
      in if ss_aborted s3 \<or> ss_hitStop s3 then s3\<lparr>ss_tLast := last (ss_generated s3)\<rparr>
         else let gen = ss_generated s3 @ [recoveryTok]
              in s3\<lparr>ss_generated := gen, ss_tLast := recoveryTok,
                    ss_hitStop := isStop e ps recoveryTok, ss_aborted := (\<not> cont gen)\<rparr>)"

definition spec_round ::
  "Engine \<Rightarrow> SpecConfig \<Rightarrow> GenerateParams \<Rightarrow> (int list \<Rightarrow> bool) \<Rightarrow> (int list \<Rightarrow> nat \<Rightarrow> int list)
     \<Rightarrow> SpecState \<Rightarrow> SpecState result" where
  "spec_round e cfg ps cont propose s =
     (let budget = gp_maxNewTokens ps - length (ss_generated s);
          roundN = min (sc_draftN cfg) (budget - 1);
          draft = (if roundN > 0 then propose (ss_context s @ [ss_tLast s]) roundN else []);
          rows = forwardVerify e (ss_committed s) (ss_tLast s # draft)
      in case accept_loop e (gp_sampling ps) draft 0 rows (ss_generated s) of
           Inl x \<Rightarrow> Inl x
         | Inr (accepted, rows', hist) \<Rightarrow>
             (case argmaxOf (process_row e (gp_sampling ps) hist (rows' ! accepted)) of
                Inl x \<Rightarrow> Inl x
              | Inr recoveryTok \<Rightarrow> Inr (finish_round e ps cont draft accepted recoveryTok s)))"

lemma emit_loop_length: "length (ss_generated s) \<le> length (ss_generated (emit_loop e ps cont ts s))"
proof (induction ts arbitrary: s)
  case (Cons t ts)
  show ?case
  proof (cases "ss_aborted s \<or> ss_hitStop s")
    case False
    let ?s = "s\<lparr>ss_generated := ss_generated s @ [t], ss_context := ss_context s @ [t],
        ss_hitStop := (isStop e ps t \<or> ss_hitStop s), ss_aborted := (\<not> cont (ss_generated s @ [t]) \<or> ss_aborted s)\<rparr>"
    show ?thesis using Cons.IH [of ?s] False by (simp add: Let_def)
  qed simp
qed simp

lemma emit_loop_flags:
  "\<not> ss_aborted s \<Longrightarrow> \<not> ss_hitStop s \<Longrightarrow> ss_aborted (emit_loop e ps cont ts s) \<or> ss_hitStop (emit_loop e ps cont ts s) \<Longrightarrow>
   length (ss_generated s) < length (ss_generated (emit_loop e ps cont ts s))"
proof (cases ts)
  case (Cons t ts')
  assume "\<not> ss_aborted s" "\<not> ss_hitStop s"
  then show ?thesis
    using emit_loop_length [of "s\<lparr>ss_generated := ss_generated s @ [t], ss_context := ss_context s @ [t],
        ss_hitStop := (isStop e ps t \<or> ss_hitStop s), ss_aborted := (\<not> cont (ss_generated s @ [t]) \<or> ss_aborted s)\<rparr>" e ps cont ts']
    by (simp add: Cons Let_def)
qed simp

lemma finish_round_grows:
  assumes "\<not> ss_aborted s" "\<not> ss_hitStop s"
  shows "length (ss_generated s) < length (ss_generated (finish_round e ps cont draft acc rec s))"
proof -
  let ?s1 = "s\<lparr>ss_committed := ss_committed s @ ss_tLast s # take acc draft, ss_context := ss_context s @ [ss_tLast s]\<rparr>"
  let ?s2 = "emit_loop e ps cont (take acc draft) ?s1"
  have "length (ss_generated s) \<le> length (ss_generated ?s2)" using emit_loop_length [of ?s1] by simp
  moreover have "ss_aborted ?s2 \<or> ss_hitStop ?s2 \<Longrightarrow> length (ss_generated s) < length (ss_generated ?s2)"
    using emit_loop_flags [of ?s1] assms by simp
  ultimately show ?thesis by (simp add: finish_round_def Let_def)
qed

lemma spec_round_grows:
  assumes "spec_round e cfg ps cont propose s = Inr s'" "\<not> ss_aborted s" "\<not> ss_hitStop s"
  shows "length (ss_generated s) < length (ss_generated s')"
proof -
  obtain draft acc rec where "s' = finish_round e ps cont draft acc rec s"
    using assms(1) by (fastforce simp: spec_round_def Let_def split: sum.splits prod.splits)
  then show ?thesis using finish_round_grows [OF assms(2,3)] by simp
qed

function spec_loop ::
  "Engine \<Rightarrow> SpecConfig \<Rightarrow> GenerateParams \<Rightarrow> (int list \<Rightarrow> bool) \<Rightarrow> (int list \<Rightarrow> nat \<Rightarrow> int list)
     \<Rightarrow> SpecState \<Rightarrow> SpecState result" where
  "spec_loop e cfg ps cont propose s =
     (if ss_aborted s \<or> \<not> length (ss_generated s) < gp_maxNewTokens ps \<or> ss_hitStop s then Inr s
      else case spec_round e cfg ps cont propose s of
             Inl x \<Rightarrow> Inl x
           | Inr s' \<Rightarrow> spec_loop e cfg ps cont propose s')"
  by auto
termination
proof (relation "measure (\<lambda>(e, cfg, ps, cont, propose, s). gp_maxNewTokens ps - length (ss_generated s))")
  fix e cfg ps cont propose s s'
  assume "\<not> (ss_aborted s \<or> \<not> length (ss_generated s) < gp_maxNewTokens ps \<or> ss_hitStop s)"
    and "spec_round e cfg ps cont propose s = Inr s'"
  then show "((e, cfg, ps, cont, propose, s'), e, cfg, ps, cont, propose, s)
      \<in> measure (\<lambda>(e, cfg, ps, cont, propose, s). gp_maxNewTokens ps - length (ss_generated s))"
    using spec_round_grows [of e cfg ps cont propose s s'] by auto
qed simp

declare spec_loop.simps [simp del]

definition spec_start :: "Engine \<Rightarrow> GenerateParams \<Rightarrow> (int list \<Rightarrow> bool) \<Rightarrow> int list \<Rightarrow> int \<Rightarrow> SpecState" where
  "spec_start e ps cont prompt t =
     \<lparr>ss_committed = prompt, ss_context = prompt, ss_tLast = t, ss_generated = [t],
      ss_aborted = (\<not> cont [t]), ss_hitStop = isStop e ps t, ss_rounds = 0, ss_totalDraft = 0, ss_totalAcc = 0\<rparr>"

definition runSpeculative ::
  "Engine \<Rightarrow> SpecConfig \<Rightarrow> GenerateParams \<Rightarrow> (int list \<Rightarrow> bool) \<Rightarrow> (int list \<Rightarrow> nat \<Rightarrow> int list) \<Rightarrow> bool
     \<Rightarrow> int list \<Rightarrow> int list result" where
  "runSpeculative e cfg ps cont propose prefilled prompt =
     (if prompt = [] then Inl (RuntimeError ''SpeculativeDecoder::generate: empty prompt'')
      else if gp_maxNewTokens ps = 0 then Inr []
      else case engine_generate e (ps\<lparr>gp_maxNewTokens := 1\<rparr>) (\<lambda>_. True) prefilled prompt of
             Inl x \<Rightarrow> Inl x
           | Inr [] \<Rightarrow> Inr []
           | Inr (t # _) \<Rightarrow>
               let s = spec_start e ps cont prompt t in
               if ss_aborted s \<or> ss_hitStop s then Inr (ss_generated s)
               else (case spec_loop e cfg ps cont propose s of Inl x \<Rightarrow> Inl x | Inr s' \<Rightarrow> Inr (ss_generated s')))"

definition spec_generate ::
  "Engine \<Rightarrow> SpecConfig \<Rightarrow> GenerateParams \<Rightarrow> (int list \<Rightarrow> bool) \<Rightarrow> (int list \<Rightarrow> nat \<Rightarrow> int list) \<Rightarrow> bool
     \<Rightarrow> int list \<Rightarrow> int list result" where
  "spec_generate e cfg ps cont propose prefilled prompt =
     (if \<not> wouldEngage cfg ps then engine_generate e ps cont prefilled prompt
      else runSpeculative e cfg ps cont propose prefilled prompt)"

section \<open>Plain greedy decoding\<close>

text \<open>
  Parameters without penalties, logit bias and bad words. The next token is then the argmax of the
  model's row, whether or not the softcap is applied, and applying it twice changes nothing.
\<close>

definition plain_sampling :: "SamplingParams \<Rightarrow> bool" where
  "plain_sampling sp \<longleftrightarrow> \<not> penaltiesActive sp \<and> sp_logitBias sp = [] \<and> sp_badWords sp = []"

lemma argmaxOf_eq: "row \<noteq> [] \<Longrightarrow> argmaxOf row = argmaxRow row"
  by (cases row) (simp_all add: argmaxOf_def argmaxRow_def)

lemma process_row_plain:
  assumes "plain_sampling sp" "row \<noteq> []"
  shows "process_row e sp hist row \<noteq> []" "argmaxOf (process_row e sp hist row) = argmaxRow row"
proof -
  have p: "process_row e sp hist row = (if en_softcap e \<le> 0 then row else softcap (en_softcap e) row)"
    using assms(1) by (auto simp: process_row_def applyPenaltiesInPlace_def applySoftcapInPlace_def
        plain_sampling_def penaltiesActive_def)
  show ne: "process_row e sp hist row \<noteq> []" using assms(2) by (simp add: p softcap_def)
  show "argmaxOf (process_row e sp hist row) = argmaxRow row"
    using argmaxOf_eq [OF ne] by (simp add: p argmaxRow_softcap)
qed

lemma sampleNext_plain:
  assumes "plain_sampling sp" "en_model e toks \<noteq> []"
  shows "sampleNext e toks recent sp = argmaxRow (en_model e toks)"
  using assms by (auto simp: sampleNext_def sample_greedy_def plain_sampling_def penaltiesActive_def)

lemma accept_loop_plain:
  assumes "plain_sampling sp" "i + length ts < length rows" "\<And>j. j < length rows \<Longrightarrow> rows ! j \<noteq> []"
  shows "\<exists>acc rows' hist'. accept_loop e sp ts i rows hist = Inr (acc, rows', hist') \<and> i \<le> acc \<and> acc \<le> i + length ts
    \<and> (\<forall>j. i \<le> j \<and> j < acc \<longrightarrow> argmaxRow (rows ! j) = Inr (ts ! (j - i)))
    \<and> argmaxOf (process_row e sp hist'' (rows' ! acc)) = argmaxRow (rows ! acc)"
  using assms(2,3)
proof (induction ts arbitrary: i rows hist)
  case Nil
  then show ?case using process_row_plain [OF assms(1)] by auto
next
  case (Cons t ts)
  let ?row = "process_row e sp hist (rows ! i)"
  have i: "i < length rows" "rows ! i \<noteq> []" using Cons.prems by auto
  note pr = process_row_plain [OF assms(1) i(2), of e hist]
  obtain a where a: "argmaxRow (rows ! i) = Inr a" using argmaxRow_exists [OF i(2)] by blast
  show ?case
  proof (cases "a = t")
    case False
    then have run: "accept_loop e sp (t # ts) i rows hist = Inr (i, rows[i := ?row], hist)" using pr a by (simp add: Let_def)
    have "argmaxOf (process_row e sp hist'' ?row) = argmaxRow ?row" using process_row_plain(2) [OF assms(1) pr(1)] .
    also have "\<dots> = argmaxRow (rows ! i)" using pr by (simp add: argmaxOf_eq)
    finally show ?thesis using run i(1) by auto
  next
    case True
    let ?rows = "rows[i := ?row]"
    have same: "argmaxRow (?rows ! j) = argmaxRow (rows ! j)" for j
      using pr i(1) by (cases "j = i") (simp_all add: argmaxOf_eq)
    have ne: "?rows ! j \<noteq> []" if "j < length ?rows" for j
      using Cons.prems(2) [of j] that pr(1) i(1) by (cases "j = i") simp_all
    have run: "accept_loop e sp (t # ts) i rows hist = accept_loop e sp ts (Suc i) ?rows (hist @ [t])"
      using pr a True by (simp add: Let_def)
    from Cons.IH [of "Suc i" ?rows "hist @ [t]"] Cons.prems(1) ne
    obtain acc rows' hist' where r: "accept_loop e sp ts (Suc i) ?rows (hist @ [t]) = Inr (acc, rows', hist')"
      "Suc i \<le> acc" "acc \<le> Suc i + length ts"
      "\<forall>j. Suc i \<le> j \<and> j < acc \<longrightarrow> argmaxRow (?rows ! j) = Inr (ts ! (j - Suc i))"
      "argmaxOf (process_row e sp hist'' (rows' ! acc)) = argmaxRow (?rows ! acc)" by auto
    have "argmaxRow (rows ! j) = Inr ((t # ts) ! (j - i))" if "i \<le> j" "j < acc" for j
    proof (cases "j = i")
      case False
      then have "Suc i \<le> j" "(t # ts) ! (j - i) = ts ! (j - Suc i)" using that by (auto simp: nth_Cons' Suc_diff_Suc)
      then show ?thesis using r(4) that same by simp
    qed (use a True in simp)
    then show ?thesis using run r same by auto
  qed
qed

section \<open>Speculative and target-only decoding agree\<close>

text \<open>The context of the comparison: one engine, one request, plain sampling and enough context.\<close>

definition comparable :: "Engine \<Rightarrow> GenerateParams \<Rightarrow> int list \<Rightarrow> bool" where
  "comparable e ps prompt \<longleftrightarrow> prompt \<noteq> [] \<and> 0 < gp_maxNewTokens ps \<and> plain_sampling (gp_sampling ps)
     \<and> (\<forall>toks. en_model e toks \<noteq> []) \<and> length prompt + gp_maxNewTokens ps \<le> en_maxContextTokens e"

lemma decode_step:
  assumes "comparable e ps prompt" "argmaxRow (en_model e (prompt @ gen)) = Inr t" "gen \<noteq> []"
    "length gen < gp_maxNewTokens ps" "\<not> isStop e ps (last gen)"
  shows "decode_loop e ps cont prompt (gp_maxNewTokens ps - length gen) False gen
    = decode_loop e ps cont prompt (gp_maxNewTokens ps - length (gen @ [t])) (\<not> cont (gen @ [t])) (gen @ [t])"
proof -
  obtain n where n: "gp_maxNewTokens ps - length gen = Suc n" using assms(4) by (metis Suc_diff_Suc)
  have "sampleNext e (prompt @ gen) gen (gp_sampling ps) = Inr t"
    using sampleNext_plain assms(1,2) by (simp add: comparable_def)
  moreover have "length prompt + length gen - 1 < en_maxContextTokens e"
    using assms(1,4) by (auto simp: comparable_def)
  moreover have "gp_maxNewTokens ps - length (gen @ [t]) = n" using n by simp
  ultimately show ?thesis unfolding n using assms(5) by simp
qed

text \<open>Emitting tokens that are the successive argmaxes is running the target's own loop.\<close>

lemma emit_loop_decode:
  assumes cmp: "comparable e ps prompt"
  shows "\<lbrakk>\<not> ss_aborted s; \<not> ss_hitStop s; \<not> isStop e ps (last (ss_generated s)); ss_generated s \<noteq> [];
     length (ss_generated s) + length ts < gp_maxNewTokens ps;
     \<And>i. i < length ts \<Longrightarrow> argmaxRow (en_model e (prompt @ ss_generated s @ take i ts)) = Inr (ts ! i)\<rbrakk> \<Longrightarrow>
   let s' = emit_loop e ps cont ts s in
     decode_loop e ps cont prompt (gp_maxNewTokens ps - length (ss_generated s)) False (ss_generated s)
       = decode_loop e ps cont prompt (gp_maxNewTokens ps - length (ss_generated s')) (ss_aborted s') (ss_generated s')
     \<and> ss_generated s' \<noteq> [] \<and> (ss_hitStop s' \<longleftrightarrow> isStop e ps (last (ss_generated s')))
     \<and> (\<not> ss_aborted s' \<and> \<not> ss_hitStop s' \<longrightarrow> ss_generated s' = ss_generated s @ ts \<and> ss_context s' = ss_context s @ ts)
     \<and> length (ss_generated s') \<le> length (ss_generated s) + length ts \<and> ss_committed s' = ss_committed s"
proof (induction ts arbitrary: s)
  case (Cons t ts)
  let ?g = "ss_generated s @ [t]"
  let ?s = "s\<lparr>ss_generated := ?g, ss_context := ss_context s @ [t],
      ss_hitStop := (isStop e ps t \<or> ss_hitStop s), ss_aborted := (\<not> cont ?g \<or> ss_aborted s)\<rparr>"
  have run: "emit_loop e ps cont (t # ts) s = emit_loop e ps cont ts ?s" using Cons.prems by (simp add: Let_def)
  have step: "decode_loop e ps cont prompt (gp_maxNewTokens ps - length (ss_generated s)) False (ss_generated s)
      = decode_loop e ps cont prompt (gp_maxNewTokens ps - length ?g) (\<not> cont ?g) ?g"
    using decode_step [OF cmp, of "ss_generated s" t] Cons.prems(3-5) Cons.prems(6) [of 0] by simp
  show ?case
  proof (cases "cont ?g \<and> \<not> isStop e ps t")
    case True
    have "argmaxRow (en_model e (prompt @ ss_generated ?s @ take i ts)) = Inr (ts ! i)" if "i < length ts" for i
      using Cons.prems(6) [of "Suc i"] that by simp
    from Cons.IH [OF _ _ _ _ _ this] True Cons.prems(1,2,5)
    show ?thesis unfolding run Let_def step by simp
  next
    case False
    have "emit_loop e ps cont ts ?s = ?s" using False by (cases ts) auto
    then show ?thesis unfolding run Let_def step using False Cons.prems(1,2) by auto
  qed
qed simp

text \<open>The state between two rounds: the pending token is the last one, everything before it is committed.\<close>

definition round_ok :: "Engine \<Rightarrow> GenerateParams \<Rightarrow> int list \<Rightarrow> SpecState \<Rightarrow> bool" where
  "round_ok e ps prompt s \<longleftrightarrow> ss_generated s \<noteq> [] \<and> length (ss_generated s) \<le> gp_maxNewTokens ps
     \<and> (ss_hitStop s \<longleftrightarrow> isStop e ps (last (ss_generated s)))
     \<and> (\<not> ss_aborted s \<and> \<not> ss_hitStop s \<longrightarrow>
          ss_tLast s = last (ss_generated s) \<and> ss_committed s = prompt @ butlast (ss_generated s)
          \<and> ss_context s = prompt @ butlast (ss_generated s))"

abbreviation remaining ::
  "Engine \<Rightarrow> GenerateParams \<Rightarrow> (int list \<Rightarrow> bool) \<Rightarrow> int list \<Rightarrow> SpecState \<Rightarrow> int list result" where
  "remaining e ps cont prompt s \<equiv>
     decode_loop e ps cont prompt (gp_maxNewTokens ps - length (ss_generated s)) (ss_aborted s) (ss_generated s)"

lemma finish_round_decode:
  assumes cmp: "comparable e ps prompt" and ok: "round_ok e ps prompt s"
    and run: "\<not> ss_aborted s" "\<not> ss_hitStop s" and room: "length (ss_generated s) + acc < gp_maxNewTokens ps"
    and acc: "acc \<le> length draft"
      "\<And>i. i < acc \<Longrightarrow> argmaxRow (en_model e (prompt @ ss_generated s @ take i draft)) = Inr (draft ! i)"
    and rec: "argmaxRow (en_model e (prompt @ ss_generated s @ take acc draft)) = Inr rec"
  shows "round_ok e ps prompt (finish_round e ps cont draft acc rec s)
    \<and> remaining e ps cont prompt s = remaining e ps cont prompt (finish_round e ps cont draft acc rec s)"
proof -
  let ?s1 = "s\<lparr>ss_committed := ss_committed s @ ss_tLast s # take acc draft, ss_context := ss_context s @ [ss_tLast s]\<rparr>"
  let ?s2 = "emit_loop e ps cont (take acc draft) ?s1" and ?f = "finish_round e ps cont draft acc rec s"
  have st: "\<not> isStop e ps (last (ss_generated s))" "ss_generated s \<noteq> []"
    "ss_context s @ [ss_tLast s] = prompt @ ss_generated s" "ss_committed s @ [ss_tLast s] = prompt @ ss_generated s"
    using ok run by (auto simp: round_ok_def)
  have "argmaxRow (en_model e (prompt @ ss_generated ?s1 @ take i (take acc draft))) = Inr (take acc draft ! i)"
    if "i < length (take acc draft)" for i
  proof -
    have "i < acc" "take i (take acc draft) = take i draft" using that by auto
    then show ?thesis using acc(2) [of i] by simp
  qed
  from emit_loop_decode [OF cmp _ _ _ _ _ this, of cont] run st(1,2) room acc(1)
  have E: "remaining e ps cont prompt s = remaining e ps cont prompt ?s2"
    "ss_generated ?s2 \<noteq> []" "ss_hitStop ?s2 \<longleftrightarrow> isStop e ps (last (ss_generated ?s2))"
    "\<not> ss_aborted ?s2 \<and> \<not> ss_hitStop ?s2 \<Longrightarrow> ss_generated ?s2 = ss_generated s @ take acc draft
        \<and> ss_context ?s2 = ss_context s @ [ss_tLast s] @ take acc draft"
    "length (ss_generated ?s2) \<le> length (ss_generated s) + acc"
    "ss_committed ?s2 = ss_committed s @ ss_tLast s # take acc draft"
    by (auto simp: Let_def)
  show ?thesis
  proof (cases "ss_aborted ?s2 \<or> ss_hitStop ?s2")
    case True
    then have f: "?f = ?s2\<lparr>ss_rounds := ss_rounds ?s2 + 1, ss_totalDraft := ss_totalDraft ?s2 + length draft,
        ss_totalAcc := ss_totalAcc ?s2 + acc, ss_tLast := last (ss_generated ?s2)\<rparr>"
      by (simp add: finish_round_def Let_def)
    show ?thesis unfolding f using E True room by (auto simp: round_ok_def)
  next
    case False
    let ?g = "ss_generated s @ take acc draft"
    have g: "ss_generated ?s2 = ?g" "ss_context ?s2 = prompt @ ?g" using E(4) False st(3) by (simp_all flip: append_assoc)
    have c: "ss_committed ?s2 = prompt @ ?g" using E(6) st(4) by (metis append.assoc append_Cons append_Nil)
    have f: "ss_generated ?f = ?g @ [rec]" "ss_aborted ?f = (\<not> cont (?g @ [rec]))" "ss_hitStop ?f = isStop e ps rec"
      "ss_tLast ?f = rec" "ss_committed ?f = prompt @ ?g" "ss_context ?f = prompt @ ?g"
      using False g c by (simp_all add: finish_round_def Let_def)
    have "remaining e ps cont prompt ?s2 = decode_loop e ps cont prompt (gp_maxNewTokens ps - length ?g) False ?g"
      using g False by simp
    also have "\<dots> = remaining e ps cont prompt ?f"
      using decode_step [OF cmp, of ?g rec] rec st(2) room acc(1) E(3) False g f by simp
    finally show ?thesis using E(1) f room acc(1) by (simp add: round_ok_def butlast_append)
  qed
qed

lemma spec_round_decode:
  assumes cmp: "comparable e ps prompt" and ok: "round_ok e ps prompt s"
    and run: "\<not> ss_aborted s" "\<not> ss_hitStop s" "length (ss_generated s) < gp_maxNewTokens ps"
    and short: "\<And>c n. length (propose c n) \<le> n"
  shows "\<exists>s'. spec_round e cfg ps cont propose s = Inr s' \<and> round_ok e ps prompt s'
    \<and> remaining e ps cont prompt s = remaining e ps cont prompt s'"
proof -
  let ?budget = "gp_maxNewTokens ps - length (ss_generated s)"
  let ?n = "min (sc_draftN cfg) (?budget - 1)"
  define draft where "draft = (if ?n > 0 then propose (ss_context s @ [ss_tLast s]) ?n else [])"
  let ?rows = "forwardVerify e (ss_committed s) (ss_tLast s # draft)"
  have len: "length draft < ?budget"
    using short [of "ss_context s @ [ss_tLast s]" ?n] run(3) by (auto simp: draft_def)
  have com: "ss_committed s @ [ss_tLast s] = prompt @ ss_generated s" using ok run(1,2) by (simp add: round_ok_def)
  have row: "?rows ! i = en_model e (prompt @ ss_generated s @ take i draft)" if "i \<le> length draft" for i
  proof -
    have "?rows ! i = en_model e (ss_committed s @ [ss_tLast s] @ take i draft)"
      using that by (simp add: forwardVerify_def nth_append del: upt_Suc)
    then show ?thesis using com by (metis append.assoc)
  qed
  have "?rows ! j \<noteq> []" if "j < length ?rows" for j
    using that row [of j] cmp by (simp add: comparable_def forwardVerify_def)
  moreover have "0 + length draft < length ?rows" by (simp add: forwardVerify_def)
  ultimately obtain acc rows' hist' where a: "accept_loop e (gp_sampling ps) draft 0 ?rows (ss_generated s) = Inr (acc, rows', hist')"
    "acc \<le> length draft" "\<forall>j < acc. argmaxRow (?rows ! j) = Inr (draft ! j)"
    "argmaxOf (process_row e (gp_sampling ps) hist' (rows' ! acc)) = argmaxRow (?rows ! acc)"
  proof -
    assume ne: "\<And>j. j < length ?rows \<Longrightarrow> ?rows ! j \<noteq> []" and lt: "0 + length draft < length ?rows"
    have pl: "plain_sampling (gp_sampling ps)" using cmp by (simp add: comparable_def)
    obtain acc rows' hist' where r: "accept_loop e (gp_sampling ps) draft 0 ?rows (ss_generated s) = Inr (acc, rows', hist')"
      using accept_loop_plain [OF pl lt ne] by blast
    show thesis
      by (rule that [of acc rows' hist']) (use accept_loop_plain [OF pl lt ne, of e "ss_generated s" hist'] r in auto)
  qed
  obtain rec where rec: "argmaxRow (?rows ! acc) = Inr rec"
    using argmaxRow_exists [of "?rows ! acc"] row [OF a(2)] cmp by (auto simp: comparable_def)
  have "spec_round e cfg ps cont propose s = Inr (finish_round e ps cont draft acc rec s)"
    by (simp only: spec_round_def Let_def draft_def [symmetric] a(1,4) rec sum.case prod.case)
  moreover have "round_ok e ps prompt (finish_round e ps cont draft acc rec s)
      \<and> remaining e ps cont prompt s = remaining e ps cont prompt (finish_round e ps cont draft acc rec s)"
  proof (rule finish_round_decode [OF cmp ok run(1,2) _ a(2)])
    show "length (ss_generated s) + acc < gp_maxNewTokens ps" using a(2) len by linarith
    show "argmaxRow (en_model e (prompt @ ss_generated s @ take i draft)) = Inr (draft ! i)" if "i < acc" for i
      using a(2,3) that row [of i] by (metis less_imp_le_nat order_less_le_trans)
    show "argmaxRow (en_model e (prompt @ ss_generated s @ take acc draft)) = Inr rec"
      using rec row [OF a(2)] by simp
  qed
  ultimately show ?thesis by blast
qed

lemma spec_loop_decode:
  assumes cmp: "comparable e ps prompt" and short: "\<And>c n. length (propose c n) \<le> n"
  shows "round_ok e ps prompt s \<Longrightarrow>
    \<exists>s'. spec_loop e cfg ps cont propose s = Inr s' \<and> remaining e ps cont prompt s = Inr (ss_generated s')"
proof (induction "gp_maxNewTokens ps - length (ss_generated s)" arbitrary: s rule: less_induct)
  case less
  show ?case
  proof (cases "ss_aborted s \<or> \<not> length (ss_generated s) < gp_maxNewTokens ps \<or> ss_hitStop s")
    case True
    then have "remaining e ps cont prompt s = Inr (ss_generated s)"
      using less.prems by (cases "gp_maxNewTokens ps - length (ss_generated s)") (auto simp: round_ok_def)
    then show ?thesis using True by (subst spec_loop.simps) auto
  next
    case False
    then obtain s' where s': "spec_round e cfg ps cont propose s = Inr s'" "round_ok e ps prompt s'"
      "remaining e ps cont prompt s = remaining e ps cont prompt s'"
      using spec_round_decode [where propose = propose and cfg = cfg and cont = cont, OF cmp less.prems _ _ _ short] by auto
    have "length (ss_generated s) < length (ss_generated s')" using spec_round_grows [OF s'(1)] False by blast
    then have "gp_maxNewTokens ps - length (ss_generated s') < gp_maxNewTokens ps - length (ss_generated s)"
      using False by linarith
    from less.hyps [OF this s'(2)] show ?thesis using s'(1,3) False by (subst spec_loop.simps) simp
  qed
qed

text \<open>
  The contract of a drafter, \<^verbatim>\<open>Drafter::propose\<close>: it never proposes more tokens than asked for. What it
  proposes is free, since the verification decides.
\<close>

locale drafter =
  fixes propose :: "int list \<Rightarrow> nat \<Rightarrow> int list"
  assumes propose_short: "length (propose context n) \<le> n"
begin

lemma run_equiv:
  assumes cmp: "comparable e ps prompt"
  shows "runSpeculative e cfg ps cont propose prefilled prompt = engine_generate e ps cont prefilled prompt"
proof (cases prefilled)
  case False
  then show ?thesis using cmp by (simp add: runSpeculative_def engine_generate_def comparable_def)
next
  case True
  obtain t where t: "sampleNext e prompt prompt (gp_sampling ps) = Inr t"
    using sampleNext_plain [of "gp_sampling ps" e prompt prompt] argmaxRow_exists [of "en_model e prompt"] cmp
    by (auto simp: comparable_def)
  let ?s = "spec_start e ps cont prompt t"
  have ok: "round_ok e ps prompt ?s" using cmp by (auto simp: round_ok_def spec_start_def comparable_def)
  have first: "engine_generate e (ps\<lparr>gp_maxNewTokens := 1\<rparr>) (\<lambda>_. True) prefilled prompt = Inr [t]"
    using cmp t True by (simp add: engine_generate_def runDecode_def comparable_def)
  obtain s' where s': "spec_loop e cfg ps cont propose ?s = Inr s'" "remaining e ps cont prompt ?s = Inr (ss_generated s')"
    using spec_loop_decode [where propose = propose and cfg = cfg and cont = cont, OF cmp propose_short ok] by blast
  have "engine_generate e ps cont prefilled prompt = remaining e ps cont prompt ?s"
    using cmp t True by (simp add: engine_generate_def runDecode_def comparable_def spec_start_def)
  moreover have "runSpeculative e cfg ps cont propose prefilled prompt = Inr (ss_generated s')"
  proof (cases "ss_aborted ?s \<or> ss_hitStop ?s")
    case True
    then have "s' = ?s" using s'(1) by (subst (asm) spec_loop.simps) auto
    then show ?thesis using True cmp first by (simp add: runSpeculative_def Let_def comparable_def)
  next
    case False
    then show ?thesis using s'(1) cmp first by (simp add: runSpeculative_def Let_def comparable_def)
  qed
  ultimately show ?thesis using s'(2) by simp
qed

lemma generate_equiv:
  assumes "comparable e ps prompt"
  shows "spec_generate e cfg ps cont propose prefilled prompt = engine_generate e ps cont prefilled prompt"
  using run_equiv [OF assms] by (simp add: spec_generate_def)

end

section \<open>The n-gram drafter keeps the contract\<close>

lemma ngram_scan_length: "ngram_scan c N k p = Some r \<Longrightarrow> length r \<le> N"
  by (induction c N k p rule: ngram_scan.induct) (auto simp: Let_def split: if_splits)

lemma ngram_sweep_length: "length (ngram_sweep c N minK j) \<le> N"
  by (induction j) (subst ngram_sweep.simps; auto dest: ngram_scan_length split: option.split)+

interpretation ngram: drafter "ngram_propose cfg" for cfg
  by unfold_locales (simp add: ngram_propose_def ngram_lookup_def ngram_sweep_length)

text \<open>A usable match: the needle of length \<open>k\<close> occurs at \<open>pos\<close> and leaves a token to propose.\<close>

definition ngram_hit :: "int list \<Rightarrow> nat \<Rightarrow> nat \<Rightarrow> bool" where
  "ngram_hit context k pos \<longleftrightarrow>
     pos + k < length context - k \<and> take k (drop pos context) = drop (length context - k) context"

definition ngram_follow :: "int list \<Rightarrow> nat \<Rightarrow> nat \<Rightarrow> nat \<Rightarrow> int list" where
  "ngram_follow context N k pos = take (min N (length context - k - (pos + k))) (drop (pos + k) context)"

lemma ngram_scan_spec:
  assumes "k \<le> length c"
  shows "case ngram_scan c N k p of
      None \<Rightarrow> \<forall>q < p. \<not> ngram_hit c k q
    | Some r \<Rightarrow> \<exists>q < p. ngram_hit c k q \<and> (\<forall>q'. q < q' \<and> q' < p \<longrightarrow> \<not> ngram_hit c k q') \<and> r = ngram_follow c N k q"
proof (induction p)
  case (Suc p)
  show ?case
  proof (cases "ngram_hit c k p")
    case True
    then have "ngram_scan c N k (Suc p) = Some (ngram_follow c N k p)"
      using assms by (simp add: ngram_hit_def ngram_follow_def Let_def)
    then show ?thesis using True by auto
  next
    case False
    then have "ngram_scan c N k (Suc p) = ngram_scan c N k p"
      using assms by (auto simp: ngram_hit_def Let_def not_less)
    then show ?thesis using Suc False by (auto simp: less_Suc_eq split: option.splits)
  qed
qed simp

lemma ngram_hit_bound: "ngram_hit c k q \<Longrightarrow> q < length c - k"
  by (simp add: ngram_hit_def)

lemma ngram_scan_all:
  assumes "k \<le> length c"
  shows "ngram_scan c N k (length c - k) = None \<and> (\<forall>q. \<not> ngram_hit c k q)
    \<or> (\<exists>q. ngram_hit c k q \<and> (\<forall>q' > q. \<not> ngram_hit c k q') \<and> ngram_scan c N k (length c - k) = Some (ngram_follow c N k q))"
proof (cases "ngram_scan c N k (length c - k)")
  case None
  then show ?thesis using ngram_scan_spec [OF assms, where N = N and p = "length c - k"] ngram_hit_bound by auto
next
  case (Some r)
  then obtain q where "ngram_hit c k q" "\<forall>q'. q < q' \<and> q' < length c - k \<longrightarrow> \<not> ngram_hit c k q'" "r = ngram_follow c N k q"
    using ngram_scan_spec [OF assms, where N = N and p = "length c - k"] by auto
  then show ?thesis using Some ngram_hit_bound by blast
qed

definition ngram_best :: "int list \<Rightarrow> nat \<Rightarrow> nat \<Rightarrow> nat \<Rightarrow> nat \<Rightarrow> nat \<Rightarrow> int list \<Rightarrow> bool" where
  "ngram_best c N lo hi k q r \<longleftrightarrow> lo \<le> k \<and> k \<le> hi \<and> ngram_hit c k q \<and> (\<forall>q' > q. \<not> ngram_hit c k q')
     \<and> (\<forall>k' q'. k < k' \<and> k' \<le> hi \<longrightarrow> \<not> ngram_hit c k' q') \<and> r = ngram_follow c N k q"

lemma ngram_sweep_spec:
  assumes "minK + j \<le> length c"
  shows "(\<exists>k q. ngram_best c N minK (minK + j) k q (ngram_sweep c N minK j))
    \<or> (\<forall>k q. minK \<le> k \<and> k \<le> minK + j \<longrightarrow> \<not> ngram_hit c k q) \<and> ngram_sweep c N minK j = []"
  using assms
proof (induction j)
  case 0
  have sw: "ngram_sweep c N minK 0 = (case ngram_scan c N minK (length c - minK) of Some r \<Rightarrow> r | None \<Rightarrow> [])"
    by (subst ngram_sweep.simps) (simp split: option.split)
  have le: "minK \<le> length c" using 0 by simp
  from ngram_scan_all [OF le, of N] show ?case
  proof (elim disjE conjE exE)
    assume "ngram_scan c N minK (length c - minK) = None" "\<forall>q. \<not> ngram_hit c minK q"
    moreover have "k = minK" if "minK \<le> k" "k \<le> minK + 0" for k using that by simp
    ultimately show ?thesis using sw by auto
  next
    fix q assume "ngram_hit c minK q" "\<forall>q' > q. \<not> ngram_hit c minK q'"
      "ngram_scan c N minK (length c - minK) = Some (ngram_follow c N minK q)"
    then have "ngram_best c N minK (minK + 0) minK q (ngram_sweep c N minK 0)" using sw by (auto simp: ngram_best_def)
    then show ?thesis by blast
  qed
next
  case (Suc j)
  let ?k = "minK + Suc j"
  have sw: "ngram_sweep c N minK (Suc j) = (case ngram_scan c N ?k (length c - ?k) of Some r \<Rightarrow> r | None \<Rightarrow> ngram_sweep c N minK j)"
    by (subst ngram_sweep.simps) (simp split: option.split)
  from ngram_scan_all [OF Suc.prems, of N] show ?case
  proof (elim disjE conjE exE)
    assume none: "ngram_scan c N ?k (length c - ?k) = None" and no: "\<forall>q. \<not> ngram_hit c ?k q"
    have split: "k' \<le> minK + Suc j \<longleftrightarrow> k' \<le> minK + j \<or> k' = ?k" for k' by auto
    have "minK + j \<le> length c" using Suc.prems by simp
    note IH = Suc.IH [OF this]
    have eq: "ngram_sweep c N minK (Suc j) = ngram_sweep c N minK j" using none sw by simp
    have "ngram_best c N minK ?k k q r" if "ngram_best c N minK (minK + j) k q r" for k q r
      using that no unfolding ngram_best_def split by blast
    then show ?thesis using IH no unfolding eq split by blast
  next
    fix q assume "ngram_hit c ?k q" "\<forall>q' > q. \<not> ngram_hit c ?k q'"
      "ngram_scan c N ?k (length c - ?k) = Some (ngram_follow c N ?k q)"
    then have "ngram_best c N minK ?k ?k q (ngram_sweep c N minK (Suc j))" using sw by (auto simp: ngram_best_def)
    then show ?thesis by blast
  qed
qed

text \<open>
  The n-gram lookup. With valid parameters, the drafter proposes tokens if and only if some
  suffix of the context, of a length between \<^verbatim>\<open>minK\<close> and \<^verbatim>\<open>maxK\<close>, occurred earlier with at least one token
  in between; it then takes the longest such suffix, its latest occurrence, and proposes the up to
  \<open>N\<close> tokens that followed it there. It never proposes an empty list on a match.
\<close>

theorem ngram_lookup_longest_match:
  assumes "0 < N" "0 < minK" "minK \<le> maxK"
  shows "(\<exists>k q. ngram_best c N minK maxK k q (ngram_lookup c N maxK minK) \<and> ngram_lookup c N maxK minK \<noteq> [])
    \<or> (\<forall>k q. minK \<le> k \<and> k \<le> maxK \<longrightarrow> \<not> ngram_hit c k q) \<and> ngram_lookup c N maxK minK = []"
proof (cases "length c < minK + 1")
  case True
  then show ?thesis by (auto simp: ngram_lookup_def ngram_hit_def)
next
  case False
  let ?top = "min maxK (length c - 1)"
  have big: "\<not> ngram_hit c k q" if "?top < k" "k \<le> maxK" for k q using that by (auto simp: ngram_hit_def)
  have run: "ngram_lookup c N maxK minK = ngram_sweep c N minK (?top - minK)" and eq: "minK + (?top - minK) = ?top"
    using False assms by (auto simp: ngram_lookup_def)
  have ne: "ngram_follow c N k q \<noteq> []" if "ngram_hit c k q" for k q
    using that assms(1) by (auto simp: ngram_follow_def ngram_hit_def)
  have top: "?top \<le> length c" by linarith
  have split: "k \<le> maxK \<Longrightarrow> k \<le> ?top \<or> (\<forall>q. \<not> ngram_hit c k q)" for k using big by (meson not_le)
  from ngram_sweep_spec [of minK "?top - minK" c N, unfolded eq, OF top] show ?thesis
  proof (elim disjE conjE exE)
    fix k q assume best: "ngram_best c N minK ?top k q (ngram_sweep c N minK (?top - minK))"
    then have "ngram_best c N minK maxK k q (ngram_lookup c N maxK minK)"
      using split unfolding ngram_best_def run by (metis min.boundedE)
    moreover have "ngram_lookup c N maxK minK \<noteq> []" using best ne unfolding ngram_best_def run by metis
    ultimately show ?thesis by blast
  next
    assume "\<forall>k q. minK \<le> k \<and> k \<le> ?top \<longrightarrow> \<not> ngram_hit c k q" "ngram_sweep c N minK (?top - minK) = []"
    then show ?thesis using split run by metis
  qed
qed

theorem ngram_lookup_longest_match_witness: "ngram_lookup [5, 6, 7, 8, 5, 6] 2 2 1 = [7, 8]"
proof -
  let ?c = "[5, 6, 7, 8, 5, 6] :: int list"
  have h: "ngram_hit ?c 2 0" by (simp add: ngram_hit_def)
  have no: "\<not> ngram_hit ?c 2 (Suc q)" for q
    by (auto simp: ngram_hit_def numeral_eq_Suc less_Suc_eq)
  have "(1 :: nat) \<le> 2" by simp
  then obtain k q where b: "ngram_best ?c 2 1 2 k q (ngram_lookup ?c 2 2 1)"
    using ngram_lookup_longest_match [of 2 1 2 ?c] h by (metis less_numeral_extra(1) order_refl zero_less_numeral)
  have "\<not> k < 2" using b h by (auto simp: ngram_best_def)
  then have "k = 2" using b by (simp add: ngram_best_def)
  moreover from this have "q = 0" using b no by (cases q) (auto simp: ngram_best_def)
  ultimately show ?thesis using b by (simp add: ngram_best_def ngram_follow_def)
qed


definition toy_engine :: Engine where
  "toy_engine = \<lparr>en_model = (\<lambda>toks. [8, 3, 0]), en_eosId = 9, en_softcap = 0, en_maxContextTokens = 100\<rparr>"

definition toy_params :: "real \<Rightarrow> GenerateParams" where
  "toy_params rep = \<lparr>gp_maxNewTokens = 3, gp_stopIds = [], gp_sampling =
     \<lparr>sp_temperature = 0, sp_topK = 0, sp_logitBias = [], sp_badWords = [], sp_frequencyPenalty = 0,
      sp_presencePenalty = 0, sp_repetitionPenalty = rep, sp_penaltyWindow = 64, sp_finalLogitSoftcap = 0\<rparr>\<rparr>"


definition toy_cfg :: SpecConfig where
  "toy_cfg = \<lparr>sc_enabled = True, sc_draftN = 4\<rparr>"


text \<open>The accept check knows neither logit bias nor bad words, and \<^verbatim>\<open>wouldEngage\<close> does not look at them.\<close>

definition toy_biased :: GenerateParams where
  "toy_biased = (toy_params 1)\<lparr>gp_sampling := (gp_sampling (toy_params 1))\<lparr>sp_logitBias := [(2, 100)]\<rparr>\<rparr>"

lemma speculative_bias_divergence:
  "engine_generate toy_engine toy_biased (\<lambda>_. True) True [0, 1, 2] = Inr [2, 2, 2]"
  "wouldEngage toy_cfg toy_biased"
  "spec_generate toy_engine toy_cfg toy_biased (\<lambda>_. True)
     (ngram_propose \<lparr>ng_maxK = 3, ng_minK = 1\<rparr>) True [0, 1, 2] = Inr [2, 0, 0]"
  by code_simp+

section \<open>Prefix reuse\<close>

lemma lcp_loop_spec:
  "\<exists>n. lcp_loop a b i = i + n \<and> n \<le> length a \<and> n \<le> length b \<and> take n a = take n b
     \<and> (n < length a \<and> n < length b \<longrightarrow> a ! n \<noteq> b ! n)"
proof (induction a b i rule: lcp_loop.induct)
  case (1 a as b bs i)
  show ?case
  proof (cases "a = b")
    case True
    then obtain n where "lcp_loop as bs (Suc i) = Suc i + n" "n \<le> length as" "n \<le> length bs" "take n as = take n bs"
      "n < length as \<and> n < length bs \<longrightarrow> as ! n \<noteq> bs ! n" using 1 by blast
    then show ?thesis using True by (intro exI [of _ "Suc n"]) simp
  qed simp
qed auto

text \<open>
  The prefix length the prefix cache keeps is exact: the first \<^verbatim>\<open>longestCommonPrefix\<close> tokens agree,
  and the next ones, if both sequences have one, differ; so no cached row of a diverging token is
  ever reused and no agreeing row is recomputed.
\<close>

theorem longestCommonPrefix_exact:
  "longestCommonPrefix a b \<le> min (length a) (length b)
   \<and> (\<forall>m. m \<le> min (length a) (length b) \<longrightarrow> (take m a = take m b \<longleftrightarrow> m \<le> longestCommonPrefix a b))"
proof -
  obtain n where n: "longestCommonPrefix a b = n" "n \<le> length a" "n \<le> length b" "take n a = take n b"
    "n < length a \<and> n < length b \<longrightarrow> a ! n \<noteq> b ! n"
    using lcp_loop_spec [of a b 0] by (auto simp: longestCommonPrefix_def)
  have "m \<le> n" if "m \<le> min (length a) (length b)" "take m a = take m b" for m
  proof (rule ccontr)
    assume "\<not> m \<le> n"
    then have "n < m" by simp
    then have "a ! n = b ! n" using that(2) by (metis nth_take)
    then show False using n(5) \<open>n < m\<close> that(1) by auto
  qed
  moreover have "take m a = take m b" if "m \<le> n" for m using n(4) that by (metis min.absorb1 take_take)
  ultimately show ?thesis using n(1-3) by auto
qed

theorem longestCommonPrefix_exact_witness: "longestCommonPrefix [1, 2, 3] [1, 2, 4, 5] = 2 \<and> 2 \<le> min 3 (4 :: nat)"
proof -
  have "longestCommonPrefix [1, 2, 3] [1, 2, 4, 5] = 2" by (simp add: longestCommonPrefix_def)
  then show ?thesis using longestCommonPrefix_exact [of "[1, 2, 3]" "[1, 2, 4, 5]"] by simp
qed

end
