(* ===== verification/ChunkAllocation.thy ===== *)
theory ChunkAllocation
  imports DeviceMemory
begin

unbundle bit_operations_syntax

text \<open>
  The bump allocators of the weight server: \<^verbatim>\<open>ChunkAllocator\<close> over USM (\<^verbatim>\<open>src/munin/ChunkAllocator.{hpp,cpp}\<close>)
  and its shared-memory twin \<^verbatim>\<open>ShmChunkAllocator\<close> (\<^verbatim>\<open>src/munin/ShmChunkAllocator.{hpp,cpp}\<close>). The two classes
  have the same placement code over different chunk kinds; here the placement is one definition over the
  operation that opens a chunk. The locale \<open>chunk_store\<close> is the contract the loaders rely on; both
  allocators are interpretations of it.

  Sizes and offsets are 64-bit words. Whether the driver or the operating system grants another chunk is an
  argument. A descriptor (\<^verbatim>\<open>int\<close>) is the number of the memory object it refers to.
\<close>

section \<open>Placement\<close>

definition kMinChunkBytes :: u64 where
  "kMinChunkBytes = 4096"

definition kDefaultAlignment :: u64 where
  "kDefaultAlignment = 64"

definition alignUp :: "u64 \<Rightarrow> u64 \<Rightarrow> u64" where
  "alignUp value al = (if al \<le> 1 then value else (value + al - 1) AND NOT (al - 1))"

record Layout =
  needsNewChunk :: bool
  lay_offset :: u64

definition layoutInsideChunk :: "u64 \<Rightarrow> u64 \<Rightarrow> u64 \<Rightarrow> u64 \<Rightarrow> Layout" where
  "layoutInsideChunk currentUsed bytes al chunkBytes =
     (let effectiveAlign = (if al < 1 then 1 else al); offset = alignUp currentUsed effectiveAlign
      in if offset + bytes > chunkBytes then \<lparr>needsNewChunk = True, lay_offset = 0\<rparr>
         else \<lparr>needsNewChunk = False, lay_offset = offset\<rparr>)"

section \<open>Allocators\<close>

record Chunk =
  ch_base :: ptr
  ch_used :: u64

record ShmChunk = Chunk +
  ch_memfd :: int

record 'c ChunkAllocator =
  ca_chunkBytes :: u64
  ca_chunks :: "'c list"
  ca_bytesUsed :: u64

record Allocation =
  al_chunkIndex :: u32
  al_chunkOffset :: u64
  al_ptr :: ptr

type_synonym 'c chunk_state = "'c ChunkAllocator \<times> device"

definition check_chunkBytes :: "string \<Rightarrow> u64 \<Rightarrow> unit result" where
  "check_chunkBytes cls chunkBytes =
     (if chunkBytes < kMinChunkBytes then Inl (RuntimeError (cls @ '': chunkBytes must be at least 4096''))
      else if chunkBytes mod kMinChunkBytes \<noteq> 0 then Inl (RuntimeError (cls @ '': chunkBytes must be a multiple of 4096''))
      else Inr ())"

definition newChunkAllocator :: "u64 \<Rightarrow> Chunk ChunkAllocator result" where
  "newChunkAllocator chunkBytes = bind_result (check_chunkBytes ''ChunkAllocator'' chunkBytes)
     (\<lambda>_. Inr \<lparr>ca_chunkBytes = chunkBytes, ca_chunks = [], ca_bytesUsed = 0\<rparr>)"

definition newShmChunkAllocator :: "u64 \<Rightarrow> ShmChunk ChunkAllocator result" where
  "newShmChunkAllocator chunkBytes = bind_result (check_chunkBytes ''ShmChunkAllocator'' chunkBytes)
     (\<lambda>_. Inr \<lparr>ca_chunkBytes = chunkBytes, ca_chunks = [], ca_bytesUsed = 0\<rparr>)"

definition openChunk :: "(device \<Rightarrow> bool) \<Rightarrow> Chunk chunk_state \<Rightarrow> Chunk chunk_state result" where
  "openChunk grants s =
     (let (a, d) = s
      in if \<not> grants d then Inl (RuntimeError ''ChunkAllocator: zeMemAllocHost'')
         else let (base, d') = device_alloc (unat (ca_chunkBytes a)) d
              in Inr (a\<lparr>ca_chunks := ca_chunks a @ [\<lparr>ch_base = base, ch_used = 0\<rparr>]\<rparr>, d'))"

definition shm_openChunk :: "(device \<Rightarrow> bool) \<Rightarrow> ShmChunk chunk_state \<Rightarrow> ShmChunk chunk_state result" where
  "shm_openChunk grants s =
     (let (a, d) = s
      in if \<not> grants d then Inl (RuntimeError ''ShmChunkAllocator: memfd_create, ftruncate or mmap failed'')
         else let (base, d') = device_alloc (unat (ca_chunkBytes a)) d
              in Inr (a\<lparr>ca_chunks := ca_chunks a @ [\<lparr>ch_base = base, ch_used = 0, ch_memfd = int (length d)\<rparr>]\<rparr>, d'))"

definition place :: "u64 \<Rightarrow> u64 \<Rightarrow> 'z Chunk_scheme ChunkAllocator \<Rightarrow> Layout" where
  "place bytes al a = layoutInsideChunk (ch_used (last (ca_chunks a))) bytes al (ca_chunkBytes a)"

definition commit_alloc :: "u64 \<Rightarrow> u64 \<Rightarrow> 'z Chunk_scheme chunk_state \<Rightarrow> 'z Chunk_scheme chunk_state \<times> Allocation" where
  "commit_alloc bytes offset s =
     (let (a, d) = s; cur = last (ca_chunks a)
      in ((a\<lparr>ca_chunks := butlast (ca_chunks a) @ [cur\<lparr>ch_used := offset + bytes\<rparr>], ca_bytesUsed := ca_bytesUsed a + bytes\<rparr>, d),
          \<lparr>al_chunkIndex = word_of_nat (length (ca_chunks a) - 1), al_chunkOffset = offset, al_ptr = ptr_add (ch_base cur) (unat offset)\<rparr>))"

definition bump_allocate ::
  "string \<Rightarrow> ('z Chunk_scheme chunk_state \<Rightarrow> 'z Chunk_scheme chunk_state result) \<Rightarrow> u64 \<Rightarrow> u64
    \<Rightarrow> 'z Chunk_scheme chunk_state \<Rightarrow> ('z Chunk_scheme chunk_state \<times> Allocation) result" where
  "bump_allocate cls opn bytes al s =
     (if bytes = 0 then Inl (RuntimeError (cls @ ''::allocate: bytes == 0''))
      else if bytes > ca_chunkBytes (fst s) then Inl (RuntimeError (cls @ ''::allocate: request exceeds chunkBytes''))
      else let effectiveAlign = (if al < 1 then kDefaultAlignment else al)
           in bind_result (if ca_chunks (fst s) = [] then opn s else Inr s) (\<lambda>s1.
                if needsNewChunk (place bytes effectiveAlign (fst s1))
                then bind_result (opn s1) (\<lambda>s2.
                       if needsNewChunk (place bytes effectiveAlign (fst s2))
                       then Inl (RuntimeError (cls @ '': fresh chunk cannot fit request''))
                       else Inr (commit_alloc bytes (lay_offset (place bytes effectiveAlign (fst s2))) s2))
                else Inr (commit_alloc bytes (lay_offset (place bytes effectiveAlign (fst s1))) s1)))"

definition chunk_allocate ::
  "(device \<Rightarrow> bool) \<Rightarrow> u64 \<Rightarrow> u64 \<Rightarrow> Chunk chunk_state \<Rightarrow> (Chunk chunk_state \<times> Allocation) result" where
  "chunk_allocate grants = bump_allocate ''ChunkAllocator'' (openChunk grants)"

definition shm_allocate ::
  "(device \<Rightarrow> bool) \<Rightarrow> u64 \<Rightarrow> u64 \<Rightarrow> ShmChunk chunk_state \<Rightarrow> (ShmChunk chunk_state \<times> Allocation) result" where
  "shm_allocate grants = bump_allocate ''ShmChunkAllocator'' (shm_openChunk grants)"

definition chunkCount :: "'c ChunkAllocator \<Rightarrow> nat" where
  "chunkCount a = length (ca_chunks a)"

definition chunkBase :: "'z Chunk_scheme ChunkAllocator \<Rightarrow> nat \<Rightarrow> ptr" where
  "chunkBase a index = (if index < length (ca_chunks a) then ch_base (ca_chunks a ! index) else NullPtr)"

definition chunkUsedBytes :: "'z Chunk_scheme ChunkAllocator \<Rightarrow> nat \<Rightarrow> u64" where
  "chunkUsedBytes a index = (if index < length (ca_chunks a) then ch_used (ca_chunks a ! index) else 0)"

definition chunkMemfd :: "ShmChunk ChunkAllocator \<Rightarrow> nat \<Rightarrow> int" where
  "chunkMemfd a index = (if index < length (ca_chunks a) then ch_memfd (ca_chunks a ! index) else -1)"

definition chunkMemfds :: "ShmChunk ChunkAllocator \<Rightarrow> int list" where
  "chunkMemfds a = map ch_memfd (ca_chunks a)"

definition chunkMapBytes :: "ShmChunk ChunkAllocator \<Rightarrow> u64 list" where
  "chunkMapBytes a = map (\<lambda>_. ca_chunkBytes a) (ca_chunks a)"

section \<open>The mask computes the next multiple\<close>

lemma and_not_mask: "(w :: u64) AND NOT (mask k) = push_bit k (drop_bit k w)"
  by (rule bit_eqI) (auto simp: bit_simps)

lemma unat_lt64: "unat (w :: u64) < 2 ^ 64"
  using unsigned_less [of w, where ?'a = nat] by simp

lemma unat_push_drop: "k < 64 \<Longrightarrow> unat (push_bit k (drop_bit k (w :: u64))) = unat w div 2 ^ k * 2 ^ k"
proof -
  assume k: "k < 64"
  have "unat w div 2 ^ k * 2 ^ k \<le> unat w" by (rule div_times_less_eq_dividend)
  also have "unat w < 2 ^ 64" by (rule unat_lt64)
  finally have lt: "unat w div 2 ^ k * 2 ^ k < 2 ^ 64" .
  have "take_bit 64 (unat w) = unat w" by (rule take_bit_nat_eq_self) (rule unat_lt64)
  then have "unat (push_bit k (drop_bit k w)) = take_bit 64 (push_bit k (drop_bit k (unat w)))"
    by (simp add: unsigned_push_bit_eq unsigned_drop_bit_eq)
  also have "\<dots> = unat w div 2 ^ k * 2 ^ k"
    using lt by (simp add: push_bit_eq_mult drop_bit_eq_div take_bit_eq_mod)
  finally show ?thesis .
qed

lemma unat_pow2:
  assumes "k < 64"
  shows "unat (2 ^ k :: u64) = 2 ^ k"
proof -
  have "unat (word_of_nat (2 ^ k) :: u64) = 2 ^ k" unfolding unsigned_of_nat using assms by simp
  then show ?thesis by simp
qed

lemma unat_add_exact: "unat (v :: u64) + unat w < 2 ^ 64 \<Longrightarrow> unat (v + w) = unat v + unat w"
  by (simp add: unat_word_ariths)

lemma alignUp_pow2:
  assumes "k < 64" "unat v + 2 ^ k \<le> 2 ^ 64"
  shows "unat (alignUp v (2 ^ k)) = (unat v + 2 ^ k - 1) div 2 ^ k * 2 ^ k"
proof (cases "k = 0")
  case True
  then show ?thesis by (simp add: alignUp_def)
next
  case False
  note p = unat_pow2 [OF assms(1)]
  have two: "2 \<le> (2 :: nat) ^ k" using False power_increasing [of 1 k "2 :: nat"] by simp
  then have "\<not> (2 ^ k :: u64) \<le> 1" using p by (simp add: word_le_nat_alt)
  moreover have "(2 ^ k :: u64) - 1 = mask k" by (simp add: mask_eq_exp_minus_1)
  ultimately have al: "alignUp v (2 ^ k) = push_bit k (drop_bit k (v + (2 ^ k - 1)))"
    unfolding alignUp_def add_diff_eq [symmetric] by (simp only: if_False and_not_mask)
  have m: "unat (2 ^ k - 1 :: u64) = 2 ^ k - 1" using p two assms(1) by (subst unat_minus_one) auto
  have "unat (v + (2 ^ k - 1)) = unat v + 2 ^ k - 1" using m assms(2) two by (subst unat_add_exact) simp_all
  then show ?thesis unfolding al using assms(1) by (simp add: unat_push_drop)
qed

lemma round_up_bounds:
  fixes n m :: nat
  assumes "0 < m"
  shows "n \<le> (n + m - 1) div m * m" "(n + m - 1) div m * m < n + m" "m dvd (n + m - 1) div m * m"
proof -
  have "(n + m - 1) div m * m = n + m - 1 - (n + m - 1) mod m" by (simp add: minus_mod_eq_div_mult)
  moreover have "(n + m - 1) mod m < m" using assms by simp
  ultimately show "n \<le> (n + m - 1) div m * m" "(n + m - 1) div m * m < n + m" using assms by linarith+
qed simp

section \<open>The allocator invariant\<close>

text \<open>
  Every chunk is an allocation of its own of \<open>chunkBytes\<close> bytes, filled from the front. The bound on the
  chunk size is far above any memory; it keeps the placement arithmetic from wrapping.
\<close>

definition chunk_ok :: "'z Chunk_scheme chunk_state \<Rightarrow> 'z Chunk_scheme \<Rightarrow> bool" where
  "chunk_ok s c = (case ch_base c of NullPtr \<Rightarrow> False
     | Ptr b off \<Rightarrow> off = 0 \<and> b < length (snd s) \<and> snd s ! b = unat (ca_chunkBytes (fst s)) \<and> ch_used c \<le> ca_chunkBytes (fst s))"

definition chunks_inv :: "'z Chunk_scheme chunk_state \<Rightarrow> bool" where
  "chunks_inv s \<longleftrightarrow> unat (ca_chunkBytes (fst s)) < 2 ^ 62 \<and> list_all (chunk_ok s) (ca_chunks (fst s)) \<and> distinct (map ch_base (ca_chunks (fst s)))"

definition chunk_bases :: "'z Chunk_scheme chunk_state \<Rightarrow> ptr list" where
  "chunk_bases s = map ch_base (ca_chunks (fst s))"

definition chunk_used :: "'z Chunk_scheme chunk_state \<Rightarrow> nat \<Rightarrow> nat" where
  "chunk_used s i = unat (chunkUsedBytes (fst s) i)"

text \<open>Opening a chunk: what both kinds have in common.\<close>

definition opens_chunk :: "('z Chunk_scheme chunk_state \<Rightarrow> 'z Chunk_scheme chunk_state result) \<Rightarrow> bool" where
  "opens_chunk opn \<longleftrightarrow> (\<forall>s s'. opn s = Inr s' \<longrightarrow>
     (\<exists>c. fst s' = (fst s)\<lparr>ca_chunks := ca_chunks (fst s) @ [c]\<rparr> \<and> snd s' = snd s @ [unat (ca_chunkBytes (fst s))]
        \<and> ch_base c = Ptr (length (snd s)) 0 \<and> ch_used c = 0))"

lemma opens_openChunk: "opens_chunk (openChunk grants)"
  and opens_shm_openChunk: "opens_chunk (shm_openChunk grants)"
  by (auto simp: opens_chunk_def openChunk_def shm_openChunk_def device_alloc_def Let_def split: if_splits)

lemma opens_chunkD:
  assumes "opens_chunk opn" "opn s = Inr s'"
  obtains c where "fst s' = (fst s)\<lparr>ca_chunks := ca_chunks (fst s) @ [c]\<rparr>" "snd s' = snd s @ [unat (ca_chunkBytes (fst s))]"
    "ch_base c = Ptr (length (snd s)) 0" "ch_used c = 0"
  using assms unfolding opens_chunk_def by blast

lemma open_step:
  assumes "opens_chunk opn" "opn s = Inr s'" "chunks_inv s"
  shows "chunks_inv s'" "\<exists>c. ca_chunks (fst s') = ca_chunks (fst s) @ [c] \<and> ch_used c = 0"
    "ca_chunkBytes (fst s') = ca_chunkBytes (fst s)"
    "\<forall>i. chunk_used s' i = chunk_used s i" "\<exists>p. chunk_bases s' = chunk_bases s @ [p]"
proof -
  obtain c where c: "fst s' = (fst s)\<lparr>ca_chunks := ca_chunks (fst s) @ [c]\<rparr>" "snd s' = snd s @ [unat (ca_chunkBytes (fst s))]"
    "ch_base c = Ptr (length (snd s)) 0" "ch_used c = 0"
    by (rule opens_chunkD [OF assms(1,2)])
  have old: "chunk_ok s' x" "ch_base x \<noteq> ch_base c" if "x \<in> set (ca_chunks (fst s))" for x
    using assms(3) that c by (auto simp: chunks_inv_def list_all_iff chunk_ok_def nth_append split: ptr.splits)
  have "chunk_ok s' c" using c by (simp add: chunk_ok_def)
  moreover have "ch_base c \<notin> set (map ch_base (ca_chunks (fst s)))" using old(2) by force
  ultimately show "chunks_inv s'" using assms(3) old(1) c(1) by (simp add: chunks_inv_def list_all_iff)
  show "\<exists>c. ca_chunks (fst s') = ca_chunks (fst s) @ [c] \<and> ch_used c = 0" using c by auto
  show "ca_chunkBytes (fst s') = ca_chunkBytes (fst s)" using c by simp
  show "\<forall>i. chunk_used s' i = chunk_used s i" using c by (auto simp: chunk_used_def chunkUsedBytes_def nth_append)
  show "\<exists>p. chunk_bases s' = chunk_bases s @ [p]" using c by (simp add: chunk_bases_def)
qed

lemma place_fits:
  assumes "chunks_inv s" "ca_chunks (fst s) \<noteq> []" "k < 62" "bytes \<le> ca_chunkBytes (fst s)"
  shows "let used = unat (ch_used (last (ca_chunks (fst s)))); off = (used + 2 ^ k - 1) div 2 ^ k * 2 ^ k
         in if off + unat bytes > unat (ca_chunkBytes (fst s)) then needsNewChunk (place bytes (2 ^ k) (fst s))
            else \<not> needsNewChunk (place bytes (2 ^ k) (fst s)) \<and> unat (lay_offset (place bytes (2 ^ k) (fst s))) = off"
proof -
  let ?c = "last (ca_chunks (fst s))" and ?B = "ca_chunkBytes (fst s)"
  let ?off = "(unat (ch_used ?c) + 2 ^ k - 1) div 2 ^ k * 2 ^ k"
  have B: "unat ?B < 2 ^ 62" and "chunk_ok s ?c" using assms(1,2) by (auto simp: chunks_inv_def list_all_iff)
  then have u: "unat (ch_used ?c) < 2 ^ 62" by (auto simp: chunk_ok_def word_le_nat_alt split: ptr.splits)
  have k: "(2 :: nat) ^ k < 2 ^ 62" using assms(3) by (rule power_strict_increasing) simp
  have al: "unat (alignUp (ch_used ?c) (2 ^ k)) = ?off" using assms(3) u k by (intro alignUp_pow2) simp_all
  have off: "?off < 2 ^ 63" using round_up_bounds(2) [of "2 ^ k" "unat (ch_used ?c)"] u k by simp
  have "unat bytes < 2 ^ 62" using assms(4) B by (simp add: word_le_nat_alt)
  then have sum: "unat (alignUp (ch_used ?c) (2 ^ k) + bytes) = ?off + unat bytes"
    using off al by (subst unat_add_exact) simp_all
  have "\<not> (2 ^ k :: u64) < 1" using assms(3) unat_pow2 [of k] by (simp add: word_less_nat_alt)
  then have pl: "place bytes (2 ^ k) (fst s) = (if ?off + unat bytes > unat ?B then \<lparr>needsNewChunk = True, lay_offset = 0\<rparr>
      else \<lparr>needsNewChunk = False, lay_offset = alignUp (ch_used ?c) (2 ^ k)\<rparr>)"
    unfolding place_def layoutInsideChunk_def Let_def by (simp only: if_False word_less_nat_alt sum)
  show ?thesis unfolding Let_def pl using al by simp
qed

lemma place_fresh:
  assumes "chunks_inv s" "ca_chunks (fst s) \<noteq> []" "k < 62" "bytes \<le> ca_chunkBytes (fst s)" "ch_used (last (ca_chunks (fst s))) = 0"
  shows "\<not> needsNewChunk (place bytes (2 ^ k) (fst s))"
proof -
  have "(0 + 2 ^ k - 1) div 2 ^ k = (0 :: nat)" by simp
  then show ?thesis using place_fits [OF assms(1-4)] assms(4,5) by (simp add: word_le_nat_alt)
qed

lemma commit_step:
  assumes "chunks_inv s" "ca_chunks (fst s) \<noteq> []" "k < 62" "bytes \<le> ca_chunkBytes (fst s)"
    "\<not> needsNewChunk (place bytes (2 ^ k) (fst s))" "commit_alloc bytes (lay_offset (place bytes (2 ^ k) (fst s))) s = (s', a)"
  defines "i \<equiv> length (ca_chunks (fst s)) - 1"
  shows "chunks_inv s'" "chunk_bases s' = chunk_bases s" "al_chunkIndex a = word_of_nat i"
    "al_ptr a = ptr_add (chunk_bases s ! i) (unat (al_chunkOffset a))"
    "chunk_used s i \<le> unat (al_chunkOffset a)" "chunk_used s' i = unat (al_chunkOffset a) + unat bytes"
    "j \<noteq> i \<Longrightarrow> chunk_used s' j = chunk_used s j" "2 ^ k dvd unat (al_chunkOffset a)" "ca_chunkBytes (fst s') = ca_chunkBytes (fst s)"
proof -
  let ?cs = "ca_chunks (fst s)" and ?c = "last (ca_chunks (fst s))" and ?off = "lay_offset (place bytes (2 ^ k) (fst s))"
  have off: "unat ?off = (unat (ch_used ?c) + 2 ^ k - 1) div 2 ^ k * 2 ^ k" "unat ?off + unat bytes \<le> unat (ca_chunkBytes (fst s))"
    using place_fits [OF assms(1-4)] assms(5) by (auto simp: Let_def split: if_splits)
  have B: "unat (ca_chunkBytes (fst s)) < 2 ^ 62" using assms(1) by (simp add: chunks_inv_def)
  have sum: "unat (?off + bytes) = unat ?off + unat bytes" using off(2) B by (intro unat_add_exact) simp
  have s': "fst s' = (fst s)\<lparr>ca_chunks := butlast ?cs @ [?c\<lparr>ch_used := ?off + bytes\<rparr>], ca_bytesUsed := ca_bytesUsed (fst s) + bytes\<rparr>"
    "snd s' = snd s" and a: "a = \<lparr>al_chunkIndex = word_of_nat i, al_chunkOffset = ?off, al_ptr = ptr_add (ch_base ?c) (unat ?off)\<rparr>"
    using assms(6) by (auto simp: commit_alloc_def Let_def i_def split: prod.splits)
  have split: "?cs = butlast ?cs @ [?c]" using assms(2) by simp
  have "map ch_base ?cs = map ch_base (butlast ?cs @ [?c])" by (simp only: split [symmetric])
  then have bases: "map ch_base (ca_chunks (fst s')) = map ch_base ?cs" using s' by simp
  then show "chunk_bases s' = chunk_bases s" by (simp add: chunk_bases_def)
  have "chunk_ok s' x" if "x \<in> set (ca_chunks (fst s'))" for x
  proof -
    have old: "chunk_ok s y" if "y \<in> set ?cs" for y using assms(1) that by (simp add: chunks_inv_def list_all_iff)
    have "x \<in> set (butlast ?cs) \<or> x = ?c\<lparr>ch_used := ?off + bytes\<rparr>" using that s' by auto
    then show ?thesis
      using old [of x] old [of ?c] in_set_butlastD [of x ?cs] assms(2) s' off(2) sum
      by (auto simp: chunk_ok_def word_le_nat_alt split: ptr.splits)
  qed
  then show "chunks_inv s'" using assms(1) bases s' by (simp add: chunks_inv_def list_all_iff)
  have i: "i < length ?cs" "?cs ! i = ?c" using assms(2) by (simp_all add: i_def last_conv_nth)
  show "al_chunkIndex a = word_of_nat i" by (simp add: a)
  show "al_ptr a = ptr_add (chunk_bases s ! i) (unat (al_chunkOffset a))" using i by (simp add: a chunk_bases_def)
  have len: "length (ca_chunks (fst s')) = length ?cs" using s' assms(2) by simp
  show "chunk_used s i \<le> unat (al_chunkOffset a)"
    using i off(1) round_up_bounds(1) [of "2 ^ k" "unat (ch_used ?c)"] by (simp add: a chunk_used_def chunkUsedBytes_def)
  have "ca_chunks (fst s') ! i = ?c\<lparr>ch_used := ?off + bytes\<rparr>" using s' assms(2) by (simp add: i_def nth_append)
  then show "chunk_used s' i = unat (al_chunkOffset a) + unat bytes"
    using i len sum by (simp add: a chunk_used_def chunkUsedBytes_def)
  show "chunk_used s' j = chunk_used s j" if "j \<noteq> i" for j
  proof (cases "j < length ?cs")
    case True
    then have "j < length (butlast ?cs)" using that i_def by auto
    then have "ca_chunks (fst s') ! j = ?cs ! j" using s' by (simp add: nth_append nth_butlast)
    then show ?thesis using True len by (simp add: chunk_used_def chunkUsedBytes_def)
  qed (simp add: chunk_used_def chunkUsedBytes_def len)
  show "2 ^ k dvd unat (al_chunkOffset a)" using off(1) by (simp add: a)
  show "ca_chunkBytes (fst s') = ca_chunkBytes (fst s)" using s' by simp
qed

lemma bump_allocate_cases:
  assumes "bump_allocate cls opn bytes al s = Inr (s', a)" "\<not> al < 1"
  obtains s1 s2 where "0 < bytes" "bytes \<le> ca_chunkBytes (fst s)" "(if ca_chunks (fst s) = [] then opn s else Inr s) = Inr s1"
    "(if needsNewChunk (place bytes al (fst s1)) then opn s1 else Inr s1) = Inr s2"
    "\<not> needsNewChunk (place bytes al (fst s2))" "commit_alloc bytes (lay_offset (place bytes al (fst s2))) s2 = (s', a)"
proof -
  note run = assms(1) [unfolded bump_allocate_def Let_def if_not_P [OF assms(2)]]
  have b: "bytes \<noteq> 0" "\<not> ca_chunkBytes (fst s) < bytes" using run by (auto split: if_splits)
  then obtain s1 where s1: "(if ca_chunks (fst s) = [] then opn s else Inr s) = Inr s1"
    and rest: "(if needsNewChunk (place bytes al (fst s1))
                then bind_result (opn s1) (\<lambda>s2.
                       if needsNewChunk (place bytes al (fst s2))
                       then Inl (RuntimeError (cls @ '': fresh chunk cannot fit request''))
                       else Inr (commit_alloc bytes (lay_offset (place bytes al (fst s2))) s2))
                else Inr (commit_alloc bytes (lay_offset (place bytes al (fst s1))) s1)) = Inr (s', a)"
    using run unfolding if_not_P [OF b(1)] if_not_P [OF b(2)] bind_result_eq_Inr by blast
  obtain s2 where "(if needsNewChunk (place bytes al (fst s1)) then opn s1 else Inr s1) = Inr s2"
    "\<not> needsNewChunk (place bytes al (fst s2))" "commit_alloc bytes (lay_offset (place bytes al (fst s2))) s2 = (s', a)"
  proof (cases "needsNewChunk (place bytes al (fst s1))")
    case True
    then obtain s2 where "opn s1 = Inr s2" and c: "(if needsNewChunk (place bytes al (fst s2))
                       then Inl (RuntimeError (cls @ '': fresh chunk cannot fit request''))
                       else Inr (commit_alloc bytes (lay_offset (place bytes al (fst s2))) s2)) = Inr (s', a)"
      using rest unfolding if_P [OF True] bind_result_eq_Inr by blast
    then show thesis using that [of s2] True by (cases "needsNewChunk (place bytes al (fst s2))") auto
  next
    case False
    then show thesis using that [of s1] rest by simp
  qed
  then show thesis using that [of s1 s2] b s1 by (simp add: word_neq_0_conv [symmetric])
qed

lemma bump_allocate_step:
  assumes "opens_chunk opn" "chunks_inv s" "k < 62" "bump_allocate cls opn bytes (2 ^ k) s = Inr (s', a)"
  shows "chunks_inv s' \<and> (\<exists>ps. chunk_bases s' = chunk_bases s @ ps) \<and> chunk_bases s' \<noteq> []
    \<and> al_chunkIndex a = word_of_nat (length (chunk_bases s') - 1)
    \<and> al_ptr a = ptr_add (chunk_bases s' ! (length (chunk_bases s') - 1)) (unat (al_chunkOffset a))
    \<and> chunk_used s (length (chunk_bases s') - 1) \<le> unat (al_chunkOffset a)
    \<and> chunk_used s' (length (chunk_bases s') - 1) = unat (al_chunkOffset a) + unat bytes
    \<and> (\<forall>j. j \<noteq> length (chunk_bases s') - 1 \<longrightarrow> chunk_used s' j = chunk_used s j) \<and> 2 ^ k dvd unat (al_chunkOffset a)"
proof -
  have "\<not> (2 ^ k :: u64) < 1" using assms(3) unat_pow2 [of k] by (simp add: word_less_nat_alt)
  from bump_allocate_cases [OF assms(4) this] obtain s1 s2 where st: "bytes \<le> ca_chunkBytes (fst s)"
    "(if ca_chunks (fst s) = [] then opn s else Inr s) = Inr s1"
    "(if needsNewChunk (place bytes (2 ^ k) (fst s1)) then opn s1 else Inr s1) = Inr s2"
    "\<not> needsNewChunk (place bytes (2 ^ k) (fst s2))" "commit_alloc bytes (lay_offset (place bytes (2 ^ k) (fst s2))) s2 = (s', a)"
    by metis
  have opt: "chunks_inv y \<and> (\<exists>ps. chunk_bases y = chunk_bases x @ ps) \<and> (\<forall>i. chunk_used y i = chunk_used x i)
      \<and> ca_chunkBytes (fst y) = ca_chunkBytes (fst x) \<and> (b \<or> ca_chunks (fst x) \<noteq> [] \<longrightarrow> ca_chunks (fst y) \<noteq> [])"
    if "(if b then opn x else Inr x) = Inr y" "chunks_inv x" for b x y
    using that open_step [OF assms(1), of x y] by (cases b) auto
  have s1: "chunks_inv s1 \<and> (\<exists>ps. chunk_bases s1 = chunk_bases s @ ps) \<and> (\<forall>i. chunk_used s1 i = chunk_used s i)
      \<and> ca_chunkBytes (fst s1) = ca_chunkBytes (fst s) \<and> ca_chunks (fst s1) \<noteq> []"
    using opt [OF st(2) assms(2)] by auto
  then have s2: "chunks_inv s2 \<and> (\<exists>ps. chunk_bases s2 = chunk_bases s @ ps) \<and> (\<forall>i. chunk_used s2 i = chunk_used s i)
      \<and> ca_chunkBytes (fst s2) = ca_chunkBytes (fst s) \<and> ca_chunks (fst s2) \<noteq> []"
    using opt [OF st(3)] by auto
  then have b: "bytes \<le> ca_chunkBytes (fst s2)" using st(1) by simp
  have "length (ca_chunks (fst s2)) = length (chunk_bases s2)" by (simp add: chunk_bases_def)
  moreover have "chunk_bases s2 \<noteq> []" using s2 by (simp add: chunk_bases_def)
  ultimately show ?thesis
    using commit_step [OF _ _ assms(3) b st(4,5)] s2 by simp
qed

lemma bump_allocate_chunkBytes:
  assumes "opens_chunk opn" "chunks_inv s" "k < 62" "bump_allocate cls opn bytes (2 ^ k) s = Inr (s', a)"
  shows "ca_chunkBytes (fst s') = ca_chunkBytes (fst s)"
proof -
  have "\<not> (2 ^ k :: u64) < 1" using assms(3) unat_pow2 [of k] by (simp add: word_less_nat_alt)
  from bump_allocate_cases [OF assms(4) this] obtain s1 s2 where
    "(if ca_chunks (fst s) = [] then opn s else Inr s) = Inr s1"
    "(if needsNewChunk (place bytes (2 ^ k) (fst s1)) then opn s1 else Inr s1) = Inr s2"
    and c: "commit_alloc bytes (lay_offset (place bytes (2 ^ k) (fst s2))) s2 = (s', a)"
    by metis
  moreover have "ca_chunkBytes (fst y) = ca_chunkBytes (fst x)" if "(if b then opn x else Inr x) = Inr y" for b x y
    using that opens_chunkD [OF assms(1), of x y] by (cases b) force+
  moreover have "ca_chunkBytes (fst s') = ca_chunkBytes (fst s2)" using c by (auto simp: commit_alloc_def Let_def split: prod.splits)
  ultimately show ?thesis by metis
qed

lemma bump_allocate_total:
  assumes "opens_chunk opn" "chunks_inv s" "k < 62" "0 < bytes" "bytes \<le> ca_chunkBytes (fst s)" "\<And>s. is_ok (opn s)"
  shows "is_ok (bump_allocate cls opn bytes (2 ^ k) s)"
proof -
  have k: "\<not> (2 ^ k :: u64) < 1" using assms(3) unat_pow2 [of k] by (simp add: word_less_nat_alt)
  obtain s1 where s1: "(if ca_chunks (fst s) = [] then opn s else Inr s) = Inr s1"
    using assms(6) [of s] unfolding is_ok_def by (metis sum.case(1) sum.exhaust)
  have o1: "chunks_inv s1" "ca_chunkBytes (fst s1) = ca_chunkBytes (fst s)" "ca_chunks (fst s1) \<noteq> []"
    using s1 assms(2) open_step [OF assms(1), of s s1] by (auto split: if_splits)
  obtain s2 where s2: "opn s1 = Inr s2" using assms(6) [of s1] by (cases "opn s1") auto
  have o2: "chunks_inv s2" "ca_chunkBytes (fst s2) = ca_chunkBytes (fst s)" "ca_chunks (fst s2) \<noteq> []" "ch_used (last (ca_chunks (fst s2))) = 0"
    using open_step [OF assms(1) s2 o1(1)] o1 by auto
  have "\<not> needsNewChunk (place bytes (2 ^ k) (fst s2))"
    using place_fresh [OF o2(1,3) assms(3) _ o2(4)] assms(5) o2(2) by simp
  moreover have "bytes \<noteq> 0" "\<not> ca_chunkBytes (fst s) < bytes" using assms(4,5) by auto
  ultimately show ?thesis using s1 s2 k unfolding bump_allocate_def Let_def by simp
qed

section \<open>The contract of a chunk store\<close>

definition placed :: "ptr list \<Rightarrow> (nat \<Rightarrow> nat) \<Rightarrow> ptr \<Rightarrow> nat \<Rightarrow> bool" where
  "placed bs u p n \<longleftrightarrow> (\<exists>i b off. i < length bs \<and> bs ! i = Ptr b 0 \<and> p = Ptr b off \<and> off + n \<le> u i)"

text \<open>A run of allocations, as the loaders make them, and the ranges it hands out.\<close>

fun alloc_all :: "(u64 \<Rightarrow> 's \<Rightarrow> ('s \<times> Allocation) result) \<Rightarrow> u64 list \<Rightarrow> 's \<Rightarrow> ('s \<times> Allocation list) result" where
  "alloc_all alloc [] s = Inr (s, [])"
| "alloc_all alloc (n # ns) s = bind_result (alloc n s) (\<lambda>(s1, a). bind_result (alloc_all alloc ns s1) (\<lambda>(s2, as). Inr (s2, a # as)))"

definition ranges :: "u64 list \<Rightarrow> Allocation list \<Rightarrow> (ptr \<times> nat) list" where
  "ranges ns as = zip (map al_ptr as) (map unat ns)"

locale chunk_store =
  fixes alloc :: "u64 \<Rightarrow> 's \<Rightarrow> ('s \<times> Allocation) result"
    and inv :: "'s \<Rightarrow> bool"
    and bases :: "'s \<Rightarrow> ptr list"
    and used :: "'s \<Rightarrow> nat \<Rightarrow> nat"
  assumes inv_alloc: "\<lbrakk>inv s; alloc n s = Inr (s', a)\<rbrakk> \<Longrightarrow> inv s'"
    and bases_alloc: "\<lbrakk>inv s; alloc n s = Inr (s', a)\<rbrakk> \<Longrightarrow> \<exists>ps. bases s' = bases s @ ps"
    and index_alloc: "\<lbrakk>inv s; alloc n s = Inr (s', a)\<rbrakk> \<Longrightarrow> bases s' \<noteq> [] \<and> al_chunkIndex a = word_of_nat (length (bases s') - 1)
          \<and> al_ptr a = ptr_add (last (bases s')) (unat (al_chunkOffset a))"
    and used_alloc: "\<lbrakk>inv s; alloc n s = Inr (s', a)\<rbrakk> \<Longrightarrow> used s (length (bases s') - 1) \<le> unat (al_chunkOffset a)
          \<and> used s' (length (bases s') - 1) = unat (al_chunkOffset a) + unat n"
    and used_other: "\<lbrakk>inv s; alloc n s = Inr (s', a); j \<noteq> length (bases s') - 1\<rbrakk> \<Longrightarrow> used s' j = used s j"
    and bases_distinct: "inv s \<Longrightarrow> distinct (bases s)"
    and bases_start: "\<lbrakk>inv s; p \<in> set (bases s)\<rbrakk> \<Longrightarrow> \<exists>b. p = Ptr b 0"
begin

lemma used_mono: "\<lbrakk>inv s; alloc n s = Inr (s', a)\<rbrakk> \<Longrightarrow> used s i \<le> used s' i"
  using used_alloc used_other by (cases "i = length (bases s') - 1") (force, force)

lemma alloc_ptr:
  assumes "inv s" "alloc n s = Inr (s', a)"
  obtains b where "bases s' ! (length (bases s') - 1) = Ptr b 0" "al_ptr a = Ptr b (unat (al_chunkOffset a))"
proof -
  have ne: "bases s' \<noteq> []" using index_alloc [OF assms] by simp
  then obtain b where "last (bases s') = Ptr b 0" using bases_start [OF inv_alloc [OF assms], of "last (bases s')"] by auto
  then show thesis using that index_alloc [OF assms] ne by (simp add: last_conv_nth)
qed

lemma alloc_placed:
  assumes "inv s" "alloc n s = Inr (s', a)"
  shows "placed (bases s') (used s') (al_ptr a) (unat n)"
proof -
  have "length (bases s') - 1 < length (bases s')" using index_alloc [OF assms] by simp
  then show ?thesis using alloc_ptr [OF assms] used_alloc [OF assms] unfolding placed_def by (metis order_refl)
qed

lemma placed_mono:
  assumes "inv s" "alloc n s = Inr (s', a)" "placed (bases s) (used s) p m"
  shows "placed (bases s') (used s') p m"
proof -
  obtain i b off where i: "i < length (bases s)" "bases s ! i = Ptr b 0" "p = Ptr b off" "off + m \<le> used s i"
    using assms(3) by (auto simp: placed_def)
  obtain ps where ps: "bases s' = bases s @ ps" using bases_alloc [OF assms(1,2)] by blast
  have "off + m \<le> used s' i" using i(4) used_mono [OF assms(1,2), of i] by simp
  then show ?thesis using i ps unfolding placed_def by (intro exI [of _ i] exI [of _ b] exI [of _ off]) (simp add: nth_append)
qed

lemma alloc_disjoint:
  assumes "inv s" "alloc n s = Inr (s', a)" "placed (bases s) (used s) p m"
  shows "disjoint_ranges (p, m) (al_ptr a, unat n)"
proof -
  let ?l = "length (bases s') - 1"
  obtain i b off where i: "i < length (bases s)" "bases s ! i = Ptr b 0" "p = Ptr b off" "off + m \<le> used s i"
    using assms(3) by (auto simp: placed_def)
  obtain ps where ps: "bases s' = bases s @ ps" using bases_alloc [OF assms(1,2)] by blast
  obtain b' where b': "bases s' ! ?l = Ptr b' 0" "al_ptr a = Ptr b' (unat (al_chunkOffset a))" by (rule alloc_ptr [OF assms(1,2)])
  have "bases s' ! i = Ptr b 0" "i < length (bases s')" using i ps by (simp_all add: nth_append)
  moreover have "?l < length (bases s')" using index_alloc [OF assms(1,2)] by simp
  ultimately have "b = b' \<Longrightarrow> i = ?l"
    using b'(1) bases_distinct [OF inv_alloc [OF assms(1,2)]] nth_eq_iff_index_eq by fastforce
  then show ?thesis using i b'(2) used_alloc [OF assms(1,2)] by (auto simp: i(3))
qed

lemma alloc_all_ranges:
  assumes "inv s" "alloc_all alloc ns s = Inr (s', as)"
  shows "inv s' \<and> length as = length ns \<and> sorted_wrt disjoint_ranges (ranges ns as)
    \<and> (\<forall>(p, m) \<in> set (ranges ns as). placed (bases s') (used s') p m)
    \<and> (\<forall>p m. placed (bases s) (used s) p m \<longrightarrow> placed (bases s') (used s') p m \<and> (\<forall>r \<in> set (ranges ns as). disjoint_ranges (p, m) r))"
  using assms
proof (induction ns arbitrary: s as)
  case (Cons n ns)
  obtain s1 a as' where a: "alloc n s = Inr (s1, a)" "alloc_all alloc ns s1 = Inr (s', as')" "as = a # as'"
    using Cons.prems(2) by auto
  note IH = Cons.IH [OF inv_alloc [OF Cons.prems(1) a(1)] a(2)]
  have r: "ranges (n # ns) (a # as') = (al_ptr a, unat n) # ranges ns as'" by (simp add: ranges_def)
  show ?case
    using IH alloc_placed [OF Cons.prems(1) a(1)] placed_mono [OF Cons.prems(1) a(1)] alloc_disjoint [OF Cons.prems(1) a(1)]
    unfolding a(3) by (simp add: r)
qed (simp add: ranges_def)

end

lemma chunk_store_bump:
  assumes "opens_chunk opn"
  shows "chunk_store (\<lambda>n. bump_allocate cls opn n kDefaultAlignment) chunks_inv chunk_bases chunk_used"
proof -
  have al: "kDefaultAlignment = 2 ^ 6" by (simp add: kDefaultAlignment_def)
  note step = bump_allocate_step [OF assms, of _ 6, folded al, simplified]
  show ?thesis
  proof (unfold_locales, goal_cases)
    case (1 s n s' a) then show ?case using step by blast
  next
    case (2 s n s' a) then show ?case using step by blast
  next
    case (3 s n s' a) then show ?case using step [OF 3] by (simp add: last_conv_nth)
  next
    case (4 s n s' a) then show ?case using step [OF 4] by simp
  next
    case (5 s n s' a j) then show ?case using step [OF 5(1,2)] by simp
  next
    case (6 s) then show ?case by (simp add: chunks_inv_def chunk_bases_def)
  next
    case (7 s p)
    then obtain c where "p = ch_base c" "chunk_ok s c" by (auto simp: chunks_inv_def chunk_bases_def list_all_iff)
    then show ?case by (cases "ch_base c") (auto simp: chunk_ok_def)
  qed
qed

interpretation l0: chunk_store "\<lambda>n. chunk_allocate grants n kDefaultAlignment" chunks_inv chunk_bases chunk_used for grants
  unfolding chunk_allocate_def by (rule chunk_store_bump) (rule opens_openChunk)

interpretation shm: chunk_store "\<lambda>n. shm_allocate grants n kDefaultAlignment" chunks_inv chunk_bases chunk_used for grants
  unfolding shm_allocate_def by (rule chunk_store_bump) (rule opens_shm_openChunk)

lemma chunks_inv_new:
  "newChunkAllocator cb = Inr a \<Longrightarrow> unat cb < 2 ^ 62 \<Longrightarrow> chunks_inv (a, d)"
  "newShmChunkAllocator cb = Inr a' \<Longrightarrow> unat cb < 2 ^ 62 \<Longrightarrow> chunks_inv (a', d)"
  by (auto simp: newChunkAllocator_def newShmChunkAllocator_def chunks_inv_def)

lemma placed_valid:
  assumes "chunks_inv s" "placed (chunk_bases s) (chunk_used s) p n"
  shows "valid_range (snd s) (p, n)"
proof -
  obtain i b off where i: "i < length (ca_chunks (fst s))" "ch_base (ca_chunks (fst s) ! i) = Ptr b 0" "p = Ptr b off" "off + n \<le> chunk_used s i"
    using assms(2) by (auto simp: placed_def chunk_bases_def)
  have "chunk_ok s (ca_chunks (fst s) ! i)" using assms(1) i(1) by (simp add: chunks_inv_def list_all_length)
  then show ?thesis using i by (auto simp: chunk_ok_def chunk_used_def chunkUsedBytes_def word_le_nat_alt)
qed

lemma alloc_all_total:
  assumes "opens_chunk opn" "\<And>s. is_ok (opn s)" "chunks_inv s" "list_all (\<lambda>n. 0 < n \<and> n \<le> ca_chunkBytes (fst s)) ns"
  shows "is_ok (alloc_all (\<lambda>n. bump_allocate cls opn n (2 ^ 6)) ns s)"
  using assms(3,4)
proof (induction ns arbitrary: s)
  case (Cons n ns)
  have ok: "is_ok (bump_allocate cls opn n (2 ^ 6) s)"
    using bump_allocate_total [OF assms(1) Cons.prems(1), of 6 n] Cons.prems(2) assms(2) by simp
  then obtain s1 a where s1: "bump_allocate cls opn n (2 ^ 6) s = Inr (s1, a)" by (auto simp: is_ok_def split: sum.splits)
  have "chunks_inv s1" using bump_allocate_step [OF assms(1) Cons.prems(1) _ s1] by simp
  moreover have "ca_chunkBytes (fst s1) = ca_chunkBytes (fst s)"
    using bump_allocate_chunkBytes [OF assms(1) Cons.prems(1) _ s1] by simp
  ultimately have "is_ok (alloc_all (\<lambda>n. bump_allocate cls opn n (2 ^ 6)) ns s1)" using Cons by simp
  then show ?case using s1 by (auto simp: is_ok_def split: sum.splits)
qed simp

text \<open>
  C18. The chunk allocators hand out disjoint memory. From a fresh allocator (USM or shared memory), a run of
  requests that each fit a chunk never fails when chunks are granted: the ranges handed out lie inside
  granted allocations and are pairwise disjoint, and each is the base of its chunk plus its recorded offset.
\<close>

theorem chunk_allocations_disjoint:
  assumes "newChunkAllocator cb = Inr a" "newShmChunkAllocator cb = Inr sa" "unat cb < 2 ^ 62"
    "list_all (\<lambda>n. 0 < n \<and> n \<le> cb) ns" "\<And>d. grants d"
  shows "\<exists>a' d' as sa' sd' sas. alloc_all (\<lambda>n. chunk_allocate grants n kDefaultAlignment) ns (a, d) = Inr ((a', d'), as)
    \<and> alloc_all (\<lambda>n. shm_allocate grants n kDefaultAlignment) ns (sa, d) = Inr ((sa', sd'), sas)
    \<and> length as = length ns \<and> sorted_wrt disjoint_ranges (ranges ns as) \<and> list_all (valid_range d') (ranges ns as)
    \<and> length sas = length ns \<and> sorted_wrt disjoint_ranges (ranges ns sas) \<and> list_all (valid_range sd') (ranges ns sas)"
proof -
  have al: "kDefaultAlignment = 2 ^ 6" by (simp add: kDefaultAlignment_def)
  have cb: "ca_chunkBytes a = cb" "ca_chunkBytes sa = cb"
    using assms(1,2) by (auto simp: newChunkAllocator_def newShmChunkAllocator_def)
  note inv = chunks_inv_new(1) [OF assms(1,3), of d] chunks_inv_new(2) [OF assms(2,3), of d]
  have opn: "is_ok (openChunk grants s)" "is_ok (shm_openChunk grants t)" for s t
    using assms(5) by (simp_all add: openChunk_def shm_openChunk_def device_alloc_def split: prod.splits)
  have "is_ok (alloc_all (\<lambda>n. chunk_allocate grants n kDefaultAlignment) ns (a, d))"
    unfolding al chunk_allocate_def
    by (rule alloc_all_total [OF opens_openChunk opn(1) inv(1)]) (use assms(4) cb in simp)
  moreover have "is_ok (alloc_all (\<lambda>n. shm_allocate grants n kDefaultAlignment) ns (sa, d))"
    unfolding al shm_allocate_def
    by (rule alloc_all_total [OF opens_shm_openChunk opn(2) inv(2)]) (use assms(4) cb in simp)
  ultimately obtain s' as t' bs where run: "alloc_all (\<lambda>n. chunk_allocate grants n kDefaultAlignment) ns (a, d) = Inr (s', as)"
    "alloc_all (\<lambda>n. shm_allocate grants n kDefaultAlignment) ns (sa, d) = Inr (t', bs)"
    by (auto simp: is_ok_def split: sum.splits)
  note r1 = l0.alloc_all_ranges [OF inv(1) run(1)] and r2 = shm.alloc_all_ranges [OF inv(2) run(2)]
  have "list_all (valid_range (snd s')) (ranges ns as)" "list_all (valid_range (snd t')) (ranges ns bs)"
    using r1 r2 by (auto simp: list_all_iff intro: placed_valid)
  then show ?thesis using r1 r2 run
    by (intro exI [of _ "fst s'"] exI [of _ "snd s'"] exI [of _ as] exI [of _ "fst t'"] exI [of _ "snd t'"] exI [of _ bs]) simp
qed

theorem chunk_allocations_disjoint_witness:
  "\<exists>a' d' as. alloc_all (\<lambda>n. chunk_allocate (\<lambda>_. True) n kDefaultAlignment) [100, 4000, 8] (\<lparr>ca_chunkBytes = 4096, ca_chunks = [], ca_bytesUsed = 0\<rparr>, [])
     = Inr ((a', d'), as) \<and> length as = 3 \<and> sorted_wrt disjoint_ranges (ranges [100, 4000, 8] as)"
proof -
  have "newChunkAllocator 4096 = Inr \<lparr>ca_chunkBytes = 4096, ca_chunks = [], ca_bytesUsed = 0\<rparr>"
    "newShmChunkAllocator 4096 = Inr \<lparr>ca_chunkBytes = 4096, ca_chunks = [], ca_bytesUsed = 0\<rparr>"
    by (simp_all add: newChunkAllocator_def newShmChunkAllocator_def check_chunkBytes_def kMinChunkBytes_def)
  from chunk_allocations_disjoint [OF this, of "[100, 4000, 8]" "\<lambda>_. True" "[]"] show ?thesis by fastforce
qed

end
