(* ===== verification/BinaryCodec.thy ===== *)
theory BinaryCodec
  imports Prelude
begin

text \<open>
  Little-endian integers and a cursor over a byte span, shared by the file formats. A cursor is the
  byte list and a position; a reader returns its value and the new position, or the exception.
  \<open>reads r x e\<close> says that the reader \<open>r\<close> turns the bytes \<open>e\<close>, wherever they stand in a file, into \<open>x\<close> and
  consumes exactly them; the lemmas compose it along the code.
\<close>

fun le_val :: "u8 list \<Rightarrow> nat" where
  "le_val [] = 0"
| "le_val (b # bs) = unat b + 256 * le_val bs"

fun le_bytes :: "nat \<Rightarrow> nat \<Rightarrow> u8 list" where
  "le_bytes 0 v = []"
| "le_bytes (Suc n) v = word_of_nat v # le_bytes n (v div 256)"

lemma length_le_bytes [simp]: "length (le_bytes n v) = n"
  by (induction n arbitrary: v) simp_all

lemma unat_byte: "unat (word_of_nat v :: u8) = v mod 256"
  by (simp add: unsigned_of_nat take_bit_eq_mod)

lemma le_val_le_bytes: "v < 256 ^ n \<Longrightarrow> le_val (le_bytes n v) = v"
proof (induction n arbitrary: v)
  case (Suc n)
  have "v div 256 < 256 ^ n" using Suc.prems by (simp add: less_mult_imp_div_less mult.commute)
  then show ?case using Suc.IH by (simp add: unat_byte)
qed simp

lemma le_val_bound: "le_val bs < 256 ^ length bs"
proof (induction bs)
  case (Cons b bs)
  have "unat b < 256" using unsigned_less [of b] by simp
  then show ?case using Cons by simp
qed simp

lemma le_bytes_le_val: "le_bytes (length bs) (le_val bs) = bs"
proof (induction bs)
  case (Cons b bs)
  have b: "unat b < 256" using unsigned_less [of b] by simp
  then have "unat (word_of_nat (unat b + 256 * le_val bs) :: u8) = unat b" unfolding unat_byte by simp
  then have "word_of_nat (unat b + 256 * le_val bs) = b" by (simp only: word_unat_eq_iff)
  moreover have "(unat b + 256 * le_val bs) div 256 = le_val bs" using b by simp
  ultimately show ?case using Cons by simp
qed simp

section \<open>Readers\<close>

type_synonym 'a reader = "u8 list \<Rightarrow> nat \<Rightarrow> ('a \<times> nat) result"

definition bindR :: "'a reader \<Rightarrow> ('a \<Rightarrow> 'b reader) \<Rightarrow> 'b reader" where
  "bindR r f bytes pos = (case r bytes pos of Inl e \<Rightarrow> Inl e | Inr (x, pos') \<Rightarrow> f x bytes pos')"

definition returnR :: "'a \<Rightarrow> 'a reader" where
  "returnR x bytes pos = Inr (x, pos)"

definition failR :: "exn \<Rightarrow> 'a reader" where
  "failR e bytes pos = Inl e"

definition mapR :: "('a \<Rightarrow> 'b) \<Rightarrow> 'a reader \<Rightarrow> 'b reader" where
  "mapR f r = bindR r (\<lambda>x. returnR (f x))"

fun repeatR :: "nat \<Rightarrow> 'a reader \<Rightarrow> 'a list reader" where
  "repeatR 0 r = returnR []"
| "repeatR (Suc n) r = bindR r (\<lambda>x. bindR (repeatR n r) (\<lambda>xs. returnR (x # xs)))"

definition reads :: "'a reader \<Rightarrow> 'a \<Rightarrow> u8 list \<Rightarrow> bool" where
  "reads r x e \<longleftrightarrow> (\<forall>pre post. r (pre @ e @ post) (length pre) = Inr (x, length pre + length e))"

lemma readsI: "(\<And>pre post. r (pre @ e @ post) (length pre) = Inr (x, length pre + length e)) \<Longrightarrow> reads r x e"
  by (simp add: reads_def)

lemma reads_return [intro]: "reads (returnR x) x []"
  by (simp add: reads_def returnR_def)

lemma reads_bind [intro]:
  assumes "reads r x e" "reads (f x) y e'"
  shows "reads (bindR r f) y (e @ e')"
proof (rule readsI)
  fix pre post
  have "r (pre @ (e @ e') @ post) (length pre) = Inr (x, length pre + length e)"
    using assms(1) by (simp add: reads_def)
  moreover have "f x ((pre @ e) @ e' @ post) (length (pre @ e)) = Inr (y, length (pre @ e) + length e')"
    using assms(2) unfolding reads_def by blast
  ultimately show "bindR r f (pre @ (e @ e') @ post) (length pre) = Inr (y, length pre + length (e @ e'))"
    by (simp add: bindR_def)
qed

lemma reads_bind_last: "reads r x e \<Longrightarrow> reads (f x) y [] \<Longrightarrow> reads (bindR r f) y e"
  using reads_bind [of r x e f y "[]"] by simp

lemma reads_map [intro]: "reads r x e \<Longrightarrow> reads (mapR f r) (f x) e"
  using reads_bind [of r x e "\<lambda>x. returnR (f x)" "f x" "[]"] by (auto simp: mapR_def)

lemma reads_repeat:
  "(\<And>x. x \<in> set xs \<Longrightarrow> reads r x (enc x)) \<Longrightarrow> reads (repeatR (length xs) r) xs (concat (map enc xs))"
proof (induction xs)
  case (Cons x xs)
  have IH: "reads (repeatR (length xs) r) xs (concat (map enc xs))" using Cons by simp
  have "reads (bindR (repeatR (length xs) r) (\<lambda>xs. returnR (x # xs))) (x # xs) (concat (map enc xs) @ [])"
    using IH by (rule reads_bind) (rule reads_return)
  then have "reads (bindR r (\<lambda>x. bindR (repeatR (length xs) r) (\<lambda>xs. returnR (x # xs)))) (x # xs)
      (enc x @ (concat (map enc xs) @ []))"
    by (rule reads_bind [OF Cons.prems, rotated]) simp
  then show ?case by simp
qed (simp add: reads_return)

text \<open>A reader that never moves the cursor backwards and never beyond the end of the bytes.\<close>

definition in_bounds :: "'a reader \<Rightarrow> bool" where
  "in_bounds r \<longleftrightarrow> (\<forall>bytes pos x pos'. pos \<le> length bytes \<longrightarrow> r bytes pos = Inr (x, pos') \<longrightarrow> pos \<le> pos' \<and> pos' \<le> length bytes)"

lemma in_boundsD: "in_bounds r \<Longrightarrow> r bytes pos = Inr (x, pos') \<Longrightarrow> pos \<le> length bytes \<Longrightarrow> pos \<le> pos' \<and> pos' \<le> length bytes"
  unfolding in_bounds_def by blast

lemma in_bounds_return [intro]: "in_bounds (returnR x)"
  and in_bounds_fail [intro]: "in_bounds (failR e)"
  by (simp_all add: in_bounds_def returnR_def failR_def)

lemma in_bounds_bind [intro]:
  assumes "in_bounds r" "\<And>x. in_bounds (f x)"
  shows "in_bounds (bindR r f)"
  unfolding in_bounds_def
proof (intro allI impI)
  fix bytes pos y pos' assume le: "pos \<le> length bytes" and "bindR r f bytes pos = Inr (y, pos')"
  then obtain x p where "r bytes pos = Inr (x, p)" "f x bytes p = Inr (y, pos')"
    by (auto simp: bindR_def split: sum.splits)
  then show "pos \<le> pos' \<and> pos' \<le> length bytes" using in_boundsD [OF assms(1)] in_boundsD [OF assms(2)] le by fastforce
qed

lemma in_bounds_map [intro]: "in_bounds r \<Longrightarrow> in_bounds (mapR f r)"
  by (auto simp: mapR_def)

lemma in_bounds_repeat [intro]: "in_bounds r \<Longrightarrow> in_bounds (repeatR n r)"
  by (induction n) auto

end
