(* ===== verification/Gguf.thy ===== *)
theory Gguf
  imports BinaryCodec DeviceMemory
begin

text \<open>
  The GGUF model file reader: \<^verbatim>\<open>src/core/gguf/GgufTypes.{hpp,cpp}\<close> and
  \<^verbatim>\<open>src/core/gguf/GgufReader.{hpp,cpp}\<close>.

  The mapped file is a byte list. A \<^verbatim>\<open>std::string\<close> of the file is a byte list as well. File positions
  are natural numbers: a mapped file and a vector have fewer than \<open>2 ^ 63\<close> bytes, so the reader's
  \<^verbatim>\<open>_pos + n\<close> does not wrap. Products and sums of numbers that come out of the file do wrap in C++; they
  are written with \<open>mod 2 ^ 64\<close>. Signed integers and floats of the metadata are kept as their bit patterns.
  \<^verbatim>\<open>resize\<close> and \<^verbatim>\<open>reserve\<close> throw above the containers' \<^verbatim>\<open>max_size\<close>; an allocation that fails for lack of
  memory is not modelled.
\<close>

section \<open>Types\<close>

datatype GgufValueType =
    UInt8 | Int8 | UInt16 | Int16 | UInt32 | Int32 | Float32 | Bool | String | Array | UInt64 | Int64 | Float64
  | OtherValueType nat

definition valueTypeOfTag :: "nat \<Rightarrow> GgufValueType" where
  "valueTypeOfTag t =
     (if t < 13 then [UInt8, Int8, UInt16, Int16, UInt32, Int32, Float32, Bool, String, Array, UInt64, Int64, Float64] ! t
      else OtherValueType t)"

fun valueTypeTag :: "GgufValueType \<Rightarrow> nat" where
  "valueTypeTag UInt8 = 0" | "valueTypeTag Int8 = 1" | "valueTypeTag UInt16 = 2" | "valueTypeTag Int16 = 3"
| "valueTypeTag UInt32 = 4" | "valueTypeTag Int32 = 5" | "valueTypeTag Float32 = 6" | "valueTypeTag Bool = 7"
| "valueTypeTag String = 8" | "valueTypeTag Array = 9" | "valueTypeTag UInt64 = 10" | "valueTypeTag Int64 = 11"
| "valueTypeTag Float64 = 12" | "valueTypeTag (OtherValueType t) = t"

fun valueTypeName :: "GgufValueType \<Rightarrow> string" where
  "valueTypeName UInt8 = ''uint8''" | "valueTypeName Int8 = ''int8''" | "valueTypeName UInt16 = ''uint16''"
| "valueTypeName Int16 = ''int16''" | "valueTypeName UInt32 = ''uint32''" | "valueTypeName Int32 = ''int32''"
| "valueTypeName Float32 = ''float32''" | "valueTypeName Bool = ''bool''" | "valueTypeName String = ''string''"
| "valueTypeName Array = ''array''" | "valueTypeName UInt64 = ''uint64''" | "valueTypeName Int64 = ''int64''"
| "valueTypeName Float64 = ''float64''" | "valueTypeName (OtherValueType t) = ''unknown''"

fun valueElementWidth :: "GgufValueType \<Rightarrow> nat" where
  "valueElementWidth UInt8 = 1" | "valueElementWidth Int8 = 1" | "valueElementWidth Bool = 1"
| "valueElementWidth UInt16 = 2" | "valueElementWidth Int16 = 2"
| "valueElementWidth UInt32 = 4" | "valueElementWidth Int32 = 4" | "valueElementWidth Float32 = 4"
| "valueElementWidth UInt64 = 8" | "valueElementWidth Int64 = 8" | "valueElementWidth Float64 = 8"
| "valueElementWidth String = 0" | "valueElementWidth Array = 0" | "valueElementWidth (OtherValueType t) = 0"

text \<open>A \<^verbatim>\<open>GgmlType\<close> read from a file is any 32-bit tag, so the type is the tag; the named ones are these.\<close>

datatype GgmlType =
    F32 | F16 | Q4_0 | Q4_1 | Q5_0 | Q5_1 | Q8_0 | Q8_1 | Q2_K | Q3_K | Q4_K | Q5_K | Q6_K | Q8_K
  | I8 | I16 | I32 | I64 | F64 | BF16 | FP8_E4M3 | NVFP4_BLK | NVFP4_TC | Unknown | OtherGgmlType nat

definition ggml_tags :: "(nat \<times> GgmlType) list" where
  "ggml_tags = [(0, F32), (1, F16), (2, Q4_0), (3, Q4_1), (6, Q5_0), (7, Q5_1), (8, Q8_0), (9, Q8_1), (10, Q2_K),
     (11, Q3_K), (12, Q4_K), (13, Q5_K), (14, Q6_K), (15, Q8_K), (24, I8), (25, I16), (26, I32), (27, I64), (28, F64),
     (30, BF16), (40, FP8_E4M3), (41, NVFP4_BLK), (42, NVFP4_TC), (4294967295, Unknown)]"

definition ggmlTypeOfTag :: "nat \<Rightarrow> GgmlType" where
  "ggmlTypeOfTag t = (case map_of ggml_tags t of Some ty \<Rightarrow> ty | None \<Rightarrow> OtherGgmlType t)"

fun ggmlTypeTag :: "GgmlType \<Rightarrow> nat" where
  "ggmlTypeTag F32 = 0" | "ggmlTypeTag F16 = 1" | "ggmlTypeTag Q4_0 = 2" | "ggmlTypeTag Q4_1 = 3"
| "ggmlTypeTag Q5_0 = 6" | "ggmlTypeTag Q5_1 = 7" | "ggmlTypeTag Q8_0 = 8" | "ggmlTypeTag Q8_1 = 9"
| "ggmlTypeTag Q2_K = 10" | "ggmlTypeTag Q3_K = 11" | "ggmlTypeTag Q4_K = 12" | "ggmlTypeTag Q5_K = 13"
| "ggmlTypeTag Q6_K = 14" | "ggmlTypeTag Q8_K = 15" | "ggmlTypeTag I8 = 24" | "ggmlTypeTag I16 = 25"
| "ggmlTypeTag I32 = 26" | "ggmlTypeTag I64 = 27" | "ggmlTypeTag F64 = 28" | "ggmlTypeTag BF16 = 30"
| "ggmlTypeTag FP8_E4M3 = 40" | "ggmlTypeTag NVFP4_BLK = 41" | "ggmlTypeTag NVFP4_TC = 42"
| "ggmlTypeTag Unknown = 4294967295" | "ggmlTypeTag (OtherGgmlType t) = t"

record GgmlTypeInfo =
  ti_name :: string
  ti_blockSize :: nat
  ti_typeSize :: nat

definition mk_info :: "string \<Rightarrow> nat \<Rightarrow> nat \<Rightarrow> GgmlTypeInfo" where
  "mk_info n b s = \<lparr>ti_name = n, ti_blockSize = b, ti_typeSize = s\<rparr>"

fun typeInfo :: "GgmlType \<Rightarrow> GgmlTypeInfo" where
  "typeInfo F32 = mk_info ''F32'' 1 4"
| "typeInfo F16 = mk_info ''F16'' 1 2"
| "typeInfo BF16 = mk_info ''BF16'' 1 2"
| "typeInfo F64 = mk_info ''F64'' 1 8"
| "typeInfo I8 = mk_info ''I8'' 1 1"
| "typeInfo I16 = mk_info ''I16'' 1 2"
| "typeInfo I32 = mk_info ''I32'' 1 4"
| "typeInfo I64 = mk_info ''I64'' 1 8"
| "typeInfo Q4_0 = mk_info ''Q4_0'' 32 18"
| "typeInfo Q4_1 = mk_info ''Q4_1'' 32 20"
| "typeInfo Q5_0 = mk_info ''Q5_0'' 32 22"
| "typeInfo Q5_1 = mk_info ''Q5_1'' 32 24"
| "typeInfo Q8_0 = mk_info ''Q8_0'' 32 34"
| "typeInfo Q8_1 = mk_info ''Q8_1'' 32 36"
| "typeInfo Q2_K = mk_info ''Q2_K'' 256 82"
| "typeInfo Q3_K = mk_info ''Q3_K'' 256 110"
| "typeInfo Q4_K = mk_info ''Q4_K'' 256 144"
| "typeInfo Q5_K = mk_info ''Q5_K'' 256 176"
| "typeInfo Q6_K = mk_info ''Q6_K'' 256 210"
| "typeInfo Q8_K = mk_info ''Q8_K'' 256 292"
| "typeInfo NVFP4_TC = mk_info ''NVFP4_TC'' 2 1"
| "typeInfo _ = mk_info ''UNKNOWN'' 0 0"

definition bytesForTensor :: "GgmlType \<Rightarrow> nat \<Rightarrow> nat" where
  "bytesForTensor t nelements =
     (let info = typeInfo t
      in if ti_blockSize info = 0 \<or> ti_typeSize info = 0 then 0
         else if nelements mod ti_blockSize info \<noteq> 0 then 0
         else nelements div ti_blockSize info * ti_typeSize info mod 2 ^ 64)"

section \<open>The cursor\<close>

definition cursor_read :: "nat \<Rightarrow> nat reader" where
  "cursor_read n bytes pos =
     (if pos + n > length bytes then Inl (RuntimeError ''gguf: truncated read'')
      else Inr (le_val (take n (drop pos bytes)), pos + n))"

definition readBytes :: "nat \<Rightarrow> u8 list reader" where
  "readBytes n bytes pos =
     (if pos + n > length bytes then Inl (RuntimeError ''gguf: truncated read'')
      else Inr (take n (drop pos bytes), pos + n))"

definition readString :: "u8 list reader" where
  "readString = bindR (cursor_read 8) (\<lambda>n bytes pos.
     if n > length bytes \<or> pos + n > length bytes then Inl (RuntimeError ''gguf: truncated string'')
     else Inr (take n (drop pos bytes), pos + n))"

section \<open>Metadata values\<close>

record GgufArray =
  ga_elementType :: GgufValueType
  ga_count :: nat
  ga_raw :: "u8 list"
  ga_strings :: "u8 list list"

datatype MetadataValue =
    MvBool bool
  | MvUInt8 nat | MvInt8 nat | MvUInt16 nat | MvInt16 nat | MvUInt32 nat | MvInt32 nat | MvUInt64 nat | MvInt64 nat
  | MvFloat nat | MvDouble nat
  | MvString "u8 list"
  | MvArray GgufArray

text \<open>\<^verbatim>\<open>std::vector::max_size\<close> is \<^verbatim>\<open>PTRDIFF_MAX\<close> divided by the element size.\<close>

definition max_size :: "nat \<Rightarrow> nat" where
  "max_size elementSize = (2 ^ 63 - 1) div elementSize"

definition guardR :: "bool \<Rightarrow> exn \<Rightarrow> unit reader" where
  "guardR b e = (if b then returnR () else failR e)"

definition readArray :: "GgufArray reader" where
  "readArray =
     bindR (cursor_read 4) (\<lambda>tag. bindR (cursor_read 8) (\<lambda>count.
       let elemType = valueTypeOfTag tag
       in if elemType = String
          then bindR (guardR (count \<le> max_size 32) (LengthError ''vector::reserve'')) (\<lambda>_.
               mapR (\<lambda>ss. \<lparr>ga_elementType = elemType, ga_count = count, ga_raw = [], ga_strings = ss\<rparr>)
                 (repeatR count readString))
          else if elemType = Array then failR (RuntimeError ''gguf: nested arrays not supported by v3'')
          else let width = valueElementWidth elemType
               in if width = 0 then failR (RuntimeError ''gguf: unknown array element type'')
                  else let n = count * width mod 2 ^ 64
                       in bindR (guardR (n \<le> max_size 1) (LengthError ''vector::_M_default_append'')) (\<lambda>_.
                          mapR (\<lambda>raw. \<lparr>ga_elementType = elemType, ga_count = count, ga_raw = raw, ga_strings = []\<rparr>)
                            (if n > 0 then readBytes n else returnR []))))"

fun readValue :: "GgufValueType \<Rightarrow> MetadataValue reader" where
  "readValue UInt8 = mapR MvUInt8 (cursor_read 1)"
| "readValue Int8 = mapR MvInt8 (cursor_read 1)"
| "readValue UInt16 = mapR MvUInt16 (cursor_read 2)"
| "readValue Int16 = mapR MvInt16 (cursor_read 2)"
| "readValue UInt32 = mapR MvUInt32 (cursor_read 4)"
| "readValue Int32 = mapR MvInt32 (cursor_read 4)"
| "readValue UInt64 = mapR MvUInt64 (cursor_read 8)"
| "readValue Int64 = mapR MvInt64 (cursor_read 8)"
| "readValue Float32 = mapR MvFloat (cursor_read 4)"
| "readValue Float64 = mapR MvDouble (cursor_read 8)"
| "readValue Bool = mapR (\<lambda>v. MvBool (v \<noteq> 0)) (cursor_read 1)"
| "readValue String = mapR MvString readString"
| "readValue Array = mapR MvArray readArray"
| "readValue (OtherValueType t) = failR (RuntimeError ''gguf: unknown value type tag'')"

section \<open>The reader\<close>

record GgufTensor =
  gt_name :: "u8 list"
  gt_type :: GgmlType
  gt_dimensions :: "nat list"
  gt_nelements :: nat
  gt_nbytes :: nat
  gt_fileOffset :: nat
  gt_usmPtr :: ptr
  gt_chunkIndex :: nat
  gt_chunkOffset :: nat

record GgufReader =
  gr_file :: "u8 list option"
  gr_version :: nat
  gr_alignment :: nat
  gr_tensorDataOffset :: nat
  gr_totalTensorBytes :: nat
  gr_metadata :: "u8 list \<rightharpoonup> MetadataValue"
  gr_tensors :: "GgufTensor list"
  gr_tensorBuffers :: "ptr list"
  gr_chunkLoaded :: bool

definition newGgufReader :: GgufReader where
  "newGgufReader = \<lparr>gr_file = None, gr_version = 0, gr_alignment = 32, gr_tensorDataOffset = 0, gr_totalTensorBytes = 0,
     gr_metadata = Map.empty, gr_tensors = [], gr_tensorBuffers = [], gr_chunkLoaded = False\<rparr>"

definition kGgufMagic :: nat where
  "kGgufMagic = 0x46554747"

definition kSupportedVersion :: nat where
  "kSupportedVersion = 3"

definition alignment_key :: "u8 list" where
  "alignment_key = map of_char ''general.alignment''"

fun alignment_update :: "u8 list \<Rightarrow> MetadataValue \<Rightarrow> nat \<Rightarrow> nat" where
  "alignment_update key (MvUInt32 a) al = (if key = alignment_key then a else al)"
| "alignment_update key (MvUInt64 a) al = (if key = alignment_key then a else al)"
| "alignment_update key _ al = al"

definition emplace :: "'k \<Rightarrow> 'v \<Rightarrow> ('k \<rightharpoonup> 'v) \<Rightarrow> ('k \<rightharpoonup> 'v)" where
  "emplace k v m = (case m k of None \<Rightarrow> m(k \<mapsto> v) | Some _ \<Rightarrow> m)"

definition read_entry :: "(u8 list \<times> MetadataValue) reader" where
  "read_entry = bindR readString (\<lambda>key. bindR (cursor_read 4) (\<lambda>tag. mapR (\<lambda>v. (key, v)) (readValue (valueTypeOfTag tag))))"

fun metadata_loop :: "nat \<Rightarrow> nat \<Rightarrow> (u8 list \<rightharpoonup> MetadataValue) \<Rightarrow> (nat \<times> (u8 list \<rightharpoonup> MetadataValue)) reader" where
  "metadata_loop 0 al md = returnR (al, md)"
| "metadata_loop (Suc n) al md =
     bindR read_entry (\<lambda>(key, v). metadata_loop n (alignment_update key v al) (emplace key v md))"

definition read_tensor :: "GgufTensor reader" where
  "read_tensor =
     bindR readString (\<lambda>name. bindR (cursor_read 4) (\<lambda>ndim.
       if ndim = 0 \<or> ndim > 8 then failR (RuntimeError ''GgufReader: implausible tensor ndim'')
       else bindR (repeatR ndim (cursor_read 8)) (\<lambda>dims. bindR (cursor_read 4) (\<lambda>tag. bindR (cursor_read 8) (\<lambda>fileOffset.
         let nelem = foldl (\<lambda>n d. n * d mod 2 ^ 64) 1 dims; ty = ggmlTypeOfTag tag; nbytes = bytesForTensor ty nelem
         in if nbytes = 0 then failR (RuntimeError ''GgufReader: unsupported tensor type'')
            else returnR \<lparr>gt_name = name, gt_type = ty, gt_dimensions = dims, gt_nelements = nelem, gt_nbytes = nbytes,
                   gt_fileOffset = fileOffset, gt_usmPtr = NullPtr, gt_chunkIndex = 0, gt_chunkOffset = 0\<rparr>)))))"

fun tensor_loop :: "nat \<Rightarrow> nat \<Rightarrow> GgufTensor list \<Rightarrow> (nat \<times> GgufTensor list) reader" where
  "tensor_loop 0 tot ts = returnR (tot, ts)"
| "tensor_loop (Suc n) tot ts =
     bindR read_tensor (\<lambda>t. tensor_loop n ((tot + gt_nbytes t) mod 2 ^ 64) (ts @ [t]))"

definition parse_index :: "GgufReader reader" where
  "parse_index =
     bindR (cursor_read 4) (\<lambda>magic.
       if magic \<noteq> kGgufMagic then failR (RuntimeError ''GgufReader: bad magic'')
       else bindR (cursor_read 4) (\<lambda>version. bindR (cursor_read 8) (\<lambda>tensorCount. bindR (cursor_read 8) (\<lambda>metadataCount.
         bindR (metadata_loop metadataCount 32 Map.empty) (\<lambda>(al, md).
         bindR (guardR (tensorCount \<le> max_size 136) (LengthError ''vector::reserve'')) (\<lambda>_.
         mapR (\<lambda>(tot, ts). newGgufReader\<lparr>gr_version := version, gr_alignment := al, gr_metadata := md,
                   gr_tensors := ts, gr_totalTensorBytes := tot\<rparr>)
           (tensor_loop tensorCount 0 [])))))))"

text \<open>
  \<^verbatim>\<open>open\<close>. The argument is the content of the mapped file; \<^verbatim>\<open>close()\<close> runs first, so the old state is
  irrelevant. An alignment of zero makes the remainder of line 253 undefined: the model stops there with
  an error of its own, and the theorems exclude it.
\<close>

definition open_gguf :: "u8 list \<Rightarrow> GgufReader result" where
  "open_gguf file =
     (case parse_index file 0 of
        Inl e \<Rightarrow> Inl e
      | Inr (r, posAfterIndex) \<Rightarrow>
          let al = gr_alignment r
          in if al = 0 then Inl (LogicError ''undefined: remainder by zero'')
             else let pad = (al - posAfterIndex mod al) mod al; off = posAfterIndex + pad
                  in if off > length file then Inl (RuntimeError ''GgufReader: data offset past EOF'')
                     else Inr (r\<lparr>gr_file := Some file, gr_tensorDataOffset := off\<rparr>))"

section \<open>Loading\<close>

text \<open>
  \<^verbatim>\<open>uploadHostBytes(buf, _file.data() + absOffset, nbytes)\<close> reads the mapping; the bytes it copies are a
  value when the range is inside the mapping and undefined (None) otherwise.
\<close>

definition mapped_read :: "u8 list \<Rightarrow> nat \<Rightarrow> nat \<Rightarrow> u8 list option" where
  "mapped_read file off n = (if off + n \<le> length file then Some (take n (drop off file)) else None)"

definition payload_check :: "u8 list \<Rightarrow> nat \<Rightarrow> GgufTensor \<Rightarrow> nat result" where
  "payload_check file dataOff t =
     (let absOffset = (dataOff + gt_fileOffset t) mod 2 ^ 64
      in if (absOffset + gt_nbytes t) mod 2 ^ 64 > length file
         then Inl (RuntimeError ''GgufReader::loadTensors: tensor data out of bounds'') else Inr absOffset)"

type_synonym upload = "ptr \<times> u8 list option"

fun load_loop ::
  "u8 list \<Rightarrow> nat \<Rightarrow> GgufTensor list \<Rightarrow> device \<Rightarrow> (GgufTensor list \<times> ptr list \<times> upload list \<times> device) result" where
  "load_loop file dataOff [] d = Inr ([], [], [], d)"
| "load_loop file dataOff (t # ts) d =
     bind_result (payload_check file dataOff t) (\<lambda>absOffset.
       let (p, d1) = device_alloc (gt_nbytes t) d
       in bind_result (load_loop file dataOff ts d1) (\<lambda>(ts', ps, us, d2).
            Inr (t\<lparr>gt_usmPtr := p\<rparr> # ts', p # ps, (p, mapped_read file absOffset (gt_nbytes t)) # us, d2)))"

definition loadTensors :: "GgufReader \<Rightarrow> device \<Rightarrow> (GgufReader \<times> upload list \<times> device) result" where
  "loadTensors r d =
     (case gr_file r of
        None \<Rightarrow> Inl (RuntimeError ''GgufReader::loadTensors: not open'')
      | Some file \<Rightarrow>
          if gr_chunkLoaded r then Inl (RuntimeError ''GgufReader::loadTensors: reader already loaded via loadTensorsIntoChunks'')
          else if gr_tensorBuffers r \<noteq> [] then Inl (RuntimeError ''GgufReader::loadTensors: reader already loaded once'')
          else bind_result (load_loop file (gr_tensorDataOffset r) (gr_tensors r) d) (\<lambda>(ts, ps, us, d').
                 Inr (r\<lparr>gr_tensors := ts, gr_tensorBuffers := ps, gr_file := None\<rparr>, us, d')))"

definition close_gguf :: "GgufReader \<Rightarrow> GgufReader" where
  "close_gguf r = r\<lparr>gr_tensorBuffers := [], gr_chunkLoaded := False, gr_file := None, gr_tensors := [], gr_metadata := Map.empty,
     gr_version := 0, gr_alignment := 32, gr_tensorDataOffset := 0, gr_totalTensorBytes := 0\<rparr>"

definition findTensor :: "GgufReader \<Rightarrow> u8 list \<Rightarrow> GgufTensor option" where
  "findTensor r name = find (\<lambda>t. gt_name t = name) (gr_tensors r)"

definition findMetadata :: "GgufReader \<Rightarrow> u8 list \<Rightarrow> MetadataValue option" where
  "findMetadata r key = gr_metadata r key"

section \<open>The file format\<close>

text \<open>
  What a GGUF file is, as an encoder: the specification the reader is checked against. \<open>gguf_file\<close> is the
  content a writer has in mind.
\<close>

definition enc_string :: "u8 list \<Rightarrow> u8 list" where
  "enc_string s = le_bytes 8 (length s) @ s"

fun type_of :: "MetadataValue \<Rightarrow> GgufValueType" where
  "type_of (MvBool _) = Bool" | "type_of (MvUInt8 _) = UInt8" | "type_of (MvInt8 _) = Int8" | "type_of (MvUInt16 _) = UInt16"
| "type_of (MvInt16 _) = Int16" | "type_of (MvUInt32 _) = UInt32" | "type_of (MvInt32 _) = Int32"
| "type_of (MvUInt64 _) = UInt64" | "type_of (MvInt64 _) = Int64" | "type_of (MvFloat _) = Float32"
| "type_of (MvDouble _) = Float64" | "type_of (MvString _) = String" | "type_of (MvArray _) = Array"

definition enc_array :: "GgufArray \<Rightarrow> u8 list" where
  "enc_array a = le_bytes 4 (valueTypeTag (ga_elementType a)) @ le_bytes 8 (ga_count a) @
     (if ga_elementType a = String then concat (map enc_string (ga_strings a)) else ga_raw a)"

fun enc_value :: "MetadataValue \<Rightarrow> u8 list" where
  "enc_value (MvBool b) = le_bytes 1 (if b then 1 else 0)"
| "enc_value (MvUInt8 v) = le_bytes 1 v" | "enc_value (MvInt8 v) = le_bytes 1 v"
| "enc_value (MvUInt16 v) = le_bytes 2 v" | "enc_value (MvInt16 v) = le_bytes 2 v"
| "enc_value (MvUInt32 v) = le_bytes 4 v" | "enc_value (MvInt32 v) = le_bytes 4 v"
| "enc_value (MvUInt64 v) = le_bytes 8 v" | "enc_value (MvInt64 v) = le_bytes 8 v"
| "enc_value (MvFloat v) = le_bytes 4 v" | "enc_value (MvDouble v) = le_bytes 8 v"
| "enc_value (MvString s) = enc_string s"
| "enc_value (MvArray a) = enc_array a"

definition enc_entry :: "u8 list \<times> MetadataValue \<Rightarrow> u8 list" where
  "enc_entry kv = enc_string (fst kv) @ le_bytes 4 (valueTypeTag (type_of (snd kv))) @ enc_value (snd kv)"

definition enc_tensor :: "GgufTensor \<Rightarrow> u8 list" where
  "enc_tensor t = enc_string (gt_name t) @ le_bytes 4 (length (gt_dimensions t)) @ concat (map (le_bytes 8) (gt_dimensions t))
     @ le_bytes 4 (ggmlTypeTag (gt_type t)) @ le_bytes 8 (gt_fileOffset t)"

record gguf_file =
  gf_version :: nat
  gf_metadata :: "(u8 list \<times> MetadataValue) list"
  gf_tensors :: "GgufTensor list"
  gf_data :: "u8 list"

definition file_alignment :: "gguf_file \<Rightarrow> nat" where
  "file_alignment f = (case map_of (gf_metadata f) alignment_key of
     Some (MvUInt32 a) \<Rightarrow> a | Some (MvUInt64 a) \<Rightarrow> a | _ \<Rightarrow> 32)"

definition enc_index :: "gguf_file \<Rightarrow> u8 list" where
  "enc_index f = le_bytes 4 kGgufMagic @ le_bytes 4 (gf_version f) @ le_bytes 8 (length (gf_tensors f))
     @ le_bytes 8 (length (gf_metadata f)) @ concat (map enc_entry (gf_metadata f)) @ concat (map enc_tensor (gf_tensors f))"

definition align_pad :: "nat \<Rightarrow> nat \<Rightarrow> nat" where
  "align_pad al n = (al - n mod al) mod al"

definition encode_gguf :: "gguf_file \<Rightarrow> u8 list" where
  "encode_gguf f = enc_index f @ replicate (align_pad (file_alignment f) (length (enc_index f))) 0 @ gf_data f"

definition wf_string :: "u8 list \<Rightarrow> bool" where
  "wf_string s \<longleftrightarrow> length s < 2 ^ 64"

definition wf_array :: "GgufArray \<Rightarrow> bool" where
  "wf_array a \<longleftrightarrow> ga_count a < 2 ^ 64 \<and>
     (if ga_elementType a = String
      then ga_raw a = [] \<and> length (ga_strings a) = ga_count a \<and> ga_count a \<le> max_size 32 \<and> list_all wf_string (ga_strings a)
      else ga_strings a = [] \<and> valueElementWidth (ga_elementType a) > 0
         \<and> length (ga_raw a) = ga_count a * valueElementWidth (ga_elementType a) \<and> length (ga_raw a) \<le> max_size 1)"

fun wf_value :: "MetadataValue \<Rightarrow> bool" where
  "wf_value (MvBool b) = True"
| "wf_value (MvUInt8 v) = (v < 2 ^ 8)" | "wf_value (MvInt8 v) = (v < 2 ^ 8)"
| "wf_value (MvUInt16 v) = (v < 2 ^ 16)" | "wf_value (MvInt16 v) = (v < 2 ^ 16)"
| "wf_value (MvUInt32 v) = (v < 2 ^ 32)" | "wf_value (MvInt32 v) = (v < 2 ^ 32)"
| "wf_value (MvUInt64 v) = (v < 2 ^ 64)" | "wf_value (MvInt64 v) = (v < 2 ^ 64)"
| "wf_value (MvFloat v) = (v < 2 ^ 32)" | "wf_value (MvDouble v) = (v < 2 ^ 64)"
| "wf_value (MvString s) = wf_string s"
| "wf_value (MvArray a) = wf_array a"

definition wf_tensor :: "GgufTensor \<Rightarrow> bool" where
  "wf_tensor t \<longleftrightarrow> wf_string (gt_name t) \<and> 1 \<le> length (gt_dimensions t) \<and> length (gt_dimensions t) \<le> 8
     \<and> list_all (\<lambda>d. d < 2 ^ 64) (gt_dimensions t) \<and> gt_nelements t = prod_list (gt_dimensions t) \<and> gt_nelements t < 2 ^ 64
     \<and> gt_nbytes t = bytesForTensor (gt_type t) (gt_nelements t) \<and> gt_nbytes t \<noteq> 0
     \<and> gt_fileOffset t < 2 ^ 64 \<and> gt_usmPtr t = NullPtr \<and> gt_chunkIndex t = 0 \<and> gt_chunkOffset t = 0"

definition wf_index :: "gguf_file \<Rightarrow> bool" where
  "wf_index f \<longleftrightarrow> gf_version f < 2 ^ 32 \<and> length (gf_metadata f) < 2 ^ 64 \<and> length (gf_tensors f) \<le> max_size 136
     \<and> distinct (map fst (gf_metadata f)) \<and> list_all (\<lambda>(k, v). wf_string k \<and> wf_value v) (gf_metadata f)
     \<and> list_all wf_tensor (gf_tensors f) \<and> file_alignment f > 0 \<and> length (encode_gguf f) < 2 ^ 63"

definition wf_gguf :: "gguf_file \<Rightarrow> bool" where
  "wf_gguf f \<longleftrightarrow> wf_index f \<and> list_all (\<lambda>t. gt_fileOffset t + gt_nbytes t \<le> length (gf_data f)) (gf_tensors f)"

section \<open>Reading what was encoded\<close>

lemma reads_cursor: "v < 256 ^ n \<Longrightarrow> reads (cursor_read n) v (le_bytes n v)"
  by (rule readsI) (simp add: cursor_read_def le_val_le_bytes)

lemma reads_cursor_num: "v < 256 ^ numeral k \<Longrightarrow> reads (cursor_read (numeral k)) v (le_bytes (numeral k) v)"
  and reads_cursor_one: "v < 256 \<Longrightarrow> reads (cursor_read 1) v (le_bytes 1 v)"
  by (rule reads_cursor, simp)+

lemma reads_readBytes: "n = length e \<Longrightarrow> reads (readBytes n) e e"
  by (rule readsI) (simp add: readBytes_def)

lemma reads_readString: "wf_string s \<Longrightarrow> reads readString s (enc_string s)"
  unfolding readString_def enc_string_def wf_string_def
  by (rule reads_bind, rule reads_cursor, simp, rule readsI, simp)

lemma reads_guard: "b \<Longrightarrow> reads (guardR b e) () []"
  by (auto simp: guardR_def)

lemma reads_guarded: "b \<Longrightarrow> reads (f ()) y e \<Longrightarrow> reads (bindR (guardR b ex) f) y e"
  using reads_bind [OF reads_guard, of b f y e ex] by simp

lemma valueTypeOfTag_inverse: "(case t of OtherValueType n \<Rightarrow> n \<ge> 13 | _ \<Rightarrow> True) \<Longrightarrow> valueTypeOfTag (valueTypeTag t) = t"
  by (cases t) (simp_all add: valueTypeOfTag_def)

lemma valueTypeTag_bound: "valueElementWidth t > 0 \<or> t = String \<or> t = Array \<Longrightarrow> valueTypeTag t < 256 ^ 4"
  by (cases t) simp_all

lemma valueTypeOfTag_wide: "valueElementWidth t > 0 \<or> t = String \<or> t = Array \<Longrightarrow> valueTypeOfTag (valueTypeTag t) = t"
  by (rule valueTypeOfTag_inverse) (cases t; simp)

lemma ggmlTypeOfTag_inverse: "ti_blockSize (typeInfo t) \<noteq> 0 \<Longrightarrow> ggmlTypeOfTag (ggmlTypeTag t) = t"
  by (cases t) (simp_all add: ggmlTypeOfTag_def ggml_tags_def mk_info_def)

lemma ggmlTypeTag_bound: "ti_blockSize (typeInfo t) \<noteq> 0 \<Longrightarrow> ggmlTypeTag t < 256 ^ 4"
  by (cases t) (simp_all add: mk_info_def)

lemma max_size_lt: "n \<le> max_size k \<Longrightarrow> n < 2 ^ 64"
proof -
  assume "n \<le> max_size k"
  also have "max_size k \<le> 2 ^ 63 - 1" unfolding max_size_def by (rule div_le_dividend)
  finally show ?thesis by simp
qed

lemma reads_string_array:
  assumes "wf_array a" "ga_elementType a = String"
  shows "reads readArray a (enc_array a)"
proof -
  have n: "ga_count a < 2 ^ 64" "ga_count a \<le> max_size 32" "length (ga_strings a) = ga_count a" "ga_raw a = []"
    and ss: "list_all wf_string (ga_strings a)"
    using assms by (auto simp: wf_array_def)
  have "reads (repeatR (length (ga_strings a)) readString) (ga_strings a) (concat (map enc_string (ga_strings a)))"
    using ss by (intro reads_repeat reads_readString) (auto simp: list_all_iff)
  then have "reads (repeatR (ga_count a) readString) (ga_strings a) (concat (map enc_string (ga_strings a)))"
    by (simp add: n(3))
  then have "reads (mapR (\<lambda>ss. \<lparr>ga_elementType = String, ga_count = ga_count a, ga_raw = [], ga_strings = ss\<rparr>)
      (repeatR (ga_count a) readString)) a (concat (map enc_string (ga_strings a)))"
    using assms(2) n(4) reads_map [of "repeatR (ga_count a) readString" "ga_strings a" _
      "\<lambda>ss. \<lparr>ga_elementType = String, ga_count = ga_count a, ga_raw = [], ga_strings = ss\<rparr>"]
    by (cases a) simp
  then have g: "reads (bindR (guardR (ga_count a \<le> max_size 32) (LengthError ''vector::reserve''))
      (\<lambda>_. mapR (\<lambda>ss. \<lparr>ga_elementType = String, ga_count = ga_count a, ga_raw = [], ga_strings = ss\<rparr>)
      (repeatR (ga_count a) readString))) a ([] @ concat (map enc_string (ga_strings a)))"
    using n(2) by (intro reads_bind [where x = "()"] reads_guard)
  show ?thesis
    unfolding readArray_def enc_array_def assms(2)
    by (rule reads_bind, rule reads_cursor, simp, rule reads_bind, rule reads_cursor, use n(1) in simp, use g in \<open>simp add: valueTypeOfTag_def\<close>)
qed

lemma reads_plain_array:
  assumes "wf_array a" "ga_elementType a \<noteq> String"
  shows "reads readArray a (enc_array a)"
proof -
  let ?w = "valueElementWidth (ga_elementType a)"
  have n: "ga_count a < 2 ^ 64" "?w > 0" "length (ga_raw a) = ga_count a * ?w" "length (ga_raw a) \<le> max_size 1" "ga_strings a = []"
    using assms by (auto simp: wf_array_def)
  have notarr: "ga_elementType a \<noteq> Array" using n(2) by (cases "ga_elementType a") auto
  have m: "ga_count a * ?w mod 2 ^ 64 = length (ga_raw a)" using max_size_lt [OF n(4)] n(3) by simp
  let ?mk = "\<lambda>raw. \<lparr>ga_elementType = ga_elementType a, ga_count = ga_count a, ga_raw = raw, ga_strings = []\<rparr>"
  have "reads (if length (ga_raw a) > 0 then readBytes (length (ga_raw a)) else returnR []) (ga_raw a) (ga_raw a)"
    by (auto intro: reads_readBytes)
  from reads_map [OF this, of ?mk]
  have "reads (mapR ?mk (if length (ga_raw a) > 0 then readBytes (length (ga_raw a)) else returnR [])) a (ga_raw a)"
    using n(5) by (cases a) simp
  then have g: "reads (bindR (guardR (length (ga_raw a) \<le> max_size 1) (LengthError ''vector::_M_default_append''))
      (\<lambda>_. mapR ?mk (if length (ga_raw a) > 0 then readBytes (length (ga_raw a)) else returnR []))) a ([] @ ga_raw a)"
    using n(4) by (intro reads_bind [where x = "()"] reads_guard)
  have tag: "valueTypeTag (ga_elementType a) < 256 ^ 4" "valueTypeOfTag (valueTypeTag (ga_elementType a)) = ga_elementType a"
    using valueTypeTag_bound valueTypeOfTag_wide n(2) by blast+
  show ?thesis
    unfolding readArray_def enc_array_def
    by (rule reads_bind, rule reads_cursor, rule tag(1), rule reads_bind, rule reads_cursor, use n(1) in simp,
        use g m assms(2) notarr n(2) in \<open>simp add: tag(2) Let_def\<close>)
qed

lemma reads_array: "wf_array a \<Longrightarrow> reads readArray a (enc_array a)"
  using reads_string_array reads_plain_array by blast

lemma reads_value: "wf_value v \<Longrightarrow> reads (readValue (type_of v)) v (enc_value v)"
proof (cases v)
  case (MvBool b)
  then show ?thesis using reads_map [OF reads_cursor [of "if b then 1 else 0" 1], of "\<lambda>v. MvBool (v \<noteq> 0)"] by (cases b) simp_all
next
  case (MvArray a)
  moreover assume "wf_value v"
  ultimately show ?thesis using reads_map [OF reads_array, of a MvArray] by simp
qed (auto intro: reads_map reads_map [OF reads_cursor_num] reads_map [OF reads_cursor_one] reads_readString simp del: One_nat_def)

lemma reads_entry: "wf_string k \<Longrightarrow> wf_value v \<Longrightarrow> reads read_entry (k, v) (enc_entry (k, v))"
proof -
  assume k: "wf_string k" and v: "wf_value v"
  have ty: "valueElementWidth (type_of v) > 0 \<or> type_of v = String \<or> type_of v = Array" by (cases v) simp_all
  have "reads (mapR (\<lambda>v. (k, v)) (readValue (valueTypeOfTag (valueTypeTag (type_of v))))) (k, v) (enc_value v)"
    unfolding valueTypeOfTag_wide [OF ty] by (rule reads_map) (rule reads_value [OF v])
  then show ?thesis
    unfolding read_entry_def enc_entry_def fst_conv snd_conv
    by (intro reads_bind [OF reads_readString [OF k]] reads_bind [OF reads_cursor [OF valueTypeTag_bound [OF ty]]])
qed

definition metadata_alignment :: "(u8 list \<times> MetadataValue) list \<Rightarrow> nat \<Rightarrow> nat" where
  "metadata_alignment kvs al = fold (\<lambda>(k, v). alignment_update k v) kvs al"

lemma emplace_fold: "fold (\<lambda>(k, v). emplace k v) kvs md = map_of kvs ++ md"
proof (induction kvs arbitrary: md)
  case (Cons kv kvs)
  obtain k v where kv: "kv = (k, v)" by force
  have "map_of kvs ++ emplace k v md = (map_of kvs)(k \<mapsto> v) ++ md"
    by (rule ext) (auto simp: emplace_def map_add_def split: option.splits)
  then show ?case using Cons kv by (simp add: fun_upd_def)
qed simp

lemma alignment_update_other: "k \<noteq> alignment_key \<Longrightarrow> alignment_update k v al = al"
  by (cases v) simp_all

lemma alignment_fold_other: "alignment_key \<notin> fst ` set kvs \<Longrightarrow> metadata_alignment kvs al = al"
  unfolding metadata_alignment_def
  by (induction kvs arbitrary: al) (auto simp: alignment_update_other)

lemma alignment_update_self:
  "alignment_update alignment_key v al = (case v of MvUInt32 a \<Rightarrow> a | MvUInt64 a \<Rightarrow> a | _ \<Rightarrow> al)"
  by (cases v) simp_all

lemma metadata_alignment_distinct:
  assumes "distinct (map fst kvs)"
  shows "metadata_alignment kvs al = (case map_of kvs alignment_key of Some v \<Rightarrow> alignment_update alignment_key v al | None \<Rightarrow> al)"
  using assms
proof (induction kvs arbitrary: al)
  case (Cons kv kvs)
  obtain k v where kv: "kv = (k, v)" by force
  have step: "metadata_alignment (kv # kvs) al = metadata_alignment kvs (alignment_update k v al)"
    by (simp add: metadata_alignment_def kv)
  show ?case
  proof (cases "k = alignment_key")
    case True
    then have "alignment_key \<notin> fst ` set kvs" using Cons.prems kv by simp
    then show ?thesis using True step kv by (simp add: alignment_fold_other)
  next
    case False
    then show ?thesis using Cons step kv by (simp add: alignment_update_other)
  qed
qed (simp add: metadata_alignment_def)

lemma metadata_alignment_file:
  "distinct (map fst (gf_metadata f)) \<Longrightarrow> metadata_alignment (gf_metadata f) 32 = file_alignment f"
  by (simp add: metadata_alignment_distinct file_alignment_def alignment_update_self split: option.splits MetadataValue.splits)

lemma reads_metadata_loop:
  "list_all (\<lambda>(k, v). wf_string k \<and> wf_value v) kvs \<Longrightarrow>
   reads (metadata_loop (length kvs) al md) (metadata_alignment kvs al, map_of kvs ++ md) (concat (map enc_entry kvs))"
proof (induction kvs arbitrary: al md)
  case Nil
  then show ?case by (auto simp: metadata_alignment_def)
next
  case (Cons kv kvs)
  obtain k v where kv: "kv = (k, v)" by force
  have e: "reads read_entry kv (enc_entry kv)" using Cons.prems kv by (simp add: reads_entry)
  have m: "map_of (kv # kvs) ++ md = map_of kvs ++ emplace k v md"
    using emplace_fold [of "kv # kvs" md] emplace_fold [of kvs "emplace k v md"] kv by simp
  have a: "metadata_alignment (kv # kvs) al = metadata_alignment kvs (alignment_update k v al)"
    by (simp add: metadata_alignment_def kv)
  have "reads (metadata_loop (length kvs) (alignment_update k v al) (emplace k v md))
      (metadata_alignment (kv # kvs) al, map_of (kv # kvs) ++ md) (concat (map enc_entry kvs))"
    unfolding m a using Cons by simp
  then have "reads ((\<lambda>(key, v). metadata_loop (length kvs) (alignment_update key v al) (emplace key v md)) kv)
      (metadata_alignment (kv # kvs) al, map_of (kv # kvs) ++ md) (concat (map enc_entry kvs))"
    by (simp add: kv)
  from reads_bind [OF e, where f = "\<lambda>(key, v). metadata_loop (length kvs) (alignment_update key v al) (emplace key v md)", OF this]
  show ?case by (simp add: fun_upd_def)
qed

lemma foldl_mod_prod: "foldl (\<lambda>n d. n * d mod m) (a mod m) ds = a * prod_list ds mod (m :: nat)"
proof (induction ds arbitrary: a)
  case (Cons d ds)
  have "foldl (\<lambda>n d. n * d mod m) (a mod m) (d # ds) = foldl (\<lambda>n d. n * d mod m) (a * d mod m) ds"
    by (simp add: mod_mult_left_eq)
  then show ?case using Cons [of "a * d"] by (simp add: mult.assoc)
qed simp

lemma nelem_prod: "foldl (\<lambda>n d. n * d mod 2 ^ 64) 1 ds = prod_list ds mod (2 ^ 64 :: nat)"
  using foldl_mod_prod [of "2 ^ 64" 1 ds] by simp

lemma reads_tensor:
  assumes "wf_tensor t"
  shows "reads read_tensor t (enc_tensor t)"
proof -
  let ?dims = "gt_dimensions t"
  note wf = assms [unfolded wf_tensor_def]
  have dims: "reads (repeatR (length ?dims) (cursor_read 8)) ?dims (concat (map (le_bytes 8) ?dims))"
    using wf by (intro reads_repeat reads_cursor) (auto simp: list_all_iff)
  have bs: "ti_blockSize (typeInfo (gt_type t)) \<noteq> 0" using wf by (auto simp: bytesForTensor_def Let_def split: if_splits)
  have off: "gt_fileOffset t < 256 ^ 8" using wf by simp
  have nd: "length ?dims < 256 ^ 4" "\<not> (length ?dims = 0 \<or> length ?dims > 8)" using wf by auto
  have ne: "foldl (\<lambda>n d. n * d mod 2 ^ 64) 1 ?dims = gt_nelements t" unfolding nelem_prod using wf by simp
  have nb: "bytesForTensor (gt_type t) (gt_nelements t) = gt_nbytes t" "gt_nbytes t \<noteq> 0" using wf by metis+
  have t: "\<lparr>gt_name = gt_name t, gt_type = gt_type t, gt_dimensions = ?dims, gt_nelements = gt_nelements t, gt_nbytes = gt_nbytes t,
       gt_fileOffset = gt_fileOffset t, gt_usmPtr = NullPtr, gt_chunkIndex = 0, gt_chunkOffset = 0\<rparr> = t" using wf by (cases t) simp
  have last: "reads (let nelem = foldl (\<lambda>n d. n * d mod 2 ^ 64) 1 ?dims; ty = ggmlTypeOfTag (ggmlTypeTag (gt_type t));
         nbytes = bytesForTensor ty nelem
         in if nbytes = 0 then failR (RuntimeError ''GgufReader: unsupported tensor type'')
            else returnR \<lparr>gt_name = gt_name t, gt_type = ty, gt_dimensions = ?dims, gt_nelements = nelem, gt_nbytes = nbytes,
                   gt_fileOffset = gt_fileOffset t, gt_usmPtr = NullPtr, gt_chunkIndex = 0, gt_chunkOffset = 0\<rparr>) t []"
    unfolding ggmlTypeOfTag_inverse [OF bs] Let_def ne nb(1) using nb(2) t by (simp add: reads_return)
  have name: "wf_string (gt_name t)" using wf by simp
  show ?thesis
    unfolding read_tensor_def enc_tensor_def
    apply (rule reads_bind [OF reads_readString [OF name]])
    apply (rule reads_bind [OF reads_cursor [OF nd(1)]])
    unfolding if_not_P [OF nd(2)]
    apply (rule reads_bind [OF dims])
    apply (rule reads_bind [OF reads_cursor [OF ggmlTypeTag_bound [OF bs]]])
    apply (rule reads_bind_last [OF reads_cursor [OF off]])
    by (rule last)
qed

definition total_bytes :: "GgufTensor list \<Rightarrow> nat" where
  "total_bytes ts = sum_list (map gt_nbytes ts) mod 2 ^ 64"

lemma reads_tensor_loop:
  "list_all wf_tensor ts \<Longrightarrow>
   reads (tensor_loop (length ts) (a mod 2 ^ 64) acc) ((a + sum_list (map gt_nbytes ts)) mod 2 ^ 64, acc @ ts) (concat (map enc_tensor ts))"
proof (induction ts arbitrary: a acc)
  case Nil
  then show ?case by (auto intro: reads_return)
next
  case (Cons t ts)
  have t: "reads read_tensor t (enc_tensor t)" using Cons.prems by (simp add: reads_tensor)
  have "reads (tensor_loop (length ts) ((a + gt_nbytes t) mod 2 ^ 64) (acc @ [t]))
     ((a + gt_nbytes t + sum_list (map gt_nbytes ts)) mod 2 ^ 64, (acc @ [t]) @ ts) (concat (map enc_tensor ts))"
    using Cons.prems by (intro Cons.IH) simp
  then have "reads (tensor_loop (length ts) ((a mod 2 ^ 64 + gt_nbytes t) mod 2 ^ 64) (acc @ [t]))
     ((a + sum_list (map gt_nbytes (t # ts))) mod 2 ^ 64, acc @ t # ts) (concat (map enc_tensor ts))"
    by (simp only: mod_add_left_eq list.map sum_list.Cons add.assoc append_assoc append_Cons append_Nil)
  then show ?case using reads_bind [OF t] by simp
qed

definition indexed_reader :: "gguf_file \<Rightarrow> GgufReader" where
  "indexed_reader f = newGgufReader\<lparr>gr_version := gf_version f, gr_alignment := file_alignment f,
     gr_metadata := map_of (gf_metadata f), gr_tensors := gf_tensors f, gr_totalTensorBytes := total_bytes (gf_tensors f)\<rparr>"

lemma reads_index:
  assumes "wf_index f"
  shows "reads parse_index (indexed_reader f) (enc_index f)"
proof -
  note wf = assms [unfolded wf_index_def]
  have md: "reads (metadata_loop (length (gf_metadata f)) 32 Map.empty) (file_alignment f, map_of (gf_metadata f))
      (concat (map enc_entry (gf_metadata f)))"
    using reads_metadata_loop [of "gf_metadata f" 32 Map.empty] wf by (simp add: metadata_alignment_file)
  have "reads (tensor_loop (length (gf_tensors f)) 0 []) (total_bytes (gf_tensors f), gf_tensors f) (concat (map enc_tensor (gf_tensors f)))"
    using reads_tensor_loop [of "gf_tensors f" 0 "[]"] wf by (simp add: total_bytes_def)
  from reads_map [OF this, of "\<lambda>(tot, ts). newGgufReader\<lparr>gr_version := gf_version f, gr_alignment := file_alignment f,
      gr_metadata := map_of (gf_metadata f), gr_tensors := ts, gr_totalTensorBytes := tot\<rparr>"]
  have ts: "reads (mapR (\<lambda>(tot, ts). newGgufReader\<lparr>gr_version := gf_version f, gr_alignment := file_alignment f,
      gr_metadata := map_of (gf_metadata f), gr_tensors := ts, gr_totalTensorBytes := tot\<rparr>) (tensor_loop (length (gf_tensors f)) 0 []))
      (indexed_reader f) (concat (map enc_tensor (gf_tensors f)))"
    by (simp add: indexed_reader_def)
  have n: "gf_version f < 256 ^ 4" "length (gf_tensors f) < 256 ^ 8" "length (gf_metadata f) < 256 ^ 8" "length (gf_tensors f) \<le> max_size 136"
    using wf max_size_lt [of "length (gf_tensors f)" 136] by simp_all
  have m: "kGgufMagic < 256 ^ 4" by (simp add: kGgufMagic_def)
  show ?thesis
    unfolding parse_index_def enc_index_def
    apply (rule reads_bind [OF reads_cursor [OF m]])
    apply (simp only: not_True_eq_False if_False refl)
    apply (rule reads_bind [OF reads_cursor [OF n(1)]])
    apply (rule reads_bind [OF reads_cursor [OF n(2)]])
    apply (rule reads_bind [OF reads_cursor [OF n(3)]])
    apply (rule reads_bind [OF md])
    by (simp only: prod.case, rule reads_guarded [OF n(4)], rule ts)
qed

lemma parse_index_encoded:
  assumes "wf_index f"
  shows "parse_index (encode_gguf f) 0 = Inr (indexed_reader f, length (enc_index f))"
proof -
  have "parse_index ([] @ enc_index f @ (replicate (align_pad (file_alignment f) (length (enc_index f))) 0 @ gf_data f)) (length ([] :: u8 list))
      = Inr (indexed_reader f, length ([] :: u8 list) + length (enc_index f))"
    using reads_index [OF assms] unfolding reads_def by blast
  then show ?thesis by (simp add: encode_gguf_def)
qed

definition data_offset :: "gguf_file \<Rightarrow> nat" where
  "data_offset f = length (enc_index f) + align_pad (file_alignment f) (length (enc_index f))"

lemma data_offset_data: "drop (data_offset f) (encode_gguf f) = gf_data f"
  and length_encode: "length (encode_gguf f) = data_offset f + length (gf_data f)"
  by (simp_all add: encode_gguf_def data_offset_def)

lemma open_encoded:
  assumes "wf_index f"
  shows "open_gguf (encode_gguf f) = Inr ((indexed_reader f)\<lparr>gr_file := Some (encode_gguf f), gr_tensorDataOffset := data_offset f\<rparr>)"
proof -
  have "file_alignment f \<noteq> 0" using assms by (auto simp: wf_index_def)
  moreover have "gr_alignment (indexed_reader f) = file_alignment f" by (simp add: indexed_reader_def newGgufReader_def)
  ultimately show ?thesis
    unfolding open_gguf_def parse_index_encoded [OF assms]
    by (simp add: Let_def data_offset_def [unfolded align_pad_def, symmetric] length_encode)
qed

lemma align_pad_mod: "0 < al \<Longrightarrow> (n + align_pad al n) mod al = 0"
proof -
  assume al: "0 < al"
  have "(n mod al + (al - n mod al)) mod al = 0" using al by (simp add: mod_le_divisor)
  then show ?thesis by (simp add: align_pad_def mod_add_left_eq mod_add_right_eq)
qed

lemma payload_check_exact:
  assumes "length file < 2 ^ 64" "dataOff + gt_fileOffset t + gt_nbytes t \<le> length file"
  shows "payload_check file dataOff t = Inr (dataOff + gt_fileOffset t)"
proof -
  have "(dataOff + gt_fileOffset t) mod 2 ^ 64 = dataOff + gt_fileOffset t" using assms by (intro mod_less) linarith
  moreover have "(dataOff + gt_fileOffset t + gt_nbytes t) mod 2 ^ 64 = dataOff + gt_fileOffset t + gt_nbytes t"
    using assms by (intro mod_less) linarith
  ultimately show ?thesis unfolding payload_check_def Let_def using assms(2) by simp
qed

text \<open>The outcome of loading, one upload per tensor.\<close>

definition uploads_of :: "u8 list \<Rightarrow> nat \<Rightarrow> GgufTensor list \<Rightarrow> device \<Rightarrow> upload list" where
  "uploads_of file dataOff ts d =
     map (\<lambda>(i, t). (Ptr (length d + i) 0, Some (take (gt_nbytes t) (drop (dataOff + gt_fileOffset t) file)))) (enumerate 0 ts)"

lemma uploads_of_Cons:
  "uploads_of file dataOff (t # ts) d =
   (Ptr (length d) 0, Some (take (gt_nbytes t) (drop (dataOff + gt_fileOffset t) file))) # uploads_of file dataOff ts (d @ [gt_nbytes t])"
proof -
  have "map (\<lambda>(i, t). h (length d + i) t) (enumerate (Suc 0) ts) = map (\<lambda>(i, t). h (length (d @ [gt_nbytes t']) + i) t) (enumerate 0 ts)"
    for h :: "nat \<Rightarrow> GgufTensor \<Rightarrow> upload" and t'
    by (rule nth_equalityI) (simp_all add: nth_enumerate_eq)
  from this [of "\<lambda>i t. (Ptr i 0, Some (take (gt_nbytes t) (drop (dataOff + gt_fileOffset t) file)))" t]
  show ?thesis by (simp add: uploads_of_def)
qed

lemma load_loop_exact:
  assumes "length file < 2 ^ 64" "list_all (\<lambda>t. dataOff + gt_fileOffset t + gt_nbytes t \<le> length file) ts"
  shows "\<exists>ts'. load_loop file dataOff ts d = Inr (ts', map fst (uploads_of file dataOff ts d), uploads_of file dataOff ts d, d @ map gt_nbytes ts)
      \<and> map gt_usmPtr ts' = map fst (uploads_of file dataOff ts d) \<and> map gt_name ts' = map gt_name ts"
  using assms(2)
proof (induction ts arbitrary: d)
  case Nil
  then show ?case by (simp add: uploads_of_def)
next
  case (Cons t ts)
  obtain ts' where ts': "load_loop file dataOff ts (d @ [gt_nbytes t]) = Inr (ts', map fst (uploads_of file dataOff ts (d @ [gt_nbytes t])),
      uploads_of file dataOff ts (d @ [gt_nbytes t]), (d @ [gt_nbytes t]) @ map gt_nbytes ts)"
    "map gt_usmPtr ts' = map fst (uploads_of file dataOff ts (d @ [gt_nbytes t]))" "map gt_name ts' = map gt_name ts"
    using Cons.IH [of "d @ [gt_nbytes t]"] Cons.prems unfolding list.pred_inject by blast
  have fit: "dataOff + gt_fileOffset t + gt_nbytes t \<le> length file" using Cons.prems by simp
  show ?case
    using ts' payload_check_exact [OF assms(1) fit] fit
    by (simp add: device_alloc_def uploads_of_Cons mapped_read_def)
qed

text \<open>
  C19. Reading a GGUF file gives back what the file encodes. For every well-formed content (any metadata,
  including arrays, any tensors of the supported types, the data section behind the padding), opening the
  encoded bytes succeeds, the metadata map is the encoded one, the tensor index is the encoded list, the
  data section starts where the alignment puts it, and loading the tensors puts into the n-th device
  allocation exactly the n-th tensor's bytes of the data section.
\<close>

theorem gguf_roundtrip:
  assumes "wf_gguf f"
  shows "\<exists>r r' us d'. open_gguf (encode_gguf f) = Inr r
     \<and> gr_version r = gf_version f \<and> gr_metadata r = map_of (gf_metadata f) \<and> gr_tensors r = gf_tensors f
     \<and> gr_tensorDataOffset r mod file_alignment f = 0
     \<and> drop (gr_tensorDataOffset r) (encode_gguf f) = gf_data f
     \<and> loadTensors r d = Inr (r', us, d')
     \<and> map snd us = map (\<lambda>t. Some (take (gt_nbytes t) (drop (gt_fileOffset t) (gf_data f)))) (gf_tensors f)
     \<and> map fst us = map gt_usmPtr (gr_tensors r') \<and> map gt_name (gr_tensors r') = map gt_name (gf_tensors f)
     \<and> d' = d @ map gt_nbytes (gf_tensors f) \<and> distinct (map fst us)"
proof -
  let ?r = "(indexed_reader f)\<lparr>gr_file := Some (encode_gguf f), gr_tensorDataOffset := data_offset f\<rparr>"
  note wf = assms [unfolded wf_gguf_def wf_index_def]
  have wf_ix: "wf_index f" using assms by (simp add: wf_gguf_def)
  have len: "length (encode_gguf f) < 2 ^ 64" using wf by simp
  have fit: "list_all (\<lambda>t. data_offset f + gt_fileOffset t + gt_nbytes t \<le> length (encode_gguf f)) (gf_tensors f)"
    using wf by (simp add: length_encode list_all_iff)
  obtain ts' where ts': "load_loop (encode_gguf f) (data_offset f) (gf_tensors f) d
      = Inr (ts', map fst (uploads_of (encode_gguf f) (data_offset f) (gf_tensors f) d),
          uploads_of (encode_gguf f) (data_offset f) (gf_tensors f) d, d @ map gt_nbytes (gf_tensors f))"
    "map gt_usmPtr ts' = map fst (uploads_of (encode_gguf f) (data_offset f) (gf_tensors f) d)" "map gt_name ts' = map gt_name (gf_tensors f)"
    using load_loop_exact [OF len fit] by blast
  have ld: "loadTensors ?r d = Inr (?r\<lparr>gr_tensors := ts', gr_tensorBuffers := map fst (uploads_of (encode_gguf f) (data_offset f) (gf_tensors f) d),
      gr_file := None\<rparr>, uploads_of (encode_gguf f) (data_offset f) (gf_tensors f) d, d @ map gt_nbytes (gf_tensors f))"
    using ts'(1) by (simp add: loadTensors_def indexed_reader_def newGgufReader_def)
  have us: "map snd (uploads_of (encode_gguf f) (data_offset f) (gf_tensors f) d)
      = map (\<lambda>t. Some (take (gt_nbytes t) (drop (gt_fileOffset t) (gf_data f)))) (gf_tensors f)"
    by (rule nth_equalityI)
      (simp_all add: uploads_of_def nth_enumerate_eq drop_drop [symmetric] add.commute [of "data_offset f"] data_offset_data)
  have dst: "distinct (map fst (uploads_of (encode_gguf f) (data_offset f) (gf_tensors f) d))"
    by (simp add: uploads_of_def distinct_conv_nth nth_enumerate_eq)
  have "file_alignment f > 0" using wf by blast
  then have al: "data_offset f mod file_alignment f = 0" unfolding data_offset_def by (rule align_pad_mod)
  show ?thesis
    by (intro exI conjI, rule open_encoded [OF wf_ix], simp_all only: ld us dst)
      (use ts' al us dst data_offset_data [of f] in \<open>simp_all add: indexed_reader_def newGgufReader_def\<close>)
qed

definition example_gguf :: gguf_file where
  "example_gguf = \<lparr>gf_version = 3,
     gf_metadata = [(map of_char ''a'', MvUInt32 7), (map of_char ''b'', MvArray \<lparr>ga_elementType = UInt16, ga_count = 2, ga_raw = [1, 0, 2, 0], ga_strings = []\<rparr>)],
     gf_tensors = [\<lparr>gt_name = map of_char ''w'', gt_type = F32, gt_dimensions = [2], gt_nelements = 2, gt_nbytes = 8,
        gt_fileOffset = 4, gt_usmPtr = NullPtr, gt_chunkIndex = 0, gt_chunkOffset = 0\<rparr>],
     gf_data = [10, 11, 12, 13, 14, 15, 16, 17, 18, 19, 20, 21]\<rparr>"

lemma wf_example_gguf: "wf_gguf example_gguf"
proof -
  have al: "file_alignment example_gguf = 32"
    by (simp add: file_alignment_def example_gguf_def alignment_key_def)
  have pad: "align_pad 32 (length (enc_index example_gguf)) < 32" by (simp add: align_pad_def)
  have idx: "length (enc_index example_gguf) \<le> 1000"
    by (simp add: enc_index_def example_gguf_def enc_entry_def enc_string_def enc_array_def enc_tensor_def)
  have dat: "length (gf_data example_gguf) = 12" by (simp add: example_gguf_def)
  have "length (encode_gguf example_gguf) < 2 ^ 63"
    unfolding length_encode data_offset_def al using pad idx dat by simp
  then show ?thesis using al
    by (simp add: wf_gguf_def wf_index_def example_gguf_def wf_string_def wf_array_def max_size_def wf_tensor_def bytesForTensor_def mk_info_def)
qed

theorem gguf_roundtrip_witness:
  "\<exists>r r' us d'. open_gguf (encode_gguf example_gguf) = Inr r \<and> length (gr_tensors r) = 1
     \<and> gr_metadata r (map of_char ''a'') = Some (MvUInt32 7) \<and> loadTensors r [] = Inr (r', us, d')
     \<and> map snd us = [Some [14, 15, 16, 17, 18, 19, 20, 21]] \<and> d' = [8]"
proof -
  from gguf_roundtrip [OF wf_example_gguf, of "[]"] obtain r r' us d' where
    "open_gguf (encode_gguf example_gguf) = Inr r" "gr_metadata r = map_of (gf_metadata example_gguf)"
    "gr_tensors r = gf_tensors example_gguf" "loadTensors r [] = Inr (r', us, d')"
    "map snd us = map (\<lambda>t. Some (take (gt_nbytes t) (drop (gt_fileOffset t) (gf_data example_gguf)))) (gf_tensors example_gguf)"
    "d' = [] @ map gt_nbytes (gf_tensors example_gguf)" by blast
  then show ?thesis by (intro exI [of _ r] exI [of _ r'] exI [of _ us] exI [of _ d']) (simp add: example_gguf_def)
qed

section \<open>Files nobody vouches for\<close>

lemma in_bounds_cursor [intro]: "in_bounds (cursor_read n)"
  and in_bounds_readBytes [intro]: "in_bounds (readBytes n)"
  by (simp_all add: in_bounds_def cursor_read_def readBytes_def split: if_splits)

lemma in_bounds_readString [intro]: "in_bounds readString"
  unfolding readString_def by (rule in_bounds_bind [OF in_bounds_cursor]) (auto simp: in_bounds_def split: if_splits)

lemma in_bounds_guard [intro]: "in_bounds (guardR b e)"
  by (auto simp: guardR_def)

lemma in_bounds_if [intro]: "in_bounds a \<Longrightarrow> in_bounds b \<Longrightarrow> in_bounds (if c then a else b)"
  by simp

lemma in_bounds_array [intro]: "in_bounds readArray"
  unfolding readArray_def Let_def by (intro in_bounds_bind in_bounds_if in_bounds_map) auto

lemma in_bounds_value [intro]: "in_bounds (readValue t)"
  by (cases t) auto

lemma in_bounds_metadata_loop: "in_bounds (metadata_loop n al md)"
proof (induction n arbitrary: al md)
  case (Suc n)
  then show ?case unfolding metadata_loop.simps read_entry_def by (intro in_bounds_bind) (auto split: prod.splits)
qed auto

lemma in_bounds_tensor [intro]: "in_bounds read_tensor"
  unfolding read_tensor_def Let_def by (intro in_bounds_bind in_bounds_if) auto

lemma in_bounds_tensor_loop: "in_bounds (tensor_loop n tot ts)"
proof (induction n arbitrary: tot ts)
  case (Suc n)
  then show ?case unfolding tensor_loop.simps by (intro in_bounds_bind) auto
qed auto

lemma in_bounds_index: "in_bounds parse_index"
  unfolding parse_index_def
  by (intro in_bounds_bind in_bounds_if) (auto split: prod.splits intro!: in_bounds_bind in_bounds_metadata_loop in_bounds_map in_bounds_tensor_loop)

text \<open>What the tensor index of an accepted file satisfies.\<close>

definition indexed_tensor :: "GgufTensor \<Rightarrow> bool" where
  "indexed_tensor t \<longleftrightarrow> 1 \<le> length (gt_dimensions t) \<and> length (gt_dimensions t) \<le> 8
     \<and> gt_nelements t = prod_list (gt_dimensions t) mod 2 ^ 64 \<and> gt_nbytes t = bytesForTensor (gt_type t) (gt_nelements t)
     \<and> 0 < gt_nbytes t \<and> gt_nbytes t < 2 ^ 64 \<and> gt_fileOffset t < 2 ^ 64 \<and> gt_usmPtr t = NullPtr
     \<and> list_all (\<lambda>d. d < 2 ^ 64) (gt_dimensions t)"

lemma repeatR_length: "repeatR n r bytes pos = Inr (xs, pos') \<Longrightarrow> length xs = n"
  by (induction n arbitrary: pos xs) (auto simp: returnR_def bindR_def split: sum.splits)

lemma repeatR_pred:
  "repeatR n r bytes pos = Inr (xs, pos') \<Longrightarrow> (\<And>p x p'. r bytes p = Inr (x, p') \<Longrightarrow> P x) \<Longrightarrow> list_all P xs"
  by (induction n arbitrary: pos xs) (fastforce simp: returnR_def bindR_def split: sum.splits)+

lemma cursor_read_bound:
  assumes "cursor_read n bytes pos = Inr (v, pos')"
  shows "v < 256 ^ n"
proof -
  have v: "v = le_val (take n (drop pos bytes))" "pos + n \<le> length bytes"
    using assms by (auto simp: cursor_read_def split: if_splits)
  then have "length (take n (drop pos bytes)) = n" by simp
  then show ?thesis using le_val_bound v(1) by metis
qed

lemma bytesForTensor_lt: "bytesForTensor t n < 2 ^ 64"
  by (simp add: bytesForTensor_def Let_def)

lemma read_tensor_indexed:
  assumes "read_tensor bytes pos = Inr (t, pos')"
  shows "indexed_tensor t"
proof -
  obtain name ndim dims tag off p1 p2 p3 p4 where
    nd: "\<not> (ndim = 0 \<or> ndim > 8)" and dims: "repeatR ndim (cursor_read 8) bytes p2 = Inr (dims, p3)"
    and off: "cursor_read 8 bytes p4 = Inr (off, pos')"
    and nb: "bytesForTensor (ggmlTypeOfTag tag) (foldl (\<lambda>n d. n * d mod 2 ^ 64) 1 dims) \<noteq> 0"
    and t: "t = \<lparr>gt_name = name, gt_type = ggmlTypeOfTag tag, gt_dimensions = dims, gt_nelements = foldl (\<lambda>n d. n * d mod 2 ^ 64) 1 dims,
        gt_nbytes = bytesForTensor (ggmlTypeOfTag tag) (foldl (\<lambda>n d. n * d mod 2 ^ 64) 1 dims), gt_fileOffset = off,
        gt_usmPtr = NullPtr, gt_chunkIndex = 0, gt_chunkOffset = 0\<rparr>"
    using assms unfolding read_tensor_def
    by (auto simp: bindR_def returnR_def failR_def Let_def simp del: One_nat_def split: sum.splits if_splits)
  have "list_all (\<lambda>d. d < 256 ^ 8) dims" by (rule repeatR_pred [OF dims]) (rule cursor_read_bound)
  then show ?thesis
    using nd repeatR_length [OF dims] cursor_read_bound [OF off] nb bytesForTensor_lt
    unfolding indexed_tensor_def t nelem_prod by simp
qed

lemma tensor_loop_indexed:
  assumes "tensor_loop n tot acc bytes pos = Inr ((tot', ts), pos')" "list_all indexed_tensor acc"
  shows "list_all indexed_tensor ts \<and> length ts = length acc + n"
  using assms
proof (induction n arbitrary: tot acc pos)
  case 0
  then show ?case by (simp add: returnR_def)
next
  case (Suc n)
  obtain t p where t: "read_tensor bytes pos = Inr (t, p)"
    and rest: "tensor_loop n ((tot + gt_nbytes t) mod 2 ^ 64) (acc @ [t]) bytes p = Inr ((tot', ts), pos')"
    using Suc.prems(1) by (auto simp: bindR_def split: sum.splits)
  have "list_all indexed_tensor (acc @ [t])" using Suc.prems(2) read_tensor_indexed [OF t] by simp
  from Suc.IH [OF rest this] show ?case by simp
qed

lemma parse_index_indexed:
  assumes "parse_index bytes pos = Inr (r, pos')"
  shows "list_all indexed_tensor (gr_tensors r) \<and> gr_tensorBuffers r = [] \<and> \<not> gr_chunkLoaded r"
proof -
  obtain n p v al md tot ts where run: "tensor_loop n 0 [] bytes p = Inr ((tot, ts), pos')"
    and r: "r = newGgufReader\<lparr>gr_version := v, gr_alignment := al, gr_metadata := md, gr_tensors := ts, gr_totalTensorBytes := tot\<rparr>"
    using assms unfolding parse_index_def mapR_def guardR_def
    by (auto simp: bindR_def returnR_def failR_def split: sum.splits if_splits prod.splits)
  show ?thesis using tensor_loop_indexed [OF run] r by (simp add: newGgufReader_def)
qed

lemma open_gguf_facts:
  assumes "open_gguf file = Inr r"
  shows "gr_file r = Some file" "gr_tensorDataOffset r \<le> length file" "gr_tensorDataOffset r mod gr_alignment r = 0"
    "0 < gr_alignment r" "list_all indexed_tensor (gr_tensors r)" "gr_tensorBuffers r = []" "\<not> gr_chunkLoaded r"
proof -
  obtain q p where q: "parse_index file 0 = Inr (q, p)" "gr_alignment q \<noteq> 0" "p + align_pad (gr_alignment q) p \<le> length file"
    "r = q\<lparr>gr_file := Some file, gr_tensorDataOffset := p + align_pad (gr_alignment q) p\<rparr>"
    using assms by (auto simp: open_gguf_def Let_def align_pad_def split: sum.splits if_splits)
  then show "gr_file r = Some file" "gr_tensorDataOffset r \<le> length file" "gr_tensorDataOffset r mod gr_alignment r = 0"
    "0 < gr_alignment r" "list_all indexed_tensor (gr_tensors r)" "gr_tensorBuffers r = []" "\<not> gr_chunkLoaded r"
    using align_pad_mod [of "gr_alignment q" p] parse_index_indexed [OF q(1)] by simp_all
qed

lemma payload_check_sound:
  assumes "payload_check file dataOff t = Inr a" "dataOff + gt_fileOffset t + gt_nbytes t < 2 ^ 64"
  shows "a = dataOff + gt_fileOffset t \<and> a + gt_nbytes t \<le> length file"
proof -
  have "(dataOff + gt_fileOffset t) mod 2 ^ 64 = dataOff + gt_fileOffset t" using assms(2) by (intro mod_less) linarith
  then show ?thesis using assms by (simp add: payload_check_def Let_def split: if_splits)
qed

lemma load_loop_sound:
  assumes "load_loop file dataOff ts d = Inr (ts', ps, us, d')"
    "list_all (\<lambda>t. dataOff + gt_fileOffset t + gt_nbytes t < 2 ^ 64) ts"
  shows "list_all (\<lambda>t. dataOff + gt_fileOffset t + gt_nbytes t \<le> length file) ts"
  using assms
proof (induction ts arbitrary: d ts' ps us d')
  case (Cons t ts)
  obtain a x where "payload_check file dataOff t = Inr a" "load_loop file dataOff ts (d @ [gt_nbytes t]) = Inr x"
    using Cons.prems(1) by (auto simp: device_alloc_def)
  then show ?case using Cons payload_check_sound by (cases x) fastforce
qed simp


lemma example_gguf_index_length: "length (enc_index example_gguf) = 103"
  by (simp add: enc_index_def example_gguf_def enc_entry_def enc_string_def enc_array_def enc_tensor_def)


section \<open>The bounds check wraps\<close>

definition wrapping_gguf :: gguf_file where
  "wrapping_gguf = \<lparr>gf_version = 3, gf_metadata = [],
     gf_tensors = [\<lparr>gt_name = map of_char ''w'', gt_type = F32, gt_dimensions = [8], gt_nelements = 8, gt_nbytes = 32,
        gt_fileOffset = 2 ^ 64 - 80, gt_usmPtr = NullPtr, gt_chunkIndex = 0, gt_chunkOffset = 0\<rparr>],
     gf_data = replicate 32 0\<rparr>"

lemma wrapping_gguf_index: "length (enc_index wrapping_gguf) = 57"
  by (simp add: enc_index_def wrapping_gguf_def enc_string_def enc_tensor_def)

lemma wrapping_gguf_offset: "file_alignment wrapping_gguf = 32" "data_offset wrapping_gguf = 64" "length (encode_gguf wrapping_gguf) = 96"
proof -
  show al: "file_alignment wrapping_gguf = 32" by (simp add: file_alignment_def wrapping_gguf_def)
  show off: "data_offset wrapping_gguf = 64" by (simp add: data_offset_def wrapping_gguf_index al align_pad_def)
  show "length (encode_gguf wrapping_gguf) = 96" unfolding length_encode off by (simp add: wrapping_gguf_def)
qed

lemma wf_wrapping_gguf: "wf_index wrapping_gguf"
  using wrapping_gguf_offset
  by (simp add: wf_index_def wrapping_gguf_def wf_string_def max_size_def wf_tensor_def bytesForTensor_def mk_info_def)

text \<open>
  C21. The end-of-file check of \<^verbatim>\<open>loadTensors\<close> is computed in 64-bit arithmetic that wraps: there is a 96-byte
  file whose only tensor has a data offset near \<open>2 ^ 64\<close>; opening it and loading it succeed, yet the range
  the upload reads is not inside the mapping.
\<close>

theorem gguf_bounds_check_wraps:
  "\<exists>file r r' us d'. length file = 96 \<and> open_gguf file = Inr r \<and> loadTensors r [] = Inr (r', us, d') \<and> map snd us = [None]"
proof -
  let ?r = "(indexed_reader wrapping_gguf)\<lparr>gr_file := Some (encode_gguf wrapping_gguf), gr_tensorDataOffset := 64\<rparr>"
  have op: "open_gguf (encode_gguf wrapping_gguf) = Inr ?r"
    using open_encoded [OF wf_wrapping_gguf] by (simp only: wrapping_gguf_offset)
  obtain r' us d' where "loadTensors ?r [] = Inr (r', us, d') \<and> map snd us = [None]"
    by (simp add: loadTensors_def indexed_reader_def newGgufReader_def wrapping_gguf_offset)
      (simp add: wrapping_gguf_def payload_check_def device_alloc_def mapped_read_def
        wrapping_gguf_offset(3) [unfolded wrapping_gguf_def, simplified])
  then show ?thesis using op wrapping_gguf_offset(3)
    by (intro exI [of _ "encode_gguf wrapping_gguf"] exI [of _ ?r] exI [of _ r'] exI [of _ us] exI [of _ d']) simp
qed

end
