(* ===== verification/MuninWire.thy ===== *)
theory MuninWire
  imports Complex_Main Gguf
begin

text \<open>
  The wire between the weight server (Munin) and a worker: JSON bodies
  (\<^verbatim>\<open>src/core/ipc/TensorManifest.{hpp,cpp}\<close>, \<^verbatim>\<open>src/core/ipc/WireOps.{hpp,cpp}\<close>) and length-prefixed frames with
  descriptors on a stream socket (\<^verbatim>\<open>src/core/ipc/UnixSocketFrame.{hpp,cpp}\<close>).

  JSON values and the accessors the code uses are modelled; the text form is not: \<^verbatim>\<open>dump\<close> and \<^verbatim>\<open>parse\<close> of the
  JSON library are arguments. \<^verbatim>\<open>dump\<close> may throw (it does so on text that is not UTF-8), \<^verbatim>\<open>parse\<close> gives None
  on a parse error. A \<^verbatim>\<open>std::expected<T, std::string>\<close> is a sum with the message on the left. A descriptor is the
  number of the memory object it refers to: \<^verbatim>\<open>SCM_RIGHTS\<close> changes its number, not what it refers to.
\<close>

type_synonym 'a expected = "string + 'a"

definition bytes_of :: "string \<Rightarrow> u8 list" where
  "bytes_of s = map of_char s"

section \<open>JSON values\<close>

datatype json =
    JNull
  | JBool bool
  | JUnsigned nat
  | JInteger int
  | JFloat real
  | JString "u8 list"
  | JArray "json list"
  | JObject "(string \<times> json) list"

definition truncate_real :: "real \<Rightarrow> int" where
  "truncate_real r = (if r < 0 then \<lceil>r\<rceil> else \<lfloor>r\<rfloor>)"

fun get_u64 :: "json \<Rightarrow> nat expected" where
  "get_u64 (JUnsigned n) = Inr (n mod 2 ^ 64)"
| "get_u64 (JInteger i) = Inr (nat (i mod 2 ^ 64))"
| "get_u64 (JFloat r) = Inr (nat (truncate_real r mod 2 ^ 64))"
| "get_u64 _ = Inl ''type must be number''"

fun get_u32 :: "json \<Rightarrow> nat expected" where
  "get_u32 (JUnsigned n) = Inr (n mod 2 ^ 32)"
| "get_u32 (JInteger i) = Inr (nat (i mod 2 ^ 32))"
| "get_u32 (JFloat r) = Inr (nat (truncate_real r mod 2 ^ 32))"
| "get_u32 (JBool b) = Inr (if b then 1 else 0)"
| "get_u32 _ = Inl ''type must be number''"

fun get_string :: "json \<Rightarrow> u8 list expected" where
  "get_string (JString s) = Inr s"
| "get_string _ = Inl ''type must be string''"

fun get_array :: "json \<Rightarrow> json list expected" where
  "get_array (JArray xs) = Inr xs"
| "get_array _ = Inl ''type must be array''"

definition json_at :: "(string \<times> json) list \<Rightarrow> string \<Rightarrow> json expected" where
  "json_at kvs key = (case map_of kvs key of None \<Rightarrow> Inl (''key not found: '' @ key) | Some v \<Rightarrow> Inr v)"

section \<open>The manifest\<close>

record ChunkDesc =
  cd_chunkIndex :: nat
  cd_bytes :: nat

record ShardDesc =
  sd_name :: "u8 list"
  sd_chunkIndex :: nat
  sd_chunkOffset :: nat
  sd_bytes :: nat

record ManifestEntry =
  me_name :: "u8 list"
  me_type :: GgmlType
  me_dims :: "nat list"
  me_bytes :: nat
  me_chunkIndex :: nat
  me_chunkOffset :: nat

record TensorManifest =
  tm_protocolVersion :: nat
  tm_modelId :: "u8 list"
  tm_modelFingerprint :: "u8 list"
  tm_chunks :: "ChunkDesc list"
  tm_format :: "u8 list"
  tm_tensors :: "ManifestEntry list"
  tm_shards :: "ShardDesc list"
  tm_declaredTotalSize :: nat

definition kCurrentProtocolVersion :: nat where
  "kCurrentProtocolVersion = 2"

definition chunk_json :: "ChunkDesc \<Rightarrow> json" where
  "chunk_json c = JObject [(''chunk_index'', JUnsigned (cd_chunkIndex c)), (''bytes'', JUnsigned (cd_bytes c))]"

definition entry_json :: "ManifestEntry \<Rightarrow> json" where
  "entry_json t = JObject [(''name'', JString (me_name t)), (''type_id'', JUnsigned (ggmlTypeTag (me_type t))),
     (''dims'', JArray (map JUnsigned (me_dims t))), (''bytes'', JUnsigned (me_bytes t)),
     (''chunk_index'', JUnsigned (me_chunkIndex t)), (''chunk_offset'', JUnsigned (me_chunkOffset t))]"

definition shard_json :: "ShardDesc \<Rightarrow> json" where
  "shard_json s = JObject [(''name'', JString (sd_name s)), (''chunk_index'', JUnsigned (sd_chunkIndex s)),
     (''chunk_offset'', JUnsigned (sd_chunkOffset s)), (''bytes'', JUnsigned (sd_bytes s))]"

definition manifest_json :: "TensorManifest \<Rightarrow> json" where
  "manifest_json m = JObject [(''protocol_version'', JUnsigned (tm_protocolVersion m)), (''model_id'', JString (tm_modelId m)),
     (''model_fingerprint'', JString (tm_modelFingerprint m)), (''chunks'', JArray (map chunk_json (tm_chunks m))),
     (''tensors'', JArray (map entry_json (tm_tensors m))), (''format'', JString (tm_format m)),
     (''shards'', JArray (map shard_json (tm_shards m))), (''declared_total_size'', JUnsigned (tm_declaredTotalSize m))]"

definition manifest_toJson :: "(json \<Rightarrow> u8 list result) \<Rightarrow> TensorManifest \<Rightarrow> u8 list result" where
  "manifest_toJson dump m = dump (manifest_json m)"

definition readField :: "(string \<times> json) list \<Rightarrow> string \<Rightarrow> json expected" where
  "readField kvs key = (case map_of kvs key of None \<Rightarrow> Inl (''TensorManifest: missing required field '' @ key) | Some v \<Rightarrow> Inr v)"

fun read_version :: "json \<Rightarrow> nat expected" where
  "read_version (JUnsigned n) =
     (let v = n mod 2 ^ 32
      in if v \<noteq> kCurrentProtocolVersion then Inl ''TensorManifest: protocol_version does not match'' else Inr v)"
| "read_version _ = Inl ''TensorManifest: protocol_version must be an unsigned integer''"

fun read_text :: "string \<Rightarrow> json \<Rightarrow> u8 list expected" where
  "read_text what (JString s) = Inr s"
| "read_text what _ = Inl (''TensorManifest: '' @ what @ '' must be a string'')"

fun read_list :: "string \<Rightarrow> json \<Rightarrow> json list expected" where
  "read_list what (JArray xs) = Inr xs"
| "read_list what _ = Inl (''TensorManifest: '' @ what @ '' must be an array'')"

fun read_chunk :: "json \<Rightarrow> ChunkDesc expected" where
  "read_chunk (JObject kvs) =
     bind_result (bind_result (json_at kvs ''chunk_index'') get_u32) (\<lambda>i.
     bind_result (bind_result (json_at kvs ''bytes'') get_u64) (\<lambda>b.
     Inr \<lparr>cd_chunkIndex = i, cd_bytes = b\<rparr>))"
| "read_chunk _ = Inl ''TensorManifest: chunks entry is not an object''"

fun read_tensor_entry :: "nat \<Rightarrow> json \<Rightarrow> ManifestEntry expected" where
  "read_tensor_entry nChunks (JObject kvs) =
     bind_result (bind_result (json_at kvs ''name'') get_string) (\<lambda>name.
     bind_result (bind_result (json_at kvs ''type_id'') get_u32) (\<lambda>ty.
     bind_result (bind_result (bind_result (json_at kvs ''dims'') get_array) (map_result get_u64)) (\<lambda>dims.
     bind_result (bind_result (json_at kvs ''bytes'') get_u64) (\<lambda>b.
     bind_result (bind_result (json_at kvs ''chunk_index'') get_u32) (\<lambda>ci.
     bind_result (bind_result (json_at kvs ''chunk_offset'') get_u64) (\<lambda>co.
     if ci \<ge> nChunks then Inl ''TensorManifest: tensor references an undeclared chunk''
     else Inr \<lparr>me_name = name, me_type = ggmlTypeOfTag ty, me_dims = dims, me_bytes = b, me_chunkIndex = ci, me_chunkOffset = co\<rparr>))))))"
| "read_tensor_entry nChunks _ = Inl ''TensorManifest: tensors entry is not an object''"

fun read_shard :: "nat \<Rightarrow> json \<Rightarrow> ShardDesc expected" where
  "read_shard nChunks (JObject kvs) =
     bind_result (bind_result (json_at kvs ''name'') get_string) (\<lambda>name.
     bind_result (bind_result (json_at kvs ''chunk_index'') get_u32) (\<lambda>ci.
     bind_result (bind_result (json_at kvs ''chunk_offset'') get_u64) (\<lambda>co.
     bind_result (bind_result (json_at kvs ''bytes'') get_u64) (\<lambda>b.
     if ci \<ge> nChunks then Inl ''TensorManifest: shard references an undeclared chunk''
     else Inr \<lparr>sd_name = name, sd_chunkIndex = ci, sd_chunkOffset = co, sd_bytes = b\<rparr>))))"
| "read_shard nChunks _ = Inl ''TensorManifest: shards entry is not an object''"

definition read_format :: "(string \<times> json) list \<Rightarrow> u8 list expected" where
  "read_format kvs = (case map_of kvs ''format'' of None \<Rightarrow> Inr [] | Some v \<Rightarrow> read_text ''format'' v)"

definition read_total :: "(string \<times> json) list \<Rightarrow> nat expected" where
  "read_total kvs = (case map_of kvs ''declared_total_size'' of None \<Rightarrow> Inr 0 | Some (JUnsigned n) \<Rightarrow> Inr (n mod 2 ^ 64)
     | Some _ \<Rightarrow> Inl ''TensorManifest: declared_total_size must be an unsigned integer'')"

definition read_shards :: "nat \<Rightarrow> (string \<times> json) list \<Rightarrow> ShardDesc list expected" where
  "read_shards nChunks kvs = (case map_of kvs ''shards'' of None \<Rightarrow> Inr []
     | Some v \<Rightarrow> bind_result (read_list ''shards'' v) (map_result (read_shard nChunks)))"

fun manifest_of_json :: "json \<Rightarrow> TensorManifest expected" where
  "manifest_of_json (JObject kvs) =
     bind_result (bind_result (readField kvs ''protocol_version'') read_version) (\<lambda>v.
     bind_result (bind_result (readField kvs ''model_id'') (read_text ''model_id'')) (\<lambda>mid.
     bind_result (bind_result (readField kvs ''model_fingerprint'') (read_text ''model_fingerprint'')) (\<lambda>fp.
     bind_result (bind_result (bind_result (readField kvs ''chunks'') (read_list ''chunks'')) (map_result read_chunk)) (\<lambda>cs.
     bind_result (bind_result (bind_result (readField kvs ''tensors'') (read_list ''tensors'')) (map_result (read_tensor_entry (length cs)))) (\<lambda>ts.
     bind_result (read_format kvs) (\<lambda>fmt.
     bind_result (read_total kvs) (\<lambda>tot.
     bind_result (read_shards (length cs) kvs) (\<lambda>ss.
     Inr \<lparr>tm_protocolVersion = v, tm_modelId = mid, tm_modelFingerprint = fp, tm_chunks = cs, tm_format = fmt, tm_tensors = ts,
          tm_shards = ss, tm_declaredTotalSize = tot\<rparr>))))))))"
| "manifest_of_json _ = Inl ''TensorManifest: root is not an object''"

definition manifest_fromJson :: "(u8 list \<Rightarrow> json option) \<Rightarrow> u8 list \<Rightarrow> TensorManifest expected" where
  "manifest_fromJson parse s =
     (case parse s of None \<Rightarrow> Inl ''TensorManifest: JSON parse error'' | Some j \<Rightarrow> manifest_of_json j)"

section \<open>Requests and replies\<close>

record RequestEnvelope =
  re_op :: "u8 list"
  re_modelId :: "u8 list"

definition request_fromJson :: "(u8 list \<Rightarrow> json option) \<Rightarrow> u8 list \<Rightarrow> RequestEnvelope expected" where
  "request_fromJson parse s =
     (case parse s of None \<Rightarrow> Inl ''RequestEnvelope: JSON parse error''
      | Some (JObject kvs) \<Rightarrow>
          (case map_of kvs ''op'' of
             Some (JString op) \<Rightarrow>
               (case map_of kvs ''modelId'' of None \<Rightarrow> Inr \<lparr>re_op = op, re_modelId = []\<rparr>
                | Some (JString mid) \<Rightarrow> Inr \<lparr>re_op = op, re_modelId = mid\<rparr>
                | Some _ \<Rightarrow> Inl ''RequestEnvelope: modelId must be a string when present'')
           | _ \<Rightarrow> Inl ''RequestEnvelope: missing required string field op'')
      | Some _ \<Rightarrow> Inl ''RequestEnvelope: root is not an object'')"

record ModelSummaryWire =
  ms_id :: "u8 list"
  ms_fingerprint :: "u8 list"
  ms_totalBytes :: nat
  ms_tensorCount :: nat

record HealthzResponse =
  hr_protocolVersion :: nat
  hr_status :: "u8 list"
  hr_governorOwner :: "u8 list"
  hr_pid :: nat
  hr_models :: "ModelSummaryWire list"

definition summary_json :: "ModelSummaryWire \<Rightarrow> json" where
  "summary_json m = JObject [(''id'', JString (ms_id m)), (''fingerprint'', JString (ms_fingerprint m)),
     (''total_bytes'', JUnsigned (ms_totalBytes m)), (''tensor_count'', JUnsigned (ms_tensorCount m))]"

definition healthz_json :: "HealthzResponse \<Rightarrow> json" where
  "healthz_json r = JObject [(''protocol_version'', JUnsigned (hr_protocolVersion r)), (''status'', JString (hr_status r)),
     (''governor_owner'', JString (hr_governorOwner r)), (''pid'', JUnsigned (hr_pid r)), (''models'', JArray (map summary_json (hr_models r)))]"

fun read_summary :: "json \<Rightarrow> ModelSummaryWire expected" where
  "read_summary (JObject kvs) =
     bind_result (bind_result (json_at kvs ''id'') get_string) (\<lambda>i.
     bind_result (bind_result (json_at kvs ''fingerprint'') get_string) (\<lambda>fp.
     bind_result (bind_result (json_at kvs ''total_bytes'') get_u64) (\<lambda>b.
     bind_result (bind_result (json_at kvs ''tensor_count'') get_u32) (\<lambda>n.
     Inr \<lparr>ms_id = i, ms_fingerprint = fp, ms_totalBytes = b, ms_tensorCount = n\<rparr>))))"
| "read_summary _ = Inl ''HealthzResponse: field extraction failed''"

fun healthz_of_json :: "json \<Rightarrow> HealthzResponse expected" where
  "healthz_of_json (JObject kvs) =
     bind_result (bind_result (json_at kvs ''protocol_version'') get_u32) (\<lambda>v.
     bind_result (bind_result (json_at kvs ''status'') get_string) (\<lambda>st.
     bind_result (bind_result (json_at kvs ''governor_owner'') get_string) (\<lambda>gov.
     bind_result (bind_result (json_at kvs ''pid'') get_u32) (\<lambda>pid.
     bind_result (bind_result (bind_result (json_at kvs ''models'') get_array) (map_result read_summary)) (\<lambda>ms.
     Inr \<lparr>hr_protocolVersion = v, hr_status = st, hr_governorOwner = gov, hr_pid = pid, hr_models = ms\<rparr>)))))"
| "healthz_of_json _ = Inl ''HealthzResponse: root is not an object''"

definition healthz_fromJson :: "(u8 list \<Rightarrow> json option) \<Rightarrow> u8 list \<Rightarrow> HealthzResponse expected" where
  "healthz_fromJson parse s = (case parse s of None \<Rightarrow> Inl ''HealthzResponse: JSON parse error'' | Some j \<Rightarrow> healthz_of_json j)"

definition error_json :: "u8 list \<Rightarrow> json" where
  "error_json msg = JObject [(''error'', JString msg)]"

definition makeErrorJson :: "(json \<Rightarrow> u8 list result) \<Rightarrow> u8 list \<Rightarrow> u8 list result" where
  "makeErrorJson dump msg = dump (error_json msg)"

definition parseErrorJson :: "(u8 list \<Rightarrow> json option) \<Rightarrow> u8 list \<Rightarrow> u8 list expected" where
  "parseErrorJson parse s =
     (case parse s of None \<Rightarrow> Inl ''parseErrorJson: JSON parse error''
      | Some (JObject kvs) \<Rightarrow>
          (case map_of kvs ''error'' of Some (JString msg) \<Rightarrow> Inr msg | _ \<Rightarrow> Inl ''parseErrorJson: no string error field in envelope'')
      | Some _ \<Rightarrow> Inl ''parseErrorJson: no string error field in envelope'')"

section \<open>Frames\<close>

text \<open>
  The stream socket is the list of bytes under way, each with the descriptors attached to it. How many
  bytes one \<^verbatim>\<open>recvmsg\<close> or \<^verbatim>\<open>sendmsg\<close> moves is up to the kernel: the argument \<open>chop\<close> chooses, from the bytes
  left, any number; at least one and at most what is asked for are moved. An empty list in front of a reader
  is a peer that has closed. Retries after \<^verbatim>\<open>EINTR\<close> change nothing and are left out.
\<close>

type_synonym wire = "(u8 \<times> int list) list"

record Frame =
  fr_payload :: "u8 list"
  fr_fds :: "int list"

definition kMaxFdsPerFrame :: nat where
  "kMaxFdsPerFrame = 253"

definition kDefaultMaxPayload :: nat where
  "kDefaultMaxPayload = 64 * 1024 * 1024"

function readExact :: "(nat \<Rightarrow> nat) \<Rightarrow> wire \<Rightarrow> nat \<Rightarrow> (u8 list \<times> int list \<times> wire) expected" where
  "readExact chop w n =
     (if n = 0 then Inr ([], [], w)
      else if w = [] then Inl ''recvmsg: peer closed connection''
      else let r = max 1 (min (chop n) (min n (length w)))
           in bind_result (readExact chop (drop r w) (n - r)) (\<lambda>(bs, fds, w').
                Inr (map fst (take r w) @ bs, concat (map snd (take r w)) @ fds, w')))"
  by pat_completeness auto
termination by (relation "measure (\<lambda>(chop, w, n). n)") auto

definition segment :: "u8 list \<Rightarrow> int list \<Rightarrow> wire" where
  "segment bs fds = (case bs of [] \<Rightarrow> [] | b # bs' \<Rightarrow> (b, fds) # map (\<lambda>b. (b, [])) bs')"

function writeExactWithFds :: "(nat \<Rightarrow> nat) \<Rightarrow> u8 list \<Rightarrow> int list \<Rightarrow> bool \<Rightarrow> wire" where
  "writeExactWithFds chop src fds controlAttached =
     (if src = [] then []
      else let r = max 1 (min (chop (length src)) (length src))
           in segment (take r src) (if controlAttached then [] else fds) @ writeExactWithFds chop (drop r src) fds True)"
  by pat_completeness auto
termination by (relation "measure (\<lambda>(chop, src, fds, c). length src)") auto

declare readExact.simps [simp del] writeExactWithFds.simps [simp del]

definition frame_send :: "(nat \<Rightarrow> nat) \<Rightarrow> u8 list \<Rightarrow> int list \<Rightarrow> wire expected" where
  "frame_send chop payload fds =
     (if length fds > kMaxFdsPerFrame then Inl ''send: fds.size() exceeds SCM_MAX_FD''
      else Inr (writeExactWithFds chop (le_bytes 4 (length payload mod 2 ^ 32)) fds False
             @ (if payload \<noteq> [] then writeExactWithFds chop payload [] False else [])))"

definition frame_recv :: "(nat \<Rightarrow> nat) \<Rightarrow> nat \<Rightarrow> wire \<Rightarrow> (Frame \<times> wire) expected" where
  "frame_recv chop maxPayloadBytes w =
     bind_result (readExact chop w 4) (\<lambda>(prefix, fds, w1).
       let lenLE = le_val prefix
       in if lenLE > maxPayloadBytes then Inl ''recv: frame length exceeds max''
          else if lenLE > 0
          then bind_result (readExact chop w1 lenLE) (\<lambda>(bs, fds', w2). Inr (\<lparr>fr_payload = bs, fr_fds = fds @ fds'\<rparr>, w2))
          else Inr (\<lparr>fr_payload = [], fr_fds = fds\<rparr>, w1))"

section \<open>Framing does not depend on how the kernel splits the stream\<close>

lemma readExact_step:
  assumes "n \<noteq> 0" "w \<noteq> []"
  obtains r where "1 \<le> r" "r \<le> n" "r \<le> length w" "readExact chop w n = bind_result (readExact chop (drop r w) (n - r)) (\<lambda>(bs, fds, w').
    Inr (map fst (take r w) @ bs, concat (map snd (take r w)) @ fds, w'))"
proof
  let ?r = "max 1 (min (chop n) (min n (length w)))"
  have "1 \<le> length w" using assms(2) by (simp add: Suc_le_eq)
  then show "1 \<le> ?r" "?r \<le> n" "?r \<le> length w" using assms(1) by simp_all
  show "readExact chop w n = bind_result (readExact chop (drop ?r w) (n - ?r)) (\<lambda>(bs, fds, w').
    Inr (map fst (take ?r w) @ bs, concat (map snd (take ?r w)) @ fds, w'))"
    by (subst readExact.simps) (simp only: assms if_False Let_def)
qed

lemma readExact_exact:
  "n \<le> length w \<Longrightarrow> readExact chop w n = Inr (map fst (take n w), concat (map snd (take n w)), drop n w)"
proof (induction n arbitrary: w rule: less_induct)
  case (less n)
  show ?case
  proof (cases "n = 0")
    case False
    then have "w \<noteq> []" using less.prems by auto
    from readExact_step [OF False this] obtain r where r: "1 \<le> r" "r \<le> n" and
      run: "readExact chop w n = bind_result (readExact chop (drop r w) (n - r)) (\<lambda>(bs, fds, w').
        Inr (map fst (take r w) @ bs, concat (map snd (take r w)) @ fds, w'))" by metis
    have IH: "readExact chop (drop r w) (n - r)
        = Inr (map fst (take (n - r) (drop r w)), concat (map snd (take (n - r) (drop r w))), drop (n - r) (drop r w))"
      using r less by (intro less.IH) auto
    have "take n w = take r w @ take (n - r) (drop r w)" using r take_add [of r "n - r" w] by simp
    then show ?thesis unfolding run IH using r by simp
  qed (simp add: readExact.simps)
qed

lemma readExact_short: "length w < n \<Longrightarrow> readExact chop w n = Inl ''recvmsg: peer closed connection''"
proof (induction n arbitrary: w rule: less_induct)
  case (less n)
  show ?case
  proof (cases "w = []")
    case False
    have "n \<noteq> 0" using less.prems by simp
    from readExact_step [OF this False] obtain r where r: "1 \<le> r" "r \<le> length w" and
      run: "readExact chop w n = bind_result (readExact chop (drop r w) (n - r)) (\<lambda>(bs, fds, w').
        Inr (map fst (take r w) @ bs, concat (map snd (take r w)) @ fds, w'))" by metis
    have "readExact chop (drop r w) (n - r) = Inl ''recvmsg: peer closed connection''"
      using r less.prems by (intro less.IH) auto
    then show ?thesis unfolding run by simp
  qed (use less.prems in \<open>simp add: readExact.simps\<close>)
qed

lemma segment_plain: "segment bs [] = map (\<lambda>b. (b, [])) bs"
  by (simp add: segment_def split: list.splits)

lemma segment_split: "1 \<le> r \<Longrightarrow> segment (take r bs) fds @ segment (drop r bs) [] = segment bs fds"
proof -
  assume "1 \<le> r"
  then obtain k where "r = Suc k" by (cases r) auto
  moreover have "map (\<lambda>b. (b, [])) (take k xs) @ map (\<lambda>b. (b, [])) (drop k xs) = map (\<lambda>b. (b, [] :: int list)) xs" for xs :: "u8 list"
    by (simp only: map_append [symmetric] append_take_drop_id)
  ultimately show ?thesis by (cases bs) (simp_all add: segment_plain, simp_all add: segment_def)
qed

lemma writeExact_step:
  assumes "src \<noteq> []"
  obtains r where "1 \<le> r" "writeExactWithFds chop src fds c = segment (take r src) (if c then [] else fds) @ writeExactWithFds chop (drop r src) fds True"
proof
  let ?r = "max 1 (min (chop (length src)) (length src))"
  show "1 \<le> ?r" by simp
  show "writeExactWithFds chop src fds c = segment (take ?r src) (if c then [] else fds) @ writeExactWithFds chop (drop ?r src) fds True"
    by (subst writeExactWithFds.simps) (simp only: assms if_False Let_def)
qed

lemma writeExact_plain: "writeExactWithFds chop src fds True = segment src []"
proof (induction src rule: length_induct)
  case (1 src)
  show ?case
  proof (cases "src = []")
    case False
    from writeExact_step [OF this] obtain r where r: "1 \<le> r" and
      run: "writeExactWithFds chop src fds True = segment (take r src) (if True then [] else fds) @ writeExactWithFds chop (drop r src) fds True"
      by metis
    have "length (drop r src) < length src" using r False by (simp add: Suc_le_eq)
    then have "writeExactWithFds chop (drop r src) fds True = segment (drop r src) []" using 1 by blast
    then show ?thesis unfolding run using segment_split [OF r, of src "[]"] by simp
  qed (simp add: writeExactWithFds.simps segment_def)
qed

lemma writeExact_segment: "writeExactWithFds chop src fds False = segment src fds"
proof (cases "src = []")
  case False
  from writeExact_step [OF this] obtain r where r: "1 \<le> r" and
    run: "writeExactWithFds chop src fds False = segment (take r src) (if False then [] else fds) @ writeExactWithFds chop (drop r src) fds True"
    by metis
  show ?thesis unfolding run writeExact_plain using segment_split [OF r, of src fds] by simp
qed (simp add: writeExactWithFds.simps segment_def)

lemma length_segment [simp]: "length (segment bs fds) = length bs"
  and fst_segment [simp]: "map fst (segment bs fds) = bs"
  and snd_segment: "concat (map snd (segment bs fds)) = (if bs = [] then [] else fds)"
  by (auto simp: segment_def comp_def split: list.splits)

text \<open>What a frame looks like under way.\<close>

definition frame_wire :: "u8 list \<Rightarrow> int list \<Rightarrow> wire" where
  "frame_wire payload fds = segment (le_bytes 4 (length payload mod 2 ^ 32)) fds @ segment payload []"

lemma frame_send_wire: "length fds \<le> kMaxFdsPerFrame \<Longrightarrow> frame_send chop payload fds = Inr (frame_wire payload fds)"
  by (auto simp: frame_send_def frame_wire_def writeExact_segment segment_def)

lemma le_bytes_4_nonempty: "le_bytes 4 v \<noteq> []"
  using length_le_bytes [of 4 v] by (metis list.size(3) zero_neq_numeral)

lemma frame_recv_wire:
  assumes "length payload < 2 ^ 32" "length payload \<le> maxPayload"
  shows "frame_recv chop maxPayload (frame_wire payload fds @ rest) = Inr (\<lparr>fr_payload = payload, fr_fds = fds\<rparr>, rest)"
proof -
  let ?p = "segment (le_bytes 4 (length payload)) fds"
  have w: "frame_wire payload fds @ rest = ?p @ segment payload [] @ rest" using assms(1) by (simp add: frame_wire_def)
  have "readExact chop (?p @ segment payload [] @ rest) 4 = Inr (le_bytes 4 (length payload), fds, segment payload [] @ rest)"
    using readExact_exact [of 4 "?p @ segment payload [] @ rest" chop] by (simp add: snd_segment le_bytes_4_nonempty)
  moreover have "le_val (le_bytes 4 (length payload)) = length payload" using assms(1) by (intro le_val_le_bytes) simp
  moreover have "readExact chop (segment payload [] @ rest) (length payload) = Inr (payload, [], rest)"
    using readExact_exact [of "length payload" "segment payload [] @ rest" chop] by (simp add: snd_segment)
  ultimately show ?thesis unfolding w frame_recv_def using assms(2) by (auto simp: Let_def segment_def)
qed

text \<open>
  C24. Framing. Whatever way the kernel cuts the stream on either side, a sent frame is received as it was
  sent, payload and descriptors, and the reader stops exactly at the next frame; a frame cut short by a
  closing peer, or one longer than the receiver's limit, is refused.
\<close>

theorem frame_roundtrip:
  assumes "length payload < 2 ^ 32" "length fds \<le> 253"
  shows "\<exists>w. frame_send chop payload fds = Inr w
    \<and> (length payload \<le> maxPayload \<longrightarrow> frame_recv chop' maxPayload (w @ rest) = Inr (\<lparr>fr_payload = payload, fr_fds = fds\<rparr>, rest))
    \<and> (maxPayload < length payload \<longrightarrow> frame_recv chop' maxPayload (w @ rest) = Inl ''recv: frame length exceeds max'')
    \<and> (k < length w \<longrightarrow> length payload \<le> maxPayload \<longrightarrow> frame_recv chop' maxPayload (take k w) = Inl ''recvmsg: peer closed connection'')"
proof (intro exI conjI impI)
  let ?w = "frame_wire payload fds"
  show "frame_send chop payload fds = Inr ?w" using assms(2) by (intro frame_send_wire) (simp add: kMaxFdsPerFrame_def)
  show "frame_recv chop' maxPayload (?w @ rest) = Inr (\<lparr>fr_payload = payload, fr_fds = fds\<rparr>, rest)" if "length payload \<le> maxPayload"
    by (rule frame_recv_wire [OF assms(1) that])
  let ?p = "segment (le_bytes 4 (length payload)) fds"
  have w: "?w = ?p @ segment payload []" using assms(1) by (simp add: frame_wire_def)
  have val: "le_val (le_bytes 4 (length payload)) = length payload" using assms(1) by (intro le_val_le_bytes) simp
  have pre: "readExact chop' (?p @ u) 4 = Inr (le_bytes 4 (length payload), fds, u)" for u
    using readExact_exact [of 4 "?p @ u" chop'] by (simp add: snd_segment le_bytes_4_nonempty)
  show "frame_recv chop' maxPayload (?w @ rest) = Inl ''recv: frame length exceeds max''" if "maxPayload < length payload"
    unfolding w frame_recv_def append_assoc pre using that by (simp add: val)
  show "frame_recv chop' maxPayload (take k ?w) = Inl ''recvmsg: peer closed connection''"
    if k: "k < length ?w" and "length payload \<le> maxPayload"
  proof (cases "k < 4")
    case True
    then show ?thesis using readExact_short [of "take k ?w" 4 chop'] by (simp add: frame_recv_def)
  next
    case False
    then have t: "take k ?w = ?p @ take (k - 4) (segment payload [])" by (simp add: w)
    have short: "length (take (k - 4) (segment payload [])) < length payload" "0 < length payload" using k False by (simp_all only: w length_append length_segment length_le_bytes length_take)
    then show ?thesis unfolding t frame_recv_def pre using that(2) readExact_short [OF short(1), of chop'] by (simp add: val)
  qed
qed

theorem frame_roundtrip_witness:
  "\<exists>w. frame_send (\<lambda>_. 3) [7, 8, 9] [5] = Inr w \<and> frame_recv (\<lambda>_. 2) 128 (w @ []) = Inr (\<lparr>fr_payload = [7, 8, 9], fr_fds = [5]\<rparr>, [])"
  using frame_roundtrip [of "[7, 8, 9]" "[5]" "\<lambda>_. 3" 128 "\<lambda>_. 2" "[]" 0] by auto

section \<open>Bodies survive the wire\<close>

definition wf_entry :: "nat \<Rightarrow> ManifestEntry \<Rightarrow> bool" where
  "wf_entry nChunks t \<longleftrightarrow> ggmlTypeTag (me_type t) < 2 ^ 32 \<and> ggmlTypeOfTag (ggmlTypeTag (me_type t)) = me_type t
     \<and> list_all (\<lambda>d. d < 2 ^ 64) (me_dims t) \<and> me_bytes t < 2 ^ 64 \<and> me_chunkIndex t < nChunks \<and> me_chunkIndex t < 2 ^ 32
     \<and> me_chunkOffset t < 2 ^ 64"

definition wf_shard :: "nat \<Rightarrow> ShardDesc \<Rightarrow> bool" where
  "wf_shard nChunks s \<longleftrightarrow> sd_chunkIndex s < nChunks \<and> sd_chunkIndex s < 2 ^ 32 \<and> sd_chunkOffset s < 2 ^ 64 \<and> sd_bytes s < 2 ^ 64"

definition wf_manifest :: "TensorManifest \<Rightarrow> bool" where
  "wf_manifest m \<longleftrightarrow> tm_protocolVersion m = kCurrentProtocolVersion
     \<and> list_all (\<lambda>c. cd_chunkIndex c < 2 ^ 32 \<and> cd_bytes c < 2 ^ 64) (tm_chunks m)
     \<and> list_all (wf_entry (length (tm_chunks m))) (tm_tensors m) \<and> list_all (wf_shard (length (tm_chunks m))) (tm_shards m)
     \<and> tm_declaredTotalSize m < 2 ^ 64"

lemma read_chunk_json: "cd_chunkIndex c < 2 ^ 32 \<Longrightarrow> cd_bytes c < 2 ^ 64 \<Longrightarrow> read_chunk (chunk_json c) = Inr c"
  by (simp add: chunk_json_def json_at_def)

lemma dims_json: "list_all (\<lambda>d. d < 2 ^ 64) ds \<Longrightarrow> map_result get_u64 (map JUnsigned ds) = Inr ds"
  by (induction ds) simp_all

lemma read_entry_json: "wf_entry n t \<Longrightarrow> read_tensor_entry n (entry_json t) = Inr t"
  using dims_json [of "me_dims t"] by (simp add: wf_entry_def entry_json_def json_at_def)

lemma read_shard_json: "wf_shard n s \<Longrightarrow> read_shard n (shard_json s) = Inr s"
  by (simp add: wf_shard_def shard_json_def json_at_def)

lemma map_result_map: "list_all (\<lambda>x. f (g x) = Inr x) xs \<Longrightarrow> map_result f (map g xs) = Inr xs"
  by (induction xs) simp_all

lemma manifest_roundtrip:
  assumes "wf_manifest m"
  shows "manifest_of_json (manifest_json m) = Inr m"
proof -
  note wf = assms [unfolded wf_manifest_def]
  have c: "map_result read_chunk (map chunk_json (tm_chunks m)) = Inr (tm_chunks m)"
    using wf by (intro map_result_map) (auto simp: list_all_iff read_chunk_json)
  have t: "map_result (read_tensor_entry (length (tm_chunks m))) (map entry_json (tm_tensors m)) = Inr (tm_tensors m)"
    using wf by (intro map_result_map) (auto simp: list_all_iff read_entry_json)
  have s: "map_result (read_shard (length (tm_chunks m))) (map shard_json (tm_shards m)) = Inr (tm_shards m)"
    using wf by (intro map_result_map) (auto simp: list_all_iff read_shard_json)
  have v: "tm_protocolVersion m = 2" "tm_declaredTotalSize m < 18446744073709551616"
    using wf by (simp_all add: kCurrentProtocolVersion_def)
  then have "\<lparr>tm_protocolVersion = 2, tm_modelId = tm_modelId m, tm_modelFingerprint = tm_modelFingerprint m, tm_chunks = tm_chunks m,
      tm_format = tm_format m, tm_tensors = tm_tensors m, tm_shards = tm_shards m, tm_declaredTotalSize = tm_declaredTotalSize m\<rparr> = m" by (cases m) simp
  then show ?thesis
    by (simp add: manifest_json_def readField_def c t s v read_format_def read_total_def read_shards_def kCurrentProtocolVersion_def)
qed

lemma read_tensor_entry_index: "read_tensor_entry n j = Inr t \<Longrightarrow> me_chunkIndex t < n"
  by (cases j) (auto split: if_splits)

lemma read_shard_index: "read_shard n j = Inr t \<Longrightarrow> sd_chunkIndex t < n"
  by (cases j) (auto split: if_splits)

lemma map_result_pred: "map_result f xs = Inr ys \<Longrightarrow> (\<And>x y. f x = Inr y \<Longrightarrow> P y) \<Longrightarrow> list_all P ys"
  by (induction xs arbitrary: ys) auto

lemma manifest_of_json_sound:
  assumes "manifest_of_json j = Inr m"
  shows "tm_protocolVersion m = 2 \<and> list_all (\<lambda>t. me_chunkIndex t < length (tm_chunks m)) (tm_tensors m)
     \<and> list_all (\<lambda>s. sd_chunkIndex s < length (tm_chunks m)) (tm_shards m)"
proof -
  obtain kvs where j: "j = JObject kvs" using assms by (cases j) auto
  obtain jv v jt ts where v: "read_version jv = Inr v" "tm_protocolVersion m = v"
    and ts: "map_result (read_tensor_entry (length (tm_chunks m))) ts = Inr (tm_tensors m)"
    and ss: "read_shards (length (tm_chunks m)) kvs = Inr (tm_shards m)"
    using assms unfolding j by fastforce
  have "v = 2" using v(1) by (cases jv) (auto simp: Let_def kCurrentProtocolVersion_def split: if_splits)
  moreover have "list_all (\<lambda>t. me_chunkIndex t < length (tm_chunks m)) (tm_tensors m)"
    by (rule map_result_pred [OF ts]) (rule read_tensor_entry_index)
  moreover have "list_all (\<lambda>s. sd_chunkIndex s < length (tm_chunks m)) (tm_shards m)"
  proof (cases "map_of kvs ''shards''")
    case (Some js)
    then obtain xs where xs: "map_result (read_shard (length (tm_chunks m))) xs = Inr (tm_shards m)"
      using ss by (auto simp: read_shards_def)
    show ?thesis by (rule map_result_pred [OF xs]) (rule read_shard_index)
  qed (use ss in \<open>simp add: read_shards_def\<close>)
  ultimately show ?thesis using v by simp
qed

definition wf_healthz :: "HealthzResponse \<Rightarrow> bool" where
  "wf_healthz r \<longleftrightarrow> hr_protocolVersion r < 2 ^ 32 \<and> hr_pid r < 2 ^ 32
     \<and> list_all (\<lambda>m. ms_totalBytes m < 2 ^ 64 \<and> ms_tensorCount m < 2 ^ 32) (hr_models r)"

lemma healthz_roundtrip: "wf_healthz r \<Longrightarrow> healthz_of_json (healthz_json r) = Inr r"
proof -
  assume wf: "wf_healthz r"
  have "map_result read_summary (map summary_json (hr_models r)) = Inr (hr_models r)"
    using wf by (intro map_result_map) (auto simp: list_all_iff wf_healthz_def summary_json_def json_at_def)
  then show ?thesis using wf by (simp add: healthz_json_def json_at_def wf_healthz_def)
qed


definition example_manifest :: TensorManifest where
  "example_manifest = \<lparr>tm_protocolVersion = 2, tm_modelId = [109], tm_modelFingerprint = [102], tm_chunks = [\<lparr>cd_chunkIndex = 0, cd_bytes = 8\<rparr>],
     tm_format = [], tm_tensors = [\<lparr>me_name = [119], me_type = F32, me_dims = [2], me_bytes = 8, me_chunkIndex = 0, me_chunkOffset = 0\<rparr>],
     tm_shards = [], tm_declaredTotalSize = 0\<rparr>"

text \<open>A text codec for one value: the hypothesis of the property can hold.\<close>

definition one_dump :: "json \<Rightarrow> json \<Rightarrow> u8 list result" where
  "one_dump j0 j = (if j = j0 then Inr [1] else Inl (RuntimeError ''dump''))"

definition one_parse :: "json \<Rightarrow> u8 list \<Rightarrow> json option" where
  "one_parse j0 s = (if s = [1] then Some j0 else None)"


end
