(* ===== verification/MuninLoad.thy ===== *)
theory MuninLoad
  imports ChunkAllocation MuninWire
begin

text \<open>
  Holding a model resident and handing it to a worker, first half: packing the tensors of an open GGUF file
  into chunks (\<^verbatim>\<open>src/core/gguf/GgufReaderChunks.cpp\<close>, \<^verbatim>\<open>src/core/gguf/GgufReaderShmChunks.cpp\<close>), the loaded
  models (\<^verbatim>\<open>src/munin/ModelStore.{hpp,cpp}\<close>, \<^verbatim>\<open>src/munin/ShmLoadedModel.{hpp,cpp}\<close>,
  \<^verbatim>\<open>src/munin/ShmModelStore.{hpp,cpp}\<close>) and the manifest built from them. The two chunk loaders are the same code
  over the two allocators, so the loop takes the allocator's operation as an argument and its correctness is
  proved once, inside the contract \<open>chunk_store\<close>.
\<close>

section \<open>Loading into chunks\<close>

fun chunk_load_loop ::
  "(u64 \<Rightarrow> 's \<Rightarrow> ('s \<times> Allocation) result) \<Rightarrow> u8 list \<Rightarrow> nat \<Rightarrow> GgufTensor list \<Rightarrow> 's \<Rightarrow> store \<Rightarrow> (GgufTensor list \<times> 's \<times> store) result" where
  "chunk_load_loop alloc file dataOff [] s st = Inr ([], s, st)"
| "chunk_load_loop alloc file dataOff (t # ts) s st =
     (if gt_usmPtr t \<noteq> NullPtr
      then bind_result (chunk_load_loop alloc file dataOff ts s st) (\<lambda>(ts', s', st'). Inr (t # ts', s', st'))
      else bind_result (payload_check file dataOff t) (\<lambda>absOffset.
           bind_result (alloc (word_of_nat (gt_nbytes t)) s) (\<lambda>(s1, a).
             case mapped_read file absOffset (gt_nbytes t) of
               None \<Rightarrow> Inl (LogicError ''undefined: memcpy reads outside the mapping'')
             | Some data \<Rightarrow>
                 bind_result (chunk_load_loop alloc file dataOff ts s1 (memcpy (al_ptr a) data st)) (\<lambda>(ts', s', st').
                   Inr (t\<lparr>gt_usmPtr := al_ptr a, gt_chunkIndex := unat (al_chunkIndex a), gt_chunkOffset := unat (al_chunkOffset a)\<rparr> # ts', s', st')))))"

definition load_into_chunks ::
  "string \<Rightarrow> (u64 \<Rightarrow> 's \<Rightarrow> ('s \<times> Allocation) result) \<Rightarrow> GgufReader \<Rightarrow> 's \<Rightarrow> store \<Rightarrow> (GgufReader \<times> 's \<times> store) result" where
  "load_into_chunks what alloc r s st =
     (case gr_file r of
        None \<Rightarrow> Inl (RuntimeError (what @ '': not open''))
      | Some file \<Rightarrow>
          if gr_tensorBuffers r \<noteq> [] then Inl (RuntimeError (what @ '': reader already loaded via loadTensors''))
          else if gr_chunkLoaded r then Inr (r, s, st)
          else bind_result (chunk_load_loop alloc file (gr_tensorDataOffset r) (gr_tensors r) s st) (\<lambda>(ts, s', st').
                 Inr (r\<lparr>gr_tensors := ts, gr_chunkLoaded := True, gr_file := None\<rparr>, s', st')))"

definition loadTensorsIntoChunks ::
  "(device \<Rightarrow> bool) \<Rightarrow> GgufReader \<Rightarrow> Chunk chunk_state \<Rightarrow> store \<Rightarrow> (GgufReader \<times> Chunk chunk_state \<times> store) result" where
  "loadTensorsIntoChunks grants = load_into_chunks ''GgufReader::loadTensorsIntoChunks'' (\<lambda>n. chunk_allocate grants n kDefaultAlignment)"

definition loadTensorsIntoShmChunks ::
  "(device \<Rightarrow> bool) \<Rightarrow> GgufReader \<Rightarrow> ShmChunk chunk_state \<Rightarrow> store \<Rightarrow> (GgufReader \<times> ShmChunk chunk_state \<times> store) result" where
  "loadTensorsIntoShmChunks grants = load_into_chunks ''GgufReader::loadTensorsIntoShmChunks'' (\<lambda>n. shm_allocate grants n kDefaultAlignment)"

section \<open>Loaded models\<close>

record ShmLoadedModel =
  sl_id :: "u8 list"
  sl_path :: "u8 list"
  sl_fingerprint :: "u8 list"
  sl_totalBytes :: nat
  sl_chunks :: "ShmChunk ChunkAllocator option"
  sl_reader :: "GgufReader option"
  sl_isNvfp4 :: bool
  sl_shards :: "ShardDesc list"
  sl_declaredTotalSize :: nat

record LoadedModel =
  lm_id :: "u8 list"
  lm_path :: "u8 list"
  lm_fingerprint :: "u8 list"
  lm_totalBytes :: nat
  lm_chunks :: "Chunk ChunkAllocator option"
  lm_reader :: GgufReader

definition chunk_descs :: "'z Chunk_scheme ChunkAllocator option \<Rightarrow> ChunkDesc list" where
  "chunk_descs ch = (case ch of None \<Rightarrow> []
     | Some a \<Rightarrow> map (\<lambda>i. \<lparr>cd_chunkIndex = i, cd_bytes = unat (chunkUsedBytes a i)\<rparr>) [0..<chunkCount a])"

definition entry_of :: "GgufTensor \<Rightarrow> ManifestEntry" where
  "entry_of t = \<lparr>me_name = gt_name t, me_type = gt_type t, me_dims = gt_dimensions t, me_bytes = gt_nbytes t,
     me_chunkIndex = gt_chunkIndex t, me_chunkOffset = gt_chunkOffset t\<rparr>"

definition buildManifest :: "LoadedModel \<Rightarrow> TensorManifest" where
  "buildManifest m = \<lparr>tm_protocolVersion = kCurrentProtocolVersion, tm_modelId = lm_id m, tm_modelFingerprint = lm_fingerprint m,
     tm_chunks = chunk_descs (lm_chunks m), tm_format = [], tm_tensors = map entry_of (gr_tensors (lm_reader m)), tm_shards = [],
     tm_declaredTotalSize = 0\<rparr>"

definition shm_buildManifest :: "ShmLoadedModel \<Rightarrow> TensorManifest" where
  "shm_buildManifest m =
     (let base = \<lparr>tm_protocolVersion = kCurrentProtocolVersion, tm_modelId = sl_id m, tm_modelFingerprint = sl_fingerprint m,
        tm_chunks = chunk_descs (sl_chunks m), tm_format = [], tm_tensors = [], tm_shards = [], tm_declaredTotalSize = 0\<rparr>
      in if sl_isNvfp4 m
         then base\<lparr>tm_format := bytes_of ''nvfp4'', tm_declaredTotalSize := sl_declaredTotalSize m, tm_shards := sl_shards m\<rparr>
         else base\<lparr>tm_tensors := map entry_of (case sl_reader m of Some r \<Rightarrow> gr_tensors r | None \<Rightarrow> [])\<rparr>)"

text \<open>
  The fingerprint a model is advertised under (\<^verbatim>\<open>src/core/gguf/TensorFingerprint.cpp\<close>): FNV-1a over the header
  numbers and the tensor index, printed after the tensor count and the total size.
\<close>

definition fnvUpdate :: "u8 list \<Rightarrow> u64 \<Rightarrow> u64" where
  "fnvUpdate data h = fold (\<lambda>b h. (h XOR ucast b) * 0x100000001b3) data h"

function dec_digits :: "nat \<Rightarrow> u8 list" where
  "dec_digits n = (if n < 10 then [word_of_nat (48 + n)] else dec_digits (n div 10) @ [word_of_nat (48 + n mod 10)])"
  by pat_completeness auto
termination by (relation "measure id") auto

declare dec_digits.simps [simp del]

definition hex_digit :: "nat \<Rightarrow> u8" where
  "hex_digit d = word_of_nat (if d < 10 then 48 + d else 87 + d)"

definition toHex64 :: "u64 \<Rightarrow> u8 list" where
  "toHex64 v = map (\<lambda>i. hex_digit (unat v div 16 ^ (15 - i) mod 16)) [0..<16]"

definition fingerprint_tensor :: "GgufTensor \<Rightarrow> u64 \<Rightarrow> u64" where
  "fingerprint_tensor t h =
     fnvUpdate (gt_name t @ le_bytes 4 (ggmlTypeTag (gt_type t)) @ le_bytes 8 (length (gt_dimensions t))
       @ concat (map (le_bytes 8) (gt_dimensions t)) @ le_bytes 8 (gt_nbytes t) @ le_bytes 8 (gt_fileOffset t)) h"

definition tensorFingerprint :: "GgufReader \<Rightarrow> u8 list" where
  "tensorFingerprint r =
     (let h = fnvUpdate (le_bytes 4 (gr_version r) @ le_bytes 8 (gr_alignment r) @ le_bytes 8 (gr_tensorDataOffset r)
           @ le_bytes 8 (gr_totalTensorBytes r) @ le_bytes 8 (card (dom (gr_metadata r))) @ le_bytes 8 (length (gr_tensors r))) 0xcbf29ce484222325;
          h' = fold fingerprint_tensor (gr_tensors r) h
      in dec_digits (length (gr_tensors r)) @ bytes_of ''.'' @ dec_digits (gr_totalTensorBytes r) @ bytes_of ''.'' @ toHex64 h')"

definition loadGgufInto ::
  "(device \<Rightarrow> bool) \<Rightarrow> u8 list \<Rightarrow> u8 list \<Rightarrow> u8 list \<Rightarrow> u64 \<Rightarrow> device \<Rightarrow> store \<Rightarrow> (ShmLoadedModel \<times> device \<times> store) result" where
  "loadGgufInto grants mid path file chunkBytes d st =
     bind_result (newShmChunkAllocator chunkBytes) (\<lambda>a.
     bind_result (open_gguf file) (\<lambda>r.
     bind_result (loadTensorsIntoShmChunks grants r (a, d) st) (\<lambda>(r', (a', d'), st').
     Inr (\<lparr>sl_id = mid, sl_path = path, sl_fingerprint = tensorFingerprint r', sl_totalBytes = gr_totalTensorBytes r',
           sl_chunks = Some a', sl_reader = Some r', sl_isNvfp4 = False, sl_shards = [], sl_declaredTotalSize = 0\<rparr>, d', st'))))"

text \<open>The store is the list of its models in the iteration order of its hash map.\<close>

type_synonym ShmModelStore = "ShmLoadedModel list"

definition shm_find :: "ShmModelStore \<Rightarrow> u8 list \<Rightarrow> ShmLoadedModel option" where
  "shm_find store mid = find (\<lambda>m. sl_id m = mid) store"

definition summaries :: "ShmModelStore \<Rightarrow> ModelSummaryWire list" where
  "summaries store = map (\<lambda>m. \<lparr>ms_id = sl_id m, ms_fingerprint = sl_fingerprint m, ms_totalBytes = sl_totalBytes m,
     ms_tensorCount = (if sl_isNvfp4 m then length (sl_shards m) mod 2 ^ 32
        else (case sl_reader m of Some r \<Rightarrow> length (gr_tensors r) mod 2 ^ 32 | None \<Rightarrow> 0))\<rparr>) store"

section \<open>The loop is correct over every chunk store\<close>

definition tensor_loaded ::
  "u8 list \<Rightarrow> nat \<Rightarrow> ptr list \<Rightarrow> (nat \<Rightarrow> nat) \<Rightarrow> store \<Rightarrow> GgufTensor \<Rightarrow> GgufTensor \<Rightarrow> bool" where
  "tensor_loaded file dataOff bs u st t t' \<longleftrightarrow>
     t' = t\<lparr>gt_usmPtr := gt_usmPtr t', gt_chunkIndex := gt_chunkIndex t', gt_chunkOffset := gt_chunkOffset t'\<rparr>
     \<and> placed bs u (gt_usmPtr t') (gt_nbytes t)
     \<and> read_mem st (gt_usmPtr t') (gt_nbytes t) = take (gt_nbytes t) (drop (dataOff + gt_fileOffset t) file)
     \<and> gt_chunkIndex t' < length bs \<and> gt_chunkOffset t' < 2 ^ 64
     \<and> gt_usmPtr t' = ptr_add (bs ! gt_chunkIndex t') (gt_chunkOffset t')"

lemma chunk_load_preserves:
  assumes "\<And>n s s' a. P s \<Longrightarrow> alloc n s = Inr (s', a) \<Longrightarrow> P s'"
    "chunk_load_loop alloc file dataOff ts s st = Inr (ts', s', st')" "P s"
  shows "P s'"
  using assms(2,3)
proof (induction ts arbitrary: s st ts')
  case (Cons t ts)
  then show ?case using assms(1) by (fastforce split: if_splits option.splits)
qed simp

lemma word_of_nat_u64: "n < 2 ^ 64 \<Longrightarrow> unat (word_of_nat n :: u64) = n"
  unfolding unsigned_of_nat by (simp add: take_bit_nat_eq_self)

context chunk_store
begin

lemma load_loop_bases:
  assumes "chunk_load_loop alloc file dataOff ts s st = Inr (ts', s', st')" "inv s"
  shows "inv s' \<and> (\<exists>ps. bases s' = bases s @ ps) \<and> (\<forall>i. used s i \<le> used s' i)"
proof -
  let ?P = "\<lambda>x. inv x \<and> (\<exists>ps. bases x = bases s @ ps) \<and> (\<forall>i. used s i \<le> used x i)"
  have "?P y" if P: "?P x" and al: "alloc n x = Inr (y, a)" for n x y a
  proof -
    have x: "inv x" using P by simp
    obtain ps where "bases x = bases s @ ps" using P by blast
    moreover obtain qs where "bases y = bases x @ qs" using bases_alloc [OF x al] by blast
    moreover have "used s i \<le> used y i" for i using P used_mono [OF x al, of i] le_trans by blast
    ultimately show ?thesis using inv_alloc [OF x al] by simp
  qed
  then show ?thesis by (rule chunk_load_preserves [where P = ?P, OF _ assms(1)]) (use assms(2) in auto)
qed

lemma placed_ptr: "placed bs u p n \<Longrightarrow> \<exists>b off. p = Ptr b off"
  by (auto simp: placed_def)

lemma load_loop_loaded:
  assumes "chunk_load_loop alloc file dataOff ts s st = Inr (ts', s', st')" "inv s" "length (bases s') \<le> 2 ^ 32"
    "list_all (\<lambda>t. gt_usmPtr t = NullPtr \<and> dataOff + gt_fileOffset t + gt_nbytes t < 2 ^ 64) ts"
  shows "list_all2 (tensor_loaded file dataOff (bases s') (used s') st') ts ts'
    \<and> (\<forall>p n. placed (bases s) (used s) p n \<longrightarrow> placed (bases s') (used s') p n \<and> read_mem st' p n = read_mem st p n)"
  using assms
proof (induction ts arbitrary: s st ts')
  case (Cons t ts)
  have nul: "gt_usmPtr t = NullPtr" and nowrap: "dataOff + gt_fileOffset t + gt_nbytes t < 2 ^ 64" using Cons.prems(4) by simp_all
  obtain off s1 a data ts2 where c: "payload_check file dataOff t = Inr off" "alloc (word_of_nat (gt_nbytes t)) s = Inr (s1, a)"
    "mapped_read file off (gt_nbytes t) = Some data" "chunk_load_loop alloc file dataOff ts s1 (memcpy (al_ptr a) data st) = Inr (ts2, s', st')"
    and ts': "ts' = t\<lparr>gt_usmPtr := al_ptr a, gt_chunkIndex := unat (al_chunkIndex a), gt_chunkOffset := unat (al_chunkOffset a)\<rparr> # ts2"
    using Cons.prems(1) nul by (auto split: option.splits)
  have off: "off = dataOff + gt_fileOffset t" using payload_check_sound [OF c(1) nowrap] by simp
  have data: "data = take (gt_nbytes t) (drop (dataOff + gt_fileOffset t) file)" "length data = gt_nbytes t"
    using c(3) off by (auto simp: mapped_read_def split: if_splits)
  have n: "unat (word_of_nat (gt_nbytes t) :: u64) = gt_nbytes t" using nowrap by (intro word_of_nat_u64) linarith
  have inv1: "inv s1" by (rule inv_alloc [OF Cons.prems(2) c(2)])
  note IH = Cons.IH [OF c(4) inv1 Cons.prems(3)]
  obtain ps where ps: "bases s' = bases s1 @ ps" using load_loop_bases [OF c(4) inv1] by blast
  obtain b where b: "al_ptr a = Ptr b (unat (al_chunkOffset a))" using alloc_ptr [OF Cons.prems(2) c(2)] by metis
  have pl: "placed (bases s1) (used s1) (al_ptr a) (gt_nbytes t)" using alloc_placed [OF Cons.prems(2) c(2)] by (simp add: n)
  have rest: "list_all2 (tensor_loaded file dataOff (bases s') (used s') st') ts ts2"
    and keep: "\<And>p m. placed (bases s1) (used s1) p m \<Longrightarrow> placed (bases s') (used s') p m \<and> read_mem st' p m = read_mem (memcpy (al_ptr a) data st) p m"
    using IH Cons.prems(4) by simp_all
  note ia = index_alloc [OF Cons.prems(2) c(2)]
  have len: "length (bases s1) \<le> 2 ^ 32" "bases s1 \<noteq> []" using Cons.prems(3) ps ia by simp_all
  have idx: "unat (al_chunkIndex a) = length (bases s1) - 1" using ia len by (simp add: unat_word_of_nat_u32)
  have lt: "length (bases s1) - 1 < length (bases s')" using len(2) ps by (cases "bases s1") auto
  have base: "bases s' ! (length (bases s1) - 1) = last (bases s1)" using len(2) by (simp add: ps nth_append last_conv_nth)
  have "read_mem (memcpy (al_ptr a) data st) (al_ptr a) (gt_nbytes t) = data" unfolding b by (rule read_mem_memcpy_same) (simp add: data(2))
  then have hd: "tensor_loaded file dataOff (bases s') (used s') st' t
      (t\<lparr>gt_usmPtr := al_ptr a, gt_chunkIndex := unat (al_chunkIndex a), gt_chunkOffset := unat (al_chunkOffset a)\<rparr>)"
    using keep [OF pl] ia base idx lt data(1) unat_lt64 [of "al_chunkOffset a"] by (simp add: tensor_loaded_def)
  have "placed (bases s') (used s') p m \<and> read_mem st' p m = read_mem st p m" if "placed (bases s) (used s) p m" for p m
  proof -
    have "read_mem (memcpy (al_ptr a) data st) p m = read_mem st p m"
      using alloc_disjoint [OF Cons.prems(2) c(2) that] by (intro read_mem_memcpy_other) (simp add: n data(2))
    then show ?thesis using keep [OF placed_mono [OF Cons.prems(2) c(2) that]] by simp
  qed
  then show ?case using hd rest ts' by simp
qed simp

end

end
