(* ===== verification/WeightsIndex.thy ===== *)
theory WeightsIndex
  imports MuninLoad
begin

text \<open>
  The two-level weight index, \<^verbatim>\<open>src/core/gguf/WeightsMap.{hpp,cpp}\<close>: tensors by name, and block tensors
  \<^verbatim>\<open>blk.<idx>.<suffix>\<close> by block number and suffix. The hash map by name is an association list in its
  iteration order; that order is the library's choice and an argument. Block numbers are accumulated in 64
  bits. The index is proved to agree with the name lookup it replaces on the hot path.
\<close>

section \<open>The index\<close>

record WeightsMap =
  wm_byName :: "(u8 list \<times> GgufTensor) list"
  wm_byBlock :: "(u8 list \<rightharpoonup> GgufTensor) list"

fun index_names :: "GgufTensor list \<Rightarrow> (u8 list \<times> GgufTensor) list \<Rightarrow> (u8 list \<times> GgufTensor) list" where
  "index_names [] m = m"
| "index_names (t # ts) m = index_names ts (if map_of m (gt_name t) = None then m @ [(gt_name t, t)] else m)"

fun digits_loop :: "nat \<Rightarrow> u8 list \<Rightarrow> nat \<times> u8 list" where
  "digits_loop idx [] = (idx, [])"
| "digits_loop idx (c # cs) =
     (if 48 \<le> c \<and> c \<le> 57 then digits_loop ((idx * 10 + (unat c - 48)) mod 2 ^ 64) cs else (idx, c # cs))"

definition block_name :: "u8 list \<Rightarrow> (nat \<times> u8 list) option" where
  "block_name name =
     (if take 4 name \<noteq> bytes_of ''blk.'' then None
      else let sv = drop 4 name; (idx, rest) = digits_loop 0 sv
           in if length rest = length sv \<or> rest = [] \<or> hd rest \<noteq> 46 then None else Some (idx, tl rest))"

definition resize :: "nat \<Rightarrow> (u8 list \<rightharpoonup> GgufTensor) list \<Rightarrow> (u8 list \<rightharpoonup> GgufTensor) list" where
  "resize n bb = take n bb @ replicate (n - length bb) Map.empty"

definition add_block :: "(u8 list \<times> GgufTensor) \<Rightarrow> (u8 list \<rightharpoonup> GgufTensor) list \<Rightarrow> (u8 list \<rightharpoonup> GgufTensor) list result" where
  "add_block nt bb =
     (case block_name (fst nt) of
        None \<Rightarrow> Inr bb
      | Some (idx, suffix) \<Rightarrow>
          if idx \<ge> length bb \<and> idx + 1 > max_size 56 then Inl (LengthError ''vector::_M_default_append'')
          else let bb' = (if idx \<ge> length bb then resize (idx + 1) bb else bb)
               in Inr (bb'[idx := emplace suffix (snd nt) (bb' ! idx)]))"

fun buildBlockIndex :: "(u8 list \<times> GgufTensor) list \<Rightarrow> (u8 list \<rightharpoonup> GgufTensor) list \<Rightarrow> (u8 list \<rightharpoonup> GgufTensor) list result" where
  "buildBlockIndex [] bb = Inr bb"
| "buildBlockIndex (nt # nts) bb = bind_result (add_block nt bb) (buildBlockIndex nts)"

definition newWeightsMap ::
  "((u8 list \<times> GgufTensor) list \<Rightarrow> (u8 list \<times> GgufTensor) list) \<Rightarrow> GgufTensor list \<Rightarrow> WeightsMap result" where
  "newWeightsMap order tensors =
     (let byName = order (index_names tensors [])
      in bind_result (buildBlockIndex byName []) (\<lambda>bb. Inr \<lparr>wm_byName = byName, wm_byBlock = bb\<rparr>))"

definition weights_find :: "WeightsMap \<Rightarrow> u8 list \<Rightarrow> GgufTensor option" where
  "weights_find w name = map_of (wm_byName w) name"

definition weights_require :: "WeightsMap \<Rightarrow> u8 list \<Rightarrow> GgufTensor result" where
  "weights_require w name = (case weights_find w name of Some t \<Rightarrow> Inr t | None \<Rightarrow> Inl (RuntimeError ''WeightsMap::require: tensor not in model''))"

definition findBlock :: "WeightsMap \<Rightarrow> nat \<Rightarrow> u8 list \<Rightarrow> GgufTensor option" where
  "findBlock w blockIdx suffix = (if blockIdx \<ge> length (wm_byBlock w) then None else (wm_byBlock w ! blockIdx) suffix)"

definition weights_totalTensorBytes :: "WeightsMap \<Rightarrow> nat" where
  "weights_totalTensorBytes w = sum_list (map (\<lambda>(name, t). gt_nbytes t) (wm_byName w)) mod 2 ^ 64"

section \<open>Names\<close>

definition canonical :: "nat \<Rightarrow> u8 list \<Rightarrow> u8 list" where
  "canonical i suffix = bytes_of ''blk.'' @ dec_digits i @ [46] @ suffix"

lemma unat_digit: "n < 10 \<Longrightarrow> unat (word_of_nat (48 + n) :: u8) = 48 + n"
  unfolding unat_byte by simp

lemma is_digit: "n < 10 \<Longrightarrow> 48 \<le> (word_of_nat (48 + n) :: u8) \<and> (word_of_nat (48 + n) :: u8) \<le> 57"
  using unat_digit [of n] by (simp add: word_le_nat_alt)

lemma digits_loop_append:
  "n < 2 ^ 64 \<Longrightarrow> digits_loop 0 (dec_digits n @ r) = digits_loop n r"
proof (induction n arbitrary: r rule: dec_digits.induct)
  case (1 n)
  have step: "digits_loop a (word_of_nat (48 + k) # r) = digits_loop ((a * 10 + k) mod 2 ^ 64) r" if "k < 10" for a k
    using is_digit [OF that] unat_digit [OF that] by simp
  show ?case
  proof (cases "n < 10")
    case True
    then show ?thesis using step [of n 0] 1(2) by (simp add: dec_digits.simps [of n])
  next
    case False
    have "digits_loop 0 (dec_digits n @ r) = digits_loop (n div 10) (word_of_nat (48 + n mod 10) # r)"
      using 1(1) [OF False, of "word_of_nat (48 + n mod 10) # r"] 1(2) False by (simp add: dec_digits.simps [of n])
    then show ?thesis using step [of "n mod 10" "n div 10"] 1(2) by simp
  qed
qed

lemma dec_digits_nonempty: "dec_digits n \<noteq> []"
  by (subst dec_digits.simps) simp

lemma block_name_canonical: "i < 2 ^ 64 \<Longrightarrow> block_name (canonical i s) = Some (i, s)"
proof -
  assume i: "i < 2 ^ 64"
  have "digits_loop 0 (dec_digits i @ [46] @ s) = (i, 46 # s)" using digits_loop_append [OF i] by simp
  moreover have "take 4 (canonical i s) = bytes_of ''blk.''" "drop 4 (canonical i s) = dec_digits i @ [46] @ s"
    by (simp_all add: canonical_def bytes_of_def)
  ultimately show ?thesis using dec_digits_nonempty [of i] by (simp add: block_name_def)
qed

lemma block_name_bound: "block_name n = Some (i, s) \<Longrightarrow> i < 2 ^ 64"
proof -
  have "fst (digits_loop a cs) < 2 ^ 64" if "a < 2 ^ 64" for a cs using that
    by (induction cs arbitrary: a) simp_all
  then show "block_name n = Some (i, s) \<Longrightarrow> i < 2 ^ 64"
    by (auto simp: block_name_def Let_def split: prod.splits if_splits) (metis fst_conv zero_less_numeral zero_less_power)
qed

section \<open>The block index is the name lookup\<close>

definition block_lookup :: "(u8 list \<rightharpoonup> GgufTensor) list \<Rightarrow> nat \<Rightarrow> u8 list \<rightharpoonup> GgufTensor" where
  "block_lookup bb i = (if i < length bb then bb ! i else Map.empty)"

lemma block_lookup_resize: "length bb \<le> n \<Longrightarrow> block_lookup (resize n bb) i = block_lookup bb i"
  by (auto simp: block_lookup_def resize_def nth_append)

lemma add_block_lookup:
  assumes "add_block nt bb = Inr bb'"
  shows "block_lookup bb' i s = (case block_lookup bb i s of Some t \<Rightarrow> Some t
    | None \<Rightarrow> if block_name (fst nt) = Some (i, s) then Some (snd nt) else None)"
proof (cases "block_name (fst nt)")
  case None
  then show ?thesis using assms by (simp add: add_block_def split: option.splits)
next
  case (Some js)
  obtain j u where ju: "block_name (fst nt) = Some (j, u)" using Some by (cases js) simp
  define b2 where "b2 = (if j \<ge> length bb then resize (j + 1) bb else bb)"
  have bb': "bb' = b2[j := emplace u (snd nt) (b2 ! j)]" using assms ju by (simp add: add_block_def Let_def b2_def split: if_splits)
  have b2: "j < length b2" "block_lookup b2 i = block_lookup bb i" for i
    using block_lookup_resize [of bb "j + 1"] by (auto simp: b2_def resize_def)
  have "block_lookup bb' i s = (if i = j then emplace u (snd nt) (block_lookup b2 j) s else block_lookup b2 i s)"
    using b2(1) by (auto simp: bb' block_lookup_def)
  then show ?thesis unfolding b2(2) using ju by (auto simp: emplace_def split: option.splits)
qed

lemma buildBlockIndex_lookup:
  assumes "buildBlockIndex nts bb = Inr bb'"
  shows "block_lookup bb' i s = (case block_lookup bb i s of Some t \<Rightarrow> Some t
    | None \<Rightarrow> map_option snd (find (\<lambda>nt. block_name (fst nt) = Some (i, s)) nts))"
  using assms
proof (induction nts arbitrary: bb)
  case (Cons nt nts)
  obtain b1 where b1: "add_block nt bb = Inr b1" "buildBlockIndex nts b1 = Inr bb'" using Cons.prems by auto
  show ?case using Cons.IH [OF b1(2)] add_block_lookup [OF b1(1), of i s] by (simp split: option.splits)
qed (simp split: option.splits)

lemma index_names_lookup:
  "map_of (index_names ts m) name = (case map_of m name of Some t \<Rightarrow> Some t | None \<Rightarrow> find (\<lambda>t. gt_name t = name) ts)"
proof (induction ts arbitrary: m)
  case (Cons t ts)
  have "map_of (if map_of m (gt_name t) = None then m @ [(gt_name t, t)] else m) name
      = (case map_of m name of Some u \<Rightarrow> Some u | None \<Rightarrow> if gt_name t = name \<and> map_of m (gt_name t) = None then Some t else None)"
    by (auto simp: map_add_def split: option.splits)
  then show ?case unfolding index_names.simps Cons.IH by (auto split: option.splits)
qed (simp split: option.splits)

lemma index_names_distinct: "distinct (map fst m) \<Longrightarrow> distinct (map fst (index_names ts m))"
proof (induction ts arbitrary: m)
  case (Cons t ts)
  have "distinct (map fst (if map_of m (gt_name t) = None then m @ [(gt_name t, t)] else m))"
    using Cons.prems by (simp add: map_of_eq_None_iff)
  then show ?case unfolding index_names.simps by (rule Cons.IH)
qed simp

lemma find_map_of:
  assumes "distinct (map fst nts)" "list_all (\<lambda>nt. block_name (fst nt) = Some (i, s) \<longrightarrow> fst nt = n) nts" "block_name n = Some (i, s)"
  shows "map_option snd (find (\<lambda>nt. block_name (fst nt) = Some (i, s)) nts) = map_of nts n"
  using assms by (induction nts) auto

text \<open>
  The block index answers as the name lookup does. Whatever order the hash map iterates in, if the index
  is built and the block names of the model are written in plain decimal (as the format does), then the
  allocation-free \<^verbatim>\<open>findBlock(i, suffix)\<close> equals the lookup of the full name \<^verbatim>\<open>blk.<i>.<suffix>\<close>, and that is the
  first tensor of the model with this name; \<^verbatim>\<open>require\<close> fails exactly on names the model does not have.
\<close>

theorem findBlock_equals_find:
  assumes "newWeightsMap order ts = Inr w" "distinct (map fst (order (index_names ts [])))" "set (order (index_names ts [])) = set (index_names ts [])"
    "list_all (\<lambda>t. \<forall>i s. block_name (gt_name t) = Some (i, s) \<longrightarrow> gt_name t = canonical i s) ts" "i < 2 ^ 64"
  shows "findBlock w i suffix = weights_find w (canonical i suffix)
    \<and> weights_find w name = find (\<lambda>t. gt_name t = name) ts
    \<and> is_ok (weights_require w name) = (\<exists>t \<in> set ts. gt_name t = name)"
proof -
  let ?nts = "order (index_names ts [])"
  have w: "wm_byName w = ?nts" "buildBlockIndex ?nts [] = Inr (wm_byBlock w)" using assms(1) by (auto simp: newWeightsMap_def Let_def)
  have d: "distinct (map fst (index_names ts []))" using index_names_distinct [of "[]" ts] by simp
  have same: "map_of ?nts = map_of (index_names ts [])"
    using map_of_inject_set [OF assms(2) d] assms(3) by simp
  then have find: "weights_find w n = find (\<lambda>t. gt_name t = n) ts" for n
    using index_names_lookup [of ts "[]" n] by (simp add: weights_find_def w(1))
  have "fst nt = gt_name (snd nt) \<and> snd nt \<in> set ts" if "nt \<in> set (index_names ts [])" for nt
  proof -
    have "map_of (index_names ts []) (fst nt) = Some (snd nt)" using d that by simp
    then have "find (\<lambda>t. gt_name t = fst nt) ts = Some (snd nt)" using index_names_lookup [of ts "[]" "fst nt"] by simp
    then show ?thesis by (auto simp: find_Some_iff)
  qed
  then have can: "list_all (\<lambda>nt. block_name (fst nt) = Some (i, suffix) \<longrightarrow> fst nt = canonical i suffix) ?nts"
    using assms(3,4) by (auto simp: list_all_iff)
  have "findBlock w i suffix = block_lookup (wm_byBlock w) i suffix" by (simp add: findBlock_def block_lookup_def)
  also have "\<dots> = map_option snd (find (\<lambda>nt. block_name (fst nt) = Some (i, suffix)) ?nts)"
    using buildBlockIndex_lookup [OF w(2), of i suffix] by (simp add: block_lookup_def)
  also have "\<dots> = weights_find w (canonical i suffix)"
    using find_map_of [OF assms(2) can block_name_canonical [OF assms(5)]] by (simp add: weights_find_def w(1))
  finally have "findBlock w i suffix = weights_find w (canonical i suffix)" .
  moreover have "is_ok (weights_require w name) = (find (\<lambda>t. gt_name t = name) ts \<noteq> None)"
    by (simp add: weights_require_def find split: option.splits)
  moreover have "(find (\<lambda>t. gt_name t = name) ts \<noteq> None) = (\<exists>t \<in> set ts. gt_name t = name)" unfolding find_None_iff by blast
  ultimately show ?thesis using find by blast
qed

definition block_tensor :: "string \<Rightarrow> GgufTensor" where
  "block_tensor n = \<lparr>gt_name = bytes_of n, gt_type = F32, gt_dimensions = [2], gt_nelements = 2, gt_nbytes = 8, gt_fileOffset = 0,
     gt_usmPtr = NullPtr, gt_chunkIndex = 0, gt_chunkOffset = 0\<rparr>"

theorem findBlock_equals_find_witness:
  "\<exists>w. newWeightsMap rev [block_tensor ''blk.3.w'', block_tensor ''out''] = Inr w
     \<and> findBlock w 3 (bytes_of ''w'') = weights_find w (canonical 3 (bytes_of ''w''))"
proof -
  let ?ts = "[block_tensor ''blk.3.w'', block_tensor ''out'']"
  have n: "block_name (bytes_of ''blk.3.w'') = Some (3, bytes_of ''w'')" "block_name (bytes_of ''out'') = None"
    by (simp_all add: block_name_def bytes_of_def)
  have c: "canonical 3 (bytes_of ''w'') = bytes_of ''blk.3.w''" by (simp add: canonical_def dec_digits.simps bytes_of_def)
  have names: "index_names ?ts [] = [(bytes_of ''blk.3.w'', block_tensor ''blk.3.w''), (bytes_of ''out'', block_tensor ''out'')]"
    by (simp add: block_tensor_def bytes_of_def)
  obtain w where w: "newWeightsMap rev ?ts = Inr w"
    unfolding newWeightsMap_def names Let_def by (auto simp: add_block_def n max_size_def Let_def)
  have can: "list_all (\<lambda>t. \<forall>i s. block_name (gt_name t) = Some (i, s) \<longrightarrow> gt_name t = canonical i s) ?ts"
    using n c by (simp add: block_tensor_def)
  have dst: "distinct (map fst (rev (index_names ?ts [])))" unfolding names by (simp add: bytes_of_def)
  have "findBlock w 3 (bytes_of ''w'') = weights_find w (canonical 3 (bytes_of ''w''))"
    using findBlock_equals_find [OF w dst set_rev can, of 3] by simp
  then show ?thesis using w by blast
qed

end
