(* ===== verification/MuninHandoff.thy ===== *)
theory MuninHandoff
  imports MuninLoad
begin

text \<open>
  Holding a model resident and handing it to a worker, second half: the session on the server
  (\<^verbatim>\<open>src/munin/ShmAttachSession.{hpp,cpp}\<close>), the shared-memory transport
  (\<^verbatim>\<open>src/core/ipc/ShmIpcExporter.cpp\<close>, \<^verbatim>\<open>src/core/ipc/ShmIpcImporter.cpp\<close>), the client of the worker
  (\<^verbatim>\<open>src/core/ipc/MuninClient.{hpp,cpp}\<close>) and the worker's view of the weights
  (\<^verbatim>\<open>WeightsMap::fromAttachedChunked\<close> in \<^verbatim>\<open>src/core/gguf/WeightsMap.cpp\<close>).

  A session is a function from the bytes the worker sent to the bytes the server sends back; the client takes
  the peer as such a function. An exception out of a \<^verbatim>\<open>noexcept\<close> session ends the process: the left value of
  a session. Whether the operating system grants a mapping is an argument of the importer. A mapping of a
  shared object is a pointer to that object.
\<close>

section \<open>The shared-memory transport\<close>

record IpcHandle =
  ih_bytes :: "u8 list"
  ih_fd :: int

definition exportChunk :: "int list \<Rightarrow> u64 list \<Rightarrow> nat \<Rightarrow> IpcHandle expected" where
  "exportChunk memfds mapBytes index =
     (if index \<ge> length memfds \<or> index \<ge> length mapBytes then Inl ''ShmIpcExporter: chunk index out of range''
      else let fd = memfds ! index
           in if fd < 0 then Inl ''ShmIpcExporter: chunk has an invalid memfd''
              else Inr \<lparr>ih_bytes = le_bytes 8 (unat (mapBytes ! index)) @ replicate 56 0, ih_fd = fd\<rparr>)"

type_synonym ShmIpcImporter = "ptr \<rightharpoonup> nat"

definition importChunk :: "(int \<Rightarrow> nat \<Rightarrow> bool) \<Rightarrow> u8 list \<Rightarrow> int \<Rightarrow> ShmIpcImporter \<Rightarrow> (ptr \<times> ShmIpcImporter) expected" where
  "importChunk mmap_ok handle receivedFd imp =
     (if receivedFd < 0 then Inl ''ShmIpcImporter: receivedFd is negative''
      else let mapLen = le_val (take 8 handle)
           in if mapLen = 0 then Inl ''ShmIpcImporter: handle declares a zero-length mapping''
              else if \<not> mmap_ok receivedFd mapLen then Inl ''ShmIpcImporter: mmap failed''
              else let p = Ptr (nat receivedFd) 0 in Inr (p, emplace p mapLen imp))"

definition closeChunk :: "ptr \<Rightarrow> ShmIpcImporter \<Rightarrow> ShmIpcImporter" where
  "closeChunk p imp = imp(p := None)"

section \<open>The session\<close>

record session_env =
  se_chop :: "nat \<Rightarrow> nat"
  se_dump :: "json \<Rightarrow> u8 list result"
  se_parse :: "u8 list \<Rightarrow> json option"
  se_pid :: nat

definition sent :: "wire expected \<Rightarrow> wire" where
  "sent w = (case w of Inl _ \<Rightarrow> [] | Inr w \<Rightarrow> w)"

definition sendErrorAndClose :: "session_env \<Rightarrow> u8 list \<Rightarrow> wire result" where
  "sendErrorAndClose e msg = bind_result (makeErrorJson (se_dump e) msg) (\<lambda>body. Inr (sent (frame_send (se_chop e) body [])))"

definition handleHealthz :: "session_env \<Rightarrow> ShmModelStore \<Rightarrow> wire result" where
  "handleHealthz e store =
     bind_result (se_dump e (healthz_json \<lparr>hr_protocolVersion = 1, hr_status = bytes_of ''ok'', hr_governorOwner = bytes_of ''munin'',
       hr_pid = se_pid e mod 2 ^ 32, hr_models = summaries store\<rparr>)) (\<lambda>body. Inr (sent (frame_send (se_chop e) body [])))"

fun send_handles :: "(nat \<Rightarrow> nat) \<Rightarrow> IpcHandle list \<Rightarrow> wire \<times> bool" where
  "send_handles chop [] = ([], True)"
| "send_handles chop (h # hs) =
     (case frame_send chop (ih_bytes h) [ih_fd h] of
        Inl _ \<Rightarrow> ([], False)
      | Inr w \<Rightarrow> let (w', ok) = send_handles chop hs in (w @ w', ok))"

definition model_ready :: "ShmLoadedModel \<Rightarrow> (u8 list + ShmChunk ChunkAllocator)" where
  "model_ready m =
     (case sl_chunks m of
        None \<Rightarrow> Inl (bytes_of ''attach: model '' @ sl_id m @ bytes_of '' has no ShmChunkAllocator'')
      | Some a \<Rightarrow>
          if sl_isNvfp4 m
          then if sl_shards m = [] then Inl (bytes_of ''attach: NVFP4 model '' @ sl_id m @ bytes_of '' has no shards'') else Inr a
          else (case sl_reader m of
                  None \<Rightarrow> Inl (bytes_of ''attach: model '' @ sl_id m @ bytes_of '' has no tensors'')
                | Some r \<Rightarrow> if gr_tensors r = [] then Inl (bytes_of ''attach: model '' @ sl_id m @ bytes_of '' has no tensors'') else Inr a))"

definition handleAttach :: "session_env \<Rightarrow> ShmModelStore \<Rightarrow> u8 list \<Rightarrow> (wire \<times> bool) result" where
  "handleAttach e store modelId =
     (case shm_find store modelId of
        None \<Rightarrow> bind_result (sendErrorAndClose e (bytes_of ''attach: no model with id '' @ modelId @ bytes_of '' loaded in Munin'')) (\<lambda>w. Inr (w, False))
      | Some m \<Rightarrow>
          (case model_ready m of
             Inl msg \<Rightarrow> bind_result (sendErrorAndClose e msg) (\<lambda>w. Inr (w, False))
           | Inr a \<Rightarrow>
               bind_result (manifest_toJson (se_dump e) (shm_buildManifest m)) (\<lambda>manifestJson.
                 case map_result (exportChunk (chunkMemfds a) (chunkMapBytes a)) [0..<chunkCount a] of
                   Inl err \<Rightarrow> bind_result (sendErrorAndClose e (bytes_of ''attach: ShmIpcExporter failed: '' @ bytes_of err)) (\<lambda>w. Inr (w, False))
                 | Inr handles \<Rightarrow>
                     (case frame_send (se_chop e) manifestJson [] of
                        Inl _ \<Rightarrow> Inr ([], False)
                      | Inr w \<Rightarrow> let (w', ok) = send_handles (se_chop e) handles in Inr (w @ w', ok)))))"

text \<open>
  \<^verbatim>\<open>run\<close>: the reply and, after a successful attach, the model id the session holds on to until the peer
  closes.
\<close>

definition session_run :: "session_env \<Rightarrow> ShmModelStore \<Rightarrow> wire \<Rightarrow> (wire \<times> u8 list option) result" where
  "session_run e store w =
     (case frame_recv (se_chop e) (64 * 1024) w of
        Inl _ \<Rightarrow> Inr ([], None)
      | Inr (req, _) \<Rightarrow>
          if fr_fds req \<noteq> []
          then bind_result (sendErrorAndClose e (bytes_of ''request must not carry SCM_RIGHTS fds'')) (\<lambda>w. Inr (w, None))
          else (case request_fromJson (se_parse e) (fr_payload req) of
                  Inl err \<Rightarrow> bind_result (sendErrorAndClose e (bytes_of err)) (\<lambda>w. Inr (w, None))
                | Inr env \<Rightarrow>
                    if re_op env = bytes_of ''healthz'' then bind_result (handleHealthz e store) (\<lambda>w. Inr (w, None))
                    else if re_op env = bytes_of ''attach''
                    then if re_modelId env = []
                         then bind_result (sendErrorAndClose e (bytes_of ''attach: modelId is required'')) (\<lambda>w. Inr (w, None))
                         else bind_result (handleAttach e store (re_modelId env)) (\<lambda>(w, ok). Inr (w, if ok then Some (re_modelId env) else None))
                    else bind_result (sendErrorAndClose e (bytes_of ''unknown op '' @ re_op env)) (\<lambda>w. Inr (w, None))))"

section \<open>The client\<close>

record MuninClient =
  mc_importer :: ShmIpcImporter
  mc_sessionFd :: int

record client_env =
  ce_chop :: "nat \<Rightarrow> nat"
  ce_parse :: "u8 list \<Rightarrow> json option"
  ce_mmap :: "int \<Rightarrow> nat \<Rightarrow> bool"

definition detach :: "MuninClient \<Rightarrow> MuninClient" where
  "detach c = (if mc_sessionFd c \<ge> 0 then c\<lparr>mc_sessionFd := -1\<rparr> else c)"

definition isAttached :: "MuninClient \<Rightarrow> bool" where
  "isAttached c = (mc_sessionFd c \<ge> 0)"

definition healthz_request :: "u8 list" where
  \<open>healthz_request = bytes_of ''{"op":"healthz"}''\<close>

definition attach_request :: "u8 list \<Rightarrow> u8 list" where
  \<open>attach_request modelId = bytes_of ''{"op":"attach","modelId":"'' @ modelId @ bytes_of ''"}''\<close>

definition oneRequest :: "client_env \<Rightarrow> (wire \<Rightarrow> wire) \<Rightarrow> u8 list \<Rightarrow> u8 list expected" where
  "oneRequest e peer request =
     bind_result (frame_send (ce_chop e) request []) (\<lambda>w.
     bind_result (frame_recv (ce_chop e) kDefaultMaxPayload (peer w)) (\<lambda>(rsp, _).
       if fr_fds rsp \<noteq> [] then Inl ''MuninClient: response carried unexpected SCM_RIGHTS fds'' else Inr (fr_payload rsp)))"

definition client_healthz :: "client_env \<Rightarrow> (wire \<Rightarrow> wire) \<Rightarrow> HealthzResponse expected" where
  "client_healthz e peer =
     bind_result (oneRequest e peer healthz_request) (\<lambda>rsp.
       case healthz_fromJson (ce_parse e) rsp of
         Inr r \<Rightarrow> Inr r
       | Inl err \<Rightarrow> (case parseErrorJson (ce_parse e) rsp of Inr body \<Rightarrow> Inl ''Munin healthz error'' | Inl _ \<Rightarrow> Inl err))"

definition rollback :: "ptr list \<Rightarrow> ShmIpcImporter \<Rightarrow> ShmIpcImporter" where
  "rollback bases imp = fold closeChunk bases imp"

fun recv_handles ::
  "client_env \<Rightarrow> nat \<Rightarrow> wire \<Rightarrow> ShmIpcImporter \<Rightarrow> ptr list \<Rightarrow> (string \<times> ShmIpcImporter) + (ptr list \<times> ShmIpcImporter)" where
  "recv_handles e 0 w imp bases = Inr (bases, imp)"
| "recv_handles e (Suc n) w imp bases =
     (case frame_recv (ce_chop e) 128 w of
        Inl err \<Rightarrow> Inl (err, rollback bases imp)
      | Inr (f, w') \<Rightarrow>
          if length (fr_payload f) \<noteq> 64 \<or> length (fr_fds f) \<noteq> 1
          then Inl (''MuninClient: chunk-handle frame has the wrong shape'', rollback bases imp)
          else (case importChunk (ce_mmap e) (fr_payload f) (hd (fr_fds f)) imp of
                  Inl err \<Rightarrow> Inl (''MuninClient: import failed: '' @ err, rollback bases imp)
                | Inr (p, imp') \<Rightarrow> recv_handles e n w' imp' (bases @ [p])))"

definition attachOnConnectedFd ::
  "client_env \<Rightarrow> (wire \<Rightarrow> wire) \<Rightarrow> int \<Rightarrow> u8 list \<Rightarrow> MuninClient \<Rightarrow> (TensorManifest \<times> ptr list) expected \<times> MuninClient" where
  "attachOnConnectedFd e peer fd modelId c =
     (if mc_sessionFd c \<ge> 0 then (Inl ''MuninClient: attach called on already-attached client'', c)
      else if modelId = [] then (Inl ''MuninClient: attach requires a non-empty modelId'', c)
      else case frame_send (ce_chop e) (attach_request modelId) [] of
             Inl err \<Rightarrow> (Inl err, c)
           | Inr w \<Rightarrow>
               (case frame_recv (ce_chop e) kDefaultMaxPayload (peer w) of
                  Inl err \<Rightarrow> (Inl err, c)
                | Inr (first, w1) \<Rightarrow>
                    if fr_fds first \<noteq> [] then (Inl ''MuninClient: manifest frame unexpectedly carried fds'', c)
                    else (case parseErrorJson (ce_parse e) (fr_payload first) of
                            Inr body \<Rightarrow> (Inl ''Munin attach error'', c)
                          | Inl _ \<Rightarrow>
                              (case manifest_fromJson (ce_parse e) (fr_payload first) of
                                 Inl err \<Rightarrow> (Inl err, c)
                               | Inr m \<Rightarrow>
                                   (case recv_handles e (length (tm_chunks m)) w1 (mc_importer c) [] of
                                      Inl (err, imp) \<Rightarrow> (Inl err, c\<lparr>mc_importer := imp\<rparr>)
                                    | Inr (bases, imp) \<Rightarrow> (Inr (m, bases), c\<lparr>mc_importer := imp, mc_sessionFd := fd\<rparr>))))))"

section \<open>The worker's weights\<close>

definition attached_tensor :: "ptr list \<Rightarrow> ManifestEntry \<Rightarrow> GgufTensor result" where
  "attached_tensor chunkBases me =
     (if me_chunkIndex me \<ge> length chunkBases then Inl (RuntimeError ''WeightsMap::fromAttachedChunked: chunk base not available'')
      else let base = chunkBases ! me_chunkIndex me
           in if base = NullPtr then Inl (RuntimeError ''WeightsMap::fromAttachedChunked: base pointer is null'')
              else Inr \<lparr>gt_name = me_name me, gt_type = me_type me, gt_dimensions = me_dims me,
                     gt_nelements = foldl (\<lambda>n d. n * d mod 2 ^ 64) 1 (me_dims me), gt_nbytes = me_bytes me, gt_fileOffset = 0,
                     gt_usmPtr = ptr_add base (me_chunkOffset me), gt_chunkIndex = me_chunkIndex me, gt_chunkOffset = me_chunkOffset me\<rparr>)"

definition fromAttachedChunked :: "TensorManifest \<Rightarrow> ptr list \<Rightarrow> GgufTensor list result" where
  "fromAttachedChunked manifest chunkBases = map_result (attached_tensor chunkBases) (tm_tensors manifest)"

section \<open>The handles reach the worker\<close>

text \<open>Each shared chunk is the memory object its descriptor refers to.\<close>

definition fds_ok :: "ShmChunk chunk_state \<Rightarrow> bool" where
  "fds_ok s \<longleftrightarrow> list_all (\<lambda>c. \<exists>b. ch_base c = Ptr b 0 \<and> ch_memfd c = int b) (ca_chunks (fst s))"

lemma fds_ok_open: "shm_openChunk grants s = Inr s' \<Longrightarrow> fds_ok s \<Longrightarrow> fds_ok s'"
  by (auto simp: shm_openChunk_def device_alloc_def fds_ok_def Let_def split: prod.splits if_splits)

lemma fds_ok_commit: "commit_alloc n off s = (s', a) \<Longrightarrow> ca_chunks (fst s) \<noteq> [] \<Longrightarrow> fds_ok s \<Longrightarrow> fds_ok s'"
proof -
  assume c: "commit_alloc n off s = (s', a)" and ne: "ca_chunks (fst s) \<noteq> []" and ok: "fds_ok s"
  let ?ok = "\<lambda>c. \<exists>b. ch_base c = Ptr b 0 \<and> ch_memfd c = int b"
  have s': "ca_chunks (fst s') = butlast (ca_chunks (fst s)) @ [last (ca_chunks (fst s))\<lparr>ch_used := off + n\<rparr>]"
    using c by (auto simp: commit_alloc_def Let_def split: prod.splits)
  have "list_all ?ok (butlast (ca_chunks (fst s)) @ [last (ca_chunks (fst s))])" using ok ne by (simp add: fds_ok_def)
  then show "fds_ok s'" unfolding fds_ok_def s' by simp
qed

lemma fds_ok_allocate:
  assumes "chunks_inv s \<and> fds_ok s" "shm_allocate grants n kDefaultAlignment s = Inr (s', a)"
  shows "chunks_inv s' \<and> fds_ok s'"
proof -
  have "\<not> kDefaultAlignment < 1" by (simp add: kDefaultAlignment_def)
  from bump_allocate_cases [OF assms(2) [unfolded shm_allocate_def] this] obtain s1 s2 where
    st: "(if ca_chunks (fst s) = [] then shm_openChunk grants s else Inr s) = Inr s1"
    "(if needsNewChunk (place n kDefaultAlignment (fst s1)) then shm_openChunk grants s1 else Inr s1) = Inr s2"
    "commit_alloc n (lay_offset (place n kDefaultAlignment (fst s2))) s2 = (s', a)" by metis
  have opt: "fds_ok y \<and> (b \<or> ca_chunks (fst x) \<noteq> [] \<longrightarrow> ca_chunks (fst y) \<noteq> [])"
    if "(if b then shm_openChunk grants x else Inr x) = Inr y" "fds_ok x" for b x y
    using that fds_ok_open [of grants x y] opens_chunkD [OF opens_shm_openChunk, of grants x y] by (cases b) force+
  have "fds_ok s1 \<and> ca_chunks (fst s1) \<noteq> []" using opt [OF st(1)] assms(1) by auto
  then have "fds_ok s2 \<and> ca_chunks (fst s2) \<noteq> []" using opt [OF st(2)] by auto
  then show ?thesis using fds_ok_commit [OF st(3)] shm.inv_alloc [OF _ assms(2)] assms(1) by blast
qed

definition handle_of :: "u64 \<Rightarrow> ShmChunk \<Rightarrow> IpcHandle" where
  "handle_of cb c = \<lparr>ih_bytes = le_bytes 8 (unat cb) @ replicate 56 0, ih_fd = ch_memfd c\<rparr>"

lemma export_all:
  assumes "fds_ok (a, d)"
  shows "map_result (exportChunk (chunkMemfds a) (chunkMapBytes a)) [0..<chunkCount a] = Inr (map (handle_of (ca_chunkBytes a)) (ca_chunks a))"
proof -
  have "exportChunk (chunkMemfds a) (chunkMapBytes a) i = Inr (handle_of (ca_chunkBytes a) (ca_chunks a ! i))" if i: "i < length (ca_chunks a)" for i
  proof -
    obtain b where "ch_memfd (ca_chunks a ! i) = int b" using assms i unfolding fds_ok_def list_all_length fst_conv by blast
    then show ?thesis using i by (simp add: exportChunk_def chunkMemfds_def chunkMapBytes_def handle_of_def Let_def)
  qed
  then have "map_result (exportChunk (chunkMemfds a) (chunkMapBytes a)) [0..<chunkCount a]
      = Inr (map (\<lambda>i. handle_of (ca_chunkBytes a) (ca_chunks a ! i)) [0..<chunkCount a])"
    by (intro map_result_all) (simp add: chunkCount_def)
  also have "map (\<lambda>i. handle_of (ca_chunkBytes a) (ca_chunks a ! i)) [0..<chunkCount a] = map (handle_of (ca_chunkBytes a)) (ca_chunks a)"
    by (rule nth_equalityI) (simp_all add: chunkCount_def)
  finally show ?thesis .
qed

lemma send_handles_wire: "send_handles chop hs = (concat (map (\<lambda>h. frame_wire (ih_bytes h) [ih_fd h]) hs), True)"
  by (induction hs) (simp_all add: frame_send_wire kMaxFdsPerFrame_def)

lemma recv_handles_wire:
  assumes "list_all (\<lambda>h. length (ih_bytes h) = 64 \<and> ih_fd h \<ge> 0 \<and> le_val (take 8 (ih_bytes h)) \<noteq> 0) hs" "\<And>fd n. ce_mmap e fd n"
  shows "\<exists>imp'. recv_handles e (length hs) (concat (map (\<lambda>h. frame_wire (ih_bytes h) [ih_fd h]) hs) @ rest) imp bs
      = Inr (bs @ map (\<lambda>h. Ptr (nat (ih_fd h)) 0) hs, imp')"
  using assms(1)
proof (induction hs arbitrary: imp bs)
  case (Cons h hs)
  have "frame_recv (ce_chop e) 128 (frame_wire (ih_bytes h) [ih_fd h] @ u) = Inr (\<lparr>fr_payload = ih_bytes h, fr_fds = [ih_fd h]\<rparr>, u)" for u
    using Cons.prems by (intro frame_recv_wire) simp_all
  moreover obtain imp1 where "importChunk (ce_mmap e) (ih_bytes h) (ih_fd h) imp = Inr (Ptr (nat (ih_fd h)) 0, imp1)"
    using Cons.prems assms(2) by (auto simp: importChunk_def Let_def)
  moreover obtain imp2 where "recv_handles e (length hs) (concat (map (\<lambda>h. frame_wire (ih_bytes h) [ih_fd h]) hs) @ rest) imp1 (bs @ [Ptr (nat (ih_fd h)) 0])
      = Inr ((bs @ [Ptr (nat (ih_fd h)) 0]) @ map (\<lambda>h. Ptr (nat (ih_fd h)) 0) hs, imp2)"
    using Cons.IH [of imp1 "bs @ [Ptr (nat (ih_fd h)) 0]"] Cons.prems by auto
  ultimately show ?case using Cons.prems by simp
qed simp

lemma chunk_bases_fds: "fds_ok s \<Longrightarrow> map (\<lambda>c. Ptr (nat (ch_memfd c)) 0) (ca_chunks (fst s)) = chunk_bases s"
  by (auto simp: fds_ok_def chunk_bases_def list_all_iff)

text \<open>The worker imports exactly the chunks of the server, in order.\<close>

lemma worker_bases:
  assumes "fds_ok s" "0 < ca_chunkBytes (fst s)" "\<And>fd n. ce_mmap e fd n"
  shows "\<exists>imp'. recv_handles e (length (ca_chunks (fst s)))
      (concat (map (\<lambda>h. frame_wire (ih_bytes h) [ih_fd h]) (map (handle_of (ca_chunkBytes (fst s))) (ca_chunks (fst s))))) imp []
      = Inr (chunk_bases s, imp')"
proof -
  let ?hs = "map (handle_of (ca_chunkBytes (fst s))) (ca_chunks (fst s))"
  have nz: "unat (ca_chunkBytes (fst s)) \<noteq> 0" using assms(2) by (simp add: unat_gt_0 word_neq_0_conv [symmetric] unat_eq_0)
  have "le_val (le_bytes 8 (unat (ca_chunkBytes (fst s)))) = unat (ca_chunkBytes (fst s))"
    using unat_lt64 by (intro le_val_le_bytes) simp
  then have "list_all (\<lambda>h. length (ih_bytes h) = 64 \<and> ih_fd h \<ge> 0 \<and> le_val (take 8 (ih_bytes h)) \<noteq> 0) ?hs"
    using assms(1) nz by (auto simp: fds_ok_def handle_of_def list_all_iff)
  from recv_handles_wire [OF this assms(3), of "[]" imp "[]"] show ?thesis
    using chunk_bases_fds [OF assms(1)] by (simp add: handle_of_def comp_def)
qed

section \<open>From the file to the worker\<close>

lemma loadGgufInto_cases:
  assumes "loadGgufInto grants mid path file cb d st = Inr (m, d', st')" "open_gguf file = Inr r" "unat cb < 2 ^ 62"
    "list_all (\<lambda>t. gr_tensorDataOffset r + gt_fileOffset t + gt_nbytes t < 2 ^ 64) (gr_tensors r)"
    "length (tm_chunks (shm_buildManifest m)) \<le> 2 ^ 32"
  obtains a r' where "sl_id m = mid" "sl_chunks m = Some a" "sl_reader m = Some r'" "\<not> sl_isNvfp4 m" "chunks_inv (a, d')" "fds_ok (a, d')" "0 < ca_chunkBytes a"
    "list_all2 (tensor_loaded file (gr_tensorDataOffset r) (chunk_bases (a, d')) (chunk_used (a, d')) st') (gr_tensors r) (gr_tensors r')"
proof -
  obtain a0 r' a where new: "newShmChunkAllocator cb = Inr a0" and load: "loadTensorsIntoShmChunks grants r (a0, d) st = Inr (r', (a, d'), st')"
    and m: "m = \<lparr>sl_id = mid, sl_path = path, sl_fingerprint = tensorFingerprint r', sl_totalBytes = gr_totalTensorBytes r',
           sl_chunks = Some a, sl_reader = Some r', sl_isNvfp4 = False, sl_shards = [], sl_declaredTotalSize = 0\<rparr>"
    using assms(1,2) by (auto simp: loadGgufInto_def)
  note facts = open_gguf_facts [OF assms(2)]
  obtain ts where run: "chunk_load_loop (\<lambda>n. shm_allocate grants n kDefaultAlignment) file (gr_tensorDataOffset r) (gr_tensors r) (a0, d) st = Inr (ts, (a, d'), st')"
    and r': "gr_tensors r' = ts" using load facts by (auto simp: loadTensorsIntoShmChunks_def load_into_chunks_def)
  have inv0: "chunks_inv (a0, d)" by (rule chunks_inv_new(2) [OF new assms(3)])
  have cb: "ca_chunkBytes a0 = cb" "ca_chunks a0 = []" "0 < cb"
    using new by (auto simp: newShmChunkAllocator_def check_chunkBytes_def kMinChunkBytes_def word_less_nat_alt split: if_splits)
  let ?P = "\<lambda>s. (chunks_inv s \<and> fds_ok s) \<and> ca_chunkBytes (fst s) = cb"
  have pres: "?P s'" if "?P s" "shm_allocate grants n kDefaultAlignment s = Inr (s', x)" for n s s' x
    using that fds_ok_allocate [of s grants n s' x] bump_allocate_chunkBytes [OF opens_shm_openChunk, of s 6 _ grants n s' x]
    by (simp add: shm_allocate_def kDefaultAlignment_def)
  have "?P (a, d')" by (rule chunk_load_preserves [where P = ?P, OF pres run]) (use inv0 cb in \<open>auto simp: fds_ok_def\<close>)
  moreover have "length (chunk_bases (a, d')) \<le> 2 ^ 32"
    using assms(5) by (simp add: m shm_buildManifest_def chunk_descs_def chunkCount_def chunk_bases_def Let_def)
  moreover have "list_all (\<lambda>t. gt_usmPtr t = NullPtr \<and> gr_tensorDataOffset r + gt_fileOffset t + gt_nbytes t < 2 ^ 64) (gr_tensors r)"
    using facts(5) assms(4) by (simp add: list_all_iff indexed_tensor_def)
  ultimately show thesis using that [of a r'] m cb shm.load_loop_loaded [OF run inv0] r' by simp
qed

lemma list_all2_right: "list_all2 P xs ys \<Longrightarrow> (\<And>x y. x \<in> set xs \<Longrightarrow> P x y \<Longrightarrow> Q y) \<Longrightarrow> list_all Q ys"
  by (induction rule: list_all2_induct) auto

lemma tensor_loadedD:
  assumes "tensor_loaded file off bs u st t t'"
  shows "gt_name t' = gt_name t" "gt_type t' = gt_type t" "gt_dimensions t' = gt_dimensions t" "gt_nbytes t' = gt_nbytes t"
    "read_mem st (gt_usmPtr t') (gt_nbytes t) = take (gt_nbytes t) (drop (off + gt_fileOffset t) file)"
    "gt_chunkIndex t' < length bs" "gt_chunkOffset t' < 2 ^ 64" "gt_usmPtr t' = ptr_add (bs ! gt_chunkIndex t') (gt_chunkOffset t')"
proof -
  note l = assms [unfolded tensor_loaded_def]
  show "gt_name t' = gt_name t" "gt_type t' = gt_type t" "gt_dimensions t' = gt_dimensions t" "gt_nbytes t' = gt_nbytes t"
    using l by (metis GgufTensor.select_convs GgufTensor.surjective GgufTensor.update_convs)+
qed (use assms in \<open>unfold tensor_loaded_def, blast\<close>)+

lemma manifest_wf:
  assumes "sl_chunks m = Some a" "sl_reader m = Some r'" "\<not> sl_isNvfp4 m" "list_all indexed_tensor ts"
    "length (ca_chunks a) \<le> 2 ^ 32" "list_all2 (tensor_loaded file off (chunk_bases (a, d')) u st') ts (gr_tensors r')"
  shows "wf_manifest (shm_buildManifest m)"
proof -
  have "wf_entry (length (ca_chunks a)) (entry_of t')" if "t \<in> set ts" "tensor_loaded file off (chunk_bases (a, d')) u st' t t'" for t t'
  proof -
    note ld = tensor_loadedD [OF that(2)]
    have ix: "indexed_tensor t" using assms(4) that(1) by (simp add: list_all_iff)
    then have "ti_blockSize (typeInfo (gt_type t)) \<noteq> 0" by (auto simp: indexed_tensor_def bytesForTensor_def Let_def split: if_splits)
    then have ty: "ggmlTypeOfTag (ggmlTypeTag (gt_type t)) = gt_type t" "ggmlTypeTag (gt_type t) < 2 ^ 32"
      using ggmlTypeOfTag_inverse [of "gt_type t"] ggmlTypeTag_bound [of "gt_type t"] by simp_all
    have "gt_nbytes t < 2 ^ 64" "list_all (\<lambda>d. d < 2 ^ 64) (gt_dimensions t)" using ix unfolding indexed_tensor_def by blast+
    then show ?thesis using assms(5) ty ld by (simp add: wf_entry_def entry_of_def chunk_bases_def)
  qed
  then have "list_all (\<lambda>t'. wf_entry (length (ca_chunks a)) (entry_of t')) (gr_tensors r')" by (rule list_all2_right [OF assms(6)])
  moreover have "cd_bytes c < 2 ^ 64 \<and> cd_chunkIndex c < 2 ^ 32" if "c \<in> set (chunk_descs (Some a))" for c
    using that assms(5) unat_lt64 by (auto simp: chunk_descs_def chunkCount_def)
  ultimately show ?thesis
    using assms(1-3) by (auto simp: wf_manifest_def shm_buildManifest_def Let_def list_all_iff chunk_descs_def chunkCount_def)
qed

definition peer_of :: "session_env \<Rightarrow> ShmModelStore \<Rightarrow> wire \<Rightarrow> wire" where
  "peer_of e store w = (case session_run e store w of Inl _ \<Rightarrow> [] | Inr (reply, _) \<Rightarrow> reply)"

text \<open>What the server answers to a well-formed attach request for a model it holds.\<close>

lemma session_attach_reply:
  assumes "shm_find store mid = Some m" "mid \<noteq> []" "model_ready m = Inr a" "fds_ok (a, d')"
    "se_dump se (manifest_json (shm_buildManifest m)) = Inr txt"
    "se_parse se (attach_request mid) = Some (JObject [(''op'', JString (bytes_of ''attach'')), (''modelId'', JString mid)])"
    "length (attach_request mid) \<le> 64 * 1024"
  shows "peer_of se store (frame_wire (attach_request mid) [])
    = frame_wire txt [] @ concat (map (\<lambda>h. frame_wire (ih_bytes h) [ih_fd h]) (map (handle_of (ca_chunkBytes a)) (ca_chunks a)))"
proof -
  have "frame_recv (se_chop se) (64 * 1024) (frame_wire (attach_request mid) [] @ []) = Inr (\<lparr>fr_payload = attach_request mid, fr_fds = []\<rparr>, [])"
    using assms(7) by (intro frame_recv_wire) simp_all
  moreover have "request_fromJson (se_parse se) (attach_request mid) = Inr \<lparr>re_op = bytes_of ''attach'', re_modelId = mid\<rparr>"
    using assms(6) by (simp add: request_fromJson_def)
  moreover have "bytes_of ''attach'' \<noteq> bytes_of ''healthz''" by (simp add: bytes_of_def)
  moreover have "handleAttach se store mid = Inr (frame_wire txt []
      @ concat (map (\<lambda>h. frame_wire (ih_bytes h) [ih_fd h]) (map (handle_of (ca_chunkBytes a)) (ca_chunks a))), True)"
    using assms(1,3,5) export_all [OF assms(4)]
    by (simp add: handleAttach_def manifest_toJson_def frame_send_wire send_handles_wire kMaxFdsPerFrame_def)
  ultimately show ?thesis using assms(2) by (simp add: peer_of_def session_run_def)
qed

lemma attached_tensor_loaded:
  fixes a :: "ShmChunk ChunkAllocator"
  assumes "tensor_loaded file off (chunk_bases (a, d)) u st t t'" "chunks_inv (a, d)"
  shows "\<exists>w. attached_tensor (chunk_bases (a, d)) (entry_of t') = Inr w \<and> gt_name w = gt_name t \<and> gt_type w = gt_type t
    \<and> gt_dimensions w = gt_dimensions t \<and> gt_nelements w = prod_list (gt_dimensions t) mod 2 ^ 64 \<and> gt_nbytes w = gt_nbytes t \<and> gt_usmPtr w = gt_usmPtr t'"
proof -
  note ld = tensor_loadedD [OF assms(1)]
  obtain b where "chunk_bases (a, d) ! gt_chunkIndex t' = Ptr b 0" using shm.bases_start [OF assms(2)] nth_mem [OF ld(6)] by blast
  then show ?thesis unfolding attached_tensor_def entry_of_def Let_def ManifestEntry.select_convs nelem_prod using ld by simp
qed

text \<open>
  C17. Handing a model to a worker. Munin loads a GGUF file into shared-memory chunks and a worker attaches to
  it. If the JSON library returns what it dumped, the operating system grants the mappings and no tensor end
  overflows, then the attach succeeds, the worker's weights are the tensors of the file in order (name, type,
  dimensions, sizes), and at each weight's pointer the worker reads exactly the bytes the file holds for that
  tensor. The handshake is the code's own: request, manifest, one handle frame per chunk.
\<close>

theorem munin_handoff:
  assumes load: "loadGgufInto grants mid path file cb d st = Inr (m, d', st')" and op: "open_gguf file = Inr r" and cb: "unat cb < 2 ^ 62"
    and nowrap: "list_all (\<lambda>t. gr_tensorDataOffset r + gt_fileOffset t + gt_nbytes t < 2 ^ 64) (gr_tensors r)"
    and count: "length (tm_chunks (shm_buildManifest m)) \<le> 2 ^ 32" and some: "gr_tensors r \<noteq> []"
    and stored: "shm_find store mid = Some m" "mid \<noteq> []"
    and manifest_text: "se_dump se (manifest_json (shm_buildManifest m)) = Inr txt"
      "ce_parse ce txt = Some (manifest_json (shm_buildManifest m))" "length txt \<le> kDefaultMaxPayload"
    and request_text: "se_parse se (attach_request mid) = Some (JObject [(''op'', JString (bytes_of ''attach'')), (''modelId'', JString mid)])"
      "length (attach_request mid) \<le> 64 * 1024"
    and mmap: "\<And>fd n. ce_mmap ce fd n" and client: "mc_sessionFd c < 0" "0 \<le> fd"
  shows "\<exists>man bases c' ws. attachOnConnectedFd ce (peer_of se store) fd mid c = (Inr (man, bases), c') \<and> isAttached c'
    \<and> fromAttachedChunked man bases = Inr ws
    \<and> list_all2 (\<lambda>t w. gt_name w = gt_name t \<and> gt_type w = gt_type t \<and> gt_dimensions w = gt_dimensions t \<and> gt_nbytes w = gt_nbytes t
         \<and> gt_nelements w = prod_list (gt_dimensions t) mod 2 ^ 64
         \<and> read_mem st' (gt_usmPtr w) (gt_nbytes w) = take (gt_nbytes t) (drop (gr_tensorDataOffset r + gt_fileOffset t) file)) (gr_tensors r) ws"
proof -
  obtain a r' where a: "sl_id m = mid" "sl_chunks m = Some a" "sl_reader m = Some r'" "\<not> sl_isNvfp4 m" "chunks_inv (a, d')" "fds_ok (a, d')" "0 < ca_chunkBytes a"
    and loaded: "list_all2 (tensor_loaded file (gr_tensorDataOffset r) (chunk_bases (a, d')) (chunk_used (a, d')) st') (gr_tensors r) (gr_tensors r')"
    by (rule loadGgufInto_cases [OF load op cb nowrap count])
  let ?m = "shm_buildManifest m" and ?B = "chunk_bases (a, d')"
  have chunks: "length (tm_chunks ?m) = length (ca_chunks a)" and tensors: "tm_tensors ?m = map entry_of (gr_tensors r')"
    using a(2-4) by (simp_all add: shm_buildManifest_def chunk_descs_def chunkCount_def Let_def)
  have "gr_tensors r' \<noteq> []" using some loaded by auto
  then have ready: "model_ready m = Inr a" using a(2-4) by (simp add: model_ready_def)
  have wf: "wf_manifest ?m" using manifest_wf [OF a(2-4) open_gguf_facts(5) [OF op] _ loaded] count chunks by simp
  obtain imp' where imp: "recv_handles ce (length (ca_chunks a))
      (concat (map (\<lambda>h. frame_wire (ih_bytes h) [ih_fd h]) (map (handle_of (ca_chunkBytes a)) (ca_chunks a)))) (mc_importer c) [] = Inr (?B, imp')"
    using worker_bases [OF a(6) _ mmap, of "mc_importer c"] a(7) by auto
  have first: "frame_recv (ce_chop ce) kDefaultMaxPayload (frame_wire txt [] @ u) = Inr (\<lparr>fr_payload = txt, fr_fds = []\<rparr>, u)" for u
    using manifest_text(3) by (intro frame_recv_wire) (simp_all add: kDefaultMaxPayload_def)
  have noerr: "parseErrorJson (ce_parse ce) txt = Inl ''parseErrorJson: no string error field in envelope''"
    using manifest_text(2) by (simp add: parseErrorJson_def manifest_json_def)
  have man: "manifest_fromJson (ce_parse ce) txt = Inr ?m" using manifest_text(2) manifest_roundtrip [OF wf] by (simp add: manifest_fromJson_def)
  have "attachOnConnectedFd ce (peer_of se store) fd mid c = (Inr (?m, ?B), c\<lparr>mc_importer := imp', mc_sessionFd := fd\<rparr>)"
    using client(1) stored(2) imp session_attach_reply [OF stored ready a(6) manifest_text(1) request_text]
    by (simp add: attachOnConnectedFd_def frame_send_wire first noerr man chunks)
  moreover have "\<exists>ws. map_result (attached_tensor ?B) (map entry_of ts') = Inr ws \<and> list_all2 (\<lambda>t w. gt_name w = gt_name t \<and> gt_type w = gt_type t
       \<and> gt_dimensions w = gt_dimensions t \<and> gt_nbytes w = gt_nbytes t \<and> gt_nelements w = prod_list (gt_dimensions t) mod 2 ^ 64
       \<and> read_mem st' (gt_usmPtr w) (gt_nbytes w) = take (gt_nbytes t) (drop (gr_tensorDataOffset r + gt_fileOffset t) file)) ts ws"
    if "list_all2 (tensor_loaded file (gr_tensorDataOffset r) ?B (chunk_used (a, d')) st') ts ts'" for ts ts'
    using that
  proof (induction rule: list_all2_induct)
    case (Cons t ts t' ts')
    obtain w where w: "attached_tensor ?B (entry_of t') = Inr w" "gt_name w = gt_name t" "gt_type w = gt_type t"
      "gt_dimensions w = gt_dimensions t" "gt_nelements w = prod_list (gt_dimensions t) mod 2 ^ 64" "gt_nbytes w = gt_nbytes t" "gt_usmPtr w = gt_usmPtr t'"
      using attached_tensor_loaded [OF Cons.hyps(1) a(5)] by blast
    have "read_mem st' (gt_usmPtr t') (gt_nbytes t) = take (gt_nbytes t) (drop (gr_tensorDataOffset r + gt_fileOffset t) file)"
      by (rule tensor_loadedD(5) [OF Cons.hyps(1)])
    then show ?case using Cons.IH w by auto
  qed simp
  ultimately show ?thesis using loaded client(2) by (fastforce simp: fromAttachedChunked_def tensors isAttached_def)
qed

lemma example_allocate:
  "shm_allocate (\<lambda>_. True) 8 kDefaultAlignment (\<lparr>ca_chunkBytes = 4096, ca_chunks = [], ca_bytesUsed = 0\<rparr>, [])
   = Inr ((\<lparr>ca_chunkBytes = 4096, ca_chunks = [\<lparr>ch_base = Ptr 0 0, ch_used = 8, ch_memfd = 0\<rparr>], ca_bytesUsed = 8\<rparr>, [4096]),
       \<lparr>al_chunkIndex = 0, al_chunkOffset = 0, al_ptr = Ptr 0 0\<rparr>)"
  by (simp add: shm_allocate_def bump_allocate_def kDefaultAlignment_def shm_openChunk_def device_alloc_def place_def layoutInsideChunk_def
      alignUp_def commit_alloc_def)

definition example_reader :: GgufReader where
  "example_reader = (indexed_reader example_gguf)\<lparr>gr_file := Some (encode_gguf example_gguf), gr_tensorDataOffset := 128\<rparr>"

lemma example_offset: "data_offset example_gguf = 128" "length (encode_gguf example_gguf) = 140"
proof -
  have al: "file_alignment example_gguf = 32" by (simp add: file_alignment_def example_gguf_def alignment_key_def)
  show off: "data_offset example_gguf = 128" by (simp add: data_offset_def example_gguf_index_length al align_pad_def)
  show "length (encode_gguf example_gguf) = 140" unfolding length_encode off by (simp add: example_gguf_def)
qed

lemma example_open: "open_gguf (encode_gguf example_gguf) = Inr example_reader"
  using open_encoded [of example_gguf] wf_example_gguf [unfolded wf_gguf_def] by (simp add: example_reader_def example_offset(1))

lemma example_reader_tensors: "gr_tensors example_reader = gf_tensors example_gguf" "gr_tensorDataOffset example_reader = 128"
  "gr_file example_reader = Some (encode_gguf example_gguf)" "gr_tensorBuffers example_reader = []" "\<not> gr_chunkLoaded example_reader"
  by (simp_all add: example_reader_def indexed_reader_def newGgufReader_def)

lemma example_load:
  "\<exists>m d' st'. loadGgufInto (\<lambda>_. True) [109] [] (encode_gguf example_gguf) 4096 [] (\<lambda>_ _. 0) = Inr (m, d', st')
     \<and> length (tm_chunks (shm_buildManifest m)) = 1 \<and> sl_id m = [109]"
proof -
  let ?t = "hd (gf_tensors example_gguf)"
  have ts: "gf_tensors example_gguf = [?t]" "gt_nbytes ?t = 8" "gt_fileOffset ?t = 4" "gt_usmPtr ?t = NullPtr" by (simp_all add: example_gguf_def)
  have pc: "payload_check (encode_gguf example_gguf) 128 ?t = Inr 132"
    using payload_check_exact [of "encode_gguf example_gguf" 128 ?t] ts by (simp add: example_offset(2))
  obtain data where mr: "mapped_read (encode_gguf example_gguf) 132 8 = Some data" by (simp add: mapped_read_def example_offset(2))
  have new: "newShmChunkAllocator 4096 = Inr \<lparr>ca_chunkBytes = 4096, ca_chunks = [], ca_bytesUsed = 0\<rparr>"
    by (simp add: newShmChunkAllocator_def check_chunkBytes_def kMinChunkBytes_def)
  show ?thesis
    unfolding loadGgufInto_def new example_open bind_result.simps loadTensorsIntoShmChunks_def load_into_chunks_def example_reader_tensors option.case
    by (subst ts(1)) (simp add: ts(2-4) pc mr example_allocate example_reader_tensors shm_buildManifest_def chunk_descs_def chunkCount_def Let_def)
qed

theorem munin_handoff_witness:
  "\<exists>ce se store c man bases c' ws st'. attachOnConnectedFd ce (peer_of se store) 7 [109] c = (Inr (man, bases), c')
     \<and> fromAttachedChunked man bases = Inr ws \<and> length ws = 1
     \<and> map (\<lambda>w. read_mem st' (gt_usmPtr w) (gt_nbytes w)) ws = [[14, 15, 16, 17, 18, 19, 20, 21]]"
proof -
  let ?file = "encode_gguf example_gguf"
  obtain m d' st' where m: "loadGgufInto (\<lambda>_. True) [109] [] ?file 4096 [] (\<lambda>_ _. 0) = Inr (m, d', st')"
    "length (tm_chunks (shm_buildManifest m)) = 1" "sl_id m = [109]" using example_load by blast
  let ?j = "manifest_json (shm_buildManifest m)"
  let ?req = "JObject [(''op'', JString (bytes_of ''attach'')), (''modelId'', JString [109])]"
  define se where "se = \<lparr>se_chop = (\<lambda>_. 3), se_dump = one_dump ?j, se_parse = (\<lambda>s. if s = attach_request [109] then Some ?req else None), se_pid = 1\<rparr>"
  define ce where "ce = \<lparr>ce_chop = (\<lambda>_. 5), ce_parse = one_parse ?j, ce_mmap = (\<lambda>_ _. True)\<rparr>"
  define c where "c = \<lparr>mc_importer = Map.empty, mc_sessionFd = -1\<rparr>"
  have nowrap: "list_all (\<lambda>t. gr_tensorDataOffset example_reader + gt_fileOffset t + gt_nbytes t < 2 ^ 64) (gr_tensors example_reader)"
    by (simp add: example_reader_tensors example_gguf_def)
  have cb: "unat (4096 :: u64) < 2 ^ 62" by simp
  have count: "length (tm_chunks (shm_buildManifest m)) \<le> 2 ^ 32" using m(2) by simp
  have some: "gr_tensors example_reader \<noteq> []" by (simp add: example_reader_tensors example_gguf_def)
  have find: "shm_find [m] [109] = Some m" "[109] \<noteq> ([] :: u8 list)" using m(3) by (simp_all add: shm_find_def)
  have dump: "se_dump se ?j = Inr [1]" "ce_parse ce [1] = Some ?j" "length [1 :: u8] \<le> kDefaultMaxPayload"
    by (simp_all add: se_def ce_def one_dump_def one_parse_def kDefaultMaxPayload_def)
  have req: "se_parse se (attach_request [109]) = Some ?req" "length (attach_request [109]) \<le> 64 * 1024"
    by (simp_all add: se_def attach_request_def bytes_of_def)
  have mm: "ce_mmap ce fd n" for fd n by (simp add: ce_def)
  have cl: "mc_sessionFd c < 0" "(0 :: int) \<le> 7" by (simp_all add: c_def)
  from munin_handoff [OF m(1) example_open cb nowrap count some find dump req mm cl]
  obtain man bases c' ws where at: "attachOnConnectedFd ce (peer_of se [m]) 7 [109] c = (Inr (man, bases), c')" "fromAttachedChunked man bases = Inr ws"
    and ws: "list_all2 (\<lambda>t w. gt_name w = gt_name t \<and> gt_type w = gt_type t \<and> gt_dimensions w = gt_dimensions t \<and> gt_nbytes w = gt_nbytes t
         \<and> gt_nelements w = prod_list (gt_dimensions t) mod 2 ^ 64
         \<and> read_mem st' (gt_usmPtr w) (gt_nbytes w) = take (gt_nbytes t) (drop (gr_tensorDataOffset example_reader + gt_fileOffset t) ?file)) (gr_tensors example_reader) ws"
    by blast
  have t: "gr_tensors example_reader = [hd (gf_tensors example_gguf)]" "gt_nbytes (hd (gf_tensors example_gguf)) = 8" "gt_fileOffset (hd (gf_tensors example_gguf)) = 4"
    by (simp_all add: example_reader_tensors example_gguf_def)
  have "drop 132 ?file = drop 4 (gf_data example_gguf)"
    unfolding data_offset_data [of example_gguf, symmetric] example_offset(1) by simp
  then have "take 8 (drop 132 ?file) = [14, 15, 16, 17, 18, 19, 20, 21]" by (simp add: example_gguf_def)
  then have "length ws = 1 \<and> map (\<lambda>w. read_mem st' (gt_usmPtr w) (gt_nbytes w)) ws = [[14, 15, 16, 17, 18, 19, 20, 21]]"
    using ws unfolding t(1) by (auto simp: list_all2_Cons1 t example_reader_tensors)
  then show ?thesis using at
    by (intro exI [of _ ce] exI [of _ se] exI [of _ "[m]"] exI [of _ c] exI [of _ man] exI [of _ bases] exI [of _ c'] exI [of _ ws] exI [of _ st']) simp
qed

text \<open>
  A chunk load is not idempotent, although the header says so: the loaders check that the file is open
  before they check that they have already run, and a successful load closes the file. Every second call
  on a reader that a first call has loaded is refused as not open.
\<close>

theorem second_chunk_load_refused:
  assumes "open_gguf file = Inr r" "loadTensorsIntoShmChunks grants r s st = Inr (r', s', st')"
  shows "gr_chunkLoaded r' \<and> loadTensorsIntoShmChunks grants r' s' st' = Inl (RuntimeError ''GgufReader::loadTensorsIntoShmChunks: not open'')
    \<and> loadTensorsIntoChunks grants' r' t u = Inl (RuntimeError ''GgufReader::loadTensorsIntoChunks: not open'')"
  using assms(2) open_gguf_facts [OF assms(1)]
  by (auto simp: loadTensorsIntoShmChunks_def loadTensorsIntoChunks_def load_into_chunks_def)

theorem second_chunk_load_refused_witness:
  "\<exists>r' s' st'. loadTensorsIntoShmChunks (\<lambda>_. True) example_reader (\<lparr>ca_chunkBytes = 4096, ca_chunks = [], ca_bytesUsed = 0\<rparr>, []) (\<lambda>_ _. 0) = Inr (r', s', st')
     \<and> loadTensorsIntoShmChunks (\<lambda>_. True) r' s' st' = Inl (RuntimeError ''GgufReader::loadTensorsIntoShmChunks: not open'')"
proof -
  obtain m d' st' where "loadGgufInto (\<lambda>_. True) [109] [] (encode_gguf example_gguf) 4096 [] (\<lambda>_ _. 0) = Inr (m, d', st')"
    using example_load by blast
  then obtain r' s' st' where
    "loadTensorsIntoShmChunks (\<lambda>_. True) example_reader (\<lparr>ca_chunkBytes = 4096, ca_chunks = [], ca_bytesUsed = 0\<rparr>, []) (\<lambda>_ _. 0) = Inr (r', s', st')"
    by (auto simp: loadGgufInto_def example_open newShmChunkAllocator_def check_chunkBytes_def kMinChunkBytes_def)
  then show ?thesis using second_chunk_load_refused [OF example_open] by blast
qed

end
