(* ===== verification/PieceMerging.thy ===== *)
theory PieceMerging
  imports Prelude
begin

text \<open>
  Greedy merging of adjacent pieces, the common core of the two tokenizer encoders. The reference
  \<open>merge_all\<close> merges the best adjacent pair, leftmost first, until none is left. The encoders reach the
  same result with a priority queue of candidate pairs and a doubly linked list of live pieces; the
  locale \<open>merge_queue\<close> has the argument, for any order on the candidates.
\<close>

section \<open>The reference\<close>

text \<open>The candidates of a list of pieces, each with the position of its left piece.\<close>

definition merge_pairs :: "('w \<Rightarrow> 'w \<Rightarrow> 'e option) \<Rightarrow> 'w list \<Rightarrow> ('e \<times> nat) list" where
  "merge_pairs cand ws = List.map_filter (\<lambda>k. map_option (\<lambda>e. (e, k)) (cand (ws ! k) (ws ! Suc k))) [0..<length ws - 1]"

fun first_least :: "('e \<Rightarrow> 'e \<Rightarrow> bool) \<Rightarrow> 'e \<times> nat \<Rightarrow> ('e \<times> nat) list \<Rightarrow> 'e \<times> nat" where
  "first_least lt x [] = x"
| "first_least lt x (y # ys) = first_least lt (if lt (fst y) (fst x) then y else x) ys"

definition merge_at :: "('w \<Rightarrow> 'w \<Rightarrow> 'w) \<Rightarrow> nat \<Rightarrow> 'w list \<Rightarrow> 'w list" where
  "merge_at glue k ws = take k ws @ glue (ws ! k) (ws ! Suc k) # drop (Suc (Suc k)) ws"

lemma set_merge_pairs: "(e, k) \<in> set (merge_pairs cand ws) \<longleftrightarrow> Suc k < length ws \<and> cand (ws ! k) (ws ! Suc k) = Some e"
  by (force simp: merge_pairs_def map_filter_def image_iff)

lemma sorted_merge_pairs: "sorted_wrt (\<lambda>a b. snd a < snd b) (merge_pairs cand ws)"
proof -
  let ?f = "\<lambda>k. map_option (\<lambda>e. (e, k)) (cand (ws ! k) (ws ! Suc k))"
  have "sorted_wrt (\<lambda>x y. snd (the (?f x)) < snd (the (?f y))) (filter (\<lambda>k. ?f k \<noteq> None) [0..<length ws - 1])"
    by (rule sorted_wrt_mono_rel [OF _ sorted_wrt_filter [OF sorted_wrt_upt]]) auto
  then show ?thesis by (simp add: merge_pairs_def map_filter_def sorted_wrt_map comp_def)
qed

lemma first_least_mem: "first_least lt x ys \<in> set (x # ys)"
proof (induction ys arbitrary: x)
  case (Cons y ys)
  show ?case using Cons.IH [of "if lt (fst y) (fst x) then y else x"] by (auto simp del: split_paired_All split: if_splits)
qed simp

lemma length_merge_at: "Suc k < length ws \<Longrightarrow> length (merge_at glue k ws) = length ws - 1"
  by (simp add: merge_at_def)

function merge_all :: "('e \<Rightarrow> 'e \<Rightarrow> bool) \<Rightarrow> ('w \<Rightarrow> 'w \<Rightarrow> 'e option) \<Rightarrow> ('w \<Rightarrow> 'w \<Rightarrow> 'w) \<Rightarrow> 'w list \<Rightarrow> 'w list" where
  "merge_all lt cand glue ws =
     (case merge_pairs cand ws of
        [] \<Rightarrow> ws
      | x # xs \<Rightarrow> merge_all lt cand glue (merge_at glue (snd (first_least lt x xs)) ws))"
  by auto
termination
proof (relation "measure (\<lambda>(lt, cand, glue, ws). length ws)")
  fix lt :: "'e \<Rightarrow> 'e \<Rightarrow> bool" and cand :: "'w \<Rightarrow> 'w \<Rightarrow> 'e option" and glue :: "'w \<Rightarrow> 'w \<Rightarrow> 'w" and ws x xs
  assume "merge_pairs cand ws = x # xs"
  then have "first_least lt x xs \<in> set (merge_pairs cand ws)" using first_least_mem by metis
  then have "Suc (snd (first_least lt x xs)) < length ws" using set_merge_pairs by (metis prod.collapse)
  then show "((lt, cand, glue, merge_at glue (snd (first_least lt x xs)) ws), lt, cand, glue, ws) \<in> measure (\<lambda>(lt, cand, glue, ws). length ws)"
    by (simp add: length_merge_at)
qed simp

declare merge_all.simps [simp del]

text \<open>What the merging keeps.\<close>

lemma merge_all_preserves:
  assumes "\<And>ws k e. P ws \<Longrightarrow> Suc k < length ws \<Longrightarrow> cand (ws ! k) (ws ! Suc k) = Some e \<Longrightarrow> P (merge_at glue k ws)" and "P ws"
  shows "P (merge_all lt cand glue ws)"
  using assms(2)
proof (induction "length ws" arbitrary: ws rule: less_induct)
  case less
  show ?case
  proof (cases "merge_pairs cand ws")
    case Nil
    then show ?thesis using less.prems by (simp add: merge_all.simps [of _ _ _ ws])
  next
    case (Cons x xs)
    obtain e k where f: "first_least lt x xs = (e, k)" by fastforce
    then have k: "Suc k < length ws" "cand (ws ! k) (ws ! Suc k) = Some e"
      using first_least_mem [of lt x xs] set_merge_pairs [of e k cand ws] Cons by auto
    then have "P (merge_all lt cand glue (merge_at glue k ws))"
      by (intro less.hyps assms(1) less.prems) (auto simp: length_merge_at)
    then show ?thesis using Cons f by (simp add: merge_all.simps [of _ _ _ ws])
  qed
qed

lemma merge_all_length: "length (merge_all lt cand glue ws) \<le> length ws"
  by (rule merge_all_preserves [where P = "\<lambda>vs. length vs \<le> length ws"]) (auto simp: length_merge_at)

lemma merge_all_concat: "concat (map f (merge_all lt cand glue ws)) = concat (map f ws)"
  if "\<And>a b. f (glue a b) = f a @ f b"
proof (rule merge_all_preserves [where P = "\<lambda>vs. concat (map f vs) = concat (map f ws)"])
  fix vs k e assume h: "concat (map f vs) = concat (map f ws)" "Suc k < length vs"
  have "vs = take k vs @ vs ! k # vs ! Suc k # drop (Suc (Suc k)) vs" using h(2) by (simp add: Cons_nth_drop_Suc)
  then have "concat (map f vs) = concat (map f (take k vs)) @ f (vs ! k) @ f (vs ! Suc k) @ concat (map f (drop (Suc (Suc k)) vs))"
    by (metis append_assoc concat.simps(2) concat_append list.simps(9) map_append)
  then show "concat (map f (merge_at glue k vs)) = concat (map f ws)" using h(1) by (simp add: merge_at_def that)
qed simp

lemma merge_all_set:
  assumes "\<forall>w \<in> set ws. P w" "\<And>a b e. P a \<Longrightarrow> P b \<Longrightarrow> cand a b = Some e \<Longrightarrow> P (glue a b)"
  shows "\<forall>w \<in> set (merge_all lt cand glue ws). P w"
proof (rule merge_all_preserves [where P = "\<lambda>vs. \<forall>w \<in> set vs. P w"])
  fix vs k e assume h: "\<forall>w \<in> set vs. P w" "Suc k < length vs" "cand (vs ! k) (vs ! Suc k) = Some e"
  then have "P (glue (vs ! k) (vs ! Suc k))" by (intro assms(2)) auto
  then show "\<forall>w \<in> set (merge_at glue k vs). P w" using h(1) by (auto simp: merge_at_def dest: in_set_takeD in_set_dropD)
qed (rule assms(1))

section \<open>The linked list of live pieces\<close>

text \<open>\<open>xs\<close> are the live nodes in order, linked both ways.\<close>

definition chain :: "(nat \<Rightarrow> nat option) \<Rightarrow> (nat \<Rightarrow> nat option) \<Rightarrow> nat list \<Rightarrow> bool" where
  "chain nx pv xs \<longleftrightarrow>
     (\<forall>k < length xs. nx (xs ! k) = (if Suc k < length xs then Some (xs ! Suc k) else None) \<and>
        pv (xs ! k) = (if k = 0 then None else Some (xs ! (k - 1))))"

definition drop_at :: "nat \<Rightarrow> 'a list \<Rightarrow> 'a list" where
  "drop_at k xs = take k xs @ drop (Suc k) xs"

lemma length_drop_at [simp]: "k < length xs \<Longrightarrow> length (drop_at k xs) = length xs - 1"
  by (simp add: drop_at_def)

lemma nth_drop_at: "k < length xs \<Longrightarrow> m < length xs - 1 \<Longrightarrow> drop_at k xs ! m = (if m < k then xs ! m else xs ! Suc m)"
  by (auto simp: drop_at_def nth_append min_def)

lemma set_drop_at:
  assumes "distinct xs" "k < length xs"
  shows "set (drop_at k xs) = set xs - {xs ! k}"
proof -
  have xs: "xs = take k xs @ xs ! k # drop (Suc k) xs" using assms(2) by (rule id_take_nth_drop)
  then have "distinct (take k xs @ xs ! k # drop (Suc k) xs)" "set xs = set (take k xs) \<union> insert (xs ! k) (set (drop (Suc k) xs))"
    using assms(1) by (simp, metis list.simps(15) set_append)
  then show ?thesis by (auto simp: drop_at_def)
qed

lemma sorted_drop_at:
  assumes "sorted_wrt R xs" "k < length xs"
  shows "sorted_wrt R (drop_at k xs)"
proof -
  have "sorted_wrt R (take k xs @ xs ! k # drop (Suc k) xs)" using id_take_nth_drop [OF assms(2)] assms(1) by simp
  then show ?thesis by (simp add: drop_at_def sorted_wrt_append)
qed

lemma chain_start: "chain (\<lambda>i. if Suc i < n then Some (Suc i) else None) (\<lambda>i. if i = 0 then None else Some (i - 1)) [0..<n]"
  by (auto simp: chain_def)

text \<open>Unlinking the right neighbour of the node at position \<open>k\<close>.\<close>

lemma chain_unlink:
  assumes c: "chain nx pv xs" and d: "distinct xs" and k: "Suc k < length xs"
    and nx': "\<And>i. i \<in> set xs \<Longrightarrow> i \<noteq> xs ! Suc k \<Longrightarrow> nx' i = (if i = xs ! k then nx (xs ! Suc k) else nx i)"
    and pv': "\<And>i. i \<in> set xs \<Longrightarrow> i \<noteq> xs ! Suc k \<Longrightarrow> pv' i = (if nx (xs ! Suc k) = Some i then Some (xs ! k) else pv i)"
  shows "chain nx' pv' (drop_at (Suc k) xs)"
  unfolding chain_def
proof (intro allI impI)
  fix m assume "m < length (drop_at (Suc k) xs)"
  then have m: "m < length xs - 1" using k by simp
  let ?n = "if m < Suc k then m else Suc m"
  have n: "?n < length xs" "?n \<noteq> Suc k" using m by auto
  have at: "drop_at (Suc k) xs ! m = xs ! ?n" using nth_drop_at [OF k m] by simp
  have ne: "xs ! ?n \<in> set xs" "xs ! ?n \<noteq> xs ! Suc k" using n k d by (simp_all only: nth_mem nth_eq_iff_index_eq) auto
  have eqk: "xs ! ?n = xs ! k \<longleftrightarrow> ?n = k" using n k d by (simp only: nth_eq_iff_index_eq)
  have nxk: "nx (xs ! Suc k) = (if Suc (Suc k) < length xs then Some (xs ! Suc (Suc k)) else None)" using c k by (simp add: chain_def)
  have links: "nx (xs ! ?n) = (if Suc ?n < length xs then Some (xs ! Suc ?n) else None)" "pv (xs ! ?n) = (if ?n = 0 then None else Some (xs ! (?n - 1)))"
    using c n(1) unfolding chain_def by blast+
  have "nx' (xs ! ?n) = (if Suc m < length xs - 1 then Some (drop_at (Suc k) xs ! Suc m) else None)"
    unfolding nx' [OF ne] eqk using nxk links(1) nth_drop_at [OF k, of "Suc m"] m k by (cases "m = k") auto
  moreover have "pv' (xs ! ?n) = (if m = 0 then None else Some (drop_at (Suc k) xs ! (m - 1)))"
  proof -
    have "nx (xs ! Suc k) = Some (xs ! ?n) \<longleftrightarrow> ?n = Suc (Suc k)"
      using nxk n d by (auto simp only: nth_eq_iff_index_eq option.inject split: if_splits)
    then show ?thesis unfolding pv' [OF ne] using links(2) nth_drop_at [OF k, of "m - 1"] m k by (cases "m = Suc k") auto
  qed
  ultimately show "nx' (drop_at (Suc k) xs ! m) = (if Suc m < length (drop_at (Suc k) xs) then Some (drop_at (Suc k) xs ! Suc m) else None) \<and>
      pv' (drop_at (Suc k) xs ! m) = (if m = 0 then None else Some (drop_at (Suc k) xs ! (m - 1)))"
    unfolding at using k by simp
qed

section \<open>The queue of candidates\<close>

text \<open>A candidate is better than another if its key is less, or not greater and further left.\<close>

definition better :: "('e \<Rightarrow> 'e \<Rightarrow> bool) \<Rightarrow> 'e \<times> nat \<Rightarrow> 'e \<times> nat \<Rightarrow> bool" where
  "better lt x y \<longleftrightarrow> lt (fst x) (fst y) \<or> (\<not> lt (fst y) (fst x) \<and> snd x < snd y)"

text \<open>Every pair of live neighbours that can be merged is in the queue.\<close>

definition covers :: "('w \<Rightarrow> 'w \<Rightarrow> 'e option) \<Rightarrow> (nat \<Rightarrow> 'w) \<Rightarrow> nat list \<Rightarrow> ('e \<times> nat) set \<Rightarrow> bool" where
  "covers cand pc xs h \<longleftrightarrow> (\<forall>k e. Suc k < length xs \<and> cand (pc (xs ! k)) (pc (xs ! Suc k)) = Some e \<longrightarrow> (e, xs ! k) \<in> h)"

locale merge_queue =
  fixes lt :: "'e \<Rightarrow> 'e \<Rightarrow> bool" and cand :: "'w \<Rightarrow> 'w \<Rightarrow> 'e option" and glue :: "'w \<Rightarrow> 'w \<Rightarrow> 'w"
  assumes lt_irrefl: "\<not> lt a a"
    and lt_trans: "lt a b \<Longrightarrow> lt b c \<Longrightarrow> lt a c"
    and lt_weak: "lt a c \<Longrightarrow> lt a b \<or> lt b c"
begin

lemma first_least_best:
  assumes "sorted_wrt (\<lambda>a b. snd a < snd b) (x # ys)" "y \<in> set (x # ys)" "y \<noteq> first_least lt x ys"
  shows "better lt (first_least lt x ys) y"
  using assms
proof (induction ys arbitrary: x y)
  case (Cons z ys)
  let ?x = "if lt (fst z) (fst x) then z else x"
  let ?r = "first_least lt ?x ys"
  have r: "?r \<in> set (?x # ys)" by (rule first_least_mem)
  have s: "sorted_wrt (\<lambda>a b. snd a < snd b) (?x # ys)" using Cons.prems(1) by auto
  have best: "better lt ?r ?x" if "?r \<noteq> ?x" using Cons.IH [OF s, of ?x] that by simp
  have later: "snd z < snd ?r \<and> snd x < snd ?r" if "?r \<noteq> ?x" using r that Cons.prems(1) by auto
  have "y \<in> set (?x # ys) \<or> y = (if lt (fst z) (fst x) then x else z)" using Cons.prems(2) by auto
  then show ?case
  proof
    assume "y \<in> set (?x # ys)"
    then show ?thesis using Cons.IH [OF s, of y] Cons.prems(3) by simp
  next
    assume y: "y = (if lt (fst z) (fst x) then x else z)"
    have lt: "lt (fst ?r) (fst ?x)" if "?r \<noteq> ?x" using best [OF that] later [OF that] by (auto simp: better_def split: if_splits)
    have "better lt ?r y"
    proof (cases "?r = ?x")
      case True
      then show ?thesis using y Cons.prems(1) by (auto simp: better_def)
    next
      case False
      note r = lt [OF False]
      show ?thesis
      proof (cases "lt (fst z) (fst x)")
        case True
        then have "lt (fst ?r) (fst x)" using r lt_trans [of "fst ?r" "fst z" "fst x"] by simp
        then show ?thesis using True y by (simp add: better_def)
      next
        case False
        then have "lt (fst ?r) (fst z)" using r lt_weak [of "fst ?r" "fst x" "fst z"] by simp
        then show ?thesis using False y by (simp add: better_def)
      qed
    qed
    then show ?thesis by simp
  qed
qed simp

lemma merge_all_step:
  assumes "(e, k) \<in> set (merge_pairs cand ws)" "\<And>x. x \<in> set (merge_pairs cand ws) \<Longrightarrow> \<not> better lt x (e, k)"
  shows "merge_all lt cand glue ws = merge_all lt cand glue (merge_at glue k ws)"
proof -
  obtain x xs where mp: "merge_pairs cand ws = x # xs" using assms(1) by (cases "merge_pairs cand ws") auto
  have "sorted_wrt (\<lambda>a b. snd a < snd b) (merge_pairs cand ws)" by (rule sorted_merge_pairs)
  then have "better lt (first_least lt x xs) (e, k)" if "(e, k) \<noteq> first_least lt x xs"
    using first_least_best [of x xs "(e, k)"] assms(1) that mp by auto
  then have "first_least lt x xs = (e, k)" using assms(2) [of "first_least lt x xs"] first_least_mem [of lt x xs] mp by metis
  then show ?thesis using mp by (simp add: merge_all.simps [of _ _ _ ws])
qed

lemma pop_best:
  assumes s: "sorted_wrt (<) xs" and cov: "covers cand pc xs h" and best: "\<And>x. x \<in> h \<Longrightarrow> \<not> better lt x (e, xs ! k)"
    and k: "Suc k < length xs" "cand (pc (xs ! k)) (pc (xs ! Suc k)) = Some e"
  shows "merge_all lt cand glue (map pc xs) =
    merge_all lt cand glue (map (pc(xs ! k := glue (pc (xs ! k)) (pc (xs ! Suc k)))) (drop_at (Suc k) xs))"
proof -
  let ?ws = "map pc xs" and ?pc = "pc(xs ! k := glue (pc (xs ! k)) (pc (xs ! Suc k)))"
  have "\<not> better lt x (e, k)" if "x \<in> set (merge_pairs cand ?ws)" for x
  proof -
    obtain e' m where x: "x = (e', m)" by fastforce
    then have m: "Suc m < length xs" "cand (pc (xs ! m)) (pc (xs ! Suc m)) = Some e'" using that set_merge_pairs [of e' m cand ?ws] by auto
    then have "\<not> better lt (e', xs ! m) (e, xs ! k)" using cov best by (auto simp: covers_def)
    moreover have "m < k \<Longrightarrow> xs ! m < xs ! k" using s k(1) by (auto simp: sorted_wrt_iff_nth_less)
    ultimately show ?thesis using x by (auto simp: better_def)
  qed
  moreover have "(e, k) \<in> set (merge_pairs cand ?ws)" using k by (simp add: set_merge_pairs)
  ultimately have "merge_all lt cand glue ?ws = merge_all lt cand glue (merge_at glue k ?ws)" by (intro merge_all_step)
  moreover have "merge_at glue k ?ws = map ?pc (drop_at (Suc k) xs)"
  proof (rule nth_equalityI)
    show "length (merge_at glue k ?ws) = length (map ?pc (drop_at (Suc k) xs))" using k(1) by (simp add: merge_at_def)
    fix m assume "m < length (merge_at glue k ?ws)"
    then have m: "m < length xs - 1" using k(1) by (simp add: length_merge_at)
    have "distinct xs" using s by (simp add: strict_sorted_iff)
    then have "drop_at (Suc k) xs ! m = xs ! k \<longleftrightarrow> m = k" using nth_drop_at [OF k(1) m] m k(1) by (auto simp: nth_eq_iff_index_eq)
    then show "merge_at glue k ?ws ! m = map ?pc (drop_at (Suc k) xs) ! m"
      using nth_drop_at [OF k(1) m] m k(1) by (cases m k rule: linorder_cases) (auto simp: merge_at_def nth_append min_def)
  qed
  ultimately show ?thesis by simp
qed

lemma covers_empty: "covers cand pc xs {} \<Longrightarrow> merge_all lt cand glue (map pc xs) = map pc xs"
proof -
  assume "covers cand pc xs {}"
  then have "x \<notin> set (merge_pairs cand (map pc xs))" for x
    using set_merge_pairs [of "fst x" "snd x" cand "map pc xs"] by (auto simp: covers_def)
  then have "merge_pairs cand (map pc xs) = []" by (metis last_in_set)
  then show ?thesis by (simp add: merge_all.simps [of _ _ _ "map pc xs"])
qed

end

lemma covers_stale:
  assumes "covers cand pc xs h" "\<And>k. Suc k < length xs \<Longrightarrow> xs ! k = snd x \<Longrightarrow> cand (pc (xs ! k)) (pc (xs ! Suc k)) \<noteq> Some (fst x)"
    "h - {x} \<subseteq> h'"
  shows "covers cand pc xs h'"
  unfolding covers_def
proof (intro allI impI)
  fix k e assume h: "Suc k < length xs \<and> cand (pc (xs ! k)) (pc (xs ! Suc k)) = Some e"
  then have "(e, xs ! k) \<in> h" "(e, xs ! k) \<noteq> x" using assms(1,2) by (auto simp: covers_def)
  then show "(e, xs ! k) \<in> h'" using assms(3) by blast
qed

lemma covers_merged:
  assumes cov: "covers cand pc xs h" and d: "distinct xs" and k: "Suc k < length xs" and h': "h - {(e, xs ! k)} \<subseteq> h'"
    and e: "cand (pc (xs ! k)) (pc (xs ! Suc k)) = Some e" and pc': "\<And>i. i \<in> set xs \<Longrightarrow> i \<noteq> xs ! k \<Longrightarrow> pc' i = pc i"
    and left: "\<And>e'. 0 < k \<Longrightarrow> cand (pc' (xs ! (k - 1))) (pc' (xs ! k)) = Some e' \<Longrightarrow> (e', xs ! (k - 1)) \<in> h'"
    and right: "\<And>e'. Suc (Suc k) < length xs \<Longrightarrow> cand (pc' (xs ! k)) (pc' (xs ! Suc (Suc k))) = Some e' \<Longrightarrow> (e', xs ! k) \<in> h'"
  shows "covers cand pc' (drop_at (Suc k) xs) h'"
  unfolding covers_def
proof (intro allI impI)
  fix m e' assume h: "Suc m < length (drop_at (Suc k) xs) \<and> cand (pc' (drop_at (Suc k) xs ! m)) (pc' (drop_at (Suc k) xs ! Suc m)) = Some e'"
  then have m: "Suc m < length xs - 1" using k by simp
  note at = nth_drop_at [OF k, of m] nth_drop_at [OF k, of "Suc m"]
  consider "m = k" | "Suc m = k" | "m \<noteq> k" "Suc m \<noteq> k" by blast
  then show "(e', drop_at (Suc k) xs ! m) \<in> h'"
  proof cases
    case 1
    then show ?thesis using right [of e'] h at m by auto
  next
    case 2
    then show ?thesis using left [of e'] h at m by auto
  next
    case 3
    let ?n = "if m < Suc k then m else Suc m"
    have n: "Suc ?n < length xs" "?n \<noteq> k" "Suc ?n \<noteq> k" "drop_at (Suc k) xs ! m = xs ! ?n" "drop_at (Suc k) xs ! Suc m = xs ! Suc ?n"
      using m 3 at by auto
    have "xs ! ?n \<noteq> xs ! k" "xs ! Suc ?n \<noteq> xs ! k" using n k d by (simp_all only: nth_eq_iff_index_eq Suc_lessD) auto
    then have "cand (pc (xs ! ?n)) (pc (xs ! Suc ?n)) = Some e'" using h n pc' by (metis Suc_lessD nth_mem)
    then have "(e', xs ! ?n) \<in> h" using cov n(1) by (auto simp: covers_def)
    then show ?thesis using h' \<open>xs ! ?n \<noteq> xs ! k\<close> n(4) by auto
  qed
qed

end
