(* ===== verification/Tokenizer.thy ===== *)
theory Tokenizer
  imports MuninWire PieceMerging "HOL-Library.List_Lexorder"
begin

unbundle bit_operations_syntax

text \<open>
  The tokenizer, \<^verbatim>\<open>src/model/Tokenizer.{hpp,cpp}\<close>: loading the vocabulary from GGUF metadata, the byte-level and the SentencePiece encoder with their decoders, and
  the split of a text on special tokens.

  \<^item> A \<^verbatim>\<open>std::string\<close> is a byte list. A \<^verbatim>\<open>std::int32_t\<close> is an integer with its conversions written out by
    \<open>to_i32\<close>. A \<^verbatim>\<open>float\<close> score is its bit pattern, compared as IEEE numbers. \<^verbatim>\<open>SIZE_MAX\<close> as "no segment"
    is \<open>None\<close>.
  \<^item> A \<^verbatim>\<open>std::priority_queue\<close> is the list of its elements; \<open>pq_top\<close> is an element no other one is above.
  \<^item> The loops over the queue and over the linked list are partial functions: \<open>None\<close> is a loop that
    does not end. Logging is left out.
\<close>

section \<open>Numbers and strings\<close>

definition to_i32 :: "int \<Rightarrow> int" where
  "to_i32 x = signed_take_bit 31 x"

definition INT32_MAX :: int where
  "INT32_MAX = 2147483647"

definition kSpaceMarker :: "u8 list" where
  "kSpaceMarker = [0xe2, 0x96, 0x81]"

definition f32_nan :: "u32 \<Rightarrow> bool" where
  "f32_nan w \<longleftrightarrow> unat (w AND 0x7fffffff) > 0x7f800000"

definition f32_key :: "u32 \<Rightarrow> int" where
  "f32_key w = (if bit w 31 then - uint (w AND 0x7fffffff) else uint (w AND 0x7fffffff))"

definition f32_less :: "u32 \<Rightarrow> u32 \<Rightarrow> bool" where
  "f32_less a b \<longleftrightarrow> \<not> f32_nan a \<and> \<not> f32_nan b \<and> f32_key a < f32_key b"

definition f32_eq :: "u32 \<Rightarrow> u32 \<Rightarrow> bool" where
  "f32_eq a b \<longleftrightarrow> \<not> f32_nan a \<and> \<not> f32_nan b \<and> f32_key a = f32_key b"

text \<open>Truncation of a float with \<open>eb\<close> exponent and \<open>mb\<close> mantissa bits; C++ leaves the conversion of a
  value outside the target type undefined.\<close>

definition float_trunc :: "nat \<Rightarrow> nat \<Rightarrow> nat \<Rightarrow> int" where
  "float_trunc eb mb bits =
     (let m = bits mod 2 ^ mb; e = (bits div 2 ^ mb) mod 2 ^ eb; bias = 2 ^ (eb - 1) - 1;
          sig = (if e = 0 then m else 2 ^ mb + m);
          v = (if e \<ge> bias + mb then sig * 2 ^ (e - bias - mb) else sig div 2 ^ (bias + mb - e))
      in if odd (bits div 2 ^ (mb + eb)) then - int v else int v)"

fun asNumeric :: "MetadataValue \<Rightarrow> int option" where
  "asNumeric (MvBool b) = Some (if b then 1 else 0)"
| "asNumeric (MvUInt8 n) = Some (to_i32 (int n))"
| "asNumeric (MvInt8 n) = Some (signed_take_bit 7 (int n))"
| "asNumeric (MvUInt16 n) = Some (to_i32 (int n))"
| "asNumeric (MvInt16 n) = Some (signed_take_bit 15 (int n))"
| "asNumeric (MvUInt32 n) = Some (to_i32 (int n))"
| "asNumeric (MvInt32 n) = Some (to_i32 (int n))"
| "asNumeric (MvUInt64 n) = Some (to_i32 (int n))"
| "asNumeric (MvInt64 n) = Some (to_i32 (int n))"
| "asNumeric (MvFloat n) = Some (to_i32 (float_trunc 8 23 n))"
| "asNumeric (MvDouble n) = Some (to_i32 (float_trunc 11 52 n))"
| "asNumeric (MvString s) = None"
| "asNumeric (MvArray a) = None"

fun asString :: "MetadataValue \<Rightarrow> u8 list option" where
  "asString (MvString s) = Some s"
| "asString v = None"

fun asArray :: "MetadataValue option \<Rightarrow> GgufArray option" where
  "asArray (Some (MvArray a)) = Some a"
| "asArray v = None"

definition readArrayElement :: "nat \<Rightarrow> GgufArray \<Rightarrow> nat \<Rightarrow> GgufValueType \<Rightarrow> nat option" where
  "readArrayElement w arr i expected =
     (if ga_elementType arr \<noteq> expected then None
      else if i * w + w > length (ga_raw arr) then None
      else Some (le_val (take w (drop (i * w) (ga_raw arr)))))"

definition utf8CodepointLen :: "u8 \<Rightarrow> nat" where
  "utf8CodepointLen c =
     (if c AND 0x80 = 0 then 1 else if c AND 0xE0 = 0xC0 then 2
      else if c AND 0xF0 = 0xE0 then 3 else if c AND 0xF8 = 0xF0 then 4 else 1)"

lemma utf8CodepointLen_pos [simp]: "0 < utf8CodepointLen c"
  by (simp add: utf8CodepointLen_def)

definition codepointToUtf8 :: "nat \<Rightarrow> u8 list" where
  "codepointToUtf8 cp =
     (if cp < 0x80 then [of_nat cp]
      else if cp < 0x800 then [of_nat (0xC0 OR drop_bit 6 cp), of_nat (0x80 OR (cp AND 0x3F))]
      else [of_nat (0xE0 OR drop_bit 12 cp), of_nat (0x80 OR (drop_bit 6 cp AND 0x3F)), of_nat (0x80 OR (cp AND 0x3F))])"

section \<open>The byte map of GPT-2\<close>

definition visible_bytes :: "nat list" where
  "visible_bytes = [33..<127] @ [0xa1..<0xad] @ [0xae..<0x100]"

fun remap_bytes :: "nat list \<Rightarrow> nat \<Rightarrow> (nat \<times> nat) list \<Rightarrow> (nat \<times> nat) list" where
  "remap_bytes [] n ps = ps"
| "remap_bytes (b # bs) n ps =
     (if b \<in> fst ` set ps then remap_bytes bs n ps else remap_bytes bs (Suc n) (ps @ [(b, 256 + n)]))"

definition byte_pairs :: "(nat \<times> nat) list" where
  "byte_pairs = remap_bytes [0..<256] 0 (map (\<lambda>b. (b, b)) visible_bytes)"

definition byteToUtf8 :: "u8 \<Rightarrow> u8 list" where
  "byteToUtf8 c = (case map_of byte_pairs (unat c) of Some cp \<Rightarrow> codepointToUtf8 cp | None \<Rightarrow> [])"

definition utf8_pairs :: "(u8 list \<times> u8) list" where
  "utf8_pairs = map (\<lambda>(b, cp). (codepointToUtf8 cp, of_nat b)) byte_pairs"

definition utf8ToByte :: "u8 list \<Rightarrow> u8 option" where
  "utf8ToByte s = map_of utf8_pairs s"

definition normalizeForSpm :: "u8 list \<Rightarrow> bool \<Rightarrow> u8 list" where
  "normalizeForSpm text addSpacePrefix =
     (if addSpacePrefix then kSpaceMarker else []) @ concat (map (\<lambda>c. if c = 0x20 then kSpaceMarker else [c]) text)"

section \<open>State\<close>

record TokenInfo =
  ti_text :: "u8 list"
  ti_score :: u32
  ti_type :: int

record Tokenizer =
  tk_tokens :: "TokenInfo list"
  tk_byText :: "u8 list \<rightharpoonup> int"
  tk_modelType :: "u8 list"
  tk_specialTexts :: "u8 list list"
  tk_mergesRank :: "u8 list \<rightharpoonup> int"
  tk_bosId :: int
  tk_eosId :: int
  tk_unknownId :: int
  tk_padId :: int
  tk_addSpacePrefix :: bool

definition newTokenizer :: Tokenizer where
  "newTokenizer = \<lparr>tk_tokens = [], tk_byText = Map.empty, tk_modelType = [], tk_specialTexts = [], tk_mergesRank = Map.empty,
     tk_bosId = - 1, tk_eosId = - 1, tk_unknownId = - 1, tk_padId = - 1, tk_addSpacePrefix = True\<rparr>"

definition findToken :: "Tokenizer \<Rightarrow> u8 list \<Rightarrow> int" where
  "findToken tk text = (case tk_byText tk text of Some i \<Rightarrow> i | None \<Rightarrow> - 1)"

definition tokenText :: "Tokenizer \<Rightarrow> int \<Rightarrow> u8 list" where
  "tokenText tk i = (if i < 0 \<or> nat i \<ge> length (tk_tokens tk) then [] else ti_text (tk_tokens tk ! nat i))"

definition special_texts_of :: "Tokenizer \<Rightarrow> u8 list list" where
  "special_texts_of tk =
     filter (\<lambda>s. s \<noteq> [])
       (map ti_text (filter (\<lambda>t. ti_type t = 3 \<or> ti_type t = 4) (tk_tokens tk)) @
        map (\<lambda>i. ti_text (tk_tokens tk ! nat i))
          (filter (\<lambda>i. i \<ge> 0 \<and> nat i < length (tk_tokens tk)) [tk_bosId tk, tk_eosId tk, tk_padId tk, tk_unknownId tk]))"

text \<open>The second sort is by length, longest first, then by text: a stable sort of the sorted list.\<close>

definition buildSpecialTexts :: "Tokenizer \<Rightarrow> Tokenizer" where
  "buildSpecialTexts tk =
     tk\<lparr>tk_specialTexts := sort_key (\<lambda>s. - int (length s)) (remdups_adj (sort (special_texts_of tk)))\<rparr>"

section \<open>Loading\<close>

fun load_tokens ::
  "GgufArray option \<Rightarrow> GgufArray option \<Rightarrow> nat \<Rightarrow> u8 list list \<Rightarrow> Tokenizer \<Rightarrow> Tokenizer" where
  "load_tokens scores types i [] tk = tk"
| "load_tokens scores types i (text # texts) tk =
     (let score = (case scores of None \<Rightarrow> None | Some a \<Rightarrow> readArrayElement 4 a i Float32);
          type = (case types of None \<Rightarrow> None | Some a \<Rightarrow> readArrayElement 4 a i Int32);
          info = \<lparr>ti_text = text, ti_score = (case score of Some v \<Rightarrow> of_nat v | None \<Rightarrow> 0),
                  ti_type = (case type of Some v \<Rightarrow> to_i32 (int v) | None \<Rightarrow> 1)\<rparr>
      in load_tokens scores types (Suc i) texts
           (tk\<lparr>tk_byText := (tk_byText tk)(text \<mapsto> to_i32 (int i)), tk_tokens := tk_tokens tk @ [info]\<rparr>))"

fun load_merges :: "int \<Rightarrow> u8 list list \<Rightarrow> (u8 list \<rightharpoonup> int) \<Rightarrow> (u8 list \<rightharpoonup> int)" where
  "load_merges i [] m = m"
| "load_merges i (s # ss) m = load_merges (i + 1) ss (emplace s (to_i32 i) m)"

definition readSpecialId :: "GgufReader \<Rightarrow> string \<Rightarrow> int \<Rightarrow> int" where
  "readSpecialId r key dst =
     (case findMetadata r (bytes_of key) of
        Some v \<Rightarrow> (case asNumeric v of Some n \<Rightarrow> n | None \<Rightarrow> dst)
      | None \<Rightarrow> dst)"

definition load_special_ids :: "GgufReader \<Rightarrow> Tokenizer \<Rightarrow> Tokenizer" where
  "load_special_ids r tk =
     tk\<lparr>tk_bosId := readSpecialId r ''tokenizer.ggml.bos_token_id'' (tk_bosId tk),
        tk_eosId := readSpecialId r ''tokenizer.ggml.eos_token_id'' (tk_eosId tk),
        tk_unknownId := readSpecialId r ''tokenizer.ggml.unknown_token_id'' (tk_unknownId tk),
        tk_padId := readSpecialId r ''tokenizer.ggml.padding_token_id'' (tk_padId tk)\<rparr>"

definition load_space_prefix :: "GgufReader \<Rightarrow> Tokenizer \<Rightarrow> Tokenizer" where
  "load_space_prefix r tk =
     (case findMetadata r (bytes_of ''tokenizer.ggml.add_space_prefix'') of
        Some (MvBool b) \<Rightarrow> tk\<lparr>tk_addSpacePrefix := b\<rparr> | _ \<Rightarrow> tk)"

definition load_merge_table :: "GgufReader \<Rightarrow> Tokenizer \<Rightarrow> Tokenizer" where
  "load_merge_table r tk =
     (case asArray (findMetadata r (bytes_of ''tokenizer.ggml.merges'')) of
        Some m \<Rightarrow> if ga_elementType m = String then tk\<lparr>tk_mergesRank := load_merges 0 (ga_strings m) (tk_mergesRank tk)\<rparr> else tk
      | None \<Rightarrow> tk)"

text \<open>The result is the exception, if one was thrown, and the object after the call.\<close>

definition loadFromGguf :: "GgufReader \<Rightarrow> Tokenizer \<Rightarrow> exn option \<times> Tokenizer" where
  "loadFromGguf r tk =
     (let tk1 = (case Option.bind (findMetadata r (bytes_of ''tokenizer.ggml.model'')) asString of
                   Some m \<Rightarrow> tk\<lparr>tk_modelType := m\<rparr> | None \<Rightarrow> tk);
          missing = (Some (RuntimeError ''Tokenizer: tokenizer.ggml.tokens missing''), tk1)
      in case asArray (findMetadata r (bytes_of ''tokenizer.ggml.tokens'')) of
           None \<Rightarrow> missing
         | Some tokensArr \<Rightarrow>
             if ga_elementType tokensArr \<noteq> String then missing
             else
               let tk2 = load_tokens (asArray (findMetadata r (bytes_of ''tokenizer.ggml.scores'')))
                           (asArray (findMetadata r (bytes_of ''tokenizer.ggml.token_type''))) 0 (ga_strings tokensArr) tk1
               in (None, buildSpecialTexts (load_merge_table r (load_space_prefix r (load_special_ids r tk2)))))"

section \<open>The priority queue\<close>

text \<open>\<open>cmp a b\<close> says that \<open>b\<close> is above \<open>a\<close>.\<close>

fun pq_scan :: "('a \<Rightarrow> 'a \<Rightarrow> bool) \<Rightarrow> 'a \<Rightarrow> 'a list \<Rightarrow> 'a" where
  "pq_scan cmp m [] = m"
| "pq_scan cmp m (x # xs) = pq_scan cmp (if cmp m x then x else m) xs"

definition pq_top :: "('a \<Rightarrow> 'a \<Rightarrow> bool) \<Rightarrow> 'a list \<Rightarrow> 'a" where
  "pq_top cmp q = pq_scan cmp (hd q) (tl q)"

definition pq_pop :: "('a \<Rightarrow> 'a \<Rightarrow> bool) \<Rightarrow> 'a list \<Rightarrow> 'a list" where
  "pq_pop cmp q = remove1 (pq_top cmp q) q"

section \<open>Byte-level encoding\<close>

record BpeState =
  bp_word :: "u8 list list"
  bp_prev :: "int list"
  bp_next :: "int list"
  bp_alive :: "bool list"
  bp_heap :: "(int \<times> int) list"

definition pairRank :: "(u8 list \<rightharpoonup> int) \<Rightarrow> BpeState \<Rightarrow> int \<Rightarrow> int" where
  "pairRank mr s i =
     (if i < 0 \<or> bp_next s ! nat i < 0 then INT32_MAX
      else case mr (bp_word s ! nat i @ [0x20] @ bp_word s ! nat (bp_next s ! nat i)) of Some r \<Rightarrow> r | None \<Rightarrow> INT32_MAX)"

definition push_pair :: "(u8 list \<rightharpoonup> int) \<Rightarrow> int \<Rightarrow> BpeState \<Rightarrow> BpeState" where
  "push_pair mr i s =
     (let r = pairRank mr s i in if r \<noteq> INT32_MAX then s\<lparr>bp_heap := bp_heap s @ [(r, i)]\<rparr> else s)"

definition bpe_start :: "(u8 list \<rightharpoonup> int) \<Rightarrow> u8 list list \<Rightarrow> BpeState" where
  "bpe_start mr word =
     (let n = length word;
          s = \<lparr>bp_word = word, bp_prev = map (\<lambda>i. to_i32 (int i) - 1) [0..<n],
               bp_next = map (\<lambda>i. if i + 1 < n then to_i32 (int (i + 1)) else - 1) [0..<n],
               bp_alive = replicate n True, bp_heap = []\<rparr>
      in fold (\<lambda>i. push_pair mr (to_i32 (int i))) [0..<n] s)"

definition heap_greater :: "int \<times> int \<Rightarrow> int \<times> int \<Rightarrow> bool" where
  "heap_greater a b \<longleftrightarrow> fst b < fst a \<or> (fst b = fst a \<and> snd b < snd a)"

definition bpe_merge :: "(u8 list \<rightharpoonup> int) \<Rightarrow> int \<Rightarrow> BpeState \<Rightarrow> BpeState" where
  "bpe_merge mr i s =
     (let j = bp_next s ! nat i;
          k = bp_next s ! nat j;
          s1 = s\<lparr>bp_word := (bp_word s)[nat i := bp_word s ! nat i @ bp_word s ! nat j],
                 bp_alive := (bp_alive s)[nat j := False],
                 bp_next := (bp_next s)[nat i := k],
                 bp_prev := (if k \<ge> 0 then (bp_prev s)[nat k := i] else bp_prev s)\<rparr>;
          p = bp_prev s1 ! nat i;
          s2 = (if p \<ge> 0 then push_pair mr p s1 else s1)
      in push_pair mr i s2)"

partial_function (option) bpe_loop :: "(u8 list \<rightharpoonup> int) \<Rightarrow> BpeState \<Rightarrow> BpeState option" where
  [code]: "bpe_loop mr s =
     (if bp_heap s = [] then Some s
      else
        let top = pq_top heap_greater (bp_heap s);
            s1 = s\<lparr>bp_heap := pq_pop heap_greater (bp_heap s)\<rparr>;
            i = snd top
        in if \<not> bp_alive s1 ! nat i \<or> bp_next s1 ! nat i < 0 \<or> pairRank mr s1 i \<noteq> fst top
           then bpe_loop mr s1
           else bpe_loop mr (bpe_merge mr i s1))"

partial_function (option) bpe_collect :: "BpeState \<Rightarrow> int \<Rightarrow> u8 list list \<Rightarrow> u8 list list option" where
  [code]: "bpe_collect s c merged =
     (if c < 0 then Some merged else bpe_collect s (bp_next s ! nat c) (merged @ [bp_word s ! nat c]))"

definition bpe_words :: "(u8 list \<rightharpoonup> int) \<Rightarrow> u8 list list \<Rightarrow> u8 list list option" where
  "bpe_words mr word =
     (if length word > 1 then Option.bind (bpe_loop mr (bpe_start mr word)) (\<lambda>s. bpe_collect s 0 []) else Some word)"

definition bos_ids :: "Tokenizer \<Rightarrow> bool \<Rightarrow> int list" where
  "bos_ids tk addBos = (if addBos \<and> tk_bosId tk \<ge> 0 then [tk_bosId tk] else [])"

definition piece_id :: "Tokenizer \<Rightarrow> u8 list \<Rightarrow> int" where
  "piece_id tk w = (case tk_byText tk w of Some i \<Rightarrow> i | None \<Rightarrow> tk_unknownId tk)"

definition encodeGpt2 :: "Tokenizer \<Rightarrow> u8 list \<Rightarrow> bool \<Rightarrow> int list option" where
  "encodeGpt2 tk text addBos =
     map_option (\<lambda>word. bos_ids tk addBos @ map (piece_id tk) word) (bpe_words (tk_mergesRank tk) (map byteToUtf8 text))"

text \<open>The texts of the tokens, concatenated: the first loop of both decoders.\<close>

definition raw_text :: "Tokenizer \<Rightarrow> int list \<Rightarrow> bool \<Rightarrow> u8 list" where
  "raw_text tk ids skipSpecial =
     concat (map (\<lambda>i. if i < 0 \<or> nat i \<ge> length (tk_tokens tk) then []
                       else if skipSpecial \<and> (i = tk_bosId tk \<or> i = tk_eosId tk \<or> i = tk_padId tk) then []
                       else ti_text (tk_tokens tk ! nat i)) ids)"

function gpt2_bytes :: "u8 list \<Rightarrow> u8 list" where
  "gpt2_bytes raw =
     (if raw = [] then []
      else
        let n = min (utf8CodepointLen (hd raw)) (length raw); cp = take n raw
        in (case utf8ToByte cp of Some b \<Rightarrow> [b] | None \<Rightarrow> cp) @ gpt2_bytes (drop n raw))"
  by auto
termination by (relation "measure length") auto

declare gpt2_bytes.simps [simp del]

definition decodeGpt2 :: "Tokenizer \<Rightarrow> int list \<Rightarrow> bool \<Rightarrow> u8 list" where
  "decodeGpt2 tk ids skipSpecial = gpt2_bytes (raw_text tk ids skipSpecial)"

section \<open>SentencePiece encoding\<close>

record Seg =
  sg_text :: "u8 list"
  sg_id :: int
  sg_active :: bool
  sg_prev :: "nat option"
  sg_next :: "nat option"

function spm_segments :: "Tokenizer \<Rightarrow> nat \<Rightarrow> u8 list \<Rightarrow> Seg list" where
  "spm_segments tk idx rest =
     (if rest = [] then []
      else
        let n = min (utf8CodepointLen (hd rest)) (length rest); cp = take n rest
        in \<lparr>sg_text = cp, sg_id = piece_id tk cp, sg_active = True, sg_prev = (if idx = 0 then None else Some (idx - 1)), sg_next = Some (idx + 1)\<rparr>
           # spm_segments tk (Suc idx) (drop n rest))"
  by auto
termination by (relation "measure (\<lambda>(tk, idx, rest). length rest)") auto

declare spm_segments.simps [simp del]

definition upd_seg :: "nat \<Rightarrow> (Seg \<Rightarrow> Seg) \<Rightarrow> Seg list \<Rightarrow> Seg list" where
  "upd_seg i f segs = segs[i := f (segs ! i)]"

record Candidate =
  cn_score :: u32
  cn_left :: nat
  cn_id :: int

definition candidate_less :: "Candidate \<Rightarrow> Candidate \<Rightarrow> bool" where
  "candidate_less a b \<longleftrightarrow>
     (if \<not> f32_eq (cn_score a) (cn_score b) then f32_less (cn_score a) (cn_score b) else cn_left a > cn_left b)"

definition tryAddCandidate :: "Tokenizer \<Rightarrow> Seg list \<Rightarrow> nat option \<Rightarrow> Candidate list \<Rightarrow> Candidate list" where
  "tryAddCandidate tk segs leftIdx pq =
     (case leftIdx of None \<Rightarrow> pq
      | Some l \<Rightarrow>
          if l \<ge> length segs \<or> \<not> sg_active (segs ! l) then pq
          else case sg_next (segs ! l) of None \<Rightarrow> pq
             | Some r \<Rightarrow>
                 if r \<ge> length segs \<or> \<not> sg_active (segs ! r) then pq
                 else case tk_byText tk (sg_text (segs ! l) @ sg_text (segs ! r)) of None \<Rightarrow> pq
                    | Some m \<Rightarrow> pq @ [\<lparr>cn_score = ti_score (tk_tokens tk ! nat m), cn_left = l, cn_id = m\<rparr>])"

text \<open>The check of a popped candidate: the right neighbour if the pair still gives the token.\<close>

definition candidate_right :: "Tokenizer \<Rightarrow> Seg list \<Rightarrow> Candidate \<Rightarrow> nat option" where
  "candidate_right tk segs c =
     (let left = segs ! cn_left c in
      if \<not> sg_active left then None
      else case sg_next left of None \<Rightarrow> None
         | Some r \<Rightarrow>
             if r \<ge> length segs \<or> \<not> sg_active (segs ! r) then None
             else if tk_byText tk (sg_text left @ sg_text (segs ! r)) = Some (cn_id c) then Some r else None)"

definition spm_merge :: "Tokenizer \<Rightarrow> Candidate \<Rightarrow> nat \<Rightarrow> Seg list \<Rightarrow> Candidate list \<Rightarrow> Seg list \<times> Candidate list" where
  "spm_merge tk c r segs pq =
     (let right = segs ! r; l = cn_left c;
          segs1 = upd_seg l (\<lambda>s. s\<lparr>sg_text := sg_text s @ sg_text right, sg_id := cn_id c, sg_next := sg_next right\<rparr>) segs;
          segs2 = (case sg_next right of
                     Some q \<Rightarrow> if q < length segs then upd_seg q (\<lambda>s. s\<lparr>sg_prev := Some l\<rparr>) segs1 else segs1
                   | None \<Rightarrow> segs1);
          segs3 = upd_seg r (\<lambda>s. s\<lparr>sg_active := False\<rparr>) segs2
      in (segs3, tryAddCandidate tk segs3 (sg_prev (segs3 ! l)) (tryAddCandidate tk segs3 (Some l) pq)))"

partial_function (option) spm_loop :: "Tokenizer \<Rightarrow> Seg list \<Rightarrow> Candidate list \<Rightarrow> Seg list option" where
  [code]: "spm_loop tk segs pq =
     (if pq = [] then Some segs
      else
        let c = pq_top candidate_less pq; pq1 = pq_pop candidate_less pq
        in case candidate_right tk segs c of
             None \<Rightarrow> spm_loop tk segs pq1
           | Some r \<Rightarrow> spm_loop tk (fst (spm_merge tk c r segs pq1)) (snd (spm_merge tk c r segs pq1)))"

fun first_active :: "Seg list \<Rightarrow> nat \<Rightarrow> nat" where
  "first_active [] cursor = cursor"
| "first_active (s # ss) cursor = (if sg_active s then cursor else first_active ss (Suc cursor))"

partial_function (option) spm_collect :: "Seg list \<Rightarrow> nat option \<Rightarrow> int list \<Rightarrow> int list option" where
  [code]: "spm_collect segs cursor out =
     (case cursor of None \<Rightarrow> Some out
      | Some c \<Rightarrow> if c < length segs then spm_collect segs (sg_next (segs ! c)) (out @ [sg_id (segs ! c)]) else Some out)"

definition encodeSpm :: "Tokenizer \<Rightarrow> u8 list \<Rightarrow> bool \<Rightarrow> int list option" where
  "encodeSpm tk text addBos =
     (let segs0 = spm_segments tk 0 (normalizeForSpm text (tk_addSpacePrefix tk)); out = bos_ids tk addBos in
      if segs0 = [] then Some out
      else
        let segs1 = upd_seg (length segs0 - 1) (\<lambda>s. s\<lparr>sg_next := None\<rparr>) (upd_seg 0 (\<lambda>s. s\<lparr>sg_prev := None\<rparr>) segs0);
            pq = fold (\<lambda>i. tryAddCandidate tk segs1 (Some i)) [0..<length segs1] []
        in Option.bind (spm_loop tk segs1 pq) (\<lambda>segs. spm_collect segs (Some (first_active segs 0)) out))"

fun unmark_spaces :: "u8 list \<Rightarrow> u8 list" where
  "unmark_spaces (a # b # c # rest) =
     (if [a, b, c] = kSpaceMarker then 0x20 # unmark_spaces rest else a # unmark_spaces (b # c # rest))"
| "unmark_spaces raw = raw"

definition decodeSpm :: "Tokenizer \<Rightarrow> int list \<Rightarrow> bool \<Rightarrow> u8 list" where
  "decodeSpm tk ids skipSpecial = unmark_spaces (raw_text tk ids skipSpecial)"

section \<open>Dispatch and special tokens\<close>

definition encode :: "Tokenizer \<Rightarrow> u8 list \<Rightarrow> bool \<Rightarrow> int list option" where
  "encode tk text addBos =
     (if tk_tokens tk = [] then Some []
      else if tk_modelType tk = bytes_of ''gpt2'' then encodeGpt2 tk text addBos else encodeSpm tk text addBos)"

definition decode :: "Tokenizer \<Rightarrow> int list \<Rightarrow> bool \<Rightarrow> u8 list" where
  "decode tk ids skipSpecial =
     (if tk_modelType tk = bytes_of ''gpt2'' then decodeGpt2 tk ids skipSpecial else decodeSpm tk ids skipSpecial)"

definition special_at :: "u8 list \<Rightarrow> u8 list list \<Rightarrow> u8 list option" where
  "special_at rest specials = find (\<lambda>s. s \<noteq> [] \<and> length s \<le> length rest \<and> take (length s) rest = s) specials"

definition flush_run :: "u8 list \<Rightarrow> (bool \<times> u8 list) list" where
  "flush_run run = (if run \<noteq> [] then [(False, run)] else [])"

function split_loop :: "u8 list list \<Rightarrow> u8 list \<Rightarrow> u8 list \<Rightarrow> (bool \<times> u8 list) list \<Rightarrow> (bool \<times> u8 list) list" where
  "split_loop specials rest run out =
     (if rest = [] then out @ flush_run run
      else case special_at rest specials of
             Some hit \<Rightarrow> split_loop specials (drop (length hit) rest) [] (out @ flush_run run @ [(True, hit)])
           | None \<Rightarrow> split_loop specials (tl rest) (run @ [hd rest]) out)"
  by auto
termination
  by (relation "measure (\<lambda>(specials, rest, run, out). length rest)") (auto simp: special_at_def find_Some_iff)

declare split_loop.simps [simp del]

definition splitOnSpecials :: "u8 list \<Rightarrow> u8 list list \<Rightarrow> (bool \<times> u8 list) list" where
  "splitOnSpecials text specials = split_loop specials text [] []"

fun encode_pieces :: "Tokenizer \<Rightarrow> (bool \<times> u8 list) list \<Rightarrow> int list \<Rightarrow> int list option" where
  "encode_pieces tk [] ids = Some ids"
| "encode_pieces tk ((isSpecial, piece) # ps) ids =
     (if isSpecial \<and> findToken tk piece \<ge> 0 then encode_pieces tk ps (ids @ [findToken tk piece])
      else Option.bind (encode tk piece False) (\<lambda>sub. encode_pieces tk ps (ids @ sub)))"

definition encodeSpecial :: "Tokenizer \<Rightarrow> u8 list \<Rightarrow> bool \<Rightarrow> bool \<Rightarrow> int list option" where
  "encodeSpecial tk text addBos parseSpecial =
     (if \<not> parseSpecial then encode tk text addBos
      else if tk_tokens tk = [] then Some []
      else encode_pieces tk (splitOnSpecials text (tk_specialTexts tk)) (bos_ids tk addBos))"

end
