(* ===== verification/HfTokenizer.thy ===== *)
theory HfTokenizer
  imports Tokenizer
begin

text \<open>
  The second loader of the tokenizer, \<^verbatim>\<open>Tokenizer::loadFromHfJson\<close> of \<^verbatim>\<open>src/model/Tokenizer.cpp\<close>: the vocabulary
  of a HuggingFace checkpoint directory.

  \<^item> The directory is an argument, a function from file names to what is there; the parser of the JSON
    library is another one. A JSON object is the list of its members in the order of the library's map.
  \<^item> A load stops with an exception of the code, with one of the JSON library, or with undefined
    behaviour: a negative token id indexes the token vector out of bounds. Memory is assumed to be enough
    for \<open>maxId + 1\<close> tokens.
\<close>

datatype hf_file = FileAbsent | FileUnreadable | FileText "u8 list"

datatype hf_stop = Threw exn | JsonError string | Undefined

type_synonym hf_dir = "string \<Rightarrow> hf_file"

section \<open>JSON access\<close>

fun get_i32 :: "json \<Rightarrow> int expected" where
  "get_i32 (JUnsigned n) = Inr (to_i32 (int n))"
| "get_i32 (JInteger i) = Inr (to_i32 i)"
| "get_i32 (JFloat r) = Inr (to_i32 (truncate_real r))"
| "get_i32 (JBool b) = Inr (if b then 1 else 0)"
| "get_i32 _ = Inl ''type must be number''"

fun json_find :: "json \<Rightarrow> string \<Rightarrow> json option" where
  "json_find (JObject kvs) key = map_of kvs key"
| "json_find _ key = None"

fun is_number_integer :: "json \<Rightarrow> bool" where
  "is_number_integer (JUnsigned n) = True"
| "is_number_integer (JInteger i) = True"
| "is_number_integer _ = False"

definition readJson :: "(u8 list \<Rightarrow> json option) \<Rightarrow> hf_dir \<Rightarrow> string \<Rightarrow> hf_stop + json" where
  "readJson parse dir p =
     (case dir p of
        FileText t \<Rightarrow> (case parse t of Some j \<Rightarrow> Inr j | None \<Rightarrow> Inl (JsonError ''parse error''))
      | _ \<Rightarrow> Inl (Threw (RuntimeError (''Tokenizer::loadFromHfJson: cannot open '' @ p))))"

section \<open>Vocabulary\<close>

definition vocab_entry :: "string \<times> json \<Rightarrow> (int \<times> u8 list) expected" where
  "vocab_entry kv = bind_result (get_i32 (snd kv)) (\<lambda>i. Inr (i, bytes_of (fst kv)))"

fun added_entries :: "json list \<Rightarrow> (int \<times> u8 list) list expected" where
  "added_entries [] = Inr []"
| "added_entries (a # rest) =
     (case (json_find a ''id'', json_find a ''content'') of
        (Some i, Some c) \<Rightarrow>
          bind_result (get_i32 i) (\<lambda>n. bind_result (get_string c) (\<lambda>s.
          bind_result (added_entries rest) (\<lambda>es. Inr ((n, s) # es))))
      | _ \<Rightarrow> added_entries rest)"

text \<open>The entries of the vocabulary and those of the added tokens.\<close>

definition hf_entries :: "(string \<times> json) list \<Rightarrow> json \<Rightarrow> ((int \<times> u8 list) list \<times> (int \<times> u8 list) list) expected" where
  "hf_entries vocab tj =
     bind_result (map_result vocab_entry vocab) (\<lambda>es.
     bind_result (case json_find tj ''added_tokens'' of Some (JArray xs) \<Rightarrow> added_entries xs | _ \<Rightarrow> Inr []) (\<lambda>added.
     Inr (es, added)))"

definition hf_maxId :: "(int \<times> u8 list) list \<Rightarrow> int" where
  "hf_maxId es = fold (\<lambda>(i, w) m. max m i) es (- 1)"

definition hf_put :: "int \<times> u8 list \<Rightarrow> Tokenizer \<Rightarrow> Tokenizer" where
  "hf_put e tk =
     tk\<lparr>tk_tokens := (tk_tokens tk)[nat (fst e) := (tk_tokens tk ! nat (fst e))\<lparr>ti_text := snd e\<rparr>],
        tk_byText := (tk_byText tk)(snd e \<mapsto> fst e)\<rparr>"

definition hf_mark :: "int \<Rightarrow> Tokenizer \<Rightarrow> Tokenizer" where
  "hf_mark sid tk =
     (if sid \<ge> 0 \<and> nat sid < length (tk_tokens tk)
      then tk\<lparr>tk_tokens := (tk_tokens tk)[nat sid := (tk_tokens tk ! nat sid)\<lparr>ti_type := 3\<rparr>]\<rparr> else tk)"

definition hf_vocab :: "(int \<times> u8 list) list \<Rightarrow> int list \<Rightarrow> Tokenizer \<Rightarrow> Tokenizer" where
  "hf_vocab entries specials tk =
     (let empty = \<lparr>ti_text = [], ti_score = 0, ti_type = 1\<rparr>;
          tk1 = tk\<lparr>tk_tokens := replicate (nat (hf_maxId entries) + 1) empty, tk_byText := Map.empty\<rparr>
      in fold hf_mark specials (fold hf_put entries tk1))"

section \<open>Merges and special tokens\<close>

fun hf_merges :: "json list \<Rightarrow> int \<Rightarrow> (u8 list \<rightharpoonup> int) \<Rightarrow> string option \<times> (u8 list \<rightharpoonup> int)" where
  "hf_merges [] rank m = (None, m)"
| "hf_merges (JString s # ms) rank m = hf_merges ms (rank + 1) (emplace s rank m)"
| "hf_merges (JArray [a, b] # ms) rank m =
     (case bind_result (get_string a) (\<lambda>x. bind_result (get_string b) (\<lambda>y. Inr (x @ [0x20] @ y))) of
        Inl e \<Rightarrow> (Some e, m)
      | Inr key \<Rightarrow> hf_merges ms (rank + 1) (emplace key rank m))"
| "hf_merges (_ # ms) rank m = hf_merges ms rank m"

definition strTok :: "json \<Rightarrow> string \<Rightarrow> u8 list" where
  "strTok tc key = (case json_find tc key of Some (JString s) \<Rightarrow> s | _ \<Rightarrow> [])"

definition hf_config_id :: "json \<Rightarrow> string \<Rightarrow> Tokenizer \<Rightarrow> int" where
  "hf_config_id tc key tk = (let s = strTok tc key in if s \<noteq> [] then findToken tk s else - 1)"

definition hf_config :: "json \<Rightarrow> Tokenizer \<Rightarrow> Tokenizer" where
  "hf_config tc tk =
     tk\<lparr>tk_bosId := hf_config_id tc ''bos_token'' tk, tk_eosId := hf_config_id tc ''eos_token'' tk,
        tk_padId := hf_config_id tc ''pad_token'' tk, tk_unknownId := hf_config_id tc ''unk_token'' tk\<rparr>"

definition hf_eos :: "json \<Rightarrow> Tokenizer \<Rightarrow> Tokenizer" where
  "hf_eos gc tk =
     (let set_eos = (\<lambda>j. case get_i32 j of Inr i \<Rightarrow> tk\<lparr>tk_eosId := i\<rparr> | Inl e \<Rightarrow> tk) in
      case json_find gc ''eos_token_id'' of
        None \<Rightarrow> tk
      | Some (JArray (x # xs)) \<Rightarrow> if is_number_integer x then set_eos x else tk
      | Some j \<Rightarrow> if is_number_integer j then set_eos j else tk)"

text \<open>A configuration file that exists is read and used; one that cannot be read stops the load.\<close>

definition hf_read_into ::
  "(u8 list \<Rightarrow> json option) \<Rightarrow> hf_dir \<Rightarrow> string \<Rightarrow> (json \<Rightarrow> Tokenizer \<Rightarrow> Tokenizer) \<Rightarrow> Tokenizer \<Rightarrow> hf_stop option \<times> Tokenizer" where
  "hf_read_into parse dir p use tk =
     (if dir p = FileAbsent then (None, tk)
      else case readJson parse dir p of Inl e \<Rightarrow> (Some e, tk) | Inr j \<Rightarrow> (None, use j tk))"

definition hf_finish :: "(u8 list \<Rightarrow> json option) \<Rightarrow> hf_dir \<Rightarrow> Tokenizer \<Rightarrow> hf_stop option \<times> Tokenizer" where
  "hf_finish parse dir tk =
     (let tk1 = tk\<lparr>tk_bosId := - 1, tk_eosId := - 1, tk_unknownId := - 1, tk_padId := - 1\<rparr> in
      case hf_read_into parse dir ''tokenizer_config.json'' hf_config tk1 of
        (Some e, tk2) \<Rightarrow> (Some e, tk2)
      | (None, tk2) \<Rightarrow>
          (case (if tk_eosId tk2 < 0 then hf_read_into parse dir ''generation_config.json'' hf_eos tk2 else (None, tk2)) of
             (Some e, tk3) \<Rightarrow> (Some e, tk3)
           | (None, tk3) \<Rightarrow> (None, buildSpecialTexts (tk3\<lparr>tk_addSpacePrefix := False\<rparr>))))"

section \<open>The loader\<close>

definition hf_build ::
  "(u8 list \<Rightarrow> json option) \<Rightarrow> hf_dir \<Rightarrow> (string \<times> json) list \<Rightarrow> (int \<times> u8 list) list \<Rightarrow> (int \<times> u8 list) list \<Rightarrow> Tokenizer \<Rightarrow>
   hf_stop option \<times> Tokenizer" where
  "hf_build parse dir model es added tk =
     (let entries = es @ added in
      if hf_maxId entries < 0 then (Some (Threw (RuntimeError ''Tokenizer::loadFromHfJson: empty vocab'')), tk)
      else if list_ex (\<lambda>e. fst e < 0) entries then (Some Undefined, tk)
      else
        let tk1 = hf_vocab entries (map fst added) tk;
            (err, ranks) = (case map_of model ''merges'' of Some (JArray ms) \<Rightarrow> hf_merges ms 0 Map.empty | _ \<Rightarrow> (None, Map.empty));
            tk2 = tk1\<lparr>tk_mergesRank := ranks\<rparr>
        in case err of Some e \<Rightarrow> (Some (JsonError e), tk2) | None \<Rightarrow> hf_finish parse dir tk2)"

definition hf_type :: "(string \<times> json) list \<Rightarrow> u8 list expected" where
  "hf_type model = (case map_of model ''type'' of None \<Rightarrow> Inr [] | Some j \<Rightarrow> get_string j)"

definition loadFromHfJson :: "(u8 list \<Rightarrow> json option) \<Rightarrow> hf_dir \<Rightarrow> Tokenizer \<Rightarrow> hf_stop option \<times> Tokenizer" where
  "loadFromHfJson parse dir tk =
     (case readJson parse dir ''tokenizer.json'' of
        Inl e \<Rightarrow> (Some e, tk)
      | Inr tj \<Rightarrow>
          (case json_find tj ''model'' of
             Some (JObject model) \<Rightarrow>
               (case hf_type model of
                  Inl e \<Rightarrow> (Some (JsonError e), tk)
                | Inr ty \<Rightarrow>
                    if ty \<noteq> bytes_of ''BPE''
                    then (Some (Threw (RuntimeError ''Tokenizer::loadFromHfJson: only byte-level BPE tokenizer.json is supported'')), tk)
                    else
                      let tk1 = tk\<lparr>tk_modelType := bytes_of ''gpt2''\<rparr> in
                      (case map_of model ''vocab'' of
                         Some (JObject vocab) \<Rightarrow>
                           (case hf_entries vocab tj of
                              Inl e \<Rightarrow> (Some (JsonError e), tk1)
                            | Inr (es, added) \<Rightarrow> hf_build parse dir model es added tk1)
                       | _ \<Rightarrow> (Some (Threw (RuntimeError ''Tokenizer::loadFromHfJson: tokenizer.json model.vocab missing'')), tk1)))
           | _ \<Rightarrow> (Some (Threw (RuntimeError ''Tokenizer::loadFromHfJson: tokenizer.json has no 'model' object'')), tk)))"

end
