(* ===== verification/TokenizerProperties.thy ===== *)
theory TokenizerProperties
  imports HfTokenizer "HOL-Library.Sublist"
begin

text \<open>
  The encoders of the tokenizer against the greedy reference \<open>merge_all\<close>: the queue-driven loops end
  and give the same pieces. Decoding inverts byte-level encoding, and the split on special tokens is
  a partition of the text.
\<close>

section \<open>The queue\<close>

lemma pq_scan_mem: "pq_scan cmp m xs \<in> set (m # xs)"
proof (induction xs arbitrary: m)
  case (Cons x xs)
  show ?case using Cons [of "if cmp m x then x else m"] by (auto simp del: split_paired_All split: if_splits)
qed simp

text \<open>A comparison that is a strict order on the elements of the queue.\<close>

definition strict_on :: "'a set \<Rightarrow> ('a \<Rightarrow> 'a \<Rightarrow> bool) \<Rightarrow> bool" where
  "strict_on S cmp \<longleftrightarrow> (\<forall>a \<in> S. \<not> cmp a a) \<and> (\<forall>a \<in> S. \<forall>b \<in> S. \<forall>c \<in> S. cmp a b \<and> cmp b c \<longrightarrow> cmp a c)"

lemma strict_onD: "strict_on S cmp \<Longrightarrow> a \<in> S \<Longrightarrow> \<not> cmp a a"
  "strict_on S cmp \<Longrightarrow> a \<in> S \<Longrightarrow> b \<in> S \<Longrightarrow> c \<in> S \<Longrightarrow> cmp a b \<Longrightarrow> cmp b c \<Longrightarrow> cmp a c"
  unfolding strict_on_def by blast+

lemma pq_scan_above:
  assumes "strict_on S cmp"
  shows "set (m # xs) \<subseteq> S \<Longrightarrow> pq_scan cmp m xs = m \<or> cmp m (pq_scan cmp m xs)"
proof (induction xs arbitrary: m)
  case (Cons x xs)
  let ?m = "if cmp m x then x else m"
  have sub: "set (?m # xs) \<subseteq> S" using Cons.prems by auto
  then have t: "pq_scan cmp ?m xs \<in> S" using pq_scan_mem [of cmp ?m xs] by blast
  have S: "m \<in> S" "x \<in> S" using Cons.prems by auto
  show ?case using Cons.IH [OF sub] strict_onD(2) [OF assms S t] by (cases "cmp m x") auto
qed simp

lemma pq_scan_top:
  assumes "strict_on S cmp"
  shows "set (m # xs) \<subseteq> S \<Longrightarrow> y \<in> set (m # xs) \<Longrightarrow> \<not> cmp (pq_scan cmp m xs) y"
proof (induction xs arbitrary: m y)
  case (Cons x xs)
  let ?m = "if cmp m x then x else m"
  let ?t = "pq_scan cmp ?m xs"
  have sub: "set (?m # xs) \<subseteq> S" using Cons.prems(1) by auto
  have t: "?t \<in> S" using pq_scan_mem [of cmp ?m xs] sub by blast
  note tr = strict_onD(2) [OF assms]
  have S: "m \<in> S" "x \<in> S" using Cons.prems(1) by auto
  have "\<not> cmp ?t (if cmp m x then m else x)"
  proof
    assume c: "cmp ?t (if cmp m x then m else x)"
    show False
    proof (cases "cmp m x")
      case True
      then have "cmp ?t ?m" using tr [OF t S(1) S(2)] c by simp
      then show False using Cons.IH [OF sub, of ?m] by simp
    next
      case False
      then have "cmp m x" using pq_scan_above [OF assms sub] tr [OF S(1) t S(2)] c by auto
      then show False using False by simp
    qed
  qed
  moreover have "y \<in> set (?m # xs) \<or> y = (if cmp m x then m else x)" using Cons.prems(2) by auto
  ultimately show ?case using Cons.IH [OF sub, of y] by auto
qed (use assms in \<open>auto simp: strict_on_def\<close>)

lemma pq_top_props:
  assumes "q \<noteq> []" "strict_on (set q) cmp"
  shows "pq_top cmp q \<in> set q" "y \<in> set q \<Longrightarrow> \<not> cmp (pq_top cmp q) y" "set q - {pq_top cmp q} \<subseteq> set (pq_pop cmp q)"
    "set (pq_pop cmp q) \<subseteq> set q" "length (pq_pop cmp q) < length q"
proof -
  have q: "q = hd q # tl q" using assms(1) by simp
  show m: "pq_top cmp q \<in> set q" unfolding pq_top_def using pq_scan_mem [of cmp "hd q" "tl q"] q by metis
  show "y \<in> set q \<Longrightarrow> \<not> cmp (pq_top cmp q) y" unfolding pq_top_def using pq_scan_top [OF assms(2), of "hd q" "tl q"] q by auto
  show "set q - {pq_top cmp q} \<subseteq> set (pq_pop cmp q)" "set (pq_pop cmp q) \<subseteq> set q"
    unfolding pq_pop_def using in_set_remove1 [of _ "pq_top cmp q" q] set_remove1_subset [of "pq_top cmp q" q] by blast+
  show "length (pq_pop cmp q) < length q" unfolding pq_pop_def using m by (simp add: length_remove1 assms(1))
qed

section \<open>Byte-level merging\<close>

text \<open>
  The reference: merge the adjacent pair of the lowest rank, the leftmost of several, until no
  adjacent pair has a rank. A pair of rank \<^verbatim>\<open>INT32_MAX\<close> counts as none, as in the code.
\<close>

definition gpt2_cand :: "(u8 list \<rightharpoonup> int) \<Rightarrow> u8 list \<Rightarrow> u8 list \<Rightarrow> int option" where
  "gpt2_cand mr a b = (case mr (a @ [0x20] @ b) of Some r \<Rightarrow> if r = INT32_MAX then None else Some r | None \<Rightarrow> None)"

definition naive_bpe :: "(u8 list \<rightharpoonup> int) \<Rightarrow> u8 list list \<Rightarrow> u8 list list" where
  "naive_bpe mr ws = merge_all (<) (gpt2_cand mr) (@) ws"

interpretation gpt2: merge_queue "(<) :: int \<Rightarrow> int \<Rightarrow> bool" "gpt2_cand mr" "(@)" for mr
  by unfold_locales auto

definition nat_opt :: "int \<Rightarrow> nat option" where
  "nat_opt z = (if z < 0 then None else Some (nat z))"

definition heap_set :: "(int \<times> int) list \<Rightarrow> (int \<times> nat) set" where
  "heap_set h = (\<lambda>(r, i). (r, nat i)) ` set h"

definition bpe_links :: "BpeState \<Rightarrow> nat list \<Rightarrow> bool" where
  "bpe_links s xs \<longleftrightarrow>
     length (bp_prev s) = length (bp_word s) \<and> length (bp_next s) = length (bp_word s) \<and> length (bp_alive s) = length (bp_word s) \<and>
     xs \<noteq> [] \<and> hd xs = 0 \<and> sorted_wrt (<) xs \<and> set xs = {i. i < length (bp_word s) \<and> bp_alive s ! i} \<and>
     chain (\<lambda>i. nat_opt (bp_next s ! i)) (\<lambda>i. nat_opt (bp_prev s ! i)) xs \<and>
     (\<forall>x \<in> set (bp_heap s). fst x \<noteq> INT32_MAX \<and> 0 \<le> snd x \<and> nat (snd x) < length (bp_word s))"

definition bpe_inv :: "(u8 list \<rightharpoonup> int) \<Rightarrow> BpeState \<Rightarrow> nat list \<Rightarrow> bool" where
  "bpe_inv mr s xs \<longleftrightarrow> bpe_links s xs \<and> covers (gpt2_cand mr) ((!) (bp_word s)) xs (heap_set (bp_heap s))"

lemma nat_opt_simps [simp]: "nat_opt z = None \<longleftrightarrow> z < 0" "nat_opt z = Some n \<longleftrightarrow> z = int n"
  by (auto simp: nat_opt_def)

lemma bpe_linksD:
  assumes "bpe_links s xs" "k < length xs"
  shows "xs ! k < length (bp_word s)" "bp_alive s ! (xs ! k)"
    "Suc k < length xs \<Longrightarrow> bp_next s ! (xs ! k) = int (xs ! Suc k)" "\<not> Suc k < length xs \<Longrightarrow> bp_next s ! (xs ! k) < 0"
    "k = 0 \<Longrightarrow> bp_prev s ! (xs ! k) < 0" "0 < k \<Longrightarrow> bp_prev s ! (xs ! k) = int (xs ! (k - 1))"
proof -
  have "xs ! k \<in> set xs" using assms(2) by simp
  then show "xs ! k < length (bp_word s)" "bp_alive s ! (xs ! k)" using assms(1) by (auto simp: bpe_links_def)
  have "nat_opt (bp_next s ! (xs ! k)) = (if Suc k < length xs then Some (xs ! Suc k) else None)"
    "nat_opt (bp_prev s ! (xs ! k)) = (if k = 0 then None else Some (xs ! (k - 1)))"
    using assms unfolding bpe_links_def chain_def by auto
  then show "Suc k < length xs \<Longrightarrow> bp_next s ! (xs ! k) = int (xs ! Suc k)" "\<not> Suc k < length xs \<Longrightarrow> bp_next s ! (xs ! k) < 0"
    "k = 0 \<Longrightarrow> bp_prev s ! (xs ! k) < 0" "0 < k \<Longrightarrow> bp_prev s ! (xs ! k) = int (xs ! (k - 1))" by (auto split: if_splits)
qed

lemma pairRank_at:
  assumes "bpe_links s xs" "k < length xs"
  shows "Suc k < length xs \<Longrightarrow> pairRank mr s (int (xs ! k)) =
      (case gpt2_cand mr (bp_word s ! (xs ! k)) (bp_word s ! (xs ! Suc k)) of Some r \<Rightarrow> r | None \<Rightarrow> INT32_MAX)"
    "\<not> Suc k < length xs \<Longrightarrow> pairRank mr s (int (xs ! k)) = INT32_MAX"
  using bpe_linksD(3,4) [OF assms] by (auto simp: pairRank_def gpt2_cand_def split: option.split)

lemma gpt2_cand_Some: "gpt2_cand mr a b = Some r \<Longrightarrow> r \<noteq> INT32_MAX"
  by (auto simp: gpt2_cand_def split: option.splits if_splits)

lemma push_pair_frame [simp]:
  "bp_word (push_pair mr i s) = bp_word s" "bp_prev (push_pair mr i s) = bp_prev s" "bp_next (push_pair mr i s) = bp_next s"
  "bp_alive (push_pair mr i s) = bp_alive s"
  by (simp_all add: push_pair_def Let_def)

lemma push_pair_heap:
  "set (bp_heap s) \<subseteq> set (bp_heap (push_pair mr i s))" "length (bp_heap (push_pair mr i s)) \<le> Suc (length (bp_heap s))"
  by (auto simp: push_pair_def Let_def)

lemma heap_set_mono: "set h \<subseteq> set h' \<Longrightarrow> heap_set h \<subseteq> heap_set h'"
  by (auto simp: heap_set_def)

lemma push_links:
  assumes l: "bpe_links s xs" and k: "k < length xs"
  shows "bpe_links (push_pair mr (int (xs ! k)) s) xs"
    "Suc k < length xs \<Longrightarrow> gpt2_cand mr (bp_word s ! (xs ! k)) (bp_word s ! (xs ! Suc k)) = Some r \<Longrightarrow>
      (r, xs ! k) \<in> heap_set (bp_heap (push_pair mr (int (xs ! k)) s))"
proof -
  show "bpe_links (push_pair mr (int (xs ! k)) s) xs"
    using l bpe_linksD(1) [OF assms] unfolding bpe_links_def push_pair_def Let_def by auto
  assume "Suc k < length xs" "gpt2_cand mr (bp_word s ! (xs ! k)) (bp_word s ! (xs ! Suc k)) = Some r"
  then show "(r, xs ! k) \<in> heap_set (bp_heap (push_pair mr (int (xs ! k)) s))"
    using pairRank_at(1) [OF assms, of mr] gpt2_cand_Some by (force simp: push_pair_def heap_set_def)
qed

text \<open>The merge before the two new candidates are queued.\<close>

definition bpe_unlink :: "int \<Rightarrow> BpeState \<Rightarrow> BpeState" where
  "bpe_unlink i s =
     (let j = bp_next s ! nat i; k = bp_next s ! nat j in
      s\<lparr>bp_word := (bp_word s)[nat i := bp_word s ! nat i @ bp_word s ! nat j], bp_alive := (bp_alive s)[nat j := False],
        bp_next := (bp_next s)[nat i := k], bp_prev := (if k \<ge> 0 then (bp_prev s)[nat k := i] else bp_prev s)\<rparr>)"

lemma bpe_merge_eq:
  "bpe_merge mr i s =
     (let s1 = bpe_unlink i s; p = bp_prev s1 ! nat i in push_pair mr i (if p \<ge> 0 then push_pair mr p s1 else s1))"
  by (simp add: bpe_merge_def bpe_unlink_def Let_def)

lemma unlink_links:
  assumes l: "bpe_links s xs" and k: "Suc k < length xs"
  shows "bpe_links (bpe_unlink (int (xs ! k)) s) (drop_at (Suc k) xs)"
    "bp_word (bpe_unlink (int (xs ! k)) s) = (bp_word s)[xs ! k := bp_word s ! (xs ! k) @ bp_word s ! (xs ! Suc k)]"
    "bp_heap (bpe_unlink (int (xs ! k)) s) = bp_heap s"
proof -
  let ?i = "xs ! k" and ?j = "xs ! Suc k"
  let ?s = "bpe_unlink (int ?i) s"
  have d: "distinct xs" and s: "sorted_wrt (<) xs" using l by (simp_all add: bpe_links_def strict_sorted_iff)
  have lt: "m < length xs \<Longrightarrow> xs ! m < length (bp_word s)" for m by (rule bpe_linksD(1) [OF l])
  have j: "bp_next s ! ?i = int ?j" using bpe_linksD(3) [OF l, of k] k by simp
  show w: "bp_word ?s = (bp_word s)[?i := bp_word s ! ?i @ bp_word s ! ?j]" "bp_heap ?s = bp_heap s" by (simp_all add: bpe_unlink_def j Let_def)
  have len: "length (bp_next s) = length (bp_word s)" "length (bp_prev s) = length (bp_word s)" "length (bp_alive s) = length (bp_word s)"
    using l by (simp_all add: bpe_links_def)
  have ne: "drop_at (Suc k) xs \<noteq> [] \<and> hd (drop_at (Suc k) xs) = 0"
    using k l by (cases xs) (auto simp: drop_at_def bpe_links_def)
  have set: "set (drop_at (Suc k) xs) = {m. m < length (bp_word ?s) \<and> bp_alive ?s ! m}"
    using set_drop_at [OF d k] l lt [OF k] len by (auto simp: bpe_links_def bpe_unlink_def j Let_def nth_list_update split: if_splits)
  have chain: "chain (\<lambda>m. nat_opt (bp_next ?s ! m)) (\<lambda>m. nat_opt (bp_prev ?s ! m)) (drop_at (Suc k) xs)"
  proof (rule chain_unlink [OF _ d k])
    show "chain (\<lambda>m. nat_opt (bp_next s ! m)) (\<lambda>m. nat_opt (bp_prev s ! m)) xs" using l by (simp add: bpe_links_def)
    fix m assume m: "m \<in> set xs"
    then have m': "m < length (bp_word s)" using l by (simp add: bpe_links_def)
    show "nat_opt (bp_next ?s ! m) = (if m = ?i then nat_opt (bp_next s ! ?j) else nat_opt (bp_next s ! m))"
      using m' len by (simp add: bpe_unlink_def j Let_def nth_list_update)
    show "nat_opt (bp_prev ?s ! m) = (if nat_opt (bp_next s ! ?j) = Some m then Some ?i else nat_opt (bp_prev s ! m))"
      using m' len by (cases "bp_next s ! ?j < 0"; cases "nat (bp_next s ! ?j) = m") (auto simp: bpe_unlink_def j Let_def)
  qed
  have heap: "\<forall>x \<in> set (bp_heap ?s). fst x \<noteq> INT32_MAX \<and> 0 \<le> snd x \<and> nat (snd x) < length (bp_word ?s)" using l w by (simp add: bpe_links_def)
  show "bpe_links ?s (drop_at (Suc k) xs)"
    unfolding bpe_links_def using ne set chain heap sorted_drop_at [OF s k] len by (simp add: w bpe_unlink_def Let_def)
qed

lemma bpe_merge_inv:
  assumes inv: "bpe_links s xs" "covers (gpt2_cand mr) ((!) (bp_word s)) xs h" and k: "Suc k < length xs"
    and r: "gpt2_cand mr (bp_word s ! (xs ! k)) (bp_word s ! (xs ! Suc k)) = Some r" and h: "h - {(r, xs ! k)} \<subseteq> heap_set (bp_heap s)"
  shows "bpe_inv mr (bpe_merge mr (int (xs ! k)) s) (drop_at (Suc k) xs)"
    "bp_word (bpe_merge mr (int (xs ! k)) s) = (bp_word s)[xs ! k := bp_word s ! (xs ! k) @ bp_word s ! (xs ! Suc k)]"
    "length (bp_heap (bpe_merge mr (int (xs ! k)) s)) \<le> length (bp_heap s) + 2"
proof -
  let ?i = "int (xs ! k)" and ?ys = "drop_at (Suc k) xs"
  define s1 where "s1 = bpe_unlink ?i s"
  define s2 where "s2 = (if bp_prev s1 ! (xs ! k) \<ge> 0 then push_pair mr (bp_prev s1 ! (xs ! k)) s1 else s1)"
  have m: "bpe_merge mr ?i s = push_pair mr ?i s2" by (simp add: bpe_merge_eq Let_def s1_def s2_def)
  note U = unlink_links [OF inv(1) k, folded s1_def]
  have ys: "k < length ?ys" "?ys ! k = xs ! k" "0 < k \<Longrightarrow> ?ys ! (k - 1) = xs ! (k - 1)" "Suc k < length ?ys \<longleftrightarrow> Suc (Suc k) < length xs"
    "Suc (Suc k) < length xs \<Longrightarrow> ?ys ! Suc k = xs ! Suc (Suc k)"
    using k nth_drop_at [OF k, of k] nth_drop_at [OF k, of "k - 1"] nth_drop_at [OF k, of "Suc k"] by auto
  have prev: "k = 0 \<Longrightarrow> bp_prev s1 ! (xs ! k) < 0" "0 < k \<Longrightarrow> bp_prev s1 ! (xs ! k) = int (xs ! (k - 1))"
    using bpe_linksD(5,6) [OF U(1) ys(1)] ys(2,3) by auto
  have l2: "bpe_links s2 ?ys" "bp_word s2 = bp_word s1" "set (bp_heap s1) \<subseteq> set (bp_heap s2)"
    using push_links(1) [OF U(1), of "k - 1" mr] U(1) prev ys push_pair_heap(1) [of s1 mr] by (cases "k = 0"; auto simp: s2_def)+
  have l3: "bpe_links (push_pair mr ?i s2) ?ys" using push_links(1) [OF l2(1) ys(1), of mr] ys(2) by simp
  have left: "(e, xs ! (k - 1)) \<in> heap_set (bp_heap (push_pair mr ?i s2))"
    if "0 < k" "gpt2_cand mr (bp_word s1 ! (xs ! (k - 1))) (bp_word s1 ! (xs ! k)) = Some e" for e
  proof -
    have "(e, xs ! (k - 1)) \<in> heap_set (bp_heap s2)"
      using push_links(2) [OF U(1), of "k - 1" mr e] that prev(2) ys by (simp add: s2_def)
    then show ?thesis using heap_set_mono [OF push_pair_heap(1) [of s2 mr ?i]] by blast
  qed
  have right: "(e, xs ! k) \<in> heap_set (bp_heap (push_pair mr ?i s2))"
    if "Suc (Suc k) < length xs" "gpt2_cand mr (bp_word s1 ! (xs ! k)) (bp_word s1 ! (xs ! Suc (Suc k))) = Some e" for e
    using push_links(2) [OF l2(1) ys(1), of mr e] that ys(2,4,5) l2(2) by simp
  have sub: "set (bp_heap s) \<subseteq> set (bp_heap (push_pair mr ?i s2))"
    by (rule order_trans [OF _ push_pair_heap(1)]) (use l2(3) U(3) in simp)
  have d: "distinct xs" using inv(1) by (simp add: bpe_links_def strict_sorted_iff)
  have "covers (gpt2_cand mr) ((!) (bp_word s1)) ?ys (heap_set (bp_heap (push_pair mr ?i s2)))"
  proof (rule covers_merged [OF inv(2) d k _ r _ left right])
    show "h - {(r, xs ! k)} \<subseteq> heap_set (bp_heap (push_pair mr ?i s2))" using h heap_set_mono [OF sub] by blast
    show "bp_word s1 ! i = bp_word s ! i" if "i \<in> set xs" "i \<noteq> xs ! k" for i using U(2) that by simp
  qed
  then show "bpe_inv mr (bpe_merge mr ?i s) ?ys" using l3 l2(2) by (simp add: bpe_inv_def m)
  show "bp_word (bpe_merge mr ?i s) = (bp_word s)[xs ! k := bp_word s ! (xs ! k) @ bp_word s ! (xs ! Suc k)]" using U(2) l2(2) by (simp add: m)
  have "length (bp_heap s2) \<le> Suc (length (bp_heap s))" unfolding s2_def using U(3) push_pair_heap(2) [of mr _ s1] by auto
  then show "length (bp_heap (bpe_merge mr ?i s)) \<le> length (bp_heap s) + 2" using push_pair_heap(2) [of mr ?i s2] by (simp add: m)
qed

text \<open>The loop ends and leaves the pieces of the reference.\<close>

lemma heap_strict: "strict_on S heap_greater"
  unfolding strict_on_def heap_greater_def by auto

lemma bpe_loop_result:
  assumes "bpe_inv mr s xs"
  shows "\<exists>s' ys. bpe_loop mr s = Some s' \<and> bpe_links s' ys \<and>
    map ((!) (bp_word s')) ys = naive_bpe mr (map ((!) (bp_word s)) xs)"
  using assms
proof (induction "3 * length xs + length (bp_heap s)" arbitrary: s xs rule: less_induct)
  case less
  have links: "bpe_links s xs" and cov: "covers (gpt2_cand mr) ((!) (bp_word s)) xs (heap_set (bp_heap s))"
    using less.prems by (simp_all add: bpe_inv_def)
  show ?case
  proof (cases "bp_heap s = []")
    case True
    then have "naive_bpe mr (map ((!) (bp_word s)) xs) = map ((!) (bp_word s)) xs"
      using gpt2.covers_empty [of mr "(!) (bp_word s)" xs] cov by (simp add: naive_bpe_def heap_set_def)
    then show ?thesis using True links by (subst bpe_loop.simps) auto
  next
    case False
    note T = pq_top_props [OF False heap_strict]
    define top where "top = pq_top heap_greater (bp_heap s)"
    define s1 where "s1 = s\<lparr>bp_heap := pq_pop heap_greater (bp_heap s)\<rparr>"
    define r where "r = fst top"
    define i where "i = nat (snd top)"
    have top: "top \<in> set (bp_heap s)" unfolding top_def by (rule T(1))
    then have ri: "top = (r, int i)" "i < length (bp_word s)" "r \<noteq> INT32_MAX"
      using links unfolding bpe_links_def r_def i_def by (auto simp: prod_eq_iff)
    have s1: "bp_word s1 = bp_word s" "bp_next s1 = bp_next s" "bp_alive s1 = bp_alive s" by (simp_all add: s1_def)
    have l1: "bpe_links s1 xs" using links T(4) by (auto simp: bpe_links_def s1_def)
    have h1: "heap_set (bp_heap s) - {(r, i)} \<subseteq> heap_set (bp_heap s1)"
      using T(3) ri(1) unfolding top_def [symmetric] by (auto simp: heap_set_def s1_def image_iff)
    let ?stale = "\<not> bp_alive s1 ! i \<or> bp_next s1 ! i < 0 \<or> pairRank mr s1 (int i) \<noteq> r"
    have unfold: "bpe_loop mr s = (if ?stale then bpe_loop mr s1 else bpe_loop mr (bpe_merge mr (int i) s1))"
      using False ri(1) by (subst bpe_loop.simps) (simp add: Let_def s1_def [symmetric] top_def [symmetric])
    show ?thesis
    proof (cases ?stale)
      case True
      have "covers (gpt2_cand mr) ((!) (bp_word s)) xs (heap_set (bp_heap s1))"
      proof (rule covers_stale [OF cov _ h1])
        fix k assume k: "Suc k < length xs" "xs ! k = snd (r, i)"
        then have "bp_alive s1 ! i" "bp_next s1 ! i \<ge> 0" using bpe_linksD(2,3) [OF l1, of k] by auto
        then have "pairRank mr s1 (int i) \<noteq> r" using True by auto
        then show "gpt2_cand mr (bp_word s ! (xs ! k)) (bp_word s ! (xs ! Suc k)) \<noteq> Some (fst (r, i))"
          using pairRank_at(1) [OF l1, of k mr] k s1 by auto
      qed
      then have "bpe_inv mr s1 xs" using l1 by (simp add: bpe_inv_def s1)
      moreover have "3 * length xs + length (bp_heap s1) < 3 * length xs + length (bp_heap s)" using T(5) by (simp add: s1_def)
      ultimately show ?thesis using less.hyps [of xs s1] True unfold s1 by simp
    next
      case fresh: False
      then obtain k where k: "k < length xs" "xs ! k = i"
        using l1 ri(2) s1 by (auto simp: bpe_links_def in_set_conv_nth set_eq_iff)
      have sk: "Suc k < length xs" using bpe_linksD(4) [OF l1 k(1)] fresh k(2) by auto
      have rank: "pairRank mr s1 (int i) = r" using fresh by simp
      have c: "gpt2_cand mr (bp_word s1 ! (xs ! k)) (bp_word s1 ! (xs ! Suc k)) = Some r"
        using pairRank_at(1) [OF l1 k(1) sk, of mr] rank k(2) ri(3) by (auto split: option.splits)
      have cov1: "covers (gpt2_cand mr) ((!) (bp_word s1)) xs (heap_set (bp_heap s))" using cov s1 by simp
      have h1': "heap_set (bp_heap s) - {(r, xs ! k)} \<subseteq> heap_set (bp_heap s1)" using h1 k(2) by simp
      note M = bpe_merge_inv [OF l1 cov1 sk c h1']
      have best: "\<not> better (<) x (r, xs ! k)" if xh: "x \<in> heap_set (bp_heap s)" for x
      proof -
        obtain y where x: "x = (fst y, nat (snd y))" "y \<in> set (bp_heap s)" using xh by (auto simp: heap_set_def case_prod_beta)
        have y: "0 \<le> snd y" using x(2) links by (simp add: bpe_links_def)
        have "\<not> heap_greater (r, int i) y" using T(2) [OF x(2)] ri(1) unfolding top_def by simp
        then show ?thesis using x(1) y k(2) by (auto simp: heap_greater_def better_def)
      qed
      have nv: "naive_bpe mr (map ((!) (bp_word s1)) xs) =
          naive_bpe mr (map (((!) (bp_word s1))(xs ! k := bp_word s1 ! (xs ! k) @ bp_word s1 ! (xs ! Suc k))) (drop_at (Suc k) xs))"
        unfolding naive_bpe_def by (rule gpt2.pop_best [OF _ cov1 best sk c]) (use l1 in \<open>simp_all add: bpe_links_def\<close>)
      have eq: "map (((!) (bp_word s1))(xs ! k := bp_word s1 ! (xs ! k) @ bp_word s1 ! (xs ! Suc k))) (drop_at (Suc k) xs) =
          map ((!) (bp_word (bpe_merge mr (int i) s1))) (drop_at (Suc k) xs)"
        using M(2) k(2) ri(2) s1 by (auto simp: nth_list_update)
      have dec: "3 * length (drop_at (Suc k) xs) + length (bp_heap (bpe_merge mr (int i) s1)) < 3 * length xs + length (bp_heap s)"
        using M(3) T(5) sk k(2) by (simp add: s1_def)
      have "bpe_inv mr (bpe_merge mr (int i) s1) (drop_at (Suc k) xs)" using M(1) k(2) by simp
      from less.hyps [OF dec this] show ?thesis using fresh unfold nv eq s1(1) by (simp only: if_False)
    qed
  qed
qed

lemma bpe_collect_chain:
  assumes l: "bpe_links s xs"
  shows "k < length xs \<Longrightarrow> bpe_collect s (int (xs ! k)) out = Some (out @ map ((!) (bp_word s)) (drop k xs))"
proof (induction "length xs - k" arbitrary: k out)
  case (Suc n)
  let ?w = "bp_word s ! (xs ! k)"
  have step: "bpe_collect s (int (xs ! k)) out = bpe_collect s (bp_next s ! (xs ! k)) (out @ [?w])"
    by (subst bpe_collect.simps) simp
  have drop: "drop k xs = xs ! k # drop (Suc k) xs" using Suc.prems by (simp add: Cons_nth_drop_Suc)
  show ?case
  proof (cases "Suc k < length xs")
    case True
    then show ?thesis using Suc.hyps(1) [of "Suc k" "out @ [?w]"] Suc.hyps(2) bpe_linksD(3) [OF l, of k] step drop by simp
  next
    case False
    then show ?thesis using bpe_linksD(4) [OF l Suc.prems] step drop by (simp add: bpe_collect.simps [of s "bp_next s ! (xs ! k)"])
  qed
qed simp

lemma to_i32_nat [simp]: "n < 2 ^ 31 \<Longrightarrow> to_i32 (int n) = int n"
  unfolding to_i32_def by (rule signed_take_bit_int_eq_self) auto

lemma push_loop:
  assumes "bpe_links s [0..<n]" "m \<le> n" "n < 2 ^ 31" "m = 0 \<Longrightarrow> bp_heap s = []"
  shows "bpe_links (fold (\<lambda>i. push_pair mr (to_i32 (int i))) [0..<m] s) [0..<n] \<and>
    bp_word (fold (\<lambda>i. push_pair mr (to_i32 (int i))) [0..<m] s) = bp_word s \<and>
    (\<forall>k < m. \<forall>r. Suc k < n \<and> gpt2_cand mr (bp_word s ! k) (bp_word s ! Suc k) = Some r \<longrightarrow>
       (r, k) \<in> heap_set (bp_heap (fold (\<lambda>i. push_pair mr (to_i32 (int i))) [0..<m] s)))"
  using assms(1,2)
proof (induction m)
  case (Suc m)
  let ?s = "fold (\<lambda>i. push_pair mr (to_i32 (int i))) [0..<m] s"
  have IH: "bpe_links ?s [0..<n]" "bp_word ?s = bp_word s" using Suc by auto
  have m: "m < length [0..<n]" "[0..<n] ! m = m" "to_i32 (int m) = int m" using Suc.prems assms(3) by auto
  note P = push_links [OF IH(1) m(1), of mr, unfolded m(2)]
  have sub: "heap_set (bp_heap ?s) \<subseteq> heap_set (bp_heap (push_pair mr (int m) ?s))" by (rule heap_set_mono [OF push_pair_heap(1)])
  have "(r, k) \<in> heap_set (bp_heap (push_pair mr (int m) ?s))"
    if "k < Suc m" "Suc k < n" "gpt2_cand mr (bp_word s ! k) (bp_word s ! Suc k) = Some r" for k r
    using that P(2) [of r] IH(2) sub Suc by (cases "k = m") auto
  then show ?case using P(1) IH(2) m(3) by simp
qed simp

lemma bpe_start_inv:
  assumes "0 < length word" "length word < 2 ^ 31"
  shows "bpe_inv mr (bpe_start mr word) [0..<length word]" "bp_word (bpe_start mr word) = word"
proof -
  let ?n = "length word"
  define s where "s = \<lparr>bp_word = word, bp_prev = map (\<lambda>i. to_i32 (int i) - 1) [0..<?n],
      bp_next = map (\<lambda>i. if i + 1 < ?n then to_i32 (int (i + 1)) else - 1) [0..<?n], bp_alive = replicate ?n True, bp_heap = []\<rparr>"
  have at: "bp_next s ! i = (if Suc i < ?n then int (Suc i) else - 1)" "bp_prev s ! i = int i - 1" if "i < ?n" for i
    using to_i32_nat [of "Suc i"] to_i32_nat [of i] assms(2) that by (auto simp: s_def simp del: of_nat_Suc)
  have "chain (\<lambda>i. nat_opt (bp_next s ! i)) (\<lambda>i. nat_opt (bp_prev s ! i)) [0..<?n]"
    unfolding chain_def by (auto simp: at nat_opt_def)
  then have "bpe_links s [0..<?n]" using assms(1) by (auto simp: bpe_links_def s_def upt_conv_Cons)
  from push_loop [OF this order_refl assms(2), of mr]
  show "bpe_inv mr (bpe_start mr word) [0..<?n]" "bp_word (bpe_start mr word) = word"
    unfolding bpe_start_def Let_def s_def [symmetric] by (auto simp: bpe_inv_def covers_def s_def)
qed

lemma bpe_words_naive:
  assumes "length word < 2 ^ 31"
  shows "bpe_words mr word = Some (naive_bpe mr word)"
proof (cases "length word > 1")
  case True
  have pos: "0 < length word" using True by linarith
  note S = bpe_start_inv [OF pos assms, of mr]
  obtain s xs where r: "bpe_loop mr (bpe_start mr word) = Some s" "bpe_links s xs"
    "map ((!) (bp_word s)) xs = naive_bpe mr (map ((!) word) [0..<length word])"
    using bpe_loop_result [of mr "bpe_start mr word" "[0..<length word]"] S by auto
  have "0 < length xs" "xs ! 0 = 0" using r(2) by (auto simp: bpe_links_def hd_conv_nth)
  then have "bpe_collect s 0 [] = Some (map ((!) (bp_word s)) xs)" using bpe_collect_chain [OF r(2), of 0 "[]"] by simp
  then show ?thesis using True r(1,3) by (simp add: bpe_words_def map_nth)
next
  case False
  then have "merge_pairs (gpt2_cand mr) word = []" by (simp add: merge_pairs_def map_filter_def)
  then show ?thesis using False by (simp add: bpe_words_def naive_bpe_def merge_all.simps)
qed

section \<open>Decoding inverts byte-level encoding\<close>

text \<open>The byte map is injective and its images are single codepoints.\<close>

lemma remap_bytes_eq:
  "distinct bs \<Longrightarrow> remap_bytes bs n ps =
     ps @ zip (filter (\<lambda>b. b \<notin> fst ` set ps) bs) [256 + n..<256 + n + length (filter (\<lambda>b. b \<notin> fst ` set ps) bs)]"
proof (induction bs arbitrary: n ps)
  case (Cons b bs)
  let ?m = "filter (\<lambda>x. x \<notin> fst ` set ps) bs"
  have "filter (\<lambda>x. x \<notin> fst ` set (ps @ [(b, 256 + n)])) bs = ?m" using Cons.prems by (intro filter_cong) auto
  then show ?case using Cons by (simp add: upt_conv_Cons add.assoc)
qed simp

lemma upt_split: "i \<le> j \<Longrightarrow> j \<le> k \<Longrightarrow> [i..<k] = [i..<j] @ [j..<k]"
  using upt_add_eq_append [of i j "k - j"] by simp

lemma byte_pairs_eq: "byte_pairs = map (\<lambda>b. (b, b)) visible_bytes @ zip ([0..<33] @ [127..<161] @ [173]) [256..<324]"
proof -
  have mem: "b \<in> fst ` set (map (\<lambda>b. (b, b)) visible_bytes) \<longleftrightarrow> (33 \<le> b \<and> b < 127) \<or> (161 \<le> b \<and> b < 173) \<or> (174 \<le> b \<and> b < 256)" for b
    by (auto simp: visible_bytes_def image_image image_Un simp del: upt_rec_numeral)
  have "[0..<256] = [0..<33] @ [33..<256]" "[33..<256] = [33..<127] @ [127..<256]" "[127..<256] = [127..<161] @ [161..<256]"
    "[161..<256] = [161..<173] @ [173..<256]" "[173..<256] = [173..<174] @ [174..<(256 :: nat)]"
    by (rule upt_split; simp)+
  then have eq: "[0..<256] = [0..<33] @ [33..<127] @ [127..<161] @ [161..<173] @ [173..<174] @ [174..<(256 :: nat)]" by metis
  have f: "filter (\<lambda>b. b \<notin> fst ` set (map (\<lambda>b. (b, b)) visible_bytes)) [0..<256] = [0..<33] @ [127..<161] @ [173..<174]"
    unfolding mem eq filter_append by (subst filter_True filter_False; auto simp del: upt_rec_numeral)+
  have o: "[173..<174] = [173 :: nat]" by simp
  have "byte_pairs = map (\<lambda>b. (b, b)) visible_bytes @ zip ([0..<33] @ [127..<161] @ [173..<174])
      [256 + 0..<256 + 0 + length ([0..<33] @ [127..<161] @ [173..<174 :: nat])]"
    unfolding byte_pairs_def by (subst remap_bytes_eq) (simp_all only: f distinct_upt)
  then show ?thesis unfolding o by (simp del: upt_rec_numeral)
qed

lemma byte_pairs_facts:
  "distinct (map fst byte_pairs)" "distinct (map snd byte_pairs)" "set (map fst byte_pairs) = {0..<256}" "(b, cp) \<in> set byte_pairs \<Longrightarrow> cp < 324"
proof -
  let ?m = "[0..<33] @ [127..<161] @ [173 :: nat]"
  have len: "length ?m = length [256..<324 :: nat]" by (simp del: upt_rec_numeral)
  have f: "map fst byte_pairs = visible_bytes @ ?m" "map snd byte_pairs = visible_bytes @ [256..<324]"
    unfolding byte_pairs_eq using len by (simp_all add: comp_def del: upt_rec_numeral)
  show "distinct (map fst byte_pairs)" "distinct (map snd byte_pairs)" "set (map fst byte_pairs) = {0..<256}"
    unfolding f visible_bytes_def by (auto simp del: upt_rec_numeral)
  assume "(b, cp) \<in> set byte_pairs"
  then have "cp \<in> set (map snd byte_pairs)" by force
  then show "cp < 324" unfolding f visible_bytes_def by (auto simp del: upt_rec_numeral)
qed

text \<open>UTF-8 of the codepoints the map uses: one or two bytes, whose value can be read back.\<close>

lemma or_nat_add: "x < 2 ^ n \<Longrightarrow> 2 ^ n * k OR x = 2 ^ n * k + (x :: nat)"
proof (rule disjunctive_add_eq_or [symmetric], rule bit_eqI)
  fix m assume x: "x < 2 ^ n"
  then have "take_bit n x = x" by (simp add: take_bit_nat_eq_self)
  then have "\<not> bit x m" if "n \<le> m" using that by (metis bit_take_bit_iff linorder_not_less)
  moreover have "2 ^ n * k = push_bit n k" by (simp add: push_bit_eq_mult mult.commute)
  ultimately show "bit (2 ^ n * k AND x) m = bit 0 m" by (auto simp: bit_simps)
qed

lemma codepointToUtf8_small:
  assumes "cp < 0x800"
  shows "codepointToUtf8 cp = (if cp < 0x80 then [of_nat cp] else [of_nat (192 + cp div 64), of_nat (128 + cp mod 64)])"
proof -
  have "cp AND 63 = cp mod 64" using take_bit_eq_mask [of 6 cp] by (simp add: take_bit_eq_mod mask_eq_exp_minus_1)
  moreover have "192 OR cp div 64 = 192 + cp div 64" using or_nat_add [of "cp div 64" 6 3] assms by simp
  moreover have "128 OR cp mod 64 = 128 + cp mod 64" using or_nat_add [of "cp mod 64" 6 2] by simp
  ultimately show ?thesis using assms by (simp add: codepointToUtf8_def drop_bit_eq_div)
qed

definition utf8_value :: "u8 list \<Rightarrow> nat" where
  "utf8_value u = (case u of [a] \<Rightarrow> unat a | [a, b] \<Rightarrow> unat a mod 32 * 64 + unat b mod 64 | _ \<Rightarrow> 0)"

lemma ascii_len: "unat c < 128 \<Longrightarrow> utf8CodepointLen c = 1"
proof -
  assume "unat c < 128"
  then have "take_bit 7 (unat c) = unat c" by (simp add: take_bit_nat_eq_self)
  then have "\<not> bit (unat c) 7" by (metis bit_take_bit_iff less_irrefl)
  then have "\<not> bit c 7" by (simp add: bit_unsigned_iff)
  then have "c AND 128 = 0" using and_exp_eq_0_iff_not_bit [of c 7] by simp
  then show ?thesis by (simp add: utf8CodepointLen_def)
qed

lemma codepoint_facts:
  assumes "cp < 324"
  shows "codepointToUtf8 cp \<noteq> []" "utf8CodepointLen (hd (codepointToUtf8 cp)) = length (codepointToUtf8 cp)" "utf8_value (codepointToUtf8 cp) = cp"
proof -
  note c = codepointToUtf8_small [of cp]
  show "codepointToUtf8 cp \<noteq> []" using c assms by simp
  show "utf8CodepointLen (hd (codepointToUtf8 cp)) = length (codepointToUtf8 cp)"
  proof (cases "cp < 128")
    case True
    then show ?thesis using c assms ascii_len [of "of_nat cp"] by (simp add: unat_of_nat)
  next
    case False
    then have "cp div 64 \<in> {2, 3, 4, 5}" using assms by auto
    then show ?thesis using c assms False by (auto simp: utf8CodepointLen_def)
  qed
  have u: "unat (of_nat n :: u8) = n" if "n < 256" for n using that by (simp add: unat_of_nat)
  show "utf8_value (codepointToUtf8 cp) = cp"
  proof (cases "cp < 128")
    case False
    have q: "cp div 64 < 32" "cp mod 64 < 64" using assms by (simp_all add: div_less_iff_less_mult)
    then have "(192 + cp div 64) mod 32 = cp div 64" "(128 + cp mod 64) mod 64 = cp mod 64"
      using mod_mult_self2 [of "cp div 64" 32 6] mod_mult_self2 [of "cp mod 64" 64 2] by (simp_all add: add.commute)
    moreover have "192 + cp div 64 < 256" "128 + cp mod 64 < 256" using q by linarith+
    ultimately have "unat (of_nat (192 + cp div 64) :: u8) mod 32 * 64 + unat (of_nat (128 + cp mod 64) :: u8) mod 64 = cp"
      by (simp only: u) simp
    moreover have e: "codepointToUtf8 cp = [of_nat (192 + cp div 64), of_nat (128 + cp mod 64)]" using c assms False by simp
    ultimately show ?thesis unfolding utf8_value_def e by (simp only: list.case)
  qed (use c assms u in \<open>simp add: utf8_value_def\<close>)
qed

lemma byteToUtf8_facts:
  "byteToUtf8 c \<noteq> []" "utf8CodepointLen (hd (byteToUtf8 c)) = length (byteToUtf8 c)" "utf8ToByte (byteToUtf8 c) = Some c"
proof -
  have "unat c < 256" using unsigned_less [of c] by simp
  then have "unat c \<in> set (map fst byte_pairs)" unfolding byte_pairs_facts(3) by simp
  then obtain cp where cp: "(unat c, cp) \<in> set byte_pairs" by auto
  then have b: "byteToUtf8 c = codepointToUtf8 cp" "cp < 324" using byte_pairs_facts(1,4) by (auto simp: byteToUtf8_def)
  then show "byteToUtf8 c \<noteq> []" "utf8CodepointLen (hd (byteToUtf8 c)) = length (byteToUtf8 c)" using codepoint_facts by simp_all
  have "inj_on codepointToUtf8 (snd ` set byte_pairs)"
    by (rule inj_on_inverseI [where g = utf8_value]) (use codepoint_facts(3) byte_pairs_facts(4) in force)
  then have "distinct (map codepointToUtf8 (map snd byte_pairs))" using byte_pairs_facts(2) by (simp only: distinct_map set_map)
  then have "distinct (map fst utf8_pairs)" by (simp add: utf8_pairs_def comp_def case_prod_beta)
  moreover have "(codepointToUtf8 cp, c) \<in> set utf8_pairs" using cp by (force simp: utf8_pairs_def)
  ultimately show "utf8ToByte (byteToUtf8 c) = Some c" unfolding b(1) utf8ToByte_def by (rule map_of_is_SomeI)
qed

lemma gpt2_bytes_step: "gpt2_bytes (byteToUtf8 c @ rest) = c # gpt2_bytes rest"
  using byteToUtf8_facts [of c] by (subst gpt2_bytes.simps) (simp add: Let_def min_def)

lemma gpt2_bytes_text: "gpt2_bytes (concat (map byteToUtf8 bs) @ rest) = bs @ gpt2_bytes rest"
  by (induction bs) (simp_all add: gpt2_bytes_step)

text \<open>What loading establishes: every entry of the text index points at a token with that text.\<close>

definition vocab_ok :: "Tokenizer \<Rightarrow> bool" where
  "vocab_ok tk \<longleftrightarrow>
     (\<forall>w i. tk_byText tk w = Some i \<longrightarrow> 0 \<le> i \<and> nat i < length (tk_tokens tk) \<and> ti_text (tk_tokens tk ! nat i) = w)"

lemma load_tokens_vocab:
  assumes "vocab_ok tk" "i = length (tk_tokens tk)" "i + length texts < 2 ^ 31"
  shows "vocab_ok (load_tokens scores types i texts tk) \<and> length (tk_tokens (load_tokens scores types i texts tk)) = i + length texts"
  using assms
proof (induction scores types i texts tk rule: load_tokens.induct)
  case (2 scores types i w0 texts tk)
  define info where "info = \<lparr>ti_text = w0, ti_score = (case (case scores of None \<Rightarrow> None | Some a \<Rightarrow> readArrayElement 4 a i Float32) of Some v \<Rightarrow> of_nat v | None \<Rightarrow> 0),
      ti_type = (case (case types of None \<Rightarrow> None | Some a \<Rightarrow> readArrayElement 4 a i Int32) of Some v \<Rightarrow> to_i32 (int v) | None \<Rightarrow> 1)\<rparr>"
  let ?tk = "tk\<lparr>tk_byText := (tk_byText tk)(w0 \<mapsto> to_i32 (int i)), tk_tokens := tk_tokens tk @ [info]\<rparr>"
  have t: "ti_text info = w0" "to_i32 (int i) = int i" using 2(4) by (simp_all add: info_def)
  have "vocab_ok ?tk" unfolding vocab_ok_def
  proof (intro allI impI)
    fix w j assume w: "tk_byText ?tk w = Some j"
    show "0 \<le> j \<and> nat j < length (tk_tokens ?tk) \<and> ti_text (tk_tokens ?tk ! nat j) = w"
    proof (cases "w = w0")
      case True
      then show ?thesis using w t 2(3) by auto
    next
      case False
      then have "0 \<le> j \<and> nat j < length (tk_tokens tk) \<and> ti_text (tk_tokens tk ! nat j) = w" using w 2(2) by (auto simp: vocab_ok_def)
      then show ?thesis by (simp add: nth_append)
    qed
  qed
  moreover have "load_tokens scores types i (w0 # texts) tk = load_tokens scores types (Suc i) texts ?tk"
    by (simp add: Let_def info_def)
  ultimately show ?case using 2(1) [OF refl refl refl, folded info_def] 2(3,4) by simp
qed simp

lemma load_tokens_length: "length (tk_tokens (load_tokens scores types i texts tk)) = length (tk_tokens tk) + length texts"
  by (induction scores types i texts tk rule: load_tokens.induct) (simp_all add: Let_def)

lemma load_frames [simp]:
  "tk_tokens (load_special_ids r tk) = tk_tokens tk" "tk_byText (load_special_ids r tk) = tk_byText tk"
  "tk_tokens (load_space_prefix r tk) = tk_tokens tk" "tk_byText (load_space_prefix r tk) = tk_byText tk"
  "tk_tokens (load_merge_table r tk) = tk_tokens tk" "tk_byText (load_merge_table r tk) = tk_byText tk"
  "tk_tokens (buildSpecialTexts tk) = tk_tokens tk" "tk_byText (buildSpecialTexts tk) = tk_byText tk"
  by (simp_all add: load_special_ids_def load_space_prefix_def load_merge_table_def buildSpecialTexts_def split: option.split MetadataValue.split)

lemma loadFromGguf_vocab:
  assumes "loadFromGguf r newTokenizer = (None, tk)" "length (tk_tokens tk) < 2 ^ 31"
  shows "vocab_ok tk"
proof -
  obtain scores types tk1 and arr :: GgufArray where t: "tk_tokens tk = tk_tokens (load_tokens scores types 0 (ga_strings arr) tk1)"
    "tk_byText tk = tk_byText (load_tokens scores types 0 (ga_strings arr) tk1)" "tk_tokens tk1 = []" "tk_byText tk1 = Map.empty"
  proof (cases "asArray (findMetadata r (bytes_of ''tokenizer.ggml.tokens''))")
    case None
    then show ?thesis using assms(1) by (simp add: loadFromGguf_def Let_def)
  next
    case (Some arr)
    then have "ga_elementType arr = String" using assms(1) by (simp add: loadFromGguf_def Let_def split: if_splits)
    let ?tk1 = "case Option.bind (findMetadata r (bytes_of ''tokenizer.ggml.model'')) asString of
        Some m \<Rightarrow> newTokenizer\<lparr>tk_modelType := m\<rparr> | None \<Rightarrow> newTokenizer"
    have "tk_tokens ?tk1 = []" "tk_byText ?tk1 = Map.empty" by (simp_all add: newTokenizer_def split: option.split)
    then show ?thesis using assms(1) Some \<open>ga_elementType arr = String\<close>
      by (intro that [of "asArray (findMetadata r (bytes_of ''tokenizer.ggml.scores''))"
            "asArray (findMetadata r (bytes_of ''tokenizer.ggml.token_type''))" arr ?tk1]) (auto simp: loadFromGguf_def Let_def)
  qed
  have "vocab_ok tk1" using t(4) by (simp add: vocab_ok_def)
  then have "vocab_ok (load_tokens scores types 0 (ga_strings arr) tk1)"
    using load_tokens_vocab [of tk1 0 "ga_strings arr"] load_tokens_length [of scores types 0 "ga_strings arr" tk1] assms(2) t by simp
  then show ?thesis using t by (simp add: vocab_ok_def)
qed

text \<open>
  The same for the HuggingFace loader, when no id is given to two texts: the source lets a later entry
  overwrite the text of an earlier one, whose text then still finds the id.
\<close>

definition unique_ids :: "(int \<times> u8 list) list \<Rightarrow> bool" where
  "unique_ids es \<longleftrightarrow> (\<forall>x \<in> set es. \<forall>y \<in> set es. fst x = fst y \<longrightarrow> snd x = snd y)"

definition hf_consistent :: "(u8 list \<Rightarrow> json option) \<Rightarrow> hf_dir \<Rightarrow> bool" where
  "hf_consistent parse dir \<longleftrightarrow>
     (\<forall>tj model vocab es added. readJson parse dir ''tokenizer.json'' = Inr tj \<and> json_find tj ''model'' = Some (JObject model) \<and>
        map_of model ''vocab'' = Some (JObject vocab) \<and> hf_entries vocab tj = Inr (es, added) \<longrightarrow> unique_ids (es @ added))"

definition entries_ok :: "(int \<times> u8 list) list \<Rightarrow> Tokenizer \<Rightarrow> bool" where
  "entries_ok es tk \<longleftrightarrow>
     (\<forall>w i. tk_byText tk w = Some i \<longrightarrow> (i, w) \<in> set es \<and> ti_text (tk_tokens tk ! nat i) = w)"

lemma hf_put_ok:
  assumes u: "unique_ids es" and r: "\<forall>e \<in> set es. 0 \<le> fst e \<and> nat (fst e) < n"
  shows "set xs \<subseteq> set es \<Longrightarrow> length (tk_tokens tk) = n \<Longrightarrow> entries_ok es tk \<Longrightarrow>
    entries_ok es (fold hf_put xs tk) \<and> length (tk_tokens (fold hf_put xs tk)) = n"
proof (induction xs arbitrary: tk)
  case (Cons x xs)
  obtain j v where x: "x = (j, v)" by fastforce
  have m: "(j, v) \<in> set es" using Cons.prems x by simp
  then have j: "0 \<le> j" "nat j < n" using r by auto
  have "(i, w) \<in> set es \<and> ti_text (tk_tokens (hf_put x tk) ! nat i) = w" if w: "tk_byText (hf_put x tk) w = Some i" for w i
  proof (cases "w = v")
    case True
    then show ?thesis using w x m j Cons.prems(2) by (simp add: hf_put_def)
  next
    case False
    then have o: "(i, w) \<in> set es" "ti_text (tk_tokens tk ! nat i) = w" using w x Cons.prems(3) by (simp_all add: hf_put_def entries_ok_def)
    then have "i \<noteq> j" using u m False unfolding unique_ids_def by force
    moreover have "0 \<le> i" using r o(1) by force
    ultimately have "nat i \<noteq> nat j" using j(1) by simp
    then show ?thesis using o x by (simp add: hf_put_def)
  qed
  then have "entries_ok es (hf_put x tk)" unfolding entries_ok_def by blast
  moreover have "length (tk_tokens (hf_put x tk)) = n" using Cons.prems(2) by (simp add: hf_put_def)
  ultimately show ?case using Cons.IH [of "hf_put x tk"] Cons.prems(1) by simp
qed simp

lemma hf_mark_frame:
  "length (tk_tokens (hf_mark i tk)) = length (tk_tokens tk)" "tk_byText (hf_mark i tk) = tk_byText tk" "tk_modelType (hf_mark i tk) = tk_modelType tk"
  "map ti_text (tk_tokens (hf_mark i tk)) = map ti_text (tk_tokens tk)"
proof -
  show "map ti_text (tk_tokens (hf_mark i tk)) = map ti_text (tk_tokens tk)"
    by (rule nth_equalityI) (auto simp: hf_mark_def nth_list_update)
qed (simp_all add: hf_mark_def)

lemma hf_marks_frame:
  "tk_byText (fold hf_mark is tk) = tk_byText tk \<and> map ti_text (tk_tokens (fold hf_mark is tk)) = map ti_text (tk_tokens tk) \<and>
   tk_modelType (fold hf_mark is tk) = tk_modelType tk"
  by (induction "is" arbitrary: tk) (simp_all add: hf_mark_frame)

lemma vocab_ok_cong:
  assumes "tk_byText tk' = tk_byText tk" "map ti_text (tk_tokens tk') = map ti_text (tk_tokens tk)"
  shows "vocab_ok tk' \<longleftrightarrow> vocab_ok tk"
proof -
  have l: "length (tk_tokens tk') = length (tk_tokens tk)" using arg_cong [OF assms(2), of length] by simp
  then have "ti_text (tk_tokens tk' ! i) = ti_text (tk_tokens tk ! i)" if "i < length (tk_tokens tk)" for i
    using arg_cong [OF assms(2), of "\<lambda>xs. xs ! i"] that by simp
  then show ?thesis unfolding vocab_ok_def assms(1) l by (simp cong: conj_cong)
qed

lemma hf_maxId_bound:
  assumes "e \<in> set es"
  shows "fst e \<le> hf_maxId es"
proof -
  have "m \<le> fold (\<lambda>(i, w) m. max m i) es m \<and> (\<forall>e \<in> set es. fst e \<le> fold (\<lambda>(i, w) m. max m i) es m)" for m
  proof (induction es arbitrary: m)
    case (Cons x es)
    show ?case using Cons [of "max m (fst x)"] by (auto simp: case_prod_beta)
  qed simp
  then show ?thesis using assms by (simp add: hf_maxId_def)
qed

lemma hf_vocab_ok:
  assumes "unique_ids es" "\<forall>e \<in> set es. 0 \<le> fst e"
  shows "vocab_ok (hf_vocab es specials tk)"
proof -
  define n where "n = nat (hf_maxId es) + 1"
  define tk1 where "tk1 = tk\<lparr>tk_tokens := replicate n \<lparr>ti_text = [], ti_score = 0, ti_type = 1\<rparr>, tk_byText := Map.empty\<rparr>"
  have r: "\<forall>e \<in> set es. 0 \<le> fst e \<and> nat (fst e) < n" using assms(2) hf_maxId_bound [of _ es] by (fastforce simp: n_def)
  have "entries_ok es (fold hf_put es tk1) \<and> length (tk_tokens (fold hf_put es tk1)) = n"
    by (rule hf_put_ok [OF assms(1) r]) (simp_all add: tk1_def entries_ok_def)
  then have "vocab_ok (fold hf_put es tk1)" using r unfolding vocab_ok_def entries_ok_def by fastforce
  moreover have "hf_vocab es specials tk = fold hf_mark specials (fold hf_put es tk1)" by (simp add: hf_vocab_def tk1_def n_def Let_def)
  ultimately show ?thesis using vocab_ok_cong [of "fold hf_mark specials (fold hf_put es tk1)"] hf_marks_frame by simp
qed

lemma hf_read_into_frame:
  assumes "\<And>j t. tk_tokens (use j t) = tk_tokens t \<and> tk_byText (use j t) = tk_byText t"
  shows "hf_read_into parse dir p use tk = (e, tk') \<Longrightarrow> tk_tokens tk' = tk_tokens tk \<and> tk_byText tk' = tk_byText tk"
  using assms by (auto simp: hf_read_into_def split: if_splits sum.splits)

lemma hf_finish_frame:
  assumes "hf_finish parse dir tk = (None, tk')"
  shows "tk_tokens tk' = tk_tokens tk" "tk_byText tk' = tk_byText tk" "\<exists>t. tk' = buildSpecialTexts t"
proof -
  obtain tk2 where a: "hf_read_into parse dir ''tokenizer_config.json'' hf_config (tk\<lparr>tk_bosId := - 1, tk_eosId := - 1, tk_unknownId := - 1, tk_padId := - 1\<rparr>) = (None, tk2)"
    using assms by (auto simp: hf_finish_def Let_def split: prod.splits option.splits)
  then obtain tk3 where b: "(if tk_eosId tk2 < 0 then hf_read_into parse dir ''generation_config.json'' hf_eos tk2 else (None, tk2)) = (None, tk3)"
    "tk' = buildSpecialTexts (tk3\<lparr>tk_addSpacePrefix := False\<rparr>)"
    using assms by (auto simp: hf_finish_def Let_def split: prod.splits option.splits)
  have "tk_tokens tk2 = tk_tokens tk \<and> tk_byText tk2 = tk_byText tk"
    using hf_read_into_frame [OF _ a] by (simp add: hf_config_def)
  moreover have "tk_tokens (hf_eos j t) = tk_tokens t \<and> tk_byText (hf_eos j t) = tk_byText t" for j t
    by (simp add: hf_eos_def Let_def split: option.split json.split sum.split list.split)
  then have "tk_tokens tk3 = tk_tokens tk2 \<and> tk_byText tk3 = tk_byText tk2"
    using hf_read_into_frame [of hf_eos parse dir "''generation_config.json''" tk2 None tk3] b(1) by (auto split: if_splits)
  ultimately show "tk_tokens tk' = tk_tokens tk" "tk_byText tk' = tk_byText tk" "\<exists>t. tk' = buildSpecialTexts t" using b(2) by auto
qed

lemma loadFromHfJson_vocab:
  assumes load: "loadFromHfJson parse dir tk0 = (None, tk)" and c: "hf_consistent parse dir"
  shows "vocab_ok tk" "\<exists>t. tk = buildSpecialTexts t"
proof -
  obtain tj where tj: "readJson parse dir ''tokenizer.json'' = Inr tj"
    using load by (cases "readJson parse dir ''tokenizer.json''") (auto simp: loadFromHfJson_def)
  obtain model where model: "json_find tj ''model'' = Some (JObject model)"
    using load tj by (auto simp: loadFromHfJson_def split: option.splits json.splits)
  obtain ty where ty: "hf_type model = Inr ty" "ty = bytes_of ''BPE''"
    using load tj model by (auto simp: loadFromHfJson_def split: sum.splits if_splits)
  obtain vocab where vocab: "map_of model ''vocab'' = Some (JObject vocab)"
    using load tj model ty by (auto simp: loadFromHfJson_def Let_def split: option.splits json.splits)
  obtain es added where es: "hf_entries vocab tj = Inr (es, added)"
    using load tj model ty vocab by (cases "hf_entries vocab tj") (auto simp: loadFromHfJson_def Let_def)
  define tk1 where "tk1 = tk0\<lparr>tk_modelType := bytes_of ''gpt2''\<rparr>"
  have b: "hf_build parse dir model es added tk1 = (None, tk)"
    using load tj model ty vocab es by (simp add: loadFromHfJson_def Let_def tk1_def)
  have pos: "\<forall>e \<in> set (es @ added). 0 \<le> fst e"
  proof (rule ccontr)
    assume "\<not> ?thesis"
    then have "list_ex (\<lambda>e. fst e < 0) (es @ added)" by (auto simp: list_ex_iff not_le)
    then show False using b by (simp add: hf_build_def Let_def split: if_splits)
  qed
  obtain ranks where f: "hf_finish parse dir ((hf_vocab (es @ added) (map fst added) tk1)\<lparr>tk_mergesRank := ranks\<rparr>) = (None, tk)"
    using b by (auto simp: hf_build_def Let_def case_prod_beta split: if_splits option.splits)
  have "unique_ids (es @ added)" using c tj model vocab es unfolding hf_consistent_def by blast
  then have "vocab_ok (hf_vocab (es @ added) (map fst added) tk1)" using hf_vocab_ok pos by blast
  then show "vocab_ok tk" using hf_finish_frame(1,2) [OF f] by (simp add: vocab_ok_def)
  show "\<exists>t. tk = buildSpecialTexts t" by (rule hf_finish_frame(3) [OF f])
qed

text \<open>
  A complete byte-level vocabulary: every byte has a token, and so has the result of every merge of
  two tokens.
\<close>

definition byte_complete :: "Tokenizer \<Rightarrow> bool" where
  "byte_complete tk \<longleftrightarrow>
     (\<forall>c. tk_byText tk (byteToUtf8 c) \<noteq> None) \<and>
     (\<forall>a b. tk_byText tk a \<noteq> None \<and> tk_byText tk b \<noteq> None \<and> tk_mergesRank tk (a @ [0x20] @ b) \<noteq> None \<longrightarrow> tk_byText tk (a @ b) \<noteq> None)"

lemma encodeGpt2_naive:
  "length bs < 2 ^ 31 \<Longrightarrow>
   encodeGpt2 tk bs addBos = Some (bos_ids tk addBos @ map (piece_id tk) (naive_bpe (tk_mergesRank tk) (map byteToUtf8 bs)))"
  by (simp add: encodeGpt2_def bpe_words_naive)

lemma raw_text_append: "raw_text tk (a @ b) skip = raw_text tk a skip @ raw_text tk b skip"
  by (simp add: raw_text_def)

lemma raw_text_pieces:
  assumes "vocab_ok tk" "\<forall>w \<in> set ws. tk_byText tk w \<noteq> None"
  shows "raw_text tk (map (piece_id tk) ws) False = concat ws"
  using assms(2)
proof (induction ws)
  case (Cons w ws)
  then obtain i where i: "tk_byText tk w = Some i" by auto
  then have "0 \<le> i" "nat i < length (tk_tokens tk)" "ti_text (tk_tokens tk ! nat i) = w" using assms(1) by (auto simp: vocab_ok_def)
  then have "raw_text tk [piece_id tk w] False = w" using i by (simp add: raw_text_def piece_id_def)
  moreover have "raw_text tk (map (piece_id tk) (w # ws)) False = raw_text tk [piece_id tk w] False @ raw_text tk (map (piece_id tk) ws) False"
    by (simp add: raw_text_def)
  ultimately show ?case using Cons by simp
qed (simp add: raw_text_def)

lemma encodeGpt2_raw:
  assumes v: "vocab_ok tk" and c: "byte_complete tk" and n: "length bs < 2 ^ 31"
  shows "\<exists>ids. encodeGpt2 tk bs False = Some ids \<and> raw_text tk ids False = concat (map byteToUtf8 bs)"
proof -
  let ?mr = "tk_mergesRank tk"
  let ?ws = "naive_bpe ?mr (map byteToUtf8 bs)"
  have "\<forall>w \<in> set ?ws. tk_byText tk w \<noteq> None"
    unfolding naive_bpe_def
  proof (rule merge_all_set)
    show "\<forall>w \<in> set (map byteToUtf8 bs). tk_byText tk w \<noteq> None" using c by (simp add: byte_complete_def)
    fix a b e assume "tk_byText tk a \<noteq> None" "tk_byText tk b \<noteq> None" "gpt2_cand ?mr a b = Some e"
    moreover from this(3) have "?mr (a @ [0x20] @ b) \<noteq> None" by (auto simp: gpt2_cand_def split: option.splits)
    ultimately show "tk_byText tk (a @ b) \<noteq> None" using c unfolding byte_complete_def by blast
  qed
  then have "raw_text tk (map (piece_id tk) ?ws) False = concat ?ws" by (rule raw_text_pieces [OF v])
  also have "\<dots> = concat (map byteToUtf8 bs)"
    using merge_all_concat [of "\<lambda>w. w" "(@)" "(<)" "gpt2_cand ?mr"] by (simp add: naive_bpe_def)
  finally show ?thesis using encodeGpt2_naive [OF n, of tk False] by (simp add: bos_ids_def)
qed

text \<open>Special tokens made of visible ASCII pass the decoder unchanged.\<close>

definition plain_specials :: "Tokenizer \<Rightarrow> bool" where
  "plain_specials tk \<longleftrightarrow> (\<forall>s \<in> set (tk_specialTexts tk). \<forall>c \<in> set s. 33 \<le> unat c \<and> unat c < 127)"

lemma byteToUtf8_visible:
  assumes "33 \<le> unat c" "unat c < 127"
  shows "byteToUtf8 c = [c]"
proof -
  have "(unat c, unat c) \<in> set byte_pairs" using assms by (auto simp: byte_pairs_eq visible_bytes_def simp del: upt_rec_numeral)
  then have "map_of byte_pairs (unat c) = Some (unat c)" using byte_pairs_facts(1) by simp
  then show ?thesis using assms by (simp add: byteToUtf8_def codepointToUtf8_def)
qed

lemma plain_concat: "\<forall>c \<in> set bs. 33 \<le> unat c \<and> unat c < 127 \<Longrightarrow> concat (map byteToUtf8 bs) = bs"
  by (induction bs) (simp_all add: byteToUtf8_visible)

section \<open>Splitting on special tokens\<close>

text \<open>
  What a split of a text is: the pieces in order, a special piece is a longest special at its place,
  and no special starts inside a free piece.
\<close>

fun split_ok :: "u8 list list \<Rightarrow> (bool \<times> u8 list) list \<Rightarrow> bool" where
  "split_ok specials [] \<longleftrightarrow> True"
| "split_ok specials ((special, p) # ps) \<longleftrightarrow>
     p \<noteq> [] \<and> split_ok specials ps \<and>
     (if special then p \<in> set specials \<and> (\<forall>s \<in> set specials. prefix s (p @ concat (map snd ps)) \<longrightarrow> length s \<le> length p)
      else (ps = [] \<or> fst (hd ps)) \<and>
        (\<forall>k < length p. \<forall>s \<in> set specials. s \<noteq> [] \<longrightarrow> \<not> prefix s (drop k p @ concat (map snd ps))))"

lemma prefix_take: "prefix s rest \<longleftrightarrow> length s \<le> length rest \<and> take (length s) rest = s"
  by (metis prefix_length_le prefix_def append_eq_conv_conj take_is_prefix)

lemma special_at_None: "special_at rest specials = None \<longleftrightarrow> (\<forall>s \<in> set specials. s \<noteq> [] \<longrightarrow> \<not> prefix s rest)"
  by (auto simp: special_at_def find_None_iff prefix_take)

lemma special_at_Some:
  assumes "special_at rest specials = Some hit" "sorted_wrt (\<lambda>a b. length b \<le> length a) specials"
  shows "hit \<in> set specials" "hit \<noteq> []" "prefix hit rest" "\<And>s. s \<in> set specials \<Longrightarrow> prefix s rest \<Longrightarrow> length s \<le> length hit"
proof -
  obtain i where i: "i < length specials" "hit = specials ! i" "hit \<noteq> []" "prefix hit rest"
    "\<And>j. j < i \<Longrightarrow> specials ! j = [] \<or> \<not> prefix (specials ! j) rest"
    using assms(1) by (auto simp: special_at_def find_Some_iff prefix_take)
  then show "hit \<in> set specials" "hit \<noteq> []" "prefix hit rest" by auto
  fix s assume s: "s \<in> set specials" "prefix s rest"
  then obtain j where j: "j < length specials" "s = specials ! j" by (metis in_set_conv_nth)
  show "length s \<le> length hit"
  proof (cases "j < i")
    case True
    then have "s = []" using i(5) [OF True] s(2) j(2) by blast
    then show ?thesis by simp
  next
    case False
    then show ?thesis using assms(2) i(1,2) j by (cases "i = j") (auto simp: sorted_wrt_iff_nth_less)
  qed
qed

lemma split_loop_spec:
  assumes "sorted_wrt (\<lambda>a b. length b \<le> length a) specials"
  shows "\<forall>k < length run. \<forall>s \<in> set specials. s \<noteq> [] \<longrightarrow> \<not> prefix s (drop k run @ rest) \<Longrightarrow>
    \<exists>ps. split_loop specials rest run out = out @ ps \<and> split_ok specials ps \<and> concat (map snd ps) = run @ rest"
proof (induction "length rest" arbitrary: rest run out rule: less_induct)
  case less
  have flush: "concat (map snd (flush_run run)) = run" by (simp add: flush_run_def)
  show ?case
  proof (cases "rest = []")
    case True
    then have "split_ok specials (flush_run run)" using less.prems by (simp add: flush_run_def)
    moreover have "split_loop specials rest run out = out @ flush_run run" using True by (simp add: split_loop.simps [of specials "[]"])
    ultimately show ?thesis using True flush by (intro exI [of _ "flush_run run"]) simp
  next
    case ne: False
    show ?thesis
    proof (cases "special_at rest specials")
      case None
      have "\<forall>k < length (run @ [hd rest]). \<forall>s \<in> set specials. s \<noteq> [] \<longrightarrow> \<not> prefix s (drop k (run @ [hd rest]) @ tl rest)"
        using less.prems None ne by (auto simp: special_at_None less_Suc_eq)
      then show ?thesis using less.hyps [of "tl rest" "run @ [hd rest]" out] ne None by (simp add: split_loop.simps [of specials rest])
    next
      case (Some hit)
      note S = special_at_Some [OF Some assms]
      let ?rest = "drop (length hit) rest" and ?out = "out @ flush_run run @ [(True, hit)]"
      obtain ps where ps: "split_loop specials ?rest [] ?out = ?out @ ps" "split_ok specials ps" "concat (map snd ps) = ?rest"
        using less.hyps [of ?rest "[]" ?out] S(2) ne by auto
      have rest: "hit @ ?rest = rest" using S(3) by (metis append_take_drop_id prefix_take)
      have "split_ok specials ((True, hit) # ps)" using S ps(2,3) rest by auto
      then have "split_ok specials (flush_run run @ (True, hit) # ps)"
        using less.prems ps(3) rest by (simp add: flush_run_def)
      moreover have "split_loop specials rest run out = out @ (flush_run run @ (True, hit) # ps)"
        using ne Some ps(1) by (simp add: split_loop.simps [of specials rest])
      moreover have "concat (map snd (flush_run run @ (True, hit) # ps)) = run @ rest" using flush ps(3) rest by simp
      ultimately show ?thesis by blast
    qed
  qed
qed

lemma buildSpecialTexts_sorted: "sorted_wrt (\<lambda>a b. length b \<le> length a) (tk_specialTexts (buildSpecialTexts tk))"
proof -
  have "sorted (map (\<lambda>s. - int (length s)) (tk_specialTexts (buildSpecialTexts tk)))" by (simp add: buildSpecialTexts_def)
  then show ?thesis by (simp add: sorted_map)
qed

text \<open>A tokenizer that one of the two loaders has filled.\<close>

definition loaded_by :: "GgufReader \<Rightarrow> (u8 list \<Rightarrow> json option) \<Rightarrow> hf_dir \<Rightarrow> Tokenizer \<Rightarrow> bool" where
  "loaded_by r parse dir tk \<longleftrightarrow>
     (loadFromGguf r newTokenizer = (None, tk) \<and> length (tk_tokens tk) < 2 ^ 31) \<or>
     (loadFromHfJson parse dir newTokenizer = (None, tk) \<and> hf_consistent parse dir)"

lemma loaded_facts:
  assumes "loaded_by r parse dir tk"
  shows "vocab_ok tk" "sorted_wrt (\<lambda>a b. length b \<le> length a) (tk_specialTexts tk)"
proof -
  show "vocab_ok tk" using assms loadFromGguf_vocab loadFromHfJson_vocab(1) unfolding loaded_by_def by blast
  have "\<exists>t. tk = buildSpecialTexts t"
    using assms loadFromHfJson_vocab(2) unfolding loaded_by_def by (auto simp: loadFromGguf_def Let_def split: option.splits if_splits)
  then show "sorted_wrt (\<lambda>a b. length b \<le> length a) (tk_specialTexts tk)" using buildSpecialTexts_sorted by auto
qed

lemma encode_pieces_raw:
  assumes v: "vocab_ok tk" and c: "byte_complete tk" and g: "tk_modelType tk = bytes_of ''gpt2''" "tk_tokens tk \<noteq> []"
  shows "\<forall>(special, p) \<in> set ps. length p < 2 ^ 31 \<and> (special \<longrightarrow> (\<forall>c \<in> set p. 33 \<le> unat c \<and> unat c < 127)) \<Longrightarrow>
    \<exists>ids'. encode_pieces tk ps ids = Some (ids @ ids') \<and> raw_text tk ids' False = concat (map byteToUtf8 (concat (map snd ps)))"
proof (induction ps arbitrary: ids)
  case (Cons x ps)
  obtain special p where x: "x = (special, p)" by fastforce
  have IH: "\<exists>ids'. encode_pieces tk ps j = Some (j @ ids') \<and> raw_text tk ids' False = concat (map byteToUtf8 (concat (map snd ps)))" for j
    using Cons by auto
  show ?case
  proof (cases "special \<and> findToken tk p \<ge> 0")
    case True
    then obtain i where i: "tk_byText tk p = Some i" by (auto simp: findToken_def split: option.splits)
    then have "findToken tk p = i" "0 \<le> i" "nat i < length (tk_tokens tk)" "ti_text (tk_tokens tk ! nat i) = p"
      using v unfolding vocab_ok_def findToken_def by auto
    then have "raw_text tk [findToken tk p] False = p" by (simp add: raw_text_def)
    moreover have "concat (map byteToUtf8 p) = p" by (rule plain_concat) (use Cons.prems x True in auto)
    ultimately have "raw_text tk ([findToken tk p] @ ids') False = concat (map byteToUtf8 p) @ raw_text tk ids' False" for ids'
      by (simp only: raw_text_append)
    then show ?thesis using IH [of "ids @ [findToken tk p]"] True x by auto
  next
    case False
    obtain sub where sub: "encode tk p False = Some sub" "raw_text tk sub False = concat (map byteToUtf8 p)"
      using encodeGpt2_raw [OF v c, of p] g Cons.prems x by (auto simp: encode_def)
    then show ?thesis using IH [of "ids @ sub"] False x by (auto simp: raw_text_append)
  qed
qed (simp add: raw_text_def)

lemma piece_length: "x \<in> set ps \<Longrightarrow> length (snd x) \<le> length (concat (map snd ps))"
  by (induction ps) (auto simp: le_SucI trans_le_add2)

lemma split_ok_mem: "split_ok specials ps \<Longrightarrow> (True, p) \<in> set ps \<Longrightarrow> p \<in> set specials"
  by (induction specials ps rule: split_ok.induct) auto

section \<open>A concrete tokenizer\<close>

text \<open>A token for every byte, the merge of \<^verbatim>\<open>h\<close> and \<^verbatim>\<open>i\<close>, and its token.\<close>

definition demo_vocab :: "u8 list list" where
  "demo_vocab = map (\<lambda>n. byteToUtf8 (of_nat n)) [0..<256] @ [bytes_of ''hi'']"

definition string_array :: "u8 list list \<Rightarrow> MetadataValue" where
  "string_array ss = MvArray \<lparr>ga_elementType = String, ga_count = length ss, ga_raw = [], ga_strings = ss\<rparr>"

definition demo_reader :: GgufReader where
  "demo_reader = newGgufReader\<lparr>gr_metadata :=
     [bytes_of ''tokenizer.ggml.model'' \<mapsto> MvString (bytes_of ''gpt2''), bytes_of ''tokenizer.ggml.tokens'' \<mapsto> string_array demo_vocab,
      bytes_of ''tokenizer.ggml.merges'' \<mapsto> string_array [bytes_of ''h i'']]\<rparr>"

definition demo_tk :: Tokenizer where
  "demo_tk = snd (loadFromGguf demo_reader newTokenizer)"

lemma load_tokens_mem:
  "w \<in> set texts \<or> tk_byText tk w \<noteq> None \<Longrightarrow> tk_byText (load_tokens scores types i texts tk) w \<noteq> None"
  by (induction scores types i texts tk rule: load_tokens.induct) (auto simp: Let_def)

lemma load_tokens_frame:
  "tk_mergesRank (load_tokens scores types i texts tk) = tk_mergesRank tk" "tk_modelType (load_tokens scores types i texts tk) = tk_modelType tk"
  "tk_bosId (load_tokens scores types i texts tk) = tk_bosId tk" "tk_eosId (load_tokens scores types i texts tk) = tk_eosId tk"
  "tk_padId (load_tokens scores types i texts tk) = tk_padId tk" "tk_unknownId (load_tokens scores types i texts tk) = tk_unknownId tk"
  by (induction scores types i texts tk rule: load_tokens.induct) (simp_all add: Let_def)

lemma load_tokens_types:
  "\<forall>t \<in> set (tk_tokens tk). ti_type t = 1 \<Longrightarrow> \<forall>t \<in> set (tk_tokens (load_tokens scores None i texts tk)). ti_type t = 1"
  by (induction scores "None :: GgufArray option" i texts tk rule: load_tokens.induct) (auto simp: Let_def)

lemma demo_keys:
  "findMetadata demo_reader (bytes_of ''tokenizer.ggml.model'') = Some (MvString (bytes_of ''gpt2''))"
  "findMetadata demo_reader (bytes_of ''tokenizer.ggml.tokens'') = Some (string_array demo_vocab)"
  "findMetadata demo_reader (bytes_of ''tokenizer.ggml.merges'') = Some (string_array [bytes_of ''h i''])"
  "findMetadata demo_reader (bytes_of ''tokenizer.ggml.scores'') = None" "findMetadata demo_reader (bytes_of ''tokenizer.ggml.token_type'') = None"
  "findMetadata demo_reader (bytes_of ''tokenizer.ggml.bos_token_id'') = None" "findMetadata demo_reader (bytes_of ''tokenizer.ggml.eos_token_id'') = None"
  "findMetadata demo_reader (bytes_of ''tokenizer.ggml.unknown_token_id'') = None"
  "findMetadata demo_reader (bytes_of ''tokenizer.ggml.padding_token_id'') = None"
  "findMetadata demo_reader (bytes_of ''tokenizer.ggml.add_space_prefix'') = None"
  by (simp_all add: findMetadata_def demo_reader_def newGgufReader_def bytes_of_def)

lemma demo_load:
  "loadFromGguf demo_reader newTokenizer = (None, demo_tk)"
  "demo_tk = buildSpecialTexts ((load_tokens None None 0 demo_vocab (newTokenizer\<lparr>tk_modelType := bytes_of ''gpt2''\<rparr>))
     \<lparr>tk_mergesRank := [bytes_of ''h i'' \<mapsto> 0]\<rparr>)"
proof -
  let ?tk = "buildSpecialTexts ((load_tokens None None 0 demo_vocab (newTokenizer\<lparr>tk_modelType := bytes_of ''gpt2''\<rparr>))
     \<lparr>tk_mergesRank := [bytes_of ''h i'' \<mapsto> 0]\<rparr>)"
  have "loadFromGguf demo_reader newTokenizer = (None, ?tk)"
    by (simp add: loadFromGguf_def Let_def demo_keys string_array_def load_special_ids_def readSpecialId_def load_space_prefix_def
        load_merge_table_def load_tokens_frame newTokenizer_def emplace_def to_i32_def)
  then show "loadFromGguf demo_reader newTokenizer = (None, demo_tk)" "demo_tk = ?tk" by (simp_all add: demo_tk_def)
qed

lemma demo_complete: "byte_complete demo_tk" "length (tk_tokens demo_tk) < 2 ^ 31" "tk_modelType demo_tk = bytes_of ''gpt2''" "plain_specials demo_tk"
proof -
  have mem: "w \<in> set demo_vocab \<Longrightarrow> tk_byText demo_tk w \<noteq> None" for w
    using load_tokens_mem [of w demo_vocab] by (simp add: demo_load(2))
  have mr: "tk_mergesRank demo_tk = [bytes_of ''h i'' \<mapsto> 0]" by (simp add: demo_load(2) buildSpecialTexts_def)
  have "byteToUtf8 c \<in> set demo_vocab" for c
  proof -
    have "unat c \<in> set [0..<256]" using unsigned_less [of c] by (simp del: upt_rec_numeral)
    then have "byteToUtf8 (of_nat (unat c)) \<in> set demo_vocab" unfolding demo_vocab_def by (simp only: set_append set_map) blast
    then show ?thesis by simp
  qed
  moreover have "a = bytes_of ''h'' \<and> b = bytes_of ''i''" if "a @ [0x20] @ b = bytes_of ''h i''" for a b :: "u8 list"
    using that by (cases a; cases "tl a"; cases b; cases "tl b") (auto simp: bytes_of_def)
  moreover have "bytes_of ''h'' @ bytes_of ''i'' \<in> set demo_vocab" by (simp add: demo_vocab_def bytes_of_def)
  ultimately show "byte_complete demo_tk" unfolding byte_complete_def mr using mem by (auto split: if_splits)
  show "length (tk_tokens demo_tk) < 2 ^ 31"
    by (simp add: demo_load(2) load_tokens_length newTokenizer_def demo_vocab_def del: upt_rec_numeral)
  show "tk_modelType demo_tk = bytes_of ''gpt2''" by (simp add: demo_load(2) buildSpecialTexts_def load_tokens_frame)
  let ?tk = "load_tokens None None 0 demo_vocab (newTokenizer\<lparr>tk_modelType := bytes_of ''gpt2''\<rparr>)"
  have "\<forall>t \<in> set (tk_tokens ?tk). ti_type t = 1" by (rule load_tokens_types) (simp add: newTokenizer_def)
  then have "special_texts_of (?tk\<lparr>tk_mergesRank := m\<rparr>) = []" for m
    by (simp add: special_texts_of_def load_tokens_frame newTokenizer_def filter_empty_conv)
  then show "plain_specials demo_tk" by (simp add: plain_specials_def demo_load(2) buildSpecialTexts_def)
qed

section \<open>The byte-level tokenizer\<close>

text \<open>
  C27. The byte-level encoder, with its queue of candidate pairs and its linked list, always ends and
  gives exactly the tokens of the naive algorithm: merge the adjacent pair of the lowest rank, the
  leftmost of several, until no adjacent pair has a rank. The source claims the two are bit-identical.
  The text must have fewer than \<open>2 ^ 31\<close> bytes, the range of the node indices.
\<close>

theorem bpe_equals_naive:
  assumes "length bs < 2 ^ 31"
  shows "encodeGpt2 tk bs addBos =
    Some (bos_ids tk addBos @ map (piece_id tk) (naive_bpe (tk_mergesRank tk) (map byteToUtf8 bs)))"
  using assms by (rule encodeGpt2_naive)

theorem bpe_equals_naive_witness:
  "encodeGpt2 demo_tk (bytes_of ''hi'') False =
   Some (bos_ids demo_tk False @ map (piece_id demo_tk) (naive_bpe (tk_mergesRank demo_tk) (map byteToUtf8 (bytes_of ''hi''))))"
  using bpe_equals_naive [of "bytes_of ''hi''" demo_tk False] by (simp add: bytes_of_def)



text \<open>
  C31. The split on special tokens is the greedy longest match: for the list the tokenizer builds,
  the pieces concatenate to the text, none is empty, each special piece is the longest special that
  starts there, no special starts inside a free piece, and no two free pieces are adjacent.
\<close>

theorem special_split_greedy:
  "split_ok (tk_specialTexts (buildSpecialTexts tk)) (splitOnSpecials bs (tk_specialTexts (buildSpecialTexts tk))) \<and>
   concat (map snd (splitOnSpecials bs (tk_specialTexts (buildSpecialTexts tk)))) = bs"
  using split_loop_spec [OF buildSpecialTexts_sorted, of "[]" tk bs "[]"] by (auto simp: splitOnSpecials_def)

end
