(* ===== verification/SpmEncoding.thy ===== *)
theory SpmEncoding
  imports TokenizerProperties
begin

text \<open>
  The SentencePiece encoder against the greedy reference: merge the adjacent pair whose token has the
  highest score, the leftmost of several, until no adjacent pair is a token.
\<close>

section \<open>The reference\<close>

function codepoints :: "u8 list \<Rightarrow> u8 list list" where
  "codepoints rest =
     (if rest = [] then []
      else let n = min (utf8CodepointLen (hd rest)) (length rest) in take n rest # codepoints (drop n rest))"
  by auto
termination by (relation "measure length") auto

declare codepoints.simps [simp del]

text \<open>A piece is a text with its token; the candidate for two pieces is the score and the token of their concatenation.\<close>

type_synonym piece = "u8 list \<times> int"

definition spm_cand :: "Tokenizer \<Rightarrow> piece \<Rightarrow> piece \<Rightarrow> (u32 \<times> int) option" where
  "spm_cand tk a b = map_option (\<lambda>m. (ti_score (tk_tokens tk ! nat m), m)) (tk_byText tk (fst a @ fst b))"

definition spm_glue :: "Tokenizer \<Rightarrow> piece \<Rightarrow> piece \<Rightarrow> piece" where
  "spm_glue tk a b = (fst a @ fst b, piece_id tk (fst a @ fst b))"

definition spm_above :: "u32 \<times> int \<Rightarrow> u32 \<times> int \<Rightarrow> bool" where
  "spm_above x y \<longleftrightarrow> f32_key (fst y) < f32_key (fst x)"

interpretation spm: merge_queue spm_above "spm_cand tk" "spm_glue tk" for tk
  by unfold_locales (auto simp: spm_above_def)

definition naive_spm :: "Tokenizer \<Rightarrow> u8 list list \<Rightarrow> int list" where
  "naive_spm tk cps = map snd (merge_all spm_above (spm_cand tk) (spm_glue tk) (map (\<lambda>cp. (cp, piece_id tk cp)) cps))"

section \<open>The segments\<close>

definition seg_piece :: "Seg \<Rightarrow> piece" where
  "seg_piece s = (sg_text s, sg_id s)"

definition spm_links :: "Seg list \<Rightarrow> nat list \<Rightarrow> bool" where
  "spm_links segs xs \<longleftrightarrow>
     xs \<noteq> [] \<and> hd xs = 0 \<and> sorted_wrt (<) xs \<and> set xs = {i. i < length segs \<and> sg_active (segs ! i)} \<and>
     chain (\<lambda>i. sg_next (segs ! i)) (\<lambda>i. sg_prev (segs ! i)) xs"

definition scores_ok :: "Tokenizer \<Rightarrow> bool" where
  "scores_ok tk \<longleftrightarrow> (\<forall>t \<in> set (tk_tokens tk). \<not> f32_nan (ti_score t))"

definition queue_ok :: "Tokenizer \<Rightarrow> Seg list \<Rightarrow> Candidate list \<Rightarrow> bool" where
  "queue_ok tk segs pq \<longleftrightarrow>
     (\<forall>c \<in> set pq. cn_left c < length segs \<and> cn_score c = ti_score (tk_tokens tk ! nat (cn_id c)) \<and> \<not> f32_nan (cn_score c))"

definition cand_of :: "Candidate \<Rightarrow> (u32 \<times> int) \<times> nat" where
  "cand_of c = ((cn_score c, cn_id c), cn_left c)"

definition spm_inv :: "Tokenizer \<Rightarrow> Seg list \<Rightarrow> Candidate list \<Rightarrow> nat list \<Rightarrow> bool" where
  "spm_inv tk segs pq xs \<longleftrightarrow> spm_links segs xs \<and> queue_ok tk segs pq \<and>
     covers (spm_cand tk) (\<lambda>i. seg_piece (segs ! i)) xs (cand_of ` set pq)"

lemma spm_linksD:
  assumes "spm_links segs xs" "k < length xs"
  shows "xs ! k < length segs" "sg_active (segs ! (xs ! k))"
    "sg_next (segs ! (xs ! k)) = (if Suc k < length xs then Some (xs ! Suc k) else None)"
    "sg_prev (segs ! (xs ! k)) = (if k = 0 then None else Some (xs ! (k - 1)))"
proof -
  have "xs ! k \<in> set xs" using assms(2) by simp
  then show "xs ! k < length segs" "sg_active (segs ! (xs ! k))" using assms(1) by (auto simp: spm_links_def)
  show "sg_next (segs ! (xs ! k)) = (if Suc k < length xs then Some (xs ! Suc k) else None)"
    "sg_prev (segs ! (xs ! k)) = (if k = 0 then None else Some (xs ! (k - 1)))"
    using assms unfolding spm_links_def chain_def by auto
qed

lemma spm_position: "spm_links segs xs \<Longrightarrow> i < length segs \<Longrightarrow> sg_active (segs ! i) \<Longrightarrow> \<exists>k < length xs. xs ! k = i"
  by (auto simp: spm_links_def set_eq_iff in_set_conv_nth)

text \<open>Queueing the candidate of a live segment.\<close>

lemma tryAdd_spec:
  assumes l: "spm_links segs xs" and k: "k < length xs" and v: "vocab_ok tk" "scores_ok tk" and q: "queue_ok tk segs pq"
  shows "queue_ok tk segs (tryAddCandidate tk segs (Some (xs ! k)) pq)" "set pq \<subseteq> set (tryAddCandidate tk segs (Some (xs ! k)) pq)"
    "length (tryAddCandidate tk segs (Some (xs ! k)) pq) \<le> Suc (length pq)"
    "Suc k < length xs \<Longrightarrow> spm_cand tk (seg_piece (segs ! (xs ! k))) (seg_piece (segs ! (xs ! Suc k))) = Some e \<Longrightarrow>
      (e, xs ! k) \<in> cand_of ` set (tryAddCandidate tk segs (Some (xs ! k)) pq)"
proof -
  note D = spm_linksD [OF l k]
  let ?m = "tk_byText tk (sg_text (segs ! (xs ! k)) @ sg_text (segs ! (xs ! Suc k)))"
  let ?c = "\<lambda>m. \<lparr>cn_score = ti_score (tk_tokens tk ! nat m), cn_left = xs ! k, cn_id = m\<rparr>"
  have eq: "tryAddCandidate tk segs (Some (xs ! k)) pq = (if Suc k < length xs then (case ?m of None \<Rightarrow> pq | Some m \<Rightarrow> pq @ [?c m]) else pq)"
    using D spm_linksD(1,2) [OF l, of "Suc k"] by (cases "Suc k < length xs") (simp_all add: tryAddCandidate_def not_le [symmetric])
  have nan: "\<not> f32_nan (ti_score (tk_tokens tk ! nat m))" if "?m = Some m" for m
    using v that unfolding vocab_ok_def scores_ok_def by (metis nth_mem)
  show "queue_ok tk segs (tryAddCandidate tk segs (Some (xs ! k)) pq)" "set pq \<subseteq> set (tryAddCandidate tk segs (Some (xs ! k)) pq)"
    "length (tryAddCandidate tk segs (Some (xs ! k)) pq) \<le> Suc (length pq)"
    unfolding eq using q nan D(1) by (auto simp: queue_ok_def split: option.split)
  assume "Suc k < length xs" "spm_cand tk (seg_piece (segs ! (xs ! k))) (seg_piece (segs ! (xs ! Suc k))) = Some e"
  then show "(e, xs ! k) \<in> cand_of ` set (tryAddCandidate tk segs (Some (xs ! k)) pq)"
    unfolding eq by (auto simp: spm_cand_def seg_piece_def cand_of_def)
qed

lemma tryAdd_None [simp]: "tryAddCandidate tk segs None pq = pq"
  by (simp add: tryAddCandidate_def)

text \<open>A popped candidate that is still current.\<close>

lemma candidate_right_spec:
  assumes l: "spm_links segs xs" and c: "cn_left c < length segs"
  shows "candidate_right tk segs c = Some r \<longleftrightarrow>
    (\<exists>k. Suc k < length xs \<and> xs ! k = cn_left c \<and> r = xs ! Suc k \<and> tk_byText tk (sg_text (segs ! (xs ! k)) @ sg_text (segs ! (xs ! Suc k))) = Some (cn_id c))"
proof (cases "sg_active (segs ! cn_left c)")
  case True
  obtain k where k: "k < length xs" "xs ! k = cn_left c" using spm_position [OF l c True] by blast
  have d: "distinct xs" using l by (simp add: spm_links_def strict_sorted_iff)
  have uniq: "m = k" if "Suc m < length xs" "xs ! m = cn_left c" for m using that k d by (metis Suc_lessD nth_eq_iff_index_eq)
  let ?ok = "Suc k < length xs \<and> tk_byText tk (sg_text (segs ! (xs ! k)) @ sg_text (segs ! (xs ! Suc k))) = Some (cn_id c)"
  have eq: "candidate_right tk segs c = (if ?ok then Some (xs ! Suc k) else None)"
    using True spm_linksD(3) [OF l k(1)] spm_linksD(1,2) [OF l, of "Suc k"]
    by (cases "Suc k < length xs") (simp_all add: candidate_right_def Let_def k(2) [symmetric] not_le [symmetric])
  show ?thesis
  proof
    assume "candidate_right tk segs c = Some r"
    then show "\<exists>k. Suc k < length xs \<and> xs ! k = cn_left c \<and> r = xs ! Suc k \<and> tk_byText tk (sg_text (segs ! (xs ! k)) @ sg_text (segs ! (xs ! Suc k))) = Some (cn_id c)"
      using eq k(2) by (intro exI [of _ k]) (simp split: if_splits)
  next
    assume "\<exists>k. Suc k < length xs \<and> xs ! k = cn_left c \<and> r = xs ! Suc k \<and> tk_byText tk (sg_text (segs ! (xs ! k)) @ sg_text (segs ! (xs ! Suc k))) = Some (cn_id c)"
    then show "candidate_right tk segs c = Some r" using eq uniq by auto
  qed
next
  case False
  then have "xs ! k \<noteq> cn_left c" if "k < length xs" for k using spm_linksD(2) [OF l that] by auto
  then show ?thesis using False by (auto simp: candidate_right_def Let_def)
qed

section \<open>The merge\<close>

definition spm_unlink :: "Candidate \<Rightarrow> nat \<Rightarrow> Seg list \<Rightarrow> Seg list" where
  "spm_unlink c r segs =
     (let right = segs ! r; l = cn_left c;
          segs1 = upd_seg l (\<lambda>s. s\<lparr>sg_text := sg_text s @ sg_text right, sg_id := cn_id c, sg_next := sg_next right\<rparr>) segs;
          segs2 = (case sg_next right of
                     Some q \<Rightarrow> if q < length segs then upd_seg q (\<lambda>s. s\<lparr>sg_prev := Some l\<rparr>) segs1 else segs1
                   | None \<Rightarrow> segs1)
      in upd_seg r (\<lambda>s. s\<lparr>sg_active := False\<rparr>) segs2)"

lemma spm_merge_eq:
  "spm_merge tk c r segs pq =
     (let segs3 = spm_unlink c r segs
      in (segs3, tryAddCandidate tk segs3 (sg_prev (segs3 ! cn_left c)) (tryAddCandidate tk segs3 (Some (cn_left c)) pq)))"
  by (simp add: spm_merge_def spm_unlink_def Let_def)

lemma spm_unlink_nth:
  assumes l: "spm_links segs xs" and k: "Suc k < length xs" and i: "i < length segs" and c: "cn_left c = xs ! k"
  defines "segs3 \<equiv> spm_unlink c (xs ! Suc k) segs"
  shows "length segs3 = length segs"
    "seg_piece (segs3 ! i) = (if i = xs ! k then (sg_text (segs ! (xs ! k)) @ sg_text (segs ! (xs ! Suc k)), cn_id c) else seg_piece (segs ! i))"
    "sg_next (segs3 ! i) = (if i = xs ! k then sg_next (segs ! (xs ! Suc k)) else sg_next (segs ! i))"
    "sg_prev (segs3 ! i) = (if sg_next (segs ! (xs ! Suc k)) = Some i then Some (xs ! k) else sg_prev (segs ! i))"
    "sg_active (segs3 ! i) = (i \<noteq> xs ! Suc k \<and> sg_active (segs ! i))"
proof -
  have d: "distinct xs" using l by (simp add: spm_links_def strict_sorted_iff)
  have ne: "xs ! k \<noteq> xs ! Suc k" using k d by (simp add: nth_eq_iff_index_eq)
  have b: "xs ! k < length segs" "xs ! Suc k < length segs" using spm_linksD(1) [OF l] k by auto
  have nx: "sg_next (segs ! (xs ! Suc k)) = (if Suc (Suc k) < length xs then Some (xs ! Suc (Suc k)) else None)"
    using spm_linksD(3) [OF l k] .
  have q: "xs ! Suc (Suc k) < length segs" "xs ! Suc (Suc k) \<noteq> xs ! k" "xs ! Suc (Suc k) \<noteq> xs ! Suc k" if "Suc (Suc k) < length xs"
    using spm_linksD(1) [OF l that] that d by (simp_all add: nth_eq_iff_index_eq)
  show "length segs3 = length segs"
    "seg_piece (segs3 ! i) = (if i = xs ! k then (sg_text (segs ! (xs ! k)) @ sg_text (segs ! (xs ! Suc k)), cn_id c) else seg_piece (segs ! i))"
    "sg_next (segs3 ! i) = (if i = xs ! k then sg_next (segs ! (xs ! Suc k)) else sg_next (segs ! i))"
    "sg_prev (segs3 ! i) = (if sg_next (segs ! (xs ! Suc k)) = Some i then Some (xs ! k) else sg_prev (segs ! i))"
    "sg_active (segs3 ! i) = (i \<noteq> xs ! Suc k \<and> sg_active (segs ! i))"
    using ne b q i c unfolding segs3_def spm_unlink_def Let_def upd_seg_def seg_piece_def nx
    by (cases "Suc (Suc k) < length xs"; simp add: nth_list_update; blast?)+
qed

lemma spm_unlink_links:
  assumes l: "spm_links segs xs" and k: "Suc k < length xs" and c: "cn_left c = xs ! k"
  shows "spm_links (spm_unlink c (xs ! Suc k) segs) (drop_at (Suc k) xs)"
proof -
  let ?segs = "spm_unlink c (xs ! Suc k) segs"
  note N = spm_unlink_nth [where c = c, OF l k _ c]
  have len: "length ?segs = length segs" using N(1) [of 0] spm_linksD(1) [OF l, of k] k by (metis Suc_lessD N(1))
  have d: "distinct xs" and s: "sorted_wrt (<) xs" using l by (simp_all add: spm_links_def strict_sorted_iff)
  have "chain (\<lambda>i. sg_next (?segs ! i)) (\<lambda>i. sg_prev (?segs ! i)) (drop_at (Suc k) xs)"
  proof (rule chain_unlink [OF _ d k])
    show "chain (\<lambda>i. sg_next (segs ! i)) (\<lambda>i. sg_prev (segs ! i)) xs" using l by (simp add: spm_links_def)
    fix m assume "m \<in> set xs"
    then have m: "m < length segs" using l by (simp add: spm_links_def)
    show "sg_next (?segs ! m) = (if m = xs ! k then sg_next (segs ! (xs ! Suc k)) else sg_next (segs ! m))" by (rule N(3) [OF m])
    show "sg_prev (?segs ! m) = (if sg_next (segs ! (xs ! Suc k)) = Some m then Some (xs ! k) else sg_prev (segs ! m))" by (rule N(4) [OF m])
  qed
  moreover have "drop_at (Suc k) xs \<noteq> [] \<and> hd (drop_at (Suc k) xs) = 0"
    using k l by (cases xs) (auto simp: drop_at_def spm_links_def)
  moreover have "set (drop_at (Suc k) xs) = {m. m < length ?segs \<and> sg_active (?segs ! m)}"
    using set_drop_at [OF d k] l N(5) len by (auto simp: spm_links_def)
  ultimately show ?thesis using sorted_drop_at [OF s k] by (simp add: spm_links_def)
qed

lemma spm_merge_inv:
  assumes l: "spm_links segs xs" and q: "queue_ok tk segs pq" and cov: "covers (spm_cand tk) (\<lambda>i. seg_piece (segs ! i)) xs h"
    and v: "vocab_ok tk" "scores_ok tk" and k: "Suc k < length xs" and c: "cn_left c = xs ! k"
    and e: "spm_cand tk (seg_piece (segs ! (xs ! k))) (seg_piece (segs ! (xs ! Suc k))) = Some e" and h: "h - {(e, xs ! k)} \<subseteq> cand_of ` set pq"
    and m: "spm_merge tk c (xs ! Suc k) segs pq = (segs', pq')"
  shows "spm_inv tk segs' pq' (drop_at (Suc k) xs)" "segs' = spm_unlink c (xs ! Suc k) segs" "length pq' \<le> length pq + 2"
proof -
  let ?ys = "drop_at (Suc k) xs"
  show segs': "segs' = spm_unlink c (xs ! Suc k) segs" using m by (simp add: spm_merge_eq Let_def)
  note N = spm_unlink_nth [where c = c, OF l k _ c, folded segs']
  have b: "xs ! k < length segs" using spm_linksD(1) [OF l, of k] k by simp
  have l': "spm_links segs' ?ys" unfolding segs' by (rule spm_unlink_links [OF l k c])
  have ys: "k < length ?ys" "?ys ! k = xs ! k" "0 < k \<Longrightarrow> ?ys ! (k - 1) = xs ! (k - 1)" "Suc k < length ?ys \<longleftrightarrow> Suc (Suc k) < length xs"
    "Suc (Suc k) < length xs \<Longrightarrow> ?ys ! Suc k = xs ! Suc (Suc k)"
    using k nth_drop_at [OF k, of k] nth_drop_at [OF k, of "k - 1"] nth_drop_at [OF k, of "Suc k"] by auto
  define pq1 where "pq1 = tryAddCandidate tk segs' (Some (xs ! k)) pq"
  have q': "queue_ok tk segs' pq" using q N(1) [OF b] unfolding queue_ok_def by auto
  note A = tryAdd_spec [OF l' ys(1) v q', unfolded ys(2), folded pq1_def]
  have prev: "sg_prev (segs' ! (xs ! k)) = (if k = 0 then None else Some (?ys ! (k - 1)))" using spm_linksD(4) [OF l' ys(1)] ys(2) by simp
  have pq': "pq' = (if k = 0 then pq1 else tryAddCandidate tk segs' (Some (?ys ! (k - 1))) pq1)"
  proof -
    have "pq' = tryAddCandidate tk segs' (sg_prev (segs' ! (xs ! k))) pq1"
      using m c unfolding spm_merge_eq Let_def segs' pq1_def by simp
    then show ?thesis unfolding prev by simp
  qed
  have k1: "k - 1 < length ?ys" using ys(1) by simp
  note B = tryAdd_spec [OF l' k1 v A(1)]
  have q2: "queue_ok tk segs' pq'" "set pq1 \<subseteq> set pq'" "length pq' \<le> Suc (length pq1)" unfolding pq' using A(1) B(1-3) by auto
  have "covers (spm_cand tk) (\<lambda>i. seg_piece (segs' ! i)) ?ys (cand_of ` set pq')"
  proof (rule covers_merged [OF cov _ k _ e])
    show "distinct xs" using l by (simp add: spm_links_def strict_sorted_iff)
    show "h - {(e, xs ! k)} \<subseteq> cand_of ` set pq'" using h A(2) q2(2) by blast
    show "seg_piece (segs' ! i) = seg_piece (segs ! i)" if "i \<in> set xs" "i \<noteq> xs ! k" for i
      using N(2) [of i] that l by (simp add: spm_links_def)
    show "(e', xs ! (k - 1)) \<in> cand_of ` set pq'" if "0 < k" "spm_cand tk (seg_piece (segs' ! (xs ! (k - 1)))) (seg_piece (segs' ! (xs ! k))) = Some e'" for e'
      using B(4) [of e'] that ys pq' by simp
    show "(e', xs ! k) \<in> cand_of ` set pq'"
      if "Suc (Suc k) < length xs" "spm_cand tk (seg_piece (segs' ! (xs ! k))) (seg_piece (segs' ! (xs ! Suc (Suc k)))) = Some e'" for e'
      using A(4) [of e'] that ys q2(2) by auto
  qed
  then show "spm_inv tk segs' pq' ?ys" using l' q2(1) by (simp add: spm_inv_def)
  show "length pq' \<le> length pq + 2" using q2(3) A(3) by simp
qed

section \<open>The loop\<close>

lemma candidate_less_key:
  assumes "\<not> f32_nan (cn_score a)" "\<not> f32_nan (cn_score b)"
  shows "candidate_less a b \<longleftrightarrow> f32_key (cn_score a) < f32_key (cn_score b) \<or> (f32_key (cn_score a) = f32_key (cn_score b) \<and> cn_left b < cn_left a)"
  using assms by (auto simp: candidate_less_def f32_eq_def f32_less_def)

lemma queue_okD:
  assumes "queue_ok tk segs pq" "c \<in> set pq"
  shows "cn_left c < length segs \<and> cn_score c = ti_score (tk_tokens tk ! nat (cn_id c)) \<and> \<not> f32_nan (cn_score c)"
  using assms unfolding queue_ok_def by blast

lemma candidate_strict:
  assumes "queue_ok tk segs pq"
  shows "strict_on (set pq) candidate_less"
proof -
  have n: "c \<in> set pq \<Longrightarrow> \<not> f32_nan (cn_score c)" for c using queue_okD [OF assms] by blast
  have "candidate_less a c" if "a \<in> set pq" "b \<in> set pq" "c \<in> set pq" "candidate_less a b" "candidate_less b c" for a b c
    using that n [of a] n [of b] n [of c] by (simp add: candidate_less_key) linarith
  moreover have "\<not> candidate_less a a" if "a \<in> set pq" for a using that n [of a] by (simp add: candidate_less_key)
  ultimately show ?thesis unfolding strict_on_def by blast
qed

lemma spm_loop_result:
  assumes "vocab_ok tk" "scores_ok tk" "spm_inv tk segs pq xs"
  shows "\<exists>segs' ys. spm_loop tk segs pq = Some segs' \<and> spm_links segs' ys \<and>
    map (\<lambda>i. seg_piece (segs' ! i)) ys = merge_all spm_above (spm_cand tk) (spm_glue tk) (map (\<lambda>i. seg_piece (segs ! i)) xs)"
  using assms(3)
proof (induction "3 * length xs + length pq" arbitrary: segs pq xs rule: less_induct)
  case less
  let ?pc = "\<lambda>i. seg_piece (segs ! i)"
  have links: "spm_links segs xs" and q: "queue_ok tk segs pq" and cov: "covers (spm_cand tk) ?pc xs (cand_of ` set pq)"
    using less.prems by (simp_all add: spm_inv_def)
  show ?case
  proof (cases "pq = []")
    case True
    then have "merge_all spm_above (spm_cand tk) (spm_glue tk) (map ?pc xs) = map ?pc xs" using spm.covers_empty cov by simp
    then show ?thesis using True links by (subst spm_loop.simps) auto
  next
    case False
    note T = pq_top_props [OF False candidate_strict [OF q]]
    define c where "c = pq_top candidate_less pq"
    define pq1 where "pq1 = pq_pop candidate_less pq"
    have c: "c \<in> set pq" unfolding c_def by (rule T(1))
    have cl: "cn_left c < length segs" "cn_score c = ti_score (tk_tokens tk ! nat (cn_id c))" "\<not> f32_nan (cn_score c)"
      using q c unfolding queue_ok_def by blast+
    have q1: "queue_ok tk segs pq1" using q T(4) unfolding queue_ok_def pq1_def by blast
    have h1: "cand_of ` set pq - {cand_of c} \<subseteq> cand_of ` set pq1" using T(3) unfolding c_def pq1_def by blast
    note R = candidate_right_spec [OF links cl(1), of tk]
    show ?thesis
    proof (cases "candidate_right tk segs c")
      case None
      have "covers (spm_cand tk) ?pc xs (cand_of ` set pq1)"
      proof (rule covers_stale [OF cov _ h1])
        fix k assume k: "Suc k < length xs" "xs ! k = snd (cand_of c)"
        then have "tk_byText tk (sg_text (segs ! (xs ! k)) @ sg_text (segs ! (xs ! Suc k))) \<noteq> Some (cn_id c)"
          using None R [of "xs ! Suc k"] by (auto simp: cand_of_def)
        then show "spm_cand tk (?pc (xs ! k)) (?pc (xs ! Suc k)) \<noteq> Some (fst (cand_of c))"
          by (auto simp: spm_cand_def seg_piece_def cand_of_def)
      qed
      then have "spm_inv tk segs pq1 xs" using links q1 by (simp add: spm_inv_def)
      moreover have "3 * length xs + length pq1 < 3 * length xs + length pq" using T(5) by (simp add: pq1_def)
      moreover have "spm_loop tk segs pq = spm_loop tk segs pq1"
        using False None by (subst spm_loop.simps) (simp add: Let_def c_def [symmetric] pq1_def [symmetric])
      ultimately show ?thesis using less.hyps [of xs pq1 segs] by simp
    next
      case (Some r)
      then obtain k where k: "Suc k < length xs" "xs ! k = cn_left c" "r = xs ! Suc k"
        "tk_byText tk (sg_text (segs ! (xs ! k)) @ sg_text (segs ! (xs ! Suc k))) = Some (cn_id c)" using R by blast
      have e: "spm_cand tk (?pc (xs ! k)) (?pc (xs ! Suc k)) = Some (cn_score c, cn_id c)"
        using k(4) cl(2) by (simp add: spm_cand_def seg_piece_def)
      have ck: "cand_of c = ((cn_score c, cn_id c), xs ! k)" using k(2) by (simp add: cand_of_def)
      obtain segs' pq' where m: "spm_merge tk c (xs ! Suc k) segs pq1 = (segs', pq')" by fastforce
      note M = spm_merge_inv [OF links q1 cov assms(1,2) k(1) k(2) [symmetric] e h1 [unfolded ck] m]
      have best: "\<not> better spm_above x ((cn_score c, cn_id c), xs ! k)" if xh: "x \<in> cand_of ` set pq" for x
      proof -
        obtain d where d: "x = cand_of d" "d \<in> set pq" using xh by blast
        have "\<not> candidate_less c d" using T(2) [OF d(2)] unfolding c_def .
        moreover have "\<not> f32_nan (cn_score d)" using q d(2) by (blast dest: queue_okD)
        ultimately show ?thesis using d(1) k(2) cl(3) by (auto simp: better_def spm_above_def cand_of_def candidate_less_key)
      qed
      have nv: "merge_all spm_above (spm_cand tk) (spm_glue tk) (map ?pc xs) = merge_all spm_above (spm_cand tk) (spm_glue tk)
          (map (?pc(xs ! k := spm_glue tk (?pc (xs ! k)) (?pc (xs ! Suc k)))) (drop_at (Suc k) xs))"
        by (rule spm.pop_best [OF _ cov best k(1) e]) (use links in \<open>simp_all add: spm_links_def\<close>)
      have pointwise: "(?pc(xs ! k := spm_glue tk (?pc (xs ! k)) (?pc (xs ! Suc k)))) i = seg_piece (segs' ! i)" if "i \<in> set xs" for i
        using spm_unlink_nth(2) [where c = c, OF links k(1) _ k(2) [symmetric], of i] M(2) that links k(4)
        by (auto simp: spm_links_def spm_glue_def seg_piece_def piece_id_def)
      have eq: "map (?pc(xs ! k := spm_glue tk (?pc (xs ! k)) (?pc (xs ! Suc k)))) (drop_at (Suc k) xs) =
          map (\<lambda>i. seg_piece (segs' ! i)) (drop_at (Suc k) xs)"
        by (rule map_cong [OF refl pointwise]) (auto simp: drop_at_def dest: in_set_takeD in_set_dropD)
      have dec: "3 * length (drop_at (Suc k) xs) + length pq' < 3 * length xs + length pq"
        using M(3) T(5) k(1) by (simp add: pq1_def)
      have "spm_loop tk segs pq = spm_loop tk segs' pq'"
        using False Some m k(3) by (subst spm_loop.simps) (simp add: Let_def c_def [symmetric] pq1_def [symmetric])
      then show ?thesis using less.hyps [OF dec M(1)] nv eq by (simp only:)
    qed
  qed
qed

section \<open>The encoder\<close>

lemma spm_collect_chain:
  assumes l: "spm_links segs xs"
  shows "k < length xs \<Longrightarrow> spm_collect segs (Some (xs ! k)) out = Some (out @ map (\<lambda>i. sg_id (segs ! i)) (drop k xs))"
proof (induction "length xs - k" arbitrary: k out)
  case (Suc n)
  let ?w = "sg_id (segs ! (xs ! k))"
  have step: "spm_collect segs (Some (xs ! k)) out = spm_collect segs (sg_next (segs ! (xs ! k))) (out @ [?w])"
    using spm_linksD(1) [OF l Suc.prems] by (subst spm_collect.simps) simp
  have drop: "drop k xs = xs ! k # drop (Suc k) xs" using Suc.prems by (simp add: Cons_nth_drop_Suc)
  show ?case
  proof (cases "Suc k < length xs")
    case True
    then show ?thesis using Suc.hyps(1) [of "Suc k" "out @ [?w]"] Suc.hyps(2) spm_linksD(3) [OF l Suc.prems] step drop by simp
  next
    case False
    then show ?thesis using spm_linksD(3) [OF l Suc.prems] step drop by (simp add: spm_collect.simps [of segs None])
  qed
qed simp

lemma spm_segments_spec:
  "map sg_text (spm_segments tk idx rest) = codepoints rest" "\<forall>s \<in> set (spm_segments tk idx rest). sg_id s = piece_id tk (sg_text s) \<and> sg_active s"
  "\<forall>i < length (spm_segments tk idx rest). sg_prev (spm_segments tk idx rest ! i) = (if idx + i = 0 then None else Some (idx + i - 1)) \<and>
     sg_next (spm_segments tk idx rest ! i) = Some (Suc (idx + i))"
proof (induction "length rest" arbitrary: idx rest rule: less_induct)
  case less
  {
    case 1
    show ?case using less(1) [of "drop (min (utf8CodepointLen (hd rest)) (length rest)) rest" "Suc idx"]
      by (cases "rest = []") (simp_all add: spm_segments.simps [of tk idx rest] spm_segments.simps [of tk idx "[]"] codepoints.simps [of "[]"] codepoints.simps [of rest] Let_def)
  next
    case 2
    show ?case using less(2) [of "drop (min (utf8CodepointLen (hd rest)) (length rest)) rest" "Suc idx"]
      by (cases "rest = []") (simp_all add: spm_segments.simps [of tk idx rest] spm_segments.simps [of tk idx "[]"] Let_def)
  next
    case 3
    show ?case using less(3) [of "drop (min (utf8CodepointLen (hd rest)) (length rest)) rest" "Suc idx"]
      by (cases "rest = []") (simp_all add: spm_segments.simps [of tk idx rest] spm_segments.simps [of tk idx "[]"] Let_def nth_Cons split: nat.split, auto)
  }
qed

lemma tryAdd_loop:
  assumes l: "spm_links segs [0..<n]" and n: "n = length segs" and v: "vocab_ok tk" "scores_ok tk"
  shows "m \<le> n \<Longrightarrow> queue_ok tk segs (fold (\<lambda>i. tryAddCandidate tk segs (Some i)) [0..<m] []) \<and>
    (\<forall>k < m. \<forall>e. Suc k < n \<and> spm_cand tk (seg_piece (segs ! k)) (seg_piece (segs ! Suc k)) = Some e \<longrightarrow>
       (e, k) \<in> cand_of ` set (fold (\<lambda>i. tryAddCandidate tk segs (Some i)) [0..<m] []))"
proof (induction m)
  case (Suc m)
  let ?pq = "fold (\<lambda>i. tryAddCandidate tk segs (Some i)) [0..<m] []"
  have m: "m < length [0..<n]" "[0..<n] ! m = m" using Suc.prems by auto
  have IH: "queue_ok tk segs ?pq" "\<And>k e. k < m \<Longrightarrow> Suc k < n \<Longrightarrow> spm_cand tk (seg_piece (segs ! k)) (seg_piece (segs ! Suc k)) = Some e \<Longrightarrow> (e, k) \<in> cand_of ` set ?pq"
    using Suc by auto
  note A = tryAdd_spec [OF l m(1) v IH(1), unfolded m(2)]
  have "(e, k) \<in> cand_of ` set (tryAddCandidate tk segs (Some m) ?pq)"
    if "k < Suc m" "Suc k < n" "spm_cand tk (seg_piece (segs ! k)) (seg_piece (segs ! Suc k)) = Some e" for k e
    using that IH(2) [of k e] A(2) A(4) [of e] by (cases "k = m") auto
  then show ?case using A(1) by simp
qed (simp add: queue_ok_def)

lemma encodeSpm_naive:
  assumes v: "vocab_ok tk" "scores_ok tk"
  shows "encodeSpm tk bs addBos = Some (bos_ids tk addBos @ naive_spm tk (codepoints (normalizeForSpm bs (tk_addSpacePrefix tk))))"
proof -
  define segs0 where "segs0 = spm_segments tk 0 (normalizeForSpm bs (tk_addSpacePrefix tk))"
  let ?n = "length segs0"
  note S = spm_segments_spec [of tk 0 "normalizeForSpm bs (tk_addSpacePrefix tk)", folded segs0_def]
  define segs1 where "segs1 = upd_seg (?n - 1) (\<lambda>s. s\<lparr>sg_next := None\<rparr>) (upd_seg 0 (\<lambda>s. s\<lparr>sg_prev := None\<rparr>) segs0)"
  define pq where "pq = fold (\<lambda>i. tryAddCandidate tk segs1 (Some i)) [0..<length segs1] []"
  show ?thesis
  proof (cases "segs0 = []")
    case True
    have "merge_all spm_above (spm_cand tk) (spm_glue tk) [] = []" by (simp add: merge_all.simps merge_pairs_def map_filter_def)
    then show ?thesis using True S(1) by (simp add: encodeSpm_def segs0_def [symmetric] naive_spm_def)
  next
    case False
    have len: "length segs1 = ?n" by (simp add: segs1_def upd_seg_def)
    have at: "sg_text (segs1 ! i) = sg_text (segs0 ! i) \<and> sg_id (segs1 ! i) = sg_id (segs0 ! i) \<and> sg_active (segs1 ! i) = sg_active (segs0 ! i) \<and>
        sg_prev (segs1 ! i) = (if i = 0 then None else Some (i - 1)) \<and> sg_next (segs1 ! i) = (if Suc i < ?n then Some (Suc i) else None)" if "i < ?n" for i
      using S(3) that False unfolding segs1_def upd_seg_def by (auto simp: nth_list_update)
    have links: "spm_links segs1 [0..<?n]"
      unfolding spm_links_def chain_def using at S(2) False len by (auto simp: hd_conv_nth)
    have Q: "queue_ok tk segs1 pq" "covers (spm_cand tk) (\<lambda>i. seg_piece (segs1 ! i)) [0..<?n] (cand_of ` set pq)"
      using tryAdd_loop [OF links len [symmetric] v order_refl] len unfolding pq_def covers_def by auto
    have pieces: "map (\<lambda>i. seg_piece (segs1 ! i)) [0..<?n] = map (\<lambda>cp. (cp, piece_id tk cp)) (map sg_text segs0)"
      by (rule nth_equalityI) (use at S(2) in \<open>auto simp: seg_piece_def\<close>)
    have inv: "spm_inv tk segs1 pq [0..<?n]" using links Q by (simp add: spm_inv_def)
    obtain segs xs where r: "spm_loop tk segs1 pq = Some segs" "spm_links segs xs"
      "map (\<lambda>i. seg_piece (segs ! i)) xs = merge_all spm_above (spm_cand tk) (spm_glue tk) (map (\<lambda>i. seg_piece (segs1 ! i)) [0..<?n])"
      using spm_loop_result [OF v inv] by blast
    have "xs \<noteq> []" "hd xs = 0" using r(2) unfolding spm_links_def by blast+
    then have x0: "0 < length xs" "xs ! 0 = 0" by (simp_all add: hd_conv_nth)
    then have "segs \<noteq> []" "sg_active (segs ! 0)" using spm_linksD(1,2) [OF r(2), of 0] by auto
    then have "first_active segs 0 = 0" by (cases segs) auto
    then have "spm_collect segs (Some (first_active segs 0)) out = Some (out @ map (\<lambda>i. sg_id (segs ! i)) xs)" for out
      using spm_collect_chain [OF r(2) x0(1), of out] x0(2) by simp
    moreover have "map (\<lambda>i. sg_id (segs ! i)) xs = map snd (map (\<lambda>i. seg_piece (segs ! i)) xs)" by (simp add: seg_piece_def)
    moreover have "encodeSpm tk bs addBos = Option.bind (spm_loop tk segs1 pq) (\<lambda>segs. spm_collect segs (Some (first_active segs 0)) (bos_ids tk addBos))"
      using False by (simp add: encodeSpm_def Let_def segs0_def [symmetric] segs1_def pq_def)
    ultimately show ?thesis using r(1,3) pieces S(1) by (simp add: naive_spm_def)
  qed
qed

section \<open>Both encoders\<close>

definition id_ok :: "Tokenizer \<Rightarrow> int \<Rightarrow> bool" where
  "id_ok tk i \<longleftrightarrow> (0 \<le> i \<and> nat i < length (tk_tokens tk)) \<or> i = tk_unknownId tk"

lemma piece_id_ok: "vocab_ok tk \<Longrightarrow> id_ok tk (piece_id tk w)"
  by (auto simp: vocab_ok_def id_ok_def piece_id_def split: option.split)

lemma naive_spm_ok:
  assumes "vocab_ok tk"
  shows "\<forall>i \<in> set (naive_spm tk cps). id_ok tk i"
proof -
  have "\<forall>p \<in> set (merge_all spm_above (spm_cand tk) (spm_glue tk) (map (\<lambda>cp. (cp, piece_id tk cp)) cps)). id_ok tk (snd p)"
    by (rule merge_all_set) (use piece_id_ok [OF assms] in \<open>auto simp: spm_glue_def\<close>)
  then show ?thesis by (auto simp: naive_spm_def)
qed

lemma encode_ok:
  assumes v: "vocab_ok tk" and m: "tk_modelType tk = bytes_of ''gpt2'' \<or> scores_ok tk" and n: "length bs < 2 ^ 31"
  shows "\<exists>ids. encode tk bs addBos = Some ids \<and> (\<forall>i \<in> set ids. id_ok tk i \<or> (addBos \<and> i = tk_bosId tk))"
proof -
  have bos: "\<forall>i \<in> set (bos_ids tk addBos). addBos \<and> i = tk_bosId tk" by (simp add: bos_ids_def)
  show ?thesis
    using encodeGpt2_naive [OF n, of tk addBos] encodeSpm_naive [OF v, of bs addBos] m piece_id_ok [OF v] naive_spm_ok [OF v] bos
    by (auto simp: encode_def)
qed

lemma encode_pieces_ok:
  assumes v: "vocab_ok tk" and m: "tk_modelType tk = bytes_of ''gpt2'' \<or> scores_ok tk"
  shows "\<forall>x \<in> set ps. length (snd x) < 2 ^ 31 \<Longrightarrow>
    \<exists>out. encode_pieces tk ps ids = Some (ids @ out) \<and> (\<forall>i \<in> set out. id_ok tk i)"
proof (induction ps arbitrary: ids)
  case (Cons x ps)
  obtain special p where x: "x = (special, p)" by fastforce
  have IH: "\<exists>out. encode_pieces tk ps js = Some (js @ out) \<and> (\<forall>i \<in> set out. id_ok tk i)" for js using Cons by simp
  show ?case
  proof (cases "special \<and> findToken tk p \<ge> 0")
    case True
    then have "id_ok tk (findToken tk p)" using v by (auto simp: findToken_def vocab_ok_def id_ok_def split: option.splits)
    then show ?thesis using IH [of "ids @ [findToken tk p]"] True x by auto
  next
    case False
    obtain sub where sub: "encode tk p False = Some sub" "\<forall>i \<in> set sub. id_ok tk i"
      using encode_ok [OF v m, of p False] Cons.prems x by auto
    then show ?thesis using IH [of "ids @ sub"] False x by auto
  qed
qed simp

section \<open>A concrete SentencePiece tokenizer\<close>

definition spm_reader :: GgufReader where
  "spm_reader = newGgufReader\<lparr>gr_metadata :=
     [bytes_of ''tokenizer.ggml.model'' \<mapsto> MvString (bytes_of ''llama''),
      bytes_of ''tokenizer.ggml.tokens'' \<mapsto> string_array [bytes_of ''h'', bytes_of ''i'', bytes_of ''hi'', kSpaceMarker],
      bytes_of ''tokenizer.ggml.unknown_token_id'' \<mapsto> MvUInt32 0]\<rparr>"

definition spm_tk :: Tokenizer where
  "spm_tk = snd (loadFromGguf spm_reader newTokenizer)"

lemma spm_demo:
  "loaded_by spm_reader (\<lambda>t. None) (\<lambda>p. FileAbsent) spm_tk" "scores_ok spm_tk"
proof -
  note keys = findMetadata_def spm_reader_def newGgufReader_def bytes_of_def
  note load = loadFromGguf_def Let_def string_array_def load_special_ids_def readSpecialId_def load_space_prefix_def
    load_merge_table_def newTokenizer_def
  show "loaded_by spm_reader (\<lambda>t. None) (\<lambda>p. FileAbsent) spm_tk" by (simp add: loaded_by_def spm_tk_def load keys)
  show "scores_ok spm_tk" by (simp add: scores_ok_def spm_tk_def load keys f32_nan_def buildSpecialTexts_def)
qed

section \<open>The properties\<close>

text \<open>
  C29. The SentencePiece encoder, with its queue of scored candidates and its linked segments, always ends
  and gives exactly the tokens of the naive algorithm on the codepoints of the normalised text: merge the
  adjacent pair whose concatenation is the token of the highest score, the leftmost of several, until no
  adjacent pair is a token. The vocabulary comes from a loader and no score is a NaN.
\<close>

theorem spm_equals_naive:
  assumes "loaded_by r parse dir tk" "scores_ok tk"
  shows "encodeSpm tk bs addBos = Some (bos_ids tk addBos @ naive_spm tk (codepoints (normalizeForSpm bs (tk_addSpacePrefix tk))))"
  by (rule encodeSpm_naive [OF loaded_facts(1) [OF assms(1)] assms(2)])

theorem spm_equals_naive_witness:
  "encodeSpm spm_tk (bytes_of ''hi hi'') True =
   Some (bos_ids spm_tk True @ naive_spm spm_tk (codepoints (normalizeForSpm (bytes_of ''hi hi'') (tk_addSpacePrefix spm_tk))))"
  by (rule spm_equals_naive [OF spm_demo])

text \<open>
  C30. Encoding always returns, for any byte string, with or without matching special tokens, and every id it
  returns is an index of the vocabulary, the unknown id, or the start token when that was asked for.
\<close>

theorem encode_returns_valid_ids:
  assumes load: "loaded_by r parse dir tk" and m: "tk_modelType tk = bytes_of ''gpt2'' \<or> scores_ok tk" and n: "length bs < 2 ^ 31"
  shows "\<exists>ids. encodeSpecial tk bs addBos parseSpecial = Some ids \<and>
    (\<forall>i \<in> set ids. (0 \<le> i \<and> nat i < length (tk_tokens tk)) \<or> i = tk_unknownId tk \<or> (addBos \<and> i = tk_bosId tk))"
proof -
  note v = loaded_facts(1) [OF load]
  have "\<exists>ids. encodeSpecial tk bs addBos parseSpecial = Some ids \<and> (\<forall>i \<in> set ids. id_ok tk i \<or> (addBos \<and> i = tk_bosId tk))"
  proof (cases "parseSpecial \<and> tk_tokens tk \<noteq> []")
    case True
    let ?ps = "splitOnSpecials bs (tk_specialTexts tk)"
    have "concat (map snd ?ps) = bs"
      using split_loop_spec [OF loaded_facts(2) [OF load], of "[]" bs "[]"] by (auto simp: splitOnSpecials_def)
    then have "\<forall>x \<in> set ?ps. length (snd x) < 2 ^ 31" using piece_length [of _ ?ps] n by (metis order_le_less_trans)
    from encode_pieces_ok [OF v m this, of "bos_ids tk addBos"] show ?thesis
      using True by (auto simp: encodeSpecial_def bos_ids_def split: if_splits)
  next
    case False
    then show ?thesis using encode_ok [OF v m n, of addBos] by (auto simp: encodeSpecial_def)
  qed
  then show ?thesis unfolding id_ok_def by blast
qed

theorem encode_returns_valid_ids_witness:
  "\<exists>ids. encodeSpecial spm_tk (bytes_of ''hi hi'') True True = Some ids \<and>
    (\<forall>i \<in> set ids. (0 \<le> i \<and> nat i < length (tk_tokens spm_tk)) \<or> i = tk_unknownId spm_tk \<or> (True \<and> i = tk_bosId spm_tk))"
  using encode_returns_valid_ids [OF spm_demo(1), of "bytes_of ''hi hi''" True True] spm_demo(2) by (simp add: bytes_of_def)

end
