(* ===== verification/ToolStream.thy ===== *)
theory ToolStream
  imports Prelude "HOL-Library.Sublist"
begin

text \<open>
  The detector of tool calls in a streamed answer, \<^verbatim>\<open>src/model/ToolCallStreamDetector.{hpp,cpp}\<close>, and the part of
  \<^verbatim>\<open>ChatCompletionHandler\<close> that drives it: text arrives in chunks, one per generated token; text between a pair
  of markers is held back as a call, everything else goes to the client.

  \<^item> A \<^verbatim>\<open>std::string\<close> is a list of characters, \<^verbatim>\<open>npos\<close> is \<open>None\<close>. A chunk is answer text, after the
    thinking markup has been removed.
\<close>

section \<open>Searching\<close>

fun sfind :: "'a list \<Rightarrow> 'a list \<Rightarrow> nat option" where
  "sfind pat [] = (if pat = [] then Some 0 else None)"
| "sfind pat (x # s) = (if take (length pat) (x # s) = pat then Some 0 else map_option Suc (sfind pat s))"

definition find_from :: "'a list \<Rightarrow> 'a list \<Rightarrow> nat \<Rightarrow> nat option" where
  "find_from pat s p = (if p > length s then None else map_option ((+) p) (sfind pat (drop p s)))"

definition occurs :: "'a list \<Rightarrow> 'a list \<Rightarrow> nat \<Rightarrow> bool" where
  "occurs pat s i \<longleftrightarrow> i + length pat \<le> length s \<and> take (length pat) (drop i s) = pat"

lemma occurs_0: "occurs pat s 0 \<longleftrightarrow> take (length pat) s = pat"
  by (auto simp: occurs_def dest: arg_cong [where f = length])

lemma occurs_Suc [simp]: "occurs pat (x # s) (Suc i) \<longleftrightarrow> occurs pat s i"
  by (simp add: occurs_def)

lemma sfind_Some: "sfind pat s = Some i \<longleftrightarrow> occurs pat s i \<and> (\<forall>j < i. \<not> occurs pat s j)"
proof (induction s arbitrary: i)
  case (Cons x s)
  show ?case
  proof (cases i)
    case (Suc k)
    then show ?thesis using Cons [of k] occurs_0 [of pat "x # s"] by (auto simp: less_Suc_eq_0_disj)
  qed (simp add: occurs_0)
qed (auto simp: occurs_def)

lemma sfind_None: "sfind pat s = None \<longleftrightarrow> (\<forall>i. \<not> occurs pat s i)"
proof (induction s)
  case (Cons x s)
  have "(\<forall>i. \<not> occurs pat (x # s) i) \<longleftrightarrow> \<not> occurs pat (x # s) 0 \<and> (\<forall>i. \<not> occurs pat s i)" by (metis occurs_Suc not0_implies_Suc)
  then show ?case using Cons by (simp add: occurs_0)
qed (auto simp: occurs_def)

lemma sfind_bound: "sfind pat s = Some i \<Longrightarrow> i + length pat \<le> length s"
  by (simp add: sfind_Some occurs_def)

lemma find_from_bounds: "find_from pat s p = Some q \<Longrightarrow> p \<le> q \<and> q \<le> length s"
  by (auto simp: find_from_def dest!: sfind_bound split: if_splits)

section \<open>Markers\<close>

datatype Style = QwenChatML | Gemma3 | Gemma4 | Llama3

definition kQwenOpen :: string where "kQwenOpen = ''<tool_call>''"

definition kQwenClose :: string where "kQwenClose = ''</tool_call>''"

definition kGemmaOpen :: string where "kGemmaOpen = ''<|tool_call>''"

definition kGemmaClose :: string where "kGemmaClose = ''<tool_call|>''"

definition kBareOpen :: string where "kBareOpen = ''<function=''"

definition kBareClose :: string where "kBareClose = ''</function>''"

definition kFence :: string where "kFence = ''```''"

fun openMarkerFor :: "Style \<Rightarrow> string" where
  "openMarkerFor QwenChatML = kQwenOpen"
| "openMarkerFor Gemma4 = kGemmaOpen"
| "openMarkerFor _ = []"

fun closeMarkerFor :: "Style \<Rightarrow> string" where
  "closeMarkerFor QwenChatML = kQwenClose"
| "closeMarkerFor Gemma4 = kGemmaClose"
| "closeMarkerFor _ = []"

section \<open>State\<close>

datatype DetectorState = PassThrough | Buffering | Completed

record ToolCallStreamDetector =
  td_open :: string
  td_close :: string
  td_openBare :: string
  td_closeBare :: string
  td_bare :: bool
  td_inFence :: bool
  td_swallowDangling :: bool
  td_active :: bool
  td_state :: DetectorState
  td_pending :: string
  td_buffer :: string
  td_trailingAfterClose :: string

definition newDetector :: "Style \<Rightarrow> bool \<Rightarrow> string \<Rightarrow> ToolCallStreamDetector" where
  "newDetector style enabled forcedOpener =
     (let active = enabled \<and> openMarkerFor style \<noteq> []; forced = active \<and> forcedOpener \<noteq> [] in
      \<lparr>td_open = openMarkerFor style, td_close = closeMarkerFor style,
       td_openBare = (if style = QwenChatML then kBareOpen else []), td_closeBare = (if style = QwenChatML then kBareClose else []),
       td_bare = False, td_inFence = False, td_swallowDangling = False, td_active = active,
       td_state = (if forced then Buffering else PassThrough), td_pending = [],
       td_buffer = (if forced then forcedOpener else []), td_trailingAfterClose = []\<rparr>)"

section \<open>Fences and the bare opener\<close>

function updateFence :: "bool \<Rightarrow> string \<Rightarrow> bool" where
  "updateFence inFence flushed =
     (case sfind kFence flushed of None \<Rightarrow> inFence | Some p \<Rightarrow> updateFence (\<not> inFence) (drop (p + length kFence) flushed))"
  by auto
termination
  by (relation "measure (\<lambda>(f, s). length s)") (auto simp: kFence_def dest!: sfind_bound)

declare updateFence.simps [simp del]

function fenced_loop :: "bool \<Rightarrow> nat \<Rightarrow> nat \<Rightarrow> string \<Rightarrow> bool" where
  "fenced_loop f p pos pending =
     (if p < pos then
        (case find_from kFence pending p of
           None \<Rightarrow> f
         | Some q \<Rightarrow> if q \<ge> pos then f else fenced_loop (\<not> f) (q + length kFence) pos pending)
      else f)"
  by auto
termination
  by (relation "measure (\<lambda>(f, p, pos, s). pos - p)") (auto simp: kFence_def dest!: find_from_bounds)

declare fenced_loop.simps [simp del]

definition fencedAt :: "ToolCallStreamDetector \<Rightarrow> nat \<Rightarrow> bool" where
  "fencedAt d pos = fenced_loop (td_inFence d) 0 pos (td_pending d)"

function bare_scan :: "ToolCallStreamDetector \<Rightarrow> nat \<Rightarrow> nat option" where
  "bare_scan d q =
     (case find_from (td_openBare d) (td_pending d) q of
        None \<Rightarrow> None
      | Some hit \<Rightarrow> if \<not> fencedAt d hit then Some hit else bare_scan d (hit + 1))"
  by auto
termination
  by (relation "measure (\<lambda>(d, q). Suc (length (td_pending d)) - q)") (auto dest!: find_from_bounds)

declare bare_scan.simps [simp del]

definition isWs :: "char \<Rightarrow> bool" where
  "isWs c \<longleftrightarrow> c = CHR 0x0A \<or> c = CHR '' '' \<or> c = CHR 0x09 \<or> c = CHR 0x0D"

section \<open>Operations\<close>

text \<open>The closer a bare call left behind: the flag says that the chunk is held.\<close>

definition swallow :: "ToolCallStreamDetector \<Rightarrow> bool \<times> ToolCallStreamDetector" where
  "swallow d =
     (if \<not> td_swallowDangling d then (False, d)
      else
        let ws = length (takeWhile isWs (td_pending d)); rest = drop ws (td_pending d) in
        if length rest < length kQwenClose then
          (if take (length rest) kQwenClose = rest then (True, d) else (False, d\<lparr>td_swallowDangling := False\<rparr>))
        else if take (length kQwenClose) rest = kQwenClose
        then (False, d\<lparr>td_pending := drop (ws + length kQwenClose) (td_pending d), td_swallowDangling := False\<rparr>)
        else (False, d\<lparr>td_swallowDangling := False\<rparr>))"

definition opt_min :: "nat option \<Rightarrow> nat option \<Rightarrow> nat option" where
  "opt_min a b = (case (a, b) of (Some x, Some y) \<Rightarrow> Some (min x y) | (Some x, None) \<Rightarrow> Some x | (None, y) \<Rightarrow> y)"

text \<open>The search for the closer, at the end of \<^verbatim>\<open>feed\<close>.\<close>

definition feed_close :: "ToolCallStreamDetector \<Rightarrow> bool \<times> ToolCallStreamDetector" where
  "feed_close d =
     (let closeMarker = (if td_bare d then td_closeBare d else td_close d) in
      case sfind closeMarker (td_buffer d) of
        None \<Rightarrow> (False, d)
      | Some close \<Rightarrow>
          let afterClose = close + length closeMarker;
              d1 = (if afterClose < length (td_buffer d)
                    then d\<lparr>td_trailingAfterClose := drop afterClose (td_buffer d), td_buffer := take afterClose (td_buffer d)\<rparr> else d);
              d2 = (if td_bare d then d1\<lparr>td_swallowDangling := True\<rparr> else d1)
          in (True, d2\<lparr>td_state := Completed\<rparr>))"

text \<open>The search for an opener: the text to emit, and the detector, still passing through or buffering.\<close>

definition feed_open :: "ToolCallStreamDetector \<Rightarrow> string \<times> ToolCallStreamDetector" where
  "feed_open d =
     (let opener = sfind (td_open d) (td_pending d);
          openBare = (if td_openBare d = [] then None else bare_scan d 0)
      in case opt_min opener openBare of
           None \<Rightarrow>
             let holdBack = max (length (td_open d)) (length (td_openBare d)) - 1 in
             if length (td_pending d) > holdBack
             then let n = length (td_pending d) - holdBack; out = take n (td_pending d)
                  in (out, d\<lparr>td_inFence := updateFence (td_inFence d) out, td_pending := drop n (td_pending d)\<rparr>)
             else ([], d)
         | Some hit \<Rightarrow>
             let out = take hit (td_pending d)
             in (out, d\<lparr>td_bare := (openBare = Some hit \<and> opener \<noteq> Some hit), td_inFence := updateFence (td_inFence d) out,
                        td_buffer := drop hit (td_pending d), td_pending := [], td_state := Buffering\<rparr>))"

definition feed :: "ToolCallStreamDetector \<Rightarrow> string \<Rightarrow> bool \<times> string \<times> ToolCallStreamDetector" where
  "feed d text =
     (if \<not> td_active d \<or> td_state d = Completed then (False, text, d)
      else if td_state d = PassThrough then
        (case swallow (d\<lparr>td_pending := td_pending d @ text\<rparr>) of
           (True, d1) \<Rightarrow> (False, [], d1)
         | (False, d1) \<Rightarrow>
             (case feed_open d1 of
                (out, d2) \<Rightarrow>
                  if td_state d2 = PassThrough then (False, out, d2)
                  else (case feed_close d2 of (done, d3) \<Rightarrow> (done, out, d3))))
      else (case feed_close (d\<lparr>td_buffer := td_buffer d @ text\<rparr>) of (done, d1) \<Rightarrow> (done, [], d1)))"

definition closeOnStop :: "ToolCallStreamDetector \<Rightarrow> ToolCallStreamDetector" where
  "closeOnStop d = (if \<not> td_active d \<or> td_state d \<noteq> Buffering then d else d\<lparr>td_state := Completed\<rparr>)"

definition reset_detector :: "ToolCallStreamDetector \<Rightarrow> ToolCallStreamDetector" where
  "reset_detector d =
     (let d1 = d\<lparr>td_state := PassThrough, td_bare := False, td_buffer := []\<rparr>
      in if td_trailingAfterClose d \<noteq> [] then d1\<lparr>td_pending := td_trailingAfterClose d, td_trailingAfterClose := []\<rparr> else d1)"

definition takePendingFlush :: "ToolCallStreamDetector \<Rightarrow> string \<times> ToolCallStreamDetector" where
  "takePendingFlush d =
     (let d1 = (if td_swallowDangling d \<and> td_pending d \<noteq> [] then
                  let ws = length (takeWhile isWs (td_pending d)); rest = drop ws (td_pending d);
                      n = min (length rest) (length kQwenClose)
                  in (if n > 0 \<and> take n rest = take n kQwenClose then d\<lparr>td_pending := drop (ws + n) (td_pending d)\<rparr> else d)
                     \<lparr>td_swallowDangling := False\<rparr>
                else d)
      in (td_pending d1, d1\<lparr>td_pending := []\<rparr>))"

section \<open>The handler\<close>

text \<open>What the client gets, in order: visible text and tool-call blocks.\<close>

datatype stream_event = Visible string | Block string

definition stream_token :: "ToolCallStreamDetector \<Rightarrow> string \<Rightarrow> stream_event list \<times> ToolCallStreamDetector" where
  "stream_token d text =
     (case feed d text of
        (toolCallCompleted, txt, d1) \<Rightarrow>
          if toolCallCompleted then ([Visible txt, Block (td_buffer d1)], reset_detector d1) else ([Visible txt], d1))"

definition stream_end :: "ToolCallStreamDetector \<Rightarrow> stream_event list" where
  "stream_end d =
     (if td_state d = Buffering
      then let d1 = closeOnStop d in [Block (td_buffer d1), Visible (fst (takePendingFlush (reset_detector d1)))]
      else [Visible (fst (takePendingFlush d))])"

fun stream_tokens :: "ToolCallStreamDetector \<Rightarrow> string list \<Rightarrow> stream_event list" where
  "stream_tokens d [] = stream_end d"
| "stream_tokens d (c # cs) = (case stream_token d c of (evs, d1) \<Rightarrow> evs @ stream_tokens d1 cs)"

definition stream :: "Style \<Rightarrow> string \<Rightarrow> string list \<Rightarrow> stream_event list" where
  "stream style forcedOpener chunks = stream_tokens (newDetector style True forcedOpener) chunks"

end
