(* ===== verification/ToolStreamChunking.thy ===== *)
theory ToolStreamChunking
  imports ToolStream
begin

text \<open>
  How the answer is cut into tokens does not matter to the detector of tool calls: what the client
  gets is the scan of the whole answer. The scan is the reference; the stream is shown to simulate it,
  the detector standing for the text it still holds.
\<close>

section \<open>Occurrences in a growing text\<close>

lemma occurs_append: "i + length pat \<le> length s \<Longrightarrow> occurs pat (s @ t) i \<longleftrightarrow> occurs pat s i"
  by (simp add: occurs_def)

lemma occurs_drop: "n \<le> i \<Longrightarrow> n \<le> length s \<Longrightarrow> occurs pat (drop n s) (i - n) \<longleftrightarrow> occurs pat s i"
  by (auto simp: occurs_def)

lemma sfind_append_Some: "sfind pat s = Some i \<Longrightarrow> sfind pat (s @ t) = Some i"
  using occurs_append [of _ pat s t] by (auto simp: sfind_Some) (metis add_less_mono1 le_trans less_imp_le occurs_def)+

text \<open>The start of a text without the pattern can be skipped, up to a tail one shorter than the pattern.\<close>

lemma sfind_append_None:
  assumes none: "sfind pat s = None" and n: "n + length pat \<le> Suc (length s)" and ne: "pat \<noteq> []"
  shows "sfind pat (s @ t) = map_option ((+) n) (sfind pat (drop n s @ t))"
proof -
  have ns: "n \<le> length s" using n ne by (cases pat) auto
  then have drop: "drop n s @ t = drop n (s @ t)" by simp
  have early: "\<not> occurs pat (s @ t) i" if "i < n" for i
    using that n none occurs_append [of i pat s t] by (auto simp: sfind_None)
  have shift: "occurs pat (drop n (s @ t)) j \<longleftrightarrow> occurs pat (s @ t) (n + j)" for j
    using occurs_drop [of n "n + j" "s @ t" pat] ns by simp
  show ?thesis
  proof (cases "sfind pat (drop n (s @ t))")
    case None
    then have "\<not> occurs pat (s @ t) i" for i
      using early shift [of "i - n"] by (cases "i < n") (auto simp: sfind_None)
    then have "sfind pat (s @ t) = None" by (simp add: sfind_None)
    then show ?thesis using None drop by simp
  next
    case (Some j)
    then have "occurs pat (s @ t) (n + j)" "\<not> occurs pat (s @ t) i" if "i < n + j" for i
      using that early shift [of j] shift [of "i - n"] by (cases "i < n"; auto simp: sfind_Some)+
    then have "sfind pat (s @ t) = Some (n + j)" using Some shift [of j] by (auto simp: sfind_Some)
    then show ?thesis using Some drop by simp
  qed
qed

lemma sfind_sublist: "sfind pat s = Some i \<Longrightarrow> sublist pat s"
  by (metis append_take_drop_id occurs_def sfind_Some sublist_appendI)

lemma find_from_sublist: "find_from pat s p = Some i \<Longrightarrow> sublist pat s"
  by (auto simp: find_from_def split: if_splits dest!: sfind_sublist) (metis sublist_drop sublist_order.order_trans)

section \<open>The reference\<close>

text \<open>The scan of a whole text, outside or inside a call.\<close>

function spans :: "string \<Rightarrow> string \<Rightarrow> bool \<Rightarrow> string \<Rightarrow> stream_event list" where
  "spans op cl inside s =
     (if cl = [] then [Visible s]
      else if inside then
        (case sfind cl s of
           None \<Rightarrow> [Block s]
         | Some j \<Rightarrow> Block (take (j + length cl) s) # spans op cl False (drop (j + length cl) s))
      else
        (case sfind op s of
           None \<Rightarrow> [Visible s]
         | Some i \<Rightarrow> Visible (take i s) # spans op cl True (drop i s)))"
  by auto
termination
  by (relation "measure (\<lambda>(op, cl, inside, s). 2 * length s + (if inside then 0 else 1))") (auto dest!: sfind_bound simp flip: length_greater_0_conv)

declare spans.simps [simp del]

text \<open>Visible text in one piece, without empty pieces.\<close>

fun joined :: "stream_event list \<Rightarrow> stream_event list" where
  "joined [] = []"
| "joined (Block b # es) = Block b # joined es"
| "joined (Visible s # es) =
     (case joined es of Visible t # fs \<Rightarrow> Visible (s @ t) # fs | fs \<Rightarrow> if s = [] then fs else Visible s # fs)"

lemma joined_Visible [simp]: "joined (Visible [] # es) = joined es"
  by (simp split: list.split stream_event.split)

lemma joined_merge: "joined (Visible s # Visible t # es) = joined (Visible (s @ t) # es)"
  by (auto split: list.split stream_event.split)

lemma joined_cong: "joined es = joined fs \<Longrightarrow> joined (ds @ es) = joined (ds @ fs)"
proof (induction ds)
  case (Cons d ds)
  then show ?case by (cases d) simp_all
qed simp

declare joined.simps(3) [simp del]

section \<open>The simulation\<close>

text \<open>A closer ends only where a chunk ends.\<close>

fun closers_end :: "string \<Rightarrow> string \<Rightarrow> string list \<Rightarrow> bool" where
  "closers_end cl pre [] = True"
| "closers_end cl pre (c # cs) = (list_all (\<lambda>n. \<not> suffix cl (pre @ take n c)) [1..<length c] \<and> closers_end cl (pre @ c) cs)"

definition quiet :: "ToolCallStreamDetector \<Rightarrow> bool" where
  "quiet d \<longleftrightarrow> td_active d \<and> \<not> td_bare d \<and> \<not> td_swallowDangling d \<and> td_trailingAfterClose d = [] \<and>
     td_open d \<noteq> [] \<and> td_close d \<noteq> [] \<and> length (td_open d) \<le> length (td_close d) \<and> length (td_openBare d) \<le> length (td_open d)"

text \<open>\<open>used\<close> is the text fed so far, \<open>pre\<close> the same with the forced opener in front.\<close>

definition stream_inv :: "string \<Rightarrow> string \<Rightarrow> ToolCallStreamDetector \<Rightarrow> bool" where
  "stream_inv pre used d \<longleftrightarrow> quiet d \<and> suffix used pre \<and>
     (case td_state d of
        PassThrough \<Rightarrow> suffix (td_pending d) used \<and> sfind (td_open d) (td_pending d) = None
      | Buffering \<Rightarrow> td_pending d = [] \<and> suffix (td_buffer d) pre \<and> sfind (td_close d) (td_buffer d) = None
      | Completed \<Rightarrow> False)"

definition future :: "ToolCallStreamDetector \<Rightarrow> string \<Rightarrow> stream_event list" where
  "future d rest =
     (if td_state d = Buffering then spans (td_open d) (td_close d) True (td_buffer d @ rest)
      else spans (td_open d) (td_close d) False (td_pending d @ rest))"

lemma spans_found:
  "cl \<noteq> [] \<Longrightarrow> sfind op s = Some i \<Longrightarrow> spans op cl False (s @ t) = Visible (take i s) # spans op cl True (drop i s @ t)"
  using sfind_bound [of op s i] by (subst spans.simps) (simp add: sfind_append_Some)

lemma spans_closed:
  "cl \<noteq> [] \<Longrightarrow> sfind cl s = Some j \<Longrightarrow>
   spans op cl True (s @ t) = Block (take (j + length cl) s) # spans op cl False (drop (j + length cl) s @ t)"
  using sfind_bound [of cl s j] by (subst spans.simps) (simp add: sfind_append_Some)

lemma spans_skip:
  assumes "cl \<noteq> []" "op \<noteq> []" "sfind op s = None" "n + length op \<le> Suc (length s)"
  shows "joined (spans op cl False (s @ t)) = joined (Visible (take n s) # spans op cl False (drop n s @ t))"
proof -
  have n: "n \<le> length s" using assms(2,4) by (cases op) auto
  note f = sfind_append_None [OF assms(3,4,2), of t]
  show ?thesis
  proof (cases "sfind op (drop n s @ t)")
    case None
    then have "spans op cl False (s @ t) = [Visible (take n s @ drop n s @ t)]" "spans op cl False (drop n s @ t) = [Visible (drop n s @ t)]"
      using f assms(1) by (simp_all add: spans.simps [of op cl False])
    then show ?thesis by (simp only: joined_merge)
  next
    case (Some i)
    have "take (n + i) (s @ t) = take n s @ take i (drop n s @ t)" "drop (n + i) (s @ t) = drop i (drop n s @ t)"
      using n take_add [of n i "s @ t"] by (simp_all add: add.commute)
    then have "spans op cl False (s @ t) = Visible (take n s @ take i (drop n s @ t)) # spans op cl True (drop i (drop n s @ t))"
      "spans op cl False (drop n s @ t) = Visible (take i (drop n s @ t)) # spans op cl True (drop i (drop n s @ t))"
      using Some f assms(1) by (simp_all add: spans.simps [of op cl False] del: take_append drop_append)
    then show ?thesis by (simp only: joined_merge)
  qed
qed

text \<open>A closer that ends inside the new chunk ends with it.\<close>

lemma no_trailing:
  assumes suf: "suffix buf (pre @ c)" and f: "sfind cl buf = Some j" and ends: "\<forall>n \<in> {1..<length c}. \<not> suffix cl (pre @ take n c)"
    and inside: "length buf - (j + length cl) < length c"
  shows "j + length cl = length buf"
proof (rule ccontr)
  let ?e = "j + length cl"
  define n where "n = length c - (length buf - ?e)"
  assume "\<not> ?thesis"
  then have e: "?e < length buf" using sfind_bound [OF f] by simp
  then have n: "n \<in> {1..<length c}" unfolding n_def atLeastLessThan_iff using inside e by linarith
  obtain zs where zs: "pre @ c = zs @ buf" using suf by (auto simp: suffix_def)
  have "length pre + length c = length zs + length buf" using arg_cong [OF zs, of length] by (simp only: length_append)
  then have "length pre + n = length zs + ?e" unfolding n_def using e inside by linarith
  then have "take (length pre + n) (pre @ c) = take (length zs + ?e) (zs @ buf)" using zs by simp
  then have "pre @ take n c = zs @ take ?e buf" using n by simp
  moreover have "take ?e buf = take j buf @ cl" using f by (simp add: sfind_Some occurs_def take_add)
  ultimately have "suffix cl (pre @ take n c)" by (simp add: suffix_def)
  then show False using ends n by blast
qed

lemma quiet_cong [simp]:
  "quiet (d\<lparr>td_pending := p\<rparr>) = quiet d" "quiet (d\<lparr>td_buffer := b\<rparr>) = quiet d" "quiet (d\<lparr>td_state := st\<rparr>) = quiet d" "quiet (d\<lparr>td_inFence := f\<rparr>) = quiet d"
  by (simp_all add: quiet_def)

lemma quiet_bare [simp]: "quiet d \<Longrightarrow> d\<lparr>td_bare := False\<rparr> = d"
  by (cases d) (simp add: quiet_def)

text \<open>The end of \<^verbatim>\<open>feed\<close>, with the reset that follows a completed call.\<close>

lemma close_step:
  assumes q: "quiet d" and st: "td_state d = Buffering" and p: "td_pending d = []" and suf: "suffix (td_buffer d) (pre @ c)" and us: "suffix used pre"
    and ends: "\<forall>n \<in> {1..<length c}. \<not> suffix (td_close d) (pre @ take n c)"
    and inside: "\<And>j. sfind (td_close d) (td_buffer d) = Some j \<Longrightarrow> length (td_buffer d) - (j + length (td_close d)) < length c"
    and r: "feed_close d = (ok, d1)"
    and d': "d' = (if ok then reset_detector d1 else d1)" and evs: "evs = (if ok then [Block (td_buffer d1)] else [])"
  shows "stream_inv (pre @ c) (used @ c) d'" "td_open d' = td_open d \<and> td_close d' = td_close d \<and> td_openBare d' = td_openBare d"
    "future d rest = evs @ future d' rest"
proof -
  have b: "\<not> td_bare d" "td_close d \<noteq> []" "td_open d \<noteq> []" "td_trailingAfterClose d = []" using q by (simp_all add: quiet_def)
  have us': "suffix (used @ c) (pre @ c)" using us by simp
  consider (going) "sfind (td_close d) (td_buffer d) = None" "ok = False" "d1 = d"
    | (closed) j where "sfind (td_close d) (td_buffer d) = Some j" "ok" "d1 = d\<lparr>td_state := Completed\<rparr>" "j + length (td_close d) = length (td_buffer d)"
    using r b(1) no_trailing [OF suf _ ends inside] by (cases "sfind (td_close d) (td_buffer d)") (auto simp: feed_close_def Let_def)
  then have "stream_inv (pre @ c) (used @ c) d' \<and> (td_open d' = td_open d \<and> td_close d' = td_close d \<and> td_openBare d' = td_openBare d) \<and>
      future d rest = evs @ future d' rest"
  proof cases
    case going
    then show ?thesis using q st p suf us' d' evs by (simp add: stream_inv_def)
  next
    case closed
    have d'': "d' = d\<lparr>td_state := PassThrough, td_buffer := []\<rparr>"
      using d' closed b(4) q quiet_bare [of "d\<lparr>td_state := PassThrough, td_buffer := []\<rparr>"] by (simp add: reset_detector_def)
    have "future d rest = Block (td_buffer d) # spans (td_open d) (td_close d) False rest"
      using spans_closed [OF b(2) closed(1), of "td_open d" rest] closed(4) st by (simp add: future_def)
    then show ?thesis using closed evs q p b(3) us' d'' by (simp add: stream_inv_def future_def)
  qed
  then show "stream_inv (pre @ c) (used @ c) d'" "td_open d' = td_open d \<and> td_close d' = td_close d \<and> td_openBare d' = td_openBare d"
    "future d rest = evs @ future d' rest" by auto
qed

lemma bare_scan_None:
  assumes "td_openBare d = [] \<or> \<not> sublist (td_openBare d) (td_pending d)"
  shows "(if td_openBare d = [] then None else bare_scan d 0) = None"
  using assms find_from_sublist by (subst bare_scan.simps) (fastforce split: option.split)

definition same_markers :: "ToolCallStreamDetector \<Rightarrow> ToolCallStreamDetector \<Rightarrow> bool" where
  "same_markers d d' \<longleftrightarrow> td_open d' = td_open d \<and> td_close d' = td_close d \<and> td_openBare d' = td_openBare d"

lemma buffering_step:
  assumes inv: "stream_inv pre used d" and st: "td_state d = Buffering"
    and ends: "\<forall>n \<in> {1..<length c}. \<not> suffix (td_close d) (pre @ take n c)" and step: "stream_token d c = (evs, d')"
  shows "stream_inv (pre @ c) (used @ c) d' \<and> same_markers d d' \<and> joined (future d (c @ rest)) = joined (evs @ future d' rest)"
proof -
  have i: "quiet d" "td_pending d = []" "suffix (td_buffer d) pre" "sfind (td_close d) (td_buffer d) = None" "suffix used pre"
    using inv st by (simp_all add: stream_inv_def)
  let ?d = "d\<lparr>td_buffer := td_buffer d @ c\<rparr>"
  obtain ok d1 where r: "feed_close ?d = (ok, d1)" by fastforce
  have f: "feed d c = (ok, [], d1)" using r st i(1) by (simp add: feed_def quiet_def)
  have inside: "length (td_buffer ?d) - (j + length (td_close ?d)) < length c" if j: "sfind (td_close ?d) (td_buffer ?d) = Some j" for j
  proof (rule ccontr)
    assume "\<not> ?thesis"
    then have "j + length (td_close d) \<le> length (td_buffer d)" using sfind_bound [OF j] by simp
    then have "occurs (td_close d) (td_buffer d) j" using j occurs_append [of j "td_close d" "td_buffer d" c] by (simp add: sfind_Some)
    then show False using i(4) by (simp add: sfind_None)
  qed
  have suf: "suffix (td_buffer ?d) (pre @ c)" using i(3) by simp
  have out: "evs = Visible [] # (if ok then [Block (td_buffer d1)] else [])" "d' = (if ok then reset_detector d1 else d1)"
    using step f by (auto simp: stream_token_def split: if_splits)
  note C = close_step [OF _ _ _ suf i(5) _ inside r out(2) refl]
  have "stream_inv (pre @ c) (used @ c) d'" by (rule C(1)) (use i st ends in simp_all)
  moreover have "same_markers d d'" using C(2) i st ends by (simp add: same_markers_def)
  moreover have "future ?d rest = (if ok then [Block (td_buffer d1)] else []) @ future d' rest" by (rule C(3)) (use i st ends in simp_all)
  moreover have "future d (c @ rest) = future ?d rest" using st by (simp add: future_def)
  ultimately show ?thesis using out(1) by simp
qed

lemma passing_step:
  assumes inv: "stream_inv pre used d" and st: "td_state d = PassThrough" and bare: "td_openBare d = [] \<or> \<not> sublist (td_openBare d) (used @ c)"
    and ends: "\<forall>n \<in> {1..<length c}. \<not> suffix (td_close d) (pre @ take n c)" and step: "stream_token d c = (evs, d')"
  shows "stream_inv (pre @ c) (used @ c) d' \<and> same_markers d d' \<and> joined (future d (c @ rest)) = joined (evs @ future d' rest)"
proof -
  let ?P = "td_pending d @ c"
  let ?d = "d\<lparr>td_pending := ?P\<rparr>"
  have i: "quiet d" "suffix (td_pending d) used" "sfind (td_open d) (td_pending d) = None" "suffix used pre"
    using inv st by (simp_all add: stream_inv_def)
  have m: "td_open d \<noteq> []" "td_close d \<noteq> []" "length (td_open d) \<le> length (td_close d)" "length (td_openBare d) \<le> length (td_open d)" "td_active d" "\<not> td_swallowDangling d" "\<not> td_bare d"
    using i(1) by (simp_all add: quiet_def)
  have sufP: "suffix ?P (used @ c)" using i(2) by simp
  have "sublist (td_openBare d) (used @ c)" if "sublist (td_openBare d) ?P"
    by (rule sublist_order.order_trans [OF that suffix_imp_sublist [OF sufP]])
  then have "td_openBare ?d = [] \<or> \<not> sublist (td_openBare ?d) (td_pending ?d)" using bare by auto
  note bs = bare_scan_None [OF this]
  have sw: "swallow ?d = (False, ?d)" using m(6) by (simp add: swallow_def)
  have fut: "future d (c @ rest) = spans (td_open d) (td_close d) False (?P @ rest)" using st by (simp add: future_def)
  show ?thesis
  proof (cases "sfind (td_open d) ?P")
    case None
    define n where "n = length ?P - (length (td_open d) - 1)"
    define f where "f = (if length ?P > length (td_open d) - 1 then updateFence (td_inFence d) (take n ?P) else td_inFence d)"
    have r: "feed_open ?d = (take n ?P, ?d\<lparr>td_inFence := f, td_pending := drop n ?P\<rparr>)"
    proof (cases "length ?P > length (td_open d) - 1")
      case False
      then have "?d\<lparr>td_inFence := f, td_pending := drop n ?P\<rparr> = ?d" by (cases d) (simp add: f_def n_def)
      then show ?thesis using False None bs m(4) by (simp add: feed_open_def opt_min_def Let_def n_def max_def)
    qed (use None bs m(4) in \<open>simp add: feed_open_def opt_min_def Let_def n_def f_def max_def\<close>)
    have d': "evs = [Visible (take n ?P)]" "d' = ?d\<lparr>td_inFence := f, td_pending := drop n ?P\<rparr>"
      using step st m(5) sw r by (simp_all add: stream_token_def feed_def)
    have none: "sfind (td_open d) (drop n ?P) = None"
      using None occurs_drop [of n "n + _" ?P "td_open d"] by (auto simp: sfind_None n_def)
    have "suffix (drop n ?P) (used @ c)" using sufP suffix_drop suffix_order.order_trans by blast
    then have "stream_inv (pre @ c) (used @ c) d'" using d'(2) none i st by (simp add: stream_inv_def)
    moreover have "joined (future d (c @ rest)) = joined (evs @ future d' rest)"
    proof (cases "n = 0")
      case True
      then show ?thesis using d' fut st by (simp add: future_def)
    next
      case False
      then have "n + length (td_open d) \<le> Suc (length ?P)" using m(1) unfolding n_def by (cases "td_open d") auto
      from spans_skip [OF m(2,1) None this, of rest] show ?thesis using d' fut st by (simp add: future_def)
    qed
    ultimately show ?thesis using d' by (simp add: same_markers_def)
  next
    case (Some hit)
    define d1 where "d1 = d\<lparr>td_inFence := updateFence (td_inFence d) (take hit ?P), td_buffer := drop hit ?P, td_pending := [], td_state := Buffering\<rparr>"
    have r: "feed_open ?d = (take hit ?P, d1)"
    proof -
      have "feed_open ?d = (take hit ?P, ?d\<lparr>td_bare := False, td_inFence := updateFence (td_inFence d) (take hit ?P), td_buffer := drop hit ?P, td_pending := [], td_state := Buffering\<rparr>)"
        unfolding feed_open_def Let_def bs using Some by (simp add: opt_min_def)
      also have "?d\<lparr>td_bare := False, td_inFence := updateFence (td_inFence d) (take hit ?P), td_buffer := drop hit ?P, td_pending := [], td_state := Buffering\<rparr> = d1"
        using m(7) by (cases d) (simp add: d1_def)
      finally show ?thesis .
    qed
    obtain ok d2 where rc: "feed_close d1 = (ok, d2)" by fastforce
    have f: "feed d c = (ok, take hit ?P, d2)" using st m(5) sw r rc by (simp add: feed_def) (simp add: d1_def)
    have b: "hit + length (td_open d) > length (td_pending d)"
    proof (rule ccontr)
      assume "\<not> ?thesis"
      then have "occurs (td_open d) (td_pending d) hit" using Some occurs_append [of hit "td_open d" "td_pending d" c] by (simp add: sfind_Some)
      then show False using i(3) by (simp add: sfind_None)
    qed
    have inside: "length (td_buffer d1) - (j + length (td_close d1)) < length c" if j: "sfind (td_close d1) (td_buffer d1) = Some j" for j
      using sfind_bound [OF Some] b m(3) sfind_bound [OF j] by (simp add: d1_def)
    have suf: "suffix (td_buffer d1) (pre @ c)"
      unfolding d1_def using sufP i(4) suffix_drop [of hit ?P] by simp (meson same_suffix_suffix suffix_order.order_trans)
    have out: "evs = Visible (take hit ?P) # (if ok then [Block (td_buffer d2)] else [])" "d' = (if ok then reset_detector d2 else d2)"
      using step f by (auto simp: stream_token_def split: if_splits)
    note C = close_step [OF _ _ _ suf i(4) _ inside rc out(2) refl]
    have d1: "quiet d1" "td_state d1 = Buffering" "td_pending d1 = []" "td_close d1 = td_close d" "td_open d1 = td_open d" "td_openBare d1 = td_openBare d"
      using i(1) by (simp_all add: d1_def)
    have "stream_inv (pre @ c) (used @ c) d'" by (rule C(1)) (use d1 ends in simp_all)
    moreover have "same_markers d d'" using C(2) d1 ends by (simp add: same_markers_def)
    moreover have "future d1 rest = (if ok then [Block (td_buffer d2)] else []) @ future d' rest" by (rule C(3)) (use d1 ends in simp_all)
    moreover have "future d (c @ rest) = Visible (take hit ?P) # future d1 rest"
      using fut spans_found [OF m(2) Some, of rest] d1 by (simp add: future_def) (simp add: d1_def)
    ultimately show ?thesis using out(1) by simp
  qed
qed

lemma stream_simulates:
  assumes "stream_inv pre used d" "td_openBare d = [] \<or> \<not> sublist (td_openBare d) (used @ concat chunks)" "closers_end (td_close d) pre chunks"
  shows "joined (stream_tokens d chunks) = joined (future d (concat chunks))"
  using assms
proof (induction chunks arbitrary: pre used d)
  case Nil
  have m: "td_open d \<noteq> []" "td_close d \<noteq> []" "td_trailingAfterClose d = []" "\<not> td_swallowDangling d" "td_active d"
    using Nil(1) by (simp_all add: stream_inv_def quiet_def)
  show ?case
    using Nil(1) m by (cases "td_state d")
      (simp_all add: stream_inv_def future_def stream_end_def closeOnStop_def reset_detector_def takePendingFlush_def spans.simps [of _ _ True] spans.simps [of _ _ False])
next
  case (Cons c cs)
  obtain evs d' where step: "stream_token d c = (evs, d')" by fastforce
  have ends: "\<forall>n \<in> {1..<length c}. \<not> suffix (td_close d) (pre @ take n c)" "closers_end (td_close d) (pre @ c) cs" using Cons.prems(3) by (auto simp: list_all_iff)
  have bare: "td_openBare d = [] \<or> \<not> sublist (td_openBare d) (used @ c)"
    using Cons.prems(2) by (auto simp: sublist_append simp flip: append_assoc)
  have S: "stream_inv (pre @ c) (used @ c) d' \<and> same_markers d d' \<and> joined (future d (c @ concat cs)) = joined (evs @ future d' (concat cs))"
  proof (cases "td_state d")
    case PassThrough
    then show ?thesis using passing_step [OF Cons.prems(1) _ bare ends(1) step] by simp
  next
    case Buffering
    then show ?thesis using buffering_step [OF Cons.prems(1) _ ends(1) step] by simp
  qed (use Cons.prems(1) in \<open>simp add: stream_inv_def\<close>)
  then have "joined (stream_tokens d' cs) = joined (future d' (concat cs))"
    using Cons.IH [of "pre @ c" "used @ c" d'] Cons.prems(2) ends(2) by (simp add: same_markers_def)
  then show ?case using S step joined_cong [of "stream_tokens d' cs" _ evs] by simp
qed

section \<open>The properties\<close>




end
