(* ===== verification/ResponseCleaning.thy ===== *)
theory ResponseCleaning
  imports ToolStreamChunking
begin

text \<open>
  Thinking and answer in a streamed response, \<^verbatim>\<open>src/model/ResponseCleaner.{hpp,cpp}\<close>: the text of each token is
  split into reasoning and answer text; markers may be cut across tokens, so a tail that may become one is
  held back.

  \<^item> \<^verbatim>\<open>npos\<close> is \<open>None\<close>; an opener that was not found is \<open>None\<close> instead of an invalid record.
  \<^item> The loop of \<^verbatim>\<open>feedQwenThink\<close> ends because every round that goes on has taken something off the pending
    text, or has closed a block.
\<close>

section \<open>Openers\<close>

type_synonym ThinkOpen = "nat \<times> nat \<times> string"

definition kThinkOpen :: string where "kThinkOpen = ''<think>''"

definition kThinkClose :: string where "kThinkClose = ''</think>''"

lemma find_from_len: "find_from pat s p = Some q \<Longrightarrow> p \<le> q \<and> q + length pat \<le> length s"
  by (auto simp: find_from_def dest!: sfind_bound split: if_splits)

function pseudo_open :: "string \<Rightarrow> nat \<Rightarrow> ThinkOpen option \<Rightarrow> ThinkOpen option" where
  "pseudo_open s scan best =
     (case find_from ''<|'' s scan of
        None \<Rightarrow> best
      | Some p \<Rightarrow>
          (case find_from ''|>'' s (p + 2) of
             None \<Rightarrow> best
           | Some gt \<Rightarrow>
               let content = take (gt - (p + 2)) (drop (p + 2) s); n = length content - 6 in
               if length content > 6 \<and> drop n content = ''_start'' then
                 (if take n content = ''im'' then pseudo_open s (gt + 2) best
                  else if (case best of None \<Rightarrow> True | Some (pos, _) \<Rightarrow> p < pos)
                  then Some (p, (gt + 2) - p, ''<|'' @ take n content @ ''_end|>'') else best)
               else pseudo_open s (p + 2) best))"
  by auto
termination
  by (relation "measure (\<lambda>(s, scan, best). Suc (length s) - scan)") (auto dest!: find_from_len)

declare pseudo_open.simps [simp del]

definition findThinkOpen :: "string \<Rightarrow> ThinkOpen option" where
  "findThinkOpen s = pseudo_open s 0 (map_option (\<lambda>t. (t, 7, kThinkClose)) (sfind kThinkOpen s))"

fun rfind_char :: "char \<Rightarrow> string \<Rightarrow> nat option" where
  "rfind_char c [] = None"
| "rfind_char c (x # s) = (case rfind_char c s of Some i \<Rightarrow> Some (Suc i) | None \<Rightarrow> if x = c then Some 0 else None)"

definition safeEmitLen :: "string \<Rightarrow> nat" where
  "safeEmitLen s =
     (case rfind_char (CHR ''<'') s of
        None \<Rightarrow> length s
      | Some lt \<Rightarrow> if find_from ''>'' s lt \<noteq> None then length s else lt)"

section \<open>State\<close>

datatype ThinkPhase = InThink | Done

record ResponseCleaner =
  rc_style :: Style
  rc_channelStartId :: int
  rc_channelEndId :: int
  rc_inChannel :: bool
  rc_stripLeading :: bool
  rc_inRoleHeader :: bool
  rc_thinkPhase :: ThinkPhase
  rc_pending :: string
  rc_thinkClose :: string

definition newResponseCleaner :: "Style \<Rightarrow> int \<Rightarrow> int \<Rightarrow> ResponseCleaner" where
  "newResponseCleaner style channelStartId channelEndId =
     \<lparr>rc_style = style, rc_channelStartId = channelStartId, rc_channelEndId = channelEndId, rc_inChannel = False,
      rc_stripLeading = False, rc_inRoleHeader = False,
      rc_thinkPhase = (if style = QwenChatML \<and> channelStartId \<ge> 0 then InThink else Done), rc_pending = [], rc_thinkClose = kThinkClose\<rparr>"

section \<open>Gemma 4\<close>

text \<open>Each feed gives whether there is answer text, the text, the reasoning and the cleaner.\<close>

definition feedGemma4 :: "ResponseCleaner \<Rightarrow> int \<Rightarrow> string \<Rightarrow> bool \<times> string \<times> string \<times> ResponseCleaner" where
  "feedGemma4 rc tokenId text =
     (if rc_channelStartId rc \<ge> 0 \<and> tokenId = rc_channelStartId rc then (False, text, [], rc\<lparr>rc_inChannel := True\<rparr>)
      else if rc_inChannel rc \<and> rc_channelEndId rc \<ge> 0 \<and> tokenId = rc_channelEndId rc
      then (False, text, [], rc\<lparr>rc_inChannel := False, rc_stripLeading := True\<rparr>)
      else if rc_inChannel rc then (False, [], text, rc)
      else if rc_stripLeading rc then
        (let rest = dropWhile isWs text in
         if rest = [] then (False, text, [], rc) else (True, rest, [], rc\<lparr>rc_stripLeading := False\<rparr>))
      else (text \<noteq> [], text, [], rc))"

section \<open>Qwen\<close>

text \<open>One round of the loop: whether to go on, the answer and the reasoning so far.\<close>

definition think_round :: "ResponseCleaner \<Rightarrow> string \<Rightarrow> bool \<times> string \<times> ResponseCleaner" where
  "think_round rc think =
     (case sfind (rc_thinkClose rc) (rc_pending rc) of
        None \<Rightarrow>
          if length (rc_pending rc) > length (rc_thinkClose rc) - 1
          then let n = length (rc_pending rc) - (length (rc_thinkClose rc) - 1)
               in (False, think @ take n (rc_pending rc), rc\<lparr>rc_pending := drop n (rc_pending rc)\<rparr>)
          else (False, think, rc)
      | Some close \<Rightarrow>
          (True, think @ take close (rc_pending rc),
           rc\<lparr>rc_pending := drop (close + length (rc_thinkClose rc)) (rc_pending rc), rc_thinkPhase := Done,
              rc_thinkClose := kThinkClose, rc_stripLeading := True\<rparr>))"

definition answer_round :: "ResponseCleaner \<Rightarrow> string \<Rightarrow> bool \<times> string \<times> ResponseCleaner" where
  "answer_round rc0 emit =
     (let pending = (if rc_stripLeading rc0 then dropWhile isWs (rc_pending rc0) else rc_pending rc0) in
      if rc_stripLeading rc0 \<and> pending = [] then (False, emit, rc0\<lparr>rc_pending := []\<rparr>)
      else
        let rc = rc0\<lparr>rc_pending := pending, rc_stripLeading := False\<rparr> in
        if rc_inRoleHeader rc then
          (case sfind [CHR 0x0A] pending of
             None \<Rightarrow> (False, emit, rc\<lparr>rc_pending := []\<rparr>)
           | Some nl \<Rightarrow> (True, emit, rc\<lparr>rc_pending := drop (nl + 1) pending, rc_inRoleHeader := False, rc_stripLeading := True\<rparr>))
        else
          (case sfind ''<|im_start|>'' pending of
             Some rh \<Rightarrow>
               let rest = drop rh pending; emit' = emit @ take rh pending in
               (case sfind [CHR 0x0A] rest of
                  None \<Rightarrow> (False, emit', rc\<lparr>rc_pending := [], rc_inRoleHeader := True\<rparr>)
                | Some nl \<Rightarrow> (True, emit', rc\<lparr>rc_pending := drop (nl + 1) rest, rc_stripLeading := True\<rparr>))
           | None \<Rightarrow>
               (case findThinkOpen pending of
                  None \<Rightarrow>
                    let safe = safeEmitLen pending
                    in (False, emit @ take safe pending, rc\<lparr>rc_pending := drop safe pending\<rparr>)
                | Some (pos, len, closer) \<Rightarrow>
                    (True, emit @ take pos pending,
                     rc\<lparr>rc_pending := drop (pos + len) pending, rc_thinkClose := closer, rc_thinkPhase := InThink\<rparr>))))"

definition left_over :: "ResponseCleaner \<Rightarrow> nat" where
  "left_over rc = 2 * length (rc_pending rc) + (if rc_thinkPhase rc = InThink then 1 else 0)"

lemma pseudo_open_pos:
  "pseudo_open s scan best = Some (pos, len, cl) \<Longrightarrow> (\<And>a b c. best = Some (a, b, c) \<Longrightarrow> 0 < b \<and> a + b \<le> length s) \<Longrightarrow> 0 < len \<and> pos + len \<le> length s"
proof (induction s scan best rule: pseudo_open.induct)
  case (1 s scan best)
  show ?case
  proof (cases "find_from ''<|'' s scan")
    case None
    then show ?thesis using "1.prems" by (simp add: pseudo_open.simps [of s scan])
  next
    case p: (Some p)
    show ?thesis
    proof (cases "find_from ''|>'' s (p + 2)")
      case None
      then show ?thesis using "1.prems" p by (simp add: pseudo_open.simps [of s scan])
    next
      case gt: (Some gt)
      let ?c = "take (gt - (p + 2)) (drop (p + 2) s)"
      let ?n = "length ?c - 6"
      have b: "p + 2 \<le> gt" "gt + 2 \<le> length s" using find_from_len [OF gt] by auto
      consider (im) "length ?c > 6 \<and> drop ?n ?c = ''_start''" "take ?n ?c = ''im''" | (found) "length ?c > 6 \<and> drop ?n ?c = ''_start''" "take ?n ?c \<noteq> ''im''"
        | (other) "\<not> (length ?c > 6 \<and> drop ?n ?c = ''_start'')" by blast
      then show ?thesis
      proof cases
        case im
        then show ?thesis using "1.IH"(1) [OF p gt refl refl im] "1.prems" p gt by (simp add: pseudo_open.simps [of s scan] Let_def)
      next
        case found
        then have "(pos = p \<and> len = gt + 2 - p) \<or> best = Some (pos, len, cl)"
          using "1.prems"(1) p gt by (auto simp: pseudo_open.simps [of s scan] Let_def split: if_splits)
        then show ?thesis using "1.prems"(2) b by auto
      next
        case other
        then show ?thesis using "1.IH"(2) [OF p gt refl refl other] "1.prems" p gt by (simp add: pseudo_open.simps [of s scan] Let_def split: if_splits)
      qed
    qed
  qed
qed

lemma findThinkOpen_pos: "findThinkOpen s = Some (pos, len, cl) \<Longrightarrow> 0 < len \<and> pos + len \<le> length s"
  unfolding findThinkOpen_def by (erule pseudo_open_pos) (auto simp: kThinkOpen_def dest!: sfind_bound)

lemma think_round_shrinks: "think_round rc think = (True, think', rc') \<Longrightarrow> rc_thinkPhase rc = InThink \<Longrightarrow> left_over rc' < left_over rc"
  by (auto simp: think_round_def left_over_def Let_def split: option.splits if_splits)

lemma answer_round_shrinks:
  assumes "answer_round rc emit = (True, emit', rc')" "rc_thinkPhase rc \<noteq> InThink"
  shows "left_over rc' < left_over rc"
proof -
  define q where "q = (if rc_stripLeading rc then dropWhile isWs (rc_pending rc) else rc_pending rc)"
  have "length q \<le> length (rc_pending rc)" by (simp add: q_def length_dropWhile_le)
  moreover have "length (rc_pending rc') < length q"
    using assms(1) findThinkOpen_pos [of q]
    by (auto simp: answer_round_def Let_def q_def [symmetric] split: if_splits option.splits dest!: sfind_bound)
  ultimately show ?thesis using assms(2) by (simp add: left_over_def)
qed

function think_loop :: "ResponseCleaner \<Rightarrow> string \<Rightarrow> string \<Rightarrow> string \<times> string \<times> ResponseCleaner" where
  "think_loop rc emit think =
     (if rc_thinkPhase rc = InThink then
        (case think_round rc think of
           (progress, think', rc') \<Rightarrow> if progress then think_loop rc' emit think' else (emit, think', rc'))
      else
        (case answer_round rc emit of
           (progress, emit', rc') \<Rightarrow> if progress then think_loop rc' emit' think else (emit', think, rc')))"
  by auto
termination
  by (relation "measure (\<lambda>(rc, emit, think). left_over rc)")
    (auto intro: think_round_shrinks [OF sym] answer_round_shrinks [OF sym])

declare think_loop.simps [simp del]

text \<open>Complete control tokens left in the answer are removed.\<close>

function scrub :: "string \<Rightarrow> nat \<Rightarrow> string" where
  "scrub emit p =
     (case find_from ''<|'' emit p of
        None \<Rightarrow> emit
      | Some q \<Rightarrow>
          (case find_from ''|>'' emit (q + 2) of
             None \<Rightarrow> emit
           | Some gt \<Rightarrow> scrub (take q emit @ drop (gt + 2) emit) q))"
  by auto
termination by (relation "measure (\<lambda>(s, p). length s)") (auto dest!: find_from_len)

declare scrub.simps [simp del]

definition feedQwenThink :: "ResponseCleaner \<Rightarrow> string \<Rightarrow> bool \<times> string \<times> string \<times> ResponseCleaner" where
  "feedQwenThink rc text =
     (case think_loop (rc\<lparr>rc_pending := rc_pending rc @ text\<rparr>) [] [] of
        (emit, think, rc') \<Rightarrow> let out = scrub emit 0 in (out \<noteq> [], out, think, rc'))"

definition feed_cleaner :: "ResponseCleaner \<Rightarrow> int \<Rightarrow> string \<Rightarrow> bool \<times> string \<times> string \<times> ResponseCleaner" where
  "feed_cleaner rc tokenId text =
     (case rc_style rc of
        Gemma4 \<Rightarrow> feedGemma4 rc tokenId text
      | QwenChatML \<Rightarrow> feedQwenThink rc text
      | _ \<Rightarrow> (text \<noteq> [], text, [], rc))"

text \<open>
  The tokens of a response, as the handler feeds them: the answer and the reasoning the client gets.
  The handler asks the cleaner for nothing at the end.
\<close>

fun clean_stream :: "ResponseCleaner \<Rightarrow> (int \<times> string) list \<Rightarrow> string \<times> string" where
  "clean_stream rc [] = ([], [])"
| "clean_stream rc ((tokenId, text) # ts) =
     (if text = [] then clean_stream rc ts
      else
        case feed_cleaner rc tokenId text of
          (hasContent, answer, reasoning, rc') \<Rightarrow>
            (case clean_stream rc' ts of
               (a, r) \<Rightarrow> ((if hasContent then answer else []) @ a, reasoning @ r)))"

section \<open>While thinking\<close>

lemma thinking_step:
  assumes "rc_thinkPhase rc = InThink" "sfind (rc_thinkClose rc) (rc_pending rc @ c) = None" "rc_style rc = QwenChatML"
  defines "p \<equiv> rc_pending rc @ c"
  defines "n \<equiv> length p - (length (rc_thinkClose rc) - 1)"
  shows "feed_cleaner rc i c = (False, [], take n p, rc\<lparr>rc_pending := drop n p\<rparr>)"
proof -
  have "scrub [] 0 = []" by (subst scrub.simps) (simp add: find_from_def)
  moreover have "think_loop (rc\<lparr>rc_pending := p\<rparr>) [] [] = ([], take n p, rc\<lparr>rc_pending := drop n p\<rparr>)"
    using assms(1,2) unfolding p_def [symmetric] by (subst think_loop.simps) (cases "length p > length (rc_thinkClose rc) - 1"; simp add: think_round_def n_def Let_def)
  ultimately show ?thesis using assms(3) by (simp add: feed_cleaner_def feedQwenThink_def p_def Let_def)
qed

lemma sfind_drop_None: "sfind pat s = None \<Longrightarrow> n \<le> length s \<Longrightarrow> sfind pat (drop n s) = None"
  using occurs_drop [of n "n + _" s pat] by (auto simp: sfind_None)

lemma sfind_prefix_None: "sfind pat (s @ t) = None \<Longrightarrow> sfind pat s = None"
  using sfind_append_Some [of pat s _ t] by (cases "sfind pat s") auto

lemma thinking_stream:
  assumes "rc_thinkPhase rc = InThink" "rc_style rc = QwenChatML" "length (rc_pending rc) \<le> k" "length (rc_thinkClose rc) = Suc k"
    "sfind (rc_thinkClose rc) (rc_pending rc @ concat (map snd ts)) = None"
  shows "clean_stream rc ts = ([], take (length (rc_pending rc @ concat (map snd ts)) - k) (rc_pending rc @ concat (map snd ts)))"
  using assms
proof (induction ts arbitrary: rc)
  case (Cons t ts)
  obtain i c where t: "t = (i, c)" by fastforce
  show ?case
  proof (cases "c = []")
    case True
    then show ?thesis using Cons.IH [OF Cons.prems(1-4)] Cons.prems(5) t by simp
  next
    case False
    let ?p = "rc_pending rc @ c"
    let ?T = "concat (map snd ts)"
    define n where "n = length ?p - k"
    have none: "sfind (rc_thinkClose rc) (?p @ ?T) = None" using Cons.prems(5) t by simp
    have f: "feed_cleaner rc i c = (False, [], take n ?p, rc\<lparr>rc_pending := drop n ?p\<rparr>)"
      using thinking_step [OF Cons.prems(1) sfind_prefix_None [OF none] Cons.prems(2), of i] Cons.prems(4) by (simp add: n_def)
    have n: "n \<le> length ?p" by (simp add: n_def)
    have "sfind (rc_thinkClose rc) (drop n ?p @ ?T) = None" using sfind_drop_None [OF none, of n] n by simp
    then have IH: "clean_stream (rc\<lparr>rc_pending := drop n ?p\<rparr>) ts = ([], take (length (drop n ?p @ ?T) - k) (drop n ?p @ ?T))"
      using Cons.IH [of "rc\<lparr>rc_pending := drop n ?p\<rparr>"] Cons.prems by (simp add: n_def)
    have "take n ?p @ take m (drop n ?p @ ?T) = take (n + m) (?p @ ?T)" for m
      using take_add [of n m "?p @ ?T"] n by simp
    moreover have "n + (length (drop n ?p @ ?T) - k) = length (?p @ ?T) - k" unfolding n_def by auto
    ultimately have "take n ?p @ take (length (drop n ?p @ ?T) - k) (drop n ?p @ ?T) = take (length (?p @ ?T) - k) (?p @ ?T)" by metis
    then show ?thesis using False t f IH by simp
  qed
qed simp

section \<open>Answer text\<close>

lemma rfind_append: "rfind_char c (a @ b) = (case rfind_char c b of Some i \<Rightarrow> Some (length a + i) | None \<Rightarrow> rfind_char c a)"
  by (induction a) (auto split: option.split)

lemma rfind_Some: "rfind_char c s = Some i \<Longrightarrow> i < length s \<and> s ! i = c"
  by (induction s arbitrary: i) (auto split: option.splits if_splits)

lemma rfind_None: "rfind_char c s = None \<longleftrightarrow> c \<notin> set s"
  by (induction s) (auto split: option.split)

lemma safe_le: "safeEmitLen s \<le> length s"
  using rfind_Some [of "CHR ''<''" s] by (auto simp: safeEmitLen_def split: option.split)

text \<open>The text sent so far and the text held back: one more chunk.\<close>

lemma safe_step:
  assumes "safeEmitLen (e @ p) = length e"
  shows "safeEmitLen ((e @ p) @ c) = length e + safeEmitLen (p @ c)"
proof (cases "rfind_char (CHR ''<'') (p @ c)")
  case (Some i)
  have "drop (length e + i) (e @ p @ c) = drop i (p @ c)" by simp
  then have "find_from ''>'' (e @ p @ c) (length e + i) = None \<longleftrightarrow> find_from ''>'' (p @ c) i = None"
    by (simp add: find_from_def del: drop_append)
  then show ?thesis using Some by (simp add: safeEmitLen_def rfind_append [of _ e])
next
  case None
  have p: "p = []"
  proof (rule ccontr)
    assume "p \<noteq> []"
    then have "rfind_char (CHR ''<'') (e @ p) = Some (length e)" using assms by (auto simp: safeEmitLen_def split: option.splits if_splits)
    then have "(e @ p) ! length e = CHR ''<''" using rfind_Some by blast
    then have "CHR ''<'' \<in> set (p @ c)" using \<open>p \<noteq> []\<close> by (cases p) auto
    then show False using None rfind_None by metis
  qed
  have "safeEmitLen (e @ c) = length (e @ c)"
  proof (cases "rfind_char (CHR ''<'') e")
    case (Some lt)
    then have "find_from ''>'' e lt \<noteq> None" "lt < length e" using assms p rfind_Some [OF Some] by (auto simp: safeEmitLen_def split: if_splits)
    then have "find_from ''>'' (e @ c) lt \<noteq> None" using sfind_append_Some [of "''>''" "drop lt e" _ c] by (auto simp: find_from_def)
    then show ?thesis using None p Some by (simp add: safeEmitLen_def rfind_append)
  qed (use None p in \<open>simp add: safeEmitLen_def rfind_append\<close>)
  moreover have "safeEmitLen c = length c" using None p by (simp add: safeEmitLen_def)
  ultimately show ?thesis using p by simp
qed

definition plain_text :: "string \<Rightarrow> bool" where
  "plain_text s \<longleftrightarrow> \<not> sublist ''<|'' s \<and> \<not> sublist kThinkOpen s"

lemma plain_sublist: "plain_text s \<Longrightarrow> sublist t s \<Longrightarrow> plain_text t"
  unfolding plain_text_def using sublist_order.order_trans by blast

lemma plain_no_opener:
  assumes "plain_text s"
  shows "sfind ''<|im_start|>'' s = None" "findThinkOpen s = None" "scrub s 0 = s"
proof -
  have n: "find_from ''<|'' s 0 = None" "sfind kThinkOpen s = None"
    using assms find_from_sublist sfind_sublist unfolding plain_text_def by (metis not_None_eq)+
  show "findThinkOpen s = None" "scrub s 0 = s" using n by (simp_all add: findThinkOpen_def pseudo_open.simps [of s] scrub.simps [of s])
  have "sublist ''<|'' ''<|im_start|>''" by (simp add: sublist_code)
  then have "\<not> sublist ''<|im_start|>'' s" using assms sublist_order.order_trans unfolding plain_text_def by blast
  then show "sfind ''<|im_start|>'' s = None" using sfind_sublist by (metis not_None_eq)
qed

lemma answer_step:
  assumes "rc_thinkPhase rc = Done" "\<not> rc_stripLeading rc" "\<not> rc_inRoleHeader rc" "rc_style rc = QwenChatML" "plain_text (rc_pending rc @ c)"
  defines "q \<equiv> rc_pending rc @ c"
  shows "feed_cleaner rc i c = (take (safeEmitLen q) q \<noteq> [], take (safeEmitLen q) q, [], rc\<lparr>rc_pending := drop (safeEmitLen q) q\<rparr>)"
proof -
  have pl: "plain_text q" "plain_text (take (safeEmitLen q) q)" using assms(5) plain_sublist [of q "take (safeEmitLen q) q"] sublist_take [of _ q] unfolding q_def by blast+
  have rc: "rc\<lparr>rc_pending := x, rc_stripLeading := False\<rparr> = rc\<lparr>rc_pending := x\<rparr>" for x using assms(2) by (cases rc) simp
  have "answer_round (rc\<lparr>rc_pending := q\<rparr>) [] = (False, take (safeEmitLen q) q, rc\<lparr>rc_pending := drop (safeEmitLen q) q\<rparr>)"
    using assms(2,3) plain_no_opener(1,2) [OF pl(1)] rc by (simp add: answer_round_def Let_def)
  then have "think_loop (rc\<lparr>rc_pending := q\<rparr>) [] [] = (take (safeEmitLen q) q, [], rc\<lparr>rc_pending := drop (safeEmitLen q) q\<rparr>)"
    using assms(1) by (subst think_loop.simps) simp
  then show ?thesis using assms(4) plain_no_opener(3) [OF pl(2)] by (simp add: feed_cleaner_def feedQwenThink_def Let_def q_def)
qed

lemma answer_stream:
  assumes "rc_thinkPhase rc = Done" "\<not> rc_stripLeading rc" "\<not> rc_inRoleHeader rc" "rc_style rc = QwenChatML"
    "plain_text (rc_pending rc @ concat (map snd ts))" "safeEmitLen (e @ rc_pending rc) = length e"
  shows "clean_stream rc ts = (drop (length e) (take (safeEmitLen (e @ rc_pending rc @ concat (map snd ts))) (e @ rc_pending rc @ concat (map snd ts))), [])"
  using assms
proof (induction ts arbitrary: rc e)
  case (Cons t ts)
  obtain i c where t: "t = (i, c)" by fastforce
  let ?T = "concat (map snd ts)"
  show ?case
  proof (cases "c = []")
    case True
    then show ?thesis using Cons.IH [OF Cons.prems(1-4) _ Cons.prems(6)] Cons.prems(5) t by simp
  next
    case False
    define q where "q = rc_pending rc @ c"
    define m where "m = safeEmitLen q"
    have pl: "plain_text (q @ ?T)" using Cons.prems(5) t by (simp add: q_def)
    then have "plain_text q" using plain_sublist by blast
    then have f: "feed_cleaner rc i c = (take m q \<noteq> [], take m q, [], rc\<lparr>rc_pending := drop m q\<rparr>)"
      using answer_step [OF Cons.prems(1-4), of c i] by (simp add: q_def m_def)
    have mq: "m \<le> length q" unfolding m_def by (rule safe_le)
    have e: "safeEmitLen ((e @ take m q) @ drop m q) = length (e @ take m q)"
      using safe_step [OF Cons.prems(6), of c] mq by (simp add: q_def [symmetric] m_def [symmetric])
    have "plain_text (drop m q @ ?T)" using plain_sublist [OF pl, of "drop m q @ ?T"] sublist_drop [of m "q @ ?T"] mq by simp
    then have IH: "clean_stream (rc\<lparr>rc_pending := drop m q\<rparr>) ts =
        (drop (length (e @ take m q)) (take (safeEmitLen (e @ q @ ?T)) (e @ q @ ?T)), [])"
      using Cons.IH [of "rc\<lparr>rc_pending := drop m q\<rparr>" "e @ take m q"] Cons.prems(1-4) e
      by (simp only: append_assoc append_take_drop_id) (simp add: append_assoc [symmetric] del: append_assoc)
    have whole: "((e @ take m q) @ drop m q) @ ?T = e @ q @ ?T" by simp
    have le: "length (e @ take m q) \<le> safeEmitLen (e @ q @ ?T)" using safe_step [OF e, of ?T] unfolding whole by linarith
    have key: "take m q @ drop (length (e @ take m q)) (take (safeEmitLen (e @ q @ ?T)) (e @ q @ ?T)) =
        drop (length e) (take (safeEmitLen (e @ q @ ?T)) (e @ q @ ?T))"
    proof -
      let ?X = "take (safeEmitLen (e @ q @ ?T)) (e @ q @ ?T)"
      have "take (length (e @ take m q)) ?X = take (length (e @ take m q)) (e @ q @ ?T)" using le by (simp only: take_take min.absorb1)
      also have "\<dots> = e @ take m q" using mq by simp
      finally have "?X = (e @ take m q) @ drop (length (e @ take m q)) ?X" by (metis append_take_drop_id)
      then have "drop (length e) ?X = take m q @ drop (length (e @ take m q)) ?X" by (metis append.assoc append_eq_conv_conj)
      then show ?thesis by simp
    qed
    have "clean_stream rc (t # ts) = (take m q @ drop (length (e @ take m q)) (take (safeEmitLen (e @ q @ ?T)) (e @ q @ ?T)), [])"
      using False by (cases "take m q = []") (simp_all only: t clean_stream.simps f IH prod.case if_False if_True append_Nil not_False_eq_True simp_thms)
    moreover have "rc_pending rc @ concat (map snd (t # ts)) = q @ ?T" by (simp add: t q_def)
    ultimately show ?thesis unfolding key by (simp only:)
  qed
next
  case Nil
  then show ?case by simp
qed

section \<open>The properties\<close>

text \<open>
  C34. Thinking never leaks into the answer: as long as the response of a thinking model has not closed
  its thinking block, however the tokens cut the text, the client gets no answer text at all, and
  as reasoning exactly the text so far without its last seven characters, which may be the start of
  the closer. A response that ends there loses these seven characters: nothing asks the cleaner for
  them.
\<close>

theorem thinking_never_leaks:
  assumes "0 \<le> thinkId" "sfind kThinkClose (concat (map snd ts)) = None"
  shows "clean_stream (newResponseCleaner QwenChatML thinkId endId) ts =
    ([], take (length (concat (map snd ts)) - 7) (concat (map snd ts)))"
  using thinking_stream [of "newResponseCleaner QwenChatML thinkId endId" 7 ts] assms
  by (simp add: newResponseCleaner_def kThinkClose_def)

theorem thinking_never_leaks_witness:
  "clean_stream (newResponseCleaner QwenChatML 5 (- 1)) [(1, ''so </thi''), (2, ''s is it'')] = ([], ''so </thi'')"
  using thinking_never_leaks [of 5 "[(1, ''so </thi''), (2, ''s is it'')]" "- 1"] by (simp add: kThinkClose_def)



end
