(* ===== verification/StreamUtf8.thy ===== *)
theory StreamUtf8
  imports BinaryCodec "HOL-Library.Sublist"
begin

unbundle bit_operations_syntax

text \<open>
  Cutting the streamed text at codepoints: \<^verbatim>\<open>SseEncoder::utf8IncompleteTailStart\<close> of \<^verbatim>\<open>src/server/SseEncoder.cpp\<close> and
  the buffers \<^verbatim>\<open>utf8Pending\<close> and \<^verbatim>\<open>reasoningPending\<close> of \<^verbatim>\<open>ChatCompletionHandler\<close>. Tokens end anywhere, also inside a
  codepoint; an event is written with the JSON library replacing what is not UTF-8, so a cut codepoint
  would be lost.
\<close>

section \<open>The cut\<close>

definition is_cont :: "u8 \<Rightarrow> bool" where
  "is_cont c \<longleftrightarrow> c AND 0xC0 = 0x80"

function walk_back :: "u8 list \<Rightarrow> nat \<Rightarrow> nat \<Rightarrow> nat \<times> nat" where
  "walk_back s i contSeen =
     (if i > 0 \<and> is_cont (s ! (i - 1)) \<and> contSeen < 3 then walk_back s (i - 1) (contSeen + 1) else (i, contSeen))"
  by auto
termination by (relation "measure (\<lambda>(s, i, n). i)") auto

declare walk_back.simps [simp del]

text \<open>The number of continuation bytes a lead byte announces.\<close>

definition expectedCont :: "u8 \<Rightarrow> nat option" where
  "expectedCont lead =
     (if lead AND 0x80 = 0 then Some 0 else if lead AND 0xE0 = 0xC0 then Some 1
      else if lead AND 0xF0 = 0xE0 then Some 2 else if lead AND 0xF8 = 0xF0 then Some 3 else None)"

definition utf8IncompleteTailStart :: "u8 list \<Rightarrow> nat" where
  "utf8IncompleteTailStart s =
     (if s = [] then 0
      else case walk_back s (length s) 0 of
             (i, contSeen) \<Rightarrow>
               if i = 0 then length s
               else case expectedCont (s ! (i - 1)) of
                      None \<Rightarrow> length s
                    | Some n \<Rightarrow> if contSeen \<ge> n then length s else i - 1)"

section \<open>The buffer\<close>

text \<open>One token: the text to send now, none if empty, and what is held back.\<close>

definition utf8_push :: "u8 list \<Rightarrow> u8 list \<Rightarrow> u8 list list \<times> u8 list" where
  "utf8_push pending txt =
     (let p = pending @ txt; cut = utf8IncompleteTailStart p
      in if cut > 0 then ([take cut p], drop cut p) else ([], p))"

fun utf8_stream :: "u8 list \<Rightarrow> u8 list list \<Rightarrow> u8 list list" where
  "utf8_stream pending [] = (if pending \<noteq> [] then [pending] else [])"
| "utf8_stream pending (txt # txts) =
     (if txt = [] then utf8_stream pending txts
      else case utf8_push pending txt of (out, pending') \<Rightarrow> out @ utf8_stream pending' txts)"

section \<open>Whole codepoints\<close>

text \<open>A codepoint is a lead byte with the continuation bytes it announces.\<close>

definition codepoint :: "u8 list \<Rightarrow> bool" where
  "codepoint cp \<longleftrightarrow> (case cp of [] \<Rightarrow> False | lead # conts \<Rightarrow> expectedCont lead = Some (length conts) \<and> list_all is_cont conts)"

definition whole_codepoints :: "u8 list \<Rightarrow> bool" where
  "whole_codepoints s \<longleftrightarrow> (\<exists>cps. list_all codepoint cps \<and> s = concat cps)"

text \<open>The start of a codepoint that is not complete.\<close>

definition cut_codepoint :: "u8 list \<Rightarrow> bool" where
  "cut_codepoint s \<longleftrightarrow> (\<exists>t. t \<noteq> [] \<and> codepoint (s @ t))"

lemma lead_not_cont:
  assumes "expectedCont c = Some n"
  shows "\<not> is_cont c" "n \<le> 3"
proof -
  have m: "bit (0xC0 :: u8) 6" "\<not> bit (0x80 :: u8) 6" "bit (0xE0 :: u8) 6" "bit (0xF0 :: u8) 6" "bit (0x80 :: u8) 7" "bit (0xC0 :: u8) 7" "\<not> bit (0 :: u8) 7"
    by simp_all
  have down: "bit v k \<Longrightarrow> bit c k" if "c AND w = v" for w v k using that by (auto simp: bit_and_iff)
  have c6: "\<not> bit c 6" if "is_cont c"
    using that m(1,2) unfolding is_cont_def by (metis bit_and_iff)
  have c7: "bit c 7" if "is_cont c" using that down m(5) unfolding is_cont_def by blast
  have a7: "\<not> bit c 7" if "c AND 0x80 = 0" using that m(5,7) by (metis bit_and_iff)
  have l6: "bit c 6" if "c AND 0xE0 = 0xC0 \<or> c AND 0xF0 = 0xE0 \<or> c AND 0xF8 = 0xF0" using that down m(1,3,4) by blast
  show "\<not> is_cont c" using assms c6 c7 a7 l6 by (auto simp: expectedCont_def split: if_splits)
  show "n \<le> 3" using assms by (auto simp: expectedCont_def split: if_splits)
qed

lemma walk_back_conts:
  assumes "\<not> is_cont lead" "list_all is_cont conts" "n + length conts \<le> 3"
  shows "walk_back (u @ lead # conts @ v) (length u + 1 + length conts) n = (length u + 1, n + length conts)"
  using assms
proof (induction conts arbitrary: n v rule: rev_induct)
  case Nil
  then show ?case by (subst walk_back.simps) (simp add: nth_append)
next
  case (snoc c conts)
  have "(u @ lead # (conts @ [c]) @ v) ! (length u + length (conts @ [c])) = c" by (simp add: nth_append nth_Cons')
  moreover have "walk_back (u @ lead # conts @ c # v) (length u + 1 + length conts) (n + 1) = (length u + 1, n + 1 + length conts)"
    using snoc.IH [of "n + 1" "c # v"] snoc.prems by simp
  ultimately show ?case using snoc.prems by (subst walk_back.simps) simp
qed

lemma tail_start:
  assumes "expectedCont lead = Some m" "list_all is_cont conts" "length conts \<le> m"
  shows "utf8IncompleteTailStart (u @ lead # conts) = (if length conts = m then length (u @ lead # conts) else length u)"
proof -
  have "walk_back (u @ lead # conts) (length u + 1 + length conts) 0 = (length u + 1, length conts)"
    using walk_back_conts [of lead conts 0 u "[]"] lead_not_cont [OF assms(1)] assms(2,3) by simp
  then show ?thesis using assms(1,3) by (auto simp: utf8IncompleteTailStart_def nth_append)
qed

text \<open>A prefix of a text ends with at most one codepoint cut.\<close>

lemma split_codepoints:
  "list_all codepoint cps \<Longrightarrow> p @ rest = concat cps \<Longrightarrow>
   \<exists>us v. list_all codepoint us \<and> p = concat us @ v \<and> (v = [] \<or> cut_codepoint v) \<and> whole_codepoints (v @ rest)"
proof (induction cps arbitrary: p)
  case Nil
  have "whole_codepoints []" unfolding whole_codepoints_def by (rule exI [of _ "[]"]) simp
  then show ?case using Nil by (intro exI [of _ "[]"]) simp
next
  case (Cons cp cps)
  show ?case
  proof (cases "length cp \<le> length p")
    case True
    then obtain q where q: "p = cp @ q" "q @ rest = concat cps"
      using Cons.prems(2) by (metis append_eq_append_conv_if append_take_drop_id concat.simps(2) append_eq_conv_conj)
    obtain us v where "list_all codepoint us" "q = concat us @ v" "v = [] \<or> cut_codepoint v" "whole_codepoints (v @ rest)"
      using Cons.IH [OF _ q(2)] Cons.prems(1) by auto
    then show ?thesis using q(1) Cons.prems(1) by (intro exI [of _ "cp # us"] exI [of _ v]) simp
  next
    case False
    then have "p = take (length p) cp" using arg_cong [OF Cons.prems(2), of "take (length p)"] by simp
    then obtain t where t: "cp = p @ t" "t \<noteq> []" using False by (metis append_take_drop_id drop_eq_Nil)
    then have "cut_codepoint p" using Cons.prems(1) by (auto simp: cut_codepoint_def)
    moreover have "whole_codepoints (p @ rest)" using Cons.prems unfolding whole_codepoints_def by blast
    ultimately show ?thesis by (intro exI [of _ "[]"] exI [of _ p]) simp
  qed
qed

lemma tail_start_split:
  assumes us: "list_all codepoint us" and v: "v = [] \<or> cut_codepoint v"
  shows "utf8IncompleteTailStart (concat us @ v) = length (concat us)"
proof (cases "v = []")
  case True
  show ?thesis
  proof (cases us rule: rev_cases)
    case (snoc us' cp)
    then obtain lead conts where "cp = lead # conts" "expectedCont lead = Some (length conts)" "list_all is_cont conts"
      using us by (auto simp: codepoint_def split: list.splits)
    then show ?thesis using tail_start [of lead "length conts" conts "concat us'"] snoc True by simp
  qed (simp add: True utf8IncompleteTailStart_def)
next
  case False
  then obtain t where t: "t \<noteq> []" "codepoint (v @ t)" using v by (auto simp: cut_codepoint_def)
  then obtain lead conts where "v = lead # conts" "expectedCont lead = Some (length conts + length t)" "list_all is_cont conts"
    using False by (cases v) (auto simp: codepoint_def)
  then show ?thesis using tail_start [of lead "length conts + length t" conts "concat us"] t(1) by simp
qed

lemma utf8_stream_concat: "concat (utf8_stream p txts) = p @ concat txts"
proof (induction p txts rule: utf8_stream.induct)
  case (2 p w ws)
  let ?q = "p @ w"
  have "take k ?q @ drop k ?q @ r = p @ w @ r" for k r by (metis append_assoc append_take_drop_id)
  then show ?case using 2 by (simp add: utf8_push_def Let_def del: take_append drop_append)
qed simp

lemma utf8_stream_codepoints: "whole_codepoints (p @ concat txts) \<Longrightarrow> list_all whole_codepoints (utf8_stream p txts)"
proof (induction p txts rule: utf8_stream.induct)
  case (2 p w ws)
  show ?case
  proof (cases "w = []")
    case False
    obtain cps where "list_all codepoint cps" "(p @ w) @ concat ws = concat cps" using "2.prems" by (auto simp: whole_codepoints_def)
    then obtain us v where s: "list_all codepoint us" "p @ w = concat us @ v" "v = [] \<or> cut_codepoint v" "whole_codepoints (v @ concat ws)"
      using split_codepoints by metis
    have u: "whole_codepoints (concat us)" using s(1) by (auto simp: whole_codepoints_def)
    define out where "out = (if concat us = [] then [] else [concat us])"
    have r: "utf8_push p w = (out, v)"
      using tail_start_split [OF s(1,3)] s(2) by (auto simp: utf8_push_def Let_def out_def)
    then have "list_all whole_codepoints (utf8_stream v ws)" using "2.IH"(2) [OF False r [symmetric] s(4)] by simp
    then show ?thesis using False r u by (simp add: out_def)
  qed (use 2 in \<open>simp\<close>)
qed simp

lemma walk_back_bound: "walk_back s i n = (j, m) \<Longrightarrow> j + m = i + n"
proof (induction s i n rule: walk_back.induct)
  case (1 s i n)
  show ?case using "1.prems" "1.IH" by (subst (asm) walk_back.simps) (auto split: if_splits)
qed

lemma tail_bound: "length s \<le> utf8IncompleteTailStart s + 3"
proof (cases "walk_back s (length s) 0")
  case (Pair i n)
  then show ?thesis using walk_back_bound [OF Pair] lead_not_cont(2) [of "s ! (i - 1)"]
    by (auto simp: utf8IncompleteTailStart_def split: option.split)
qed

section \<open>The property\<close>



end
