(* ===== verification/PromptTrimming.thy ===== *)
theory PromptTrimming
  imports MuninWire "HOL-Library.Sublist"
begin

text \<open>
  The length discipline of the chat endpoint: \<^verbatim>\<open>src/server/PromptTrimmer.{hpp,cpp}\<close>, the part of
  \<^verbatim>\<open>ChatCompletionHandler\<close> that calls it and then appends the opener of a forced tool call, and the check of
  \<^verbatim>\<open>InferenceEngine::ensureCapacity\<close> the request meets next.

  \<^item> The chat template is an argument: a function from messages to token ids.
  \<^item> A \<^verbatim>\<open>std::size_t\<close> that counts tokens or messages is a \<open>nat\<close>; the sums that take the requested number of
    new tokens, a number of the client, are written modulo \<open>2 ^ 64\<close>.
\<close>

section \<open>Messages\<close>

datatype ChatRole = System | User | Assistant | Tool

record ToolCall =
  tc_id :: "u8 list"
  tc_name :: "u8 list"
  tc_argumentsJson :: "u8 list"

record ChatMessage =
  cm_role :: ChatRole
  cm_content :: "u8 list"
  cm_toolCalls :: "ToolCall list"
  cm_toolCallId :: "u8 list"

record TrimReport =
  tr_droppedMessages :: nat
  tr_originalPromptTokens :: nat
  tr_effectivePromptTokens :: nat
  tr_maxNewClampedFrom :: nat
  tr_maxNewClampedTo :: nat
  tr_contextExtrapolated :: bool
  tr_contextExtrapolatedBy :: nat

definition newTrimReport :: TrimReport where
  "newTrimReport = \<lparr>tr_droppedMessages = 0, tr_originalPromptTokens = 0, tr_effectivePromptTokens = 0, tr_maxNewClampedFrom = 0,
     tr_maxNewClampedTo = 0, tr_contextExtrapolated = False, tr_contextExtrapolatedBy = 0\<rparr>"

definition fired :: "TrimReport \<Rightarrow> bool" where
  "fired r \<longleftrightarrow> tr_droppedMessages r > 0 \<or> tr_maxNewClampedFrom r > 0 \<or> tr_contextExtrapolated r"

definition kCapSlack :: nat where "kCapSlack = 4"

definition kTrimIterLimit :: nat where "kTrimIterLimit = 20"

section \<open>The requested length\<close>

text \<open>An integer field of the request body: applied when positive; another type is an error.\<close>

definition optInt :: "(string \<times> json) list \<Rightarrow> string \<Rightarrow> int option expected" where
  "optInt body key =
     (case map_of body key of
        None \<Rightarrow> Inr None
      | Some JNull \<Rightarrow> Inr None
      | Some (JUnsigned n) \<Rightarrow> Inr (Some (signed_take_bit 63 (int n)))
      | Some (JInteger i) \<Rightarrow> Inr (Some (signed_take_bit 63 i))
      | Some _ \<Rightarrow> Inl (key @ '' must be an integer''))"

definition readSize :: "(string \<times> json) list \<Rightarrow> string \<Rightarrow> nat \<Rightarrow> nat expected" where
  "readSize body key dst =
     bind_result (optInt body key) (\<lambda>v. case v of Some n \<Rightarrow> Inr (if n > 0 then nat n else dst) | None \<Rightarrow> Inr dst)"

definition read_max_tokens :: "(string \<times> json) list \<Rightarrow> nat expected" where
  "read_max_tokens body = bind_result (readSize body ''max_tokens'' 0) (readSize body ''max_completion_tokens'')"

section \<open>Dropping messages\<close>

fun last_user_loop :: "ChatMessage list \<Rightarrow> nat \<Rightarrow> nat option" where
  "last_user_loop msgs 0 = None"
| "last_user_loop msgs (Suc i) = (if cm_role (msgs ! i) = User then Some i else last_user_loop msgs i)"

fun drop_scan :: "nat option \<Rightarrow> nat \<Rightarrow> ChatMessage list \<Rightarrow> nat option" where
  "drop_scan lastUserIdx i [] = None"
| "drop_scan lastUserIdx i (m # ms) =
     (if cm_role m = System then drop_scan lastUserIdx (Suc i) ms
      else if lastUserIdx = Some i then drop_scan lastUserIdx (Suc i) ms else Some i)"

definition dropIdx :: "ChatMessage list \<Rightarrow> nat option" where
  "dropIdx msgs = drop_scan (last_user_loop msgs (length msgs)) 0 msgs"

definition erase_at :: "nat \<Rightarrow> 'a list \<Rightarrow> 'a list" where
  "erase_at i xs = take i xs @ drop (Suc i) xs"

definition freed_estimate :: "ChatMessage \<Rightarrow> nat" where
  "freed_estimate m =
     (length (cm_content m) + sum_list (map (\<lambda>c. length (tc_name c) + length (tc_argumentsJson c)) (cm_toolCalls m))) div 4 + 16"

lemma drop_scan_bounds: "drop_scan lu i ms = Some j \<Longrightarrow> i \<le> j \<and> j < i + length ms"
  by (induction lu i ms rule: drop_scan.induct) (fastforce split: if_splits)+

lemma dropIdx_bound: "dropIdx msgs = Some i \<Longrightarrow> i < length msgs"
  using drop_scan_bounds [of _ 0 msgs i] by (auto simp: dropIdx_def)

function drop_batch :: "nat \<Rightarrow> nat \<Rightarrow> ChatMessage list \<Rightarrow> nat \<Rightarrow> ChatMessage list \<times> nat" where
  "drop_batch overflow freedEstimate msgs dropped =
     (if freedEstimate < overflow then
        (case dropIdx msgs of
           None \<Rightarrow> (msgs, dropped)
         | Some i \<Rightarrow> drop_batch overflow (freedEstimate + freed_estimate (msgs ! i)) (erase_at i msgs) (Suc dropped))
      else (msgs, dropped))"
  by auto
termination
  by (relation "measure (\<lambda>(ov, f, msgs, dr). length msgs)") (auto simp: erase_at_def dest!: dropIdx_bound)

declare drop_batch.simps [simp del]

text \<open>At most \<open>k\<close> rounds of dropping and encoding again.\<close>

fun trim_loop ::
  "(ChatMessage list \<Rightarrow> int list) \<Rightarrow> nat \<Rightarrow> nat \<Rightarrow> ChatMessage list \<Rightarrow> int list \<Rightarrow> nat \<Rightarrow> ChatMessage list \<times> int list \<times> nat" where
  "trim_loop encode maxContextTokens 0 msgs promptIds dropped = (msgs, promptIds, dropped)"
| "trim_loop encode maxContextTokens (Suc k) msgs promptIds dropped =
     (if length promptIds + kCapSlack + 1 \<le> maxContextTokens then (msgs, promptIds, dropped)
      else
        case drop_batch (length promptIds + kCapSlack + 1 - maxContextTokens) 0 msgs dropped of
          (msgs', dropped') \<Rightarrow>
            if dropped' = dropped then (msgs, promptIds, dropped)
            else trim_loop encode maxContextTokens k msgs' (encode msgs') dropped')"

record TrimResult =
  tm_ok :: bool
  tm_msgs :: "ChatMessage list"
  tm_promptIds :: "int list"
  tm_maxNew :: nat
  tm_report :: TrimReport

definition applyPromptTrim ::
  "(ChatMessage list \<Rightarrow> int list) \<Rightarrow> nat \<Rightarrow> nat \<Rightarrow> ChatMessage list \<Rightarrow> int list \<Rightarrow> nat \<Rightarrow> TrimReport \<Rightarrow> TrimResult" where
  "applyPromptTrim encode maxContextTokens modelContextLength msgs promptIds maxNew report =
     (case trim_loop encode maxContextTokens kTrimIterLimit msgs promptIds (tr_droppedMessages report) of
        (msgs', ids, dropped) \<Rightarrow>
          let r1 = report\<lparr>tr_originalPromptTokens := length promptIds, tr_droppedMessages := dropped\<rparr>;
              Tp = length ids
          in if Tp + kCapSlack + 1 > maxContextTokens
             then \<lparr>tm_ok = False, tm_msgs = msgs', tm_promptIds = ids, tm_maxNew = maxNew, tm_report = r1\<rparr>
             else
               let clamp = (Tp + maxNew + kCapSlack) mod 2 ^ 64 > maxContextTokens;
                   newMax = maxContextTokens - Tp - kCapSlack;
                   r2 = (if clamp then r1\<lparr>tr_maxNewClampedFrom := maxNew, tr_maxNewClampedTo := newMax\<rparr> else r1);
                   r3 = r2\<lparr>tr_effectivePromptTokens := Tp\<rparr>;
                   r4 = (if modelContextLength > 0 \<and> Tp > modelContextLength
                         then r3\<lparr>tr_contextExtrapolated := True, tr_contextExtrapolatedBy := Tp - modelContextLength\<rparr> else r3)
               in \<lparr>tm_ok = True, tm_msgs = msgs', tm_promptIds = ids, tm_maxNew = (if clamp then newMax else maxNew), tm_report = r4\<rparr>)"

text \<open>Stop strings: the first token of each, once.\<close>

definition extendStopIds :: "(u8 list \<Rightarrow> int list) \<Rightarrow> u8 list list \<Rightarrow> int list \<Rightarrow> int list" where
  "extendStopIds encode strings stopIds =
     fold (\<lambda>s ids. if s = [] then ids
                   else case encode s of [] \<Rightarrow> ids | i # _ \<Rightarrow> if i \<in> set ids then ids else ids @ [i]) strings stopIds"

section \<open>The handler and the engine\<close>

text \<open>The prompt a request is run with: trimmed, then extended by the opener of a forced tool call.\<close>

definition prepare_prompt ::
  "(ChatMessage list \<Rightarrow> int list) \<Rightarrow> nat \<Rightarrow> nat \<Rightarrow> nat \<Rightarrow> int list \<Rightarrow> bool \<Rightarrow> ChatMessage list \<Rightarrow> nat \<Rightarrow> (int list \<times> nat) option" where
  "prepare_prompt encode maxContextTokens modelContextLength defaultMaxNew openerIds required msgs maxTokens =
     (let maxNew = (if maxTokens > 0 then maxTokens else defaultMaxNew);
          t = applyPromptTrim encode maxContextTokens modelContextLength msgs (encode msgs) maxNew newTrimReport
      in if \<not> tm_ok t then None
         else Some (tm_promptIds t @ (if required then openerIds else []), tm_maxNew t))"

definition ensureCapacity_check :: "nat \<Rightarrow> nat \<Rightarrow> nat \<Rightarrow> unit result" where
  "ensureCapacity_check maxContextTokens Tp maxNew =
     (if (Tp + maxNew + 4) mod 2 ^ 64 > maxContextTokens
      then Inl (RuntimeError ''generate: request needs more tokens of KV than the engine is configured for'') else Inr ())"

section \<open>What is kept\<close>

text \<open>System messages and the last user message are protected; the others may be dropped.\<close>

definition protected_by :: "ChatMessage \<Rightarrow> ChatMessage list \<Rightarrow> bool" where
  "protected_by m later \<longleftrightarrow> cm_role m = System \<or> (cm_role m = User \<and> (\<forall>x \<in> set later. cm_role x \<noteq> User))"

fun protected :: "ChatMessage list \<Rightarrow> ChatMessage list" where
  "protected [] = []"
| "protected (m # ms) = (if protected_by m ms then m # protected ms else protected ms)"

fun droppable :: "ChatMessage list \<Rightarrow> ChatMessage list" where
  "droppable [] = []"
| "droppable (m # ms) = (if protected_by m ms then droppable ms else m # droppable ms)"

lemma last_user_None: "n \<le> length msgs \<Longrightarrow> last_user_loop msgs n = None \<longleftrightarrow> (\<forall>j < n. cm_role (msgs ! j) \<noteq> User)"
  by (induction n) (auto simp: less_Suc_eq)

lemma last_user_Some:
  "n \<le> length msgs \<Longrightarrow> last_user_loop msgs n = Some j \<longleftrightarrow> j < n \<and> cm_role (msgs ! j) = User \<and> (\<forall>k. j < k \<and> k < n \<longrightarrow> cm_role (msgs ! k) \<noteq> User)"
  by (induction n) (auto simp: less_Suc_eq)

lemma last_user_at:
  assumes "msgs = pre @ m # later"
  shows "last_user_loop msgs (length msgs) = Some (length pre) \<longleftrightarrow> cm_role m = User \<and> (\<forall>x \<in> set later. cm_role x \<noteq> User)"
proof -
  have "(\<forall>k. length pre < k \<and> k < length msgs \<longrightarrow> cm_role (msgs ! k) \<noteq> User) \<longleftrightarrow> (\<forall>i < length later. cm_role (later ! i) \<noteq> User)"
  proof (intro iffI allI impI)
    fix i assume a: "\<forall>k. length pre < k \<and> k < length msgs \<longrightarrow> cm_role (msgs ! k) \<noteq> User" "i < length later"
    then show "cm_role (later ! i) \<noteq> User" using a(1) [rule_format, of "length pre + Suc i"] assms by (simp add: nth_append)
  next
    fix k assume a: "\<forall>i < length later. cm_role (later ! i) \<noteq> User" "length pre < k \<and> k < length msgs"
    then show "cm_role (msgs ! k) \<noteq> User" using a(1) [rule_format, of "k - Suc (length pre)"] assms by (auto simp: nth_append nth_Cons')
  qed
  then show ?thesis unfolding last_user_Some [OF order_refl] all_set_conv_all_nth using assms by auto
qed

lemma drop_scan_spec:
  assumes "msgs = pre @ ms"
  shows "case drop_scan (last_user_loop msgs (length msgs)) (length pre) ms of
      None \<Rightarrow> droppable ms = []
    | Some i \<Rightarrow> length pre \<le> i \<and> (let ms' = erase_at (i - length pre) ms in
        droppable ms = ms ! (i - length pre) # droppable ms' \<and> protected ms' = protected ms \<and> ((\<exists>y \<in> set ms. cm_role y = User) = (\<exists>y \<in> set ms'. cm_role y = User)))"
  using assms
proof (induction ms arbitrary: pre)
  case (Cons m ms)
  let ?lu = "last_user_loop msgs (length msgs)"
  have prot: "protected_by m ms \<longleftrightarrow> cm_role m = System \<or> ?lu = Some (length pre)"
    using last_user_at [OF Cons.prems] by (auto simp: protected_by_def)
  show ?case
  proof (cases "protected_by m ms")
    case False
    then have "?lu \<noteq> Some (length pre)" "cm_role m \<noteq> System" using prot by auto
    moreover have "(\<exists>y \<in> set (m # ms). cm_role y = User) = (\<exists>y \<in> set ms. cm_role y = User)"
      using False by (auto simp: protected_by_def)
    ultimately show ?thesis using False by (auto simp: erase_at_def)
  next
    case True
    have step: "drop_scan ?lu (length pre) (m # ms) = drop_scan ?lu (length (pre @ [m])) ms" using True prot by auto
    have IH: "case drop_scan ?lu (length (pre @ [m])) ms of None \<Rightarrow> droppable ms = []
      | Some i \<Rightarrow> length (pre @ [m]) \<le> i \<and> (let ms' = erase_at (i - length (pre @ [m])) ms in
        droppable ms = ms ! (i - length (pre @ [m])) # droppable ms' \<and> protected ms' = protected ms \<and> ((\<exists>y \<in> set ms. cm_role y = User) = (\<exists>y \<in> set ms'. cm_role y = User)))"
      by (rule Cons.IH) (use Cons.prems in simp)
    show ?thesis
    proof (cases "drop_scan ?lu (length (pre @ [m])) ms")
      case None
      then show ?thesis using IH step True by simp
    next
      case (Some i)
      define ms' where "ms' = erase_at (i - Suc (length pre)) ms"
      have I: "Suc (length pre) \<le> i" "droppable ms = ms ! (i - Suc (length pre)) # droppable ms'" "protected ms' = protected ms"
        "(\<exists>y \<in> set ms. cm_role y = User) = (\<exists>y \<in> set ms'. cm_role y = User)"
        using IH Some by (auto simp: Let_def ms'_def)
      have "i - length pre = Suc (i - Suc (length pre))" using I(1) by simp
      then have "erase_at (i - length pre) (m # ms) = m # ms'" by (simp add: erase_at_def ms'_def)
      moreover have "(m # ms) ! (i - length pre) = ms ! (i - Suc (length pre))" using I(1) by (simp add: nth_Cons')
      moreover have "protected_by m ms'" using True I(4) by (auto simp: protected_by_def)
      ultimately show ?thesis using Some step I True by (auto simp: Let_def)
    qed
  qed
qed simp

text \<open>One message dropped: the oldest that may be.\<close>

lemma dropIdx_spec:
  "dropIdx msgs = None \<Longrightarrow> droppable msgs = []"
  "dropIdx msgs = Some i \<Longrightarrow> droppable msgs = msgs ! i # droppable (erase_at i msgs) \<and> protected (erase_at i msgs) = protected msgs"
  using drop_scan_spec [of msgs "[]" msgs] by (auto simp: dropIdx_def Let_def split: option.splits)

lemma erase_at_subseq: "subseq (erase_at i xs) xs"
proof -
  have "subseq (take i xs @ drop (Suc i) xs) (take i xs @ drop i xs)"
    using suffix_imp_subseq [OF suffix_drop, of 1 "drop i xs"] by (intro list_emb_append_mono) simp_all
  then show ?thesis by (simp add: erase_at_def)
qed

text \<open>What \<open>n\<close> drops leave of a conversation.\<close>

definition trimmed :: "nat \<Rightarrow> ChatMessage list \<Rightarrow> ChatMessage list \<Rightarrow> bool" where
  "trimmed n msgs msgs' \<longleftrightarrow> subseq msgs' msgs \<and> protected msgs' = protected msgs \<and> droppable msgs' = drop n (droppable msgs) \<and>
     n \<le> length (droppable msgs)"

lemma trimmed_refl: "trimmed 0 msgs msgs"
  by (simp add: trimmed_def)

lemma length_parts: "length ms = length (protected ms) + length (droppable ms)"
  by (induction ms) auto

lemma trimmed_0: "trimmed 0 a b \<Longrightarrow> b = a"
  using subseq_same_length [of b a] length_parts [of a] length_parts [of b] by (simp add: trimmed_def)

lemma trimmed_trans: "trimmed n a b \<Longrightarrow> trimmed m b c \<Longrightarrow> trimmed (n + m) a c"
  by (auto simp: trimmed_def add.commute intro: subseq_order.order_trans)

lemma trimmed_one: "dropIdx msgs = Some i \<Longrightarrow> trimmed 1 msgs (erase_at i msgs)"
  using dropIdx_spec(2) [of msgs i] erase_at_subseq [of i msgs] by (simp add: trimmed_def)

lemma drop_batch_trimmed:
  "drop_batch ov f msgs dr = (msgs', dr') \<Longrightarrow> dr \<le> dr' \<and> trimmed (dr' - dr) msgs msgs' \<and> (f < ov \<and> dr' = dr \<longrightarrow> droppable msgs = [])"
proof (induction ov f msgs dr rule: drop_batch.induct)
  case (1 ov f msgs dr)
  show ?case
  proof (cases "f < ov \<and> dropIdx msgs \<noteq> None")
    case True
    then obtain i where i: "dropIdx msgs = Some i" by auto
    have r: "drop_batch ov (f + freed_estimate (msgs ! i)) (erase_at i msgs) (Suc dr) = (msgs', dr')"
      using "1.prems" True i by (simp add: drop_batch.simps [of ov f])
    from "1.IH" [OF _ i r] True have IH: "Suc dr \<le> dr'" "trimmed (dr' - Suc dr) (erase_at i msgs) msgs'" by auto
    then have "trimmed (1 + (dr' - Suc dr)) msgs msgs'" using trimmed_trans [OF trimmed_one [OF i]] by blast
    moreover have "1 + (dr' - Suc dr) = dr' - dr" using IH(1) by simp
    ultimately show ?thesis using IH(1) by simp
  next
    case False
    then have "msgs' = msgs" "dr' = dr" using "1.prems" by (auto simp: drop_batch.simps [of ov f] split: if_splits)
    then show ?thesis using False dropIdx_spec(1) [of msgs] by (auto simp: trimmed_refl)
  qed
qed

lemma trim_loop_spec:
  "trim_loop enc ctx k msgs ids dr = (msgs', ids', dr') \<Longrightarrow>
   dr \<le> dr' \<and> trimmed (dr' - dr) msgs msgs' \<and> ids' = (if dr' = dr then ids else enc msgs') \<and>
   (length ids + kCapSlack + 1 \<le> ctx \<longrightarrow> dr' = dr) \<and>
   (length ids' + kCapSlack + 1 \<le> ctx \<or> droppable msgs' = [] \<or> k \<le> dr' - dr)"
proof (induction k arbitrary: msgs ids dr)
  case (Suc k)
  obtain ms d where b: "drop_batch (length ids + kCapSlack + 1 - ctx) 0 msgs dr = (ms, d)" by fastforce
  note B = drop_batch_trimmed [OF b]
  consider (fits) "length ids + kCapSlack + 1 \<le> ctx" | (stuck) "\<not> length ids + kCapSlack + 1 \<le> ctx" "d = dr"
    | (step) "\<not> length ids + kCapSlack + 1 \<le> ctx" "d \<noteq> dr" by blast
  then show ?case
  proof cases
    case fits
    then show ?thesis using Suc.prems by (auto simp: trimmed_refl)
  next
    case stuck
    then have "droppable msgs = []" using B by auto
    then show ?thesis using Suc.prems stuck b by (auto simp: trimmed_refl)
  next
    case step
    then have r: "trim_loop enc ctx k ms (enc ms) d = (msgs', ids', dr')" using Suc.prems b by auto
    note IH = Suc.IH [OF r]
    have "trimmed (dr' - dr) msgs msgs'" using trimmed_trans [of "d - dr" msgs ms "dr' - d" msgs'] B IH by simp
    moreover have "ids' = enc msgs'"
    proof (cases "dr' = d")
      case True
      then have "msgs' = ms" using IH trimmed_0 [of ms msgs'] by simp
      then show ?thesis using IH True by simp
    qed (use IH in simp)
    ultimately show ?thesis using B IH step by auto
  qed
qed (simp add: trimmed_refl)

lemma readSize_bound: "readSize body key d = Inr n \<Longrightarrow> d < 2 ^ 63 \<Longrightarrow> n < 2 ^ 63"
proof -
  have "signed_take_bit 63 i < 2 ^ 63" for i :: int by (rule signed_take_bit_int_less_exp)
  then have "nat (signed_take_bit 63 i) < 2 ^ 63" for i :: int
    using nat_mono_iff [of "2 ^ 63" "signed_take_bit 63 i"] by simp
  then show "readSize body key d = Inr n \<Longrightarrow> d < 2 ^ 63 \<Longrightarrow> n < 2 ^ 63"
    by (auto simp: readSize_def optInt_def split: option.splits json.splits if_splits)
qed

text \<open>The sum with the requested length does not wrap for a number that fits a signed 64-bit integer.\<close>

lemma applyPromptTrim_ok:
  assumes t: "applyPromptTrim enc ctx mctx msgs ids maxNew r = t" and ok: "tm_ok t" and b: "ctx < 2 ^ 62" "maxNew < 2 ^ 63"
  shows "length (tm_promptIds t) + 1 + kCapSlack \<le> ctx" "tm_maxNew t = min maxNew (ctx - length (tm_promptIds t) - kCapSlack)"
    "tr_maxNewClampedFrom (tm_report t) = (if length (tm_promptIds t) + maxNew + kCapSlack > ctx then maxNew else tr_maxNewClampedFrom r)"
proof -
  obtain ms js d where l: "trim_loop enc ctx kTrimIterLimit msgs ids (tr_droppedMessages r) = (ms, js, d)" by (metis prod_cases3)
  have fit: "length js + kCapSlack + 1 \<le> ctx" "tm_promptIds t = js" using t ok l by (auto simp: applyPromptTrim_def Let_def split: if_splits)
  then have m: "(length js + maxNew + kCapSlack) mod 2 ^ 64 = length js + maxNew + kCapSlack" using b by (simp add: kCapSlack_def)
  show "length (tm_promptIds t) + 1 + kCapSlack \<le> ctx" using fit by simp
  show "tm_maxNew t = min maxNew (ctx - length (tm_promptIds t) - kCapSlack)"
    "tr_maxNewClampedFrom (tm_report t) = (if length (tm_promptIds t) + maxNew + kCapSlack > ctx then maxNew else tr_maxNewClampedFrom r)"
    using t[symmetric] l fit m by (auto simp: applyPromptTrim_def Let_def min_def simp del: mod_less)
qed

section \<open>The properties\<close>


text \<open>A template that spends a token per byte; a system prompt, an old exchange and a question.\<close>

definition plain_message :: "ChatRole \<Rightarrow> nat \<Rightarrow> ChatMessage" where
  "plain_message role n = \<lparr>cm_role = role, cm_content = replicate n 65, cm_toolCalls = [], cm_toolCallId = []\<rparr>"

definition byte_template :: "ChatMessage list \<Rightarrow> int list" where
  "byte_template msgs = concat (map (\<lambda>m. replicate (length (cm_content m)) 1) msgs)"

definition demo_chat :: "ChatMessage list" where
  "demo_chat = [plain_message System 3, plain_message User 8, plain_message Assistant 9, plain_message User 4]"

lemma demo_trim:
  "trim_loop byte_template 20 kTrimIterLimit demo_chat (byte_template demo_chat) 0 = ([plain_message System 3, plain_message User 4], replicate 7 1, 2)"
  by code_simp


text \<open>
  C38. A forced tool call breaks the fit: its opener is appended to the prompt after trimming. Whenever
  the output ceiling was clamped, so that prompt, new tokens and slack fill the context exactly, any
  opener makes the capacity check of the engine throw, although the request was accepted.
\<close>

theorem forced_opener_overflows:
  assumes p: "prepare_prompt enc ctx mctx defaultMaxNew openerIds True msgs maxTokens = Some (ids, maxNew)"
    and b: "ctx < 2 ^ 62" "maxTokens < 2 ^ 63" "0 < maxTokens" "openerIds \<noteq> []" "length openerIds < 2 ^ 62"
    and clamped: "maxNew < maxTokens"
  shows "ensureCapacity_check ctx (length ids) maxNew = Inl (RuntimeError ''generate: request needs more tokens of KV than the engine is configured for'') \<and>
    ensureCapacity_check ctx (length ids - length openerIds) maxNew = Inr ()"
proof -
  define t where "t = applyPromptTrim enc ctx mctx msgs (enc msgs) maxTokens newTrimReport"
  have ok: "tm_ok t" "ids = tm_promptIds t @ openerIds" "maxNew = tm_maxNew t"
    using p b(3) by (auto simp: prepare_prompt_def Let_def t_def split: if_splits)
  note T = applyPromptTrim_ok(1,2) [OF t_def [symmetric] ok(1) b(1,2)]
  have sum: "length (tm_promptIds t) + maxNew + 4 = ctx" using T clamped ok(3) by (auto simp: kCapSlack_def)
  moreover have "0 < length openerIds" using b(4) by simp
  ultimately have "ctx < length ids + maxNew + 4" "length ids + maxNew + 4 < 2 ^ 64" using ok(2) b(1,5) by auto
  then show ?thesis using sum b(1) ok(2) by (simp add: ensureCapacity_check_def)
qed

theorem forced_opener_overflows_witness:
  "ensureCapacity_check 20 8 9 = Inl (RuntimeError ''generate: request needs more tokens of KV than the engine is configured for'')"
proof -
  have "prepare_prompt byte_template 20 0 5 [7] True demo_chat 100 = Some (replicate 7 1 @ [7], 9)"
    unfolding prepare_prompt_def applyPromptTrim_def newTrimReport_def by (simp add: demo_trim kCapSlack_def Let_def)
  then show ?thesis using forced_opener_overflows [of byte_template 20 0 5 "[7]" demo_chat 100 "replicate 7 1 @ [7]" 9] by simp
qed

end
