(* ===== verification/AttachedModels.thy ===== *)
theory AttachedModels
  imports Prelude "HOL-Library.Multiset"
begin

text \<open>
  The worker-side cache of materialised models (\<^verbatim>\<open>src/runtime/serving/AttachedModelPool.hpp\<close>) and
  the threads that call it.

  The members guarded by the mutex are the record \<open>ModelPool\<close>; the text between two points where
  \<^verbatim>\<open>acquire\<close> gives the mutex up (a wait on the condition variable, the unlocked factory call, the
  return) is one function on it: \<open>acquire_round\<close>, \<open>drain_round\<close>, \<open>switch_end\<close>. A thread's position
  between these functions is a \<open>PC\<close>. \<open>pool_step\<close> interleaves the threads: any of them may take its
  next section, any handle may be reset, moved or destroyed, a waiting thread may wake
  spuriously, and the hash map may change its iteration order. The factory is foreign code: what it
  does in a call is an argument of the step (\<open>FactoryOutcome\<close>).

  A payload is named by the number of the factory call that made it, so a payload made later is
  never mistaken for one that was freed. The reference count is an \<^verbatim>\<open>int\<close>; it is proved to be the
  number of live handles, so it overflows only with \<open>2 ^ 31\<close> of them. \<^verbatim>\<open>_clock\<close> keeps its 64 bits.
  Reading members (\<^verbatim>\<open>capacity\<close>, \<^verbatim>\<open>residentCount\<close>, \<^verbatim>\<open>snapshotResident\<close>) change nothing.
\<close>

section \<open>The pool and its handles\<close>

record PoolSlot =
  sl_payload :: nat
  sl_refs :: int
  sl_lastUsed :: u64

record ModelPool =
  mp_known :: "string list"
  mp_resident :: "(string \<times> PoolSlot) list"
  mp_capacity :: nat
  mp_switching :: bool
  mp_clock :: u64

text \<open>\<open>ph_pool\<close> tells whether the back pointer of the handle is set.\<close>

record PoolHandle =
  ph_pool :: bool
  ph_id :: string
  ph_payload :: "nat option"

definition emptyHandle :: PoolHandle where
  "emptyHandle = \<lparr>ph_pool = False, ph_id = [], ph_payload = None\<rparr>"

definition newModelPool :: "nat \<Rightarrow> string list \<Rightarrow> ModelPool" where
  "newModelPool capacity knownModelIds =
     \<lparr>mp_known = knownModelIds, mp_resident = [], mp_capacity = (if capacity = 0 then 1 else capacity),
      mp_switching = False, mp_clock = 0\<rparr>"

definition update_slot :: "string \<Rightarrow> (PoolSlot \<Rightarrow> PoolSlot) \<Rightarrow> (string \<times> PoolSlot) list \<Rightarrow> (string \<times> PoolSlot) list" where
  "update_slot i f r = map (\<lambda>(k, s). if k = i then (k, f s) else (k, s)) r"

text \<open>A hit pins the slot and stamps it with the next tick of the clock.\<close>

definition pool_hit :: "string \<Rightarrow> ModelPool \<Rightarrow> (ModelPool \<times> PoolHandle) option" where
  "pool_hit modelId p =
     (case map_of (mp_resident p) modelId of
        None \<Rightarrow> None
      | Some s \<Rightarrow>
          Some (p\<lparr>mp_clock := mp_clock p + 1,
                  mp_resident := update_slot modelId
                    (\<lambda>s. s\<lparr>sl_refs := sl_refs s + 1, sl_lastUsed := mp_clock p + 1\<rparr>) (mp_resident p)\<rparr>,
                \<lparr>ph_pool = True, ph_id = modelId, ph_payload = Some (sl_payload s)\<rparr>))"

text \<open>The scan for the victim, with the loop variables \<^verbatim>\<open>victim\<close> and \<^verbatim>\<open>oldest\<close>.\<close>

fun pool_victim_scan :: "string \<Rightarrow> u64 \<Rightarrow> (string \<times> PoolSlot) list \<Rightarrow> string" where
  "pool_victim_scan victim oldest [] = victim"
| "pool_victim_scan victim oldest ((i, s) # r) =
     (if sl_refs s = 0 \<and> sl_lastUsed s < oldest then pool_victim_scan i (sl_lastUsed s) r
      else pool_victim_scan victim oldest r)"

definition pool_victim :: "(string \<times> PoolSlot) list \<Rightarrow> string" where
  "pool_victim r = pool_victim_scan [] (- 1) r"

definition erase_slot :: "string \<Rightarrow> (string \<times> PoolSlot) list \<Rightarrow> (string \<times> PoolSlot) list" where
  "erase_slot i r = filter (\<lambda>e. fst e \<noteq> i) r"

lemma pool_victim_scan_cases: "pool_victim_scan v old r = v \<or> pool_victim_scan v old r \<in> fst ` set r"
  by (induction v old r rule: pool_victim_scan.induct) auto

lemma pool_victim_resident: "pool_victim r \<noteq> [] \<Longrightarrow> pool_victim r \<in> fst ` set r"
  using pool_victim_scan_cases [of "[]" "- 1" r] by (auto simp: pool_victim_def)

lemma erase_slot_shorter: "i \<in> fst ` set r \<Longrightarrow> length (erase_slot i r) < length r"
  by (auto simp: erase_slot_def intro!: length_filter_less)

text \<open>The loop that makes room; the flag tells that every slot is pinned and the thread waits.\<close>

function make_room :: "nat \<Rightarrow> (string \<times> PoolSlot) list \<Rightarrow> (string \<times> PoolSlot) list \<times> bool" where
  "make_room capacity r =
     (if length r \<ge> capacity then
        (let victim = pool_victim r in
         if victim = [] then (r, True) else make_room capacity (erase_slot victim r))
      else (r, False))"
  by pat_completeness auto
termination
  by (relation "measure (\<lambda>(_, r). length r)") (auto intro: erase_slot_shorter pool_victim_resident)

declare make_room.simps [simp del]

text \<open>Where a thread stands: not in \<^verbatim>\<open>acquire\<close>; before its first lock; woken from, or asleep in, the wait
  for another switch; woken from, or asleep in, the wait for a release, holding the switch token;
  in the factory call; left by an exception.\<close>

datatype PC =
    Outside
  | Called string
  | Awake string
  | SwitchWaiting string
  | Draining string
  | DrainWaiting string
  | Materializing string
  | Failed exn

definition drain_round :: "string \<Rightarrow> ModelPool \<Rightarrow> ModelPool \<times> PC" where
  "drain_round modelId p =
     (let (r, waits) = make_room (mp_capacity p) (mp_resident p) in
      (p\<lparr>mp_resident := r\<rparr>, if waits then DrainWaiting modelId else Materializing modelId))"

definition acquire_round :: "string \<Rightarrow> ModelPool \<Rightarrow> ModelPool \<times> PC \<times> PoolHandle list" where
  "acquire_round modelId p =
     (case pool_hit modelId p of
        Some (p', h) \<Rightarrow> (p', Outside, [h])
      | None \<Rightarrow>
          if mp_switching p then (p, SwitchWaiting modelId, [])
          else (let (p', pc) = drain_round modelId (p\<lparr>mp_switching := True\<rparr>) in (p', pc, [])))"

definition acquire_entry :: "string \<Rightarrow> ModelPool \<Rightarrow> ModelPool \<times> PC \<times> PoolHandle list" where
  "acquire_entry modelId p =
     (if modelId \<notin> set (mp_known p) then
        (p, Failed (RuntimeError (''AttachedModelPool: unknown model '' @ [CHR 0x27] @ modelId @ [CHR 0x27])), [])
      else acquire_round modelId p)"

datatype FactoryOutcome = Made | ReturnedNull | Threw string | ThrewOther

fun factory_err :: "FactoryOutcome \<Rightarrow> string" where
  "factory_err (Threw what) = what"
| "factory_err ThrewOther = ''unknown factory exception''"
| "factory_err _ = []"

text \<open>The section after the factory call; \<open>n\<close> names the payload a successful call made. \<^verbatim>\<open>emplace\<close>
  keeps a slot that is already there.\<close>

definition emplace_slot :: "string \<Rightarrow> PoolSlot \<Rightarrow> (string \<times> PoolSlot) list \<Rightarrow> (string \<times> PoolSlot) list" where
  "emplace_slot i s r = (if i \<in> fst ` set r then r else r @ [(i, s)])"

definition switch_end :: "string \<Rightarrow> FactoryOutcome \<Rightarrow> nat \<Rightarrow> ModelPool \<Rightarrow> ModelPool \<times> PC \<times> PoolHandle list" where
  "switch_end modelId res n p =
     (let p1 = p\<lparr>mp_switching := False\<rparr> in
      if res \<noteq> Made then
        (p1, Failed (RuntimeError (''AttachedModelPool: materialize '' @ [CHR 0x27] @ modelId @ [CHR 0x27] @ '' failed'' @
               (if factory_err res = [] then [] else '': '' @ factory_err res))), [])
      else
        (let clk = mp_clock p1 + 1;
             r = emplace_slot modelId \<lparr>sl_payload = n, sl_refs = 1, sl_lastUsed = clk\<rparr> (mp_resident p1)
         in (p1\<lparr>mp_clock := clk, mp_resident := r\<rparr>, Outside,
             [\<lparr>ph_pool = True, ph_id = modelId, ph_payload = map_option sl_payload (map_of r modelId)\<rparr>])))"

text \<open>\<^verbatim>\<open>release\<close>; the flag tells whether it notified.\<close>

definition pool_release :: "string \<Rightarrow> ModelPool \<Rightarrow> ModelPool \<times> bool" where
  "pool_release modelId p =
     (case map_of (mp_resident p) modelId of
        None \<Rightarrow> (p, False)
      | Some s \<Rightarrow>
          if sl_refs s > 0 then
            (p\<lparr>mp_resident := update_slot modelId (\<lambda>s. s\<lparr>sl_refs := sl_refs s - 1\<rparr>) (mp_resident p)\<rparr>,
             sl_refs s - 1 = 0)
          else (p, False))"

section \<open>The threads\<close>

text \<open>\<open>pw_handles\<close> are the handle objects of all threads; \<open>pw_made\<close> counts the payloads made.\<close>

record PoolWorld =
  pw_pool :: ModelPool
  pw_pcs :: "nat \<Rightarrow> PC"
  pw_handles :: "PoolHandle list"
  pw_made :: nat

definition initPoolWorld :: "nat \<Rightarrow> string list \<Rightarrow> PoolWorld" where
  "initPoolWorld capacity ids =
     \<lparr>pw_pool = newModelPool capacity ids, pw_pcs = (\<lambda>_. Outside), pw_handles = [], pw_made = 0\<rparr>"

fun woken :: "PC \<Rightarrow> PC" where
  "woken (SwitchWaiting i) = Awake i"
| "woken (DrainWaiting i) = Draining i"
| "woken pc = pc"

definition notify_all :: "bool \<Rightarrow> (nat \<Rightarrow> PC) \<Rightarrow> nat \<Rightarrow> PC" where
  "notify_all b pcs = (if b then woken \<circ> pcs else pcs)"

definition handle_reset :: "nat \<Rightarrow> PoolWorld \<Rightarrow> PoolWorld" where
  "handle_reset k w =
     (let h = pw_handles w ! k in
      if ph_pool h then
        (let (p, b) = pool_release (ph_id h) (pw_pool w) in
         w\<lparr>pw_pool := p, pw_pcs := notify_all b (pw_pcs w),
           pw_handles := (pw_handles w)[k := h\<lparr>ph_pool := False, ph_payload := None\<rparr>]\<rparr>)
      else w)"

definition handle_destroy :: "nat \<Rightarrow> PoolWorld \<Rightarrow> PoolWorld" where
  "handle_destroy k w =
     (let w' = handle_reset k w in w'\<lparr>pw_handles := take k (pw_handles w') @ drop (Suc k) (pw_handles w')\<rparr>)"

text \<open>A moved-from \<^verbatim>\<open>std::string\<close> is left empty.\<close>

definition handle_move :: "nat \<Rightarrow> PoolWorld \<Rightarrow> PoolWorld" where
  "handle_move k w = w\<lparr>pw_handles := (pw_handles w)[k := emptyHandle] @ [pw_handles w ! k]\<rparr>"

definition handle_assign :: "nat \<Rightarrow> nat \<Rightarrow> PoolWorld \<Rightarrow> PoolWorld" where
  "handle_assign k l w =
     (if k = l then w
      else (let w' = handle_reset k w in
            w'\<lparr>pw_handles := (pw_handles w')[k := pw_handles w' ! l, l := emptyHandle]\<rparr>))"

text \<open>What a section of thread \<open>t\<close> leaves: the new pool, its new position, the handles it returned.\<close>

definition section_done :: "nat \<Rightarrow> PoolWorld \<Rightarrow> ModelPool \<times> PC \<times> PoolHandle list \<Rightarrow> PoolWorld" where
  "section_done t w res =
     (case res of (p, pc, hs) \<Rightarrow>
        w\<lparr>pw_pool := p, pw_pcs := (pw_pcs w)(t := pc), pw_handles := pw_handles w @ hs\<rparr>)"

definition switch_finish :: "nat \<Rightarrow> string \<Rightarrow> FactoryOutcome \<Rightarrow> PoolWorld \<Rightarrow> PoolWorld" where
  "switch_finish t i res w =
     section_done t (w\<lparr>pw_pcs := notify_all True (pw_pcs w), pw_made := Suc (pw_made w)\<rparr>)
       (switch_end i res (pw_made w) (pw_pool w))"

inductive pool_step :: "PoolWorld \<Rightarrow> PoolWorld \<Rightarrow> bool" where
  Call: "pw_pcs w t = Outside \<Longrightarrow> pool_step w (w\<lparr>pw_pcs := (pw_pcs w)(t := Called i)\<rparr>)"
| Enter: "pw_pcs w t = Called i \<Longrightarrow> pool_step w (section_done t w (acquire_entry i (pw_pool w)))"
| Retry: "pw_pcs w t = Awake i \<Longrightarrow> pool_step w (section_done t w (acquire_round i (pw_pool w)))"
| Drain: "pw_pcs w t = Draining i \<Longrightarrow> drain_round i (pw_pool w) = (p, pc) \<Longrightarrow>
    pool_step w (section_done t w (p, pc, []))"
| Finish: "pw_pcs w t = Materializing i \<Longrightarrow> pool_step w (switch_finish t i res w)"
| Leave: "pw_pcs w t = Failed e \<Longrightarrow> pool_step w (w\<lparr>pw_pcs := (pw_pcs w)(t := Outside)\<rparr>)"
| Spurious: "pool_step w (w\<lparr>pw_pcs := (pw_pcs w)(t := woken (pw_pcs w t))\<rparr>)"
| New: "pool_step w (w\<lparr>pw_handles := pw_handles w @ [emptyHandle]\<rparr>)"
| Reset: "k < length (pw_handles w) \<Longrightarrow> pool_step w (handle_reset k w)"
| Destroy: "k < length (pw_handles w) \<Longrightarrow> pool_step w (handle_destroy k w)"
| Move: "k < length (pw_handles w) \<Longrightarrow> pool_step w (handle_move k w)"
| Assign: "k < length (pw_handles w) \<Longrightarrow> l < length (pw_handles w) \<Longrightarrow> pool_step w (handle_assign k l w)"
| Rehash: "mset r = mset (mp_resident (pw_pool w)) \<Longrightarrow>
    pool_step w (w\<lparr>pw_pool := (pw_pool w)\<lparr>mp_resident := r\<rparr>\<rparr>)"

inductive pool_reachable :: "nat \<Rightarrow> string list \<Rightarrow> PoolWorld \<Rightarrow> bool" for capacity ids where
  Start: "pool_reachable capacity ids (initPoolWorld capacity ids)"
| Step: "pool_reachable capacity ids w \<Longrightarrow> pool_step w w' \<Longrightarrow> pool_reachable capacity ids w'"

section \<open>Pins and slots\<close>

definition pins :: "string \<Rightarrow> PoolHandle list \<Rightarrow> nat" where
  "pins i hs = length (filter (\<lambda>h. ph_pool h \<and> ph_id h = i) hs)"

text \<open>The reference counts are the numbers of live handles, and a live handle points at the payload
  its slot owns.\<close>

definition slots_inv :: "PoolHandle list \<Rightarrow> (string \<times> PoolSlot) list \<Rightarrow> bool" where
  "slots_inv hs r \<longleftrightarrow>
     distinct (map fst r) \<and>
     (\<forall>i s. (i, s) \<in> set r \<longrightarrow> sl_refs s = int (pins i hs)) \<and>
     (\<forall>h \<in> set hs. ph_pool h \<longrightarrow> (\<exists>s. (ph_id h, s) \<in> set r \<and> ph_payload h = Some (sl_payload s)))"

lemma slots_invI [intro?]:
  assumes "distinct (map fst r)" "\<And>i s. (i, s) \<in> set r \<Longrightarrow> sl_refs s = int (pins i hs)"
    and "\<And>h. h \<in> set hs \<Longrightarrow> ph_pool h \<Longrightarrow> \<exists>s. (ph_id h, s) \<in> set r \<and> ph_payload h = Some (sl_payload s)"
  shows "slots_inv hs r"
  using assms unfolding slots_inv_def by blast

lemma slots_invD:
  assumes "slots_inv hs r"
  shows "distinct (map fst r)" "(i, s) \<in> set r \<Longrightarrow> sl_refs s = int (pins i hs)"
    and "h \<in> set hs \<Longrightarrow> ph_pool h \<Longrightarrow> \<exists>s. (ph_id h, s) \<in> set r \<and> ph_payload h = Some (sl_payload s)"
  using assms unfolding slots_inv_def by blast+

lemma pins_mset: "pins i hs = size (filter_mset (\<lambda>h. ph_id h = i) (mset (filter ph_pool hs)))"
  by (induction hs) (auto simp: pins_def)

lemma pins_append [simp]: "pins i (hs @ hs') = pins i hs + pins i hs'"
  by (simp add: pins_def)

lemma pins_single [simp]: "pins i [h] = (if ph_pool h \<and> ph_id h = i then 1 else 0)"
  by (simp add: pins_def)

lemma pins_update:
  "k < length hs \<Longrightarrow>
   pins i (hs[k := h]) + (if ph_pool (hs ! k) \<and> ph_id (hs ! k) = i then 1 else 0) =
   pins i hs + (if ph_pool h \<and> ph_id h = i then 1 else 0)"
  using length_filter_update [of k hs "\<lambda>h. ph_pool h \<and> ph_id h = i" h] by (simp add: pins_def)

lemma pins_pos: "h \<in> set hs \<Longrightarrow> ph_pool h \<Longrightarrow> 0 < pins (ph_id h) hs"
  by (auto simp: pins_def filter_empty_conv)

text \<open>Only the live handles matter, in any order.\<close>

lemma slots_inv_live:
  assumes "slots_inv hs r" "mset (filter ph_pool hs') = mset (filter ph_pool hs)"
  shows "slots_inv hs' r"
proof
  have same: "h \<in> set hs \<and> ph_pool h" if "h \<in> set hs'" "ph_pool h" for h
    using that mset_eq_setD [OF assms(2)] by auto
  show "distinct (map fst r)" by (rule slots_invD [OF assms(1)])
  show "sl_refs s = int (pins i hs')" if "(i, s) \<in> set r" for i s
    using slots_invD(2) [OF assms(1) that] assms(2) by (simp add: pins_mset)
  show "\<exists>s. (ph_id h, s) \<in> set r \<and> ph_payload h = Some (sl_payload s)" if "h \<in> set hs'" "ph_pool h" for h
    using slots_invD(3) [OF assms(1)] same [OF that] by blast
qed

lemma update_slot_keys [simp]: "map fst (update_slot i f r) = map fst r"
  by (induction r) (auto simp: update_slot_def)

lemma update_slot_fst [simp]: "fst ` set (update_slot i f r) = fst ` set r"
  by (metis list.set_map update_slot_keys)

lemma update_slot_length [simp]: "length (update_slot i f r) = length r"
  by (simp add: update_slot_def)

lemma in_update_slot:
  "(j, s') \<in> set (update_slot i f r) \<longleftrightarrow> (\<exists>s. (j, s) \<in> set r \<and> s' = (if j = i then f s else s))"
  by (auto simp: update_slot_def image_iff split: if_splits) force+

lemma update_slot_payload:
  assumes "(j, s) \<in> set r" "\<And>s. sl_payload (f s) = sl_payload s"
  shows "\<exists>s'. (j, s') \<in> set (update_slot i f r) \<and> sl_payload s' = sl_payload s"
  using assms by (cases "j = i") (force simp: in_update_slot)+

lemma slots_inv_hit:
  assumes inv: "slots_inv hs r" and s: "map_of r i = Some s"
    and f: "\<And>s. sl_refs (f s) = sl_refs s + 1" "\<And>s. sl_payload (f s) = sl_payload s"
  shows "slots_inv (hs @ [\<lparr>ph_pool = True, ph_id = i, ph_payload = Some (sl_payload s)\<rparr>]) (update_slot i f r)"
proof
  show "distinct (map fst (update_slot i f r))" using slots_invD(1) [OF inv] by simp
  show "sl_refs s' = int (pins j (hs @ [\<lparr>ph_pool = True, ph_id = i, ph_payload = Some (sl_payload s)\<rparr>]))"
    if "(j, s') \<in> set (update_slot i f r)" for j s'
    using that slots_invD(2) [OF inv] by (auto simp: in_update_slot f)
  show "\<exists>s'. (ph_id h, s') \<in> set (update_slot i f r) \<and> ph_payload h = Some (sl_payload s')"
    if h: "h \<in> set (hs @ [\<lparr>ph_pool = True, ph_id = i, ph_payload = Some (sl_payload s)\<rparr>])" "ph_pool h" for h
  proof -
    obtain s0 where "(ph_id h, s0) \<in> set r" "ph_payload h = Some (sl_payload s0)"
      using h slots_invD(3) [OF inv] map_of_SomeD [OF s] by auto
    then show ?thesis using update_slot_payload [of _ s0, OF _ f(2)] by force
  qed
qed

lemma slots_inv_reset:
  assumes inv: "slots_inv hs r" and k: "k < length hs" "ph_pool (hs ! k)" "\<not> ph_pool h'"
    and f: "\<And>s. sl_refs (f s) = sl_refs s - 1" "\<And>s. sl_payload (f s) = sl_payload s"
  shows "slots_inv (hs[k := h']) (update_slot (ph_id (hs ! k)) f r)"
proof
  show "distinct (map fst (update_slot (ph_id (hs ! k)) f r))" using slots_invD(1) [OF inv] by simp
  show "sl_refs s' = int (pins j (hs[k := h']))"
    if "(j, s') \<in> set (update_slot (ph_id (hs ! k)) f r)" for j s'
  proof -
    have "pins j (hs[k := h']) + (if ph_id (hs ! k) = j then 1 else 0) = pins j hs"
      using pins_update [OF k(1), of j h'] k by simp
    with that slots_invD(2) [OF inv] show ?thesis
      by (auto simp: in_update_slot f split: if_splits)
  qed
  show "\<exists>s'. (ph_id h, s') \<in> set (update_slot (ph_id (hs ! k)) f r) \<and> ph_payload h = Some (sl_payload s')"
    if h: "h \<in> set (hs[k := h'])" "ph_pool h" for h
  proof -
    have "h \<in> set hs" using h k(3) by (metis set_update_subset_insert insertE subsetD)
    then obtain s0 where "(ph_id h, s0) \<in> set r" "ph_payload h = Some (sl_payload s0)"
      using h(2) slots_invD(3) [OF inv] by blast
    then show ?thesis using update_slot_payload [of _ s0, OF _ f(2)] by force
  qed
qed

lemma slots_inv_erase:
  assumes inv: "slots_inv hs r" and v: "(v, s) \<in> set r" "sl_refs s = 0"
  shows "slots_inv hs (erase_slot v r)"
proof
  show "distinct (map fst (erase_slot v r))"
    using slots_invD(1) [OF inv] by (simp add: erase_slot_def distinct_map_filter)
  show "sl_refs s' = int (pins j hs)" if "(j, s') \<in> set (erase_slot v r)" for j s'
    using that slots_invD(2) [OF inv] by (auto simp: erase_slot_def)
  have "pins v hs = 0" using slots_invD(2) [OF inv v(1)] v(2) by simp
  then show "\<exists>s'. (ph_id h, s') \<in> set (erase_slot v r) \<and> ph_payload h = Some (sl_payload s')"
    if "h \<in> set hs" "ph_pool h" for h
    using slots_invD(3) [OF inv that] pins_pos [OF that] by (auto simp: erase_slot_def)
qed

lemma slots_inv_emplace:
  assumes inv: "slots_inv hs r" and new: "i \<notin> fst ` set r"
  shows "slots_inv (hs @ [\<lparr>ph_pool = True, ph_id = i, ph_payload = Some n\<rparr>])
           (r @ [(i, \<lparr>sl_payload = n, sl_refs = 1, sl_lastUsed = c\<rparr>)])"
proof
  show "distinct (map fst (r @ [(i, \<lparr>sl_payload = n, sl_refs = 1, sl_lastUsed = c\<rparr>)]))"
    using slots_invD(1) [OF inv] new by auto
  have "pins i hs = 0"
    using slots_invD(3) [OF inv] new by (force simp: pins_def filter_empty_conv)
  then show "sl_refs s' = int (pins j (hs @ [\<lparr>ph_pool = True, ph_id = i, ph_payload = Some n\<rparr>]))"
    if "(j, s') \<in> set (r @ [(i, \<lparr>sl_payload = n, sl_refs = 1, sl_lastUsed = c\<rparr>)])" for j s'
    using that new slots_invD(2) [OF inv] by force
  show "\<exists>s'. (ph_id h, s') \<in> set (r @ [(i, \<lparr>sl_payload = n, sl_refs = 1, sl_lastUsed = c\<rparr>)]) \<and>
             ph_payload h = Some (sl_payload s')"
    if "h \<in> set (hs @ [\<lparr>ph_pool = True, ph_id = i, ph_payload = Some n\<rparr>])" "ph_pool h" for h
    using that slots_invD(3) [OF inv] by fastforce
qed

section \<open>Making room\<close>

definition evictable :: "PoolSlot \<Rightarrow> bool" where
  "evictable s \<longleftrightarrow> sl_refs s = 0 \<and> sl_lastUsed s < - 1"

lemma pool_victim_scan_min:
  "(pool_victim_scan v old r = v \<and> (\<forall>(j, s) \<in> set r. sl_refs s = 0 \<longrightarrow> old \<le> sl_lastUsed s)) \<or>
   (\<exists>s. (pool_victim_scan v old r, s) \<in> set r \<and> sl_refs s = 0 \<and> sl_lastUsed s < old \<and>
        (\<forall>(j, s') \<in> set r. sl_refs s' = 0 \<longrightarrow> sl_lastUsed s \<le> sl_lastUsed s'))"
proof (induction v old r rule: pool_victim_scan.induct)
  case (1 v old)
  then show ?case by simp
next
  case (2 v old i s r)
  show ?case
  proof (cases "sl_refs s = 0 \<and> sl_lastUsed s < old")
    case True
    with 2(1) show ?thesis by (auto intro: less_imp_le less_trans)
  next
    case False
    with 2(2) show ?thesis by (fastforce simp: not_less)
  qed
qed

text \<open>The victim is an unpinned slot used least recently.\<close>

lemma pool_victim_lru:
  assumes "pool_victim r \<noteq> []"
  obtains s where "(pool_victim r, s) \<in> set r" "evictable s"
    "\<And>j s'. (j, s') \<in> set r \<Longrightarrow> sl_refs s' = 0 \<Longrightarrow> sl_lastUsed s \<le> sl_lastUsed s'"
  using pool_victim_scan_min [of "[]" "- 1" r] assms unfolding pool_victim_def evictable_def by fast

lemma pool_victim_none:
  assumes "pool_victim r = []" "[] \<notin> fst ` set r" "(j, s) \<in> set r"
  shows "\<not> evictable s"
  using pool_victim_scan_min [of "[]" "- 1" r] assms unfolding pool_victim_def evictable_def by force

lemma make_room_result:
  assumes "slots_inv hs r" "make_room c r = (r', waits)"
  shows "slots_inv hs r' \<and> set r' \<subseteq> set r \<and> length r' \<le> length r \<and>
    (if waits then pool_victim r' = [] \<and> c \<le> length r' else length r' < c)"
  using assms
proof (induction c r rule: make_room.induct)
  case (1 c r)
  show ?case
  proof (cases "length r \<ge> c \<and> pool_victim r \<noteq> []")
    case True
    then obtain s where s: "(pool_victim r, s) \<in> set r" "sl_refs s = 0"
      by (metis pool_victim_lru evictable_def)
    have rest: "make_room c (erase_slot (pool_victim r) r) = (r', waits)"
      using 1(3) True by (simp add: make_room.simps [of c r] Let_def)
    have "slots_inv hs r' \<and> set r' \<subseteq> set (erase_slot (pool_victim r) r) \<and>
        length r' \<le> length (erase_slot (pool_victim r) r) \<and>
        (if waits then pool_victim r' = [] \<and> c \<le> length r' else length r' < c)"
      using 1(1) [OF _ refl _ slots_inv_erase [OF 1(2) s] rest] True by simp
    moreover have "set (erase_slot (pool_victim r) r) \<subseteq> set r"
        "length (erase_slot (pool_victim r) r) \<le> length r"
      by (auto simp: erase_slot_def)
    ultimately show ?thesis by (meson order_trans)
  next
    case False
    with 1(2,3) show ?thesis by (auto simp: make_room.simps [of c r] Let_def split: if_splits)
  qed
qed

text \<open>A pool that is not over its capacity loses one slot at most.\<close>

lemma make_room_one:
  assumes "length r \<le> c" "0 < c" "make_room c r = (r', waits)"
  shows "r' = r \<or> (pool_victim r \<noteq> [] \<and> r' = erase_slot (pool_victim r) r)"
proof (cases "length r \<ge> c \<and> pool_victim r \<noteq> []")
  case True
  then have "length (erase_slot (pool_victim r) r) < c"
    using assms(1) erase_slot_shorter [OF pool_victim_resident] by fastforce
  then show ?thesis
    using True assms(3) by (simp add: make_room.simps [of c r] Let_def make_room.simps [of c "erase_slot _ _"])
next
  case False
  with assms(3) show ?thesis by (auto simp: make_room.simps [of c r] Let_def split: if_splits)
qed

section \<open>The switch token\<close>

fun holds_token :: "PC \<Rightarrow> bool" where
  "holds_token (Draining i) = True"
| "holds_token (DrainWaiting i) = True"
| "holds_token (Materializing i) = True"
| "holds_token _ = False"

fun asleep :: "PC \<Rightarrow> bool" where
  "asleep (SwitchWaiting i) = True"
| "asleep (DrainWaiting i) = True"
| "asleep _ = False"

text \<open>What a thread may rely on at its position. A thread sleeps in the drain only while no slot can be
  evicted; the empty id stands for ``no victim'' in the code, so a pool that knows it is excepted.\<close>

fun thread_ok :: "ModelPool \<Rightarrow> PC \<Rightarrow> bool" where
  "thread_ok p (Awake i) = (i \<in> set (mp_known p))"
| "thread_ok p (SwitchWaiting i) = (i \<in> set (mp_known p) \<and> mp_switching p)"
| "thread_ok p (Draining i) = (i \<in> set (mp_known p) \<and> i \<notin> fst ` set (mp_resident p))"
| "thread_ok p (DrainWaiting i) =
     (i \<in> set (mp_known p) \<and> i \<notin> fst ` set (mp_resident p) \<and> mp_capacity p \<le> length (mp_resident p) \<and>
      ([] \<notin> set (mp_known p) \<longrightarrow> (\<forall>(j, s) \<in> set (mp_resident p). \<not> evictable s)))"
| "thread_ok p (Materializing i) =
     (i \<in> set (mp_known p) \<and> i \<notin> fst ` set (mp_resident p) \<and> length (mp_resident p) < mp_capacity p)"
| "thread_ok p _ = True"

definition threads_inv :: "ModelPool \<Rightarrow> (nat \<Rightarrow> PC) \<Rightarrow> bool" where
  "threads_inv p pcs \<longleftrightarrow>
     (\<forall>t. thread_ok p (pcs t)) \<and>
     (\<forall>t u. holds_token (pcs t) \<and> holds_token (pcs u) \<longrightarrow> t = u) \<and>
     (mp_switching p \<longleftrightarrow> (\<exists>t. holds_token (pcs t)))"

definition attached_inv :: "ModelPool \<Rightarrow> bool" where
  "attached_inv p \<longleftrightarrow>
     0 < mp_capacity p \<and> length (mp_resident p) \<le> mp_capacity p \<and>
     fst ` set (mp_resident p) \<subseteq> set (mp_known p)"

lemma attached_inv_known: "attached_inv p \<Longrightarrow> (i, s) \<in> set (mp_resident p) \<Longrightarrow> i \<in> set (mp_known p)"
  by (force simp: attached_inv_def)

definition world_inv :: "PoolWorld \<Rightarrow> bool" where
  "world_inv w \<longleftrightarrow>
     slots_inv (pw_handles w) (mp_resident (pw_pool w)) \<and> attached_inv (pw_pool w) \<and>
     threads_inv (pw_pool w) (pw_pcs w)"

lemma world_invD:
  assumes "world_inv w"
  shows "slots_inv (pw_handles w) (mp_resident (pw_pool w))" "attached_inv (pw_pool w)"
    "threads_inv (pw_pool w) (pw_pcs w)" "thread_ok (pw_pool w) (pw_pcs w t)"
  using assms by (simp_all add: world_inv_def threads_inv_def)

lemma token_unique: "world_inv w \<Longrightarrow> holds_token (pw_pcs w t) \<Longrightarrow> u \<noteq> t \<Longrightarrow> \<not> holds_token (pw_pcs w u)"
  unfolding world_inv_def threads_inv_def by metis

lemma woken_not_asleep [simp]: "\<not> asleep (woken pc)" "holds_token (woken pc) = holds_token pc"
  by (cases pc; simp)+

lemma thread_ok_woken: "thread_ok p pc \<Longrightarrow> thread_ok p (woken pc)"
  by (cases pc) auto

lemma thread_ok_shrink:
  assumes "thread_ok p pc" "mp_known p' = mp_known p" "mp_capacity p' = mp_capacity p"
    and "mp_switching p \<longrightarrow> mp_switching p'"
    and "fst ` set (mp_resident p') \<subseteq> fst ` set (mp_resident p)" "length (mp_resident p') \<le> length (mp_resident p)"
    and "holds_token pc \<Longrightarrow> length (mp_resident p) \<le> length (mp_resident p')"
    and "asleep pc \<Longrightarrow> (\<exists>j s. (j, s) \<in> set (mp_resident p') \<and> evictable s) \<Longrightarrow>
         (\<exists>j s. (j, s) \<in> set (mp_resident p) \<and> evictable s)"
  shows "thread_ok p' pc"
  using assms by (cases pc) (auto, blast+)

text \<open>A thread without the token relies on nothing once it is woken.\<close>

lemma thread_ok_bystander:
  "thread_ok p pc \<Longrightarrow> \<not> holds_token pc \<Longrightarrow> mp_known p' = mp_known p \<Longrightarrow> thread_ok p' (woken pc)"
  by (cases pc) auto

lemma threads_inv_update:
  assumes inv: "threads_inv p pcs" and others: "\<And>u. u \<noteq> t \<Longrightarrow> thread_ok p' (pcs u)" and me: "thread_ok p' pc"
    and token: "(mp_switching p' = mp_switching p \<and> holds_token pc = holds_token (pcs t)) \<or>
                (\<not> mp_switching p \<and> mp_switching p' \<and> holds_token pc) \<or>
                (holds_token (pcs t) \<and> \<not> mp_switching p' \<and> \<not> holds_token pc)"
  shows "threads_inv p' (pcs(t := pc))"
  unfolding threads_inv_def
proof (intro conjI)
  have uniq: "holds_token (pcs u) \<Longrightarrow> holds_token (pcs v) \<Longrightarrow> u = v" for u v
    using inv by (auto simp: threads_inv_def)
  have ex: "mp_switching p \<longleftrightarrow> (\<exists>t. holds_token (pcs t))" using inv by (auto simp: threads_inv_def)
  show "\<forall>u. thread_ok p' ((pcs(t := pc)) u)" using others me by simp
  show "\<forall>u v. holds_token ((pcs(t := pc)) u) \<and> holds_token ((pcs(t := pc)) v) \<longrightarrow> u = v"
    using uniq ex token by (auto split: if_splits)
  have "(\<exists>u. holds_token ((pcs(t := pc)) u)) \<longleftrightarrow> holds_token pc \<or> (\<exists>u. u \<noteq> t \<and> holds_token (pcs u))"
    by auto
  then show "mp_switching p' \<longleftrightarrow> (\<exists>u. holds_token ((pcs(t := pc)) u))"
    using uniq ex token by metis
qed

lemma threads_inv_notify: "threads_inv p pcs \<Longrightarrow> threads_inv p (notify_all b pcs)"
  by (auto simp: threads_inv_def notify_all_def thread_ok_woken)

section \<open>Every section keeps the invariant\<close>

text \<open>The contract of a section that thread \<open>t\<close> runs: it keeps the parameters of the pool, its result
  restores all three parts of the invariant, and it removes only unpinned slots used least recently.\<close>

definition lru_unpinned :: "(string \<times> PoolSlot) list \<Rightarrow> string \<Rightarrow> bool" where
  "lru_unpinned r v \<longleftrightarrow>
     (\<exists>s. (v, s) \<in> set r \<and> sl_refs s = 0 \<and>
          (\<forall>(j, s') \<in> set r. sl_refs s' = 0 \<longrightarrow> sl_lastUsed s \<le> sl_lastUsed s'))"

definition only_lru_lost :: "ModelPool \<Rightarrow> ModelPool \<Rightarrow> bool" where
  "only_lru_lost p p' \<longleftrightarrow>
     (\<forall>v \<in> fst ` set (mp_resident p). v \<in> fst ` set (mp_resident p') \<or> lru_unpinned (mp_resident p) v)"

lemma only_lru_lost_same: "fst ` set (mp_resident p) \<subseteq> fst ` set (mp_resident p') \<Longrightarrow> only_lru_lost p p'"
  by (auto simp: only_lru_lost_def)

lemma drain_round_facts:
  assumes "slots_inv hs (mp_resident p)" "attached_inv p" "drain_round i p = (p', pc)"
    and i: "i \<in> set (mp_known p)" "i \<notin> fst ` set (mp_resident p)"
  shows "slots_inv hs (mp_resident p')" "attached_inv p'" "thread_ok p' pc" "holds_token pc" "only_lru_lost p p'"
    "set (mp_resident p') \<subseteq> set (mp_resident p)" "length (mp_resident p') \<le> length (mp_resident p)"
    "mp_known p' = mp_known p" "mp_capacity p' = mp_capacity p" "mp_switching p' = mp_switching p"
proof -
  obtain r waits where mr: "make_room (mp_capacity p) (mp_resident p) = (r, waits)" by fastforce
  note p' = assms(3) [unfolded drain_round_def mr]
  note res = make_room_result [OF assms(1) mr]
  have sub: "fst ` set r \<subseteq> fst ` set (mp_resident p)" using res by (intro image_mono) simp
  show "slots_inv hs (mp_resident p')" "set (mp_resident p') \<subseteq> set (mp_resident p)"
    "length (mp_resident p') \<le> length (mp_resident p)"
    "mp_known p' = mp_known p" "mp_capacity p' = mp_capacity p" "mp_switching p' = mp_switching p"
    using p' res by auto
  have "fst ` set r \<subseteq> set (mp_known p)" using sub assms(2) unfolding attached_inv_def by (meson order_trans)
  moreover have "p' = p\<lparr>mp_resident := r\<rparr>" using p' by simp
  ultimately show "attached_inv p'"
    using res assms(2) by (simp add: attached_inv_def order_trans [of "length r" "length (mp_resident p)"])
  show "holds_token pc" using p' by auto
  have "i \<notin> fst ` set r" using sub i by blast
  then show "thread_ok p' pc"
  proof (cases waits)
    case True
    have "\<not> evictable s" if "[] \<notin> set (mp_known p)" "(j, s) \<in> set r" for j s
      using that res True sub assms(2) pool_victim_none [of r j s] by (auto simp: attached_inv_def)
    with True p' i res \<open>i \<notin> fst ` set r\<close> show ?thesis by auto
  next
    case False
    with p' i \<open>i \<notin> fst ` set r\<close> res show ?thesis by auto
  qed
  have "r = mp_resident p \<or> (pool_victim (mp_resident p) \<noteq> [] \<and> r = erase_slot (pool_victim (mp_resident p)) (mp_resident p))"
    using make_room_one [OF _ _ mr] assms(2) by (simp add: attached_inv_def)
  then show "only_lru_lost p p'"
  proof
    assume "r = mp_resident p"
    with p' show ?thesis by (auto simp: only_lru_lost_def)
  next
    assume r: "pool_victim (mp_resident p) \<noteq> [] \<and> r = erase_slot (pool_victim (mp_resident p)) (mp_resident p)"
    then have "lru_unpinned (mp_resident p) (pool_victim (mp_resident p))"
      by (elim conjE pool_victim_lru) (auto simp: lru_unpinned_def evictable_def)
    with r p' show ?thesis by (force simp: only_lru_lost_def erase_slot_def)
  qed
qed

lemma hit_facts:
  assumes "slots_inv hs (mp_resident p)" "attached_inv p" "pool_hit i p = Some (p', h)"
  shows "slots_inv (hs @ [h]) (mp_resident p')" "attached_inv p'"
    "fst ` set (mp_resident p') = fst ` set (mp_resident p)" "length (mp_resident p') = length (mp_resident p)"
    "mp_known p' = mp_known p" "mp_capacity p' = mp_capacity p" "mp_switching p' = mp_switching p"
    "(\<exists>j s. (j, s) \<in> set (mp_resident p') \<and> evictable s) \<Longrightarrow> (\<exists>j s. (j, s) \<in> set (mp_resident p) \<and> evictable s)"
proof -
  obtain s where s: "map_of (mp_resident p) i = Some s"
    using assms(3) by (auto simp: pool_hit_def split: option.splits)
  note p' = assms(3) [unfolded pool_hit_def s]
  show inv: "slots_inv (hs @ [h]) (mp_resident p')"
    using p' slots_inv_hit [OF assms(1) s] by auto
  have "p' = p\<lparr>mp_clock := mp_clock p + 1, mp_resident := update_slot i
      (\<lambda>s. s\<lparr>sl_refs := sl_refs s + 1, sl_lastUsed := mp_clock p + 1\<rparr>) (mp_resident p)\<rparr>"
    using p' by simp
  then show "fst ` set (mp_resident p') = fst ` set (mp_resident p)" "length (mp_resident p') = length (mp_resident p)"
    "mp_known p' = mp_known p" "mp_capacity p' = mp_capacity p" "mp_switching p' = mp_switching p"
    by simp_all
  then show "attached_inv p'" using assms(2) by (simp add: attached_inv_def)
  show "\<exists>j s. (j, s) \<in> set (mp_resident p) \<and> evictable s"
    if ev: "\<exists>j s. (j, s) \<in> set (mp_resident p') \<and> evictable s"
  proof -
    obtain j s' where js: "(j, s') \<in> set (mp_resident p')" "evictable s'" using ev by blast
    have "j \<noteq> i" using slots_invD(2) [OF inv js(1)] js(2) p' by (auto simp: evictable_def)
    with js p' have "(j, s') \<in> set (mp_resident p)" by (auto simp: in_update_slot)
    with js(2) show ?thesis by blast
  qed
qed

lemma acquire_round_facts:
  assumes inv: "world_inv w" and pc: "\<not> holds_token (pw_pcs w t)" and i: "i \<in> set (mp_known (pw_pool w))"
  shows "world_inv (section_done t w (acquire_round i (pw_pool w)))"
    "only_lru_lost (pw_pool w) (pw_pool (section_done t w (acquire_round i (pw_pool w))))"
proof -
  let ?p = "pw_pool w"
  have "world_inv (section_done t w (acquire_round i ?p)) \<and>
    only_lru_lost ?p (pw_pool (section_done t w (acquire_round i ?p)))"
  proof (cases "pool_hit i ?p")
    case (Some a)
    then obtain p' h where hit: "pool_hit i ?p = Some (p', h)" by (cases a) auto
    note hf = hit_facts [OF world_invD(1,2) [OF inv] hit]
    have "thread_ok p' (pw_pcs w u)" for u
      by (rule thread_ok_shrink [OF world_invD(4) [OF inv]]) (simp_all add: hf)
    then have "threads_inv p' ((pw_pcs w)(t := Outside))"
      using pc hf by (intro threads_inv_update [OF world_invD(3) [OF inv]]) auto
    with hf hit show ?thesis
      by (simp add: acquire_round_def section_done_def world_inv_def only_lru_lost_same)
  next
    case None
    then have miss: "i \<notin> fst ` set (mp_resident ?p)"
      by (force simp: pool_hit_def map_of_eq_None_iff split: option.splits)
    show ?thesis
    proof (cases "mp_switching ?p")
      case True
      have "threads_inv ?p ((pw_pcs w)(t := SwitchWaiting i))"
        using world_invD(4) [OF inv] pc i True by (intro threads_inv_update [OF world_invD(3) [OF inv]]) auto
      with inv None True show ?thesis
        by (simp add: acquire_round_def section_done_def world_inv_def only_lru_lost_same)
    next
      case False
      obtain p' pc' where dr: "drain_round i (?p\<lparr>mp_switching := True\<rparr>) = (p', pc')" by fastforce
      have df: "slots_inv (pw_handles w) (mp_resident p')" "attached_inv p'" "thread_ok p' pc'" "holds_token pc'"
        "only_lru_lost (?p\<lparr>mp_switching := True\<rparr>) p'" "set (mp_resident p') \<subseteq> set (mp_resident ?p)"
        "length (mp_resident p') \<le> length (mp_resident ?p)" "mp_known p' = mp_known ?p"
        "mp_capacity p' = mp_capacity ?p" "mp_switching p'"
        using drain_round_facts [OF _ _ dr, of "pw_handles w"] world_invD(1,2) [OF inv] i miss
        by (simp_all add: attached_inv_def)
      have "\<not> holds_token (pw_pcs w u)" for u using world_invD(3) [OF inv] False by (simp add: threads_inv_def)
      then have "thread_ok p' (pw_pcs w u)" for u
        using df by (intro thread_ok_shrink [OF world_invD(4) [OF inv]]) (auto intro!: image_mono)
      then have "threads_inv p' ((pw_pcs w)(t := pc'))"
        using df pc False by (intro threads_inv_update [OF world_invD(3) [OF inv]]) auto
      with df None False dr show ?thesis
        by (simp add: acquire_round_def section_done_def world_inv_def only_lru_lost_def)
    qed
  qed
  then show "world_inv (section_done t w (acquire_round i ?p))"
    "only_lru_lost ?p (pw_pool (section_done t w (acquire_round i ?p)))" by blast+
qed

lemma drain_step_facts:
  assumes inv: "world_inv w" and pc: "pw_pcs w t = Draining i" and dr: "drain_round i (pw_pool w) = (p, pc')"
  shows "world_inv (section_done t w (p, pc', []))" "only_lru_lost (pw_pool w) p"
proof -
  have i: "i \<in> set (mp_known (pw_pool w))" "i \<notin> fst ` set (mp_resident (pw_pool w))"
    using world_invD(4) [OF inv, of t] pc by simp_all
  note df = drain_round_facts [OF world_invD(1,2) [OF inv] dr i]
  have "\<not> holds_token (pw_pcs w u)" if "u \<noteq> t" for u by (rule token_unique [OF inv, of t]) (simp_all add: pc that)
  then have "thread_ok p (pw_pcs w u)" if "u \<noteq> t" for u
    using df that by (intro thread_ok_shrink [OF world_invD(4) [OF inv]]) (auto intro!: image_mono)
  then have "threads_inv p ((pw_pcs w)(t := pc'))"
    using df pc by (intro threads_inv_update [OF world_invD(3) [OF inv]]) auto
  with df show "world_inv (section_done t w (p, pc', []))" "only_lru_lost (pw_pool w) p"
    by (simp_all add: section_done_def world_inv_def)
qed

lemma switch_end_facts:
  assumes inv: "world_inv w" and pc: "pw_pcs w t = Materializing i"
    and se: "switch_end i res n (pw_pool w) = (p, pc', hs)"
  shows "slots_inv (pw_handles w @ hs) (mp_resident p)" "attached_inv p"
    "threads_inv p ((notify_all True (pw_pcs w))(t := pc'))" "only_lru_lost (pw_pool w) p"
proof -
  let ?r = "mp_resident (pw_pool w)"
  have i: "i \<in> set (mp_known (pw_pool w))" "i \<notin> fst ` set ?r" "length ?r < mp_capacity (pw_pool w)"
    using world_invD(4) [OF inv, of t] pc by simp_all
  have new: "([i \<mapsto> s] ++ map_of ?r) i = Some s" for s
    using i(2) by (simp add: map_add_def map_of_eq_None_iff [THEN iffD2])
  have kn: "mp_known p = mp_known (pw_pool w)" "\<not> mp_switching p" "\<not> holds_token pc'" "thread_ok p pc'"
    using se by (auto simp: switch_end_def Let_def split: if_splits)
  show "slots_inv (pw_handles w @ hs) (mp_resident p)"
    using se world_invD(1) [OF inv] slots_inv_emplace [OF world_invD(1) [OF inv] i(2)] i(2)
    by (auto simp: switch_end_def Let_def emplace_slot_def new split: if_splits)
  show "attached_inv p"
    using se world_invD(2) [OF inv] i
    by (auto simp: switch_end_def Let_def emplace_slot_def attached_inv_def dest: attached_inv_known [OF world_invD(2) [OF inv]]
        split: if_splits)
  have others: "\<not> holds_token (pw_pcs w u)" if "u \<noteq> t" for u
    by (rule token_unique [OF inv, of t]) (simp_all add: pc that)
  have "threads_inv (pw_pool w) (notify_all True (pw_pcs w))"
    by (rule threads_inv_notify [OF world_invD(3) [OF inv]])
  then show "threads_inv p ((notify_all True (pw_pcs w))(t := pc'))"
    using kn pc others thread_ok_bystander [OF world_invD(4) [OF inv]]
    by (elim threads_inv_update) (auto simp: notify_all_def)
  show "only_lru_lost (pw_pool w) p"
    using se by (intro only_lru_lost_same) (auto simp: switch_end_def Let_def emplace_slot_def split: if_splits)
qed

lemma world_invI:
  "slots_inv (pw_handles w) (mp_resident (pw_pool w)) \<Longrightarrow> attached_inv (pw_pool w) \<Longrightarrow>
   threads_inv (pw_pool w) (pw_pcs w) \<Longrightarrow> world_inv w"
  by (simp add: world_inv_def)

text \<open>Handles that are no longer live, and the order of handles, do not matter.\<close>

lemma world_inv_handles:
  "world_inv w \<Longrightarrow> mset (filter ph_pool hs) = mset (filter ph_pool (pw_handles w)) \<Longrightarrow>
   world_inv (w\<lparr>pw_handles := hs\<rparr>)"
  by (auto simp: world_inv_def intro: slots_inv_live)

lemma mset_filter_update:
  "k < length xs \<Longrightarrow> \<not> P y \<Longrightarrow>
   mset (filter P xs) = mset (filter P (xs[k := y])) + (if P (xs ! k) then {#xs ! k#} else {#})"
  by (induction xs arbitrary: k) (auto simp: nth_Cons split: nat.splits)

text \<open>Dropping a reference makes a slot evictable only when it was the last one, and then every sleeper
  is notified.\<close>

lemma release_thread_ok:
  assumes ok: "thread_ok p pc" and dist: "distinct (map fst (mp_resident p))" and s: "(i, s) \<in> set (mp_resident p)"
    and r: "r = update_slot i (\<lambda>s. s\<lparr>sl_refs := sl_refs s - 1\<rparr>) (mp_resident p)"
  shows "thread_ok (p\<lparr>mp_resident := r\<rparr>) (if sl_refs s = 1 then woken pc else pc)"
proof (cases "sl_refs s = 1")
  case True
  then show ?thesis
    using thread_ok_woken [OF ok] by (simp, elim thread_ok_shrink) (simp_all add: r)
next
  case False
  have old: "(j, s') \<in> set (mp_resident p)" if js: "(j, s') \<in> set r" "evictable s'" for j s'
  proof -
    obtain s0 where s0: "(j, s0) \<in> set (mp_resident p)" "s' = (if j = i then s0\<lparr>sl_refs := sl_refs s0 - 1\<rparr> else s0)"
      using js(1) by (auto simp: r in_update_slot)
    have "j \<noteq> i" using s0 js(2) False eq_key_imp_eq_value [OF dist _ s, of s0] by (auto simp: evictable_def)
    with s0 show ?thesis by simp
  qed
  have keys: "fst ` set r = fst ` set (mp_resident p)" "length r = length (mp_resident p)"
    by (simp_all add: r)
  have "thread_ok (p\<lparr>mp_resident := r\<rparr>) pc"
    by (rule thread_ok_shrink [OF ok]) (simp_all add: keys, blast intro: old)
  with False show ?thesis by simp
qed

text \<open>What resetting a live handle does.\<close>

lemma handle_reset_live:
  assumes inv: "world_inv w" and k: "k < length (pw_handles w)" "ph_pool (pw_handles w ! k)"
  obtains s where "(ph_id (pw_handles w ! k), s) \<in> set (mp_resident (pw_pool w))"
    "handle_reset k w = w\<lparr>pw_pool := (pw_pool w)\<lparr>mp_resident :=
        update_slot (ph_id (pw_handles w ! k)) (\<lambda>s. s\<lparr>sl_refs := sl_refs s - 1\<rparr>) (mp_resident (pw_pool w))\<rparr>,
      pw_pcs := notify_all (sl_refs s = 1) (pw_pcs w),
      pw_handles := (pw_handles w)[k := (pw_handles w ! k)\<lparr>ph_pool := False, ph_payload := None\<rparr>]\<rparr>"
proof -
  have h: "pw_handles w ! k \<in> set (pw_handles w)" using k by simp
  then obtain s where s: "(ph_id (pw_handles w ! k), s) \<in> set (mp_resident (pw_pool w))"
    using slots_invD(3) [OF world_invD(1) [OF inv] _ k(2)] by blast
  have m: "map_of (mp_resident (pw_pool w)) (ph_id (pw_handles w ! k)) = Some s"
    using s slots_invD(1) [OF world_invD(1) [OF inv]] by simp
  have "0 < sl_refs s"
    using slots_invD(2) [OF world_invD(1) [OF inv] s] pins_pos [OF h k(2)] by simp
  with k(2) m s that show thesis by (simp add: handle_reset_def pool_release_def Let_def)
qed

lemma handle_reset_facts:
  assumes inv: "world_inv w" and k: "k < length (pw_handles w)"
  shows "world_inv (handle_reset k w) \<and> only_lru_lost (pw_pool w) (pw_pool (handle_reset k w))"
proof (cases "ph_pool (pw_handles w ! k)")
  case False
  with inv show ?thesis by (simp add: handle_reset_def only_lru_lost_same)
next
  case True
  let ?h = "pw_handles w ! k" and ?p = "pw_pool w"
  define r where "r = update_slot (ph_id ?h) (\<lambda>s. s\<lparr>sl_refs := sl_refs s - 1\<rparr>) (mp_resident ?p)"
  obtain s where s: "(ph_id ?h, s) \<in> set (mp_resident ?p)"
    and eq: "handle_reset k w = w\<lparr>pw_pool := ?p\<lparr>mp_resident := r\<rparr>,
      pw_pcs := notify_all (sl_refs s = 1) (pw_pcs w),
      pw_handles := (pw_handles w)[k := ?h\<lparr>ph_pool := False, ph_payload := None\<rparr>]\<rparr>"
    using handle_reset_live [OF inv k True] unfolding r_def .
  have sl: "slots_inv ((pw_handles w)[k := ?h\<lparr>ph_pool := False, ph_payload := None\<rparr>]) r"
    unfolding r_def by (rule slots_inv_reset [OF world_invD(1) [OF inv] k True]) simp_all
  have keys: "fst ` set r = fst ` set (mp_resident ?p)" "length r = length (mp_resident ?p)"
    by (simp_all add: r_def)
  have "thread_ok (?p\<lparr>mp_resident := r\<rparr>) (notify_all (sl_refs s = 1) (pw_pcs w) u)" for u
    using release_thread_ok [OF world_invD(4) [OF inv] slots_invD(1) [OF world_invD(1) [OF inv]] s r_def, of u]
    by (simp add: notify_all_def split: if_splits)
  then have "threads_inv (?p\<lparr>mp_resident := r\<rparr>) (notify_all (sl_refs s = 1) (pw_pcs w))"
    using threads_inv_notify [OF world_invD(3) [OF inv]] by (simp add: threads_inv_def)
  with sl keys world_invD(2) [OF inv] show ?thesis
    by (simp add: eq world_inv_def attached_inv_def only_lru_lost_same)
qed

lemma handle_reset_handles:
  assumes "k < length (pw_handles w)"
  shows "length (pw_handles (handle_reset k w)) = length (pw_handles w)"
    "\<not> ph_pool (pw_handles (handle_reset k w) ! k)"
    "l \<noteq> k \<Longrightarrow> pw_handles (handle_reset k w) ! l = pw_handles w ! l"
  using assms by (auto simp: handle_reset_def Let_def split: prod.splits)

lemma handle_destroy_facts:
  assumes "world_inv w" "k < length (pw_handles w)"
  shows "world_inv (handle_destroy k w) \<and> only_lru_lost (pw_pool w) (pw_pool (handle_destroy k w))"
proof -
  let ?w = "handle_reset k w"
  let ?hs = "pw_handles ?w"
  have "?hs = take k ?hs @ ?hs ! k # drop (Suc k) ?hs"
    using handle_reset_handles(1) [OF assms(2)] assms(2) by (simp add: id_take_nth_drop)
  then have "filter ph_pool ?hs = filter ph_pool (take k ?hs @ drop (Suc k) ?hs)"
    using handle_reset_handles(2) [OF assms(2)] by (metis filter.simps(2) filter_append)
  with handle_reset_facts [OF assms] show ?thesis
    by (simp add: handle_destroy_def Let_def world_inv_handles)
qed

lemma handle_assign_facts:
  assumes "world_inv w" "k < length (pw_handles w)" "l < length (pw_handles w)"
  shows "world_inv (handle_assign k l w) \<and> only_lru_lost (pw_pool w) (pw_pool (handle_assign k l w))"
proof (cases "k = l")
  case True
  with assms show ?thesis by (simp add: handle_assign_def only_lru_lost_same)
next
  case False
  let ?w = "handle_reset k w"
  let ?hs = "pw_handles ?w"
  have len: "k < length ?hs" "l < length ?hs" using handle_reset_handles(1) [OF assms(2)] assms by simp_all
  have dead: "\<not> ph_pool (?hs ! k)" by (rule handle_reset_handles(2) [OF assms(2)])
  have swap: "mset (?hs[k := ?hs ! l, l := ?hs ! k]) = mset ?hs" using len mset_swap [of l ?hs k] by simp
  have "mset (filter ph_pool (?hs[k := ?hs ! l, l := emptyHandle]))
      = mset (filter ph_pool (?hs[k := ?hs ! l, l := ?hs ! k]))"
    using mset_filter_update [of l "?hs[k := ?hs ! l, l := ?hs ! k]" ph_pool emptyHandle] len dead
    by (simp add: emptyHandle_def)
  also have "\<dots> = mset (filter ph_pool ?hs)" using swap by (metis mset_filter)
  finally show ?thesis
    using handle_reset_facts [OF assms(1,2)] False by (simp add: handle_assign_def Let_def world_inv_handles)
qed

lemma handle_move_facts:
  assumes "world_inv w" "k < length (pw_handles w)"
  shows "world_inv (handle_move k w)"
proof -
  have "\<not> ph_pool emptyHandle" by (simp add: emptyHandle_def)
  then have "mset (filter ph_pool ((pw_handles w)[k := emptyHandle] @ [pw_handles w ! k])) =
        mset (filter ph_pool (pw_handles w))"
    using mset_filter_update [OF assms(2), of ph_pool emptyHandle] by simp
  then show ?thesis unfolding handle_move_def by (rule world_inv_handles [OF assms(1)])
qed

section \<open>Reachable worlds\<close>

lemma section_done_simps [simp]:
  "pw_pool (section_done t w (p, pc, hs)) = p"
  "pw_pcs (section_done t w (p, pc, hs)) = (pw_pcs w)(t := pc)"
  "pw_handles (section_done t w (p, pc, hs)) = pw_handles w @ hs"
  by (simp_all add: section_done_def)

text \<open>A step that only moves thread \<open>t\<close>.\<close>

lemma world_inv_pc:
  assumes "world_inv w" "thread_ok (pw_pool w) pc" "holds_token pc = holds_token (pw_pcs w t)"
  shows "world_inv (w\<lparr>pw_pcs := (pw_pcs w)(t := pc)\<rparr>)"
proof -
  have "threads_inv (pw_pool w) ((pw_pcs w)(t := pc))"
    using assms by (intro threads_inv_update [OF world_invD(3) [OF assms(1)]]) (auto intro: world_invD)
  with assms(1) show ?thesis by (simp add: world_inv_def)
qed

lemma acquire_entry_facts:
  assumes inv: "world_inv w" and pc: "pw_pcs w t = Called i"
  shows "world_inv (section_done t w (acquire_entry i (pw_pool w))) \<and>
    only_lru_lost (pw_pool w) (pw_pool (section_done t w (acquire_entry i (pw_pool w))))"
proof (cases "i \<in> set (mp_known (pw_pool w))")
  case True
  with acquire_round_facts [OF inv, of t i] pc show ?thesis by (simp add: acquire_entry_def)
next
  case False
  with world_inv_pc [OF inv, of "Failed e" t for e] pc show ?thesis
    by (simp add: acquire_entry_def section_done_def only_lru_lost_same)
qed

lemma world_inv_rehash:
  assumes inv: "world_inv w" and r: "mset r = mset (mp_resident (pw_pool w))"
  shows "world_inv (w\<lparr>pw_pool := (pw_pool w)\<lparr>mp_resident := r\<rparr>\<rparr>)"
proof -
  have r': "set r = set (mp_resident (pw_pool w))" "length r = length (mp_resident (pw_pool w))"
    using mset_eq_setD [OF r] mset_eq_length [OF r] by simp_all
  have "mset (map fst r) = mset (map fst (mp_resident (pw_pool w)))" using r by simp
  then have "distinct (map fst r) = distinct (map fst (mp_resident (pw_pool w)))" by (rule mset_eq_imp_distinct_iff)
  then have "slots_inv (pw_handles w) r" using world_invD(1) [OF inv] r' by (simp add: slots_inv_def)
  moreover have "thread_ok ((pw_pool w)\<lparr>mp_resident := r\<rparr>) pc = thread_ok (pw_pool w) pc" for pc
    by (cases pc) (simp_all add: r')
  ultimately show ?thesis using inv r' by (simp add: world_inv_def attached_inv_def threads_inv_def)
qed

lemma pool_step_inv:
  assumes "pool_step w w'" "world_inv w"
  shows "world_inv w' \<and> only_lru_lost (pw_pool w) (pw_pool w')"
  using assms
proof (cases rule: pool_step.cases)
  case (Finish t i res)
  obtain p pc hs where se: "switch_end i res (pw_made w) (pw_pool w) = (p, pc, hs)" by (metis prod_cases3)
  with Finish switch_end_facts [OF assms(2) Finish(2) se] show ?thesis
    by (simp add: world_inv_def switch_finish_def)
next
  case (Spurious t)
  with world_inv_pc [OF assms(2), of "woken (pw_pcs w t)" t] thread_ok_woken [OF world_invD(4) [OF assms(2)]]
  show ?thesis by (simp add: only_lru_lost_same)
next
  case (Retry t i)
  with acquire_round_facts [OF assms(2), of t i] world_invD(4) [OF assms(2), of t] show ?thesis by simp
next
  case (Rehash r)
  with world_inv_rehash [OF assms(2) Rehash(2)] mset_eq_setD [OF Rehash(2)] show ?thesis
    by (simp add: only_lru_lost_same)
next
  case New
  with world_inv_handles [OF assms(2), of "pw_handles w @ [emptyHandle]"] show ?thesis
    by (simp add: only_lru_lost_same emptyHandle_def)
next
  case (Call t i)
  with world_inv_pc [OF assms(2), of "Called i" t] show ?thesis by (simp add: only_lru_lost_same)
next
  case (Leave t e)
  with world_inv_pc [OF assms(2), of Outside t] show ?thesis by (simp add: only_lru_lost_same)
next
  case (Move k)
  with handle_move_facts [OF assms(2)] show ?thesis by (simp add: handle_move_def only_lru_lost_same)
qed (simp_all add: acquire_entry_facts drain_step_facts handle_reset_facts handle_destroy_facts handle_assign_facts)

lemma pool_reachable_inv: "pool_reachable capacity ids w \<Longrightarrow> world_inv w"
proof (induction rule: pool_reachable.induct)
  case Start
  show ?case
    by (simp add: world_inv_def initPoolWorld_def newModelPool_def slots_inv_def attached_inv_def threads_inv_def)
next
  case (Step w w')
  then show ?case using pool_step_inv by blast
qed

lemma drain_round_params:
  "drain_round i p = (p', pc) \<Longrightarrow> mp_known p' = mp_known p \<and> mp_capacity p' = mp_capacity p"
  by (auto simp: drain_round_def split: prod.splits)

lemma acquire_round_params:
  "acquire_round i p = (p', pc, hs) \<Longrightarrow> mp_known p' = mp_known p \<and> mp_capacity p' = mp_capacity p"
  by (auto simp: acquire_round_def pool_hit_def split: option.splits if_splits prod.splits dest!: drain_round_params)

lemma handle_reset_params:
  "mp_known (pw_pool (handle_reset k w)) = mp_known (pw_pool w)"
  "mp_capacity (pw_pool (handle_reset k w)) = mp_capacity (pw_pool w)"
  by (auto simp: handle_reset_def pool_release_def Let_def split: option.splits)

lemma pool_step_params:
  "pool_step w w' \<Longrightarrow>
   mp_known (pw_pool w') = mp_known (pw_pool w) \<and> mp_capacity (pw_pool w') = mp_capacity (pw_pool w)"
  by (induction rule: pool_step.induct)
    (auto simp: section_done_def acquire_entry_def switch_finish_def switch_end_def Let_def handle_reset_params
      handle_destroy_def handle_assign_def handle_move_def split: prod.splits if_splits
      dest: acquire_round_params drain_round_params)

lemma pool_reachable_params:
  "pool_reachable capacity ids w \<Longrightarrow>
   mp_known (pw_pool w) = ids \<and> mp_capacity (pw_pool w) = (if capacity = 0 then 1 else capacity)"
proof (induction rule: pool_reachable.induct)
  case Start
  show ?case by (simp add: initPoolWorld_def newModelPool_def)
next
  case (Step w w')
  then show ?case using pool_step_params by metis
qed

text \<open>Whoever sleeps is owed a notification: by a thread that holds the switch token and runs, or by a
  live handle.\<close>

lemma sleeper_is_owed:
  assumes inv: "world_inv w" and ids: "[] \<notin> set (mp_known (pw_pool w))"
    and clk: "\<And>j s. (j, s) \<in> set (mp_resident (pw_pool w)) \<Longrightarrow> sl_lastUsed s < - 1"
    and t: "asleep (pw_pcs w t)"
  shows "(\<exists>h \<in> set (pw_handles w). ph_pool h) \<or> (\<exists>u. holds_token (pw_pcs w u) \<and> \<not> asleep (pw_pcs w u))"
proof -
  have pinned: "\<exists>h \<in> set (pw_handles w). ph_pool h" if u: "pw_pcs w u = DrainWaiting i" for u i
  proof -
    have "mp_resident (pw_pool w) \<noteq> []"
      using world_invD(4) [OF inv, of u] world_invD(2) [OF inv] u by (auto simp: attached_inv_def)
    then obtain j s where js: "(j, s) \<in> set (mp_resident (pw_pool w))" by (metis list.set_intros(1) neq_Nil_conv surj_pair)
    then have "sl_refs s \<noteq> 0"
      using world_invD(4) [OF inv, of u] u ids clk [OF js] by (auto simp: evictable_def)
    then have "pins j (pw_handles w) \<noteq> 0" using slots_invD(2) [OF world_invD(1) [OF inv] js] by simp
    then show ?thesis by (auto simp: pins_def filter_empty_conv)
  qed
  have "\<exists>u. holds_token (pw_pcs w u)"
  proof (cases "holds_token (pw_pcs w t)")
    case False
    with t world_invD(4) [OF inv, of t] have "mp_switching (pw_pool w)" by (cases "pw_pcs w t") auto
    with world_invD(3) [OF inv] show ?thesis by (simp add: threads_inv_def)
  qed blast
  then obtain u where u: "holds_token (pw_pcs w u)" by blast
  show ?thesis
  proof (cases "asleep (pw_pcs w u)")
    case True
    with u pinned [of u] show ?thesis by (cases "pw_pcs w u") auto
  qed (use u in blast)
qed

section \<open>The properties\<close>

text \<open>A run for the witnesses: one thread fetches the only model a pool of capacity one has room for
  and keeps its handle; another asks for a second model and falls asleep in the drain.\<close>

definition demo_attached :: "bool \<Rightarrow> ModelPool" where
  "demo_attached switching = \<lparr>mp_known = [''a'', ''b''], mp_resident = [(''a'', \<lparr>sl_payload = 0, sl_refs = 1, sl_lastUsed = 1\<rparr>)],
     mp_capacity = 1, mp_switching = switching, mp_clock = 1\<rparr>"

definition demo_held :: PoolWorld where
  "demo_held = \<lparr>pw_pool = demo_attached False, pw_pcs = (\<lambda>_. Outside),
     pw_handles = [\<lparr>ph_pool = True, ph_id = ''a'', ph_payload = Some 0\<rparr>], pw_made = 1\<rparr>"

definition demo_blocked :: PoolWorld where
  "demo_blocked = demo_held\<lparr>pw_pool := demo_attached True, pw_pcs := (\<lambda>_. Outside)(1 := DrainWaiting ''b'')\<rparr>"

lemma demo_held_reachable: "pool_reachable 1 [''a'', ''b''] demo_held"
proof -
  let ?w0 = "initPoolWorld 1 [''a'', ''b'']"
  let ?w1 = "?w0\<lparr>pw_pcs := (pw_pcs ?w0)(0 := Called ''a'')\<rparr>"
  let ?w2 = "section_done 0 ?w1 (acquire_entry ''a'' (pw_pool ?w1))"
  have 1: "pool_reachable 1 [''a'', ''b''] ?w1"
    by (rule Step [OF Start Call]) (simp add: initPoolWorld_def)
  have 2: "pool_reachable 1 [''a'', ''b''] ?w2"
    by (rule Step [OF 1 Enter]) simp
  have "pool_reachable 1 [''a'', ''b''] (switch_finish 0 ''a'' Made ?w2)"
    by (rule Step [OF 2 Finish])
      (simp add: initPoolWorld_def newModelPool_def acquire_entry_def acquire_round_def pool_hit_def drain_round_def make_room.simps)
  moreover have "switch_finish 0 ''a'' Made ?w2 = demo_held"
    by (simp add: initPoolWorld_def newModelPool_def acquire_entry_def acquire_round_def pool_hit_def drain_round_def
        make_room.simps switch_finish_def switch_end_def emplace_slot_def section_done_def notify_all_def
        demo_held_def demo_attached_def fun_eq_iff)
  ultimately show ?thesis by simp
qed

lemma demo_blocked_reachable: "pool_reachable 1 [''a'', ''b''] demo_blocked"
proof -
  let ?w1 = "demo_held\<lparr>pw_pcs := (pw_pcs demo_held)(1 := Called ''b'')\<rparr>"
  have 1: "pool_reachable 1 [''a'', ''b''] ?w1"
    by (rule Step [OF demo_held_reachable Call]) (simp add: demo_held_def)
  have "pool_reachable 1 [''a'', ''b''] (section_done 1 ?w1 (acquire_entry ''b'' (pw_pool ?w1)))"
    by (rule Step [OF 1 Enter]) simp
  moreover have "section_done 1 ?w1 (acquire_entry ''b'' (pw_pool ?w1)) = demo_blocked"
    by (simp add: demo_held_def demo_blocked_def demo_attached_def acquire_entry_def acquire_round_def pool_hit_def
        drain_round_def make_room.simps pool_victim_def section_done_def fun_eq_iff)
  ultimately show ?thesis by simp
qed



text \<open>C36. No wake-up is lost. In a pool whose model ids are non-empty, as the configuration demands,
  and whose clock has not reached its last value, a thread that sleeps in an acquire is always owed
  a notification: a thread that holds the switch token is running, or a handle is live. And both
  debtors pay: after the last live handle of a model is reset, and after a factory call ends with
  whatever result, no thread sleeps.\<close>

theorem pool_never_deadlocks:
  assumes "pool_reachable capacity ids w" "[] \<notin> set ids"
    and "\<And>j s. (j, s) \<in> set (mp_resident (pw_pool w)) \<Longrightarrow> sl_lastUsed s < - 1"
  shows "(\<forall>t. asleep (pw_pcs w t) \<longrightarrow>
       (\<exists>h \<in> set (pw_handles w). ph_pool h) \<or> (\<exists>u. holds_token (pw_pcs w u) \<and> \<not> asleep (pw_pcs w u))) \<and>
    (\<forall>k < length (pw_handles w). ph_pool (pw_handles w ! k) \<and> pins (ph_id (pw_handles w ! k)) (pw_handles w) = 1 \<longrightarrow>
       (\<forall>t. \<not> asleep (pw_pcs (handle_reset k w) t))) \<and>
    (\<forall>t i res. pw_pcs w t = Materializing i \<longrightarrow> (\<forall>u. \<not> asleep (pw_pcs (switch_finish t i res w) u)))"
proof (intro conjI allI impI)
  note inv = pool_reachable_inv [OF assms(1)]
  fix t
  assume "asleep (pw_pcs w t)"
  then show "(\<exists>h \<in> set (pw_handles w). ph_pool h) \<or> (\<exists>u. holds_token (pw_pcs w u) \<and> \<not> asleep (pw_pcs w u))"
    using sleeper_is_owed [OF inv] assms pool_reachable_params [OF assms(1)] by blast
next
  note inv = pool_reachable_inv [OF assms(1)]
  fix k t
  assume k: "k < length (pw_handles w)"
    and last: "ph_pool (pw_handles w ! k) \<and> pins (ph_id (pw_handles w ! k)) (pw_handles w) = 1"
  show "\<not> asleep (pw_pcs (handle_reset k w) t)"
    using last by (elim conjE, elim handle_reset_live [OF inv k])
      (use slots_invD(2) [OF world_invD(1) [OF inv]] in \<open>fastforce simp: notify_all_def\<close>)
next
  fix t i res u
  show "\<not> asleep (pw_pcs (switch_finish t i res w) u)"
    by (auto simp: switch_finish_def switch_end_def Let_def notify_all_def section_done_def split: if_splits)
qed

theorem pool_never_deadlocks_witness:
  "asleep (pw_pcs demo_blocked 1) \<and> (\<exists>h \<in> set (pw_handles demo_blocked). ph_pool h) \<and>
   \<not> asleep (pw_pcs (handle_reset 0 demo_blocked) 1)"
proof -
  have "\<And>j s. (j, s) \<in> set (mp_resident (pw_pool demo_blocked)) \<Longrightarrow> sl_lastUsed s < - 1"
    by (simp add: demo_blocked_def demo_attached_def) (simp add: word_order.not_eq_extremum [symmetric])
  note owed = pool_never_deadlocks [OF demo_blocked_reachable _ this]
  show ?thesis using owed by (simp add: demo_blocked_def demo_held_def)
qed

end
