(* ===== verification/Spec2Isabelle.thy ===== *)
theory Spec2Isabelle
  imports SchedulerProperties BatcherProgress KvStorage ServingPolicy Speculation WeightsIndex MuninHandoff SpmEncoding
    ResponseCleaning StreamUtf8 PromptTrimming AttachedModels
begin

text \<open>
  A verification library for Mimirmind, an inference server for large language models in C++.

  \<^bold>\<open>The program.\<close> A server process accepts chat requests over HTTP and hands each to a serving
  backend. \<^verbatim>\<open>ContinuousBatcher\<close> (\<^verbatim>\<open>src/runtime/serving/ContinuousBatcher.cpp\<close>) is the production path:
  request threads submit and cancel, one worker thread admits requests to the slots of a
  \<^verbatim>\<open>ServingSession\<close> (\<^verbatim>\<open>src/runtime/engine/ServingSession.cpp\<close>), prefills prompts, decodes one token per
  occupied slot and round, and retires finished requests. The session keeps, per slot, the recurrent
  state and the key/value rows of the tokens fed so far, and a store of prefix images shared across
  slots, indexed by \<^verbatim>\<open>GdnPrefixIndex\<close>. The second serving path is \<^verbatim>\<open>RequestScheduler\<close>
  (\<^verbatim>\<open>src/runtime/serving/RequestScheduler.cpp\<close>): requests own page tables (\<^verbatim>\<open>PagedKvSequence\<close>) over a
  shared, reference-counted pool of blocks (\<^verbatim>\<open>PagedKvBlockAllocator\<close>), \<^verbatim>\<open>ChunkedPrefillScheduler\<close> cuts
  each step to a token budget and \<^verbatim>\<open>PreemptionPolicy\<close> asks for a victim when the pool runs low. The
  single-request path is \<^verbatim>\<open>InferenceEngine\<close> with greedy or stochastic sampling and, optionally,
  speculative decoding (\<^verbatim>\<open>SpeculativeDecoder\<close>, \<^verbatim>\<open>NGramDrafter\<close>). Weights come from GGUF files
  (\<^verbatim>\<open>GgufReader\<close>, \<^verbatim>\<open>WeightsMap\<close>), read by the server itself or held resident by a second process, Munin
  (\<^verbatim>\<open>src/munin\<close>), which packs them into chunks and passes them to a worker over a Unix socket
  (\<^verbatim>\<open>src/core/ipc\<close>).

  \<^bold>\<open>Conventions.\<close> \<^verbatim>\<open>Prelude\<close> has the exception type and the result type \<open>exn + 'a\<close> of a throwing
  function. A \<^verbatim>\<open>std::uintN_t\<close> that the code lets wrap is an \<open>N word\<close>; a \<^verbatim>\<open>std::size_t\<close> that only counts
  elements of a container in memory is a \<open>nat\<close>. A class is a record, a method that changes it a
  function to the new state, a throw a left value. Memory outside the C++ heap is the list of
  allocations of \<^verbatim>\<open>DeviceMemory\<close>. What is outside the sources is an argument of the definitions:
  the neural network forward and the sampler of the serving session (record \<open>ServingModel\<close>), the
  network of the single-request engine, the environment variables, the JSON text codec, the chat template, which
  system call or which forward fails.

  \<^bold>\<open>The continuous batcher.\<close> \<^verbatim>\<open>ServingSession\<close> models the CUDA serving substrate at the level of values
  per slot: \<open>ensureServingState\<close>, \<open>prefillSlot\<close>, \<open>runVarlenPrefill\<close>, \<open>stepServing\<close>, the checkpoint ring
  of each slot and the cross-slot prefix images; forwards fail where the list of faults says.
  \<^verbatim>\<open>Batcher\<close> has the data of \<^verbatim>\<open>ContinuousBatcher.hpp\<close>, construction, submission and the helpers of the
  worker, \<^verbatim>\<open>BatcherWorker\<close> the sections of \<^verbatim>\<open>workerLoop\<close> (admission in three passes, eager prefill, mixed
  step, decode step, shutdown) and the relation \<open>batcher_step\<close> that interleaves them with the request
  threads. \<^verbatim>\<open>BatcherRefinement\<close> defines the reference \<open>serve_alone\<close>; \<^verbatim>\<open>PrefixStore\<close> shows that every
  stored image holds the state of exactly the tokens it is filed under; \<^verbatim>\<open>BatcherInvariant\<close> states the
  invariant \<open>core\<close>, and \<^verbatim>\<open>BatcherAdmission\<close>, \<^verbatim>\<open>BatcherPrefill\<close>, \<^verbatim>\<open>BatcherEager\<close> and \<^verbatim>\<open>BatcherStep\<close> show that each
  section keeps it. \<^verbatim>\<open>BatcherTransparency\<close> concludes for all runs: batching is invisible to a request,
  requests are never lost or served twice, admission never throws. \<^verbatim>\<open>BatcherBounds\<close> has the global and
  the per-tenant bound, \<^verbatim>\<open>BatcherProgress\<close> the draining of the queue: a measure of the positions still
  to be ingested and decoded decreases in every iteration, so no fuel is needed beyond the bound the
  theorem states. These results are for warm slots switched off; with warm slots on, the findings of
  the manifest describe where the code loses the property.

  \<^bold>\<open>The paged scheduler.\<close> \<^verbatim>\<open>PoolInterface\<close> is the contract of a pool of counted blocks as a locale;
  \<^verbatim>\<open>BlockAllocator\<close> models the allocator and interprets it, \<^verbatim>\<open>KvSequence\<close> the page table, token history
  and hash chain of a request, \<^verbatim>\<open>KvOwnership\<close> many sequences on one pool. \<^verbatim>\<open>PrefillScheduler\<close> has the
  budget arithmetic, \<^verbatim>\<open>RequestScheduling\<close> the request lifecycle, \<^verbatim>\<open>SchedulerInvariant\<close> its invariant and
  \<^verbatim>\<open>SchedulerProperties\<close> the theorems over arbitrary interleavings of the public operations: a
  consistent registry, exclusively owned blocks, equal hashes for equal prefixes, a full active set
  after a tick, newest-first preemption, and completion of the serving loop. \<^verbatim>\<open>ServingPolicy\<close> has the
  preemption policy and the batch capacity estimate, \<^verbatim>\<open>GdnPrefix\<close> the longest-prefix index with
  eviction of the least recently used unpinned entry.

  \<^bold>\<open>Model switching.\<close> \<^verbatim>\<open>AttachedModels\<close> models \<^verbatim>\<open>src/runtime/serving/AttachedModelPool.hpp\<close>, the cache of
  materialised models a worker switches between: each stretch of \<^verbatim>\<open>acquire\<close> between two points that give up
  the mutex is a function, \<open>pool_step\<close> interleaves any number of threads over them, with spurious wake-ups,
  factories that fail, and handles that are moved, assigned and reset. In every reachable world a live
  handle pins the payload it points at, only the least recently used unpinned model goes, and no
  sleeper misses its wake-up.

  \<^bold>\<open>Storage.\<close> \<^verbatim>\<open>KvStorage\<close> models \<^verbatim>\<open>KvCache\<close>, \<^verbatim>\<open>KvCacheSlabPool\<close> and \<^verbatim>\<open>PagedKvPool\<close> and shows that rows of
  different slots, layers and blocks stay inside their allocations and never overlap, and that the
  batched write covers what the single writes do.

  \<^bold>\<open>Generation.\<close> \<^verbatim>\<open>GreedySampling\<close> has the deterministic part of the sampler over exact reals.
  \<^verbatim>\<open>Speculation\<close> has the token loop of the engine, the n-gram drafter and the draft, verify and accept
  rounds, and shows that speculation emits what plain decoding does, and where penalties break this.

  \<^bold>\<open>Tokens.\<close> \<^verbatim>\<open>Tokenizer\<close> and \<^verbatim>\<open>HfTokenizer\<close> model \<^verbatim>\<open>src/model/Tokenizer.cpp\<close>: the loaders from GGUF metadata and
  from a HuggingFace directory, the byte-level and the SentencePiece encoder, both a priority queue of
  candidate merges over a linked list of pieces, the decoders and the split on special tokens.
  \<^verbatim>\<open>PieceMerging\<close> has the reference, merge the best adjacent pair until there is none, and the locale
  \<open>merge_queue\<close> with the facts the two loops share: a queue that covers the mergeable pairs stays
  covering, and its top is the pair the reference merges. \<^verbatim>\<open>TokenizerProperties\<close> and \<^verbatim>\<open>SpmEncoding\<close>
  interpret it for the two encoders and show that each ends and equals its reference, that decoding
  inverts byte-level encoding, that the split is the greedy longest match, and that encoding returns
  for every text with valid ids.

  \<^bold>\<open>Requests and streams.\<close> \<^verbatim>\<open>PromptTrimming\<close> models what happens to the messages of a chat request before it
  runs (\<^verbatim>\<open>src/server/PromptTrimmer.cpp\<close>, its caller, and the capacity check of the engine): the trimmed
  conversation keeps what must be kept and fits, and the opener of a forced tool call breaks the fit.
  On the way back each token's text passes \<^verbatim>\<open>ResponseCleaning\<close> (\<^verbatim>\<open>src/model/ResponseCleaner.cpp\<close>: thinking apart
  from the answer), \<^verbatim>\<open>ToolStream\<close> (\<^verbatim>\<open>src/model/ToolCallStreamDetector.cpp\<close>: tool calls apart from text) and
  \<^verbatim>\<open>StreamUtf8\<close> (\<^verbatim>\<open>src/server/SseEncoder.cpp\<close>: whole codepoints). Each holds back a tail that may be the start
  of something; the theorems say what a client receives for every way of cutting the text into tokens:
  \<^verbatim>\<open>ToolStreamChunking\<close> shows by simulation that the detector equals a scan of the whole answer,
  \<^verbatim>\<open>StreamUtf8\<close> that no byte is lost, \<^verbatim>\<open>ResponseCleaning\<close> that thinking never leaks, and exactly which tail
  of an answer never arrives.

  \<^bold>\<open>Weights.\<close> \<^verbatim>\<open>BinaryCodec\<close> has byte cursors with round-trip lemmas, \<^verbatim>\<open>Gguf\<close> the file reader with its
  behaviour on well-formed and on arbitrary bytes, \<^verbatim>\<open>WeightsIndex\<close> the two-level index.
  \<^verbatim>\<open>ChunkAllocation\<close> models both bump allocators behind the locale \<open>chunk_store\<close>, \<^verbatim>\<open>MuninWire\<close> the manifest
  and the frames, \<^verbatim>\<open>MuninLoad\<close> loading into chunks, and \<^verbatim>\<open>MuninHandoff\<close> the session, the transport and
  the client, up to the theorem that an attached worker reads the bytes of the file at every weight
  pointer.

  \<^bold>\<open>Bounds and fuel.\<close> Recursions terminate by measures on the data (prompt left, entries left, bytes
  left). The loops over a queue of merges are partial functions with None for a run that does not end,
  and the encoder theorems show Some. The two service loops, which run as long as the process does, are iterated a given number of
  times; the liveness theorems bound the number that is enough.

  \<^bold>\<open>Not modelled.\<close> Numerical code: the compute kernels and their host wrappers (CUDA, HIP, Level Zero,
  CPU), quantisation formats, the architecture backends and the encoder, audio and draft networks; a
  proof about them would be one about floating point, and the serving theorems take the forward as an
  argument. The rest of \<^verbatim>\<open>ServingSession\<close>: the MTP and DFlash decoders, the Level Zero slab path and
  log-probabilities. The stochastic branches of the sampler. The NVFP4 and safetensors loaders. The
  HTTP layer, most of request parsing and response building, chat templates, the XLM-RoBERTa tokenizer,
  tool-call grammars and the parsers of a captured call: string formats around third-party libraries. Configuration, logging, telemetry, thermal
  control and the command line. Memory reclamation and the C++ memory model: the batcher is
  interleaved at its critical sections.
\<close>

end
